(* ===== verification/Prelude.thy ===== *)
theory Prelude
  imports Main "HOL-Library.Word" "HOL-Library.AList" "HOL-Library.Multiset"
begin

text \<open>
  Shared vocabulary of the development: the C++ character and integer types, the parts of the
  standard library's string functions that several components call, and the generic lemmas on
  lists, decimal numerals and character classes their proofs share.

  A C++ \<open>char\<close> is a byte; \<^typ>\<open>char\<close> has exactly the 256 byte values. The platform's
  \<open>char\<close> is signed, so a byte that is promoted to \<open>int\<close> is read by \<open>char_val\<close>.
\<close>

named_theorems byte_simps \<open>evaluation of byte classes on concrete characters\<close>
named_theorems step_simps \<open>one step of a state machine, per state\<close>

type_synonym s32 = "32 word"
type_synonym u64 = "64 word"

section \<open>Characters as signed bytes\<close>

definition byte :: "char \<Rightarrow> nat" where
  "byte c = of_char c"

definition char_val :: "char \<Rightarrow> int" where
  "char_val c = (if byte c < 128 then int (byte c) else int (byte c) - 256)"

text \<open>\<open>static_cast<char>(value)\<close> keeps the low eight bits.\<close>

definition char_cast :: "int \<Rightarrow> char" where
  "char_cast v = char_of (nat (v mod 256))"

lemma byte_less: "byte c < 256"
  by (cases c) (simp add: byte_def)

lemma byte_char_of: "n < 256 \<Longrightarrow> byte (char_of n) = n"
  by (simp add: byte_def)

lemma char_of_byte [simp]: "char_of (byte c) = c"
  by (simp add: byte_def)

lemma byte_inject: "byte c = byte d \<Longrightarrow> c = d"
  by (metis char_of_byte)

lemma char_val_range: "- 128 \<le> char_val c \<and> char_val c \<le> 127"
  using byte_less [of c] by (simp add: char_val_def)

lemma char_val_inject: "char_val c = char_val d \<Longrightarrow> c = d"
  using byte_less [of c] byte_less [of d]
  by (auto simp: char_val_def intro: byte_inject split: if_splits)

lemma char_cast_char_val [simp]: "char_cast (char_val c) = c"
proof -
  have "char_val c mod 256 = int (byte c)"
    using byte_less [of c] by (simp add: char_val_def)
  then show ?thesis
    by (simp add: char_cast_def)
qed

text \<open>\<open>::tolower\<close> in the C locale.\<close>

definition tolower :: "char \<Rightarrow> char" where
  "tolower c = (if 65 \<le> byte c \<and> byte c \<le> 90 then char_of (byte c + 32) else c)"

section \<open>Decimal numerals\<close>

text \<open>\<open>std::to_string\<close> and \<open>boost::lexical_cast<std::string>\<close> of an unsigned value.\<close>

definition digit_char :: "nat \<Rightarrow> char" where
  "digit_char d = char_of (48 + d)"

definition is_dec :: "char \<Rightarrow> bool" where
  "is_dec c \<longleftrightarrow> 48 \<le> char_val c \<and> char_val c \<le> 57"

fun to_string :: "nat \<Rightarrow> string" where
  "to_string n =
     (if n < 10 then [digit_char n] else to_string (n div 10) @ [digit_char (n mod 10)])"

declare to_string.simps [simp del]

definition digit_val :: "char \<Rightarrow> int" where
  "digit_val c = char_val c - 48"

text \<open>The reading of a digit string that \<open>to_string\<close> inverts.\<close>

definition dec_val :: "string \<Rightarrow> nat" where
  "dec_val ds = foldl (\<lambda>a c. a * 10 + nat (digit_val c)) 0 ds"

lemma digit_char_val: "d < 10 \<Longrightarrow> char_val (digit_char d) = 48 + int d"
  by (simp add: digit_char_def char_val_def byte_char_of)

lemma is_dec_digit_char [simp]: "d < 10 \<Longrightarrow> is_dec (digit_char d)"
  by (simp add: is_dec_def digit_char_val)

lemma digit_val_digit_char [simp]: "d < 10 \<Longrightarrow> digit_val (digit_char d) = int d"
  by (simp add: digit_val_def digit_char_val)

lemma to_string_digits: "\<forall>c \<in> set (to_string n). is_dec c"
proof (induction n rule: to_string.induct)
  case (1 n)
  then show ?case
    by (cases "n < 10") (auto simp: to_string.simps [of n])
qed

lemma to_string_nonempty [simp]: "to_string n \<noteq> []"
  by (subst to_string.simps) simp

lemma dec_val_snoc: "dec_val (ds @ [c]) = dec_val ds * 10 + nat (digit_val c)"
  by (simp add: dec_val_def)

lemma dec_val_single: "dec_val [c] = nat (digit_val c)"
  by (simp add: dec_val_def)

theorem dec_val_to_string [simp]: "dec_val (to_string n) = n"
proof (induction n rule: to_string.induct)
  case (1 n)
  show ?case
  proof (cases "n < 10")
    case True
    then show ?thesis by (simp add: to_string.simps [of n] dec_val_single)
  next
    case False
    with "1.IH" show ?thesis
      by (simp add: to_string.simps [of n] dec_val_snoc)
  qed
qed

lemma to_string_inj: "to_string m = to_string n \<Longrightarrow> m = n"
  by (metis dec_val_to_string)

lemma to_string_digits_le: "n < 10 ^ k \<Longrightarrow> 0 < k \<Longrightarrow> length (to_string n) \<le> k"
proof (induction n arbitrary: k rule: to_string.induct)
  case (1 n)
  show ?case
  proof (cases "n < 10")
    case False
    then obtain m where m: "k = Suc m" "0 < m" using "1.prems" by (cases k; cases "k - 1") auto
    then have "n div 10 < 10 ^ m" using "1.prems" by (simp add: less_mult_imp_div_less mult.commute)
    with "1.IH" False m have "length (to_string (n div 10)) \<le> m" by simp
    with False m show ?thesis by (simp add: to_string.simps [of n])
  qed (use "1.prems" in \<open>simp add: to_string.simps [of n]\<close>)
qed

text \<open>\<open>atoi\<close> for values in the range of \<open>int\<close>: blanks, a sign, digits.\<close>

definition atoi :: "string \<Rightarrow> int" where
  "atoi s =
     (let t = dropWhile (\<lambda>c. byte c = 32 \<or> 9 \<le> byte c \<and> byte c \<le> 13) s;
          digits = (\<lambda>u. int (dec_val (takeWhile is_dec u)))
      in case t of
           [] \<Rightarrow> 0
         | c # u \<Rightarrow> if c = CHR ''-'' then - digits u
                  else if c = CHR ''+'' then digits u else digits t)"

lemma dropWhile_replicate_append: "P x \<Longrightarrow> dropWhile P (replicate n x @ xs) = dropWhile P xs"
  by (induction n) auto

text \<open>\<open>atoi\<close> reads back a numeral that was padded with blanks.\<close>

lemma atoi_padded [simp]: "atoi (replicate k CHR '' '' @ to_string n) = int n"
proof -
  let ?blank = "\<lambda>c. byte c = 32 \<or> 9 \<le> byte c \<and> byte c \<le> 13"
  have dec: "is_dec c" if "c \<in> set (to_string n)" for c using to_string_digits that by blast
  obtain c u where cu: "to_string n = c # u" by (cases "to_string n") auto
  then have c: "is_dec c" using dec by simp
  then have "\<not> ?blank c" "c \<noteq> CHR ''-''" "c \<noteq> CHR ''+''"
    by (auto simp: is_dec_def char_val_def byte_def)
  moreover have "?blank CHR '' ''" by (simp add: byte_def)
  ultimately have drop: "dropWhile ?blank (replicate k CHR '' '' @ c # u) = c # u"
    by (subst dropWhile_replicate_append) auto
  moreover have "takeWhile is_dec (c # u) = c # u" using dec cu by (simp add: takeWhile_eq_all_conv)
  ultimately show ?thesis
    using dec_val_to_string [of n] \<open>c \<noteq> CHR ''-''\<close> \<open>c \<noteq> CHR ''+''\<close>
    unfolding atoi_def Let_def cu drop by simp
qed

section \<open>Lists\<close>

text \<open>An update of \<open>v.back()\<close>; the empty vector has no last element and is left alone.\<close>

fun map_last :: "('a \<Rightarrow> 'a) \<Rightarrow> 'a list \<Rightarrow> 'a list" where
  "map_last f [] = []"
| "map_last f [x] = [f x]"
| "map_last f (x # y # ys) = x # map_last f (y # ys)"

lemma map_last_snoc [simp]: "map_last f (xs @ [x]) = xs @ [f x]"
  by (induction f xs rule: map_last.induct) auto

lemma map_last_eq_Nil [simp]: "map_last f xs = [] \<longleftrightarrow> xs = []"
  by (induction f xs rule: map_last.induct) auto

lemma length_map_last [simp]: "length (map_last f xs) = length xs"
  by (induction f xs rule: map_last.induct) auto

lemma map_last_id [simp]: "map_last (\<lambda>x. x) xs = xs"
  by (cases xs rule: rev_cases) simp_all

lemma map_last_map_last: "map_last f (map_last g xs) = map_last (f \<circ> g) xs"
  by (cases xs rule: rev_cases) simp_all

text \<open>Position of the first occurrence of a pattern, \<open>std::string::find\<close>.\<close>

fun find_sub :: "string \<Rightarrow> string \<Rightarrow> nat option" where
  "find_sub pat [] = (if pat = [] then Some 0 else None)"
| "find_sub pat (c # cs) =
     (if take (length pat) (c # cs) = pat then Some 0
      else map_option Suc (find_sub pat cs))"

definition contains_sub :: "string \<Rightarrow> string \<Rightarrow> bool" where
  "contains_sub pat s \<longleftrightarrow> find_sub pat s \<noteq> None"

lemma find_sub_Some:
  "find_sub pat s = Some i \<Longrightarrow> i + length pat \<le> length s \<and> take (length pat) (drop i s) = pat"
proof (induction s arbitrary: i)
  case Nil
  then show ?case by (auto split: if_splits)
next
  case (Cons c cs)
  show ?case
  proof (cases "take (length pat) (c # cs) = pat")
    case True
    then have "length pat \<le> length (c # cs)"
      by (metis length_take min.cobounded1)
    with True Cons.prems show ?thesis by auto
  next
    case False
    with Cons.prems obtain j where "find_sub pat cs = Some j" "i = Suc j" by auto
    with Cons.IH show ?thesis by auto
  qed
qed

lemma find_sub_None: "find_sub pat s = None \<Longrightarrow> take (length pat) (drop i s) = pat \<Longrightarrow> False"
proof (induction s arbitrary: i)
  case Nil
  then show ?case by (auto split: if_splits)
next
  case (Cons c cs)
  then show ?case
    by (cases i) (auto split: if_splits)
qed

theorem contains_sub_iff: "contains_sub pat s \<longleftrightarrow> (\<exists>u v. s = u @ pat @ v)"
proof
  assume "contains_sub pat s"
  then obtain i where i: "find_sub pat s = Some i" by (auto simp: contains_sub_def)
  have "s = take i s @ pat @ drop (length pat) (drop i s)"
    using find_sub_Some [OF i] by (metis append_take_drop_id)
  then show "\<exists>u v. s = u @ pat @ v" by blast
next
  assume "\<exists>u v. s = u @ pat @ v"
  then obtain u v where "s = u @ pat @ v" by blast
  then have "take (length pat) (drop (length u) s) = pat" by simp
  then show "contains_sub pat s"
    unfolding contains_sub_def using find_sub_None by blast
qed

section \<open>Counting threads by phase\<close>

definition headcount :: "nat \<Rightarrow> ('a \<Rightarrow> bool) \<Rightarrow> (nat \<Rightarrow> 'a) \<Rightarrow> int" where
  "headcount n Q f = (\<Sum>i<n. of_bool (Q (f i)))"

lemma headcount_upd:
  "i < n \<Longrightarrow> headcount n Q (f(i := x)) = headcount n Q f - of_bool (Q (f i)) + of_bool (Q x)"
proof -
  assume i: "i < n"
  have split: "headcount n Q g = of_bool (Q (g i)) + (\<Sum>j\<in>{..<n} - {i}. of_bool (Q (g j)))" for g
    unfolding headcount_def by (rule sum.remove) (use i in auto)
  have "(\<Sum>j\<in>{..<n} - {i}. of_bool (Q ((f(i := x)) j)) :: int) = (\<Sum>j\<in>{..<n} - {i}. of_bool (Q (f j)))"
    by (rule sum.cong) auto
  then show ?thesis unfolding split [of f] split [of "f(i := x)"] by simp
qed

lemma headcount_nonneg: "0 \<le> headcount n Q f"
  unfolding headcount_def by (rule sum_nonneg) simp

lemma headcount_bound: "headcount n Q f \<le> int n"
proof -
  have "headcount n Q f \<le> (\<Sum>i<n. 1)" unfolding headcount_def by (rule sum_mono) simp
  then show ?thesis by simp
qed

lemma headcount_prefix: "m \<le> n \<Longrightarrow> (\<And>i. Q (f i) \<longleftrightarrow> i < m) \<Longrightarrow> headcount n Q f = int m"
proof -
  assume a: "m \<le> n" "\<And>i. Q (f i) \<longleftrightarrow> i < m"
  have "headcount n Q f = (\<Sum>i<n. if i < m then 1 else 0)" unfolding headcount_def a(2) by (rule sum.cong) auto
  also have "\<dots> = int (card ({..<n} \<inter> {i. i < m}))" by (simp add: sum.If_cases)
  also have "{..<n} \<inter> {i. i < m} = {..<m}" using a(1) by auto
  finally show ?thesis by simp
qed

text \<open>In a list sorted by a key, the elements of one key stand together, behind those of smaller keys.\<close>

lemma segment:
  fixes key :: "'a \<Rightarrow> 'k :: linorder"
  shows "sorted (map key xs) \<Longrightarrow>
    take (length (filter (\<lambda>y. key y = k) xs)) (drop (length (filter (\<lambda>y. key y < k) xs)) xs) =
      filter (\<lambda>y. key y = k) xs"
proof (induction xs)
  case (Cons x xs)
  consider "key x < k" | "key x = k" | "key x > k" by (rule linorder_cases)
  then show ?case
  proof cases
    case 1
    with Cons show ?thesis by simp
  next
    case 2
    with Cons.prems have "filter (\<lambda>y. key y < k) xs = []" by (auto simp: filter_empty_conv)
    with Cons 2 show ?thesis by simp
  next
    case 3
    with Cons.prems have "filter (\<lambda>y. key y < k) xs = []" "filter (\<lambda>y. key y = k) xs = []"
      by (auto simp: filter_empty_conv)
    with 3 show ?thesis by simp
  qed
qed simp

lemma segment_bound:
  fixes key :: "'a \<Rightarrow> 'k :: linorder"
  shows "length (filter (\<lambda>y. key y < k) xs) + length (filter (\<lambda>y. key y = k) xs) \<le> length xs"
  by (induction xs) auto

text \<open>Reading the entries of a map back one after the other, each under its own key.\<close>

lemma foldl_update:
  "distinct (map key ns) \<Longrightarrow> \<forall>n \<in> set ns. ok n \<Longrightarrow>
   map_of (foldl (\<lambda>m p. if ok p then AList.update (key p) p m else m) m0 ns) =
     map_of m0 ++ map_of (map (\<lambda>n. (key n, n)) ns)"
proof (induction ns arbitrary: m0)
  case (Cons n ns)
  then have "key n \<notin> dom (map_of (map (\<lambda>n. (key n, n)) ns))" by (auto simp: dom_map_of_conv_image_fst)
  with Cons show ?case by (auto simp: update_conv' fun_eq_iff map_add_def domIff split: option.splits)
qed simp

lemma foldl_update_entries:
  assumes "\<And>k n. (k, n) \<in> set es \<Longrightarrow> key n = k \<and> ok n" "distinct (map fst es)"
  shows "map_of (foldl (\<lambda>m p. if ok p then AList.update (key p) p m else m) [] (map snd es)) = map_of es"
proof -
  have "map (\<lambda>n. (key n, n)) (map snd es) = es" using assms(1) by (auto simp: comp_def intro!: map_idI)
  moreover have "map key (map snd es) = map fst es" using assms(1) by auto
  then have "distinct (map key (map snd es))" using assms(2) by (simp only:)
  from foldl_update [OF this, of ok "[]"] assms(1) have
    "map_of (foldl (\<lambda>m p. if ok p then AList.update (key p) p m else m) [] (map snd es)) =
      map_of (map (\<lambda>n. (key n, n)) (map snd es))" by fastforce
  ultimately show ?thesis by (simp only:)
qed

lemma map_of_permuted:
  assumes "mset es = mset fs" "distinct (map fst fs)"
  shows "map_of es = map_of fs" "distinct (map fst es)" "set es = set fs"
proof -
  show "set es = set fs" using assms(1) by (rule mset_eq_setD)
  moreover show "distinct (map fst es)" using assms by (metis mset_map mset_eq_imp_distinct_iff)
  ultimately show "map_of es = map_of fs" using assms(2) by (metis map_of_inject_set)
qed

lemma sorted_le_last: "sorted (map f ys) \<Longrightarrow> z \<in> set ys \<Longrightarrow> f z \<le> f (last ys)" for f :: "_ \<Rightarrow> 'k :: linorder"
  by (cases ys rule: rev_cases) (auto simp: sorted_append)

end
