(* ===== verification/Request_Parser.thy ===== *)
theory Request_Parser
  imports Prelude
begin

text \<open>
  The incremental HTTP request parser of \<^verbatim>\<open>src/boost/http_server\<close>
  (\<^verbatim>\<open>header.hpp\<close>, \<^verbatim>\<open>request.hpp\<close>, \<^verbatim>\<open>request_parser.hpp\<close>, \<^verbatim>\<open>request_parser.cpp\<close>): one character
  at a time through twenty states, across as many socket reads as the client needs.

  The parser object is its \<open>state_\<close>; \<open>consume\<close> takes that state and the request under
  construction and returns the result with both updated. The version numbers are C++ \<open>int\<close>s
  and are kept at 32 bits. An iterator into the input is the list of the characters that remain.
\<close>

section \<open>Data\<close>

record header =
  hname :: string
  hvalue :: string

record request =
  req_method :: string
  req_uri :: string
  req_http_version_major :: s32
  req_http_version_minor :: s32
  req_headers :: "header list"

datatype result_type = good | bad | indeterminate

datatype state =
    method_start
  | in_method
  | in_uri
  | http_version_h
  | http_version_t_1
  | http_version_t_2
  | http_version_p
  | http_version_slash
  | http_version_major_start
  | http_version_major
  | http_version_minor_start
  | http_version_minor
  | expecting_newline_1
  | header_line_start
  | header_lws
  | header_name
  | space_before_header_value
  | header_value
  | expecting_newline_2
  | expecting_newline_3

text \<open>The constructor and \<open>reset\<close>.\<close>

definition reset :: state where
  "reset = method_start"

section \<open>Character classes\<close>

text \<open>The arguments are \<open>char\<close>s promoted to \<open>int\<close>: a byte above 127 is negative there.\<close>

definition is_char :: "int \<Rightarrow> bool" where
  "is_char c \<longleftrightarrow> 0 \<le> c \<and> c \<le> 127"

definition is_ctl :: "int \<Rightarrow> bool" where
  "is_ctl c \<longleftrightarrow> (0 \<le> c \<and> c \<le> 31) \<or> c = 127"

definition tspecials :: string where
  "tspecials = ''()<>@,;:'' @ [CHR 0x5C, CHR 0x22] @ ''/[]?={} '' @ [CHR 0x09]"

definition is_tspecial :: "int \<Rightarrow> bool" where
  "is_tspecial c \<longleftrightarrow> c \<in> set (map char_val tspecials)"

definition is_digit :: "int \<Rightarrow> bool" where
  "is_digit c \<longleftrightarrow> 48 \<le> c \<and> c \<le> 57"

text \<open>The test of a character that may stand in a method or a header name.\<close>

definition not_token :: "char \<Rightarrow> bool" where
  "not_token c \<longleftrightarrow> \<not> is_char (char_val c) \<or> is_ctl (char_val c) \<or> is_tspecial (char_val c)"

abbreviation CR :: char where "CR \<equiv> CHR 0x0D"
abbreviation LF :: char where "LF \<equiv> CHR 0x0A"
abbreviation TAB :: char where "TAB \<equiv> CHR 0x09"
abbreviation SP :: char where "SP \<equiv> CHR 0x20"

section \<open>The step function\<close>

type_synonym consumed = "result_type \<times> state \<times> request"

definition push_method :: "char \<Rightarrow> request \<Rightarrow> request" where
  "push_method c r = r\<lparr>req_method := req_method r @ [c]\<rparr>"

definition push_uri :: "char \<Rightarrow> request \<Rightarrow> request" where
  "push_uri c r = r\<lparr>req_uri := req_uri r @ [c]\<rparr>"

definition version_digit :: "s32 \<Rightarrow> char \<Rightarrow> s32" where
  "version_digit v c = v * 10 + word_of_int (char_val c) - 48"

definition push_header :: "char \<Rightarrow> request \<Rightarrow> request" where
  "push_header c r = r\<lparr>req_headers := req_headers r @ [\<lparr>hname = [c], hvalue = []\<rparr>]\<rparr>"

definition push_name :: "char \<Rightarrow> request \<Rightarrow> request" where
  "push_name c r =
     r\<lparr>req_headers := map_last (\<lambda>h. h\<lparr>hname := hname h @ [c]\<rparr>) (req_headers r)\<rparr>"

definition push_value :: "char \<Rightarrow> request \<Rightarrow> request" where
  "push_value c r =
     r\<lparr>req_headers := map_last (\<lambda>h. h\<lparr>hvalue := hvalue h @ [c]\<rparr>) (req_headers r)\<rparr>"

text \<open>Lines 31--71: the method and the URI.\<close>

fun consume_target :: "state \<Rightarrow> request \<Rightarrow> char \<Rightarrow> consumed" where
  "consume_target method_start r c =
     (if not_token c then (bad, method_start, r)
      else (indeterminate, in_method, push_method c r))"
| "consume_target in_method r c =
     (if c = SP then (indeterminate, in_uri, r)
      else if not_token c then (bad, in_method, r)
      else (indeterminate, in_method, push_method c r))"
| "consume_target in_uri r c =
     (if c = SP then (indeterminate, http_version_h, r)
      else if is_ctl (char_val c) then (bad, in_uri, r)
      else (indeterminate, in_uri, push_uri c r))"
| "consume_target s r c = (bad, s, r)"

text \<open>Lines 72--185: the protocol version and the end of the request line.\<close>

fun consume_version :: "state \<Rightarrow> request \<Rightarrow> char \<Rightarrow> consumed" where
  "consume_version http_version_h r c =
     (if c = CHR ''H'' then (indeterminate, http_version_t_1, r) else (bad, http_version_h, r))"
| "consume_version http_version_t_1 r c =
     (if c = CHR ''T'' then (indeterminate, http_version_t_2, r) else (bad, http_version_t_1, r))"
| "consume_version http_version_t_2 r c =
     (if c = CHR ''T'' then (indeterminate, http_version_p, r) else (bad, http_version_t_2, r))"
| "consume_version http_version_p r c =
     (if c = CHR ''P'' then (indeterminate, http_version_slash, r) else (bad, http_version_p, r))"
| "consume_version http_version_slash r c =
     (if c = CHR ''/''
      then (indeterminate, http_version_major_start,
            r\<lparr>req_http_version_major := 0, req_http_version_minor := 0\<rparr>)
      else (bad, http_version_slash, r))"
| "consume_version http_version_major_start r c =
     (if is_digit (char_val c)
      then (indeterminate, http_version_major,
            r\<lparr>req_http_version_major := version_digit (req_http_version_major r) c\<rparr>)
      else (bad, http_version_major_start, r))"
| "consume_version http_version_major r c =
     (if c = CHR ''.'' then (indeterminate, http_version_minor_start, r)
      else if is_digit (char_val c)
      then (indeterminate, http_version_major,
            r\<lparr>req_http_version_major := version_digit (req_http_version_major r) c\<rparr>)
      else (bad, http_version_major, r))"
| "consume_version http_version_minor_start r c =
     (if is_digit (char_val c)
      then (indeterminate, http_version_minor,
            r\<lparr>req_http_version_minor := version_digit (req_http_version_minor r) c\<rparr>)
      else (bad, http_version_minor_start, r))"
| "consume_version http_version_minor r c =
     (if c = CR then (indeterminate, expecting_newline_1, r)
      else if is_digit (char_val c)
      then (indeterminate, http_version_minor,
            r\<lparr>req_http_version_minor := version_digit (req_http_version_minor r) c\<rparr>)
      else (bad, http_version_minor, r))"
| "consume_version expecting_newline_1 r c =
     (if c = LF then (indeterminate, header_line_start, r) else (bad, expecting_newline_1, r))"
| "consume_version s r c = (bad, s, r)"

text \<open>Lines 186--281: the header lines, folded continuation lines included, and the end.\<close>

fun consume_headers :: "state \<Rightarrow> request \<Rightarrow> char \<Rightarrow> consumed" where
  "consume_headers header_line_start r c =
     (if c = CR then (indeterminate, expecting_newline_3, r)
      else if req_headers r \<noteq> [] \<and> (c = SP \<or> c = TAB) then (indeterminate, header_lws, r)
      else if not_token c then (bad, header_line_start, r)
      else (indeterminate, header_name, push_header c r))"
| "consume_headers header_lws r c =
     (if c = CR then (indeterminate, expecting_newline_2, r)
      else if c = SP \<or> c = TAB then (indeterminate, header_lws, r)
      else if is_ctl (char_val c) then (bad, header_lws, r)
      else (indeterminate, header_value, push_value c r))"
| "consume_headers header_name r c =
     (if c = CHR '':'' then (indeterminate, space_before_header_value, r)
      else if not_token c then (bad, header_name, r)
      else (indeterminate, header_name, push_name c r))"
| "consume_headers space_before_header_value r c =
     (if c = SP then (indeterminate, header_value, r) else (bad, space_before_header_value, r))"
| "consume_headers header_value r c =
     (if c = CR then (indeterminate, expecting_newline_2, r)
      else if is_ctl (char_val c) then (bad, header_value, r)
      else (indeterminate, header_value, push_value c r))"
| "consume_headers expecting_newline_2 r c =
     (if c = LF then (indeterminate, header_line_start, r) else (bad, expecting_newline_2, r))"
| "consume_headers expecting_newline_3 r c =
     ((if c = LF then good else bad), expecting_newline_3, r)"
| "consume_headers s r c = (bad, s, r)"

fun target_state :: "state \<Rightarrow> bool" where
  "target_state s = (s \<in> {method_start, in_method, in_uri})"

fun version_state :: "state \<Rightarrow> bool" where
  "version_state s =
     (s \<in> {http_version_h, http_version_t_1, http_version_t_2, http_version_p, http_version_slash,
           http_version_major_start, http_version_major, http_version_minor_start,
           http_version_minor, expecting_newline_1})"

definition consume :: "state \<Rightarrow> request \<Rightarrow> char \<Rightarrow> consumed" where
  "consume s r c =
     (if target_state s then consume_target s r c
      else if version_state s then consume_version s r c
      else consume_headers s r c)"

text \<open>
  The member template \<open>parse\<close>: the result, the iterator behind the last character consumed,
  and the parser and request left behind.
\<close>

fun parse :: "state \<Rightarrow> request \<Rightarrow> char list \<Rightarrow> result_type \<times> char list \<times> state \<times> request" where
  "parse s r [] = (indeterminate, [], s, r)"
| "parse s r (c # cs) =
     (case consume s r c of
        (good, s', r') \<Rightarrow> (good, cs, s', r')
      | (bad, s', r') \<Rightarrow> (bad, cs, s', r')
      | (indeterminate, s', r') \<Rightarrow> parse s' r' cs)"

text \<open>
  A freshly constructed \<open>request\<close>: the strings and the vector are empty, the version numbers
  are uninitialised memory and therefore arguments.
\<close>

definition fresh_request :: "s32 \<Rightarrow> s32 \<Rightarrow> request" where
  "fresh_request a b =
     \<lparr>req_method = [], req_uri = [], req_http_version_major = a, req_http_version_minor = b,
      req_headers = []\<rparr>"


section \<open>Chunked input\<close>

text \<open>
  Parsing is independent of how the input is cut into socket reads: an undecided run over
  \<open>xs\<close> continues over \<open>ys\<close> as the run over \<open>xs @ ys\<close>, and a decided one ignores what
  follows except for leaving it unread.
\<close>

lemma parse_append:
  "parse s r (xs @ ys) =
     (case parse s r xs of
        (indeterminate, _, s', r') \<Rightarrow> parse s' r' ys
      | (res, rest, s', r') \<Rightarrow> (res, rest @ ys, s', r'))"
  by (induction xs arbitrary: s r) (auto split: result_type.splits prod.splits)

lemma parse_indeterminate_consumes_all:
  "parse s r xs = (indeterminate, rest, s', r') \<Longrightarrow> rest = []"
  by (induction xs arbitrary: s r) (auto split: result_type.splits prod.splits)

section \<open>The accepting runs\<close>

definition parse_good :: "state \<Rightarrow> request \<Rightarrow> char list \<Rightarrow> (char list \<times> request) option" where
  "parse_good s r cs =
     (case parse s r cs of (good, rest, _, r') \<Rightarrow> Some (rest, r') | _ \<Rightarrow> None)"

lemma parse_good_Nil [simp]: "parse_good s r [] = None"
  by (simp add: parse_good_def)

lemma parse_good_Cons:
  "parse_good s r (c # cs) =
     (case consume s r c of
        (good, _, r') \<Rightarrow> Some (cs, r')
      | (bad, _, _) \<Rightarrow> None
      | (indeterminate, s', r') \<Rightarrow> parse_good s' r' cs)"
  by (auto simp: parse_good_def split: result_type.splits prod.splits)

lemma parse_good_iff:
  "parse_good s r cs = Some (rest, r') \<longleftrightarrow> (\<exists>s'. parse s r cs = (good, rest, s', r'))"
  by (auto simp: parse_good_def split: result_type.splits prod.splits)

text \<open>
  Five of the states scan: they stay put on the characters of a set, storing each, move on at
  one stop character and reject everything else. The contract of such a state, and what an
  accepting run from it looks like, once for all of them.
\<close>

locale scan_state =
  fixes st next_st :: state
    and inner :: "char \<Rightarrow> bool"
    and stop :: char
    and store :: "char \<Rightarrow> request \<Rightarrow> request"
  assumes scan_char: "inner c \<Longrightarrow> consume st r c = (indeterminate, st, store c r)"
    and scan_stop: "consume st r stop = (indeterminate, next_st, r)"
    and scan_reject: "\<not> inner c \<Longrightarrow> c \<noteq> stop \<Longrightarrow> fst (consume st r c) = bad"
    and stop_not_class: "\<not> inner stop"
begin

lemma good_run_intro:
  "\<forall>c \<in> set u. inner c \<Longrightarrow>
   parse_good st r (u @ stop # cs) = parse_good next_st (fold store u r) cs"
  by (induction u arbitrary: r) (simp_all add: parse_good_Cons scan_char scan_stop)

lemma good_run_elim:
  "parse_good st r cs = Some x \<Longrightarrow>
   \<exists>u cs'. cs = u @ stop # cs' \<and> (\<forall>c \<in> set u. inner c)
     \<and> parse_good next_st (fold store u r) cs' = Some x"
proof (induction cs arbitrary: r)
  case Nil
  then show ?case by simp
next
  case (Cons c cs)
  consider "inner c" | "c = stop" | "\<not> inner c" "c \<noteq> stop" by blast
  then show ?case
  proof cases
    case 1
    with Cons.prems have "parse_good st (store c r) cs = Some x"
      by (simp add: parse_good_Cons scan_char)
    from Cons.IH [OF this] obtain u cs' where
      "cs = u @ stop # cs'" "\<forall>c \<in> set u. inner c"
      "parse_good next_st (fold store u (store c r)) cs' = Some x"
      by blast
    with 1 show ?thesis by (intro exI [of _ "c # u"] exI [of _ cs']) simp
  next
    case 2
    with Cons.prems show ?thesis
      by (intro exI [of _ "[]"] exI [of _ cs]) (simp add: parse_good_Cons scan_stop)
  next
    case 3
    then obtain s' r' where "consume st r c = (bad, s', r')"
      using scan_reject [of c r] by (cases "consume st r c") auto
    with Cons.prems show ?thesis by (simp add: parse_good_Cons)
  qed
qed

lemma good_run_iff:
  "parse_good st r cs = Some x \<longleftrightarrow>
   (\<exists>u cs'. cs = u @ stop # cs' \<and> (\<forall>c \<in> set u. inner c)
     \<and> parse_good next_st (fold store u r) cs' = Some x)"
  using good_run_intro good_run_elim by metis

end

definition token_char :: "char \<Rightarrow> bool" where
  "token_char c \<longleftrightarrow> \<not> not_token c"

definition uri_char :: "char \<Rightarrow> bool" where
  "uri_char c \<longleftrightarrow> c \<noteq> SP \<and> \<not> is_ctl (char_val c)"

definition text_char :: "char \<Rightarrow> bool" where
  "text_char c \<longleftrightarrow> \<not> is_ctl (char_val c)"

lemma char_val_eqs [byte_simps]:
  "char_val SP = 32" "char_val CR = 13" "char_val LF = 10" "char_val TAB = 9"
  "char_val CHR '':'' = 58" "char_val CHR ''.'' = 46"
  by (simp_all add: char_val_def byte_def)

lemma is_digit_dec: "is_digit (char_val c) = is_dec c"
  by (simp add: is_digit_def is_dec_def)

lemma special_not_token [byte_simps]: "not_token SP" "not_token CR" "not_token TAB" "not_token CHR '':''"
  by (simp_all add: not_token_def is_tspecial_def tspecials_def is_ctl_def byte_simps)

lemma not_dec [byte_simps]: "\<not> is_dec CR" "\<not> is_dec CHR ''.''"
  by (simp_all add: is_dec_def byte_simps)

lemma ctl_CR [byte_simps]: "is_ctl 13" "is_ctl 10" "is_ctl 9" "\<not> is_ctl 32"
  by (simp_all add: is_ctl_def)

interpretation method_scan: scan_state in_method in_uri token_char SP push_method
  by unfold_locales (auto simp: consume_def token_char_def byte_simps)

interpretation uri_scan: scan_state in_uri http_version_h uri_char SP push_uri
  by unfold_locales (auto simp: consume_def uri_char_def)

interpretation name_scan: scan_state header_name space_before_header_value token_char "CHR '':''" push_name
  by unfold_locales (auto simp: consume_def token_char_def byte_simps)

interpretation value_scan: scan_state header_value expecting_newline_2 text_char CR push_value
  by unfold_locales (auto simp: consume_def text_char_def byte_simps)

interpretation major_scan: scan_state http_version_major http_version_minor_start is_dec "CHR ''.''"
  "\<lambda>c r. r\<lparr>req_http_version_major := version_digit (req_http_version_major r) c\<rparr>"
  by unfold_locales (auto simp: consume_def is_digit_dec byte_simps)

interpretation minor_scan: scan_state http_version_minor expecting_newline_1 is_dec CR
  "\<lambda>c r. r\<lparr>req_http_version_minor := version_digit (req_http_version_minor r) c\<rparr>"
  by unfold_locales (auto simp: consume_def is_digit_dec byte_simps)


section \<open>The request grammar\<close>

text \<open>
  A header block is a list of lines. A field line starts a header; a folded line (white space
  first) continues the value of the header before it, its leading white space dropped.
\<close>

datatype hline = Field string string | Fold string string

fun render_hline :: "hline \<Rightarrow> string" where
  "render_hline (Field n v) = n @ [CHR '':'', SP] @ v @ [CR, LF]"
| "render_hline (Fold w t) = w @ t @ [CR, LF]"

definition is_ws :: "char \<Rightarrow> bool" where
  "is_ws c \<longleftrightarrow> c = SP \<or> c = TAB"

fun wf_hline :: "bool \<Rightarrow> hline \<Rightarrow> bool" where
  "wf_hline _ (Field n v) =
     (n \<noteq> [] \<and> (\<forall>c \<in> set n. token_char c) \<and> (\<forall>c \<in> set v. text_char c))"
| "wf_hline after_field (Fold w t) =
     (after_field \<and> w \<noteq> [] \<and> (\<forall>c \<in> set w. is_ws c) \<and> (\<forall>c \<in> set t. text_char c)
      \<and> (t \<noteq> [] \<longrightarrow> \<not> is_ws (hd t)))"

fun wf_hlines :: "bool \<Rightarrow> hline list \<Rightarrow> bool" where
  "wf_hlines _ [] = True"
| "wf_hlines after_field (l # ls) = (wf_hline after_field l \<and> wf_hlines True ls)"

fun add_hline :: "hline \<Rightarrow> header list \<Rightarrow> header list" where
  "add_hline (Field n v) hs = hs @ [\<lparr>hname = n, hvalue = v\<rparr>]"
| "add_hline (Fold w t) hs = map_last (\<lambda>h. h\<lparr>hvalue := hvalue h @ t\<rparr>) hs"

subsection \<open>What the storing steps add up to\<close>

lemma fold_push_method: "fold push_method u r = r\<lparr>req_method := req_method r @ u\<rparr>"
  by (induction u arbitrary: r) (simp_all add: push_method_def)

lemma fold_push_uri: "fold push_uri u r = r\<lparr>req_uri := req_uri r @ u\<rparr>"
  by (induction u arbitrary: r) (simp_all add: push_uri_def)

lemma fold_push_name:
  "fold push_name u r =
     r\<lparr>req_headers := map_last (\<lambda>h. h\<lparr>hname := hname h @ u\<rparr>) (req_headers r)\<rparr>"
proof (induction u arbitrary: r)
  case Nil
  show ?case by (cases "req_headers r" rule: rev_cases) auto
next
  case (Cons c u)
  then show ?case by (simp add: push_name_def map_last_map_last comp_def)
qed

lemma fold_push_value:
  "fold push_value u r =
     r\<lparr>req_headers := map_last (\<lambda>h. h\<lparr>hvalue := hvalue h @ u\<rparr>) (req_headers r)\<rparr>"
proof (induction u arbitrary: r)
  case Nil
  show ?case by (cases "req_headers r" rule: rev_cases) auto
next
  case (Cons c u)
  then show ?case by (simp add: push_value_def map_last_map_last comp_def)
qed

lemma fold_major:
  "fold (\<lambda>c r. r\<lparr>req_http_version_major := version_digit (req_http_version_major r) c\<rparr>) u r =
     r\<lparr>req_http_version_major := foldl version_digit (req_http_version_major r) u\<rparr>"
  by (induction u arbitrary: r) simp_all

lemma fold_minor:
  "fold (\<lambda>c r. r\<lparr>req_http_version_minor := version_digit (req_http_version_minor r) c\<rparr>) u r =
     r\<lparr>req_http_version_minor := foldl version_digit (req_http_version_minor r) u\<rparr>"
  by (induction u arbitrary: r) simp_all

lemmas fold_stores = fold_push_method fold_push_uri fold_push_name fold_push_value fold_major fold_minor

lemma version_digit_of_nat:
  "is_dec c \<Longrightarrow> version_digit (word_of_nat n) c = word_of_nat (n * 10 + nat (digit_val c))"
  by (simp add: version_digit_def digit_val_def is_dec_def of_nat_nat)

text \<open>A digit string is read modulo \<open>2 ^ 32\<close>.\<close>

lemma version_digits:
  "\<forall>c \<in> set ds. is_dec c \<Longrightarrow> foldl version_digit 0 ds = word_of_nat (dec_val ds)"
proof (induction ds rule: rev_induct)
  case Nil
  then show ?case by (simp add: dec_val_def)
next
  case (snoc c ds)
  then show ?case by (simp add: version_digit_of_nat dec_val_snoc del: of_nat_add of_nat_mult)
qed

subsection \<open>The states that read one character\<close>

lemma parse_good_single:
  "parse_good http_version_h r cs = Some x \<longleftrightarrow>
     (\<exists>cs'. cs = CHR ''H'' # cs' \<and> parse_good http_version_t_1 r cs' = Some x)"
  "parse_good http_version_t_1 r cs = Some x \<longleftrightarrow>
     (\<exists>cs'. cs = CHR ''T'' # cs' \<and> parse_good http_version_t_2 r cs' = Some x)"
  "parse_good http_version_t_2 r cs = Some x \<longleftrightarrow>
     (\<exists>cs'. cs = CHR ''T'' # cs' \<and> parse_good http_version_p r cs' = Some x)"
  "parse_good http_version_p r cs = Some x \<longleftrightarrow>
     (\<exists>cs'. cs = CHR ''P'' # cs' \<and> parse_good http_version_slash r cs' = Some x)"
  "parse_good http_version_slash r cs = Some x \<longleftrightarrow>
     (\<exists>cs'. cs = CHR ''/'' # cs' \<and> parse_good http_version_major_start
        (r\<lparr>req_http_version_major := 0, req_http_version_minor := 0\<rparr>) cs' = Some x)"
  "parse_good expecting_newline_1 r cs = Some x \<longleftrightarrow>
     (\<exists>cs'. cs = LF # cs' \<and> parse_good header_line_start r cs' = Some x)"
  "parse_good expecting_newline_2 r cs = Some x \<longleftrightarrow>
     (\<exists>cs'. cs = LF # cs' \<and> parse_good header_line_start r cs' = Some x)"
  "parse_good expecting_newline_3 r cs = Some x \<longleftrightarrow> (\<exists>cs'. cs = LF # cs' \<and> x = (cs', r))"
  "parse_good space_before_header_value r cs = Some x \<longleftrightarrow>
     (\<exists>cs'. cs = SP # cs' \<and> parse_good header_value r cs' = Some x)"
  by (cases cs; auto simp: parse_good_Cons consume_def)+

text \<open>
  The start states of a method, a header name and a version number want one character of the
  set their scan state then takes any number of.
\<close>

lemma parse_good_method_start:
  "parse_good method_start r cs = Some x \<longleftrightarrow>
     (\<exists>u cs'. u \<noteq> [] \<and> (\<forall>c \<in> set u. token_char c) \<and> cs = u @ SP # cs'
        \<and> parse_good in_uri (r\<lparr>req_method := req_method r @ u\<rparr>) cs' = Some x)"
proof -
  have step: "parse_good method_start r cs = Some x \<longleftrightarrow>
      (\<exists>c cs1. cs = c # cs1 \<and> token_char c \<and> parse_good in_method (push_method c r) cs1 = Some x)"
    by (cases cs) (auto simp: parse_good_Cons consume_def token_char_def)
  show ?thesis
    unfolding step method_scan.good_run_iff fold_stores
    by (fastforce simp: push_method_def neq_Nil_conv)
qed

lemma parse_good_major_start:
  "parse_good http_version_major_start r cs = Some x \<longleftrightarrow>
     (\<exists>u cs'. u \<noteq> [] \<and> (\<forall>c \<in> set u. is_dec c) \<and> cs = u @ CHR ''.'' # cs'
        \<and> parse_good http_version_minor_start
             (r\<lparr>req_http_version_major := foldl version_digit (req_http_version_major r) u\<rparr>) cs'
            = Some x)"
proof -
  have step: "parse_good http_version_major_start r cs = Some x \<longleftrightarrow>
      (\<exists>c cs1. cs = c # cs1 \<and> is_dec c \<and> parse_good http_version_major
         (r\<lparr>req_http_version_major := version_digit (req_http_version_major r) c\<rparr>) cs1 = Some x)"
    by (cases cs) (auto simp: parse_good_Cons consume_def is_digit_dec)
  show ?thesis
    unfolding step major_scan.good_run_iff fold_stores
    by (fastforce simp: neq_Nil_conv)
qed

lemma parse_good_minor_start:
  "parse_good http_version_minor_start r cs = Some x \<longleftrightarrow>
     (\<exists>u cs'. u \<noteq> [] \<and> (\<forall>c \<in> set u. is_dec c) \<and> cs = u @ CR # cs'
        \<and> parse_good expecting_newline_1
             (r\<lparr>req_http_version_minor := foldl version_digit (req_http_version_minor r) u\<rparr>) cs'
            = Some x)"
proof -
  have step: "parse_good http_version_minor_start r cs = Some x \<longleftrightarrow>
      (\<exists>c cs1. cs = c # cs1 \<and> is_dec c \<and> parse_good http_version_minor
         (r\<lparr>req_http_version_minor := version_digit (req_http_version_minor r) c\<rparr>) cs1 = Some x)"
    by (cases cs) (auto simp: parse_good_Cons consume_def is_digit_dec)
  show ?thesis
    unfolding step minor_scan.good_run_iff fold_stores
    by (fastforce simp: neq_Nil_conv)
qed


subsection \<open>Header lines\<close>

lemma parse_good_field:
  "(\<exists>c cs1. cs = c # cs1 \<and> token_char c \<and> parse_good header_name (push_header c r) cs1 = Some x) \<longleftrightarrow>
   (\<exists>n v cs'. wf_hline b (Field n v) \<and> cs = render_hline (Field n v) @ cs'
      \<and> parse_good header_line_start
           (r\<lparr>req_headers := add_hline (Field n v) (req_headers r)\<rparr>) cs' = Some x)"
  (is "?run = ?line")
proof -
  have "?run = (\<exists>c u v cs'. cs = c # u @ CHR '':'' # SP # v @ CR # LF # cs' \<and> token_char c
      \<and> (\<forall>c \<in> set u. token_char c) \<and> (\<forall>c \<in> set v. text_char c)
      \<and> parse_good header_line_start
           (r\<lparr>req_headers := req_headers r @ [\<lparr>hname = c # u, hvalue = v\<rparr>]\<rparr>) cs' = Some x)"
    unfolding name_scan.good_run_iff value_scan.good_run_iff parse_good_single fold_stores
    by (simp add: push_header_def) blast
  also have "\<dots> = ?line"
    by (fastforce simp: neq_Nil_conv)
  finally show ?thesis .
qed

lemma parse_good_value:
  "parse_good header_value r cs = Some x \<longleftrightarrow>
     (\<exists>t cs'. (\<forall>c \<in> set t. text_char c) \<and> cs = t @ CR # LF # cs'
        \<and> parse_good header_line_start
             (r\<lparr>req_headers := map_last (\<lambda>h. h\<lparr>hvalue := hvalue h @ t\<rparr>) (req_headers r)\<rparr>) cs'
            = Some x)"
  unfolding value_scan.good_run_iff parse_good_single fold_stores by blast

definition fold_text :: "string \<Rightarrow> bool" where
  "fold_text t \<longleftrightarrow> (\<forall>c \<in> set t. text_char c) \<and> (t \<noteq> [] \<longrightarrow> \<not> is_ws (hd t))"

lemma lws_step:
  "parse_good header_lws r (c # cs) =
     (if c = CR then parse_good expecting_newline_2 r cs
      else if is_ws c then parse_good header_lws r cs
      else if text_char c then parse_good header_value (push_value c r) cs
      else None)"
  by (auto simp: parse_good_Cons consume_def is_ws_def text_char_def)

definition fold_run :: "request \<Rightarrow> char list \<Rightarrow> char list \<times> request \<Rightarrow> bool" where
  "fold_run r cs x \<longleftrightarrow>
     (\<exists>w t cs'. (\<forall>c \<in> set w. is_ws c) \<and> fold_text t \<and> cs = w @ t @ CR # LF # cs'
        \<and> parse_good header_line_start
             (r\<lparr>req_headers := map_last (\<lambda>h. h\<lparr>hvalue := hvalue h @ t\<rparr>) (req_headers r)\<rparr>) cs'
            = Some x)"

lemma ws_stop [simp]: "\<not> is_ws CR" "\<not> text_char CR"
  by (simp_all add: is_ws_def text_char_def byte_simps)

lemma fold_runI:
  "\<forall>c \<in> set w. is_ws c \<Longrightarrow> fold_text t \<Longrightarrow> cs = w @ t @ CR # LF # cs' \<Longrightarrow>
   parse_good header_line_start
     (r\<lparr>req_headers := map_last (\<lambda>h. h\<lparr>hvalue := hvalue h @ t\<rparr>) (req_headers r)\<rparr>) cs' = Some x \<Longrightarrow>
   fold_run r cs x"
  unfolding fold_run_def by blast

lemma fold_run_elim:
  assumes "fold_run r (c # cs) x"
  shows "(c = CR \<and> parse_good expecting_newline_2 r cs = Some x)
     \<or> (is_ws c \<and> fold_run r cs x)
     \<or> (text_char c \<and> \<not> is_ws c \<and> parse_good header_value (push_value c r) cs = Some x)"
proof -
  from assms obtain w t cs' where *: "\<forall>c \<in> set w. is_ws c" "fold_text t"
    "c # cs = w @ t @ CR # LF # cs'"
    "parse_good header_line_start
       (r\<lparr>req_headers := map_last (\<lambda>h. h\<lparr>hvalue := hvalue h @ t\<rparr>) (req_headers r)\<rparr>) cs' = Some x"
    unfolding fold_run_def by blast
  consider d w' where "w = d # w'" | "w = []" "t = []" | d t' where "w = []" "t = d # t'"
    by (meson list.exhaust)
  then show ?thesis
  proof cases
    case 1
    with * show ?thesis by (auto simp: fold_run_def)
  next
    case 2
    with * show ?thesis by (auto simp: parse_good_single)
  next
    case 3
    with * show ?thesis
      by (fastforce simp: parse_good_value fold_text_def push_value_def map_last_map_last comp_def)
  qed
qed

lemma fold_run_stop: "parse_good expecting_newline_2 r cs = Some x \<Longrightarrow> fold_run r (CR # cs) x"
  by (auto simp: parse_good_single fold_text_def intro: fold_runI [of "[]" "[]"])

lemma fold_run_ws: "is_ws c \<Longrightarrow> fold_run r cs x \<Longrightarrow> fold_run r (c # cs) x"
proof -
  assume ws: "is_ws c" and "fold_run r cs x"
  then obtain w t cs' where "\<forall>c \<in> set w. is_ws c" "fold_text t" "cs = w @ t @ CR # LF # cs'"
    "parse_good header_line_start
       (r\<lparr>req_headers := map_last (\<lambda>h. h\<lparr>hvalue := hvalue h @ t\<rparr>) (req_headers r)\<rparr>) cs' = Some x"
    unfolding fold_run_def by blast
  with ws show ?thesis by (intro fold_runI [of "c # w" t]) simp_all
qed

lemma fold_run_text:
  assumes "text_char c" "\<not> is_ws c" "parse_good header_value (push_value c r) cs = Some x"
  shows "fold_run r (c # cs) x"
proof -
  from assms(3) obtain t cs' where "\<forall>c \<in> set t. text_char c" "cs = t @ CR # LF # cs'"
    "parse_good header_line_start
       (r\<lparr>req_headers := map_last (\<lambda>h. h\<lparr>hvalue := hvalue h @ c # t\<rparr>) (req_headers r)\<rparr>) cs' = Some x"
    by (auto simp: parse_good_value push_value_def map_last_map_last comp_def)
  with assms(1,2) show ?thesis
    by (intro fold_runI [of "[]" "c # t"]) (simp_all add: fold_text_def)
qed

lemma fold_run_Cons:
  "fold_run r (c # cs) x \<longleftrightarrow>
     (c = CR \<and> parse_good expecting_newline_2 r cs = Some x)
     \<or> (is_ws c \<and> fold_run r cs x)
     \<or> (text_char c \<and> \<not> is_ws c \<and> parse_good header_value (push_value c r) cs = Some x)"
  using fold_run_elim fold_run_stop fold_run_ws fold_run_text by blast

lemma parse_good_lws: "parse_good header_lws r cs = Some x \<longleftrightarrow> fold_run r cs x"
proof (induction cs arbitrary: r)
  case Nil
  show ?case by (simp add: fold_run_def)
next
  case (Cons c cs)
  then show ?case
    by (auto simp: lws_step fold_run_Cons)
qed


definition hline_run :: "request \<Rightarrow> char list \<Rightarrow> char list \<times> request \<Rightarrow> hline \<Rightarrow> char list \<Rightarrow> bool" where
  "hline_run r cs x l cs' \<longleftrightarrow>
     wf_hline (req_headers r \<noteq> []) l \<and> cs = render_hline l @ cs'
     \<and> parse_good header_line_start (r\<lparr>req_headers := add_hline l (req_headers r)\<rparr>) cs' = Some x"

lemma line_start_step:
  "parse_good header_line_start r (c # cs) =
     (if c = CR then parse_good expecting_newline_3 r cs
      else if req_headers r \<noteq> [] \<and> is_ws c then parse_good header_lws r cs
      else if token_char c then parse_good header_name (push_header c r) cs
      else None)"
  by (auto simp: parse_good_Cons consume_def is_ws_def token_char_def)

lemma ws_not_token [simp]: "is_ws c \<Longrightarrow> \<not> token_char c" "\<not> token_char CR"
  by (auto simp: is_ws_def token_char_def byte_simps)

lemma parse_good_fold_line:
  assumes "is_ws c" "req_headers r \<noteq> []"
  shows "parse_good header_lws r cs = Some x \<longleftrightarrow>
    (\<exists>w t cs'. hline_run r (c # cs) x (Fold (c # w) t) cs')"
  using assms unfolding parse_good_lws fold_run_def hline_run_def fold_text_def by simp

lemma hline_elim:
  assumes "parse_good header_line_start r cs = Some x"
  shows "(\<exists>rest. cs = CR # LF # rest \<and> x = (rest, r)) \<or> (\<exists>l cs'. hline_run r cs x l cs')"
proof -
  from assms obtain c cs1 where cs: "cs = c # cs1" by (cases cs) auto
  consider "c = CR" "parse_good expecting_newline_3 r cs1 = Some x"
    | "req_headers r \<noteq> []" "is_ws c" "parse_good header_lws r cs1 = Some x"
    | "token_char c" "parse_good header_name (push_header c r) cs1 = Some x"
    using assms cs by (auto simp: line_start_step split: if_splits)
  then show ?thesis
  proof cases
    case 1
    with cs show ?thesis by (auto simp: parse_good_single)
  next
    case 2
    with cs show ?thesis using parse_good_fold_line by blast
  next
    case 3
    then have "\<exists>n v cs'. hline_run r cs x (Field n v) cs'"
      using parse_good_field [of cs r x "req_headers r \<noteq> []"] cs unfolding hline_run_def by blast
    then show ?thesis by blast
  qed
qed

lemma hline_intro:
  assumes "hline_run r cs x l cs'"
  shows "parse_good header_line_start r cs = Some x"
proof (cases l)
  case (Field n v)
  with assms obtain c cs1 where "cs = c # cs1" "token_char c"
    "parse_good header_name (push_header c r) cs1 = Some x"
    using parse_good_field [of cs r x "req_headers r \<noteq> []"] unfolding hline_run_def by blast
  then show ?thesis by (auto simp: line_start_step)
next
  case (Fold w t)
  with assms obtain c w' where w: "w = c # w'" "is_ws c" "req_headers r \<noteq> []"
    by (auto simp: hline_run_def neq_Nil_conv)
  with assms Fold obtain cs1 where cs: "cs = c # cs1" by (auto simp: hline_run_def)
  with assms Fold w have "parse_good header_lws r cs1 = Some x"
    using parse_good_fold_line by blast
  with cs w show ?thesis by (auto simp: line_start_step)
qed

lemma hlines_intro:
  "wf_hlines (req_headers r \<noteq> []) ls \<Longrightarrow>
   parse_good header_line_start r (concat (map render_hline ls) @ CR # LF # rest) =
     Some (rest, r\<lparr>req_headers := fold add_hline ls (req_headers r)\<rparr>)"
proof (induction ls arbitrary: r)
  case Nil
  show ?case by (simp add: line_start_step parse_good_single)
next
  case (Cons l ls)
  let ?r = "r\<lparr>req_headers := add_hline l (req_headers r)\<rparr>"
  from Cons.prems have ne: "req_headers ?r \<noteq> []" by (cases l) auto
  with Cons.prems have "wf_hlines (req_headers ?r \<noteq> []) ls" by simp
  from Cons.IH [OF this] Cons.prems show ?case
    by (intro hline_intro [where l = l]) (simp add: hline_run_def)
qed

lemma hlines_elim:
  "parse_good header_line_start r cs = Some (rest, r') \<Longrightarrow>
     \<exists>ls. wf_hlines (req_headers r \<noteq> []) ls
        \<and> cs = concat (map render_hline ls) @ CR # LF # rest
        \<and> r' = r\<lparr>req_headers := fold add_hline ls (req_headers r)\<rparr>"
proof (induction "length cs" arbitrary: cs r rule: less_induct)
  case less
  from hline_elim [OF less.prems] show ?case
  proof
    assume "\<exists>rest'. cs = CR # LF # rest' \<and> (rest, r') = (rest', r)"
    then show ?thesis by (intro exI [of _ "[]"]) auto
  next
    assume "\<exists>l cs'. hline_run r cs (rest, r') l cs'"
    then obtain l cs' where h: "hline_run r cs (rest, r') l cs'" by blast
    let ?r = "r\<lparr>req_headers := add_hline l (req_headers r)\<rparr>"
    have "length cs' < length cs" and ne: "req_headers ?r \<noteq> []"
      using h by (cases l; auto simp: hline_run_def)+
    moreover have "parse_good header_line_start ?r cs' = Some (rest, r')"
      using h by (simp add: hline_run_def)
    ultimately obtain ls where "wf_hlines True ls"
      "cs' = concat (map render_hline ls) @ CR # LF # rest"
      "r' = ?r\<lparr>req_headers := fold add_hline ls (req_headers ?r)\<rparr>"
      using less.hyps [of cs' ?r] by auto
    with h show ?thesis by (intro exI [of _ "l # ls"]) (simp add: hline_run_def)
  qed
qed

lemma parse_good_hlines:
  "parse_good header_line_start r cs = Some (rest, r') \<longleftrightarrow>
     (\<exists>ls. wf_hlines (req_headers r \<noteq> []) ls
        \<and> cs = concat (map render_hline ls) @ CR # LF # rest
        \<and> r' = r\<lparr>req_headers := fold add_hline ls (req_headers r)\<rparr>)"
  using hlines_elim hlines_intro by blast


section \<open>The parser accepts exactly the grammar\<close>

text \<open>The parts of a message head, its well-formedness, its text and the request it denotes.\<close>

record message =
  m_method :: string
  m_uri :: string
  m_major :: string
  m_minor :: string
  m_lines :: "hline list"

definition wf_message :: "message \<Rightarrow> bool" where
  "wf_message m \<longleftrightarrow>
     m_method m \<noteq> [] \<and> (\<forall>c \<in> set (m_method m). token_char c)
     \<and> (\<forall>c \<in> set (m_uri m). uri_char c)
     \<and> m_major m \<noteq> [] \<and> (\<forall>c \<in> set (m_major m). is_dec c)
     \<and> m_minor m \<noteq> [] \<and> (\<forall>c \<in> set (m_minor m). is_dec c)
     \<and> wf_hlines False (m_lines m)"

definition render_message :: "message \<Rightarrow> string" where
  "render_message m =
     m_method m @ [SP] @ m_uri m @ [SP] @ ''HTTP/'' @ m_major m @ ''.'' @ m_minor m @ [CR, LF]
     @ concat (map render_hline (m_lines m)) @ [CR, LF]"

definition message_request :: "message \<Rightarrow> request" where
  "message_request m =
     \<lparr>req_method = m_method m, req_uri = m_uri m,
      req_http_version_major = word_of_nat (dec_val (m_major m)),
      req_http_version_minor = word_of_nat (dec_val (m_minor m)),
      req_headers = fold add_hline (m_lines m) []\<rparr>"

lemma request_line_elim:
  assumes "parse_good method_start (fresh_request a b) cs = Some x"
  obtains me u ma mi cs' where
    "me \<noteq> []" "\<forall>c \<in> set me. token_char c" "\<forall>c \<in> set u. uri_char c"
    "ma \<noteq> []" "\<forall>c \<in> set ma. is_dec c" "mi \<noteq> []" "\<forall>c \<in> set mi. is_dec c"
    "cs = me @ SP # u @ SP # ''HTTP/'' @ ma @ CHR ''.'' # mi @ CR # LF # cs'"
    "parse_good header_line_start
       \<lparr>req_method = me, req_uri = u, req_http_version_major = foldl version_digit 0 ma,
        req_http_version_minor = foldl version_digit 0 mi, req_headers = []\<rparr> cs' = Some x"
proof -
  from assms obtain me cs1 where me: "me \<noteq> []" "\<forall>c \<in> set me. token_char c" "cs = me @ SP # cs1"
    and 1: "parse_good in_uri ((fresh_request a b)\<lparr>req_method := me\<rparr>) cs1 = Some x"
    unfolding parse_good_method_start by (auto simp: fresh_request_def)
  from 1 obtain u cs2 where u: "\<forall>c \<in> set u. uri_char c" "cs1 = u @ SP # cs2"
    and 2: "parse_good http_version_h
      ((fresh_request a b)\<lparr>req_method := me, req_uri := u\<rparr>) cs2 = Some x"
    unfolding uri_scan.good_run_iff fold_stores by (auto simp: fresh_request_def)
  from 2 obtain cs3 where h: "cs2 = ''HTTP/'' @ cs3"
    and 3: "parse_good http_version_major_start
      (fresh_request 0 0\<lparr>req_method := me, req_uri := u\<rparr>) cs3 = Some x"
    unfolding parse_good_single by (auto simp: fresh_request_def)
  from 3 obtain ma cs4 where ma: "ma \<noteq> []" "\<forall>c \<in> set ma. is_dec c" "cs3 = ma @ CHR ''.'' # cs4"
    and 4: "parse_good http_version_minor_start
      (fresh_request (foldl version_digit 0 ma) 0\<lparr>req_method := me, req_uri := u\<rparr>) cs4 = Some x"
    unfolding parse_good_major_start by (auto simp: fresh_request_def)
  from 4 obtain mi cs5 where mi: "mi \<noteq> []" "\<forall>c \<in> set mi. is_dec c" "cs4 = mi @ CR # LF # cs5"
    and 5: "parse_good header_line_start (fresh_request (foldl version_digit 0 ma)
      (foldl version_digit 0 mi)\<lparr>req_method := me, req_uri := u\<rparr>) cs5 = Some x"
    unfolding parse_good_minor_start parse_good_single by (auto simp: fresh_request_def)
  from me u h ma mi have "cs = me @ SP # u @ SP # ''HTTP/'' @ ma @ CHR ''.'' # mi @ CR # LF # cs5"
    by simp
  then show ?thesis
    using that me u ma mi 5 by (simp add: fresh_request_def)
qed

lemma start_intros:
  "me \<noteq> [] \<Longrightarrow> \<forall>c \<in> set me. token_char c \<Longrightarrow>
     parse_good method_start r (me @ SP # cs) =
     parse_good in_uri (r\<lparr>req_method := req_method r @ me\<rparr>) cs"
  "\<forall>c \<in> set u. uri_char c \<Longrightarrow>
     parse_good in_uri r (u @ SP # cs) =
     parse_good http_version_h (r\<lparr>req_uri := req_uri r @ u\<rparr>) cs"
  "ma \<noteq> [] \<Longrightarrow> \<forall>c \<in> set ma. is_dec c \<Longrightarrow>
     parse_good http_version_major_start r (ma @ CHR ''.'' # cs) =
     parse_good http_version_minor_start
       (r\<lparr>req_http_version_major := foldl version_digit (req_http_version_major r) ma\<rparr>) cs"
  "mi \<noteq> [] \<Longrightarrow> \<forall>c \<in> set mi. is_dec c \<Longrightarrow>
     parse_good http_version_minor_start r (mi @ CR # cs) =
     parse_good expecting_newline_1
       (r\<lparr>req_http_version_minor := foldl version_digit (req_http_version_minor r) mi\<rparr>) cs"
  by (cases me; simp add: parse_good_Cons consume_def token_char_def push_method_def
        method_scan.good_run_intro [unfolded fold_stores token_char_def])
    (simp add: uri_scan.good_run_intro [unfolded fold_stores],
     (cases ma; simp add: parse_good_Cons consume_def is_digit_dec
        major_scan.good_run_intro [unfolded fold_stores]),
     (cases mi; simp add: parse_good_Cons consume_def is_digit_dec
        minor_scan.good_run_intro [unfolded fold_stores]))

lemma version_intro:
  "parse_good http_version_h r
     (CHR ''H'' # CHR ''T'' # CHR ''T'' # CHR ''P'' # CHR ''/'' # cs) =
     parse_good http_version_major_start
       (r\<lparr>req_http_version_major := 0, req_http_version_minor := 0\<rparr>) cs"
  "parse_good expecting_newline_1 r (LF # cs) = parse_good header_line_start r cs"
  by (simp_all add: parse_good_Cons consume_def)

lemma request_line_intro:
  "me \<noteq> [] \<Longrightarrow> \<forall>c \<in> set me. token_char c \<Longrightarrow> \<forall>c \<in> set u. uri_char c \<Longrightarrow>
   ma \<noteq> [] \<Longrightarrow> \<forall>c \<in> set ma. is_dec c \<Longrightarrow> mi \<noteq> [] \<Longrightarrow> \<forall>c \<in> set mi. is_dec c \<Longrightarrow>
   parse_good method_start (fresh_request a b)
     (me @ SP # u @ SP # ''HTTP/'' @ ma @ CHR ''.'' # mi @ CR # LF # cs) =
   parse_good header_line_start
     \<lparr>req_method = me, req_uri = u, req_http_version_major = foldl version_digit 0 ma,
      req_http_version_minor = foldl version_digit 0 mi, req_headers = []\<rparr> cs"
  by (simp add: start_intros version_intro) (simp add: fresh_request_def)

text \<open>
  C1. From a fresh parser and a fresh request, whatever the uninitialised version numbers
  contain, \<open>parse\<close> reports \<open>good\<close> exactly on the inputs that start with a well-formed
  message head; it then leaves precisely the rest of the input unread and the request holds the
  head's method, URI, version numbers (modulo \<open>2 ^ 32\<close>) and headers, folded lines joined.
\<close>

theorem parse_accepts_grammar:
  "(\<exists>s'. parse reset (fresh_request a b) cs = (good, rest, s', r)) \<longleftrightarrow>
   (\<exists>m. wf_message m \<and> cs = render_message m @ rest \<and> r = message_request m)"
  (is "?run \<longleftrightarrow> ?msg")
proof
  assume ?run
  then have "parse_good method_start (fresh_request a b) cs = Some (rest, r)"
    unfolding parse_good_iff reset_def .
  then obtain me u ma mi cs' where line: "me \<noteq> []" "\<forall>c \<in> set me. token_char c"
    "\<forall>c \<in> set u. uri_char c" "ma \<noteq> []" "\<forall>c \<in> set ma. is_dec c" "mi \<noteq> []" "\<forall>c \<in> set mi. is_dec c"
    "cs = me @ SP # u @ SP # ''HTTP/'' @ ma @ CHR ''.'' # mi @ CR # LF # cs'"
    and hdrs: "parse_good header_line_start
       \<lparr>req_method = me, req_uri = u, req_http_version_major = foldl version_digit 0 ma,
        req_http_version_minor = foldl version_digit 0 mi, req_headers = []\<rparr> cs' = Some (rest, r)"
    by (rule request_line_elim)
  from hlines_elim [OF hdrs] obtain ls where "wf_hlines False ls"
    "cs' = concat (map render_hline ls) @ CR # LF # rest"
    "r = \<lparr>req_method = me, req_uri = u, req_http_version_major = foldl version_digit 0 ma,
          req_http_version_minor = foldl version_digit 0 mi, req_headers = fold add_hline ls []\<rparr>"
    by auto
  with line show ?msg
    by (intro exI [of _ "\<lparr>m_method = me, m_uri = u, m_major = ma, m_minor = mi, m_lines = ls\<rparr>"])
      (simp add: wf_message_def render_message_def message_request_def version_digits)
next
  assume ?msg
  then obtain m where m: "wf_message m" "cs = render_message m @ rest" "r = message_request m"
    by blast
  then have "parse_good method_start (fresh_request a b) cs = Some (rest, r)"
    using request_line_intro hlines_intro
    by (simp add: wf_message_def render_message_def message_request_def version_digits)
  then show ?run
    unfolding parse_good_iff reset_def .
qed

section \<open>The uninitialised version numbers do not matter\<close>

definition before_version :: "state \<Rightarrow> bool" where
  "before_version s \<longleftrightarrow>
     s \<in> {method_start, in_method, in_uri, http_version_h, http_version_t_1, http_version_t_2,
          http_version_p, http_version_slash}"

definition version_rel :: "state \<Rightarrow> request \<Rightarrow> request \<Rightarrow> bool" where
  "version_rel s r q \<longleftrightarrow>
     (if before_version s
      then q = r\<lparr>req_http_version_major := req_http_version_major q,
                 req_http_version_minor := req_http_version_minor q\<rparr>
      else q = r)"

lemma version_rel_consume:
  "version_rel s r q \<Longrightarrow> consume s r c = (res, s', r') \<Longrightarrow>
   \<exists>q'. consume s q c = (res, s', q') \<and> version_rel s' r' q'"
  by (cases s; cases r; cases q)
    (auto simp: version_rel_def before_version_def consume_def push_method_def push_uri_def
       split: if_splits)

lemma version_rel_parse:
  "version_rel s r q \<Longrightarrow> parse s r cs = (res, rest, s', r') \<Longrightarrow>
   \<exists>q'. parse s q cs = (res, rest, s', q') \<and> version_rel s' r' q'"
proof (induction cs arbitrary: s r q)
  case Nil
  then show ?case by simp
next
  case (Cons c cs)
  obtain res1 s1 r1 where step: "consume s r c = (res1, s1, r1)" by (metis prod_cases3)
  with Cons.prems(1) obtain q1 where "consume s q c = (res1, s1, q1)" "version_rel s1 r1 q1"
    using version_rel_consume by blast
  with Cons step show ?case by (cases res1) auto
qed

lemma consume_good_state: "consume s r c = (good, s', r') \<Longrightarrow> s' = expecting_newline_3"
  by (cases s) (auto simp: consume_def split: if_splits)

lemma parse_good_state: "parse s r cs = (good, rest, s', r') \<Longrightarrow> s' = expecting_newline_3"
  by (induction cs arbitrary: s r)
    (auto split: result_type.splits prod.splits dest: consume_good_state)

lemma version_rel_fresh: "version_rel reset (fresh_request a b) (fresh_request a' b')"
  by (simp add: version_rel_def before_version_def reset_def fresh_request_def)

lemma parse_fresh_good:
  "parse reset (fresh_request a b) cs = (good, rest, s', r) \<Longrightarrow>
   parse reset (fresh_request a' b') cs = (good, rest, s', r)"
  using version_rel_parse [OF version_rel_fresh] parse_good_state
  by (fastforce simp: version_rel_def before_version_def)

lemma parse_fresh_result:
  "fst (parse reset (fresh_request a b) cs) = fst (parse reset (fresh_request a' b') cs)"
  by (metis fst_conv prod_cases4 version_rel_fresh version_rel_parse)

section \<open>Access to the last header\<close>

text \<open>The states whose transitions use \<open>req.headers.back()\<close>, or lead to one that does.\<close>

definition uses_back :: "state \<Rightarrow> bool" where
  "uses_back s \<longleftrightarrow>
     s \<in> {header_lws, header_name, space_before_header_value, header_value}"

definition back_ok :: "state \<Rightarrow> request \<Rightarrow> bool" where
  "back_ok s r \<longleftrightarrow> (uses_back s \<longrightarrow> req_headers r \<noteq> [])"

lemma consume_back_ok: "back_ok s r \<Longrightarrow> consume s r c = (res, s', r') \<Longrightarrow> back_ok s' r'"
  by (cases s)
    (auto simp: back_ok_def uses_back_def consume_def push_method_def push_uri_def push_header_def
       push_name_def push_value_def split: if_splits)

lemma parse_back_ok: "back_ok s r \<Longrightarrow> parse s r cs = (res, rest, s', r') \<Longrightarrow> back_ok s' r'"
proof (induction cs arbitrary: s r)
  case Nil
  then show ?case by simp
next
  case (Cons c cs)
  obtain res1 s1 r1 where step: "consume s r c = (res1, s1, r1)" by (metis prod_cases3)
  with Cons.prems(1) have "back_ok s1 r1" by (rule consume_back_ok)
  with Cons step show ?case by (cases res1) auto
qed

text \<open>
  C2. \<open>headers.back()\<close> is never evaluated on an empty vector: after any input from a fresh
  parser, the parser is in a state that uses the last header only if there is one.
\<close>

theorem parse_never_uses_missing_header:
  "case parse reset (fresh_request a b) cs of (_, _, s, r) \<Rightarrow> uses_back s \<longrightarrow> req_headers r \<noteq> []"
proof -
  have "back_ok reset (fresh_request a b)"
    by (simp add: back_ok_def uses_back_def reset_def)
  then show ?thesis
    using parse_back_ok [of reset "fresh_request a b" cs]
    by (auto simp: back_ok_def split: prod.splits)
qed


text \<open>The witness: a run that stops in the middle of a header name.\<close>

definition partial_head :: string where
  "partial_head = ''GET / HTTP/1.0'' @ [CR, LF] @ ''Ho''"

theorem parse_never_uses_missing_header_witness:
  "case parse reset (fresh_request 7 9) partial_head of
     (_, _, s, r) \<Rightarrow> uses_back s \<and> req_headers r \<noteq> []"
proof -
  have "case parse reset (fresh_request 7 9) partial_head of (_, _, s, _) \<Rightarrow> uses_back s"
    by code_simp
  then show ?thesis
    using parse_never_uses_missing_header [of 7 9 partial_head] by (auto split: prod.splits)
qed

end
