(* ===== verification/Reply.thy ===== *)
theory Reply
  imports Request_Parser
begin

text \<open>
  Replies of \<^verbatim>\<open>src/boost/http_server/reply.hpp\<close> and \<^verbatim>\<open>reply.cpp\<close>: the status codes, the
  conversion of a reply into the sequence of buffers written to the socket, and the stock
  replies. A \<open>const_buffer\<close> is the byte string it refers to; an \<open>unnamed\<close> status is a value
  of the enumeration's underlying type that names no enumerator (the \<open>default\<close> branches).
\<close>

section \<open>Status codes\<close>

datatype status_type =
    ok
  | created
  | accepted
  | no_content
  | multiple_choices
  | moved_permanently
  | moved_temporarily
  | not_modified
  | bad_request
  | unauthorized
  | forbidden
  | not_found
  | internal_server_error
  | not_implemented
  | bad_gateway
  | service_unavailable
  | unnamed int

fun status_code :: "status_type \<Rightarrow> int" where
  "status_code (unnamed n) = n"
| "status_code ok = 200"
| "status_code created = 201"
| "status_code accepted = 202"
| "status_code no_content = 204"
| "status_code multiple_choices = 300"
| "status_code moved_permanently = 301"
| "status_code moved_temporarily = 302"
| "status_code not_modified = 304"
| "status_code bad_request = 400"
| "status_code unauthorized = 401"
| "status_code forbidden = 403"
| "status_code not_found = 404"
| "status_code internal_server_error = 500"
| "status_code not_implemented = 501"
| "status_code bad_gateway = 502"
| "status_code service_unavailable = 503"

record reply =
  rep_status :: status_type
  rep_headers :: "header list"
  rep_content :: string

section \<open>Serialisation\<close>

text \<open>\<open>misc_strings\<close>.\<close>

definition name_value_separator :: string where
  "name_value_separator = [CHR '':'', SP]"

definition crlf :: string where
  "crlf = [CR, LF]"

text \<open>\<open>status_strings::to_buffer\<close>.\<close>

fun to_buffer :: "status_type \<Rightarrow> string" where
  "to_buffer ok = ''HTTP/1.0 200 OK'' @ crlf"
| "to_buffer created = ''HTTP/1.0 201 Created'' @ crlf"
| "to_buffer accepted = ''HTTP/1.0 202 Accepted'' @ crlf"
| "to_buffer no_content = ''HTTP/1.0 204 No Content'' @ crlf"
| "to_buffer multiple_choices = ''HTTP/1.0 300 Multiple Choices'' @ crlf"
| "to_buffer moved_permanently = ''HTTP/1.0 301 Moved Permanently'' @ crlf"
| "to_buffer moved_temporarily = ''HTTP/1.0 302 Moved Temporarily'' @ crlf"
| "to_buffer not_modified = ''HTTP/1.0 304 Not Modified'' @ crlf"
| "to_buffer bad_request = ''HTTP/1.0 400 Bad Request'' @ crlf"
| "to_buffer unauthorized = ''HTTP/1.0 401 Unauthorized'' @ crlf"
| "to_buffer forbidden = ''HTTP/1.0 403 Forbidden'' @ crlf"
| "to_buffer not_found = ''HTTP/1.0 404 Not Found'' @ crlf"
| "to_buffer internal_server_error = ''HTTP/1.0 500 Internal Server Error'' @ crlf"
| "to_buffer not_implemented = ''HTTP/1.0 501 Not Implemented'' @ crlf"
| "to_buffer bad_gateway = ''HTTP/1.0 502 Bad Gateway'' @ crlf"
| "to_buffer service_unavailable = ''HTTP/1.0 503 Service Unavailable'' @ crlf"
| "to_buffer (unnamed _) = ''HTTP/1.0 500 Internal Server Error'' @ crlf"

fun header_buffers :: "header list \<Rightarrow> string list" where
  "header_buffers [] = []"
| "header_buffers (h # hs) = hname h # name_value_separator # hvalue h # crlf # header_buffers hs"

definition to_buffers :: "reply \<Rightarrow> string list" where
  "to_buffers rep =
     [to_buffer (rep_status rep)] @ header_buffers (rep_headers rep) @ [crlf, rep_content rep]"

section \<open>Stock replies\<close>

definition stock_page :: "string \<Rightarrow> string \<Rightarrow> string" where
  "stock_page title heading =
     ''<html>'' @ ''<head><title>'' @ title @ ''</title></head>''
     @ ''<body><h1>'' @ heading @ ''</h1></body>'' @ ''</html>''"

text \<open>\<open>stock_replies::to_string\<close>; the page of 204 has the heading the source has.\<close>

fun stock_content :: "status_type \<Rightarrow> string" where
  "stock_content ok = []"
| "stock_content created = stock_page ''Created'' ''201 Created''"
| "stock_content accepted = stock_page ''Accepted'' ''202 Accepted''"
| "stock_content no_content = stock_page ''No Content'' ''204 Content''"
| "stock_content multiple_choices = stock_page ''Multiple Choices'' ''300 Multiple Choices''"
| "stock_content moved_permanently = stock_page ''Moved Permanently'' ''301 Moved Permanently''"
| "stock_content moved_temporarily = stock_page ''Moved Temporarily'' ''302 Moved Temporarily''"
| "stock_content not_modified = stock_page ''Not Modified'' ''304 Not Modified''"
| "stock_content bad_request = stock_page ''Bad Request'' ''400 Bad Request''"
| "stock_content unauthorized = stock_page ''Unauthorized'' ''401 Unauthorized''"
| "stock_content forbidden = stock_page ''Forbidden'' ''403 Forbidden''"
| "stock_content not_found = stock_page ''Not Found'' ''404 Not Found''"
| "stock_content internal_server_error = stock_page ''Internal Server Error'' ''500 Internal Server Error''"
| "stock_content not_implemented = stock_page ''Not Implemented'' ''501 Not Implemented''"
| "stock_content bad_gateway = stock_page ''Bad Gateway'' ''502 Bad Gateway''"
| "stock_content service_unavailable = stock_page ''Service Unavailable'' ''503 Service Unavailable''"
| "stock_content (unnamed _) = stock_page ''Internal Server Error'' ''500 Internal Server Error''"

text \<open>
  The two headers every reply of the program carries (\<open>headers.resize(2)\<close> followed by the
  assignment of both fields of both elements).
\<close>

definition two_headers :: "nat \<Rightarrow> string \<Rightarrow> header list" where
  "two_headers n ctype =
     [\<lparr>hname = ''Content-Length'', hvalue = to_string n\<rparr>,
      \<lparr>hname = ''Content-Type'', hvalue = ctype\<rparr>]"

definition stock_reply :: "status_type \<Rightarrow> reply" where
  "stock_reply status =
     (let content = stock_content status in
      \<lparr>rep_status = status, rep_headers = two_headers (length content) ''text/html'',
       rep_content = content\<rparr>)"

section \<open>Framing\<close>

text \<open>
  What a client does with the bytes: the head ends at the first empty line, the body follows,
  and its length is announced by the \<open>Content-Length\<close> header.
\<close>

definition blank_line :: string where
  "blank_line = [CR, LF, CR, LF]"

definition split_head :: "string \<Rightarrow> (string \<times> string) option" where
  "split_head w =
     (case find_sub blank_line w of
        None \<Rightarrow> None
      | Some i \<Rightarrow> Some (take i w, drop (i + 4) w))"

definition no_CR :: "string \<Rightarrow> bool" where
  "no_CR s \<longleftrightarrow> CR \<notin> set s"

definition clean_header :: "header \<Rightarrow> bool" where
  "clean_header h \<longleftrightarrow> no_CR (hname h) \<and> no_CR (hvalue h)"

definition header_line :: "header \<Rightarrow> string" where
  "header_line h = hname h @ name_value_separator @ hvalue h"

definition announced_length :: "header list \<Rightarrow> nat option" where
  "announced_length hs =
     map_option (\<lambda>h. dec_val (hvalue h)) (List.find (\<lambda>h. hname h = ''Content-Length'') hs)"

definition framed :: "reply \<Rightarrow> bool" where
  "framed rep \<longleftrightarrow>
     (\<exists>head. split_head (concat (to_buffers rep)) = Some (head, rep_content rep))
     \<and> announced_length (rep_headers rep) = Some (length (rep_content rep))"

lemma find_blank_skip:
  "no_CR l \<Longrightarrow> find_sub blank_line (l @ w) = map_option ((+) (length l)) (find_sub blank_line w)"
  by (cases "find_sub blank_line w"; induction l) (auto simp: no_CR_def blank_line_def)

lemma find_blank_line_break:
  "l \<noteq> [] \<Longrightarrow> no_CR l \<Longrightarrow>
   find_sub blank_line (crlf @ l @ w) = map_option ((+) 2) (find_sub blank_line (l @ w))"
  by (cases l) (auto simp: crlf_def blank_line_def no_CR_def option.map_comp comp_def)

lemma find_blank_end: "find_sub blank_line (crlf @ crlf @ w) = Some 0"
  by (simp add: blank_line_def crlf_def)

lemma no_CR_append [simp]: "no_CR (u @ v) \<longleftrightarrow> no_CR u \<and> no_CR v"
  by (simp add: no_CR_def)

lemma header_line_clean:
  "clean_header h \<Longrightarrow> no_CR (header_line h)" "header_line h \<noteq> []"
  by (auto simp: clean_header_def header_line_def name_value_separator_def no_CR_def)

lemma concat_header_buffers:
  "concat (header_buffers hs) = concat (map (\<lambda>h. header_line h @ crlf) hs)"
  by (induction hs) (simp_all add: header_line_def)

lemma find_blank_headers:
  "\<forall>h \<in> set hs. clean_header h \<Longrightarrow>
   find_sub blank_line (crlf @ concat (map (\<lambda>h. header_line h @ crlf) hs) @ crlf @ w) =
     Some (length (concat (map (\<lambda>h. crlf @ header_line h) hs)))"
proof (induction hs)
  case Nil
  show ?case using find_blank_end [of w] by simp
next
  case (Cons h hs)
  let ?rest = "crlf @ concat (map (\<lambda>h. header_line h @ crlf) hs) @ crlf @ w"
  have "find_sub blank_line (crlf @ header_line h @ ?rest) =
      map_option ((+) 2) (map_option ((+) (length (header_line h))) (find_sub blank_line ?rest))"
    using Cons.prems by (simp add: find_blank_line_break find_blank_skip header_line_clean)
  with Cons show ?case by (simp add: crlf_def)
qed

lemma header_lines_length:
  "length (concat (map (\<lambda>h. crlf @ header_line h) hs)) =
   length (concat (map (\<lambda>h. header_line h @ crlf) hs))"
  by (induction hs) simp_all

lemma status_line: "\<exists>l. to_buffer st = l @ crlf \<and> no_CR l"
  by (cases st) (simp_all add: no_CR_def)

lemma split_head_to_buffers:
  assumes "\<forall>h \<in> set (rep_headers rep). clean_header h"
  shows "\<exists>head. split_head (concat (to_buffers rep)) = Some (head, rep_content rep)"
proof -
  obtain l where l: "to_buffer (rep_status rep) = l @ crlf" "no_CR l"
    using status_line by blast
  let ?hs = "concat (map (\<lambda>h. header_line h @ crlf) (rep_headers rep))"
  let ?n = "length (concat (map (\<lambda>h. crlf @ header_line h) (rep_headers rep)))"
  have wire: "concat (to_buffers rep) = l @ crlf @ ?hs @ crlf @ rep_content rep"
    using l by (simp add: to_buffers_def concat_header_buffers)
  have "find_sub blank_line (concat (to_buffers rep)) = Some (length l + ?n)"
    using l(2) assms by (simp only: wire find_blank_skip find_blank_headers option.map)
  moreover have "?n = length ?hs" by (rule header_lines_length)
  moreover have "drop (length l + length ?hs + 4) (concat (to_buffers rep)) = rep_content rep"
  proof -
    have "length l + length ?hs + 4 = length (l @ crlf @ ?hs @ crlf)" by (simp add: crlf_def)
    then show ?thesis unfolding wire by (metis append.assoc append_eq_conv_conj)
  qed
  ultimately show ?thesis by (simp add: split_head_def)
qed

lemma no_CR_to_string [simp]: "no_CR (to_string n)"
  using to_string_digits [of n] by (auto simp: no_CR_def byte_simps)

lemma framed_two_headers:
  assumes "rep_headers rep = two_headers (length (rep_content rep)) ctype" "no_CR ctype"
  shows "framed rep"
proof -
  have "\<forall>h \<in> set (rep_headers rep). clean_header h"
    using assms by (simp add: two_headers_def clean_header_def) (simp add: no_CR_def)
  then show ?thesis
    using assms split_head_to_buffers
    by (simp add: framed_def announced_length_def two_headers_def)
qed

text \<open>
  Every stock reply, whatever its status, is framed: the client finds the content behind the
  first empty line of the concatenated buffers, and \<open>Content-Length\<close> announces its length.
\<close>

theorem stock_reply_framed: "framed (stock_reply status)"
  by (rule framed_two_headers [where ctype = "''text/html''"])
    (simp_all add: stock_reply_def Let_def no_CR_def)

end
