(* ===== verification/Mime_Types.thy ===== *)
theory Mime_Types
  imports Main
begin

text \<open>
  Conversion of a file extension into a MIME type: \<^verbatim>\<open>mime_types.cpp\<close> of
  \<^verbatim>\<open>src/boost/http_server\<close> (a range-based loop over the table) and of
  \<^verbatim>\<open>src/ad_system/server3\<close> (a pointer loop over a longer table that ends in a null entry).
\<close>

section \<open>boost/http_server\<close>

definition mappings :: "(string \<times> string) list" where
  "mappings =
     [(''gif'', ''image/gif''), (''htm'', ''text/html''), (''html'', ''text/html''),
      (''jpg'', ''image/jpeg''), (''png'', ''image/png'')]"

fun search_mappings :: "(string \<times> string) list \<Rightarrow> string \<Rightarrow> string" where
  "search_mappings [] extension = ''text/plain''"
| "search_mappings ((e, t) # ms) extension = (if e = extension then t else search_mappings ms extension)"

definition extension_to_type :: "string \<Rightarrow> string" where
  "extension_to_type extension = search_mappings mappings extension"

section \<open>ad_system/server3\<close>

text \<open>The entries are pointers to strings; \<open>None\<close> is the null pointer of the end marker.\<close>

definition server3_mappings :: "(string option \<times> string option) list" where
  "server3_mappings =
     [(Some ''gif'', Some ''image/gif''), (Some ''htm'', Some ''text/html''),
      (Some ''html'', Some ''text/html''), (Some ''jpg'', Some ''image/jpeg''),
      (Some ''png'', Some ''image/png''), (Some ''xml'', Some ''text/xml''),
      (Some ''txt'', Some ''text/plain''), (None, None)]"

text \<open>
  The pointer loop stops at the null entry; reading past the array, or a string made from a null
  pointer, would be \<open>None\<close>.
\<close>

fun server3_search :: "(string option \<times> string option) list \<Rightarrow> string \<Rightarrow> string option" where
  "server3_search [] extension = None"
| "server3_search ((None, _) # ms) extension = Some ''text/plain''"
| "server3_search ((Some e, t) # ms) extension =
     (if e = extension then t else server3_search ms extension)"

definition server3_extension_to_type :: "string \<Rightarrow> string option" where
  "server3_extension_to_type extension = server3_search server3_mappings extension"

section \<open>The two tables compared\<close>

text \<open>
  The pointer loop of server3 stays inside its table and returns a type for every extension;
  it is the type http_server returns, except that server3 also knows \<open>xml\<close>.
\<close>

theorem server3_mime_extends_boost:
  "server3_extension_to_type e =
     Some (if e = ''xml'' then ''text/xml'' else extension_to_type e)"
  by (simp add: server3_extension_to_type_def server3_mappings_def extension_to_type_def mappings_def)

definition mime_type_strings :: "string list" where
  "mime_type_strings = [''text/plain'', ''image/gif'', ''text/html'', ''image/jpeg'', ''image/png'']"

lemma extension_to_type_range: "extension_to_type e \<in> set mime_type_strings"
  by (simp add: extension_to_type_def mappings_def mime_type_strings_def)

lemma server3_extension_to_type_range:
  "\<exists>t \<in> insert ''text/xml'' (set mime_type_strings). server3_extension_to_type e = Some t"
  by (simp add: server3_extension_to_type_def server3_mappings_def mime_type_strings_def)

end
