(* ===== verification/Request_Handler.thy ===== *)
theory Request_Handler
  imports Reply Mime_Types
begin

text \<open>
  \<^verbatim>\<open>src/boost/http_server/request_handler.cpp\<close>: URL decoding and the mapping of a request to
  a file below the document root.

  The file system is the parameter \<open>fs\<close>: \<open>fs p\<close> is the content of the stream
  \<open>std::ifstream\<close> opens for the path \<open>p\<close>, or \<open>None\<close> when it cannot be opened.
\<close>

section \<open>Reading a hexadecimal int from a string stream\<close>

text \<open>
  \<open>is >> std::hex >> value\<close> skips white space, accepts a sign and a \<open>0x\<close> prefix, reads the
  longest run of hexadecimal digits and fails when there is none. The program reads from strings
  of two characters only, so the value is in the range of \<open>int\<close>.
\<close>

definition isspace :: "char \<Rightarrow> bool" where
  "isspace c \<longleftrightarrow> byte c = 32 \<or> (9 \<le> byte c \<and> byte c \<le> 13)"

definition hex_digit :: "char \<Rightarrow> nat option" where
  "hex_digit c =
     (if 48 \<le> byte c \<and> byte c \<le> 57 then Some (byte c - 48)
      else if 97 \<le> byte c \<and> byte c \<le> 102 then Some (byte c - 87)
      else if 65 \<le> byte c \<and> byte c \<le> 70 then Some (byte c - 55)
      else None)"

fun read_hex_digits :: "nat \<Rightarrow> string \<Rightarrow> nat" where
  "read_hex_digits acc [] = acc"
| "read_hex_digits acc (c # cs) =
     (case hex_digit c of None \<Rightarrow> acc | Some d \<Rightarrow> read_hex_digits (acc * 16 + d) cs)"

fun read_hex_unsigned :: "string \<Rightarrow> nat option" where
  "read_hex_unsigned [] = None"
| "read_hex_unsigned (c # cs) =
     (case hex_digit c of
        None \<Rightarrow> None
      | Some d \<Rightarrow>
          (case cs of
             x # ds \<Rightarrow>
               if c = CHR ''0'' \<and> (x = CHR ''x'' \<or> x = CHR ''X'')
               then (case ds of
                       y # ys \<Rightarrow> map_option (\<lambda>_. read_hex_digits 0 ds) (hex_digit y)
                     | [] \<Rightarrow> None)
               else Some (read_hex_digits d cs)
           | [] \<Rightarrow> Some d))"

definition read_hex :: "string \<Rightarrow> int option" where
  "read_hex s =
     (case dropWhile isspace s of
        [] \<Rightarrow> None
      | c # cs \<Rightarrow>
          if c = CHR ''-'' then map_option (\<lambda>n. - int n) (read_hex_unsigned cs)
          else if c = CHR ''+'' then map_option int (read_hex_unsigned cs)
          else map_option int (read_hex_unsigned (c # cs)))"

section \<open>url_decode\<close>

text \<open>\<open>None\<close> is the return value \<open>false\<close>; the partial output is not used by the caller.\<close>

fun url_decode :: "string \<Rightarrow> string option" where
  "url_decode [] = Some []"
| "url_decode (c # cs) =
     (if c = CHR ''%''
      then (case cs of
              a # b # rest \<Rightarrow>
                (case read_hex [a, b] of
                   Some v \<Rightarrow> map_option ((#) (char_cast v)) (url_decode rest)
                 | None \<Rightarrow> None)
            | _ \<Rightarrow> None)
      else if c = CHR ''+'' then map_option ((#) SP) (url_decode cs)
      else map_option ((#) c) (url_decode cs))"

section \<open>handle_request\<close>

text \<open>\<open>c_str()\<close> handed to a C interface: the string ends at its first null byte.\<close>

definition c_str :: "string \<Rightarrow> string" where
  "c_str s = takeWhile (\<lambda>c. c \<noteq> CHR 0x00) s"

fun find_last_of :: "char \<Rightarrow> string \<Rightarrow> nat option" where
  "find_last_of c [] = None"
| "find_last_of c (d # ds) =
     (case find_last_of c ds of
        Some i \<Rightarrow> Some (Suc i)
      | None \<Rightarrow> if c = d then Some 0 else None)"

text \<open>Lines 37--43: an absolute path without \<open>".."\<close>.\<close>

definition path_ok :: "string \<Rightarrow> bool" where
  "path_ok p \<longleftrightarrow> \<not> (p = [] \<or> hd p \<noteq> CHR ''/'' \<or> contains_sub ''..'' p)"

text \<open>Lines 45--49: a directory is served by its index page.\<close>

definition add_index :: "string \<Rightarrow> string" where
  "add_index p = (if last p = CHR ''/'' then p @ ''index.html'' else p)"

text \<open>Lines 51--58; \<open>npos\<close> is the largest position.\<close>

definition extension_of :: "string \<Rightarrow> string" where
  "extension_of p =
     (case find_last_of CHR ''.'' p of
        None \<Rightarrow> []
      | Some d \<Rightarrow>
          (case find_last_of CHR ''/'' p of
             None \<Rightarrow> []
           | Some s \<Rightarrow> if d > s then drop (d + 1) p else []))"

text \<open>Lines 71--73: the file is appended in blocks of 512 bytes until a read delivers nothing.\<close>

function read_loop :: "string \<Rightarrow> string \<Rightarrow> string" where
  "read_loop content stream =
     (let buf = take 512 stream in
      if length buf > 0 then read_loop (content @ buf) (drop 512 stream) else content)"
  by pat_completeness auto
termination
  by (relation "measure (\<lambda>(content, stream). length stream)") auto

declare read_loop.simps [simp del]

definition handle_request ::
  "(string \<Rightarrow> string option) \<Rightarrow> string \<Rightarrow> request \<Rightarrow> reply \<Rightarrow> reply" where
  "handle_request fs doc_root req rep =
     (case url_decode (req_uri req) of
        None \<Rightarrow> stock_reply bad_request
      | Some request_path \<Rightarrow>
          if \<not> path_ok request_path then stock_reply bad_request
          else
            (let path = add_index request_path;
                 extension = extension_of path;
                 full_path = doc_root @ path
             in case fs (c_str full_path) of
                  None \<Rightarrow> stock_reply not_found
                | Some stream \<Rightarrow>
                    (let content = read_loop (rep_content rep) stream
                     in rep\<lparr>rep_status := ok, rep_content := content,
                            rep_headers := two_headers (length content) (extension_to_type extension)\<rparr>)))"

lemma read_loop_eq: "read_loop content stream = content @ stream"
proof (induction content stream rule: read_loop.induct)
  case (1 content stream)
  show ?case
  proof (cases "take 512 stream = []")
    case True
    then have "stream = []" by simp
    then show ?thesis by (simp add: read_loop.simps [of content])
  next
    case False
    then have "length (take 512 stream) > 0" by simp
    with "1.IH" have "read_loop (content @ take 512 stream) (drop 512 stream) =
        (content @ take 512 stream) @ drop 512 stream"
      by blast
    with False show ?thesis
      by (simp add: read_loop.simps [of content stream] Let_def append_take_drop_id)
  qed
qed


section \<open>Every reply is framed\<close>

lemma extension_to_type_no_CR: "no_CR (extension_to_type e)"
  using extension_to_type_range [of e] by (auto simp: mime_type_strings_def no_CR_def)

text \<open>
  Whatever the request, the file system and the reply object passed in, the reply
  \<open>handle_request\<close> leaves behind is framed: a client finds its content behind the first empty
  line and its length in \<open>Content-Length\<close>.
\<close>

theorem handle_request_framed: "framed (handle_request fs doc_root req rep)"
proof -
  have served: "framed (rep\<lparr>rep_status := ok, rep_content := content,
      rep_headers := two_headers (length content) (extension_to_type e)\<rparr>)" for content e
    by (rule framed_two_headers [where ctype = "extension_to_type e"])
      (simp_all add: extension_to_type_no_CR)
  have stock: "framed (stock_reply st)" for st
    by (rule framed_two_headers [where ctype = "''text/html''"])
      (simp_all add: stock_reply_def Let_def no_CR_def)
  show ?thesis
    by (simp add: handle_request_def Let_def served stock split: option.splits)
qed

section \<open>No request leaves the document root\<close>

fun has_dotdot :: "string \<Rightarrow> bool" where
  "has_dotdot (a # b # cs) = ((a = CHR ''.'' \<and> b = CHR ''.'') \<or> has_dotdot (b # cs))"
| "has_dotdot _ = False"

lemma contains_dotdot: "contains_sub ''..'' s = has_dotdot s"
  unfolding contains_sub_def by (induction s rule: has_dotdot.induct) auto

lemma has_dotdot_split:
  "c \<noteq> CHR ''.'' \<Longrightarrow> has_dotdot (xs @ c # ys) \<longleftrightarrow> has_dotdot xs \<or> has_dotdot ys"
proof (induction xs rule: has_dotdot.induct)
  case (1 a b cs)
  then show ?case by auto
qed (cases ys; auto)+

lemma has_dotdot_prefix: "has_dotdot xs \<Longrightarrow> has_dotdot (xs @ ys)"
  by (induction xs rule: has_dotdot.induct) auto

lemma path_ok_add_index: "path_ok p \<Longrightarrow> path_ok (add_index p)"
proof -
  assume ok: "path_ok p"
  then obtain q c where p: "p = q @ [c]" by (cases p rule: rev_cases) (auto simp: path_ok_def)
  show ?thesis
  proof (cases "c = CHR ''/''")
    case True
    have "\<not> has_dotdot q"
      using p ok has_dotdot_prefix [of q "[c]"] by (auto simp: path_ok_def contains_dotdot)
    then have "\<not> has_dotdot (q @ CHR ''/'' # ''index.html'')"
      using has_dotdot_split [of "CHR ''/''" q "''index.html''"] by simp
    with True p ok show ?thesis
      by (cases q) (simp_all add: path_ok_def add_index_def contains_dotdot)
  next
    case False
    with p ok show ?thesis by (simp add: add_index_def)
  qed
qed

definition confined :: "string \<Rightarrow> bool" where
  "confined q \<longleftrightarrow> q \<noteq> [] \<and> hd q = CHR ''/'' \<and> \<not> has_dotdot q \<and> CHR 0x00 \<notin> set q"

lemma c_str_append: "CHR 0x00 \<notin> set u \<Longrightarrow> c_str (u @ v) = u @ c_str v"
  by (induction u) (auto simp: c_str_def)

lemma confined_c_str: "path_ok p \<Longrightarrow> confined (c_str p)"
proof -
  assume ok: "path_ok p"
  have "\<not> has_dotdot (c_str p)"
    using ok has_dotdot_prefix [of "c_str p" "dropWhile (\<lambda>c. c \<noteq> CHR 0x00) p"]
    by (auto simp: path_ok_def contains_dotdot c_str_def)
  moreover have "CHR 0x00 \<notin> set (c_str p)"
    by (auto simp: c_str_def dest: set_takeWhileD)
  ultimately show ?thesis
    using ok by (cases p) (auto simp: confined_def path_ok_def c_str_def)
qed

text \<open>
  C5. A request can only touch files whose path is the document root followed by an absolute
  path without \<open>".."\<close>: two file systems that agree on those paths are indistinguishable to
  every request, encoded dots, slashes and null bytes included.
\<close>

theorem handle_request_confined:
  assumes "CHR 0x00 \<notin> set doc_root"
    and "\<forall>q. confined q \<longrightarrow> fs (doc_root @ q) = fs' (doc_root @ q)"
  shows "handle_request fs doc_root req rep = handle_request fs' doc_root req rep"
proof -
  have "fs (c_str (doc_root @ add_index p)) = fs' (c_str (doc_root @ add_index p))"
    if "path_ok p" for p
    using that assms by (simp add: c_str_append confined_c_str path_ok_add_index)
  then show ?thesis
    by (auto simp: handle_request_def Let_def split: option.splits)
qed

text \<open>The witness: a file outside the root is invisible to a request that encodes \<open>/../x\<close>.\<close>

definition one_file :: "string \<Rightarrow> string \<Rightarrow> string \<Rightarrow> string option" where
  "one_file path data p = (if p = path then Some data else None)"

definition get_uri :: "string \<Rightarrow> request" where
  "get_uri u = (fresh_request 1 0)\<lparr>req_method := ''GET'', req_uri := u\<rparr>"

definition empty_reply :: reply where
  "empty_reply = \<lparr>rep_status = ok, rep_headers = [], rep_content = []\<rparr>"

theorem handle_request_confined_witness:
  "handle_request (one_file ''w/../x'' ''s'') ''w'' (get_uri ''/%2e%2e/x'') empty_reply =
   handle_request (\<lambda>_. None) ''w'' (get_uri ''/%2e%2e/x'') empty_reply"
  by (rule handle_request_confined) (auto simp: one_file_def confined_def)

section \<open>Percent encoding\<close>

definition hex_char :: "nat \<Rightarrow> char" where
  "hex_char d = char_of (if d < 10 then 48 + d else 55 + d)"

text \<open>An encoder that escapes at least the two characters \<open>url_decode\<close> treats specially.\<close>

definition encode_char :: "(char \<Rightarrow> bool) \<Rightarrow> char \<Rightarrow> string" where
  "encode_char esc c =
     (if c = SP then [CHR ''+'']
      else if esc c \<or> c = CHR ''%'' \<or> c = CHR ''+''
      then [CHR ''%'', hex_char (byte c div 16), hex_char (byte c mod 16)]
      else [c])"

definition url_encode :: "(char \<Rightarrow> bool) \<Rightarrow> string \<Rightarrow> string" where
  "url_encode esc s = concat (map (encode_char esc) s)"

lemma byte_hex_char: "d < 16 \<Longrightarrow> byte (hex_char d) = (if d < 10 then 48 + d else 55 + d)"
  by (simp add: hex_char_def byte_char_of)

lemma hex_digit_hex_char: "d < 16 \<Longrightarrow> hex_digit (hex_char d) = Some d"
  by (auto simp: hex_digit_def byte_hex_char)

lemma hex_char_plain:
  assumes "d < 16"
  shows "\<not> isspace (hex_char d)" "hex_char d \<noteq> CHR ''+''" "hex_char d \<noteq> CHR ''-''"
    "hex_char d \<noteq> CHR ''x''" "hex_char d \<noteq> CHR ''X''"
proof -
  have "byte CHR ''+'' = 43" "byte CHR ''-'' = 45" "byte CHR ''x'' = 120" "byte CHR ''X'' = 88"
    by (simp_all add: byte_def)
  then have "byte (hex_char d) \<noteq> byte CHR ''+''" "byte (hex_char d) \<noteq> byte CHR ''-''"
    "byte (hex_char d) \<noteq> byte CHR ''x''" "byte (hex_char d) \<noteq> byte CHR ''X''"
    using assms by (simp_all add: byte_hex_char)
  then show "hex_char d \<noteq> CHR ''+''" "hex_char d \<noteq> CHR ''-''"
    "hex_char d \<noteq> CHR ''x''" "hex_char d \<noteq> CHR ''X''" by auto
  show "\<not> isspace (hex_char d)"
    using assms by (auto simp: isspace_def byte_hex_char)
qed

lemma read_hex_two:
  "a < 16 \<Longrightarrow> b < 16 \<Longrightarrow> read_hex [hex_char a, hex_char b] = Some (int (a * 16 + b))"
  by (simp add: read_hex_def hex_char_plain hex_digit_hex_char)

lemma char_cast_byte: "char_cast (int (byte c)) = c"
  using byte_less [of c] by (simp add: char_cast_def)

lemma url_decode_escaped:
  "url_decode (CHR ''%'' # hex_char (byte c div 16) # hex_char (byte c mod 16) # rest) =
     map_option ((#) c) (url_decode rest)"
proof -
  have "byte c div 16 < 16" using byte_less [of c] by simp
  then have "read_hex [hex_char (byte c div 16), hex_char (byte c mod 16)] = Some (int (byte c))"
    by (simp add: read_hex_two div_mult_mod_eq del: of_nat_add of_nat_mult)
  then show ?thesis by (simp add: char_cast_byte)
qed

text \<open>
  C6. Decoding inverts percent encoding, whichever further characters the client escapes and
  whatever bytes the path has.
\<close>

theorem url_decode_url_encode: "url_decode (url_encode esc s) = Some s"
proof (induction s)
  case Nil
  show ?case by (simp add: url_encode_def)
next
  case (Cons c s)
  then have IH: "url_decode (concat (map (encode_char esc) s)) = Some s"
    by (simp add: url_encode_def)
  show ?case
    using IH url_decode_escaped [of c]
    by (auto simp: url_encode_def encode_char_def)
qed

section \<open>What the decoder also accepts\<close>

text \<open>
  \<open>url_decode\<close> is documented to return \<open>false\<close> for an invalid encoding. It does so
  for a truncated escape and for one whose first character starts no number, but the stream
  extraction accepts a sign, leading white space and a trailing character that is no digit:
  \<open>%-1\<close>, \<open>%+1\<close>, \<open>% 1\<close> and \<open>%1g\<close> all decode.
\<close>

theorem url_decode_lenient:
  "url_decode ''%4'' = None \<and> url_decode ''%g1'' = None \<and> url_decode ''%0x'' = None
   \<and> url_decode ''%-1'' = Some [CHR 0xFF] \<and> url_decode ''%+1'' = Some [CHR 0x01]
   \<and> url_decode ''% 1'' = Some [CHR 0x01] \<and> url_decode ''%1g'' = Some [CHR 0x01]"
  by code_simp

lemma url_decode_plain:
  "CHR ''%'' \<notin> set s \<Longrightarrow> CHR ''+'' \<notin> set s \<Longrightarrow>
   url_decode (s @ t) = map_option ((@) s) (url_decode t)"
  by (cases "url_decode t"; induction s) auto

lemma find_last_of_append:
  "c \<in> set ys \<Longrightarrow> find_last_of c (xs @ ys) = map_option ((+) (length xs)) (find_last_of c ys)"
proof (induction xs)
  case Nil
  show ?case by (cases "find_last_of c ys") simp_all
next
  case (Cons x xs)
  have "find_last_of c ys \<noteq> None" using Cons.prems by (induction ys) (auto split: option.splits)
  with Cons show ?case by auto
qed

lemma find_last_of_outside:
  "c \<notin> set ys \<Longrightarrow> find_last_of c (xs @ ys) = find_last_of c xs"
proof (induction xs)
  case Nil
  then show ?case by (induction ys) auto
next
  case (Cons x xs)
  then show ?case by simp
qed

lemma find_last_of_less: "find_last_of c xs = Some i \<Longrightarrow> i < length xs"
  by (induction xs arbitrary: i) (auto split: option.splits if_splits)


lemma extension_html: "extension_of (u @ CHR 0x00 # ''.html'') = (if CHR ''/'' \<in> set u then ''html'' else [])"
proof -
  have dot: "find_last_of CHR ''.'' (u @ CHR 0x00 # ''.html'') = Some (length u + 1)"
    by (simp add: find_last_of_append)
  have slash: "find_last_of CHR ''/'' (u @ CHR 0x00 # ''.html'') = find_last_of CHR ''/'' u"
    by (simp add: find_last_of_outside)
  show ?thesis
  proof (cases "CHR ''/'' \<in> set u")
    case True
    then obtain i where "find_last_of CHR ''/'' u = Some i"
      using find_last_of_append [of "CHR ''/''" u "[]"]
      by (induction u) (auto split: option.splits)
    moreover from this have "i < length u" by (rule find_last_of_less)
    ultimately show ?thesis using True dot slash by (simp add: extension_of_def)
  next
    case False
    then have "find_last_of CHR ''/'' u = None" by (induction u) auto
    with False dot slash show ?thesis by (simp add: extension_of_def)
  qed
qed

text \<open>
  C7. A null byte separates the name the handler inspects from the file it opens: for a plain
  path, the request \<open>path%00.html\<close> serves the file at \<open>path\<close> itself, labelled
  \<open>text/html\<close> whatever its own extension is.
\<close>

theorem null_byte_hides_extension:
  assumes "CHR 0x00 \<notin> set doc_root" "CHR 0x00 \<notin> set p"
    and "CHR ''%'' \<notin> set p" "CHR ''+'' \<notin> set p" and "path_ok p"
    and "fs (doc_root @ p) = Some data" and "rep_content rep = []"
  shows "handle_request fs doc_root (get_uri (p @ ''%00.html'')) rep =
    rep\<lparr>rep_status := ok, rep_content := data,
        rep_headers := two_headers (length data) ''text/html''\<rparr>"
proof -
  let ?q = "p @ CHR 0x00 # ''.html''"
  have tail: "url_decode ''%00.html'' = Some (CHR 0x00 # ''.html'')" by code_simp
  have dec: "url_decode (p @ ''%00.html'') = Some ?q"
    using url_decode_plain [OF assms(3,4), of "''%00.html''"] tail by simp
  have "p \<noteq> []" "hd p = CHR ''/''" "\<not> has_dotdot p"
    using assms(5) by (auto simp: path_ok_def contains_dotdot)
  then have "path_ok ?q" "CHR ''/'' \<in> set p"
    using has_dotdot_split [of "CHR 0x00" p "''.html''"] hd_in_set [of p]
    by (auto simp: path_ok_def contains_dotdot)
  moreover have "add_index ?q = ?q" by (simp add: add_index_def)
  moreover have "c_str (doc_root @ ?q) = doc_root @ p"
    using assms(1,2) by (simp add: c_str_append) (simp add: c_str_def)
  moreover have "extension_to_type ''html'' = ''text/html''" by code_simp
  ultimately show ?thesis
    using assms(6,7) dec
    by (simp add: handle_request_def get_uri_def Let_def extension_html read_loop_eq)
qed

theorem null_byte_hides_extension_witness:
  "handle_request (one_file ''w/k.key'' ''secret'') ''w'' (get_uri ''/k.key%00.html'') empty_reply =
     empty_reply\<lparr>rep_status := ok, rep_content := ''secret'',
       rep_headers := two_headers 6 ''text/html''\<rparr>"
proof -
  have ok: "path_ok ''/k.key''" by code_simp
  show ?thesis
    using null_byte_hides_extension [of "''w''" "''/k.key''" "one_file ''w/k.key'' ''secret''"
        "''secret''" empty_reply] ok
    by (simp add: one_file_def empty_reply_def numeral_eq_Suc)
qed

end
