(* ===== verification/Http_Server.thy ===== *)
theory Http_Server
  imports Request_Handler Transition
begin

text \<open>
  The asynchronous server of \<^verbatim>\<open>src/boost/http_server\<close>: \<^verbatim>\<open>connection.cpp\<close>,
  \<^verbatim>\<open>connection_manager.cpp\<close> and \<^verbatim>\<open>server.cpp\<close>. All handlers run on one \<open>io_context\<close> thread, so
  the program is an interleaving of whole completion handlers. Which operation completes next,
  with which error code and with which bytes is up to the operating system and the peer: the
  step relation allows every choice, except that \<open>operation_aborted\<close> is only reported for a
  socket that was closed (the documented meaning of that code).

  A \<open>shared_ptr\<close> to a connection is the connection's number. \<open>conn_received\<close> and
  \<open>conn_sent\<close> record the bytes read from and the writes handed to the socket.
\<close>

section \<open>Connections\<close>

datatype error_code = no_error | operation_aborted | other_error

datatype pending = no_op | reading | writing

record connection =
  conn_open :: bool
  conn_shutdown :: bool
  conn_request :: request
  conn_parser :: state
  conn_reply :: reply
  conn_pending :: pending
  conn_received :: string
  conn_sent :: "string list"

text \<open>
  The constructor; \<open>a\<close>, \<open>b\<close> and \<open>st\<close> are what the uninitialised version numbers and status
  contain.
\<close>

definition new_connection :: "s32 \<Rightarrow> s32 \<Rightarrow> status_type \<Rightarrow> connection" where
  "new_connection a b st =
     \<lparr>conn_open = True, conn_shutdown = False, conn_request = fresh_request a b,
      conn_parser = reset,
      conn_reply = \<lparr>rep_status = st, rep_headers = [], rep_content = []\<rparr>,
      conn_pending = no_op, conn_received = [], conn_sent = []\<rparr>"

definition do_read :: "connection \<Rightarrow> connection" where
  "do_read c = c\<lparr>conn_pending := reading\<rparr>"

definition do_write :: "connection \<Rightarrow> connection" where
  "do_write c =
     c\<lparr>conn_pending := writing, conn_sent := conn_sent c @ [concat (to_buffers (conn_reply c))]\<rparr>"

definition conn_start :: "connection \<Rightarrow> connection" where
  "conn_start c = do_read c"

definition conn_stop :: "connection \<Rightarrow> connection" where
  "conn_stop c = c\<lparr>conn_open := False\<rparr>"

section \<open>The connection manager\<close>

record server =
  acceptor_open :: bool
  accept_pending :: bool
  signal_pending :: bool
  connections :: "nat set"
  conns :: "nat \<rightharpoonup> connection"
  next_conn :: nat

definition on_conn :: "(connection \<Rightarrow> connection) \<Rightarrow> nat \<Rightarrow> server \<Rightarrow> server" where
  "on_conn f i sv = sv\<lparr>conns := (conns sv)(i := map_option f (conns sv i))\<rparr>"

definition manager_start :: "nat \<Rightarrow> server \<Rightarrow> server" where
  "manager_start i sv = on_conn conn_start i (sv\<lparr>connections := insert i (connections sv)\<rparr>)"

definition manager_stop :: "nat \<Rightarrow> server \<Rightarrow> server" where
  "manager_stop i sv = on_conn conn_stop i (sv\<lparr>connections := connections sv - {i}\<rparr>)"

definition manager_stop_all :: "server \<Rightarrow> server" where
  "manager_stop_all sv =
     sv\<lparr>conns := (\<lambda>i. if i \<in> connections sv then map_option conn_stop (conns sv i) else conns sv i),
        connections := {}\<rparr>"

section \<open>Completion handlers\<close>

text \<open>The lambda of \<open>connection::do_read\<close>.\<close>

definition read_data ::
  "(string \<Rightarrow> string option) \<Rightarrow> string \<Rightarrow> string \<Rightarrow> connection \<Rightarrow> connection" where
  "read_data fs doc_root buf c =
     (case parse (conn_parser c) (conn_request c) buf of
        (res, _, p, r) \<Rightarrow>
          (let c' = c\<lparr>conn_parser := p, conn_request := r, conn_received := conn_received c @ buf\<rparr>
           in case res of
                good \<Rightarrow> do_write (c'\<lparr>conn_reply := handle_request fs doc_root r (conn_reply c')\<rparr>)
              | bad \<Rightarrow> do_write (c'\<lparr>conn_reply := stock_reply bad_request\<rparr>)
              | indeterminate \<Rightarrow> do_read c'))"

definition handle_read ::
  "(string \<Rightarrow> string option) \<Rightarrow> string \<Rightarrow> nat \<Rightarrow> error_code \<Rightarrow> string \<Rightarrow> server \<Rightarrow> server" where
  "handle_read fs doc_root i ec buf sv =
     (let sv = on_conn (conn_pending_update (\<lambda>_. no_op)) i sv in
      if ec = no_error then on_conn (read_data fs doc_root buf) i sv
      else if ec \<noteq> operation_aborted then manager_stop i sv
      else sv)"

text \<open>The lambda of \<open>connection::do_write\<close>.\<close>

definition handle_write :: "nat \<Rightarrow> error_code \<Rightarrow> server \<Rightarrow> server" where
  "handle_write i ec sv =
     (let sv = on_conn (conn_pending_update (\<lambda>_. no_op)) i sv;
          sv = (if ec = no_error then on_conn (conn_shutdown_update (\<lambda>_. True)) i sv else sv)
      in if ec \<noteq> operation_aborted then manager_stop i sv else sv)"

text \<open>The lambda of \<open>server::do_accept\<close>; the new connection takes the next number.\<close>

definition add_connection :: "s32 \<Rightarrow> s32 \<Rightarrow> status_type \<Rightarrow> server \<Rightarrow> server" where
  "add_connection a b st sv =
     manager_start (next_conn sv)
       (sv\<lparr>conns := (conns sv)(next_conn sv \<mapsto> new_connection a b st),
           next_conn := next_conn sv + 1\<rparr>)"

definition do_accept :: "server \<Rightarrow> server" where
  "do_accept sv = sv\<lparr>accept_pending := True\<rparr>"

definition handle_accept :: "error_code \<Rightarrow> s32 \<Rightarrow> s32 \<Rightarrow> status_type \<Rightarrow> server \<Rightarrow> server" where
  "handle_accept ec a b st sv =
     (let sv = sv\<lparr>accept_pending := False\<rparr> in
      if \<not> acceptor_open sv then sv
      else do_accept (if ec = no_error then add_connection a b st sv else sv))"

text \<open>The lambda of \<open>server::do_await_stop\<close>.\<close>

definition handle_stop :: "server \<Rightarrow> server" where
  "handle_stop sv = manager_stop_all (sv\<lparr>signal_pending := False, acceptor_open := False\<rparr>)"

text \<open>The constructor of \<open>server\<close>: it waits for signals, listens and accepts.\<close>

definition new_server :: server where
  "new_server =
     do_accept \<lparr>acceptor_open = True, accept_pending = False, signal_pending = True,
                connections = {}, conns = Map.empty, next_conn = 0\<rparr>"

section \<open>Runs of the io_context\<close>

inductive server_step :: "(string \<Rightarrow> string option) \<Rightarrow> string \<Rightarrow> server \<Rightarrow> server \<Rightarrow> bool"
  for fs doc_root where
  accept_done: "accept_pending sv \<Longrightarrow> server_step fs doc_root sv (handle_accept ec a b st sv)"
| read_done: "conns sv i = Some c \<Longrightarrow> conn_pending c = reading \<Longrightarrow> length buf \<le> 8192 \<Longrightarrow>
     (ec = operation_aborted \<longrightarrow> \<not> conn_open c) \<Longrightarrow>
     server_step fs doc_root sv (handle_read fs doc_root i ec buf sv)"
| write_done: "conns sv i = Some c \<Longrightarrow> conn_pending c = writing \<Longrightarrow>
     (ec = operation_aborted \<longrightarrow> \<not> conn_open c) \<Longrightarrow>
     server_step fs doc_root sv (handle_write i ec sv)"
| signal_done: "signal_pending sv \<Longrightarrow> server_step fs doc_root sv (handle_stop sv)"

abbreviation server_init :: "server \<Rightarrow> bool" where
  "server_init sv \<equiv> sv = new_server"

lemmas handler_defs = handle_read_def handle_write_def handle_accept_def handle_stop_def
  add_connection_def do_accept_def manager_start_def manager_stop_def manager_stop_all_def
  on_conn_def conn_start_def conn_stop_def Let_def

section \<open>What a connection sends\<close>

text \<open>
  The reply a byte stream deserves: none while the parser is undecided, the handler's reply to
  the parsed request, or the stock reply to a malformed one.
\<close>

definition deserved ::
  "(string \<Rightarrow> string option) \<Rightarrow> string \<Rightarrow> string \<Rightarrow> reply option" where
  "deserved fs doc_root input =
     (case parse reset (fresh_request 0 0) input of
        (good, _, _, r) \<Rightarrow> Some (handle_request fs doc_root r empty_reply)
      | (bad, _, _, _) \<Rightarrow> Some (stock_reply bad_request)
      | (indeterminate, _, _, _) \<Rightarrow> None)"


definition waiting_ok :: "connection \<Rightarrow> bool" where
  "waiting_ok c \<longleftrightarrow>
     conn_sent c = [] \<and> conn_pending c \<noteq> writing \<and> rep_content (conn_reply c) = []
     \<and> (\<exists>a b. parse reset (fresh_request a b) (conn_received c) =
          (indeterminate, [], conn_parser c, conn_request c))"

definition answered_ok ::
  "(string \<Rightarrow> string option) \<Rightarrow> string \<Rightarrow> connection \<Rightarrow> bool" where
  "answered_ok fs doc_root c \<longleftrightarrow>
     conn_pending c \<noteq> reading
     \<and> (\<exists>rep. deserved fs doc_root (conn_received c) = Some rep
          \<and> conn_sent c = [concat (to_buffers rep)])"

definition conn_ok :: "(string \<Rightarrow> string option) \<Rightarrow> string \<Rightarrow> connection \<Rightarrow> bool" where
  "conn_ok fs doc_root c \<longleftrightarrow> waiting_ok c \<or> answered_ok fs doc_root c"

lemma handle_request_content_only:
  "rep_content rep = [] \<Longrightarrow> handle_request fs doc_root r rep = handle_request fs doc_root r empty_reply"
  by (cases rep) (simp add: handle_request_def empty_reply_def Let_def split: option.splits)

lemma deserved_good:
  "parse reset (fresh_request a b) input = (good, rest, p, r) \<Longrightarrow>
   deserved fs doc_root input = Some (handle_request fs doc_root r empty_reply)"
  using parse_fresh_good [of a b input rest p r 0 0] by (simp add: deserved_def)

lemma deserved_bad:
  "parse reset (fresh_request a b) input = (bad, rest, p, r) \<Longrightarrow>
   deserved fs doc_root input = Some (stock_reply bad_request)"
  using parse_fresh_result [of a b input 0 0]
  by (auto simp: deserved_def split: prod.splits)

lemma read_data_ok:
  assumes "waiting_ok c"
  shows "conn_ok fs doc_root (read_data fs doc_root buf c)"
proof -
  from assms obtain a b where run: "parse reset (fresh_request a b) (conn_received c) =
      (indeterminate, [], conn_parser c, conn_request c)"
    by (auto simp: waiting_ok_def)
  obtain res rest p r where step: "parse (conn_parser c) (conn_request c) buf = (res, rest, p, r)"
    by (metis prod_cases4)
  have all: "parse reset (fresh_request a b) (conn_received c @ buf) = (res, rest, p, r)"
    using run step by (simp add: parse_append)
  show ?thesis
  proof (cases res)
    case good
    with all have "deserved fs doc_root (conn_received c @ buf) =
        Some (handle_request fs doc_root r empty_reply)"
      by (simp add: deserved_good)
    with assms good step show ?thesis
      by (simp add: conn_ok_def answered_ok_def read_data_def do_write_def Let_def waiting_ok_def
          handle_request_content_only)
  next
    case bad
    with all have "deserved fs doc_root (conn_received c @ buf) = Some (stock_reply bad_request)"
      by (simp add: deserved_bad)
    with assms bad step show ?thesis
      by (simp add: conn_ok_def answered_ok_def read_data_def do_write_def Let_def waiting_ok_def)
  next
    case indeterminate
    with all have "rest = []" by (auto dest: parse_indeterminate_consumes_all)
    with assms all indeterminate step show ?thesis
      by (auto simp: conn_ok_def read_data_def do_read_def Let_def waiting_ok_def)
  qed
qed

lemma conn_ok_unaffected:
  "conn_ok fs doc_root c \<Longrightarrow> conn_ok fs doc_root (conn_stop c)"
  "conn_ok fs doc_root c \<Longrightarrow> conn_ok fs doc_root (c\<lparr>conn_pending := no_op\<rparr>)"
  "conn_ok fs doc_root c \<Longrightarrow> conn_ok fs doc_root (c\<lparr>conn_shutdown := x\<rparr>)"
  "conn_ok fs doc_root (conn_start (new_connection a b st))"
  by (auto simp: conn_ok_def waiting_ok_def answered_ok_def conn_stop_def conn_start_def
      new_connection_def do_read_def)

lemma reading_waits: "conn_ok fs doc_root c \<Longrightarrow> conn_pending c = reading \<Longrightarrow> waiting_ok c"
  by (simp add: conn_ok_def answered_ok_def)

definition all_conns :: "(connection \<Rightarrow> bool) \<Rightarrow> server \<Rightarrow> bool" where
  "all_conns P sv \<longleftrightarrow> (\<forall>i c. conns sv i = Some c \<longrightarrow> P c)"

lemma all_conns_on_conn:
  "all_conns P sv \<Longrightarrow> (\<And>c. conns sv i = Some c \<Longrightarrow> P (f c)) \<Longrightarrow> all_conns P (on_conn f i sv)"
  by (auto simp: all_conns_def on_conn_def)

lemma conns_on_conn [simp]:
  "conns (on_conn f i sv) = (conns sv)(i := map_option f (conns sv i))"
  "connections (on_conn f i sv) = connections sv"
  by (simp_all add: on_conn_def)

lemma all_conns_manager_stop:
  "all_conns (conn_ok fs doc_root) sv \<Longrightarrow> all_conns (conn_ok fs doc_root) (manager_stop i sv)"
  by (auto simp: manager_stop_def all_conns_def on_conn_def conn_ok_unaffected)

lemma all_conns_step:
  assumes "all_conns (conn_ok fs doc_root) sv" "server_step fs doc_root sv sv'"
  shows "all_conns (conn_ok fs doc_root) sv'"
  using assms(2,1)
proof (cases rule: server_step.cases)
  case (accept_done ec a b st)
  with assms(1) show ?thesis
    by (auto simp: handle_accept_def add_connection_def do_accept_def manager_start_def Let_def
        all_conns_def on_conn_def conn_ok_unaffected)
next
  case (read_done i c buf ec)
  have idle: "waiting_ok (c\<lparr>conn_pending := no_op\<rparr>)"
    using assms(1) read_done reading_waits by (fastforce simp: all_conns_def waiting_ok_def)
  have base: "all_conns (conn_ok fs doc_root) (on_conn (conn_pending_update (\<lambda>_. no_op)) i sv)"
    using assms(1) by (auto simp: all_conns_def on_conn_def conn_ok_unaffected)
  show ?thesis
    unfolding read_done(1) handle_read_def Let_def
    using base read_done(2) read_data_ok [OF idle]
    by (auto intro!: all_conns_on_conn all_conns_manager_stop)
next
  case (write_done i c ec)
  have "all_conns (conn_ok fs doc_root) (on_conn (conn_pending_update (\<lambda>_. no_op)) i sv)"
    using assms(1) by (auto simp: all_conns_def on_conn_def conn_ok_unaffected)
  moreover from this have "all_conns (conn_ok fs doc_root)
      (on_conn (conn_shutdown_update (\<lambda>_. True)) i (on_conn (conn_pending_update (\<lambda>_. no_op)) i sv))"
    using assms(1) by (auto simp: all_conns_def on_conn_def conn_ok_unaffected)
  ultimately show ?thesis
    unfolding write_done(1) handle_write_def Let_def by (auto intro!: all_conns_manager_stop)
next
  case signal_done
  with assms(1) show ?thesis
    by (auto simp: handle_stop_def manager_stop_all_def all_conns_def conn_ok_unaffected
        split: if_splits)
qed


interpretation replies: invariant_system server_init "server_step fs doc_root"
  "all_conns (conn_ok fs doc_root)" for fs doc_root
proof unfold_locales
  show "all_conns (conn_ok fs doc_root) sv" if "server_init sv" for sv
    using that by (simp add: all_conns_def new_server_def do_accept_def)
qed (rule all_conns_step)

text \<open>
  C3. In every reachable state of the server, a connection has written nothing or exactly one
  reply, and that reply is the one its input deserves: the handler's reply to the request that
  \<open>parse\<close> reads from the concatenation of everything received, or the stock
  \<open>400 Bad Request\<close> if that concatenation is no request. How the input was cut into reads, and
  how the other connections were served in between, makes no difference.
\<close>

theorem connection_replies_correctly:
  assumes "reach server_init (server_step fs doc_root) sv" and "conns sv i = Some c"
  shows "conn_sent c = [] \<or>
    (\<exists>rep. deserved fs doc_root (conn_received c) = Some rep
       \<and> conn_sent c = [concat (to_buffers rep)])"
proof -
  have "conn_ok fs doc_root c"
    using replies.invariant [OF assms(1)] assms(2) by (simp add: all_conns_def)
  then show ?thesis
    by (auto simp: conn_ok_def waiting_ok_def answered_ok_def)
qed

text \<open>The witness: a client sends a carriage return and is answered with 400.\<close>

definition demo_accepted :: server where
  "demo_accepted = handle_accept no_error 0 0 ok new_server"

definition demo_answered :: server where
  "demo_answered = handle_read (\<lambda>_. None) ''w'' 0 no_error [CR] demo_accepted"

lemma demo_accepted_conns: "conns demo_accepted = [0 \<mapsto> conn_start (new_connection 0 0 ok)]"
  by (simp add: demo_accepted_def handler_defs new_server_def)

lemma demo_accepted_reach: "reach server_init (server_step (\<lambda>_. None) ''w'') demo_accepted"
  unfolding demo_accepted_def
proof (rule reach.reach_step [where s = new_server])
  show "reach server_init (server_step (\<lambda>_. None) ''w'') new_server"
    by (rule reach.reach_init) simp
  show "server_step (\<lambda>_. None) ''w'' new_server (handle_accept no_error 0 0 ok new_server)"
    by (rule server_step.accept_done) (simp add: new_server_def do_accept_def)
qed

lemma demo_answered_reach: "reach server_init (server_step (\<lambda>_. None) ''w'') demo_answered"
  unfolding demo_answered_def
  by (rule reach.reach_step [OF demo_accepted_reach
        server_step.read_done [where c = "conn_start (new_connection 0 0 ok)"]])
    (simp_all add: demo_accepted_conns conn_start_def do_read_def new_connection_def)

lemma demo_rejects: "fst (parse reset (fresh_request 0 0) [CR]) = bad"
  by code_simp

lemma demo_answered_conn:
  "\<exists>c. conns demo_answered 0 = Some c \<and> conn_sent c \<noteq> []"
proof -
  obtain rest p r where "parse reset (fresh_request 0 0) [CR] = (bad, rest, p, r)"
    using demo_rejects by (metis fst_conv prod_cases4)
  then show ?thesis
    by (simp add: demo_answered_def handle_read_def Let_def demo_accepted_conns read_data_def
        conn_start_def do_read_def do_write_def new_connection_def)
qed

theorem connection_replies_correctly_witness:
  "\<exists>c. conns demo_answered 0 = Some c \<and> conn_sent c \<noteq> [] \<and>
     (\<exists>rep. deserved (\<lambda>_. None) ''w'' (conn_received c) = Some rep
        \<and> conn_sent c = [concat (to_buffers rep)])"
  using demo_answered_conn connection_replies_correctly [OF demo_answered_reach] by blast

section \<open>Open sockets, managed connections and shutdown\<close>

definition live_inv :: "server \<Rightarrow> bool" where
  "live_inv sv \<longleftrightarrow>
     (\<forall>i \<in> connections sv. \<exists>c. conns sv i = Some c \<and> conn_open c \<and> conn_pending c \<noteq> no_op)
     \<and> (\<forall>i c. conns sv i = Some c \<and> conn_open c \<longrightarrow> i \<in> connections sv)
     \<and> (\<forall>i. conns sv i \<noteq> None \<longrightarrow> i < next_conn sv)
     \<and> (acceptor_open sv \<longrightarrow> accept_pending sv)
     \<and> (\<not> acceptor_open sv \<longrightarrow> connections sv = {})"

lemma live_inv_accept: "live_inv sv \<Longrightarrow> live_inv (handle_accept ec a b st sv)"
  unfolding live_inv_def
  by (auto simp: handle_accept_def add_connection_def do_accept_def manager_start_def on_conn_def
      conn_start_def do_read_def new_connection_def Let_def less_Suc_eq)

lemma read_data_live:
  "conn_open (read_data fs doc_root buf c) = conn_open c"
  "conn_pending (read_data fs doc_root buf c) \<noteq> no_op"
  by (auto simp: read_data_def do_write_def do_read_def Let_def split: prod.splits result_type.splits)

lemma live_inv_read:
  "live_inv sv \<Longrightarrow> conns sv i = Some c \<Longrightarrow> (ec = operation_aborted \<longrightarrow> \<not> conn_open c) \<Longrightarrow>
   live_inv (handle_read fs doc_root i ec buf sv)"
  unfolding live_inv_def
  by (cases ec) (auto simp: handle_read_def manager_stop_def on_conn_def conn_stop_def Let_def
      read_data_live split: if_splits)

lemma live_inv_write:
  "live_inv sv \<Longrightarrow> conns sv i = Some c \<Longrightarrow> (ec = operation_aborted \<longrightarrow> \<not> conn_open c) \<Longrightarrow>
   live_inv (handle_write i ec sv)"
  unfolding live_inv_def
  by (cases ec) (auto simp: handle_write_def manager_stop_def on_conn_def conn_stop_def Let_def
      split: if_splits)

lemma live_inv_stop: "live_inv sv \<Longrightarrow> live_inv (handle_stop sv)"
  unfolding live_inv_def
  by (auto simp: handle_stop_def manager_stop_all_def conn_stop_def split: if_splits)

interpretation lifecycle: invariant_system server_init "server_step fs doc_root" live_inv for fs doc_root
proof unfold_locales
  show "live_inv sv" if "server_init sv" for sv
    using that by (simp add: live_inv_def new_server_def do_accept_def)
  show "live_inv t" if "live_inv s" "server_step fs doc_root s t" for s t
    using that(2,1)
    by (cases rule: server_step.cases)
      (auto intro: live_inv_accept live_inv_read live_inv_write live_inv_stop)
qed

lemma acceptor_open_unaffected [simp]:
  "acceptor_open (on_conn f i sv) = acceptor_open sv"
  "acceptor_open (manager_stop i sv) = acceptor_open sv"
  by (simp_all add: on_conn_def manager_stop_def)

lemma acceptor_stays_closed:
  assumes "server_step fs doc_root s t" "\<not> acceptor_open s"
  shows "\<not> acceptor_open t"
  using assms(1)
proof (cases rule: server_step.cases)
  case (accept_done ec a b st)
  with assms(2) show ?thesis by (simp add: handle_accept_def Let_def)
next
  case (signal_done)
  then show ?thesis by (simp add: handle_stop_def manager_stop_all_def)
qed (use assms(2) in \<open>simp_all add: handle_read_def handle_write_def Let_def\<close>)

text \<open>
  C4. The connection manager holds exactly the connections with an open socket, each of them has
  an operation outstanding (none is stuck), an accept is always outstanding while the acceptor is
  open, and once a signal has closed the acceptor no connection is managed and every socket is
  closed, for good.
\<close>

theorem managed_are_the_live_connections:
  assumes "reach server_init (server_step fs doc_root) sv"
  shows "connections sv = {i. \<exists>c. conns sv i = Some c \<and> conn_open c}
    \<and> (\<forall>i c. conns sv i = Some c \<and> conn_open c \<longrightarrow> conn_pending c \<noteq> no_op)
    \<and> (acceptor_open sv \<longrightarrow> accept_pending sv)
    \<and> (\<not> acceptor_open sv \<longrightarrow> connections sv = {} \<and> (\<forall>i c. conns sv i = Some c \<longrightarrow> \<not> conn_open c)
         \<and> (\<forall>t. server_step fs doc_root sv t \<longrightarrow> \<not> acceptor_open t))"
  using lifecycle.invariant [OF assms] acceptor_stays_closed [of fs doc_root sv]
  unfolding live_inv_def by fastforce

theorem managed_are_the_live_connections_witness:
  "connections demo_accepted = {i. \<exists>c. conns demo_accepted i = Some c \<and> conn_open c}
   \<and> acceptor_open demo_accepted \<and> accept_pending demo_accepted"
proof -
  have "acceptor_open demo_accepted"
    by (simp add: demo_accepted_def handler_defs new_server_def)
  then show ?thesis
    using managed_are_the_live_connections [OF demo_accepted_reach] by blast
qed

end
