(* ===== verification/Encode_Convert.thy ===== *)
theory Encode_Convert
  imports Request_Handler
begin

text \<open>
  Text encodings of the advertisement server and of the conversion tool:
  \<^verbatim>\<open>src/ad_system/common/encode_convert.cpp\<close> (of which
  \<^verbatim>\<open>src/CharConvertTool/encode_convert.cpp\<close> is a copy) and the URL decoder of
  \<^verbatim>\<open>src/CharConvertTool/main.cpp\<close>.

  A \<open>const char*\<close> is a \<open>string option\<close>; \<open>None\<close> is the null pointer and the text ends at the
  first null byte (\<open>c_str\<close>). Lengths are below \<open>2 ^ 31\<close>.
\<close>

unbundle bit_operations_syntax

section \<open>Recognising UTF-8\<close>

text \<open>The number of bytes announced by a lead byte; \<open>None\<close> is the early \<open>return false\<close>.\<close>

definition lead_bytes :: "nat \<Rightarrow> nat option" where
  "lead_bytes chr =
     (if chr \<ge> 0xFC \<and> chr \<le> 0xFD then Some 6
      else if chr \<ge> 0xF8 then Some 5
      else if chr \<ge> 0xF0 then Some 4
      else if chr \<ge> 0xE0 then Some 3
      else if chr \<ge> 0xC0 then Some 2
      else None)"

fun isUTF8_loop :: "nat \<Rightarrow> string \<Rightarrow> bool" where
  "isUTF8_loop nBytes [] \<longleftrightarrow> \<not> nBytes > 0"
| "isUTF8_loop nBytes (c # cs) \<longleftrightarrow>
     (if nBytes = 0 \<and> byte c \<ge> 0x80
      then (case lead_bytes (byte c) of None \<Rightarrow> False | Some n \<Rightarrow> isUTF8_loop (n - 1) cs)
      else if nBytes \<noteq> 0
      then (if byte c AND 0xC0 \<noteq> 0x80 then False else isUTF8_loop (nBytes - 1) cs)
      else isUTF8_loop 0 cs)"

definition isUTF8 :: "string option \<Rightarrow> bool" where
  "isUTF8 str = (case str of None \<Rightarrow> False | Some s \<Rightarrow> isUTF8_loop 0 (c_str s))"

section \<open>Recognising GBK\<close>

text \<open>
  The position \<open>i\<close> is the suffix of the text that starts there: \<open>skip_ascii\<close> is the first inner
  loop, \<open>gbk_pairs\<close> the second (\<open>None\<close> is its \<open>return false\<close>).
\<close>

definition skip_ascii :: "string \<Rightarrow> string" where
  "skip_ascii s = dropWhile (\<lambda>c. char_val c \<ge> 0) s"

definition gbk_byte_ok :: "nat \<Rightarrow> bool" where
  "gbk_byte_ok chr \<longleftrightarrow>
     chr \<ge> 129 \<and> chr \<le> 254 \<and> chr \<ge> 64 \<and> chr \<le> 254 \<and> chr \<noteq> 127"

fun gbk_pairs :: "string \<Rightarrow> string option" where
  "gbk_pairs (a # b # rest) =
     (if char_val a < 0
      then (if gbk_byte_ok (byte a) then gbk_pairs rest else None)
      else Some (a # b # rest))"
| "gbk_pairs s = Some s"

lemma gbk_pairs_shorter: "gbk_pairs s = Some r \<Longrightarrow> length r \<le> length s"
  by (induction s rule: gbk_pairs.induct) (auto split: if_splits)

lemma gbk_pairs_progress:
  assumes "s \<noteq> []" "length (skip_ascii s) \<noteq> 1" "gbk_pairs (skip_ascii s) = Some r"
  shows "length r < length s"
proof (cases "char_val (hd s) \<ge> 0")
  case True
  then have "length (skip_ascii s) < length s"
    using assms(1) length_dropWhile_le [of _ "tl s"]
    by (cases s) (auto simp: skip_ascii_def less_Suc_eq_le)
  with gbk_pairs_shorter [OF assms(3)] show ?thesis by simp
next
  case False
  then have "skip_ascii s = s" using assms(1) by (cases s) (auto simp: skip_ascii_def)
  with assms False obtain a b t where "s = a # b # t" "char_val a < 0" "gbk_pairs t = Some r"
    by (cases s rule: gbk_pairs.cases) (auto split: if_splits)
  then show ?thesis using gbk_pairs_shorter [of t r] by simp
qed

function isGBK_loop :: "string \<Rightarrow> bool" where
  "isGBK_loop s \<longleftrightarrow>
     (if s = [] then True
      else if length (skip_ascii s) = 1 then True
      else (case gbk_pairs (skip_ascii s) of None \<Rightarrow> False | Some rest \<Rightarrow> isGBK_loop rest))"
  by pat_completeness auto
termination
  by (relation "measure length") (auto intro: gbk_pairs_progress)

declare isGBK_loop.simps [simp del]

definition isGBK :: "string option \<Rightarrow> bool" where
  "isGBK str = (case str of None \<Rightarrow> False | Some s \<Rightarrow> isGBK_loop (c_str s))"

section \<open>ConvertCore\<close>

text \<open>
  \<open>iconv\<close> is a library: \<open>opens to from\<close> says whether \<open>iconv_open\<close> delivers a descriptor, and
  \<open>iconv to from input outLen\<close> gives the bytes it stores through \<open>out\<close> and whether it returns
  something else than \<open>(size_t)-1\<close>. Its documented promise is to store at most \<open>outLen\<close> bytes.

  Storing behind the end of \<open>convBuff\<close> and reading \<open>convBuff\<close> where no null byte was stored are
  undefined behaviour, an \<open>Inl\<close>. Otherwise the result is the return value and \<open>output\<close>.
\<close>

type_synonym iconv = "string \<Rightarrow> string \<Rightarrow> string \<Rightarrow> nat \<Rightarrow> string \<times> bool"

datatype convert_fault = Buffer_overflow | Unterminated_buffer

definition iconv_bounded :: "iconv \<Rightarrow> bool" where
  "iconv_bounded iconv \<longleftrightarrow> (\<forall>to fro inp outLen. length (fst (iconv to fro inp outLen)) \<le> outLen)"

definition convBuffLen :: "string \<Rightarrow> nat" where
  "convBuffLen input = (if 1024 < length input * 2 then length input * 2 else 1024)"

definition ConvertCore ::
  "(string \<Rightarrow> string \<Rightarrow> bool) \<Rightarrow> iconv \<Rightarrow> string \<Rightarrow> string \<Rightarrow> string \<Rightarrow> string
   \<Rightarrow> convert_fault + (bool \<times> string)" where
  "ConvertCore opens iconv inCodeType outCodeType input output =
     (if \<not> opens outCodeType inCodeType then Inr (False, output)
      else
        (let inLen = length input + 1;
             outLen = inLen * 2;
             (stored, success) = iconv outCodeType inCodeType (input @ [CHR 0x00]) outLen;
             first = (if 1024 < length input * 2 then [] else [CHR 0x00]);
             convBuff = (if stored = [] then first else stored)
         in if length stored > convBuffLen input then Inl Buffer_overflow
            else if \<not> success then Inr (False, output)
            else if CHR 0x00 \<notin> set convBuff then Inl Unterminated_buffer
            else Inr (True, c_str convBuff)))"

definition GBK_to_UTF8 where
  "GBK_to_UTF8 opens iconv inp out = ConvertCore opens iconv ''GBK'' ''utf-8'' inp out"

definition UTF8_to_GBK where
  "UTF8_to_GBK opens iconv inp out = ConvertCore opens iconv ''utf-8'' ''GBK'' inp out"

definition GB2312_to_UTF8 where
  "GB2312_to_UTF8 opens iconv inp out = ConvertCore opens iconv ''gb2312'' ''utf-8'' inp out"

definition UTF8_to_GB2312 where
  "UTF8_to_GB2312 opens iconv inp out = ConvertCore opens iconv ''utf-8'' ''gb2312'' inp out"

section \<open>The URL decoder of the conversion tool\<close>

definition Char2Int :: "char \<Rightarrow> int" where
  "Char2Int ch =
     (if char_val CHR ''0'' \<le> char_val ch \<and> char_val ch \<le> char_val CHR ''9''
      then char_val ch - char_val CHR ''0''
      else if char_val CHR ''a'' \<le> char_val ch \<and> char_val ch \<le> char_val CHR ''f''
      then char_val ch - char_val CHR ''a'' + 10
      else if char_val CHR ''A'' \<le> char_val ch \<and> char_val ch \<le> char_val CHR ''F''
      then char_val ch - char_val CHR ''A'' + 10
      else - 1)"

definition Str2Bin :: "char \<Rightarrow> char \<Rightarrow> char" where
  "Str2Bin a b = char_cast (push_bit 4 (Char2Int a) OR Char2Int b)"

text \<open>
  \<open>src[len]\<close> is the null character; \<open>src[len + 1]\<close> is outside the string, undefined behaviour
  and the value \<open>None\<close>.
\<close>

fun UrlDecode :: "string \<Rightarrow> string option" where
  "UrlDecode [] = Some []"
| "UrlDecode (c # cs) =
     (if c = CHR ''%''
      then (case cs of
              a # b # rest \<Rightarrow> map_option ((#) (Str2Bin a b)) (UrlDecode rest)
            | [a] \<Rightarrow> Some [Str2Bin a CHR 0x00]
            | [] \<Rightarrow> None)
      else if c = CHR ''+'' then map_option ((#) CHR '' '') (UrlDecode cs)
      else map_option ((#) c) (UrlDecode cs))"

section \<open>What isUTF8 recognises\<close>

definition cont_byte :: "char \<Rightarrow> bool" where
  "cont_byte c \<longleftrightarrow> 0x80 \<le> byte c \<and> byte c < 0xC0"

text \<open>One character: an ASCII byte, or a lead byte with the continuation bytes it announces.\<close>

fun utf8_unit :: "string \<Rightarrow> bool" where
  "utf8_unit [] \<longleftrightarrow> False"
| "utf8_unit (c # cs) \<longleftrightarrow>
     (if byte c < 0x80 then cs = []
      else lead_bytes (byte c) = Some (Suc (length cs)) \<and> list_all cont_byte cs)"

lemma and_C0: "n AND 0xC0 = 64 * (n div 64 mod 4)" for n :: nat
proof -
  have "n AND push_bit 6 (mask 2) = push_bit 6 (take_bit 2 (drop_bit 6 n))"
    by (auto intro!: bit_eqI simp: bit_simps)
  moreover have "push_bit 6 (mask 2) = (0xC0 :: nat)"
    by (simp add: mask_eq_exp_minus_1 push_bit_eq_mult)
  ultimately show ?thesis
    by (simp add: push_bit_eq_mult take_bit_eq_mod drop_bit_eq_div)
qed

lemma top_bits_10: "n < 256 \<Longrightarrow> 64 * (n div 64 mod 4) = 128 \<longleftrightarrow> 128 \<le> n \<and> n < 192" for n :: nat
proof -
  assume "n < 256"
  then have "n div 64 mod 4 = n div 64" by simp
  moreover have "n div 64 = 2 \<longleftrightarrow> 128 \<le> n \<and> n < 192" by linarith
  ultimately show ?thesis by simp
qed

lemma cont_mask: "byte c AND 0xC0 = 0x80 \<longleftrightarrow> cont_byte c"
  unfolding and_C0 cont_byte_def using top_bits_10 [OF byte_less] by simp

lemma lead_bytes_pos: "lead_bytes n = Some k \<Longrightarrow> \<exists>m. k = Suc m"
  by (auto simp: lead_bytes_def split: if_splits)

lemma isUTF8_loop_sound:
  "isUTF8_loop n s \<Longrightarrow>
     \<exists>ks us. s = ks @ concat us \<and> length ks = n \<and> list_all cont_byte ks \<and> list_all utf8_unit us"
proof (induction s arbitrary: n)
  case Nil
  then show ?case by (auto intro: exI [of _ "[]"])
next
  case (Cons c cs)
  consider (lead) m where "n = 0" "byte c \<ge> 0x80" "lead_bytes (byte c) = Some (Suc m)" "isUTF8_loop m cs"
    | (cont) m where "n = Suc m" "cont_byte c" "isUTF8_loop m cs"
    | (ascii) "n = 0" "byte c < 0x80" "isUTF8_loop 0 cs"
    using Cons.prems by (cases n) (auto simp: cont_mask dest: lead_bytes_pos split: if_splits option.splits)
  then show ?case
  proof cases
    case lead
    from Cons.IH [OF lead(4)] obtain ks us where
      "cs = ks @ concat us" "length ks = m" "list_all cont_byte ks" "list_all utf8_unit us" by blast
    with lead show ?thesis by (intro exI [of _ "[]"] exI [of _ "(c # ks) # us"]) simp
  next
    case cont
    from Cons.IH [OF cont(3)] obtain ks us where
      "cs = ks @ concat us" "length ks = m" "list_all cont_byte ks" "list_all utf8_unit us" by blast
    with cont show ?thesis by (intro exI [of _ "c # ks"] exI [of _ us]) simp
  next
    case ascii
    from Cons.IH [OF ascii(3)] obtain us where "cs = concat us" "list_all utf8_unit us" by auto
    with ascii show ?thesis by (intro exI [of _ "[]"] exI [of _ "[c] # us"]) simp
  qed
qed

lemma isUTF8_loop_conts: "list_all cont_byte ks \<Longrightarrow> isUTF8_loop (length ks) (ks @ s) = isUTF8_loop 0 s"
  by (induction ks) (auto simp: cont_mask)

lemma isUTF8_loop_unit: "utf8_unit u \<Longrightarrow> isUTF8_loop 0 (u @ s) = isUTF8_loop 0 s"
  by (cases u) (auto simp: isUTF8_loop_conts split: if_splits)

lemma isUTF8_loop_units: "list_all utf8_unit us \<Longrightarrow> isUTF8_loop 0 (concat us)"
  by (induction us) (simp_all add: isUTF8_loop_unit)


section \<open>What isGBK recognises\<close>

text \<open>
  The reading the nested loops amount to: ASCII bytes are skipped, any other byte must be in
  \<open>129..254\<close> and takes the next byte with it, whatever that is; a last byte alone is accepted.
\<close>

fun gbk_ref :: "string \<Rightarrow> bool" where
  "gbk_ref (a # b # rest) \<longleftrightarrow>
     (if byte a < 128 then gbk_ref (b # rest) else 129 \<le> byte a \<and> byte a \<le> 254 \<and> gbk_ref rest)"
| "gbk_ref s \<longleftrightarrow> True"

lemma char_val_negative: "char_val a < 0 \<longleftrightarrow> 128 \<le> byte a"
  using byte_less [of a] by (auto simp: char_val_def)

lemma gbk_ref_skip: "gbk_ref (skip_ascii s) = gbk_ref s"
proof (induction s)
  case (Cons a s)
  then show ?case
    by (cases s) (auto simp: skip_ascii_def char_val_negative not_less [symmetric])
qed (simp add: skip_ascii_def)

lemma gbk_ref_pairs:
  "gbk_ref s \<longleftrightarrow> (case gbk_pairs s of None \<Rightarrow> False | Some r \<Rightarrow> gbk_ref r)"
  by (induction s rule: gbk_pairs.induct) (auto simp: gbk_byte_ok_def char_val_negative split: option.splits)

lemma gbk_ref_short: "length s = 1 \<Longrightarrow> gbk_ref s"
  by (cases s rule: gbk_ref.cases) auto

lemma isGBK_loop_ref: "isGBK_loop s = gbk_ref s"
proof (induction s rule: isGBK_loop.induct)
  case (1 s)
  show ?case
  proof (cases "s = [] \<or> length (skip_ascii s) = 1")
    case True
    then show ?thesis
      using gbk_ref_short [of "skip_ascii s"] gbk_ref_skip [of s] by (auto simp: isGBK_loop.simps)
  next
    case False
    then have "isGBK_loop s = (case gbk_pairs (skip_ascii s) of None \<Rightarrow> False | Some r \<Rightarrow> gbk_ref r)"
      using "1" by (subst isGBK_loop.simps) (auto split: option.splits)
    then show ?thesis by (simp add: gbk_ref_skip flip: gbk_ref_pairs)
  qed
qed

text \<open>
  The nested loops of \<open>_isGBK_\<close> terminate and decide the one-pass reading \<open>gbk_ref\<close>. In
  particular the second byte of a two-byte character is never examined: the range test
  \<open>64..254\<close> without 127 is applied to the first byte once more.
\<close>

theorem isGBK_reference:
  "isGBK (Some s) = gbk_ref (c_str s)
   \<and> (isGBK (Some (CHR 0x81 # b # s)) \<longleftrightarrow> b = CHR 0x00 \<or> isGBK (Some s))"
  by (simp add: isGBK_def isGBK_loop_ref c_str_def byte_def)

section \<open>ConvertCore and its output buffer\<close>

text \<open>What the code relies on: bounded output, and a success has converted the final null byte.\<close>

definition iconv_ok :: "iconv \<Rightarrow> bool" where
  "iconv_ok iconv \<longleftrightarrow> iconv_bounded iconv
     \<and> (\<forall>to fro inp outLen. snd (iconv to fro (inp @ [CHR 0x00]) outLen) \<longrightarrow>
           CHR 0x00 \<in> set (fst (iconv to fro (inp @ [CHR 0x00]) outLen)))"

lemma ConvertCore_outcome:
  fixes inC outC
  assumes "iconv_ok iconv" "length input < 512"
  defines "r \<equiv> iconv outC inC (input @ [CHR 0x00]) (2 * (length input + 1))"
  shows "ConvertCore opens iconv inC outC input output =
    Inr (if opens outC inC \<and> snd r then (True, c_str (fst r)) else (False, output))"
proof -
  have "length (fst r) \<le> 2 * (length input + 1)"
    using assms(1) by (simp add: iconv_ok_def iconv_bounded_def r_def)
  moreover have "snd r \<Longrightarrow> CHR 0x00 \<in> set (fst r)"
    using assms(1) by (simp add: iconv_ok_def r_def)
  ultimately show ?thesis
    using assms(2)
    by (auto simp: ConvertCore_def convBuffLen_def Let_def r_def mult.commute split: prod.splits)
qed

lemma ConvertCore_terminated:
  assumes "iconv_ok iconv"
  shows "ConvertCore opens iconv inC outC input output \<noteq> Inl Unterminated_buffer"
proof -
  obtain stored success where
    r: "iconv outC inC (input @ [CHR 0x00]) ((length input + 1) * 2) = (stored, success)"
    by fastforce
  then have "success \<Longrightarrow> CHR 0x00 \<in> set stored"
    using assms unfolding iconv_ok_def by (metis fst_conv snd_conv)
  with r show ?thesis by (auto simp: ConvertCore_def Let_def)
qed

text \<open>
  C18. The length handed to \<open>iconv\<close> counts the final null byte, the length of the buffer does
  not: whatever \<open>iconv\<close> does within its contract, the conversion stays inside \<open>convBuff\<close> if and
  only if the input is shorter than 512 bytes.
\<close>

theorem ConvertCore_overflow_iff:
  assumes "opens outC inC"
  shows "(\<forall>iconv. iconv_bounded iconv \<longrightarrow>
            ConvertCore opens iconv inC outC input output \<noteq> Inl Buffer_overflow)
         \<longleftrightarrow> length input < 512"
proof
  assume "length input < 512"
  show "\<forall>iconv. iconv_bounded iconv \<longrightarrow>
            ConvertCore opens iconv inC outC input output \<noteq> Inl Buffer_overflow"
  proof (intro allI impI)
    fix iconv :: iconv
    assume "iconv_bounded iconv"
    then have "length (fst (iconv outC inC (input @ [CHR 0x00]) ((length input + 1) * 2)))
        \<le> (length input + 1) * 2"
      by (simp only: iconv_bounded_def)
    with \<open>length input < 512\<close> show "ConvertCore opens iconv inC outC input output \<noteq> Inl Buffer_overflow"
      by (auto simp: ConvertCore_def convBuffLen_def Let_def split: prod.splits)
  qed
next
  define greedy :: iconv where "greedy = (\<lambda>to fro inp outLen. (replicate outLen CHR ''x'', True))"
  assume "\<forall>iconv. iconv_bounded iconv \<longrightarrow>
            ConvertCore opens iconv inC outC input output \<noteq> Inl Buffer_overflow"
  moreover have "iconv_bounded greedy" by (simp add: iconv_bounded_def greedy_def)
  ultimately have "ConvertCore opens greedy inC outC input output \<noteq> Inl Buffer_overflow" by blast
  then show "length input < 512"
    using assms by (auto simp: ConvertCore_def convBuffLen_def greedy_def Let_def split: if_splits)
qed

theorem ConvertCore_overflow_iff_witness:
  "\<exists>iconv. iconv_bounded iconv \<and>
     ConvertCore (\<lambda>_ _. True) iconv ''utf-8'' ''GBK'' (replicate 512 CHR ''a'') [] = Inl Buffer_overflow"
  using ConvertCore_overflow_iff [of "\<lambda>_ _. True" "''GBK''" "''utf-8''" "replicate 512 CHR ''a''" "[]"]
  unfolding length_replicate by blast

section \<open>UrlDecode\<close>

lemma byte_lits:
  "byte CHR ''0'' = 48" "byte CHR ''9'' = 57" "byte CHR ''a'' = 97" "byte CHR ''f'' = 102"
  "byte CHR ''A'' = 65" "byte CHR ''F'' = 70"
  by (simp_all add: byte_def)

lemma Char2Int_hex: "d < 16 \<Longrightarrow> Char2Int (hex_char d) = int d"
  by (auto simp: Char2Int_def char_val_def byte_hex_char byte_lits)

lemma nibbles: "x < 16 \<Longrightarrow> y < 16 \<Longrightarrow> push_bit 4 (int x) OR int y = int (x * 16 + y)"
proof -
  assume "x < 16" "y < 16"
  have "take_bit 4 (int y) = int y"
    using \<open>y < 16\<close> by (simp add: take_bit_eq_mod)
  then have "push_bit 4 (int x) AND int y = push_bit 4 (int x) AND take_bit 4 (int y)" by simp
  also have "\<dots> = 0"
    by (auto intro!: bit_eqI simp: bit_simps)
  finally have "push_bit 4 (int x) OR int y = push_bit 4 (int x) + int y"
    by (simp add: disjunctive_add_eq_or)
  then show ?thesis by (simp add: push_bit_eq_mult)
qed

lemma Str2Bin_hex: "Str2Bin (hex_char (byte c div 16)) (hex_char (byte c mod 16)) = c"
proof -
  have "byte c div 16 < 16" using byte_less [of c] by simp
  then show ?thesis
    by (simp add: Str2Bin_def Char2Int_hex nibbles char_cast_byte div_mult_mod_eq
        del: of_nat_add of_nat_mult)
qed

text \<open>
  The tool's decoder inverts percent encoding, as the server's \<open>url_decode\<close> does. On
  malformed input they differ: the server rejects \<open>%zz\<close> and a cut escape, the tool delivers the
  byte \<open>0xFF\<close> for the first and reads behind the end of the string for a final percent sign.
\<close>

theorem UrlDecode_url_encode:
  "UrlDecode (url_encode esc s) = Some s
   \<and> UrlDecode (url_encode esc s @ ''%'') = None
   \<and> UrlDecode (url_encode esc s @ ''%zz'') = Some (s @ [CHR 0xFF])"
proof -
  have step: "UrlDecode (encode_char esc c @ t) = map_option ((#) c) (UrlDecode t)" for c t
    by (auto simp: encode_char_def Str2Bin_hex)
  have "UrlDecode (url_encode esc s @ t) = map_option ((@) s) (UrlDecode t)" for t
    by (induction s) (simp_all add: url_encode_def step option.map_comp comp_def option.map_ident)
  note this [of "[]"] this [of "''%''"] this [of "''%zz''"]
  moreover have "Str2Bin CHR ''z'' CHR ''z'' = CHR 0xFF" by code_simp
  ultimately show ?thesis by simp
qed

end
