(* ===== verification/Server3.thy ===== *)
theory Server3
  imports Encode_Convert Http_Server
begin

text \<open>
  \<^verbatim>\<open>src/ad_system/server3\<close>: the multi-threaded HTTP server of the advertisement system, an
  earlier relative of \<^verbatim>\<open>src/boost/http_server\<close>. Its request, header, reply and character-class
  code is the same text and shares the definitions of those theories (\<open>reply.cpp\<close> differs only in
  spelling \<open>std::to_string\<close> as \<open>boost::lexical_cast\<close>); its parser is written with
  \<open>boost::tribool\<close>, its handler calls the \<open>CoreWorkInterface\<close>, and its server has no connection
  manager.
\<close>

section \<open>The parser\<close>

text \<open>\<open>boost::tribool\<close>: \<open>None\<close> is \<open>boost::indeterminate\<close>.\<close>

type_synonym tribool = "bool option"

definition tri_true :: "tribool \<Rightarrow> bool" where
  "tri_true t \<longleftrightarrow> t = Some True"

definition tri_not :: "tribool \<Rightarrow> tribool" where
  "tri_not t = map_option Not t"

definition tri_or :: "tribool \<Rightarrow> tribool \<Rightarrow> tribool" where
  "tri_or a b =
     (if a = Some True \<or> b = Some True then Some True
      else if a = Some False \<and> b = Some False then Some False else None)"

fun s3_consume :: "state \<Rightarrow> request \<Rightarrow> char \<Rightarrow> tribool \<times> state \<times> request" where
  "s3_consume method_start r c =
     (if not_token c then (Some False, method_start, r)
      else (None, in_method, push_method c r))"
| "s3_consume in_method r c =
     (if c = SP then (None, in_uri, r)
      else if not_token c then (Some False, in_method, r)
      else (None, in_method, push_method c r))"
| "s3_consume in_uri r c =
     (if c = SP then (None, http_version_h, r)
      else if is_ctl (char_val c) then (Some False, in_uri, r)
      else (None, in_uri, push_uri c r))"
| "s3_consume http_version_h r c =
     (if c = CHR ''H'' then (None, http_version_t_1, r) else (Some False, http_version_h, r))"
| "s3_consume http_version_t_1 r c =
     (if c = CHR ''T'' then (None, http_version_t_2, r) else (Some False, http_version_t_1, r))"
| "s3_consume http_version_t_2 r c =
     (if c = CHR ''T'' then (None, http_version_p, r) else (Some False, http_version_t_2, r))"
| "s3_consume http_version_p r c =
     (if c = CHR ''P'' then (None, http_version_slash, r) else (Some False, http_version_p, r))"
| "s3_consume http_version_slash r c =
     (if c = CHR ''/''
      then (None, http_version_major_start,
            r\<lparr>req_http_version_major := 0, req_http_version_minor := 0\<rparr>)
      else (Some False, http_version_slash, r))"
| "s3_consume http_version_major_start r c =
     (if is_digit (char_val c)
      then (None, http_version_major,
            r\<lparr>req_http_version_major := version_digit (req_http_version_major r) c\<rparr>)
      else (Some False, http_version_major_start, r))"
| "s3_consume http_version_major r c =
     (if c = CHR ''.'' then (None, http_version_minor_start, r)
      else if is_digit (char_val c)
      then (None, http_version_major,
            r\<lparr>req_http_version_major := version_digit (req_http_version_major r) c\<rparr>)
      else (Some False, http_version_major, r))"
| "s3_consume http_version_minor_start r c =
     (if is_digit (char_val c)
      then (None, http_version_minor,
            r\<lparr>req_http_version_minor := version_digit (req_http_version_minor r) c\<rparr>)
      else (Some False, http_version_minor_start, r))"
| "s3_consume http_version_minor r c =
     (if c = CR then (None, expecting_newline_1, r)
      else if is_digit (char_val c)
      then (None, http_version_minor,
            r\<lparr>req_http_version_minor := version_digit (req_http_version_minor r) c\<rparr>)
      else (Some False, http_version_minor, r))"
| "s3_consume expecting_newline_1 r c =
     (if c = LF then (None, header_line_start, r) else (Some False, expecting_newline_1, r))"
| "s3_consume header_line_start r c =
     (if c = CR then (None, expecting_newline_3, r)
      else if req_headers r \<noteq> [] \<and> (c = SP \<or> c = TAB) then (None, header_lws, r)
      else if not_token c then (Some False, header_line_start, r)
      else (None, header_name, push_header c r))"
| "s3_consume header_lws r c =
     (if c = CR then (None, expecting_newline_2, r)
      else if c = SP \<or> c = TAB then (None, header_lws, r)
      else if is_ctl (char_val c) then (Some False, header_lws, r)
      else (None, header_value, push_value c r))"
| "s3_consume header_name r c =
     (if c = CHR '':'' then (None, space_before_header_value, r)
      else if not_token c then (Some False, header_name, r)
      else (None, header_name, push_name c r))"
| "s3_consume space_before_header_value r c =
     (if c = SP then (None, header_value, r) else (Some False, space_before_header_value, r))"
| "s3_consume header_value r c =
     (if c = CR then (None, expecting_newline_2, r)
      else if is_ctl (char_val c) then (Some False, header_value, r)
      else (None, header_value, push_value c r))"
| "s3_consume expecting_newline_2 r c =
     (if c = LF then (None, header_line_start, r) else (Some False, expecting_newline_2, r))"
| "s3_consume expecting_newline_3 r c =
     ((if c = LF then Some True else Some False), expecting_newline_3, r)"

text \<open>The test \<open>result || !result\<close> is three-valued and holds when the result is determinate.\<close>

fun s3_parse :: "state \<Rightarrow> request \<Rightarrow> char list \<Rightarrow> tribool \<times> char list \<times> state \<times> request" where
  "s3_parse s r [] = (None, [], s, r)"
| "s3_parse s r (c # cs) =
     (case s3_consume s r c of
        (result, s', r') \<Rightarrow>
          if tri_true (tri_or result (tri_not result)) then (result, cs, s', r')
          else s3_parse s' r' cs)"

fun tribool_of :: "result_type \<Rightarrow> tribool" where
  "tribool_of good = Some True"
| "tribool_of bad = Some False"
| "tribool_of indeterminate = None"

lemma s3_consume_eq: "s3_consume s r c = apfst tribool_of (consume s r c)"
  by (cases s) (simp_all add: consume_def)

lemma tri_determinate: "tri_true (tri_or t (tri_not t)) \<longleftrightarrow> t \<noteq> None"
  by (cases t) (auto simp: tri_true_def tri_or_def tri_not_def)

lemma s3_parse_run: "s3_parse s r cs = apfst tribool_of (parse s r cs)"
proof (induction cs arbitrary: s r)
  case (Cons c cs)
  obtain t s' r' where "consume s r c = (t, s', r')" by (cases "consume s r c") auto
  with Cons.IH [of s' r'] show ?case
    by (cases t) (simp_all add: s3_consume_eq tri_determinate del: not_None_eq)
qed simp

text \<open>
  C16. On every input, from every parser state and request, the tribool parser of server3 and the
  enum parser of http_server give the same verdict, stop at the same character and leave the same
  state and request behind.
\<close>

theorem s3_parse_equals_parse: "s3_parse s r cs = apfst tribool_of (parse s r cs)"
  by (rule s3_parse_run)

section \<open>What the server is built on\<close>

text \<open>
  The libraries below the server: files, \<open>boost::lexical_cast<std::string>\<close> of a size,
  \<open>boost::split\<close> at slashes with adjacent separators merged, and \<open>iconv\<close>. The code relies on
  \<open>lexical_cast\<close> printing decimal numerals and on the contract of \<open>iconv\<close>.
\<close>

record platform =
  pf_open :: "string \<Rightarrow> string option"
  pf_lexical_cast :: "nat \<Rightarrow> string"
  pf_split :: "string \<Rightarrow> string list"
  pf_iconv_open :: "string \<Rightarrow> string \<Rightarrow> bool"
  pf_iconv :: iconv

definition platform_ok :: "platform \<Rightarrow> bool" where
  "platform_ok P \<longleftrightarrow> pf_lexical_cast P = to_string \<and> iconv_ok (pf_iconv P)"

text \<open>Undefined behaviour the code can reach.\<close>

datatype s3_fault = Null_worker | Table_overrun | Uninitialised_server | Convert_fault convert_fault

section \<open>The request handler\<close>

type_synonym worker = "string \<Rightarrow> s3_fault + (bool \<times> string)"

definition s3_headers :: "platform \<Rightarrow> nat \<Rightarrow> string \<Rightarrow> header list" where
  "s3_headers P n t =
     [\<lparr>hname = ''Content-Length'', hvalue = pf_lexical_cast P n\<rparr>,
      \<lparr>hname = ''Content-Type'', hvalue = t\<rparr>]"

definition s3_stock_reply :: "platform \<Rightarrow> status_type \<Rightarrow> reply" where
  "s3_stock_reply P st =
     \<lparr>rep_status = st, rep_headers = s3_headers P (length (stock_content st)) ''text/html'',
      rep_content = stock_content st\<rparr>"

text \<open>Lines 90--96: the status and the two headers of a successful reply.\<close>

definition s3_fill :: "platform \<Rightarrow> string \<Rightarrow> reply \<Rightarrow> s3_fault + reply" where
  "s3_fill P extension rep =
     (case server3_extension_to_type extension of
        None \<Rightarrow> Inl Table_overrun
      | Some t \<Rightarrow> Inr (rep\<lparr>rep_status := ok, rep_headers := s3_headers P (length (rep_content rep)) t\<rparr>))"

text \<open>\<open>coreWorker_\<close> is \<open>None\<close> while it is a null pointer.\<close>

definition s3_handle_request ::
  "platform \<Rightarrow> worker option \<Rightarrow> string \<Rightarrow> request \<Rightarrow> reply \<Rightarrow> string \<Rightarrow> s3_fault + reply" where
  "s3_handle_request P coreWorker doc_root req rep defaultType =
     (case url_decode (req_uri req) of
        None \<Rightarrow> Inr (s3_stock_reply P bad_request)
      | Some request_path \<Rightarrow>
          if \<not> path_ok request_path then Inr (s3_stock_reply P bad_request)
          else
            (let path = add_index request_path in
             if defaultType = ''xml'' \<or> defaultType = ''txt''
             then (case coreWorker of
                     None \<Rightarrow> Inl Null_worker
                   | Some work \<Rightarrow>
                       (case work path of
                          Inl f \<Rightarrow> Inl f
                        | Inr (True, tmpResult) \<Rightarrow>
                            s3_fill P defaultType (rep\<lparr>rep_content := rep_content rep @ tmpResult\<rparr>)
                        | Inr (False, _) \<Rightarrow> Inr (s3_stock_reply P not_found)))
             else (case pf_open P (c_str (doc_root @ path)) of
                     None \<Rightarrow> Inr (s3_stock_reply P not_found)
                   | Some stream \<Rightarrow>
                       s3_fill P (extension_of path)
                         (rep\<lparr>rep_content := read_loop (rep_content rep) stream\<rparr>))))"

section \<open>Connections\<close>

text \<open>
  \<open>s3_received\<close> and \<open>s3_sent\<close> record what was read and the writes that were started. The strand
  of a connection runs its handlers one at a time.
\<close>

record s3_connection =
  s3_request :: request
  s3_parser :: state
  s3_reply :: reply
  s3_pending :: pending
  s3_shutdown :: bool
  s3_received :: string
  s3_sent :: "string list"

definition s3_new_connection :: "s32 \<Rightarrow> s32 \<Rightarrow> status_type \<Rightarrow> s3_connection" where
  "s3_new_connection a b st =
     \<lparr>s3_request = fresh_request a b, s3_parser = reset,
      s3_reply = \<lparr>rep_status = st, rep_headers = [], rep_content = []\<rparr>,
      s3_pending = no_op, s3_shutdown = False, s3_received = [], s3_sent = []\<rparr>"

definition s3_start :: "s3_connection \<Rightarrow> s3_connection" where
  "s3_start c = c\<lparr>s3_pending := reading\<rparr>"

definition s3_async_write :: "s3_connection \<Rightarrow> s3_connection" where
  "s3_async_write c =
     c\<lparr>s3_pending := writing, s3_sent := s3_sent c @ [concat (to_buffers (s3_reply c))]\<rparr>"

definition s3_read_data ::
  "platform \<Rightarrow> worker option \<Rightarrow> string \<Rightarrow> string \<Rightarrow> string \<Rightarrow> s3_connection \<Rightarrow> s3_fault + s3_connection" where
  "s3_read_data P coreWorker doc_root defaultType buf c =
     (case s3_parse (s3_parser c) (s3_request c) buf of
        (result, _, p, r) \<Rightarrow>
          (let c' = c\<lparr>s3_parser := p, s3_request := r, s3_received := s3_received c @ buf\<rparr> in
           if tri_true result
           then (case s3_handle_request P coreWorker doc_root r (s3_reply c') defaultType of
                   Inl f \<Rightarrow> Inl f
                 | Inr rep \<Rightarrow> Inr (s3_async_write (c'\<lparr>s3_reply := rep\<rparr>)))
           else if tri_true (tri_not result)
           then Inr (s3_async_write (c'\<lparr>s3_reply := s3_stock_reply P bad_request\<rparr>))
           else Inr (s3_start c')))"

section \<open>The server\<close>

text \<open>
  Connections are numbered; a connection whose handler starts no new operation is destroyed and
  kept in \<open>s3_closed\<close> for the record. \<open>s3_crashed\<close> is set by undefined behaviour.
\<close>

record s3_server =
  s3_stopped :: bool
  s3_running :: bool
  s3_coreWorker :: "worker option"
  s3_doc_root :: string
  s3_defaultReturnType :: string
  s3_conns :: "nat \<rightharpoonup> s3_connection"
  s3_new :: nat
  s3_closed :: "s3_connection list"
  s3_crashed :: "s3_fault option"

text \<open>\<open>new_connection_\<close> is the connection numbered \<open>s3_new\<close>, made by \<open>start_accept\<close>.\<close>

definition s3_start_accept :: "s32 \<Rightarrow> s32 \<Rightarrow> status_type \<Rightarrow> s3_server \<Rightarrow> s3_server" where
  "s3_start_accept a b st sv =
     (let n = s3_new sv + 1
      in sv\<lparr>s3_new := n, s3_conns := (s3_conns sv)(n \<mapsto> s3_new_connection a b st)\<rparr>)"

definition s3_new_server :: "string \<Rightarrow> string \<Rightarrow> s32 \<Rightarrow> s32 \<Rightarrow> status_type \<Rightarrow> s3_server" where
  "s3_new_server doc_root defaultReturnType a b st =
     s3_start_accept a b st
       \<lparr>s3_stopped = False, s3_running = False, s3_coreWorker = None, s3_doc_root = doc_root,
        s3_defaultReturnType = defaultReturnType, s3_conns = Map.empty, s3_new = 0,
        s3_closed = [], s3_crashed = None\<rparr>"

text \<open>\<open>setCoreWorker\<close> throws on a null pointer: \<open>None\<close>.\<close>

definition s3_setCoreWorker :: "worker option \<Rightarrow> s3_server \<Rightarrow> s3_server option" where
  "s3_setCoreWorker refCoreWorker sv =
     (if refCoreWorker = None then None else Some (sv\<lparr>s3_coreWorker := refCoreWorker\<rparr>))"

definition s3_run :: "s3_server \<Rightarrow> s3_server" where
  "s3_run sv = sv\<lparr>s3_running := True\<rparr>"

definition s3_handle_accept :: "error_code \<Rightarrow> s32 \<Rightarrow> s32 \<Rightarrow> status_type \<Rightarrow> s3_server \<Rightarrow> s3_server" where
  "s3_handle_accept e a b st sv =
     s3_start_accept a b st
       (if e = no_error
        then sv\<lparr>s3_conns := (s3_conns sv)(s3_new sv := map_option s3_start (s3_conns sv (s3_new sv)))\<rparr>
        else sv\<lparr>s3_conns := (s3_conns sv)(s3_new sv := None)\<rparr>)"

definition s3_destroy :: "nat \<Rightarrow> s3_connection \<Rightarrow> s3_server \<Rightarrow> s3_server" where
  "s3_destroy i c sv =
     sv\<lparr>s3_conns := (s3_conns sv)(i := None), s3_closed := s3_closed sv @ [c]\<rparr>"

definition s3_handle_read ::
  "platform \<Rightarrow> nat \<Rightarrow> s3_connection \<Rightarrow> error_code \<Rightarrow> string \<Rightarrow> s3_server \<Rightarrow> s3_server" where
  "s3_handle_read P i c e buf sv =
     (let c = c\<lparr>s3_pending := no_op\<rparr> in
      if e = no_error
      then (case s3_read_data P (s3_coreWorker sv) (s3_doc_root sv) (s3_defaultReturnType sv) buf c of
              Inl f \<Rightarrow> sv\<lparr>s3_crashed := Some f\<rparr>
            | Inr c' \<Rightarrow> sv\<lparr>s3_conns := (s3_conns sv)(i \<mapsto> c')\<rparr>)
      else s3_destroy i c sv)"

definition s3_handle_write :: "nat \<Rightarrow> s3_connection \<Rightarrow> error_code \<Rightarrow> s3_server \<Rightarrow> s3_server" where
  "s3_handle_write i c e sv =
     s3_destroy i
       ((if e = no_error then c\<lparr>s3_shutdown := True\<rparr> else c)\<lparr>s3_pending := no_op\<rparr>) sv"

definition s3_handle_stop :: "s3_server \<Rightarrow> s3_server" where
  "s3_handle_stop sv = sv\<lparr>s3_stopped := True\<rparr>"

text \<open>
  The threads of the pool run completion handlers while the \<open>io_context\<close> is not stopped;
  handlers of different connections share nothing they write, so any interleaving of whole
  handlers covers the parallel runs.
\<close>

definition s3_live :: "s3_server \<Rightarrow> bool" where
  "s3_live sv \<longleftrightarrow> s3_running sv \<and> \<not> s3_stopped sv \<and> s3_crashed sv = None"

inductive s3_step :: "platform \<Rightarrow> s3_server \<Rightarrow> s3_server \<Rightarrow> bool" for P where
  s3_accept: "s3_live sv \<Longrightarrow> s3_step P sv (s3_handle_accept e a b st sv)"
| s3_read: "s3_live sv \<Longrightarrow> s3_conns sv i = Some c \<Longrightarrow> s3_pending c = reading \<Longrightarrow> length buf \<le> 8192 \<Longrightarrow>
     s3_step P sv (s3_handle_read P i c e buf sv)"
| s3_write: "s3_live sv \<Longrightarrow> s3_conns sv i = Some c \<Longrightarrow> s3_pending c = writing \<Longrightarrow>
     s3_step P sv (s3_handle_write i c e sv)"
| s3_signal: "s3_live sv \<Longrightarrow> s3_step P sv (s3_handle_stop sv)"

section \<open>What the server sends\<close>

definition s3_deserved ::
  "platform \<Rightarrow> worker option \<Rightarrow> string \<Rightarrow> string \<Rightarrow> string \<Rightarrow> (s3_fault + reply) option" where
  "s3_deserved P W root dt input =
     (case parse reset (fresh_request 0 0) input of
        (good, _, _, r) \<Rightarrow> Some (s3_handle_request P W root r empty_reply dt)
      | (bad, _, _, _) \<Rightarrow> Some (Inr (s3_stock_reply P bad_request))
      | (indeterminate, _, _, _) \<Rightarrow> None)"

definition s3_waiting :: "s3_connection \<Rightarrow> bool" where
  "s3_waiting c \<longleftrightarrow>
     s3_sent c = [] \<and> s3_pending c \<noteq> writing \<and> rep_content (s3_reply c) = []
     \<and> (\<exists>a b. parse reset (fresh_request a b) (s3_received c) =
          (indeterminate, [], s3_parser c, s3_request c))"

definition s3_answered :: "platform \<Rightarrow> worker option \<Rightarrow> string \<Rightarrow> string \<Rightarrow> s3_connection \<Rightarrow> bool" where
  "s3_answered P W root dt c \<longleftrightarrow>
     s3_pending c \<noteq> reading
     \<and> (\<exists>rep. s3_deserved P W root dt (s3_received c) = Some (Inr rep)
          \<and> s3_sent c = [concat (to_buffers rep)])"

definition s3_conn_ok :: "platform \<Rightarrow> worker option \<Rightarrow> string \<Rightarrow> string \<Rightarrow> s3_connection \<Rightarrow> bool" where
  "s3_conn_ok P W root dt c \<longleftrightarrow> s3_waiting c \<or> s3_answered P W root dt c"

lemma s3_handle_request_content_only:
  "rep_content rep = [] \<Longrightarrow>
   s3_handle_request P W root r rep dt = s3_handle_request P W root r empty_reply dt"
  by (cases rep)
    (simp add: s3_handle_request_def s3_fill_def empty_reply_def Let_def
      split: option.splits sum.splits bool.splits prod.splits)

lemma s3_deserved_good:
  "parse reset (fresh_request a b) input = (good, rest, p, r) \<Longrightarrow>
   s3_deserved P W root dt input = Some (s3_handle_request P W root r empty_reply dt)"
  using parse_fresh_good [of a b input rest p r 0 0] by (simp add: s3_deserved_def)

lemma s3_deserved_bad:
  "parse reset (fresh_request a b) input = (bad, rest, p, r) \<Longrightarrow>
   s3_deserved P W root dt input = Some (Inr (s3_stock_reply P bad_request))"
  using parse_fresh_result [of a b input 0 0] by (auto simp: s3_deserved_def split: prod.splits)

text \<open>A read leaves the connection in order, or faults as the handler does on what was received.\<close>

lemma s3_read_data_ok:
  assumes "s3_waiting c"
  shows "(\<exists>c'. s3_read_data P W root dt buf c = Inr c' \<and> s3_conn_ok P W root dt c')
    \<or> (\<exists>f. s3_read_data P W root dt buf c = Inl f
         \<and> s3_deserved P W root dt (s3_received c @ buf) = Some (Inl f))"
proof -
  from assms obtain a b where run: "parse reset (fresh_request a b) (s3_received c) =
      (indeterminate, [], s3_parser c, s3_request c)"
    by (auto simp: s3_waiting_def)
  obtain res rest p r where step: "parse (s3_parser c) (s3_request c) buf = (res, rest, p, r)"
    by (metis prod_cases4)
  have all: "parse reset (fresh_request a b) (s3_received c @ buf) = (res, rest, p, r)"
    using run step by (simp add: parse_append)
  have s3: "s3_parse (s3_parser c) (s3_request c) buf = (tribool_of res, rest, p, r)"
    by (simp add: s3_parse_run step)
  show ?thesis
  proof (cases res)
    case good
    with all have "s3_deserved P W root dt (s3_received c @ buf) =
        Some (s3_handle_request P W root r (s3_reply c) dt)"
      using assms by (simp add: s3_deserved_good s3_handle_request_content_only s3_waiting_def)
    with assms good s3 show ?thesis
      by (cases "s3_handle_request P W root r (s3_reply c) dt")
        (simp_all add: s3_read_data_def s3_conn_ok_def s3_answered_def s3_async_write_def
          s3_waiting_def tri_true_def Let_def)
  next
    case bad
    with all have "s3_deserved P W root dt (s3_received c @ buf) = Some (Inr (s3_stock_reply P bad_request))"
      by (simp add: s3_deserved_bad)
    with assms bad s3 show ?thesis
      by (simp add: s3_read_data_def s3_conn_ok_def s3_answered_def s3_async_write_def
          s3_waiting_def tri_true_def tri_not_def Let_def)
  next
    case indeterminate
    with all have "rest = []" by (auto dest: parse_indeterminate_consumes_all)
    with assms all indeterminate s3 show ?thesis
      by (auto simp: s3_read_data_def s3_conn_ok_def s3_waiting_def s3_start_def tri_true_def
          tri_not_def Let_def)
  qed
qed

text \<open>Constructed, given a worker and run, as \<open>ServerFrame::StartService\<close> does it.\<close>

definition s3_ready :: "worker option \<Rightarrow> string \<Rightarrow> string \<Rightarrow> s3_server \<Rightarrow> bool" where
  "s3_ready W root dt sv \<longleftrightarrow>
     (\<exists>a b st. map_option s3_run (s3_setCoreWorker W (s3_new_server root dt a b st)) = Some sv)"

definition s3_inv :: "platform \<Rightarrow> worker option \<Rightarrow> string \<Rightarrow> string \<Rightarrow> s3_server \<Rightarrow> bool" where
  "s3_inv P W root dt sv \<longleftrightarrow>
     W \<noteq> None \<and> s3_coreWorker sv = W \<and> s3_doc_root sv = root \<and> s3_defaultReturnType sv = dt
     \<and> (\<exists>c. s3_conns sv (s3_new sv) = Some c \<and> s3_waiting c \<and> s3_pending c = no_op)
     \<and> (\<forall>c \<in> ran (s3_conns sv) \<union> set (s3_closed sv). s3_conn_ok P W root dt c)
     \<and> (\<forall>f. s3_crashed sv = Some f \<longrightarrow> (\<exists>input. s3_deserved P W root dt input = Some (Inl f)))"

lemma s3_conn_ok_unaffected:
  "s3_conn_ok P W root dt c \<Longrightarrow> s3_conn_ok P W root dt (c\<lparr>s3_pending := no_op\<rparr>)"
  "s3_conn_ok P W root dt c \<Longrightarrow> s3_conn_ok P W root dt (c\<lparr>s3_shutdown := x\<rparr>)"
  "s3_conn_ok P W root dt (s3_new_connection a b st)"
  by (auto simp: s3_conn_ok_def s3_waiting_def s3_answered_def s3_new_connection_def)

lemma ran_upd: "c \<in> ran (m(i := x)) \<Longrightarrow> c \<in> ran m \<or> x = Some c"
  by (auto simp: ran_def split: if_splits)

lemma s3_inv_destroy:
  "s3_inv P W root dt sv \<Longrightarrow> s3_conn_ok P W root dt c \<Longrightarrow> i \<noteq> s3_new sv \<Longrightarrow>
   s3_inv P W root dt (s3_destroy i c sv)"
  by (auto simp: s3_inv_def s3_destroy_def dest: ran_upd)

lemma s3_new_connection_waiting:
  "s3_waiting (s3_new_connection a b st)" "s3_pending (s3_new_connection a b st) = no_op"
  by (auto simp: s3_waiting_def s3_new_connection_def)

lemma s3_inv_start_accept:
  assumes "s3_inv P W root dt sv"
  shows "s3_inv P W root dt (s3_start_accept a b st (sv\<lparr>s3_conns := (s3_conns sv)(s3_new sv := None)\<rparr>))"
    "s3_inv P W root dt (s3_start_accept a b st
       (sv\<lparr>s3_conns := (s3_conns sv)(s3_new sv := map_option s3_start (s3_conns sv (s3_new sv)))\<rparr>))"
proof -
  obtain c where c: "s3_conns sv (s3_new sv) = Some c" "s3_waiting c"
    using assms by (auto simp: s3_inv_def)
  have "s3_conn_ok P W root dt (s3_start c)"
    using c(2) by (auto simp: s3_conn_ok_def s3_waiting_def s3_start_def)
  then show "s3_inv P W root dt
      (s3_start_accept a b st (sv\<lparr>s3_conns := (s3_conns sv)(s3_new sv := None)\<rparr>))"
    "s3_inv P W root dt (s3_start_accept a b st
       (sv\<lparr>s3_conns := (s3_conns sv)(s3_new sv := map_option s3_start (s3_conns sv (s3_new sv)))\<rparr>))"
    using assms c(1)
    by (auto simp: s3_inv_def s3_start_accept_def Let_def s3_conn_ok_unaffected
        s3_new_connection_waiting dest!: ran_upd)
qed

lemma s3_inv_step:
  assumes "s3_inv P W root dt sv" "s3_step P sv sv'"
  shows "s3_inv P W root dt sv'"
  using assms(2)
proof (cases rule: s3_step.cases)
  case (s3_accept e a b st)
  then show ?thesis
    using s3_inv_start_accept [OF assms(1)] by (simp add: s3_handle_accept_def)
next
  case (s3_read i c buf e)
  then have ok: "s3_conn_ok P W root dt c" and i: "i \<noteq> s3_new sv"
    using assms(1) by (auto simp: s3_inv_def intro: ranI)
  let ?c = "c\<lparr>s3_pending := no_op\<rparr>"
  have "s3_waiting ?c"
    using ok s3_read(4) by (auto simp: s3_conn_ok_def s3_answered_def s3_waiting_def)
  from s3_read_data_ok [OF this, of P W root dt buf] show ?thesis
    using assms(1) i s3_inv_destroy [OF assms(1) s3_conn_ok_unaffected(1) [OF ok] i]
    unfolding s3_read(1) s3_handle_read_def Let_def
    by (auto simp: s3_inv_def dest!: ran_upd)
next
  case (s3_write i c e)
  then have ok: "s3_conn_ok P W root dt c" and i: "i \<noteq> s3_new sv"
    using assms(1) by (auto simp: s3_inv_def intro: ranI)
  show ?thesis
    unfolding s3_write(1) s3_handle_write_def
    using assms(1) ok i by (auto intro!: s3_inv_destroy s3_conn_ok_unaffected)
next
  case s3_signal
  with assms(1) show ?thesis by (simp add: s3_inv_def s3_handle_stop_def)
qed

lemma s3_inv_ready: "s3_ready W root dt sv \<Longrightarrow> s3_inv P W root dt sv"
  by (auto simp: s3_ready_def s3_inv_def s3_setCoreWorker_def s3_run_def s3_new_server_def
      s3_start_accept_def Let_def s3_conn_ok_unaffected s3_new_connection_waiting
      split: if_splits)

interpretation s3_service: invariant_system "s3_ready W root dt" "s3_step P" "s3_inv P W root dt"
  for P W root dt
  by unfold_locales (fact s3_inv_ready, fact s3_inv_step)

text \<open>A connection the server has or had.\<close>

definition s3_served :: "s3_server \<Rightarrow> s3_connection \<Rightarrow> bool" where
  "s3_served sv c \<longleftrightarrow> c \<in> ran (s3_conns sv) \<or> c \<in> set (s3_closed sv)"

lemma s3_no_null_worker:
  "W \<noteq> None \<Longrightarrow> (\<And>w p. W = Some w \<Longrightarrow> w p \<noteq> Inl Null_worker) \<Longrightarrow>
   s3_deserved P W root dt input \<noteq> Some (Inl Null_worker)"
  by (auto simp: s3_deserved_def s3_handle_request_def s3_fill_def Let_def
      split: result_type.splits option.splits sum.splits prod.splits bool.splits if_splits)

end
