(* ===== verification/Ad_Server.thy ===== *)
theory Ad_Server
  imports Server3
begin

text \<open>
  The advertisement server on top of server3: \<^verbatim>\<open>src/ad_system/common/globalHelper.cpp\<close>
  (settings and request splitting), \<^verbatim>\<open>globalConfig.hpp\<close>, \<^verbatim>\<open>serverWork.cpp\<close> (the worker),
  \<^verbatim>\<open>serverframe.cpp\<close> (start-up) and the profiler switch of \<^verbatim>\<open>main.cpp\<close>.
\<close>

section \<open>Settings\<close>

text \<open>
  \<open>ReadStringFromIniFile\<close>, which \<open>Ini_File\<close> models, is the parameter
  \<open>ini section key\<close>, the empty string when there is no such item.
  \<open>boost::lexical_cast<int>\<close> is \<open>cast\<close>, \<open>None\<close> when it throws.
\<close>

type_synonym ini_file = "string \<Rightarrow> string \<Rightarrow> string"

definition GetIntInSettingFile ::
  "ini_file \<Rightarrow> (string \<Rightarrow> int option) \<Rightarrow> string \<Rightarrow> string \<Rightarrow> int \<Rightarrow> int" where
  "GetIntInSettingFile ini cast frameName paraName defaultParaValue =
     (let tmpRs = ini frameName paraName in
      if length tmpRs = 0 then defaultParaValue
      else (case cast tmpRs of Some rs \<Rightarrow> rs | None \<Rightarrow> defaultParaValue))"

text \<open>\<open>getValue<T>\<close>: \<open>None\<close> is the result \<open>false\<close>, which leaves the value as it was.\<close>

definition getValue :: "ini_file \<Rightarrow> (string \<Rightarrow> 'a option) \<Rightarrow> string \<Rightarrow> string \<Rightarrow> 'a option" where
  "getValue ini cast sect key =
     (let str_value = ini sect key in if str_value = [] then None else cast str_value)"

record globalConfig =
  service_port :: string
  service_thread_num :: int
  enable_print_request :: int
  Default_ :: int

text \<open>\<open>load\<close>: the first missing or malformed value ends the process (\<open>LOG(FATAL)\<close>), \<open>None\<close>.\<close>

definition load_config ::
  "ini_file \<Rightarrow> (string \<Rightarrow> string option) \<Rightarrow> (string \<Rightarrow> int option) \<Rightarrow> globalConfig option" where
  "load_config ini tcast cast =
     (case getValue ini tcast ''SERVER'' ''service_port'' of None \<Rightarrow> None | Some p \<Rightarrow>
      case getValue ini cast ''SERVER'' ''service_thread_num'' of None \<Rightarrow> None | Some n \<Rightarrow>
      case getValue ini cast ''SERVER'' ''enable_print_request'' of None \<Rightarrow> None | Some e \<Rightarrow>
      case getValue ini cast ''COMMON'' ''Default'' of None \<Rightarrow> None | Some d \<Rightarrow>
      Some \<lparr>service_port = p, service_thread_num = n, enable_print_request = e, Default_ = d\<rparr>)"

section \<open>Splitting a request\<close>

definition lowerString :: "string \<Rightarrow> string" where
  "lowerString strIn = map tolower strIn"

text \<open>One token: bytes that may be GBK are converted in place, a failed conversion keeps them.\<close>

definition convert_token :: "platform \<Rightarrow> string \<Rightarrow> s3_fault + string" where
  "convert_token P strTemp =
     (if isGBK (Some strTemp)
      then (case GBK_to_UTF8 (pf_iconv_open P) (pf_iconv P) strTemp strTemp of
              Inl f \<Rightarrow> Inl (Convert_fault f)
            | Inr (_, t) \<Rightarrow> Inr (lowerString t))
      else Inr (lowerString strTemp))"

fun split_loop :: "platform \<Rightarrow> nat \<Rightarrow> string list \<Rightarrow> string list \<Rightarrow> s3_fault + string list" where
  "split_loop P i [] vecOut = Inr vecOut"
| "split_loop P i (strTemp # vecTemp) vecOut =
     (if i = 0 \<and> strTemp = [] then split_loop P (i + 1) vecTemp vecOut
      else (case convert_token P strTemp of
              Inl f \<Rightarrow> Inl f
            | Inr t \<Rightarrow> split_loop P (i + 1) vecTemp (vecOut @ [t])))"

definition splitRequest :: "platform \<Rightarrow> string list \<Rightarrow> string \<Rightarrow> s3_fault + string list" where
  "splitRequest P vecOut strIn = split_loop P 0 (pf_split P strIn) vecOut"

section \<open>The worker and its service\<close>

text \<open>\<open>CServerWork::Work\<close>; logging and the delay loop leave no trace in the result.\<close>

definition Work :: "platform \<Rightarrow> worker" where
  "Work P inp =
     (case splitRequest P [] inp of
        Inl f \<Rightarrow> Inl f
      | Inr vecIn \<Rightarrow> Inr (True, ''process result: '' @ inp))"

text \<open>
  \<open>ServerFrame::StartService\<close>: when the constructor of the server throws, the handler only prints
  a message and the uninitialised pointer is used.
\<close>

definition StartService ::
  "platform \<Rightarrow> bool \<Rightarrow> s32 \<Rightarrow> s32 \<Rightarrow> status_type \<Rightarrow> s3_fault + s3_server" where
  "StartService P constructed a b st =
     (if \<not> constructed then Inl Uninitialised_server
      else (case s3_setCoreWorker (Some (Work P)) (s3_new_server ''./wwwroot'' ''txt'' a b st) of
              Some s \<Rightarrow> Inr (s3_run s)
            | None \<Rightarrow> Inl Uninitialised_server))"

section \<open>The profiler switch\<close>

text \<open>
  The state is the static flag and whether the profiler runs; a call of \<open>ProfilerStop\<close> on a
  stopped profiler has no effect.
\<close>

record profiler_switch =
  isStarted :: bool
  profiling :: bool

definition gprofStartAndStop :: "bool \<Rightarrow> profiler_switch \<Rightarrow> profiler_switch" where
  "gprofStartAndStop is_usr1 s =
     (if \<not> is_usr1 then s
      else if \<not> isStarted s then s\<lparr>isStarted := True, profiling := True\<rparr>
      else s\<lparr>profiling := False\<rparr>)"

section \<open>What splitRequest delivers\<close>

text \<open>The text of a token after conversion and lower-casing, for an \<open>iconv\<close> within its contract.\<close>

definition token_text :: "platform \<Rightarrow> string \<Rightarrow> string" where
  "token_text P t =
     (let r = pf_iconv P ''utf-8'' ''GBK'' (t @ [CHR 0x00]) (2 * (length t + 1)) in
      lowerString (if isGBK (Some t) \<and> pf_iconv_open P ''utf-8'' ''GBK'' \<and> snd r
                   then c_str (fst r) else t))"

fun drop_first_empty :: "string list \<Rightarrow> string list" where
  "drop_first_empty ([] # ts) = ts"
| "drop_first_empty ts = ts"

lemma convert_token_text:
  "platform_ok P \<Longrightarrow> length t < 512 \<Longrightarrow> convert_token P t = Inr (token_text P t)"
  by (simp add: convert_token_def GBK_to_UTF8_def ConvertCore_outcome platform_ok_def token_text_def Let_def)

lemma split_loop_later:
  "platform_ok P \<Longrightarrow> list_all (\<lambda>t. length t < 512) ts \<Longrightarrow>
   split_loop P (Suc i) ts out = Inr (out @ map (token_text P) ts)"
  by (induction ts arbitrary: i out) (simp_all add: convert_token_text)

text \<open>
  When no token reaches 512 bytes, \<open>splitRequest\<close> appends the tokens of the path in order,
  without the empty one before the first slash, each converted to UTF-8 where it can be read as
  GBK and the conversion succeeds, and lower-cased.
\<close>

theorem splitRequest_tokens:
  assumes "platform_ok P" "list_all (\<lambda>t. length t < 512) (pf_split P strIn)"
  shows "splitRequest P vecOut strIn =
    Inr (vecOut @ map (token_text P) (drop_first_empty (pf_split P strIn)))"
proof (cases "pf_split P strIn" rule: drop_first_empty.cases)
  case (1 ts)
  with assms show ?thesis by (simp add: splitRequest_def split_loop_later)
qed (use assms in \<open>simp_all add: splitRequest_def split_loop_later convert_token_text\<close>)

text \<open>A platform whose \<open>iconv\<close> copies and whose \<open>boost::split\<close> finds no separator.\<close>

definition demo_platform :: platform where
  "demo_platform =
     \<lparr>pf_open = (\<lambda>_. None), pf_lexical_cast = to_string, pf_split = (\<lambda>s. [s]),
      pf_iconv_open = (\<lambda>_ _. True),
      pf_iconv = (\<lambda>_ _ s n. (take n s, length s \<le> n))\<rparr>"

lemma demo_platform_ok: "platform_ok demo_platform"
  by (simp add: platform_ok_def demo_platform_def iconv_ok_def iconv_bounded_def)

theorem splitRequest_tokens_witness: "splitRequest demo_platform [] ''/Ads'' = Inr [''/ads'']"
proof -
  have "list_all (\<lambda>t. length t < 512) (pf_split demo_platform ''/Ads'')"
    by (simp add: demo_platform_def)
  then have "splitRequest demo_platform [] ''/Ads'' = Inr (map (token_text demo_platform) [''/Ads''])"
    using splitRequest_tokens [OF demo_platform_ok, of "''/Ads''" "[]"]
    by (simp add: demo_platform_def)
  moreover have "token_text demo_platform ''/Ads'' = ''/ads''"
    by (simp add: demo_platform_def token_text_def lowerString_def c_str_def) code_simp
  ultimately show ?thesis by simp
qed

section \<open>What the service answers\<close>

text \<open>
  The reply an input deserves: nothing before a request is complete, the text
  \<open>process result: path\<close> for a request whose target is an acceptable path, 400 otherwise.
\<close>

definition ad_reply :: "string \<Rightarrow> reply" where
  "ad_reply path =
     (let content = ''process result: '' @ path
      in \<lparr>rep_status = ok, rep_headers = two_headers (length content) ''text/plain'',
          rep_content = content\<rparr>)"

definition ad_deserved :: "string \<Rightarrow> reply option" where
  "ad_deserved input =
     (case parse reset (fresh_request 0 0) input of
        (good, _, _, r) \<Rightarrow>
          Some (case url_decode (req_uri r) of
                  Some p \<Rightarrow> if path_ok p then ad_reply (add_index p) else stock_reply bad_request
                | None \<Rightarrow> stock_reply bad_request)
      | (bad, _, _, _) \<Rightarrow> Some (stock_reply bad_request)
      | (indeterminate, _, _, _) \<Rightarrow> None)"

lemma s3_headers_two: "platform_ok P \<Longrightarrow> s3_headers P n t = two_headers n t"
  by (simp add: s3_headers_def platform_ok_def two_headers_def)

lemma s3_stock_reply_stock: "platform_ok P \<Longrightarrow> s3_stock_reply P st = stock_reply st"
  by (simp add: s3_stock_reply_def stock_reply_def s3_headers_two Let_def)

lemma convert_token_faults:
  assumes "platform_ok P" "convert_token P t = Inl f"
  shows "f = Convert_fault Buffer_overflow"
proof -
  have "ConvertCore (pf_iconv_open P) (pf_iconv P) ''GBK'' ''utf-8'' t t \<noteq> Inl Unterminated_buffer"
    using assms(1) by (intro ConvertCore_terminated) (simp add: platform_ok_def)
  then show ?thesis
    using assms(2) by (auto simp: convert_token_def GBK_to_UTF8_def split: if_splits sum.splits)
      (metis convert_fault.exhaust)
qed

lemma split_loop_faults:
  "platform_ok P \<Longrightarrow> split_loop P i ts out = Inl f \<Longrightarrow> f = Convert_fault Buffer_overflow"
  by (induction P i ts out rule: split_loop.induct)
    (auto dest: convert_token_faults split: if_splits sum.splits)

lemma Work_outcome:
  assumes "platform_ok P"
  shows "Work P inp = Inr (True, ''process result: '' @ inp)
    \<or> Work P inp = Inl (Convert_fault Buffer_overflow)"
  using split_loop_faults [OF assms]
  by (auto simp: Work_def splitRequest_def split: sum.splits)

lemma ad_handle_request:
  assumes "platform_ok P"
  shows "s3_handle_request P (Some (Work P)) root r empty_reply ''txt'' \<in>
    {Inl (Convert_fault Buffer_overflow),
     Inr (case url_decode (req_uri r) of
            Some p \<Rightarrow> if path_ok p then ad_reply (add_index p) else stock_reply bad_request
          | None \<Rightarrow> stock_reply bad_request)}"
proof -
  have plain: "server3_extension_to_type ''txt'' = Some ''text/plain''"
    by (simp add: server3_extension_to_type_def server3_mappings_def)
  show ?thesis
  proof (cases "url_decode (req_uri r)")
    case None
    with assms show ?thesis by (simp add: s3_handle_request_def s3_stock_reply_stock)
  next
    case (Some p)
    consider "\<not> path_ok p"
      | "path_ok p" "Work P (add_index p) = Inr (True, ''process result: '' @ add_index p)"
      | "path_ok p" "Work P (add_index p) = Inl (Convert_fault Buffer_overflow)"
      using Work_outcome [OF assms] by blast
    then show ?thesis
      using Some assms
      by cases (simp_all add: s3_handle_request_def s3_stock_reply_stock Let_def s3_fill_def plain
          empty_reply_def ad_reply_def s3_headers_two)
  qed
qed

lemma ad_deserved_s3:
  assumes "platform_ok P" "s3_deserved P (Some (Work P)) root ''txt'' input = Some res"
  shows "res = Inl (Convert_fault Buffer_overflow) \<or> (\<exists>rep. res = Inr rep \<and> ad_deserved input = Some rep)"
proof -
  obtain v rest p r where run: "parse reset (fresh_request 0 0) input = (v, rest, p, r)"
    by (metis prod_cases4)
  show ?thesis
    using assms run ad_handle_request [OF assms(1), of root r]
    by (cases v) (auto simp: s3_deserved_def ad_deserved_def s3_stock_reply_stock)
qed


text \<open>The witness: a connection is accepted and nothing was received yet.\<close>

definition demo_service :: s3_server where
  "demo_service =
     s3_run ((s3_new_server ''./wwwroot'' ''txt'' 0 0 ok)\<lparr>s3_coreWorker := Some (Work demo_platform)\<rparr>)"

lemma demo_service_start: "StartService demo_platform True 0 0 ok = Inr demo_service"
  by (simp add: StartService_def s3_setCoreWorker_def demo_service_def)

lemma demo_service_accept:
  "reach (\<lambda>sv. sv = demo_service) (s3_step demo_platform)
     (s3_handle_accept no_error 0 0 ok demo_service)"
  by (rule reach_one [where s = demo_service], simp, rule s3_step.s3_accept)
    (simp_all add: s3_live_def demo_service_def s3_run_def s3_new_server_def s3_start_accept_def Let_def)


section \<open>Profiling\<close>

text \<open>The flag is never reset: only the first signal starts the profiler.\<close>

lemma gprof_once:
  "profiling ((gprofStartAndStop True ^^ n) \<lparr>isStarted = False, profiling = False\<rparr>) \<longleftrightarrow> n = 1"
proof -
  have "(gprofStartAndStop True ^^ Suc (Suc n)) \<lparr>isStarted = False, profiling = False\<rparr> =
      \<lparr>isStarted = True, profiling = False\<rparr>" for n
    by (induction n) (simp_all add: gprofStartAndStop_def)
  then show ?thesis
    by (cases n rule: nat.exhaust; cases "n - 1") (simp_all add: gprofStartAndStop_def)
qed

end
