(* ===== verification/LRU_Cache.thy ===== *)
theory LRU_Cache
  imports Main "HOL-Library.AList"
begin

text \<open>
  \<^verbatim>\<open>src/c++11/LRUCache.cpp\<close>: a doubly linked list of key/value pairs, most recently used first,
  and a hash map from keys to list iterators. Each operation holds the mutex throughout, so
  operations are atomic.

  A list iterator is the identity of a node: nodes carry a number, \<open>splice\<close> moves a node and
  keeps its number, \<open>push_front\<close> makes a new one. The hash map is an association list.
\<close>

section \<open>The cache\<close>

type_synonym node = "nat \<times> int \<times> int"

record lru =
  lru_cap :: int
  lru_cache :: "node list"
  lru_map :: "(int \<times> nat) list"
  lru_next :: nat

definition new_lru :: "int \<Rightarrow> lru" where
  "new_lru capacity = \<lparr>lru_cap = capacity, lru_cache = [], lru_map = [], lru_next = 0\<rparr>"

definition node_key :: "node \<Rightarrow> int" where
  "node_key n = fst (snd n)"

definition node_val :: "node \<Rightarrow> int" where
  "node_val n = snd (snd n)"

text \<open>\<open>cache.erase(it)\<close>.\<close>

definition erase_node :: "nat \<Rightarrow> node list \<Rightarrow> node list" where
  "erase_node it xs = filter (\<lambda>n. fst n \<noteq> it) xs"

text \<open>\<open>map.size() > cap\<close> compares in \<open>size_t\<close>: the \<open>int\<close> is converted modulo \<open>2 ^ 64\<close>.\<close>

definition cap_size :: "int \<Rightarrow> nat" where
  "cap_size cap = nat (cap mod 2 ^ 64)"

definition evict :: "lru \<Rightarrow> lru" where
  "evict c =
     (if length (lru_map c) > cap_size (lru_cap c)
      then c\<lparr>lru_cache := butlast (lru_cache c),
             lru_map := AList.delete (node_key (last (lru_cache c))) (lru_map c)\<rparr>
      else c)"

definition lru_put :: "int \<Rightarrow> int \<Rightarrow> lru \<Rightarrow> lru" where
  "lru_put key v c =
     (let xs = (case map_of (lru_map c) key of
                  Some it \<Rightarrow> erase_node it (lru_cache c)
                | None \<Rightarrow> lru_cache c)
      in evict (c\<lparr>lru_cache := (lru_next c, key, v) # xs,
                  lru_map := AList.update key (lru_next c) (lru_map c),
                  lru_next := lru_next c + 1\<rparr>))"

text \<open>\<open>splice\<close> to the front; \<open>None\<close> is the return value \<open>false\<close>.\<close>

definition lru_get :: "int \<Rightarrow> lru \<Rightarrow> int option \<times> lru" where
  "lru_get key c =
     (case map_of (lru_map c) key of
        None \<Rightarrow> (None, c)
      | Some it \<Rightarrow>
          (case List.find (\<lambda>n. fst n = it) (lru_cache c) of
             None \<Rightarrow> (None, c)
           | Some n \<Rightarrow> (Some (node_val n), c\<lparr>lru_cache := n # erase_node it (lru_cache c)\<rparr>)))"

section \<open>The contract of a least-recently-used cache\<close>

text \<open>
  The specification: a list of entries with distinct keys, most recently used first, cut to the
  capacity when a put makes it too long.
\<close>

definition use_entry :: "int \<Rightarrow> int \<Rightarrow> (int \<times> int) list \<Rightarrow> (int \<times> int) list" where
  "use_entry k v es = (k, v) # filter (\<lambda>e. fst e \<noteq> k) es"

definition spec_put :: "nat \<Rightarrow> int \<Rightarrow> int \<Rightarrow> (int \<times> int) list \<Rightarrow> (int \<times> int) list" where
  "spec_put n k v es = (let es' = use_entry k v es in if length es' > n then butlast es' else es')"

definition spec_get :: "int \<Rightarrow> (int \<times> int) list \<Rightarrow> (int \<times> int) list" where
  "spec_get k es = (case map_of es k of None \<Rightarrow> es | Some v \<Rightarrow> use_entry k v es)"

datatype cache_op = Put int int | Get int

fun op_key :: "cache_op \<Rightarrow> int" where
  "op_key (Put k _) = k"
| "op_key (Get k) = k"

fun put_keys :: "cache_op list \<Rightarrow> int set" where
  "put_keys [] = {}"
| "put_keys (Put k _ # ps) = insert k (put_keys ps)"
| "put_keys (Get _ # ps) = put_keys ps"

fun run_ops ::
  "(int \<Rightarrow> int \<Rightarrow> 's \<Rightarrow> 's) \<Rightarrow> (int \<Rightarrow> 's \<Rightarrow> int option \<times> 's) \<Rightarrow> cache_op list \<Rightarrow> 's \<Rightarrow> 's" where
  "run_ops put get [] s = s"
| "run_ops put get (Put k v # ps) s = run_ops put get ps (put k v s)"
| "run_ops put get (Get k # ps) s = run_ops put get ps (snd (get k s))"

text \<open>
  \<open>recent\<close>: the entry of \<open>k\<close> is preceded by entries of keys in \<open>K\<close> only;
  \<open>stale\<close>: if there is an entry of \<open>k\<close>, entries of all keys in \<open>D\<close> precede it.
\<close>

definition recent :: "int \<Rightarrow> int \<Rightarrow> int set \<Rightarrow> (int \<times> int) list \<Rightarrow> bool" where
  "recent k v K es \<longleftrightarrow> (\<exists>us vs. es = us @ (k, v) # vs \<and> fst ` set us \<subseteq> K)"

definition stale :: "int \<Rightarrow> int set \<Rightarrow> (int \<times> int) list \<Rightarrow> bool" where
  "stale k D es \<longleftrightarrow> (\<forall>us v vs. es = us @ (k, v) # vs \<longrightarrow> D \<subseteq> fst ` set us)"

lemma use_entry_split:
  "k' \<noteq> k \<Longrightarrow> use_entry k' w (us @ (k, v) # vs) =
     use_entry k' w us @ (k, v) # filter (\<lambda>e. fst e \<noteq> k') vs"
  by (simp add: use_entry_def)

lemma fst_use_entry: "fst ` set (use_entry k v es) = insert k (fst ` set es)"
  by (force simp: use_entry_def)

lemma distinct_use_entry:
  "distinct (map fst es) \<Longrightarrow> distinct (map fst (use_entry k v es))"
  by (auto simp: use_entry_def distinct_map_filter)

lemma distinct_prefix_card:
  "distinct (map fst (us @ e # vs)) \<Longrightarrow> fst ` set us \<subseteq> K \<Longrightarrow> finite K \<Longrightarrow> length us \<le> card K"
  by (metis (no_types, lifting) card_mono distinct_append distinct_card length_map list.set_map map_append)

lemma recent_use_entry:
  "recent k v K es \<Longrightarrow> k' \<noteq> k \<Longrightarrow> k' \<in> K \<Longrightarrow> recent k v K (use_entry k' w es)"
  unfolding recent_def using use_entry_split fst_use_entry by (metis insert_subset)

lemma recent_spec_put:
  assumes "recent k v K es" "distinct (map fst es)" "k' \<noteq> k" "k' \<in> K" "finite K" "card K < n"
  shows "recent k v K (spec_put n k' w es)"
proof -
  let ?es = "use_entry k' w es"
  obtain us vs where es: "?es = us @ (k, v) # vs" and us: "fst ` set us \<subseteq> K"
    using recent_use_entry [OF assms(1,3,4)] unfolding recent_def by metis
  show ?thesis
  proof (cases "length ?es > n")
    case False
    then show ?thesis using es us by (auto simp: spec_put_def recent_def Let_def)
  next
    case True
    have "length us \<le> card K"
      using distinct_prefix_card [of us "(k, v)" vs K] distinct_use_entry [OF assms(2), of k' w]
        es us assms(5) by simp
    with True es assms(6) have "vs \<noteq> []" by auto
    then have "butlast ?es = us @ (k, v) # butlast vs" by (simp add: es butlast_append)
    with True us show ?thesis by (auto simp: spec_put_def recent_def Let_def)
  qed
qed

lemma recent_spec_get:
  "recent k v K es \<Longrightarrow> k' \<noteq> k \<Longrightarrow> k' \<in> K \<Longrightarrow> recent k v K (spec_get k' es)"
  by (auto simp: spec_get_def recent_use_entry split: option.splits)

lemma recent_lookup: "recent k v K es \<Longrightarrow> distinct (map fst es) \<Longrightarrow> map_of es k = Some v"
  by (auto simp: recent_def)

lemma filter_split:
  "filter P es = us @ x # vs \<Longrightarrow> \<exists>xs ys. es = xs @ x # ys \<and> us = filter P xs"
proof (induction es arbitrary: us)
  case Nil
  then show ?case by simp
next
  case (Cons e es)
  consider "\<not> P e" | "P e" "us = []" | us' where "P e" "us = e # us'"
    using Cons.prems by (cases us) (auto split: if_splits)
  then show ?case
  proof cases
    case 1
    with Cons.prems have "filter P es = us @ x # vs" by simp
    from Cons.IH [OF this] obtain xs ys where "es = xs @ x # ys" "us = filter P xs" by blast
    with 1 show ?thesis by (intro exI [of _ "e # xs"] exI [of _ ys]) simp
  next
    case 2
    with Cons.prems show ?thesis by (intro exI [of _ "[]"] exI [of _ es]) simp
  next
    case 3
    with Cons.prems have "filter P es = us' @ x # vs" by simp
    from Cons.IH [OF this] obtain xs ys where "es = xs @ x # ys" "us' = filter P xs" by blast
    with 3 show ?thesis by (intro exI [of _ "e # xs"] exI [of _ ys]) simp
  qed
qed

lemma stale_use_entry:
  assumes "stale k D es" "k' \<noteq> k"
  shows "stale k (insert k' D) (use_entry k' w es)"
  unfolding stale_def
proof (intro allI impI)
  fix us v vs
  assume eq: "use_entry k' w es = us @ (k, v) # vs"
  then obtain us' where us: "us = (k', w) # us'" and f: "filter (\<lambda>e. fst e \<noteq> k') es = us' @ (k, v) # vs"
    using assms(2) by (cases us) (auto simp: use_entry_def)
  from f obtain xs ys where es: "es = xs @ (k, v) # ys" and "us' = filter (\<lambda>e. fst e \<noteq> k') xs"
    using filter_split by metis
  with assms(1) have "D \<subseteq> fst ` set xs" by (auto simp: stale_def)
  with us \<open>us' = _\<close> show "insert k' D \<subseteq> fst ` set us" by force
qed

lemma stale_butlast: "stale k D es \<Longrightarrow> stale k D (butlast es)"
  unfolding stale_def
  by (metis append_butlast_last_id append_Cons append_assoc butlast.simps(1) snoc_eq_iff_butlast)

lemma stale_mono: "stale k D es \<Longrightarrow> D' \<subseteq> D \<Longrightarrow> stale k D' es"
  unfolding stale_def by blast

lemma stale_spec_put: "stale k D es \<Longrightarrow> k' \<noteq> k \<Longrightarrow> stale k (insert k' D) (spec_put n k' w es)"
  by (simp add: spec_put_def Let_def stale_use_entry stale_butlast)

lemma stale_spec_get: "stale k D es \<Longrightarrow> k' \<noteq> k \<Longrightarrow> stale k D (spec_get k' es)"
  by (auto simp: spec_get_def split: option.splits intro: stale_mono stale_use_entry)

lemma stale_lookup:
  assumes "stale k D es" "length es \<le> card D" "finite D"
  shows "map_of es k = None"
proof (rule ccontr)
  assume "map_of es k \<noteq> None"
  then obtain v where "(k, v) \<in> set es" by (auto dest: map_of_SomeD)
  then obtain us vs where es: "es = us @ (k, v) # vs" by (meson split_list)
  with assms(1) have "D \<subseteq> fst ` set us" by (simp add: stale_def)
  then have "card D \<le> length us"
    by (metis List.finite_set card_image_le card_length card_mono finite_imageI le_trans)
  with es assms(2) show False by simp
qed

locale recency_cache =
  fixes ok :: "'s \<Rightarrow> bool"
    and entries :: "'s \<Rightarrow> (int \<times> int) list"
    and capacity :: "'s \<Rightarrow> nat"
    and put :: "int \<Rightarrow> int \<Rightarrow> 's \<Rightarrow> 's"
    and get :: "int \<Rightarrow> 's \<Rightarrow> int option \<times> 's"
  assumes ok_put: "ok s \<Longrightarrow> ok (put k v s)"
    and ok_get: "ok s \<Longrightarrow> ok (snd (get k s))"
    and ok_distinct: "ok s \<Longrightarrow> distinct (map fst (entries s))"
    and ok_bound: "ok s \<Longrightarrow> length (entries s) \<le> capacity s"
    and entries_put: "ok s \<Longrightarrow> entries (put k v s) = spec_put (capacity s) k v (entries s)"
    and entries_get: "ok s \<Longrightarrow> entries (snd (get k s)) = spec_get k (entries s)"
    and result_get: "ok s \<Longrightarrow> fst (get k s) = map_of (entries s) k"
    and capacity_put: "capacity (put k v s) = capacity s"
    and capacity_get: "capacity (snd (get k s)) = capacity s"
begin

lemma ok_run: "ok s \<Longrightarrow> ok (run_ops put get ps s)"
  by (induction ps arbitrary: s rule: put_keys.induct) (simp_all add: ok_put ok_get)

lemma recent_run:
  "ok s \<Longrightarrow> recent k v K (entries s) \<Longrightarrow> op_key ` set ps \<subseteq> K - {k} \<Longrightarrow> finite K \<Longrightarrow>
   card K < capacity s \<Longrightarrow> recent k v K (entries (run_ops put get ps s))"
proof (induction ps arbitrary: s)
  case Nil
  then show ?case by simp
next
  case (Cons p ps)
  show ?case
  proof (cases p)
    case (Put k' w)
    with Cons.prems have "recent k v K (entries (put k' w s))"
      by (simp add: entries_put recent_spec_put ok_distinct)
    with Put Cons show ?thesis by (simp add: ok_put capacity_put)
  next
    case (Get k')
    with Cons.prems have "recent k v K (entries (snd (get k' s)))"
      by (simp add: entries_get recent_spec_get)
    with Get Cons show ?thesis by (simp add: ok_get capacity_get)
  qed
qed

lemma stale_run:
  "ok s \<Longrightarrow> stale k D (entries s) \<Longrightarrow> k \<notin> op_key ` set ps \<Longrightarrow>
   stale k (D \<union> put_keys ps) (entries (run_ops put get ps s))"
proof (induction ps arbitrary: s D rule: put_keys.induct)
  case 1
  then show ?case by simp
next
  case (2 k' w ps)
  then have "stale k (insert k' D) (entries (put k' w s))"
    by (simp add: entries_put stale_spec_put)
  then have "stale k (insert k' D \<union> put_keys ps) (entries (run_ops put get ps (put k' w s)))"
    using 2 by (intro "2.IH") (simp_all add: ok_put)
  then show ?case by simp
next
  case (3 k' ps)
  then have "stale k D (entries (snd (get k' s)))"
    by (simp add: entries_get stale_spec_get)
  then have "stale k (D \<union> put_keys ps) (entries (run_ops put get ps (snd (get k' s))))"
    using 3 by (intro "3.IH") (simp_all add: ok_get)
  then show ?case by simp
qed

lemma finite_put_keys: "finite (put_keys ps)"
  by (induction ps rule: put_keys.induct) simp_all

lemma capacity_run: "capacity (run_ops put get ps s) = capacity s"
  by (induction ps arbitrary: s rule: put_keys.induct) (simp_all add: capacity_put capacity_get)

lemma retained:
  assumes "ok s" "0 < capacity s" "k \<notin> op_key ` set ps" "card (op_key ` set ps) < capacity s"
  shows "fst (get k (run_ops put get ps (put k v s))) = Some v"
proof -
  let ?K = "op_key ` set ps"
  have front: "\<exists>es. entries (put k v s) = (k, v) # es"
    using assms(1,2) by (auto simp: entries_put spec_put_def use_entry_def Let_def)
  have "recent k v ?K (entries (put k v s))"
    using front by (auto simp: recent_def intro: exI [of _ "[]"])
  then have "recent k v ?K (entries (run_ops put get ps (put k v s)))"
    using assms by (intro recent_run) (auto simp: ok_put capacity_put)
  then show ?thesis
    using assms(1) by (simp add: result_get ok_run ok_put recent_lookup ok_distinct)
qed

lemma forgotten:
  assumes "ok s" "k \<notin> op_key ` set ps" "capacity s \<le> card (put_keys ps)"
  shows "fst (get k (run_ops put get ps (put k v s))) = None"
proof -
  let ?t = "run_ops put get ps (put k v s)"
  have ok: "ok ?t" using assms(1) by (simp add: ok_run ok_put)
  have "stale k ({} \<union> put_keys ps) (entries ?t)"
    using assms by (intro stale_run) (auto simp: ok_put stale_def)
  moreover have "length (entries ?t) \<le> card (put_keys ps)"
    using ok_bound [OF ok] assms(3) by (simp add: capacity_run capacity_put)
  ultimately show ?thesis
    using ok by (simp add: result_get stale_lookup finite_put_keys)
qed

end


section \<open>The implementation meets the contract\<close>

definition lru_entries :: "lru \<Rightarrow> (int \<times> int) list" where
  "lru_entries c = map snd (lru_cache c)"

definition lru_capacity :: "lru \<Rightarrow> nat" where
  "lru_capacity c = cap_size (lru_cap c)"

definition index_of :: "node list \<Rightarrow> int \<rightharpoonup> nat" where
  "index_of xs = map_of (map (\<lambda>n. (node_key n, fst n)) xs)"

text \<open>
  Iterators and keys are unique, the map has exactly one entry per node and it leads to the node
  of its key, and no node has a number still to be given out.
\<close>

definition lru_ok :: "lru \<Rightarrow> bool" where
  "lru_ok c \<longleftrightarrow>
     distinct (map fst (lru_cache c)) \<and> distinct (map node_key (lru_cache c))
     \<and> distinct (map fst (lru_map c)) \<and> map_of (lru_map c) = index_of (lru_cache c)
     \<and> (\<forall>n \<in> set (lru_cache c). fst n < lru_next c)
     \<and> length (lru_cache c) \<le> lru_capacity c"

lemma node_key_simp [simp]: "node_key (it, k, v) = k" "node_val (it, k, v) = v"
  by (simp_all add: node_key_def node_val_def)

lemma dom_index_of: "dom (index_of xs) = node_key ` set xs"
  unfolding index_of_def dom_map_of_conv_image_fst by force

lemma map_size:
  assumes "distinct (map fst m)" "map_of m = index_of xs" "distinct (map node_key xs)"
  shows "length m = length xs"
proof -
  have "fst ` set m = node_key ` set xs"
    using assms(2) dom_index_of [of xs] by (metis dom_map_of_conv_image_fst)
  then show ?thesis
    using assms(1,3) by (metis distinct_card length_map set_map)
qed

lemma index_of_Some:
  "distinct (map fst xs) \<Longrightarrow> distinct (map node_key xs) \<Longrightarrow>
   index_of xs k = Some it \<Longrightarrow> \<exists>v. (it, k, v) \<in> set xs"
  unfolding index_of_def by (fastforce simp: node_key_def dest: map_of_SomeD)

lemma index_of_member:
  "distinct (map node_key xs) \<Longrightarrow> (it, k, v) \<in> set xs \<Longrightarrow> index_of xs k = Some it"
  by (induction xs) (force simp: index_of_def node_key_def)+

text \<open>Erasing the node of a key is dropping the entries of that key.\<close>

lemma erase_by_key:
  assumes "distinct (map fst xs)" "distinct (map node_key xs)" "index_of xs k = Some it"
  shows "erase_node it xs = filter (\<lambda>n. node_key n \<noteq> k) xs"
proof -
  from index_of_Some [OF assms] obtain v where v: "(it, k, v) \<in> set xs" by blast
  have "fst n = it \<longleftrightarrow> node_key n = k" if "n \<in> set xs" for n
    using that v assms(1,2) unfolding distinct_map inj_on_def node_key_def
    by (metis fst_conv snd_conv)
  then show ?thesis
    unfolding erase_node_def by (intro filter_cong) auto
qed

lemma index_of_Cons: "index_of ((it, k, v) # xs) = (index_of xs)(k \<mapsto> it)"
  by (simp add: index_of_def node_key_def)

lemma index_of_filter: "index_of (filter (\<lambda>n. node_key n \<noteq> k) xs) = (index_of xs)(k := None)"
  by (induction xs) (auto simp: index_of_def fun_eq_iff)

definition put_cache :: "int \<Rightarrow> int \<Rightarrow> lru \<Rightarrow> lru" where
  "put_cache key v c =
     c\<lparr>lru_cache := (lru_next c, key, v) # filter (\<lambda>n. node_key n \<noteq> key) (lru_cache c),
       lru_map := AList.update key (lru_next c) (lru_map c), lru_next := lru_next c + 1\<rparr>"

lemma no_entry_filter: "index_of xs k = None \<Longrightarrow> filter (\<lambda>n. node_key n \<noteq> k) xs = xs"
  by (induction xs) (auto simp: index_of_def split: if_splits)

lemma lru_put_eq: "lru_ok c \<Longrightarrow> lru_put key v c = evict (put_cache key v c)"
  unfolding lru_put_def put_cache_def lru_ok_def
  by (auto simp: Let_def erase_by_key no_entry_filter split: option.splits)

lemma distinct_map_filter_key: "distinct (map f xs) \<Longrightarrow> distinct (map f (filter P xs))"
  by (simp add: distinct_map_filter)

text \<open>All of the invariant but the length bound, which \<open>evict\<close> restores.\<close>

definition lru_shape :: "lru \<Rightarrow> bool" where
  "lru_shape c \<longleftrightarrow>
     distinct (map fst (lru_cache c)) \<and> distinct (map node_key (lru_cache c))
     \<and> distinct (map fst (lru_map c)) \<and> map_of (lru_map c) = index_of (lru_cache c)
     \<and> (\<forall>n \<in> set (lru_cache c). fst n < lru_next c)"

lemma lru_ok_shape: "lru_ok c \<longleftrightarrow> lru_shape c \<and> length (lru_cache c) \<le> lru_capacity c"
  by (auto simp: lru_ok_def lru_shape_def)

lemma put_cache_shape: "lru_shape c \<Longrightarrow> lru_shape (put_cache key v c)"
  unfolding lru_shape_def put_cache_def
  by (auto simp: distinct_map_filter_key index_of_Cons index_of_filter distinct_update update_conv'
      less_Suc_eq fun_eq_iff)


lemma filter_last_key:
  "distinct (map node_key (xs @ [n])) \<Longrightarrow> filter (\<lambda>m. node_key m \<noteq> node_key n) (xs @ [n]) = xs"
  by (simp add: filter_id_conv) (metis image_eqI)

lemma shape_size: "lru_shape c \<Longrightarrow> length (lru_map c) = length (lru_cache c)"
  by (auto simp: lru_shape_def intro: map_size)

lemma evict_shape:
  assumes "lru_shape c" "lru_cache c \<noteq> []"
  shows "lru_shape (evict c)"
proof -
  obtain xs n where xs: "lru_cache c = xs @ [n]" using assms(2) by (metis rev_exhaust)
  have "index_of xs = (index_of (xs @ [n]))(node_key n := None)"
    using assms(1) filter_last_key [of xs n] index_of_filter [of "node_key n" "xs @ [n]"]
    by (simp add: lru_shape_def xs)
  then show ?thesis
    using assms(1) by (auto simp: evict_def lru_shape_def xs delete_conv' distinct_delete)
qed

lemma evict_entries:
  "lru_shape c \<Longrightarrow> lru_entries (evict c) =
     (if length (lru_entries c) > lru_capacity c then butlast (lru_entries c) else lru_entries c)"
  by (simp add: evict_def lru_entries_def lru_capacity_def shape_size map_butlast)

lemma evict_capacity [simp]: "lru_capacity (evict c) = lru_capacity c"
  by (simp add: evict_def lru_capacity_def)

lemma put_entries: "lru_entries (put_cache k v c) = use_entry k v (lru_entries c)"
  by (simp add: lru_entries_def put_cache_def use_entry_def filter_map comp_def node_key_def)

lemma put_capacity [simp]: "lru_capacity (put_cache k v c) = lru_capacity c"
  by (simp add: put_cache_def lru_capacity_def)

lemma length_use_entry: "length (use_entry k v es) \<le> Suc (length es)"
  by (simp add: use_entry_def)

lemma lru_put_entries:
  "lru_ok c \<Longrightarrow> lru_entries (lru_put k v c) = spec_put (lru_capacity c) k v (lru_entries c)"
  by (simp add: lru_put_eq lru_ok_shape put_cache_shape evict_entries put_entries spec_put_def Let_def)

lemma lru_put_ok:
  assumes "lru_ok c"
  shows "lru_ok (lru_put k v c)"
proof -
  have "lru_shape (evict (put_cache k v c))"
    using assms by (intro evict_shape put_cache_shape) (auto simp: lru_ok_shape put_cache_def)
  moreover have "length (lru_entries (evict (put_cache k v c))) \<le> lru_capacity c"
    using assms length_use_entry [of k v "lru_entries c"]
    by (auto simp: lru_ok_shape put_cache_shape evict_entries put_entries)
      (simp add: lru_entries_def)
  ultimately show ?thesis
    using assms by (simp add: lru_ok_shape lru_put_eq lru_entries_def)
qed

lemma find_node:
  "distinct (map fst xs) \<Longrightarrow> n \<in> set xs \<Longrightarrow> List.find (\<lambda>m. fst m = fst n) xs = Some n"
  by (induction xs) (auto simp: rev_image_eqI)

lemma keys_of_entries: "map fst (lru_entries c) = map node_key (lru_cache c)"
  by (simp add: lru_entries_def node_key_def)

lemma lru_get_hit:
  assumes "lru_ok c" "map_of (lru_map c) k = Some it"
  obtains v where "(it, k, v) \<in> set (lru_cache c)" "map_of (lru_entries c) k = Some v"
    "lru_get k c = (Some v, c\<lparr>lru_cache := (it, k, v) # filter (\<lambda>n. node_key n \<noteq> k) (lru_cache c)\<rparr>)"
proof -
  let ?xs = "lru_cache c"
  have d: "distinct (map fst ?xs)" "distinct (map node_key ?xs)" "index_of ?xs k = Some it"
    using assms by (auto simp: lru_ok_def)
  then obtain v where v: "(it, k, v) \<in> set ?xs" using index_of_Some by blast
  have "map node_key ?xs = map fst (lru_entries c)" "(k, v) \<in> set (lru_entries c)"
    using v by (force simp: lru_entries_def node_key_def)+
  then have "map_of (lru_entries c) k = Some v"
    using d(2) by simp
  moreover have "List.find (\<lambda>n. fst n = it) ?xs = Some (it, k, v)"
    using find_node [OF d(1) v] by simp
  ultimately show ?thesis
    using that v assms(2) erase_by_key [OF d] by (simp add: lru_get_def)
qed

lemma lru_get_miss:
  assumes "lru_ok c" "map_of (lru_map c) k = None"
  shows "lru_get k c = (None, c)" "map_of (lru_entries c) k = None"
proof -
  show "lru_get k c = (None, c)" using assms(2) by (simp add: lru_get_def)
  have "k \<notin> node_key ` set (lru_cache c)"
    using assms dom_index_of [of "lru_cache c"] by (auto simp: lru_ok_def domIff)
  then show "map_of (lru_entries c) k = None"
    by (force simp: lru_entries_def map_of_eq_None_iff node_key_def)
qed

lemma shape_move:
  assumes "lru_shape c" "(it, k, v) \<in> set (lru_cache c)"
  shows "lru_shape (c\<lparr>lru_cache := (it, k, v) # filter (\<lambda>n. node_key n \<noteq> k) (lru_cache c)\<rparr>)"
proof -
  let ?xs = "lru_cache c"
  have i: "index_of ?xs k = Some it"
    using assms by (auto simp: lru_shape_def intro: index_of_member)
  have "index_of ((it, k, v) # filter (\<lambda>n. node_key n \<noteq> k) ?xs) = index_of ?xs"
    using i by (simp add: index_of_Cons index_of_filter fun_upd_idem)
  moreover have "it \<notin> fst ` set (filter (\<lambda>n. node_key n \<noteq> k) ?xs)"
    using assms by (auto simp: lru_shape_def distinct_map inj_on_def) (metis fst_conv node_key_simp(1))
  ultimately show ?thesis
    using assms by (auto simp: lru_shape_def distinct_map_filter_key)
qed

lemma length_filter_removed: "x \<in> set xs \<Longrightarrow> \<not> P x \<Longrightarrow> length (filter P xs) < length xs"
  by (metis length_filter_less)

lemma lru_get_facts:
  assumes "lru_ok c"
  shows "lru_ok (snd (lru_get k c)) \<and> lru_entries (snd (lru_get k c)) = spec_get k (lru_entries c)
    \<and> fst (lru_get k c) = map_of (lru_entries c) k \<and> lru_capacity (snd (lru_get k c)) = lru_capacity c"
proof (cases "map_of (lru_map c) k")
  case None
  with assms show ?thesis by (simp add: lru_get_miss spec_get_def)
next
  case (Some it)
  from assms Some obtain v where v: "(it, k, v) \<in> set (lru_cache c)"
    "map_of (lru_entries c) k = Some v"
    "lru_get k c = (Some v, c\<lparr>lru_cache := (it, k, v) # filter (\<lambda>n. node_key n \<noteq> k) (lru_cache c)\<rparr>)"
    by (rule lru_get_hit)
  have "length (filter (\<lambda>n. node_key n \<noteq> k) (lru_cache c)) < length (lru_cache c)"
    using v(1) by (intro length_filter_removed) auto
  moreover have "lru_entries (snd (lru_get k c)) = use_entry k v (lru_entries c)"
    using v(3) by (simp add: lru_entries_def use_entry_def filter_map comp_def node_key_def)
  ultimately show ?thesis
    using assms v shape_move [OF _ v(1)]
    by (auto simp: lru_ok_shape spec_get_def lru_capacity_def)
qed

lemma new_lru_ok: "lru_ok (new_lru n)"
  by (simp add: lru_ok_def new_lru_def index_of_def)

interpretation lru_impl: recency_cache lru_ok lru_entries lru_capacity lru_put lru_get
proof unfold_locales
  show "distinct (map fst (lru_entries c))" if "lru_ok c" for c
    using that by (simp add: lru_ok_def keys_of_entries)
  show "length (lru_entries c) \<le> lru_capacity c" if "lru_ok c" for c
    using that by (simp add: lru_ok_def lru_entries_def)
  show "lru_capacity (lru_put k v c) = lru_capacity c" for k v c
    by (simp add: lru_put_def Let_def lru_capacity_def evict_def)
  show "lru_capacity (snd (lru_get k c)) = lru_capacity c" for k c
    by (simp add: lru_get_def lru_capacity_def split: option.splits)
qed (simp_all add: lru_put_ok lru_put_entries lru_get_facts)

section \<open>Properties\<close>

lemma cap_size_pos: "0 \<le> n \<Longrightarrow> n < 2 ^ 31 \<Longrightarrow> cap_size n = nat n"
  by (simp add: cap_size_def)

lemma lru_run_ok: "lru_ok (run_ops lru_put lru_get ps (new_lru n))"
  by (simp add: lru_impl.ok_run new_lru_ok)

lemma lru_run_capacity:
  "lru_capacity (run_ops lru_put lru_get ps (new_lru n)) = cap_size n"
  unfolding lru_impl.capacity_run by (simp add: lru_capacity_def new_lru_def)

text \<open>
  C8. On every history of operations since construction, the list-and-hash-map cache is in
  lockstep with the specification: \<open>get\<close> returns exactly what the recency list holds for the
  key and moves it to the front, \<open>put\<close> inserts at the front and drops only the last entry when
  the capacity is exceeded. The size never exceeds the capacity.
\<close>

theorem lru_refines_recency_list:
  fixes ps n
  defines "c \<equiv> run_ops lru_put lru_get ps (new_lru n)"
  shows "lru_entries (lru_put k v c) = spec_put (cap_size n) k v (lru_entries c)
    \<and> fst (lru_get k c) = map_of (lru_entries c) k
    \<and> lru_entries (snd (lru_get k c)) = spec_get k (lru_entries c)
    \<and> distinct (map fst (lru_entries c)) \<and> length (lru_entries c) \<le> cap_size n"
proof -
  have "lru_ok c" and "lru_capacity c = cap_size n"
    unfolding c_def by (rule lru_run_ok, rule lru_run_capacity)
  then show ?thesis
    using lru_impl.ok_distinct [of c] lru_impl.ok_bound [of c]
    by (simp add: lru_put_entries lru_get_facts)
qed

text \<open>
  C9. The recency guarantee. After a \<open>put\<close> of \<open>k\<close>, and whatever happened before it, any
  operations on other keys leave the value in place as long as they touch fewer distinct keys
  than the capacity; and once at least as many distinct other keys were put as the capacity,
  the value is gone.
\<close>

theorem lru_keeps_recent_keys:
  assumes "0 < n" "n < 2 ^ 31" "k \<notin> op_key ` set ps"
  shows "(card (op_key ` set ps) < nat n \<longrightarrow>
       fst (lru_get k (run_ops lru_put lru_get ps
         (lru_put k v (run_ops lru_put lru_get before (new_lru n))))) = Some v)
    \<and> (nat n \<le> card (put_keys ps) \<longrightarrow>
       fst (lru_get k (run_ops lru_put lru_get ps
         (lru_put k v (run_ops lru_put lru_get before (new_lru n))))) = None)"
proof -
  let ?c = "run_ops lru_put lru_get before (new_lru n)"
  have ok: "lru_ok ?c" by (rule lru_run_ok)
  have cap: "lru_capacity ?c = nat n"
    unfolding lru_run_capacity using assms(1,2) by (simp add: cap_size_pos)
  show ?thesis
    using lru_impl.retained [OF ok, of k ps v] lru_impl.forgotten [OF ok, of k ps v] assms cap
    by simp
qed

text \<open>
  The witness is the history of \<open>test()\<close> in the source: capacity 2, after \<open>put(1)\<close>,
  \<open>put(2)\<close>, \<open>get(1)\<close> the key 1 survives \<open>put(3)\<close>, and 2 does not survive \<open>get(1), put(3)\<close>
  and \<open>put(4)\<close>.
\<close>

theorem lru_keeps_recent_keys_witness:
  "fst (lru_get 1 (run_ops lru_put lru_get [Put 2 2] (lru_put 1 1 (new_lru 2)))) = Some 1
   \<and> fst (lru_get 2 (run_ops lru_put lru_get [Put 3 3, Put 4 4] (lru_put 2 2 (new_lru 2)))) = None"
  using lru_keeps_recent_keys [of 2 1 "[Put 2 2]" 1 "[]"]
    lru_keeps_recent_keys [of 2 2 "[Put 3 3, Put 4 4]" 2 "[]"]
  by simp

text \<open>
  A negative capacity is converted to a huge unsigned number in \<open>map.size() > cap\<close>: such a
  cache evicts nothing while it holds fewer than \<open>2 ^ 63\<close> entries, where capacity 0 keeps
  nothing at all.
\<close>

theorem lru_negative_capacity_unbounded:
  assumes "- (2 ^ 31) \<le> n" "n < 0"
    and "length (lru_entries (run_ops lru_put lru_get ps (new_lru n))) < 2 ^ 63 - 1"
  shows "lru_entries (lru_put k v (run_ops lru_put lru_get ps (new_lru n)))
       = use_entry k v (lru_entries (run_ops lru_put lru_get ps (new_lru n)))
    \<and> lru_entries (lru_put k v (run_ops lru_put lru_get ps (new_lru 0))) = []"
proof -
  let ?c = "\<lambda>n. run_ops lru_put lru_get ps (new_lru n)"
  have big: "2 ^ 63 \<le> cap_size n"
    using assms(1,2) mod_add_self2 [of n "2 ^ 64"] by (simp add: cap_size_def del: mod_add_self2)
  have put: "lru_entries (lru_put k v (?c m)) = spec_put (cap_size m) k v (lru_entries (?c m))" for m
    using lru_put_entries [OF lru_run_ok] by (simp only: lru_run_capacity)
  have "lru_entries (?c 0) = []"
    using lru_impl.ok_bound [OF lru_run_ok, of ps 0] by (simp add: lru_run_capacity cap_size_def)
  moreover have "\<not> cap_size n < length (use_entry k v (lru_entries (?c n)))"
    using length_use_entry [of k v "lru_entries (?c n)"] assms(3) big by linarith
  ultimately show ?thesis
    unfolding put by (simp add: spec_put_def Let_def use_entry_def cap_size_def)
qed

theorem lru_negative_capacity_unbounded_witness:
  "lru_entries (lru_put 2 20 (run_ops lru_put lru_get [Put 1 10] (new_lru (- 1)))) = [(2, 20), (1, 10)]"
  using lru_negative_capacity_unbounded [of "- 1" "[Put 1 10]" 2 20]
  by (simp add: new_lru_def lru_put_def evict_def cap_size_def lru_entries_def use_entry_def node_key_def)

end
