(* ===== verification/Invert_Table.thy ===== *)
theory Invert_Table
  imports Prelude
begin

text \<open>
  \<^verbatim>\<open>src/invert/invert.hpp\<close> and \<^verbatim>\<open>src/invert/invertCreator.cpp\<close>: an inverted index from keys
  to weighted postings, kept in memory or in a file, and the creator that collects the triples
  it is built from.

  The hash map is an association list. Files hold 32-bit words, as the structures are written
  out raw; \<open>writable\<close> says which paths \<open>fopen\<close> opens for writing, and the order in which the hash
  map is iterated is the parameter \<open>iter\<close>. Table sizes are below \<open>2 ^ 31\<close>.
\<close>

section \<open>Records\<close>

datatype PidKidInfo = PidKidInfo (nPid: int) (nKid: int) (nWeight: int)

datatype InvertNode = InvertNode (inID: int) (inWeight: int)

definition copy_info :: "PidKidInfo \<Rightarrow> InvertNode" where
  "copy_info other = InvertNode (nKid other) (nWeight other)"

record IndexNode =
  nID :: int
  nOffset :: int
  nCount :: int

text \<open>\<open>CmpPidKidInfoByPidWeight\<close> orders by key, then by falling weight, then by id.\<close>

definition CmpPidKidInfoByPidWeight :: "PidKidInfo \<Rightarrow> PidKidInfo \<Rightarrow> bool" where
  "CmpPidKidInfoByPidWeight l r =
     (if nPid l \<noteq> nPid r then nPid l < nPid r
      else if nWeight l \<noteq> nWeight r then nWeight l > nWeight r
      else nKid l < nKid r)"

text \<open>The comparison is a strict total order, so \<open>std::sort\<close> has one possible result, \<open>sort\<close>.\<close>

instantiation PidKidInfo :: linorder
begin

definition less_PidKidInfo :: "PidKidInfo \<Rightarrow> PidKidInfo \<Rightarrow> bool" where
  "less_PidKidInfo l r = CmpPidKidInfoByPidWeight l r"

definition less_eq_PidKidInfo :: "PidKidInfo \<Rightarrow> PidKidInfo \<Rightarrow> bool" where
  "less_eq_PidKidInfo l r \<longleftrightarrow> l = r \<or> CmpPidKidInfoByPidWeight l r"

instance
proof
  fix x y z :: PidKidInfo
  show "(x < y) = (x \<le> y \<and> \<not> y \<le> x)"
    by (cases x; cases y)
      (auto simp: less_PidKidInfo_def less_eq_PidKidInfo_def CmpPidKidInfoByPidWeight_def split: if_splits)
  show "x \<le> x" by (simp add: less_eq_PidKidInfo_def)
  show "x \<le> y \<Longrightarrow> y \<le> z \<Longrightarrow> x \<le> z"
    by (cases x; cases y; cases z)
      (auto simp: less_eq_PidKidInfo_def CmpPidKidInfoByPidWeight_def split: if_splits)
  show "x \<le> y \<Longrightarrow> y \<le> x \<Longrightarrow> x = y"
    by (cases x; cases y)
      (auto simp: less_eq_PidKidInfo_def CmpPidKidInfoByPidWeight_def split: if_splits)
  show "x \<le> y \<or> y \<le> x"
    by (cases x; cases y)
      (auto simp: less_eq_PidKidInfo_def CmpPidKidInfoByPidWeight_def split: if_splits)
qed

end

section \<open>The table\<close>

type_synonym files = "string \<rightharpoonup> int list"

datatype table_fault = Null_file | Out_of_bounds

record InvertTable =
  mIndexMap :: "(int \<times> IndexNode) list"
  mInvertVec :: "InvertNode list"
  mUseCached :: bool
  mFp :: "int list option"
  mIndexFileName :: string
  mInvertFileName :: string

definition new_table :: "bool \<Rightarrow> InvertTable" where
  "new_table useCache =
     \<lparr>mIndexMap = [], mInvertVec = [], mUseCached = useCache, mFp = None,
      mIndexFileName = [], mInvertFileName = []\<rparr>"

text \<open>\<open>clear\<close> as written: the index map twice, the postings never.\<close>

definition clear :: "InvertTable \<Rightarrow> InvertTable" where
  "clear t = t\<lparr>mIndexMap := [], mIndexMap := [], mFp := None\<rparr>"

text \<open>The loop of \<open>createInvertTable\<close> from position \<open>i\<close> on, with the open index node.\<close>

definition open_node :: "PidKidInfo \<Rightarrow> nat \<Rightarrow> IndexNode" where
  "open_node info i = \<lparr>nID = nPid info, nOffset = int i, nCount = 0\<rparr>"

fun create_loop ::
  "nat \<Rightarrow> PidKidInfo list \<Rightarrow> IndexNode \<Rightarrow> (int \<times> IndexNode) list \<Rightarrow> InvertNode list
   \<Rightarrow> IndexNode \<times> (int \<times> IndexNode) list \<times> InvertNode list" where
  "create_loop i [] indexNode m v = (indexNode, m, v)"
| "create_loop i (info # infoVec) indexNode m v =
     (let indexNode = (if i = 0 then open_node info i else indexNode);
          (indexNode, m) =
            (if nID indexNode \<noteq> nPid info
             then (open_node info i, AList.update (nID indexNode) indexNode m)
             else (indexNode, m));
          indexNode = indexNode\<lparr>nCount := nCount indexNode + 1\<rparr>
      in create_loop (i + 1) infoVec indexNode m (v @ [copy_info info]))"

text \<open>The sorted vector replaces the caller's; \<open>junk\<close> is the uninitialised index node.\<close>

definition createInvertTable ::
  "IndexNode \<Rightarrow> PidKidInfo list \<Rightarrow> InvertTable \<Rightarrow> PidKidInfo list \<times> InvertTable" where
  "createInvertTable junk infoVec t =
     (if infoVec = [] then (infoVec, t)
      else
        (let infoVec = sort infoVec;
             (indexNode, m, v) = create_loop 0 infoVec junk (mIndexMap t) (mInvertVec t)
         in (infoVec, t\<lparr>mIndexMap := AList.update (nID indexNode) indexNode m, mInvertVec := v\<rparr>)))"

fun index_words :: "IndexNode list \<Rightarrow> int list" where
  "index_words [] = []"
| "index_words (n # ns) = nID n # nOffset n # nCount n # index_words ns"

fun invert_words :: "InvertNode list \<Rightarrow> int list" where
  "invert_words [] = []"
| "invert_words (n # ns) = inID n # inWeight n # invert_words ns"

text \<open>The records in a file: whole structures only, as \<open>st_size / sizeof\<close> counts them.\<close>

fun index_nodes :: "int list \<Rightarrow> IndexNode list" where
  "index_nodes (a # b # c # ws) = \<lparr>nID = a, nOffset = b, nCount = c\<rparr> # index_nodes ws"
| "index_nodes ws = []"

fun invert_nodes :: "int list \<Rightarrow> InvertNode list" where
  "invert_nodes (a # b # ws) = InvertNode a b # invert_nodes ws"
| "invert_nodes ws = []"

definition write_file :: "(string \<Rightarrow> bool) \<Rightarrow> string \<Rightarrow> int list \<Rightarrow> files \<Rightarrow> table_fault + files" where
  "write_file writable name ws fs = (if writable name then Inr (fs(name \<mapsto> ws)) else Inl Null_file)"

definition writeIndex ::
  "((int \<times> IndexNode) list \<Rightarrow> (int \<times> IndexNode) list) \<Rightarrow> (string \<Rightarrow> bool) \<Rightarrow> InvertTable \<Rightarrow> files
   \<Rightarrow> table_fault + files" where
  "writeIndex iter writable t fs =
     write_file writable (mIndexFileName t) (index_words (map snd (iter (mIndexMap t)))) fs"

definition writeInvert :: "(string \<Rightarrow> bool) \<Rightarrow> InvertTable \<Rightarrow> files \<Rightarrow> table_fault + files" where
  "writeInvert writable t fs = write_file writable (mInvertFileName t) (invert_words (mInvertVec t)) fs"

definition create ::
  "((int \<times> IndexNode) list \<Rightarrow> (int \<times> IndexNode) list) \<Rightarrow> (string \<Rightarrow> bool) \<Rightarrow> IndexNode
   \<Rightarrow> PidKidInfo list \<Rightarrow> string \<Rightarrow> bool \<Rightarrow> InvertTable \<Rightarrow> files
   \<Rightarrow> table_fault + (PidKidInfo list \<times> InvertTable \<times> files)" where
  "create iter writable junk vec dir isPersistent t fs =
     (let t = t\<lparr>mIndexFileName := dir @ ''/Index.dict'', mInvertFileName := dir @ ''/Invert.dict''\<rparr>;
          t = clear t;
          (vec, t) = createInvertTable junk vec t
      in case (if isPersistent
               then (case writeIndex iter writable t fs of
                       Inl f \<Rightarrow> Inl f
                     | Inr fs \<Rightarrow> writeInvert writable t fs)
               else if \<not> mUseCached t then writeInvert writable t fs
               else Inr fs) of
           Inl f \<Rightarrow> Inl f
         | Inr fs \<Rightarrow>
             Inr (vec,
               if mUseCached t then t
               else t\<lparr>mInvertVec := [], mFp := fs (mInvertFileName t)\<rparr>,
               fs))"

definition readIndex :: "files \<Rightarrow> InvertTable \<Rightarrow> InvertTable" where
  "readIndex fs t =
     (case fs (mIndexFileName t) of
        None \<Rightarrow> t
      | Some ws \<Rightarrow>
          if ws = [] then t
          else t\<lparr>mIndexMap := foldl (\<lambda>m p. if nCount p \<noteq> 0 then AList.update (nID p) p m else m)
                               (mIndexMap t) (index_nodes ws)\<rparr>)"

text \<open>An empty file cannot be mapped, so the result is \<open>false\<close> there.\<close>

definition readInvert :: "files \<Rightarrow> InvertTable \<Rightarrow> bool \<times> InvertTable" where
  "readInvert fs t =
     (case fs (mInvertFileName t) of
        None \<Rightarrow> (False, t)
      | Some ws \<Rightarrow>
          if ws = [] then (False, t)
          else (True, t\<lparr>mInvertVec := invert_nodes ws @ mInvertVec t\<rparr>))"

definition load :: "string \<Rightarrow> string \<Rightarrow> files \<Rightarrow> InvertTable \<Rightarrow> bool \<times> InvertTable" where
  "load indexFile invertFile fs t =
     (let t = t\<lparr>mIndexFileName := indexFile, mInvertFileName := invertFile\<rparr> in
      if fs indexFile = None \<or> fs invertFile = None then (False, t)
      else
        (let t = readIndex fs t in
         if mUseCached t then readInvert fs t
         else (True, t\<lparr>mFp := fs invertFile\<rparr>)))"

text \<open>\<open>readInvert(offset, cnt, start)\<close>: \<open>None\<close> is \<open>false\<close>.\<close>

definition readInvert_at :: "int \<Rightarrow> int \<Rightarrow> InvertTable \<Rightarrow> table_fault + InvertNode list option" where
  "readInvert_at offset cnt t =
     (case mFp t of
        None \<Rightarrow> Inl Null_file
      | Some ws \<Rightarrow>
          if offset < 0 then Inr None
          else
            (let read = take (nat cnt) (invert_nodes (drop (2 * nat offset) ws))
             in if int (length read) \<noteq> cnt then Inr None else Inr (Some read)))"

text \<open>
  The pointer version delivers where the postings start, here everything from there on, and
  their number; the vector version copies that many.
\<close>

definition getInvertInfo_ptr :: "int \<Rightarrow> InvertTable \<Rightarrow> table_fault + (InvertNode list \<times> int) option" where
  "getInvertInfo_ptr index t =
     (case map_of (mIndexMap t) index of
        None \<Rightarrow> Inr None
      | Some node \<Rightarrow>
          (let cnt = nCount node; offset = nOffset node in
           if \<not> mUseCached t
           then map_sum id (map_option (\<lambda>ns. (ns, cnt))) (readInvert_at offset cnt t)
           else if offset \<ge> int (length (mInvertVec t)) then Inr None
           else Inr (Some (drop (nat offset) (mInvertVec t), cnt))))"

definition getInvertInfo :: "int \<Rightarrow> InvertTable \<Rightarrow> table_fault + InvertNode list option" where
  "getInvertInfo index t =
     (case getInvertInfo_ptr index t of
        Inl f \<Rightarrow> Inl f
      | Inr None \<Rightarrow> Inr None
      | Inr (Some (start, cnt)) \<Rightarrow>
          if int (length start) < cnt then Inl Out_of_bounds
          else Inr (Some (take (nat cnt) start)))"

section \<open>The creator\<close>

record InvertCreator =
  mIsPersistent :: bool
  mPath :: string
  mTripleVec :: "PidKidInfo list"
  mFilterSet :: "(int \<times> int) set"

definition new_creator :: "string \<Rightarrow> bool \<Rightarrow> InvertCreator" where
  "new_creator dirStr isPersistent =
     \<lparr>mIsPersistent = isPersistent, mPath = dirStr, mTripleVec = [], mFilterSet = {}\<rparr>"

definition addTriple :: "int \<Rightarrow> int \<Rightarrow> int \<Rightarrow> InvertCreator \<Rightarrow> InvertCreator" where
  "addTriple indexID invertID weight c =
     (let key = (indexID, invertID) in
      if key \<notin> mFilterSet c
      then c\<lparr>mFilterSet := insert key (mFilterSet c),
             mTripleVec := mTripleVec c @ [PidKidInfo indexID invertID weight]\<rparr>
      else c)"

definition creator_create ::
  "((int \<times> IndexNode) list \<Rightarrow> (int \<times> IndexNode) list) \<Rightarrow> (string \<Rightarrow> bool) \<Rightarrow> IndexNode
   \<Rightarrow> InvertCreator \<Rightarrow> InvertTable \<Rightarrow> files
   \<Rightarrow> table_fault + (InvertCreator \<times> InvertTable \<times> files)" where
  "creator_create iter writable junk c t fs =
     map_sum id (\<lambda>(vec, t, fs). (c\<lparr>mTripleVec := vec\<rparr>, t, fs))
       (create iter writable junk (mTripleVec c) (mPath c) (mIsPersistent c) t fs)"

section \<open>What createInvertTable builds\<close>

text \<open>
  The index entry a list of triples sorted by key deserves for \<open>k\<close>: the postings of \<open>k\<close> start
  behind those of all smaller keys.
\<close>

definition entry_for :: "PidKidInfo list \<Rightarrow> int \<Rightarrow> IndexNode option" where
  "entry_for ys k =
     (if k \<in> nPid ` set ys
      then Some \<lparr>nID = k, nOffset = int (length (filter (\<lambda>y. nPid y < k) ys)),
                 nCount = int (length (filter (\<lambda>y. nPid y = k) ys))\<rparr>
      else None)"

text \<open>The loop's state after the prefix \<open>ys\<close>: everything but the last key is in the map.\<close>

definition loop_state :: "PidKidInfo list \<Rightarrow> IndexNode \<Rightarrow> (int \<times> IndexNode) list \<Rightarrow> bool" where
  "loop_state ys node m \<longleftrightarrow>
     ys \<noteq> [] \<and> entry_for ys (nPid (last ys)) = Some node
     \<and> map_of m = (entry_for ys)(nPid (last ys) := None) \<and> distinct (map fst m)"

lemma entry_for_snoc_beyond:
  "\<forall>z \<in> set ys. nPid z < nPid y \<Longrightarrow>
   entry_for (ys @ [y]) (nPid y) = Some \<lparr>nID = nPid y, nOffset = int (length ys), nCount = 1\<rparr>"
  by (auto simp: entry_for_def filter_id_conv filter_empty_conv)

lemma entry_for_absent: "k \<notin> nPid ` set ys \<Longrightarrow> entry_for ys k = None"
  by (simp add: entry_for_def)

lemma entry_for_snoc:
  assumes "\<forall>z \<in> set ys. nPid z \<le> nPid y" "k \<noteq> nPid y"
  shows "entry_for (ys @ [y]) k = entry_for ys k"
  using assms by (force simp: entry_for_def)

lemma loop_state_step:
  assumes "loop_state ys node m" "\<forall>z \<in> set ys. nPid z \<le> nPid (last ys)" "nPid (last ys) \<le> nPid y"
  shows "loop_state (ys @ [y])
     ((if nID node \<noteq> nPid y then open_node y (length ys) else node)\<lparr>nCount :=
        nCount (if nID node \<noteq> nPid y then open_node y (length ys) else node) + 1\<rparr>)
     (if nID node \<noteq> nPid y then AList.update (nID node) node m else m)"
proof -
  let ?p = "nPid (last ys)"
  have node: "entry_for ys ?p = Some node" "nID node = ?p" and m: "map_of m = (entry_for ys)(?p := None)"
    using assms(1) by (auto simp: loop_state_def entry_for_def split: if_splits)
  have le: "\<forall>z \<in> set ys. nPid z \<le> nPid y" using assms(2,3) by fastforce
  note other = entry_for_snoc [OF le]
  show ?thesis
  proof (cases "nPid y = ?p")
    case True
    with node have "entry_for (ys @ [y]) ?p = Some (node\<lparr>nCount := nCount node + 1\<rparr>)"
      by (auto simp: entry_for_def split: if_splits)
    moreover have "map_of m = (entry_for (ys @ [y]))(?p := None)"
      using m other True by (auto simp: fun_eq_iff)
    ultimately show ?thesis using assms(1) True node(2) by (simp add: loop_state_def)
  next
    case False
    with assms(2,3) have "\<forall>z \<in> set ys. nPid z < nPid y" by fastforce
    moreover from this have "entry_for ys (nPid y) = None" by (force simp: entry_for_def)
    moreover have "map_of (AList.update ?p node m) = entry_for ys"
      using m node(1) by (auto simp: update_conv' fun_eq_iff)
    ultimately show ?thesis
      using assms(1) False node(2) other
      by (auto simp: loop_state_def entry_for_snoc_beyond open_node_def distinct_update fun_eq_iff)
  qed
qed

lemma entry_for_nID: "entry_for ys k = Some n \<Longrightarrow> nID n = k"
  by (auto simp: entry_for_def split: if_splits)

lemma loop_state_complete:
  "loop_state ys node m \<Longrightarrow> map_of (AList.update (nID node) node m) = entry_for ys"
  unfolding loop_state_def by (metis entry_for_nID fun_upd_triv fun_upd_upd update_conv')

lemma create_loop_state:
  "loop_state ys node m \<Longrightarrow> sorted (map nPid (ys @ xs)) \<Longrightarrow>
   (case create_loop (length ys) xs node m v of
      (node', m', v') \<Rightarrow> loop_state (ys @ xs) node' m' \<and> v' = v @ map copy_info xs)"
proof (induction xs arbitrary: ys node m v)
  case (Cons y xs)
  let ?node = "if nID node \<noteq> nPid y then open_node y (length ys) else node"
  let ?m = "if nID node \<noteq> nPid y then AList.update (nID node) node m else m"
  have ne: "ys \<noteq> []" using Cons.prems(1) by (simp add: loop_state_def)
  have last: "\<forall>z \<in> set ys. nPid z \<le> nPid (last ys)" "nPid (last ys) \<le> nPid y"
    using Cons.prems(2) ne by (auto simp: sorted_append sorted_le_last)
  have "loop_state (ys @ [y]) (?node\<lparr>nCount := nCount ?node + 1\<rparr>) ?m"
    using loop_state_step [OF Cons.prems(1) last] .
  from Cons.IH [OF this, of "v @ [copy_info y]"] Cons.prems(2) ne show ?case
    by (auto simp: Let_def split: if_splits)
qed simp

lemma le_nPid: "x \<le> y \<Longrightarrow> nPid x \<le> nPid y"
  by (auto simp: less_eq_PidKidInfo_def CmpPidKidInfoByPidWeight_def split: if_splits)

lemma sorted_nPid: "sorted (map nPid (sort infos))"
  by (rule sorted_map_mono [OF sorted_sort]) (auto simp: mono_on_def le_nPid)

lemma createInvertTable_eq:
  assumes "mIndexMap t = []"
  obtains m where "createInvertTable junk infos t =
      (sort infos, t\<lparr>mIndexMap := m, mInvertVec := mInvertVec t @ map copy_info (sort infos)\<rparr>)"
    "map_of m = entry_for (sort infos)" "distinct (map fst m)"
proof (cases "sort infos")
  case Nil
  then have "infos = []" by (metis length_0_conv length_sort)
  with assms that [of "[]"] show ?thesis by (simp add: createInvertTable_def entry_for_def fun_eq_iff)
next
  case (Cons x xs)
  let ?node = "(open_node x 0)\<lparr>nCount := 1\<rparr>"
  obtain node m v where run: "create_loop 1 xs ?node [] (mInvertVec t @ [copy_info x]) = (node, m, v)"
    by (metis prod_cases3)
  have "loop_state [x] ?node []"
    by (auto simp: loop_state_def entry_for_def open_node_def fun_eq_iff)
  from create_loop_state [OF this, of xs "mInvertVec t @ [copy_info x]"] run sorted_nPid [of infos] Cons
  have st: "loop_state (x # xs) node m" "v = mInvertVec t @ map copy_info (x # xs)" by simp_all
  then have "map_of (AList.update (nID node) node m) = entry_for (x # xs)"
    by (simp add: loop_state_complete)
  moreover have "infos \<noteq> []" using Cons by auto
  ultimately show ?thesis
    using that [of "AList.update (nID node) node m"] st assms run Cons
    by (simp add: createInvertTable_def Let_def open_node_def loop_state_def distinct_update)
qed

section \<open>Lookups\<close>

text \<open>The postings of a key: heaviest first, ties by id.\<close>

definition postings :: "PidKidInfo list \<Rightarrow> int \<Rightarrow> InvertNode list" where
  "postings infos k = map copy_info (filter (\<lambda>y. nPid y = k) (sort infos))"

definition answer :: "InvertNode list \<Rightarrow> InvertNode list option" where
  "answer ns = (if ns = [] then None else Some ns)"

lemma invert_words_inverse [simp]: "invert_nodes (invert_words ns) = ns"
  by (induction ns) simp_all

lemma index_words_inverse [simp]: "index_nodes (index_words ns) = ns"
  by (induction ns) simp_all

lemma drop_invert_words [simp]: "drop (2 * n) (invert_words ns) = invert_words (drop n ns)"
  by (induction ns arbitrary: n) (auto simp: drop_Cons split: nat.splits)

text \<open>A table is in order for a set of triples: its index is right and its postings are at hand.\<close>

definition serves :: "PidKidInfo list \<Rightarrow> InvertTable \<Rightarrow> bool" where
  "serves infos t \<longleftrightarrow>
     map_of (mIndexMap t) = entry_for (sort infos)
     \<and> (if mUseCached t then mInvertVec t = map copy_info (sort infos)
        else mFp t = Some (invert_words (map copy_info (sort infos))))"

lemma serves_getInvertInfo:
  assumes "serves infos t"
  shows "getInvertInfo k t = Inr (answer (postings infos k))"
proof (cases "entry_for (sort infos) k")
  case None
  with assms have "postings infos k = []"
    by (auto simp: postings_def entry_for_def filter_empty_conv split: if_splits)
  with None assms show ?thesis
    by (simp add: getInvertInfo_def getInvertInfo_ptr_def serves_def answer_def)
next
  case (Some node)
  let ?xs = "sort infos"
  let ?o = "length (filter (\<lambda>y. nPid y < k) ?xs)" and ?c = "length (filter (\<lambda>y. nPid y = k) ?xs)"
  have node: "nOffset node = int ?o" "nCount node = int ?c" and "?c > 0"
    using Some by (auto simp: entry_for_def filter_empty_conv split: if_splits)
  have seg: "take ?c (drop ?o (map copy_info ?xs)) = postings infos k"
    using segment [OF sorted_nPid, of k infos] by (simp add: postings_def drop_map take_map)
  have bound: "?o + ?c \<le> length ?xs" by (rule segment_bound)
  have len: "length (postings infos k) = ?c" by (simp add: postings_def)
  show ?thesis
    using assms Some node seg bound len \<open>?c > 0\<close>
    by (auto simp: getInvertInfo_def getInvertInfo_ptr_def readInvert_at_def serves_def Let_def answer_def)
qed

section \<open>create\<close>

abbreviation index_path :: "string \<Rightarrow> string" where "index_path dir \<equiv> dir @ ''/Index.dict''"
abbreviation invert_path :: "string \<Rightarrow> string" where "invert_path dir \<equiv> dir @ ''/Invert.dict''"

definition hash_order :: "((int \<times> IndexNode) list \<Rightarrow> (int \<times> IndexNode) list) \<Rightarrow> bool" where
  "hash_order iter \<longleftrightarrow> (\<forall>m. mset (iter m) = mset m)"

text \<open>Everything \<open>create\<close> leaves behind, on a table without old postings.\<close>

lemma create_outcome:
  assumes "mInvertVec t = []" "writable (index_path dir)" "writable (invert_path dir)"
  shows "\<exists>t' fs' m. create iter writable junk vec dir isPersistent t fs = Inr (sort vec, t', fs')
    \<and> serves vec t' \<and> map_of m = entry_for (sort vec) \<and> distinct (map fst m)
    \<and> (isPersistent \<longrightarrow> fs' (index_path dir) = Some (index_words (map snd (iter m)))
        \<and> fs' (invert_path dir) = Some (invert_words (map copy_info (sort vec))))"
proof -
  let ?t = "clear (t\<lparr>mIndexFileName := index_path dir, mInvertFileName := invert_path dir\<rparr>)"
  obtain m where m: "createInvertTable junk vec ?t =
      (sort vec, ?t\<lparr>mIndexMap := m, mInvertVec := mInvertVec ?t @ map copy_info (sort vec)\<rparr>)"
    "map_of m = entry_for (sort vec)" "distinct (map fst m)"
    by (rule createInvertTable_eq [of ?t]) (simp_all add: clear_def)
  have paths: "index_path dir \<noteq> invert_path dir" by simp
  show ?thesis
    using m assms paths
    by (cases isPersistent; cases "mUseCached t")
      (auto simp: create_def Let_def writeIndex_def writeInvert_def write_file_def clear_def serves_def
        intro!: exI [of _ m])
qed

text \<open>
  Building an index, in memory or on disk, persistent or not, on a table that holds no
  postings yet: it succeeds when its two files can be written, and afterwards every lookup
  delivers exactly the postings of the key, heaviest first and ties by id, or \<open>false\<close> when there
  are none. No lookup reads outside the table.
\<close>

theorem create_then_lookup:
  assumes "mInvertVec t = []" "writable (dir @ ''/Index.dict'')" "writable (dir @ ''/Invert.dict'')"
  shows "\<exists>t' fs'. create iter writable junk vec dir isPersistent t fs = Inr (sort vec, t', fs')
    \<and> (\<forall>k. getInvertInfo k t' = Inr (answer (postings vec k)))"
proof -
  obtain t' fs' where "create iter writable junk vec dir isPersistent t fs = Inr (sort vec, t', fs')"
    "serves vec t'"
    using create_outcome [OF assms, of iter junk vec isPersistent fs] by blast
  then show ?thesis using serves_getInvertInfo by blast
qed

theorem create_then_lookup_witness:
  "\<exists>t' fs'. create id (\<lambda>_. True) \<lparr>nID = 0, nOffset = 0, nCount = 0\<rparr>
       [PidKidInfo 1 7 3, PidKidInfo 1 8 5, PidKidInfo 2 7 1] ''d'' True (new_table False) Map.empty
     = Inr ([PidKidInfo 1 8 5, PidKidInfo 1 7 3, PidKidInfo 2 7 1], t', fs')
   \<and> getInvertInfo 1 t' = Inr (Some [InvertNode 8 5, InvertNode 7 3])"
proof -
  let ?vec = "[PidKidInfo 1 7 3, PidKidInfo 1 8 5, PidKidInfo 2 7 1]"
  have "sort ?vec = [PidKidInfo 1 8 5, PidKidInfo 1 7 3, PidKidInfo 2 7 1]"
    by (simp add: less_eq_PidKidInfo_def CmpPidKidInfoByPidWeight_def)
  moreover from this have "answer (postings ?vec 1) = Some [InvertNode 8 5, InvertNode 7 3]"
    by (simp add: postings_def answer_def copy_info_def)
  ultimately show ?thesis
    using create_then_lookup [of "new_table False" "\<lambda>_. True" "''d''" id
        "\<lparr>nID = 0, nOffset = 0, nCount = 0\<rparr>" ?vec True Map.empty]
    by (auto simp: new_table_def)
qed

section \<open>load\<close>

lemma read_index_inverse:
  assumes "map_of m = entry_for xs" "distinct (map fst m)" "hash_order iter"
  shows "map_of (foldl (\<lambda>m p. if nCount p \<noteq> 0 then AList.update (nID p) p m else m) []
           (map snd (iter m))) = entry_for xs"
proof -
  have "mset (iter m) = mset m" using assms(3) by (simp add: hash_order_def)
  from map_of_permuted [OF this assms(2)] have iter: "map_of (iter m) = entry_for xs" "distinct (map fst (iter m))"
    using assms(1) by simp_all
  have "nID n = k \<and> nCount n \<noteq> 0" if "(k, n) \<in> set (iter m)" for k n
  proof -
    have "entry_for xs k = Some n" using that iter by (metis map_of_eq_Some_iff)
    then show ?thesis by (auto simp: entry_for_def filter_empty_conv split: if_splits)
  qed
  from foldl_update_entries [OF this iter(2)] show ?thesis using iter(1) by simp
qed

lemma words_empty:
  "index_words ns = [] \<longleftrightarrow> ns = []" "invert_words vs = [] \<longleftrightarrow> vs = []"
  by (cases ns; simp) (cases vs; simp)

lemma hash_order_Nil: "hash_order iter \<Longrightarrow> iter [] = []"
  by (metis hash_order_def mset_zero_iff mset.simps(1))

lemma entry_for_hd: "xs \<noteq> [] \<Longrightarrow> entry_for xs (nPid (hd xs)) \<noteq> None"
  by (simp add: entry_for_def)

lemma load_serves:
  assumes "map_of m = entry_for (sort vec)" "distinct (map fst m)" "hash_order iter"
    and "fs ip = Some (index_words (map snd (iter m)))"
    and "fs vp = Some (invert_words (map copy_info (sort vec)))"
  shows "fst (load ip vp fs (new_table cached)) = (vec \<noteq> [] \<or> \<not> cached)
    \<and> serves vec (snd (load ip vp fs (new_table cached)))"
proof (cases "vec = []")
  case True
  with assms(1) have "m = []" by (cases m) (auto simp: entry_for_def fun_eq_iff split: if_splits)
  with True assms show ?thesis
    by (simp add: load_def readIndex_def readInvert_def new_table_def serves_def Let_def
        hash_order_Nil entry_for_def fun_eq_iff)
next
  case False
  then have ne: "sort vec \<noteq> []" by (metis length_0_conv length_sort)
  then have "entry_for (sort vec) (nPid (hd (sort vec))) \<noteq> None" by (rule entry_for_hd)
  then have "m \<noteq> []" using assms(1) by (metis map_of.simps(1))
  then have "iter m \<noteq> []" using assms(3) unfolding hash_order_def by (metis mset_zero_iff)
  with ne False assms show ?thesis
    by (simp add: load_def readIndex_def readInvert_def new_table_def serves_def Let_def
        words_empty read_index_inverse)
qed

text \<open>
  C12. Persistence round trip: whatever order the hash map was written in, a new table loaded from
  the two files a persistent \<open>create\<close> left answers every lookup as the table that was created,
  with either setting of the cache on either side. \<open>load\<close> reports success except for an empty
  index loaded into a caching table, whose empty file cannot be mapped.
\<close>

theorem persist_load_roundtrip:
  assumes "mInvertVec t = []" "writable (dir @ ''/Index.dict'')" "writable (dir @ ''/Invert.dict'')"
    and "hash_order iter" and "create iter writable junk vec dir True t fs = Inr (vec', t', fs')"
  shows "\<exists>t2. load (dir @ ''/Index.dict'') (dir @ ''/Invert.dict'') fs' (new_table cached)
        = (vec \<noteq> [] \<or> \<not> cached, t2)
      \<and> (\<forall>k. getInvertInfo k t2 = getInvertInfo k t')"
proof -
  from create_outcome [OF assms(1-3), of iter junk vec True fs] assms(5) obtain m where
    t': "serves vec t'" and m: "map_of m = entry_for (sort vec)" "distinct (map fst m)"
    "fs' (index_path dir) = Some (index_words (map snd (iter m)))"
    "fs' (invert_path dir) = Some (invert_words (map copy_info (sort vec)))"
    by auto
  let ?l = "load (index_path dir) (invert_path dir) fs' (new_table cached)"
  have l: "fst ?l = (vec \<noteq> [] \<or> \<not> cached)" "serves vec (snd ?l)"
    using load_serves [OF m(1,2) assms(4), where fs = fs' and ip = "index_path dir"
        and vp = "invert_path dir", OF m(3,4), of cached] by simp_all
  have "?l = (vec \<noteq> [] \<or> \<not> cached, snd ?l)" using l(1) by (simp add: prod_eq_iff)
  moreover have "getInvertInfo k (snd ?l) = getInvertInfo k t'" for k
    using serves_getInvertInfo [OF t'] serves_getInvertInfo [OF l(2)] by simp
  ultimately show ?thesis by (intro exI [of _ "snd ?l"]) simp
qed

text \<open>The witness's table has one posting.\<close>

definition one_triple :: "PidKidInfo list" where
  "one_triple = [PidKidInfo 1 10 5]"

definition demo_junk :: IndexNode where
  "demo_junk = \<lparr>nID = 0, nOffset = 0, nCount = 0\<rparr>"

theorem persist_load_roundtrip_witness:
  "\<exists>t' fs' t2. create rev (\<lambda>_. True) demo_junk one_triple ''d'' True (new_table True) Map.empty
        = Inr (one_triple, t', fs')
     \<and> load (''d'' @ ''/Index.dict'') (''d'' @ ''/Invert.dict'') fs' (new_table False) = (True, t2)
     \<and> getInvertInfo 1 t2 = getInvertInfo 1 t'"
proof -
  have sorted: "sort one_triple = one_triple" by (simp add: one_triple_def)
  have "mInvertVec (new_table True) = []" by (simp add: new_table_def)
  from create_outcome [OF this, of "\<lambda>_. True" "''d''" rev demo_junk one_triple True Map.empty]
  obtain t' fs' where c: "create rev (\<lambda>_. True) demo_junk one_triple ''d'' True (new_table True)
      Map.empty = Inr (one_triple, t', fs')"
    unfolding sorted by blast
  moreover have "hash_order rev" by (simp add: hash_order_def)
  ultimately show ?thesis
    using persist_load_roundtrip [OF _ _ _ _ c, of False]
    by (fastforce simp: new_table_def one_triple_def)
qed

section \<open>A second create\<close>

text \<open>
  \<open>clear\<close> keeps the old postings, while the new index counts from zero: when a caching table
  that holds at least as many postings as the new data is created again, every successful lookup
  answers with old postings only.
\<close>

theorem second_create_answers_old_data:
  assumes "mUseCached t" "length vec \<le> length (mInvertVec t)" "k \<in> nPid ` set vec"
    and "create iter writable junk vec dir isPersistent t fs = Inr (vec', t', fs')"
  shows "getInvertInfo k t' =
    Inr (Some (take (length (postings vec k))
      (drop (length (filter (\<lambda>y. nPid y < k) (sort vec))) (mInvertVec t))))"
proof -
  let ?t = "clear (t\<lparr>mIndexFileName := index_path dir, mInvertFileName := invert_path dir\<rparr>)"
  let ?xs = "sort vec"
  let ?o = "length (filter (\<lambda>y. nPid y < k) ?xs)" and ?c = "length (filter (\<lambda>y. nPid y = k) ?xs)"
  obtain m where m: "createInvertTable junk vec ?t =
      (?xs, ?t\<lparr>mIndexMap := m, mInvertVec := mInvertVec ?t @ map copy_info ?xs\<rparr>)"
    "map_of m = entry_for ?xs" "distinct (map fst m)"
    by (rule createInvertTable_eq [of ?t]) (simp_all add: clear_def)
  have t': "mIndexMap t' = m" "mInvertVec t' = mInvertVec t @ map copy_info ?xs" "mUseCached t'"
    using assms(1,4) m(1)
    by (auto simp: create_def Let_def clear_def split: sum.splits if_splits)
  have e: "entry_for ?xs k = Some \<lparr>nID = k, nOffset = int ?o, nCount = int ?c\<rparr>"
    using assms(3) by (simp add: entry_for_def)
  have b: "?o + ?c \<le> length (mInvertVec t)" using segment_bound [of nPid k ?xs] assms(2) by simp
  have "?c > 0" using assms(3) by (auto simp: filter_empty_conv)
  with b have "?o < length (mInvertVec t)" by linarith
  then have "int ?o < int (length (mInvertVec t'))" using t'(2) by simp
  with e m(2) t' b have "getInvertInfo k t' = Inr (Some (take ?c (drop ?o (mInvertVec t'))))"
    by (simp add: getInvertInfo_def getInvertInfo_ptr_def Let_def)
  then show ?thesis using t'(2) b by (simp add: postings_def)
qed

text \<open>Key 2 of the second data set is answered with the posting of key 1 of the first.\<close>

definition demo_first :: InvertTable where
  "demo_first =
     \<lparr>mIndexMap = [(1, \<lparr>nID = 1, nOffset = 0, nCount = 1\<rparr>)], mInvertVec = [InvertNode 10 5],
      mUseCached = True, mFp = None, mIndexFileName = ''d/Index.dict'', mInvertFileName = ''d/Invert.dict''\<rparr>"

lemma demo_first_create:
  "create id (\<lambda>_. True) demo_junk one_triple ''d'' False (new_table True) Map.empty =
     Inr (one_triple, demo_first, Map.empty)"
  by (simp add: create_def clear_def createInvertTable_def one_triple_def new_table_def Let_def
      open_node_def copy_info_def demo_first_def)

theorem second_create_answers_old_data_witness:
  "\<exists>t2 fs2.
     create id (\<lambda>_. True) demo_junk one_triple ''d'' False (new_table True) Map.empty
       = Inr (one_triple, demo_first, Map.empty)
   \<and> create id (\<lambda>_. True) demo_junk [PidKidInfo 2 20 7] ''d'' False demo_first Map.empty
       = Inr ([PidKidInfo 2 20 7], t2, fs2)
   \<and> postings [PidKidInfo 2 20 7] 2 = [InvertNode 20 7]
   \<and> getInvertInfo 2 t2 = Inr (Some [InvertNode 10 5])"
proof -
  obtain t2 where c: "create id (\<lambda>_. True) demo_junk [PidKidInfo 2 20 7] ''d'' False demo_first
      Map.empty = Inr ([PidKidInfo 2 20 7], t2, Map.empty)"
    by (simp add: create_def clear_def createInvertTable_def Let_def open_node_def demo_first_def)
  have p: "postings [PidKidInfo 2 20 7] 2 = [InvertNode 20 7]"
    by (simp add: postings_def copy_info_def)
  have "getInvertInfo 2 t2 = Inr (Some [InvertNode 10 5])"
    using second_create_answers_old_data [OF _ _ _ c, of 2] p by (simp add: demo_first_def)
  with c p demo_first_create show ?thesis by blast
qed

section \<open>InvertCreator\<close>

text \<open>The first triple of every key pair, in the order of arrival.\<close>

fun first_triples :: "(int \<times> int \<times> int) list \<Rightarrow> PidKidInfo list" where
  "first_triples [] = []"
| "first_triples ((i, v, w) # ts) =
     PidKidInfo i v w # filter (\<lambda>p. (nPid p, nKid p) \<noteq> (i, v)) (first_triples ts)"

definition add_all :: "(int \<times> int \<times> int) list \<Rightarrow> InvertCreator \<Rightarrow> InvertCreator" where
  "add_all ts c = foldl (\<lambda>c (i, v, w). addTriple i v w c) c ts"

lemma add_all_triples:
  "mTripleVec (add_all ts c) =
     mTripleVec c @ filter (\<lambda>p. (nPid p, nKid p) \<notin> mFilterSet c) (first_triples ts)
   \<and> mPath (add_all ts c) = mPath c \<and> mIsPersistent (add_all ts c) = mIsPersistent c"
proof (induction ts arbitrary: c)
  case (Cons t ts)
  obtain i v w where t: "t = (i, v, w)" by (cases t)
  have "filter (\<lambda>p. (nPid p, nKid p) \<notin> S) (filter (\<lambda>p. (nPid p, nKid p) \<noteq> (i, v)) ps) =
      filter (\<lambda>p. (nPid p, nKid p) \<notin> insert (i, v) S) ps" for S ps
    unfolding filter_filter by (rule filter_cong) auto
  note skip = this [of "mFilterSet c" "first_triples ts"]
  have "add_all (t # ts) c = add_all ts (addTriple i v w c)" by (simp add: add_all_def t)
  then show ?case
    using Cons.IH [of "addTriple i v w c"] skip
    by (cases "(i, v) \<in> mFilterSet c") (simp_all add: t addTriple_def insert_absorb)
qed (simp add: add_all_def)

text \<open>
  C11. From the creator to the lookup: triples may be added in any number and order; a repeated
  (key, id) pair keeps its first weight; after \<open>create\<close> on a new table each key answers with its
  ids by falling weight.
\<close>

theorem creator_end_to_end:
  assumes "writable (dir @ ''/Index.dict'')" "writable (dir @ ''/Invert.dict'')"
  shows "\<exists>c' t' fs'.
      creator_create iter writable junk (add_all ts (new_creator dir isPersistent))
        (new_table useCache) fs = Inr (c', t', fs')
    \<and> (\<forall>k. getInvertInfo k t' = Inr (answer (postings (first_triples ts) k)))"
proof -
  have c: "mTripleVec (add_all ts (new_creator dir isPersistent)) = first_triples ts"
    "mPath (add_all ts (new_creator dir isPersistent)) = dir"
    "mIsPersistent (add_all ts (new_creator dir isPersistent)) = isPersistent"
    by (simp_all add: add_all_triples new_creator_def)
  have "mInvertVec (new_table useCache) = []" by (simp add: new_table_def)
  from create_outcome [OF this assms, of iter junk "first_triples ts" isPersistent fs]
  obtain t' fs' where "create iter writable junk (first_triples ts) dir isPersistent
      (new_table useCache) fs = Inr (sort (first_triples ts), t', fs')" "serves (first_triples ts) t'"
    by blast
  then show ?thesis using serves_getInvertInfo by (simp add: creator_create_def c)
qed

theorem creator_end_to_end_witness:
  "\<exists>c' t' fs'.
      creator_create id (\<lambda>_. True) demo_junk (add_all [(1, 7, 3), (1, 8, 5), (1, 7, 9)] (new_creator ''d'' True))
        (new_table False) Map.empty = Inr (c', t', fs')
    \<and> getInvertInfo 1 t' = Inr (Some [InvertNode 8 5, InvertNode 7 3])"
proof -
  have "answer (postings (first_triples [(1, 7, 3), (1, 8, 5), (1, 7, 9)]) 1) =
      Some [InvertNode 8 5, InvertNode 7 3]"
    by (simp add: answer_def postings_def copy_info_def less_eq_PidKidInfo_def CmpPidKidInfoByPidWeight_def)
  then show ?thesis
    using creator_end_to_end [of "\<lambda>_. True" "''d''" id demo_junk "[(1, 7, 3), (1, 8, 5), (1, 7, 9)]"
        True False Map.empty] by force
qed

end
