(* ===== verification/Exp_Config.thy ===== *)
theory Exp_Config
  imports Prelude
begin

text \<open>
  \<^verbatim>\<open>exp.cpp\<close> and \<^verbatim>\<open>exp.h\<close> of the small-traffic experiment switch: a sectioned file of typed
  flags, and getters that fall back to the section \<open>default\<close>.

  A value of type \<open>float\<close> is kept as the text handed to \<open>atof\<close>. A \<open>const char*\<close> into a string
  that has been destroyed, and a reference to an element of a destroyed map, are dangling; using
  one is the fault \<open>Use_after_free\<close>.
\<close>

section \<open>Text\<close>

definition isBalnk :: "char \<Rightarrow> bool" where
  "isBalnk c \<longleftrightarrow>
     c = CHR '' '' \<or> c = CHR 0x09 \<or> c = CHR 0x0A \<or> c = CHR 0x0D \<or> c = CHR 0x00 \<or> c = CHR 0x0B"

text \<open>The two loops of \<open>trim\<close>; positions are below the length of the string.\<close>

function trim_start :: "string \<Rightarrow> nat \<Rightarrow> nat \<Rightarrow> nat" where
  "trim_start str start en =
     (if start < en \<and> isBalnk (str ! start) then trim_start str (start + 1) en else start)"
  by pat_completeness auto
termination
  by (relation "measure (\<lambda>(str, start, en). en - start)") auto

fun trim_end :: "string \<Rightarrow> nat \<Rightarrow> nat \<Rightarrow> nat" where
  "trim_end str start 0 = 0"
| "trim_end str start (Suc en) =
     (if Suc en > start \<and> isBalnk (str ! Suc en) then trim_end str start en else Suc en)"

declare trim_start.simps [simp del]

definition trim :: "string \<Rightarrow> string" where
  "trim str =
     (let len = length str in
      if len = 0 then []
      else
        (let start = trim_start str 0 (len - 1);
             en = trim_end str start (len - 1)
         in if start = en then [] else take (en - start + 1) (drop start str)))"

text \<open>The lines \<open>getline\<close> delivers.\<close>

function getlines :: "string \<Rightarrow> string list" where
  "getlines s =
     (if s = [] then []
      else takeWhile (\<lambda>c. c \<noteq> CHR 0x0A) s # getlines (tl (dropWhile (\<lambda>c. c \<noteq> CHR 0x0A) s)))"
  by pat_completeness auto
termination
proof (relation "measure length")
  fix s :: string
  assume "s \<noteq> []"
  then have "0 < length s" by simp
  moreover have "length (dropWhile (\<lambda>c. c \<noteq> CHR 0x0A) s) \<le> length s" by (rule length_dropWhile_le)
  ultimately show "(tl (dropWhile (\<lambda>c. c \<noteq> CHR 0x0A) s), s) \<in> measure length"
    unfolding in_measure length_tl by linarith
qed simp

declare getlines.simps [simp del]

section \<open>Flags\<close>

datatype FlagType = T_NONE | T_BOOL | T_INT | T_FLOAT | T_STRING

datatype FlagValue = bl bool | it int | ft string | dangling_ptr

record expNode =
  flagtype :: FlagType
  flagvalue :: FlagValue

definition getType :: "string \<Rightarrow> FlagType" where
  "getType flag =
     (if contains_sub ''enable'' flag then T_BOOL
      else if contains_sub ''int'' flag then T_INT
      else if contains_sub ''float'' flag then T_FLOAT
      else if contains_sub ''string'' flag then T_STRING
      else T_NONE)"

text \<open>
  Lines 73--107: the node of a flag, \<open>None\<close> where the loop continues with the next line. The
  string pointer is that of the local variable \<open>value\<close>, gone with the end of the iteration.
\<close>

definition parse_flag :: "string \<Rightarrow> string \<Rightarrow> expNode option" where
  "parse_flag flag v =
     (if contains_sub ''enable'' flag
      then (if v = ''true'' then Some \<lparr>flagtype = T_BOOL, flagvalue = bl True\<rparr>
            else if v = ''false'' then Some \<lparr>flagtype = T_BOOL, flagvalue = bl False\<rparr>
            else None)
      else if contains_sub ''int'' flag then Some \<lparr>flagtype = T_INT, flagvalue = it (atoi v)\<rparr>
      else if contains_sub ''float'' flag then Some \<lparr>flagtype = T_FLOAT, flagvalue = ft v\<rparr>
      else if contains_sub ''string'' flag then Some \<lparr>flagtype = T_STRING, flagvalue = dangling_ptr\<rparr>
      else None)"

type_synonym flags = "string \<rightharpoonup> expNode"

text \<open>\<open>std::map::insert\<close> keeps an element that is already there.\<close>

definition map_insert :: "string \<Rightarrow> 'a \<Rightarrow> (string \<rightharpoonup> 'a) \<Rightarrow> (string \<rightharpoonup> 'a)" where
  "map_insert k v m = (if m k = None then m(k \<mapsto> v) else m)"

section \<open>load\<close>

record Exp =
  m_conf :: "string \<rightharpoonup> flags"
  m_default :: flags

record loading = Exp +
  posid :: string
  flag2value :: flags

definition load_header :: "string \<Rightarrow> loading \<Rightarrow> loading" where
  "load_header name st =
     (if posid st = ''default''
      then st\<lparr>m_default := flag2value st, flag2value := Map.empty, posid := []\<rparr>
      else
        (let st = (if posid st \<noteq> []
                   then st\<lparr>m_conf := map_insert (posid st) (flag2value st) (m_conf st),
                           flag2value := Map.empty\<rparr>
                   else st)
         in st\<lparr>posid := trim name\<rparr>))"

definition load_flag :: "string \<Rightarrow> string \<Rightarrow> loading \<Rightarrow> loading" where
  "load_flag flag v st =
     (case parse_flag (trim flag) (trim v) of
        None \<Rightarrow> st
      | Some expnode \<Rightarrow> st\<lparr>flag2value := map_insert (trim flag) expnode (flag2value st)\<rparr>)"

text \<open>One iteration of the loop over the lines.\<close>

definition load_line :: "string \<Rightarrow> loading \<Rightarrow> loading" where
  "load_line line st =
     (let tmp = map tolower line; len = length tmp in
      if len = 0 \<or> tmp ! 0 = CHR ''#'' then st
      else if tmp ! 0 = CHR ''['' \<and> tmp ! (len - 1) = CHR '']''
      then load_header (take (len - 2) (drop 1 tmp)) st
      else (case find_sub ''='' tmp of
              None \<Rightarrow> st
            | Some pos \<Rightarrow> load_flag (take pos tmp) (drop (pos + 1) tmp) st))"

definition load_finish :: "loading \<Rightarrow> loading" where
  "load_finish st =
     (if posid st = ''default''
      then st\<lparr>m_default := flag2value st, flag2value := Map.empty\<rparr>
      else if posid st \<noteq> []
      then st\<lparr>m_conf := map_insert (posid st) (flag2value st) (m_conf st), flag2value := Map.empty\<rparr>
      else st)"

definition start_loading :: loading where
  "start_loading =
     \<lparr>m_conf = Map.empty, m_default = Map.empty, posid = [], flag2value = Map.empty\<rparr>"

text \<open>\<open>fs filename\<close> is \<open>None\<close> when the file cannot be opened.\<close>

definition load_lines :: "string list \<Rightarrow> loading" where
  "load_lines ls = load_finish (fold load_line ls start_loading)"

definition load_exp :: "(string \<Rightarrow> string option) \<Rightarrow> string \<Rightarrow> Exp" where
  "load_exp fs filename =
     (case fs filename of
        None \<Rightarrow> \<lparr>m_conf = Map.empty, m_default = Map.empty\<rparr>
      | Some s \<Rightarrow> Exp.truncate (load_lines (getlines s)))"

section \<open>Getters\<close>

datatype exp_fault = Exit int | Use_after_free

text \<open>
  A reference: whether the object it refers to still exists, and the object.
  \<open>getExpNode\<close> returns a reference into its local copy of the section.
\<close>

definition getDefault :: "string \<Rightarrow> 'a Exp_scheme \<Rightarrow> exp_fault + (bool \<times> expNode)" where
  "getDefault flag e =
     (case m_default e flag of None \<Rightarrow> Inl (Exit (- 1)) | Some n \<Rightarrow> Inr (True, n))"

definition getExpNode :: "string \<Rightarrow> string \<Rightarrow> 'a Exp_scheme \<Rightarrow> exp_fault + (bool \<times> expNode)" where
  "getExpNode pos flag e =
     (case m_conf e pos of
        None \<Rightarrow> getDefault flag e
      | Some fv \<Rightarrow>
          (case fv flag of
             None \<Rightarrow> getDefault flag e
           | Some n \<Rightarrow> Inr (False, n)))"

definition judgeExpNode :: "string \<Rightarrow> string \<Rightarrow> FlagType \<Rightarrow> 'a Exp_scheme \<Rightarrow> exp_fault + expNode" where
  "judgeExpNode pos flag t e =
     (let pos = map tolower pos; flag = map tolower flag in
      case getExpNode pos flag e of
        Inl f \<Rightarrow> Inl f
      | Inr (live, n) \<Rightarrow>
          if \<not> live then Inl Use_after_free
          else if flagtype n \<noteq> getType flag \<or> getType flag \<noteq> t then Inl (Exit (- 2))
          else Inr n)"

text \<open>The getters read the member of the union the type announces.\<close>

definition getBoolValue :: "string \<Rightarrow> string \<Rightarrow> 'a Exp_scheme \<Rightarrow> exp_fault + FlagValue" where
  "getBoolValue pos flag e = map_sum id flagvalue (judgeExpNode pos flag T_BOOL e)"

definition getIntValue :: "string \<Rightarrow> string \<Rightarrow> 'a Exp_scheme \<Rightarrow> exp_fault + FlagValue" where
  "getIntValue pos flag e = map_sum id flagvalue (judgeExpNode pos flag T_INT e)"

definition getFloatValue :: "string \<Rightarrow> string \<Rightarrow> 'a Exp_scheme \<Rightarrow> exp_fault + FlagValue" where
  "getFloatValue pos flag e = map_sum id flagvalue (judgeExpNode pos flag T_FLOAT e)"

definition getStringValue :: "string \<Rightarrow> string \<Rightarrow> 'a Exp_scheme \<Rightarrow> exp_fault + FlagValue" where
  "getStringValue pos flag e = map_sum id flagvalue (judgeExpNode pos flag T_STRING e)"

section \<open>What trim removes\<close>

definition strip :: "string \<Rightarrow> string" where
  "strip s = rev (dropWhile isBalnk (rev (dropWhile isBalnk s)))"

lemma strip_blanks:
  assumes "\<forall>c \<in> set u. isBalnk c" "\<forall>c \<in> set w. isBalnk c"
  shows "strip (u @ v @ w) = strip v"
proof (cases "\<forall>c \<in> set v. isBalnk c")
  case True
  then have "dropWhile isBalnk (u @ v @ w) = []" "dropWhile isBalnk v = []"
    using assms by (auto simp: dropWhile_eq_Nil_conv)
  then show ?thesis by (simp only: strip_def)
next
  case False
  then have "dropWhile isBalnk (v @ w) = dropWhile isBalnk v @ w"
    by (auto simp: dropWhile_append)
  moreover have "dropWhile isBalnk (u @ z) = dropWhile isBalnk z"
    "dropWhile isBalnk (rev w @ z) = dropWhile isBalnk z" for z
    using assms by (auto intro!: dropWhile_append2)
  ultimately show ?thesis by (simp add: strip_def)
qed

lemma dropWhile_hd: "xs \<noteq> [] \<Longrightarrow> \<not> P (hd xs) \<Longrightarrow> dropWhile P xs = xs"
  by (cases xs) auto

lemma strip_ends:
  "v \<noteq> [] \<Longrightarrow> \<not> isBalnk (hd v) \<Longrightarrow> \<not> isBalnk (last v) \<Longrightarrow> strip v = v"
  by (simp add: strip_def dropWhile_hd hd_rev)

lemma trim_start_range:
  "start \<le> en \<Longrightarrow> start \<le> trim_start str start en \<and> trim_start str start en \<le> en
   \<and> (\<forall>j. start \<le> j \<and> j < trim_start str start en \<longrightarrow> isBalnk (str ! j))
   \<and> (trim_start str start en = en \<or> \<not> isBalnk (str ! trim_start str start en))"
proof (induction str start en rule: trim_start.induct)
  case (1 str start en)
  show ?case
  proof (cases "start < en \<and> isBalnk (str ! start)")
    case True
    then have "trim_start str start en = trim_start str (start + 1) en"
      by (simp add: trim_start.simps [of str start])
    moreover have "isBalnk (str ! j)" if "start \<le> j" "j < trim_start str (start + 1) en" for j
      using that True "1.IH" [OF True] by (cases "j = start") auto
    ultimately show ?thesis using True "1.IH" [OF True] by auto
  next
    case False
    then have "trim_start str start en = start" by (auto simp: trim_start.simps [of str start])
    with False "1.prems" show ?thesis by auto
  qed
qed

lemma trim_end_range:
  "start \<le> en \<Longrightarrow> start \<le> trim_end str start en \<and> trim_end str start en \<le> en
   \<and> (\<forall>j. trim_end str start en < j \<and> j \<le> en \<longrightarrow> isBalnk (str ! j))
   \<and> (trim_end str start en = start \<or> \<not> isBalnk (str ! trim_end str start en))"
  by (induction en) (auto simp: le_Suc_eq)

lemma trim_strip: "trim s = (if length (strip s) \<le> 1 then [] else strip s)"
proof (cases "s = []")
  case True
  then show ?thesis by (simp add: trim_def strip_def)
next
  case False
  define a where "a = trim_start s 0 (length s - 1)"
  define b where "b = trim_end s a (length s - 1)"
  note A = trim_start_range [of 0 "length s - 1" s, folded a_def]
  then have "a \<le> length s - 1" by simp
  note B = trim_end_range [OF this, of s, folded b_def]
  have "b \<le> length s - 1" "0 < length s" using B False by simp_all
  then have b: "b < length s" by linarith
  define m where "m = take (b - a + 1) (drop a s)"
  have parts: "s = take a s @ m @ drop (b + 1) s"
  proof -
    have "drop (b - a + 1) (drop a s) = drop (b + 1) s" using B by simp
    then show ?thesis unfolding m_def by (metis append_take_drop_id)
  qed
  have "\<forall>c \<in> set (take a s). isBalnk c" using A b by (auto simp: in_set_conv_nth)
  moreover have "\<forall>c \<in> set (drop (b + 1) s). isBalnk c" using B b by (auto simp: in_set_conv_nth)
  ultimately have m: "strip s = strip m" using strip_blanks parts by metis
  have "a \<le> b" using B by blast
  with b have len: "length m = b - a + 1" unfolding m_def length_take length_drop by linarith
  have trim: "trim s = (if a = b then [] else m)"
    using False unfolding trim_def Let_def length_0_conv a_def [symmetric] b_def [symmetric]
      m_def [symmetric] by simp
  show ?thesis
  proof (cases "a = b")
    case True
    with len obtain c where "m = [c]" by (auto simp: length_Suc_conv)
    then have "length (strip s) \<le> 1" unfolding m by (simp add: strip_def)
    with True show ?thesis by (simp add: trim)
  next
    case ab: False
    have "hd m = s ! a" using b B by (simp add: m_def hd_drop_conv_nth)
    moreover have "last m = s ! b"
    proof -
      have "m \<noteq> []" using len by auto
      then have "last m = m ! (b - a)" using len by (simp add: last_conv_nth)
      then show ?thesis using b B by (simp add: m_def)
    qed
    ultimately have "strip m = m"
      using A B ab len by (intro strip_ends) auto
    with m len ab \<open>a \<le> b\<close> show ?thesis by (simp add: trim)
  qed
qed

text \<open>
  \<open>trim\<close> removes the blanks at both ends, except that a text of which a single character
  remains is lost altogether: \<open>"[5]"\<close> has no section name and \<open>"= 5"\<close> no value.
\<close>

theorem trim_spec: "trim s = (if length (strip s) \<le> 1 then [] else strip s)"
  by (rule trim_strip)

section \<open>Whole files\<close>

text \<open>
  A file of sections in normal form: names, flags and values in lower case, without blanks at
  their ends and of at least two characters.
\<close>

type_synonym sect = "string \<times> (string \<times> string) list"

definition plain :: "string \<Rightarrow> bool" where
  "plain s \<longleftrightarrow> 2 \<le> length s \<and> strip s = s \<and> map tolower s = s"

definition wf_flag :: "string \<times> string \<Rightarrow> bool" where
  "wf_flag fv \<longleftrightarrow> plain (fst fv) \<and> plain (snd fv) \<and> CHR ''='' \<notin> set (fst fv)
     \<and> hd (fst fv) \<noteq> CHR ''['' \<and> hd (fst fv) \<noteq> CHR ''#''"

definition wf_sect :: "sect \<Rightarrow> bool" where
  "wf_sect s \<longleftrightarrow> plain (fst s) \<and> list_all wf_flag (snd s)"

definition render_flag :: "string \<times> string \<Rightarrow> string" where
  "render_flag fv = fst fv @ '' = '' @ snd fv"

definition render_sect :: "sect \<Rightarrow> string list" where
  "render_sect s = (''['' @ fst s @ '']'') # map render_flag (snd s)"

definition add_flag :: "string \<times> string \<Rightarrow> flags \<Rightarrow> flags" where
  "add_flag fv m =
     (case parse_flag (fst fv) (snd fv) of None \<Rightarrow> m | Some n \<Rightarrow> map_insert (fst fv) n m)"

definition flags_of :: "(string \<times> string) list \<Rightarrow> flags" where
  "flags_of fvs = fold add_flag fvs Map.empty"

lemma find_char: "c \<notin> set u \<Longrightarrow> find_sub [c] (u @ c # w) = Some (length u)"
  by (induction u) auto

lemma plain_trim:
  assumes "plain s"
  shows "trim s = s" "trim (s @ '' '') = s" "trim ('' '' @ s) = s"
proof -
  have "strip ([] @ s @ '' '') = strip s" "strip ('' '' @ s @ []) = strip s"
    by (rule strip_blanks; simp add: isBalnk_def)+
  then show "trim s = s" "trim (s @ '' '') = s" "trim ('' '' @ s) = s"
    using assms by (simp_all add: trim_strip plain_def)
qed

lemma load_header_line: "plain n \<Longrightarrow> load_line (''['' @ n @ '']'') st = load_header n st"
  by (simp add: load_line_def plain_def tolower_def byte_def Let_def nth_append)

lemma load_flag_line:
  assumes "wf_flag fv"
  shows "load_line (render_flag fv) st = st\<lparr>flag2value := add_flag fv (flag2value st)\<rparr>"
proof -
  obtain f v where fv: "fv = (f, v)" by (cases fv)
  with assms have f: "plain f" "plain v" "CHR ''='' \<notin> set f" "f \<noteq> []"
    "f ! 0 \<noteq> CHR ''['' \<and> f ! 0 \<noteq> CHR ''#''"
    by (cases f; auto simp: wf_flag_def plain_def)+
  let ?l = "(f @ '' '') @ CHR ''='' # '' '' @ v"
  have lower: "map tolower (render_flag fv) = ?l"
    using f(1,2) by (simp add: render_flag_def fv plain_def tolower_def [of "CHR '' ''"]
        tolower_def [of "CHR ''=''"] byte_def)
  have pos: "find_sub ''='' ?l = Some (length (f @ '' ''))"
    using f(3) by (intro find_char) simp
  have hd: "?l ! 0 = f ! 0" using f(4) by (simp add: nth_append)
  have "load_line (render_flag fv) st = load_flag (f @ '' '') ('' '' @ v) st"
    unfolding load_line_def lower Let_def pos hd using f(5) by simp
  then show ?thesis
    using f by (simp only: load_flag_def plain_trim) (simp add: add_flag_def fv split: option.splits)
qed

lemma load_flag_lines:
  "list_all wf_flag fvs \<Longrightarrow>
   fold load_line (map render_flag fvs) st = st\<lparr>flag2value := fold add_flag fvs (flag2value st)\<rparr>"
  by (induction fvs arbitrary: st) (simp_all add: load_flag_line)

lemma load_sect_lines:
  "wf_sect s \<Longrightarrow> fold load_line (render_sect s) st =
     (load_header (fst s) st)\<lparr>flag2value := fold add_flag (snd s) (flag2value (load_header (fst s) st))\<rparr>"
  using load_header_line [of "fst s" st]
  by (simp add: render_sect_def load_flag_lines wf_sect_def)

text \<open>The state after some sections without \<open>default\<close> but possibly at the end.\<close>

definition conf_of :: "sect list \<Rightarrow> string \<rightharpoonup> flags" where
  "conf_of ss n = map_option flags_of (map_of ss n)"

lemma conf_of_snoc: "map_insert n (flags_of fvs) (conf_of ss) = conf_of (ss @ [(n, fvs)])"
  by (auto simp: conf_of_def map_insert_def fun_eq_iff map_add_def split: option.splits)

lemma load_sects_state:
  assumes "list_all wf_sect ss" "''default'' \<notin> fst ` set (butlast ss)" "ss \<noteq> []"
  shows "fold load_line (concat (map render_sect ss)) start_loading =
    \<lparr>m_conf = conf_of (butlast ss), m_default = Map.empty, posid = fst (last ss),
     flag2value = flags_of (snd (last ss))\<rparr>"
  using assms
proof (induction ss rule: rev_induct)
  case (snoc s ss)
  have s: "wf_sect s" "trim (fst s) = fst s"
    using snoc.prems(1) by (simp_all add: wf_sect_def plain_trim)
  show ?case
  proof (cases "ss = []")
    case True
    with s show ?thesis
      by (simp add: load_sect_lines load_header_def start_loading_def conf_of_def flags_of_def)
  next
    case False
    then have IH: "fold load_line (concat (map render_sect ss)) start_loading =
        \<lparr>m_conf = conf_of (butlast ss), m_default = Map.empty, posid = fst (last ss),
         flag2value = flags_of (snd (last ss))\<rparr>"
      using snoc by (auto dest: in_set_butlastD)
    have "wf_sect (last ss)" using snoc.prems(1) False by (simp add: list_all_iff)
    then have "fst (last ss) \<noteq> []" by (auto simp: wf_sect_def plain_def)
    moreover have "fst (last ss) \<in> fst ` set ss" using False by simp
    ultimately have last: "fst (last ss) \<noteq> []" "fst (last ss) \<noteq> ''default''"
      using snoc.prems(2) by (metis butlast_snoc)+
    have "map_insert (fst (last ss)) (flags_of (snd (last ss))) (conf_of (butlast ss)) = conf_of ss"
      using False by (simp add: conf_of_snoc)
    then show ?thesis
      using IH last s by (simp add: load_sect_lines load_header_def) (simp add: flags_of_def)
  qed
qed simp

text \<open>
  A file in normal form whose \<open>default\<close> section, if any, is the last one is loaded as it
  reads: each section, the first of its name, has exactly its flags with the values of their
  types, and \<open>m_default\<close> has those of the section \<open>default\<close>.
\<close>

theorem load_default_last:
  assumes "list_all wf_sect ss" "''default'' \<notin> fst ` set (butlast ss)"
  shows "m_conf (load_lines (concat (map render_sect ss))) n =
      (if n = ''default'' then None else map_option flags_of (map_of ss n))
    \<and> m_default (load_lines (concat (map render_sect ss))) =
      (case map_of ss ''default'' of None \<Rightarrow> Map.empty | Some fvs \<Rightarrow> flags_of fvs)"
proof (cases ss rule: rev_cases)
  case Nil
  then show ?thesis by (simp add: load_lines_def load_finish_def start_loading_def)
next
  case (snoc rs s)
  have st: "fold load_line (concat (map render_sect ss)) start_loading =
    \<lparr>m_conf = conf_of rs, m_default = Map.empty, posid = fst s, flag2value = flags_of (snd s)\<rparr>"
    using load_sects_state [OF assms] snoc by simp
  have ne: "fst s \<noteq> []" using assms(1) snoc by (auto simp: wf_sect_def plain_def)
  have no: "map_of rs ''default'' = None"
    using assms(2) snoc by (simp add: map_of_eq_None_iff)
  obtain n' fvs where s: "s = (n', fvs)" by (cases s)
  show ?thesis
  proof (cases "n' = ''default''")
    case True
    with st ne no s snoc show ?thesis
      by (auto simp: load_lines_def load_finish_def conf_of_def map_add_def split: option.splits)
  next
    case False
    with st ne no s snoc show ?thesis
      by (auto simp: load_lines_def load_finish_def conf_of_snoc map_add_def split: option.splits)
        (auto simp: conf_of_def map_add_def split: option.splits)
  qed
qed

text \<open>
  A section behind \<open>default\<close> is lost: its header only closes \<open>default\<close>, so its flags are
  collected without a name and end up in the section after it, where they even take precedence
  over that section's own values. The configuration file that ships with the program starts with
  its default section.
\<close>

theorem load_drops_section_after_default:
  assumes "wf_sect (''default'', d)" "wf_sect (a, fa)" "wf_sect (b, fb)" "b \<noteq> ''default''"
  shows "m_conf (load_lines (concat (map render_sect [(''default'', d), (a, fa), (b, fb)]))) =
      [b \<mapsto> fold add_flag fb (flags_of fa)]
    \<and> m_default (load_lines (concat (map render_sect [(''default'', d), (a, fa), (b, fb)]))) = flags_of d"
proof -
  have "trim ''default'' = ''default''" "trim a = a" "trim b = b" "b \<noteq> []"
    using assms by (auto simp: wf_sect_def plain_trim) (simp add: plain_def)
  then show ?thesis
    using assms
    by (simp add: load_lines_def load_finish_def load_sect_lines load_header_def start_loading_def
        flags_of_def map_insert_def)
qed

definition demo_default :: sect where
  "demo_default = (''default'', [(''flag_enable_x'', ''false'')])"

definition demo_sect1 :: sect where
  "demo_sect1 = (''0_1'', [(''flag_enable_x'', ''true'')])"

definition demo_sect2 :: sect where
  "demo_sect2 = (''0_2'', [(''flag_enable_x'', ''false'')])"

lemmas demo_defs = demo_default_def demo_sect1_def demo_sect2_def

lemma demo_wf: "wf_sect demo_default" "wf_sect demo_sect1" "wf_sect demo_sect2"
  by code_simp+

lemma demo_flags: "flags_of (snd demo_sect1) ''flag_enable_x'' = Some \<lparr>flagtype = T_BOOL, flagvalue = bl True\<rparr>"
  by code_simp

theorem load_default_last_witness:
  "m_conf (load_lines (concat (map render_sect [demo_sect1, demo_default]))) ''0_1''
     = Some (flags_of (snd demo_sect1))"
  using load_default_last [of "[demo_sect1, demo_default]" "''0_1''"] demo_wf by (simp add: demo_defs)

theorem load_drops_section_after_default_witness:
  "\<exists>fs. m_conf (load_lines (concat (map render_sect [demo_default, demo_sect1, demo_sect2]))) = [''0_2'' \<mapsto> fs]
     \<and> fs ''flag_enable_x'' = Some \<lparr>flagtype = T_BOOL, flagvalue = bl True\<rparr>"
proof -
  let ?fs = "fold add_flag (snd demo_sect2) (flags_of (snd demo_sect1))"
  have "?fs ''flag_enable_x'' = Some \<lparr>flagtype = T_BOOL, flagvalue = bl True\<rparr>" by code_simp
  moreover have "m_conf (load_lines (concat (map render_sect [demo_default, demo_sect1, demo_sect2])))
      = [''0_2'' \<mapsto> ?fs]"
    using load_drops_section_after_default [of "snd demo_default" "''0_1''" "snd demo_sect1"
        "''0_2''" "snd demo_sect2"] demo_wf by (simp add: demo_defs)
  ultimately show ?thesis by blast
qed

section \<open>Lookups\<close>

text \<open>Every stored node has the type its flag's name announces.\<close>

definition typed :: "flags \<Rightarrow> bool" where
  "typed m \<longleftrightarrow> (\<forall>f n. m f = Some n \<longrightarrow> flagtype n = getType f \<and> getType f \<noteq> T_NONE)"

lemma parse_flag_typed: "parse_flag f v = Some n \<Longrightarrow> flagtype n = getType f \<and> getType f \<noteq> T_NONE"
  by (auto simp: parse_flag_def getType_def split: if_splits)

definition loading_typed :: "loading \<Rightarrow> bool" where
  "loading_typed st \<longleftrightarrow> typed (m_default st) \<and> typed (flag2value st)"

lemma typed_insert: "typed m \<Longrightarrow> parse_flag f v = Some n \<Longrightarrow> typed (map_insert f n m)"
  using parse_flag_typed by (fastforce simp: typed_def map_insert_def)

lemma load_header_typed: "loading_typed st \<Longrightarrow> loading_typed (load_header n st)"
  by (simp add: loading_typed_def load_header_def typed_def Let_def)

lemma load_flag_typed: "loading_typed st \<Longrightarrow> loading_typed (load_flag f v st)"
  by (simp add: loading_typed_def load_flag_def typed_insert split: option.splits)

lemma load_line_typed: "loading_typed st \<Longrightarrow> loading_typed (load_line l st)"
  unfolding load_line_def Let_def
  by (simp add: load_header_typed load_flag_typed split: option.split del: nth_map)

lemma load_lines_typed: "typed (m_default (load_lines ls))"
proof -
  have "loading_typed (fold load_line ls st)" if "loading_typed st" for st
    using that by (induction ls arbitrary: st) (simp_all add: load_line_typed)
  moreover have "loading_typed start_loading"
    by (simp add: loading_typed_def start_loading_def typed_def)
  ultimately have "loading_typed (fold load_line ls start_loading)" by blast
  then show ?thesis by (simp add: load_lines_def load_finish_def loading_typed_def)
qed

text \<open>
  What a typed getter does on a loaded configuration. A flag the section has is read through a
  reference into a destroyed copy of the section. Otherwise the default value is delivered when
  the flag exists there and the getter fits its name; a missing flag ends the process with -1,
  a getter of the wrong type with -2. A stored value always has the type its name announces.
\<close>

theorem judgeExpNode_outcome:
  "judgeExpNode pos flag t (load_lines ls) =
     (let flag = map tolower flag in
      if (case m_conf (load_lines ls) (map tolower pos) of
            None \<Rightarrow> False | Some fv \<Rightarrow> fv flag \<noteq> None) then Inl Use_after_free
      else (case m_default (load_lines ls) flag of
              None \<Rightarrow> Inl (Exit (- 1))
            | Some n \<Rightarrow> if t = getType flag then Inr n else Inl (Exit (- 2))))"
  using load_lines_typed [of ls]
  by (auto simp: judgeExpNode_def getExpNode_def getDefault_def Let_def typed_def split: option.splits)

end
