(* ===== verification/Bounded_Queue.thy ===== *)
theory Bounded_Queue
  imports Transition
begin

text \<open>
  The contract of a bounded first-in first-out queue, and what its clients can rely on: whatever
  sequence of operations is performed, the items delivered are the items accepted, in order.
\<close>

datatype 'x queue_op = Enq 'x | Deq

locale bounded_queue =
  fixes ok :: "'q \<Rightarrow> bool"
    and contents :: "'q \<Rightarrow> 'x list"
    and capacity :: "'q \<Rightarrow> nat"
    and full :: "'q \<Rightarrow> bool"
    and empty :: "'q \<Rightarrow> bool"
    and enq :: "'x \<Rightarrow> 'q \<Rightarrow> 'q"
    and deq :: "'q \<Rightarrow> 'x \<times> 'q"
  assumes ok_bound: "ok q \<Longrightarrow> length (contents q) \<le> capacity q"
    and full_iff: "ok q \<Longrightarrow> full q \<longleftrightarrow> length (contents q) = capacity q"
    and empty_iff: "ok q \<Longrightarrow> empty q \<longleftrightarrow> contents q = []"
    and ok_enq: "ok q \<Longrightarrow> \<not> full q \<Longrightarrow> ok (enq x q)"
    and contents_enq: "ok q \<Longrightarrow> \<not> full q \<Longrightarrow> contents (enq x q) = contents q @ [x]"
    and capacity_enq: "ok q \<Longrightarrow> \<not> full q \<Longrightarrow> capacity (enq x q) = capacity q"
    and ok_deq: "ok q \<Longrightarrow> \<not> empty q \<Longrightarrow> ok (snd (deq q))"
    and deq_contents: "ok q \<Longrightarrow> \<not> empty q \<Longrightarrow> contents q = fst (deq q) # contents (snd (deq q))"
    and capacity_deq: "ok q \<Longrightarrow> \<not> empty q \<Longrightarrow> capacity (snd (deq q)) = capacity q"
begin

text \<open>
  A history of operations; one that would have to wait is not performed. The result is the
  queue, the items accepted and the items delivered.
\<close>

fun run :: "'x queue_op list \<Rightarrow> 'q \<Rightarrow> 'q \<times> 'x list \<times> 'x list" where
  "run [] q = (q, [], [])"
| "run (Enq x # ps) q =
     (if full q then run ps q
      else (case run ps (enq x q) of (q', ins, outs) \<Rightarrow> (q', x # ins, outs)))"
| "run (Deq # ps) q =
     (if empty q then run ps q
      else (case run ps (snd (deq q)) of (q', ins, outs) \<Rightarrow> (q', ins, fst (deq q) # outs)))"

lemma run_fifo:
  "ok q \<Longrightarrow> run ps q = (q', ins, outs) \<Longrightarrow>
   ok q' \<and> contents q @ ins = outs @ contents q' \<and> capacity q' = capacity q"
proof (induction ps arbitrary: q q' ins outs)
  case (Cons p ps)
  show ?case
  proof (cases p)
    case (Enq x)
    show ?thesis
    proof (cases "full q")
      case True
      with Cons Enq show ?thesis by simp
    next
      case False
      then obtain ins' where r: "run ps (enq x q) = (q', ins', outs)" and ins: "ins = x # ins'"
        using Cons.prems(2) Enq by (auto split: prod.splits)
      from Cons.IH [OF ok_enq [OF Cons.prems(1) False] r] Cons.prems(1) False
      show ?thesis by (simp add: contents_enq capacity_enq ins)
    qed
  next
    case Deq
    show ?thesis
    proof (cases "empty q")
      case True
      with Cons Deq show ?thesis by simp
    next
      case False
      then obtain outs' where r: "run ps (snd (deq q)) = (q', ins, outs')"
        and outs: "outs = fst (deq q) # outs'"
        using Cons.prems(2) Deq by (auto split: prod.splits)
      from Cons.IH [OF ok_deq [OF Cons.prems(1) False] r] Cons.prems(1) False
      show ?thesis by (simp add: capacity_deq outs deq_contents [OF Cons.prems(1) False])
    qed
  qed
qed simp

lemma not_full_and_empty: "ok q \<Longrightarrow> 0 < capacity q \<Longrightarrow> \<not> (full q \<and> empty q)"
  by (auto simp: full_iff empty_iff)

end

end
