(* ===== verification/Ring_Buffer.thy ===== *)
theory Ring_Buffer
  imports Bounded_Queue
begin

text \<open>
  The ring buffer of the four producer/consumer programs under \<^verbatim>\<open>src/produce_consume\<close>. The
  array has \<open>n\<close> slots (\<open>kItemRepositorySize\<close>: 10 in the first program, 4 in the others); one
  slot stays free, so that equal positions mean empty.
\<close>

record repository =
  item_buffer :: "int list"
  read_position :: nat
  write_position :: nat

definition ring_full :: "nat \<Rightarrow> repository \<Rightarrow> bool" where
  "ring_full n ir \<longleftrightarrow> (write_position ir + 1) mod n = read_position ir"

definition ring_empty :: "repository \<Rightarrow> bool" where
  "ring_empty ir \<longleftrightarrow> write_position ir = read_position ir"

text \<open>The part of \<open>ProduceItem\<close> behind its waiting loop.\<close>

definition ProduceItem :: "nat \<Rightarrow> int \<Rightarrow> repository \<Rightarrow> repository" where
  "ProduceItem n item ir =
     (let ir = ir\<lparr>item_buffer := (item_buffer ir)[write_position ir := item]\<rparr>;
          ir = ir\<lparr>write_position := write_position ir + 1\<rparr>
      in if write_position ir = n then ir\<lparr>write_position := 0\<rparr> else ir)"

text \<open>The part of \<open>ConsumeItem\<close> behind its waiting loop.\<close>

definition ConsumeItem :: "nat \<Rightarrow> repository \<Rightarrow> int \<times> repository" where
  "ConsumeItem n ir =
     (let data = item_buffer ir ! read_position ir;
          ir = ir\<lparr>read_position := read_position ir + 1\<rparr>
      in (data, if read_position ir \<ge> n then ir\<lparr>read_position := 0\<rparr> else ir))"

text \<open>The global repository has an array of some contents; \<open>InitItemRepository\<close> sets the positions.\<close>

definition InitItemRepository :: "int list \<Rightarrow> repository" where
  "InitItemRepository buf = \<lparr>item_buffer = buf, read_position = 0, write_position = 0\<rparr>"

section \<open>The ring as a queue\<close>

definition ring_ok :: "nat \<Rightarrow> repository \<Rightarrow> bool" where
  "ring_ok n ir \<longleftrightarrow>
     2 \<le> n \<and> length (item_buffer ir) = n \<and> read_position ir < n \<and> write_position ir < n"

definition ring_count :: "nat \<Rightarrow> repository \<Rightarrow> nat" where
  "ring_count n ir =
     (if read_position ir \<le> write_position ir then write_position ir - read_position ir
      else n + write_position ir - read_position ir)"

definition ring_slot :: "nat \<Rightarrow> repository \<Rightarrow> nat \<Rightarrow> nat" where
  "ring_slot n ir i = (if read_position ir + i < n then read_position ir + i else read_position ir + i - n)"

definition ring_contents :: "nat \<Rightarrow> repository \<Rightarrow> int list" where
  "ring_contents n ir = map (\<lambda>i. item_buffer ir ! ring_slot n ir i) [0..<ring_count n ir]"

lemmas ring_defs = ring_ok_def ring_count_def ring_slot_def ring_contents_def ring_full_def
  ring_empty_def ProduceItem_def ConsumeItem_def Let_def

lemma next_position: "w < n \<Longrightarrow> Suc w mod n = (if Suc w = n then 0 else Suc w)" for w n :: nat
  by simp

lemma ring_full_iff: "ring_ok n ir \<Longrightarrow> ring_full n ir \<longleftrightarrow> ring_count n ir = n - 1"
  unfolding ring_ok_def ring_full_def ring_count_def by (auto simp: next_position split: if_splits)

lemma ring_count_bound: "ring_ok n ir \<Longrightarrow> ring_count n ir \<le> n - 1"
  unfolding ring_ok_def ring_count_def by auto

lemma ring_empty_iff: "ring_ok n ir \<Longrightarrow> ring_empty ir \<longleftrightarrow> ring_count n ir = 0"
  unfolding ring_ok_def ring_empty_def ring_count_def by auto

lemma produce_ok: "ring_ok n ir \<Longrightarrow> ring_ok n (ProduceItem n x ir)"
  by (auto simp: ring_ok_def ProduceItem_def Let_def)

lemma consume_ok: "ring_ok n ir \<Longrightarrow> ring_ok n (snd (ConsumeItem n ir))"
  by (auto simp: ring_ok_def ConsumeItem_def Let_def)

lemma produce_count:
  "ring_ok n ir \<Longrightarrow> \<not> ring_full n ir \<Longrightarrow> ring_count n (ProduceItem n x ir) = Suc (ring_count n ir)"
  by (auto simp: ring_ok_def ring_full_def ring_count_def ProduceItem_def Let_def next_position
      split: if_splits)

lemma consume_count:
  "ring_ok n ir \<Longrightarrow> \<not> ring_empty ir \<Longrightarrow> Suc (ring_count n (snd (ConsumeItem n ir))) = ring_count n ir"
  by (auto simp: ring_ok_def ring_empty_def ring_count_def ConsumeItem_def Let_def split: if_splits)

lemma produce_contents:
  assumes "ring_ok n ir" "\<not> ring_full n ir"
  shows "ring_contents n (ProduceItem n x ir) = ring_contents n ir @ [x]"
proof -
  let ?p = "ProduceItem n x ir"
  have c: "ring_count n ir < n - 1"
    using assms ring_full_iff [of n ir] ring_count_bound [of n ir] by auto
  have slot: "ring_slot n ?p i = ring_slot n ir i" for i
    by (simp add: ring_slot_def ProduceItem_def Let_def)
  have new: "item_buffer ?p = (item_buffer ir)[write_position ir := x]"
    by (simp add: ProduceItem_def Let_def)
  have w: "ring_slot n ir (ring_count n ir) = write_position ir"
    using assms(1) by (auto simp: ring_ok_def ring_slot_def ring_count_def)
  have other: "write_position ir \<noteq> ring_slot n ir i" if "i < ring_count n ir" for i
    using that assms(1) c by (auto simp: ring_ok_def ring_slot_def ring_count_def split: if_splits)
  have "write_position ir < length (item_buffer ir)" using assms(1) by (simp add: ring_ok_def)
  moreover have "map (\<lambda>i. (item_buffer ir)[write_position ir := x] ! ring_slot n ir i) [0..<ring_count n ir]
      = ring_contents n ir"
    unfolding ring_contents_def using other by (intro map_cong) (auto simp: nth_list_update_neq)
  ultimately show ?thesis
    unfolding ring_contents_def [of n ?p] using w by (simp add: produce_count [OF assms] slot new)
qed

lemma consume_contents:
  assumes "ring_ok n ir" "\<not> ring_empty ir"
  shows "ring_contents n ir = fst (ConsumeItem n ir) # ring_contents n (snd (ConsumeItem n ir))"
proof -
  let ?c = "snd (ConsumeItem n ir)"
  have slot: "ring_slot n ir (Suc i) = ring_slot n ?c i" if "i < n" for i
    using assms(1) that by (auto simp: ring_ok_def ring_slot_def ConsumeItem_def Let_def)
  have "ring_count n ?c < n"
    using ring_count_bound [OF consume_ok [OF assms(1)]] assms(1) unfolding ring_ok_def by linarith
  then have "map (\<lambda>i. item_buffer ir ! ring_slot n ir (Suc i)) [0..<ring_count n ?c] = ring_contents n ?c"
    using slot by (auto simp: ring_contents_def ConsumeItem_def Let_def)
  moreover have "item_buffer ir ! ring_slot n ir 0 = fst (ConsumeItem n ir)"
    using assms(1) by (simp add: ring_ok_def ring_slot_def ConsumeItem_def Let_def)
  ultimately show ?thesis
    unfolding ring_contents_def [of n ir] consume_count [OF assms, symmetric]
    by (simp add: map_upt_Suc del: upt_Suc)
qed

interpretation ring: bounded_queue "ring_ok n" "ring_contents n" "\<lambda>_. n - 1" "ring_full n" ring_empty
  "ProduceItem n" "ConsumeItem n" for n
proof unfold_locales
  show "length (ring_contents n q) \<le> n - 1" if "ring_ok n q" for q
    using ring_count_bound [OF that] by (simp add: ring_contents_def)
  show "ring_full n q \<longleftrightarrow> length (ring_contents n q) = n - 1" if "ring_ok n q" for q
    using that by (simp add: ring_contents_def ring_full_iff)
  show "ring_empty q \<longleftrightarrow> ring_contents n q = []" if "ring_ok n q" for q
    using that by (simp add: ring_contents_def ring_empty_iff)
qed (simp_all add: produce_ok consume_ok produce_contents consume_contents)

lemma init_ok: "length buf = n \<Longrightarrow> 2 \<le> n \<Longrightarrow> ring_ok n (InitItemRepository buf)"
  by (simp add: ring_ok_def InitItemRepository_def)

lemma init_contents: "ring_contents n (InitItemRepository buf) = []"
  by (simp add: ring_contents_def ring_count_def InitItemRepository_def)

end
