(* ===== verification/Producer_Consumer.thy ===== *)
theory Producer_Consumer
  imports Ring_Buffer
begin

text \<open>
  The four programs under \<^verbatim>\<open>src/produce_consume\<close>: one or four producer threads and one or four
  consumer threads around the ring buffer of \<open>n\<close> slots, for \<open>N\<close> items (\<open>kItemsToProduce\<close>).

  A step is a critical section. The bodies of \<open>ProduceItem\<close> and \<open>ConsumeItem\<close> run under \<open>mtx\<close>;
  their waiting loops test the condition under the same mutex and every change is announced with
  \<open>notify_all\<close>, so a waiting thread is one whose step is not enabled yet. The counter mutexes
  are held across a call that waits, so their holders are part of the state. \<open>printed\<close> records
  the consumed items.
\<close>

datatype phase = Idle | Busy | Exited

record pc_sys =
  repo :: repository
  produced_item_counter :: nat
  consumed_item_counter :: nat
  pphase :: "nat \<Rightarrow> phase"
  cphase :: "nat \<Rightarrow> phase"
  p_mtx :: "nat option"
  c_mtx :: "nat option"
  printed :: "int list"

definition start_sys :: "int list \<Rightarrow> pc_sys" where
  "start_sys buf =
     \<lparr>repo = InitItemRepository buf, produced_item_counter = 0, consumed_item_counter = 0,
      pphase = (\<lambda>_. Idle), cphase = (\<lambda>_. Idle), p_mtx = None, c_mtx = None, printed = []\<rparr>"

definition started :: "nat \<Rightarrow> pc_sys \<Rightarrow> bool" where
  "started n s \<longleftrightarrow> (\<exists>buf. length buf = n \<and> 2 \<le> n \<and> s = start_sys buf)"

definition put_item :: "nat \<Rightarrow> int \<Rightarrow> pc_sys \<Rightarrow> pc_sys" where
  "put_item n item s = s\<lparr>repo := ProduceItem n item (repo s)\<rparr>"

definition take_item :: "nat \<Rightarrow> pc_sys \<Rightarrow> pc_sys" where
  "take_item n s =
     (case ConsumeItem n (repo s) of (item, r) \<Rightarrow> s\<lparr>repo := r, printed := printed s @ [item]\<rparr>)"

section \<open>Threads\<close>

text \<open>The single producer: \<open>for (i = 1; i <= N; ++i)\<close>; the counter is \<open>i - 1\<close>.\<close>

definition loop_produce :: "nat \<Rightarrow> pc_sys \<Rightarrow> pc_sys" where
  "loop_produce n s =
     (let i = produced_item_counter s + 1 in (put_item n (int i) s)\<lparr>produced_item_counter := i\<rparr>)"

definition loop_exit :: "pc_sys \<Rightarrow> pc_sys" where
  "loop_exit s = s\<lparr>pphase := (pphase s)(0 := Exited)\<rparr>"

text \<open>One of several producers: it takes the counter mutex, counts, produces and releases it.\<close>

definition producer_lock :: "nat \<Rightarrow> pc_sys \<Rightarrow> pc_sys" where
  "producer_lock t s =
     s\<lparr>p_mtx := Some t, produced_item_counter := produced_item_counter s + 1,
       pphase := (pphase s)(t := Busy)\<rparr>"

definition producer_put :: "nat \<Rightarrow> nat \<Rightarrow> pc_sys \<Rightarrow> pc_sys" where
  "producer_put n t s =
     (put_item n (int (produced_item_counter s)) s)\<lparr>p_mtx := None, pphase := (pphase s)(t := Idle)\<rparr>"

definition producer_exit :: "nat \<Rightarrow> pc_sys \<Rightarrow> pc_sys" where
  "producer_exit t s = s\<lparr>pphase := (pphase s)(t := Exited)\<rparr>"

text \<open>The only consumer of the first program.\<close>

definition count_consume :: "nat \<Rightarrow> nat \<Rightarrow> pc_sys \<Rightarrow> pc_sys" where
  "count_consume n N s =
     (let s = take_item n s;
          s = s\<lparr>consumed_item_counter := consumed_item_counter s + 1\<rparr>
      in if consumed_item_counter s = N then s\<lparr>cphase := (cphase s)(0 := Exited)\<rparr> else s)"

text \<open>The only consumer of the third program counts before it consumes.\<close>

definition ahead_count :: "nat \<Rightarrow> pc_sys \<Rightarrow> pc_sys" where
  "ahead_count N s =
     (let s = s\<lparr>consumed_item_counter := consumed_item_counter s + 1\<rparr>
      in s\<lparr>cphase := (cphase s)(0 := if consumed_item_counter s \<le> N then Busy else Exited)\<rparr>)"

definition ahead_take :: "nat \<Rightarrow> pc_sys \<Rightarrow> pc_sys" where
  "ahead_take n s = (take_item n s)\<lparr>cphase := (cphase s)(0 := Idle)\<rparr>"

text \<open>One of several consumers.\<close>

definition consumer_lock :: "nat \<Rightarrow> pc_sys \<Rightarrow> pc_sys" where
  "consumer_lock t s = s\<lparr>c_mtx := Some t, cphase := (cphase s)(t := Busy)\<rparr>"

definition consumer_take :: "nat \<Rightarrow> nat \<Rightarrow> pc_sys \<Rightarrow> pc_sys" where
  "consumer_take n t s =
     (take_item n s)\<lparr>consumed_item_counter := consumed_item_counter s + 1, c_mtx := None,
        cphase := (cphase s)(t := Idle)\<rparr>"

definition consumer_exit :: "nat \<Rightarrow> pc_sys \<Rightarrow> pc_sys" where
  "consumer_exit t s = s\<lparr>cphase := (cphase s)(t := Exited)\<rparr>"

section \<open>The programs\<close>

text \<open>Each role of a program; four is the number of threads of a role that has several.\<close>

inductive one_producer :: "nat \<Rightarrow> nat \<Rightarrow> pc_sys \<Rightarrow> pc_sys \<Rightarrow> bool" for n N where
  lp_produce: "pphase s 0 = Idle \<Longrightarrow> produced_item_counter s < N \<Longrightarrow> \<not> ring_full n (repo s) \<Longrightarrow>
    one_producer n N s (loop_produce n s)"
| lp_exit: "pphase s 0 = Idle \<Longrightarrow> \<not> produced_item_counter s < N \<Longrightarrow> one_producer n N s (loop_exit s)"

inductive four_producers :: "nat \<Rightarrow> nat \<Rightarrow> pc_sys \<Rightarrow> pc_sys \<Rightarrow> bool" for n N where
  mp_lock: "t < 4 \<Longrightarrow> pphase s t = Idle \<Longrightarrow> p_mtx s = None \<Longrightarrow> produced_item_counter s < N \<Longrightarrow>
    four_producers n N s (producer_lock t s)"
| mp_put: "t < 4 \<Longrightarrow> pphase s t = Busy \<Longrightarrow> \<not> ring_full n (repo s) \<Longrightarrow>
    four_producers n N s (producer_put n t s)"
| mp_exit: "t < 4 \<Longrightarrow> pphase s t = Idle \<Longrightarrow> p_mtx s = None \<Longrightarrow> \<not> produced_item_counter s < N \<Longrightarrow>
    four_producers n N s (producer_exit t s)"

inductive one_consumer :: "nat \<Rightarrow> nat \<Rightarrow> pc_sys \<Rightarrow> pc_sys \<Rightarrow> bool" for n N where
  cc_consume: "cphase s 0 = Idle \<Longrightarrow> \<not> ring_empty (repo s) \<Longrightarrow> one_consumer n N s (count_consume n N s)"

inductive ahead_consumer :: "nat \<Rightarrow> nat \<Rightarrow> pc_sys \<Rightarrow> pc_sys \<Rightarrow> bool" for n N where
  ac_count: "cphase s 0 = Idle \<Longrightarrow> ahead_consumer n N s (ahead_count N s)"
| ac_take: "cphase s 0 = Busy \<Longrightarrow> \<not> ring_empty (repo s) \<Longrightarrow> ahead_consumer n N s (ahead_take n s)"

inductive four_consumers :: "nat \<Rightarrow> nat \<Rightarrow> pc_sys \<Rightarrow> pc_sys \<Rightarrow> bool" for n N where
  mc_lock: "t < 4 \<Longrightarrow> cphase s t = Idle \<Longrightarrow> c_mtx s = None \<Longrightarrow> consumed_item_counter s < N \<Longrightarrow>
    four_consumers n N s (consumer_lock t s)"
| mc_take: "t < 4 \<Longrightarrow> cphase s t = Busy \<Longrightarrow> \<not> ring_empty (repo s) \<Longrightarrow>
    four_consumers n N s (consumer_take n t s)"
| mc_exit: "t < 4 \<Longrightarrow> cphase s t = Idle \<Longrightarrow> c_mtx s = None \<Longrightarrow> \<not> consumed_item_counter s < N \<Longrightarrow>
    four_consumers n N s (consumer_exit t s)"

definition spsc_step :: "nat \<Rightarrow> nat \<Rightarrow> pc_sys \<Rightarrow> pc_sys \<Rightarrow> bool" where
  "spsc_step n N s t \<longleftrightarrow> one_producer n N s t \<or> one_consumer n N s t"

definition spmc_step :: "nat \<Rightarrow> nat \<Rightarrow> pc_sys \<Rightarrow> pc_sys \<Rightarrow> bool" where
  "spmc_step n N s t \<longleftrightarrow> one_producer n N s t \<or> four_consumers n N s t"

definition mpsc_step :: "nat \<Rightarrow> nat \<Rightarrow> pc_sys \<Rightarrow> pc_sys \<Rightarrow> bool" where
  "mpsc_step n N s t \<longleftrightarrow> four_producers n N s t \<or> ahead_consumer n N s t"

definition mpmc_step :: "nat \<Rightarrow> nat \<Rightarrow> pc_sys \<Rightarrow> pc_sys \<Rightarrow> bool" where
  "mpmc_step n N s t \<longleftrightarrow> four_producers n N s t \<or> four_consumers n N s t"

section \<open>Contracts of the two roles\<close>

text \<open>The parts of the state a role owns.\<close>

definition pview :: "pc_sys \<Rightarrow> nat \<times> (nat \<Rightarrow> phase) \<times> nat option" where
  "pview s = (produced_item_counter s, pphase s, p_mtx s)"

definition cview :: "pc_sys \<Rightarrow> nat \<times> (nat \<Rightarrow> phase) \<times> nat option \<times> int list" where
  "cview s = (consumed_item_counter s, cphase s, c_mtx s, printed s)"

text \<open>
  \<open>written\<close> counts the items put so far, \<open>pfin\<close> says that all producers have exited and \<open>pmeas\<close>
  bounds the steps they have left.
\<close>

locale producer_role =
  fixes n N :: nat
    and pstep :: "pc_sys \<Rightarrow> pc_sys \<Rightarrow> bool"
    and pinv :: "pc_sys \<Rightarrow> bool"
    and written :: "pc_sys \<Rightarrow> nat"
    and pfin :: "pc_sys \<Rightarrow> bool"
    and pmeas :: "pc_sys \<Rightarrow> nat"
  assumes p_effect: "pinv s \<Longrightarrow> pstep s t \<Longrightarrow>
      repo t = repo s \<and> written t = written s
      \<or> \<not> ring_full n (repo s) \<and> repo t = ProduceItem n (int (written s + 1)) (repo s)
        \<and> written t = written s + 1"
    and p_frame: "pstep s t \<Longrightarrow> cview t = cview s"
    and p_inv: "pinv s \<Longrightarrow> pstep s t \<Longrightarrow> pinv t"
    and p_meas: "pinv s \<Longrightarrow> pstep s t \<Longrightarrow> pmeas t < pmeas s"
    and p_local: "pview s = pview t \<Longrightarrow>
      pinv s = pinv t \<and> written s = written t \<and> pfin s = pfin t \<and> pmeas s = pmeas t"
    and p_start: "started n s \<Longrightarrow> pinv s \<and> written s = 0"
    and p_bound: "pinv s \<Longrightarrow> written s \<le> N"
    and p_final: "pinv s \<Longrightarrow> pfin s \<Longrightarrow> written s = N"
    and p_progress: "pinv s \<Longrightarrow> \<not> pfin s \<Longrightarrow> \<not> ring_full n (repo s) \<Longrightarrow> \<exists>t. pstep s t"

locale consumer_role =
  fixes n N :: nat
    and cstep :: "pc_sys \<Rightarrow> pc_sys \<Rightarrow> bool"
    and cinv :: "pc_sys \<Rightarrow> bool"
    and cfin :: "pc_sys \<Rightarrow> bool"
    and cmeas :: "pc_sys \<Rightarrow> nat"
  assumes c_effect: "cinv s \<Longrightarrow> cstep s t \<Longrightarrow>
      repo t = repo s \<and> printed t = printed s
      \<or> \<not> ring_empty (repo s) \<and> repo t = snd (ConsumeItem n (repo s))
        \<and> printed t = printed s @ [fst (ConsumeItem n (repo s))]"
    and c_frame: "cstep s t \<Longrightarrow> pview t = pview s"
    and c_inv: "cinv s \<Longrightarrow> cstep s t \<Longrightarrow> cinv t"
    and c_meas: "cinv s \<Longrightarrow> cstep s t \<Longrightarrow> cmeas t < cmeas s"
    and c_local: "cview s = cview t \<Longrightarrow> cinv s = cinv t \<and> cfin s = cfin t \<and> cmeas s = cmeas t"
    and c_start: "started n s \<Longrightarrow> cinv s"
    and c_final: "cinv s \<Longrightarrow> cfin s \<Longrightarrow> length (printed s) = N"
    and c_progress: "cinv s \<Longrightarrow> \<not> cfin s \<Longrightarrow> \<not> ring_empty (repo s) \<or> length (printed s) = N \<Longrightarrow>
      \<exists>t. cstep s t"

locale item_program = producer_role n N pstep pinv written pfin pmeas + consumer_role n N cstep cinv cfin cmeas
  for n N pstep pinv written pfin pmeas cstep cinv cfin cmeas
begin

definition step :: "pc_sys \<Rightarrow> pc_sys \<Rightarrow> bool" where
  "step s t \<longleftrightarrow> pstep s t \<or> cstep s t"

definition inv :: "pc_sys \<Rightarrow> bool" where
  "inv s \<longleftrightarrow> pinv s \<and> cinv s \<and> ring_ok n (repo s)
     \<and> printed s @ ring_contents n (repo s) = map int [1..<written s + 1]"

lemma inv_start: "started n s \<Longrightarrow> inv s"
  by (auto simp: inv_def p_start c_start started_def start_sys_def init_ok init_contents)

lemma inv_pstep:
  assumes "inv s" "pstep s t"
  shows "inv t"
proof -
  have i: "pinv s" "cinv s" "ring_ok n (repo s)"
    "printed s @ ring_contents n (repo s) = map int [1..<written s + 1]"
    using assms(1) by (simp_all add: inv_def)
  have c: "printed t = printed s" "cinv t = cinv s"
    using p_frame [OF assms(2)] c_local [OF p_frame [OF assms(2)]] by (simp_all add: cview_def)
  from p_effect [OF i(1) assms(2)] show ?thesis
  proof
    assume "repo t = repo s \<and> written t = written s"
    with i c p_inv [OF i(1) assms(2)] show ?thesis by (simp add: inv_def)
  next
    assume e: "\<not> ring_full n (repo s) \<and> repo t = ProduceItem n (int (written s + 1)) (repo s)
        \<and> written t = written s + 1"
    then have "ring_contents n (repo t) = ring_contents n (repo s) @ [int (written s + 1)]"
      using ring.contents_enq [OF i(3)] by simp
    then have "printed t @ ring_contents n (repo t) = map int [1..<written t + 1]"
      using e c i(4) by (simp flip: append_assoc)
    with e i c p_inv [OF i(1) assms(2)] show ?thesis by (simp add: inv_def produce_ok)
  qed
qed

lemma inv_cstep:
  assumes "inv s" "cstep s t"
  shows "inv t"
proof -
  have i: "pinv s" "cinv s" "ring_ok n (repo s)"
    "printed s @ ring_contents n (repo s) = map int [1..<written s + 1]"
    using assms(1) by (simp_all add: inv_def)
  have p: "pinv t = pinv s" "written t = written s"
    using p_local [OF c_frame [OF assms(2)]] by simp_all
  from c_effect [OF i(2) assms(2)] show ?thesis
  proof
    assume "repo t = repo s \<and> printed t = printed s"
    with i p c_inv [OF i(2) assms(2)] show ?thesis by (simp add: inv_def)
  next
    assume e: "\<not> ring_empty (repo s) \<and> repo t = snd (ConsumeItem n (repo s))
        \<and> printed t = printed s @ [fst (ConsumeItem n (repo s))]"
    then have "printed t @ ring_contents n (repo t) = map int [1..<written t + 1]"
      using consume_contents [OF i(3)] i(4) p(2) by simp
    with e i p c_inv [OF i(2) assms(2)] show ?thesis by (simp add: inv_def consume_ok)
  qed
qed

lemma inv_step: "inv s \<Longrightarrow> step s t \<Longrightarrow> inv t"
  unfolding step_def using inv_pstep inv_cstep by blast

lemma inv_reach: "reach (started n) step s \<Longrightarrow> inv s"
  by (induction rule: reach.induct) (blast intro: inv_start inv_step)+

lemma in_order:
  assumes "reach (started n) step s"
  shows "printed s = map int [1..<length (printed s) + 1]"
    and "ring_contents n (repo s) = map int [length (printed s) + 1..<written s + 1]"
    and "length (printed s) \<le> written s"
proof -
  have eq: "printed s @ ring_contents n (repo s) = map int [1..<written s + 1]"
    using inv_reach [OF assms] by (simp add: inv_def)
  then have "length (printed s) + length (ring_contents n (repo s)) = written s"
    by (metis length_append length_map length_upt add_diff_cancel_right')
  then show le: "length (printed s) \<le> written s" by simp
  have "printed s = take (length (printed s)) (map int [1..<written s + 1])"
    using eq by (metis append_eq_conv_conj)
  also have "\<dots> = map int [1..<length (printed s) + 1]" using le by (simp add: take_map del: upt_Suc)
  finally show "printed s = map int [1..<length (printed s) + 1]" .
  have "ring_contents n (repo s) = drop (length (printed s)) (map int [1..<written s + 1])"
    using eq by (metis append_eq_conv_conj)
  then show "ring_contents n (repo s) = map int [length (printed s) + 1..<written s + 1]"
    by (simp add: drop_map del: upt_Suc)
qed

lemma complete:
  assumes "reach (started n) step s" "\<forall>t. \<not> step s t"
  shows "pfin s \<and> cfin s \<and> printed s = map int [1..<N + 1]"
proof -
  have i: "pinv s" "cinv s" "ring_ok n (repo s)" using inv_reach [OF assms(1)] by (simp_all add: inv_def)
  let ?len = "length (ring_contents n (repo s))"
  have len: "?len = written s - length (printed s)" using in_order(2) [OF assms(1)] by (simp del: upt_Suc)
  have le: "length (printed s) \<le> written s" "written s \<le> N"
    using in_order(3) [OF assms(1)] p_bound [OF i(1)] by simp_all
  have full: "ring_full n (repo s) \<Longrightarrow> ?len = n - 1" "2 \<le> n"
    using i(3) by (simp_all add: ring.full_iff [OF i(3)] ring_ok_def)
  have empty: "ring_empty (repo s) \<longleftrightarrow> ?len = 0" using ring.empty_iff [OF i(3)] by simp
  have p: "pfin s \<or> ring_full n (repo s)" and c: "cfin s \<or> ring_empty (repo s) \<and> length (printed s) \<noteq> N"
    using p_progress [OF i(1)] c_progress [OF i(2)] assms(2) by (auto simp: step_def)
  have "cfin s"
  proof (rule ccontr)
    assume "\<not> cfin s"
    with c have "?len = 0" "length (printed s) \<noteq> N" using empty by auto
    with full p have "pfin s" by auto
    then show False using p_final [OF i(1)] \<open>?len = 0\<close> \<open>length (printed s) \<noteq> N\<close> len le by simp
  qed
  then have N: "length (printed s) = N" by (rule c_final [OF i(2)])
  then have "?len = 0" using len le by simp
  then have "pfin s" using p full by auto
  with \<open>cfin s\<close> N in_order(1) [OF assms(1)] show ?thesis by simp
qed

text \<open>Every step uses up some of the work left, so every run ends.\<close>

lemma work_decreases:
  assumes "reach (started n) step s" "step s t"
  shows "pmeas t + cmeas t < pmeas s + cmeas s"
proof -
  have "inv s" by (rule inv_reach [OF assms(1)])
  then have i: "pinv s" "cinv s" by (simp_all add: inv_def)
  from assms(2) show ?thesis unfolding step_def
  proof
    assume p: "pstep s t"
    then show ?thesis using p_meas [OF i(1) p] c_local [OF p_frame [OF p]] by simp
  next
    assume c: "cstep s t"
    then show ?thesis using c_meas [OF i(2) c] p_local [OF c_frame [OF c]] by simp
  qed
qed

lemma run_bounded:
  assumes "\<forall>i<k. step (f i) (f (Suc i))" "started n (f 0)"
  shows "k + pmeas (f k) + cmeas (f k) \<le> pmeas (f 0) + cmeas (f 0) \<and> reach (started n) step (f k)"
  using assms
proof (induction k)
  case 0
  then show ?case by (auto intro: reach.reach_init)
next
  case (Suc k)
  then have "k + pmeas (f k) + cmeas (f k) \<le> pmeas (f 0) + cmeas (f 0)" "reach (started n) step (f k)"
    by simp_all
  moreover have "step (f k) (f (Suc k))" using Suc.prems(1) by blast
  ultimately show ?case
    using work_decreases [of "f k" "f (Suc k)"] by (fastforce intro: reach.reach_step)
qed

end

section \<open>The roles keep their contracts\<close>

definition live :: "(nat \<Rightarrow> phase) \<Rightarrow> nat" where
  "live ph = (\<Sum>t<4. if ph t = Exited then 0 else 1)"

definition mutex_ok :: "nat option \<Rightarrow> (nat \<Rightarrow> phase) \<Rightarrow> bool" where
  "mutex_ok m ph \<longleftrightarrow> (\<forall>t. ph t = Busy \<longleftrightarrow> m = Some t) \<and> (\<forall>t. m = Some t \<longrightarrow> t < 4)"

definition held :: "nat option \<Rightarrow> nat" where
  "held m = (if m = None then 0 else 1)"

lemma live_same: "ph t \<noteq> Exited \<Longrightarrow> x \<noteq> Exited \<Longrightarrow> live (ph(t := x)) = live ph"
  unfolding live_def by (rule sum.cong) auto

lemma live_exit:
  assumes "t < 4" "ph t \<noteq> Exited"
  shows "live (ph(t := Exited)) < live ph"
  unfolding live_def
  by (rule sum_strict_mono_ex1) (use assms in \<open>auto intro!: bexI [of _ t]\<close>)

lemma mutex_idle: "mutex_ok None ph \<Longrightarrow> ph t \<noteq> Busy"
  by (auto simp: mutex_ok_def)

text \<open>The single producer.\<close>

definition pinv1 :: "nat \<Rightarrow> pc_sys \<Rightarrow> bool" where
  "pinv1 N s \<longleftrightarrow> pphase s 0 \<noteq> Busy \<and> produced_item_counter s \<le> N
     \<and> (pphase s 0 = Exited \<longrightarrow> produced_item_counter s = N)"

definition pfin1 :: "pc_sys \<Rightarrow> bool" where
  "pfin1 s \<longleftrightarrow> pphase s 0 = Exited"

definition pmeas1 :: "nat \<Rightarrow> pc_sys \<Rightarrow> nat" where
  "pmeas1 N s = (N - produced_item_counter s) + (if pphase s 0 = Exited then 0 else 1)"

lemmas role_defs = put_item_def take_item_def loop_produce_def loop_exit_def producer_lock_def
  producer_put_def producer_exit_def count_consume_def ahead_count_def ahead_take_def
  consumer_lock_def consumer_take_def consumer_exit_def pview_def cview_def Let_def

interpretation producer1: producer_role n N "one_producer n N" "pinv1 N" produced_item_counter pfin1
  "pmeas1 N" for n N
proof unfold_locales
  fix s t
  show "\<exists>t. one_producer n N s t" if "pinv1 N s" "\<not> pfin1 s" "\<not> ring_full n (repo s)"
  proof -
    have "pphase s 0 = Idle" using that(1,2) by (cases "pphase s 0") (auto simp: pinv1_def pfin1_def)
    with that show ?thesis
      using one_producer.lp_produce [of s N n] one_producer.lp_exit [of s N n] by blast
  qed
qed (auto simp: pinv1_def pfin1_def pmeas1_def role_defs started_def start_sys_def elim!: one_producer.cases)

text \<open>Four producers. The item counted by the holder of the mutex is not written yet.\<close>

definition written4 :: "pc_sys \<Rightarrow> nat" where
  "written4 s = produced_item_counter s - held (p_mtx s)"

definition pinv4 :: "nat \<Rightarrow> pc_sys \<Rightarrow> bool" where
  "pinv4 N s \<longleftrightarrow> mutex_ok (p_mtx s) (pphase s) \<and> produced_item_counter s \<le> N
     \<and> held (p_mtx s) \<le> produced_item_counter s
     \<and> (\<forall>t. pphase s t = Exited \<longrightarrow> produced_item_counter s = N \<and> p_mtx s = None)"

definition pfin4 :: "pc_sys \<Rightarrow> bool" where
  "pfin4 s \<longleftrightarrow> (\<forall>t<4. pphase s t = Exited)"

definition pmeas4 :: "nat \<Rightarrow> pc_sys \<Rightarrow> nat" where
  "pmeas4 N s = 2 * (N - produced_item_counter s) + held (p_mtx s) + live (pphase s)"

lemma four_producers_pinv:
  assumes "pinv4 N s" "four_producers n N s t"
  shows "pinv4 N t"
  using assms(2,1)
  by cases (auto simp: pinv4_def role_defs mutex_ok_def held_def split: if_splits)

lemma four_producers_pmeas:
  assumes "pinv4 N s" "four_producers n N s t"
  shows "pmeas4 N t < pmeas4 N s"
  using assms(2)
proof cases
  case (mp_lock i)
  then show ?thesis by (simp add: pmeas4_def role_defs live_same held_def)
next
  case (mp_put i)
  then have "p_mtx s = Some i" using assms(1) by (auto simp: pinv4_def mutex_ok_def)
  with mp_put show ?thesis by (simp add: pmeas4_def role_defs live_same held_def)
next
  case (mp_exit i)
  then show ?thesis using live_exit [of i "pphase s"] by (simp add: pmeas4_def role_defs)
qed

lemma four_producers_progress:
  assumes "pinv4 N s" "\<not> pfin4 s" "\<not> ring_full n (repo s)"
  shows "\<exists>t. four_producers n N s t"
proof (cases "p_mtx s")
  case None
  obtain i where i: "i < 4" "pphase s i \<noteq> Exited" using assms(2) by (auto simp: pfin4_def)
  with None assms(1) have "pphase s i = Idle"
    by (cases "pphase s i") (auto simp: pinv4_def mutex_ok_def)
  with i None show ?thesis
    using four_producers.mp_lock [of i s N n] four_producers.mp_exit [of i s N n] by blast
next
  case (Some i)
  then show ?thesis
    using assms four_producers.mp_put [of i s n N] by (auto simp: pinv4_def mutex_ok_def)
qed

interpretation producer4: producer_role n N "four_producers n N" "pinv4 N" written4 pfin4 "pmeas4 N" for n N
proof unfold_locales
  fix s t
  show "repo t = repo s \<and> written4 t = written4 s
      \<or> \<not> ring_full n (repo s) \<and> repo t = ProduceItem n (int (written4 s + 1)) (repo s)
        \<and> written4 t = written4 s + 1" if "pinv4 N s" "four_producers n N s t"
    using that(2,1)
  proof cases
    case (mp_put i)
    then have "p_mtx s = Some i" "0 < produced_item_counter s"
      using that(1) by (auto simp: pinv4_def mutex_ok_def held_def)
    with mp_put show ?thesis by (simp add: written4_def role_defs held_def)
  qed (auto simp: written4_def role_defs held_def)
  show "written4 s = N" if "pinv4 N s" "pfin4 s"
  proof -
    have "pphase s 0 = Exited" using that(2) by (simp add: pfin4_def)
    with that(1) have "produced_item_counter s = N" "p_mtx s = None" unfolding pinv4_def by blast+
    then show ?thesis by (simp add: written4_def held_def)
  qed
  show "pinv4 N s \<and> written4 s = 0" if "started n s"
    using that by (auto simp: started_def start_sys_def pinv4_def written4_def mutex_ok_def held_def)
  show "written4 s \<le> N" if "pinv4 N s" using that unfolding pinv4_def written4_def by linarith
  show "cview t = cview s" if "four_producers n N s t" using that by cases (simp_all add: role_defs)
  show "pinv4 N s = pinv4 N t \<and> written4 s = written4 t \<and> pfin4 s = pfin4 t \<and> pmeas4 N s = pmeas4 N t"
    if "pview s = pview t" using that by (simp add: pview_def pinv4_def written4_def pfin4_def pmeas4_def)
qed (simp_all add: four_producers_progress four_producers_pinv four_producers_pmeas)

text \<open>The consumer of the first program.\<close>

definition cinv1 :: "nat \<Rightarrow> pc_sys \<Rightarrow> bool" where
  "cinv1 N s \<longleftrightarrow> cphase s 0 \<noteq> Busy \<and> consumed_item_counter s = length (printed s)
     \<and> consumed_item_counter s \<le> N \<and> (cphase s 0 = Exited \<longleftrightarrow> consumed_item_counter s = N)"

definition cfin1 :: "pc_sys \<Rightarrow> bool" where
  "cfin1 s \<longleftrightarrow> cphase s 0 = Exited"

definition cmeas1 :: "nat \<Rightarrow> pc_sys \<Rightarrow> nat" where
  "cmeas1 N s = N - consumed_item_counter s"

interpretation consumer1: consumer_role n "Suc N" "one_consumer n (Suc N)" "cinv1 (Suc N)" cfin1
  "cmeas1 (Suc N)" for n N
proof unfold_locales
  fix s t
  show "\<exists>t. one_consumer n (Suc N) s t"
    if "cinv1 (Suc N) s" "\<not> cfin1 s" "\<not> ring_empty (repo s) \<or> length (printed s) = Suc N"
  proof -
    have "cphase s 0 = Idle" "\<not> ring_empty (repo s)"
      using that by (cases "cphase s 0"; auto simp: cinv1_def cfin1_def)+
    then show ?thesis using one_consumer.cc_consume by blast
  qed
qed (auto simp: cinv1_def cfin1_def cmeas1_def role_defs started_def start_sys_def
    split: prod.splits if_splits elim!: one_consumer.cases)

text \<open>The consumer of the third program.\<close>

definition cinvA :: "nat \<Rightarrow> pc_sys \<Rightarrow> bool" where
  "cinvA N s \<longleftrightarrow>
     (case cphase s 0 of
        Idle \<Rightarrow> consumed_item_counter s = length (printed s) \<and> length (printed s) \<le> N
      | Busy \<Rightarrow> consumed_item_counter s = length (printed s) + 1 \<and> length (printed s) < N
      | Exited \<Rightarrow> length (printed s) = N)"

definition cmeasA :: "nat \<Rightarrow> pc_sys \<Rightarrow> nat" where
  "cmeasA N s =
     (case cphase s 0 of
        Idle \<Rightarrow> 2 * (N - length (printed s)) + 1
      | Busy \<Rightarrow> 2 * (N - length (printed s))
      | Exited \<Rightarrow> 0)"

interpretation consumerA: consumer_role n N "ahead_consumer n N" "cinvA N" cfin1 "cmeasA N" for n N
proof unfold_locales
  fix s t
  show "\<exists>t. ahead_consumer n N s t"
    if "cinvA N s" "\<not> cfin1 s" "\<not> ring_empty (repo s) \<or> length (printed s) = N"
    using that ahead_consumer.ac_count [of s n N] ahead_consumer.ac_take [of s n N]
    by (cases "cphase s 0") (auto simp: cinvA_def cfin1_def)
  show "cmeasA N t < cmeasA N s" if "cinvA N s" "ahead_consumer n N s t"
    using that(2,1) by cases (auto simp: cinvA_def cmeasA_def role_defs split: prod.splits if_splits)
qed (auto simp: cinvA_def cfin1_def cmeasA_def role_defs started_def start_sys_def
    split: prod.splits phase.splits if_splits elim!: ahead_consumer.cases)

text \<open>Four consumers.\<close>

definition cinv4 :: "nat \<Rightarrow> pc_sys \<Rightarrow> bool" where
  "cinv4 N s \<longleftrightarrow> mutex_ok (c_mtx s) (cphase s) \<and> consumed_item_counter s = length (printed s)
     \<and> consumed_item_counter s + held (c_mtx s) \<le> N
     \<and> (\<forall>t. cphase s t = Exited \<longrightarrow> consumed_item_counter s = N)"

definition cfin4 :: "pc_sys \<Rightarrow> bool" where
  "cfin4 s \<longleftrightarrow> (\<forall>t<4. cphase s t = Exited)"

definition cmeas4 :: "nat \<Rightarrow> pc_sys \<Rightarrow> nat" where
  "cmeas4 N s = 2 * (N - consumed_item_counter s) - held (c_mtx s) + live (cphase s)"

lemma four_consumers_cinv:
  assumes "cinv4 N s" "four_consumers n N s t"
  shows "cinv4 N t"
  using assms(2,1)
  by cases (auto simp: cinv4_def role_defs mutex_ok_def held_def split: if_splits prod.splits)

lemma four_consumers_cmeas:
  assumes "cinv4 N s" "four_consumers n N s t"
  shows "cmeas4 N t < cmeas4 N s"
  using assms(2)
proof cases
  case (mc_lock i)
  then show ?thesis by (simp add: cmeas4_def role_defs live_same held_def)
next
  case (mc_take i)
  then have m: "c_mtx s = Some i" "consumed_item_counter s < N"
    using assms(1) by (auto simp: cinv4_def mutex_ok_def held_def)
  then have "2 * (N - Suc (consumed_item_counter s)) < 2 * (N - consumed_item_counter s) - 1" by linarith
  with mc_take m show ?thesis by (simp add: cmeas4_def role_defs live_same held_def split: prod.splits)
next
  case (mc_exit i)
  then show ?thesis using live_exit [of i "cphase s"] by (simp add: cmeas4_def role_defs)
qed

lemma four_consumers_progress:
  assumes "cinv4 N s" "\<not> cfin4 s" "\<not> ring_empty (repo s) \<or> length (printed s) = N"
  shows "\<exists>t. four_consumers n N s t"
proof (cases "c_mtx s")
  case None
  obtain i where i: "i < 4" "cphase s i \<noteq> Exited" using assms(2) by (auto simp: cfin4_def)
  with None assms(1) have "cphase s i = Idle"
    by (cases "cphase s i") (auto simp: cinv4_def mutex_ok_def)
  with i None show ?thesis
    using four_consumers.mc_lock [of i s N n] four_consumers.mc_exit [of i s N n] by blast
next
  case (Some i)
  then have "\<not> ring_empty (repo s)" using assms(1,3) by (auto simp: cinv4_def held_def)
  then show ?thesis
    using Some assms(1) four_consumers.mc_take [of i s n N] by (auto simp: cinv4_def mutex_ok_def)
qed

interpretation consumer4: consumer_role n N "four_consumers n N" "cinv4 N" cfin4 "cmeas4 N" for n N
proof unfold_locales
  fix s t
  show "length (printed s) = N" if "cinv4 N s" "cfin4 s"
  proof -
    have "cphase s 0 = Exited" using that(2) by (simp add: cfin4_def)
    with that(1) show ?thesis unfolding cinv4_def by metis
  qed
  show "cinv4 N s" if "started n s"
    using that by (auto simp: started_def start_sys_def cinv4_def mutex_ok_def held_def)
  show "pview t = pview s" if "four_consumers n N s t"
    using that by cases (simp_all add: role_defs split: prod.splits)
  show "repo t = repo s \<and> printed t = printed s
      \<or> \<not> ring_empty (repo s) \<and> repo t = snd (ConsumeItem n (repo s))
        \<and> printed t = printed s @ [fst (ConsumeItem n (repo s))]" if "four_consumers n N s t"
    using that by cases (simp_all add: role_defs split: prod.splits)
  show "cinv4 N s = cinv4 N t \<and> cfin4 s = cfin4 t \<and> cmeas4 N s = cmeas4 N t" if "cview s = cview t"
    using that by (simp add: cview_def cinv4_def cfin4_def cmeas4_def)
qed (simp_all add: four_consumers_progress four_consumers_cinv four_consumers_cmeas)

section \<open>The programs\<close>

interpretation spsc: item_program n "Suc N" "one_producer n (Suc N)" "pinv1 (Suc N)" produced_item_counter
  pfin1 "pmeas1 (Suc N)" "one_consumer n (Suc N)" "cinv1 (Suc N)" cfin1 "cmeas1 (Suc N)" for n N
  by (rule item_program.intro) unfold_locales

interpretation spmc: item_program n N "one_producer n N" "pinv1 N" produced_item_counter
  pfin1 "pmeas1 N" "four_consumers n N" "cinv4 N" cfin4 "cmeas4 N" for n N
  by (rule item_program.intro) unfold_locales

interpretation mpsc: item_program n N "four_producers n N" "pinv4 N" written4
  pfin4 "pmeas4 N" "ahead_consumer n N" "cinvA N" cfin1 "cmeasA N" for n N
  by (rule item_program.intro) unfold_locales

interpretation mpmc: item_program n N "four_producers n N" "pinv4 N" written4
  pfin4 "pmeas4 N" "four_consumers n N" "cinv4 N" cfin4 "cmeas4 N" for n N
  by (rule item_program.intro) unfold_locales

lemma program_steps:
  "spsc_step n (Suc N) = spsc.step n N" "spmc_step n N = spmc.step n N"
  "mpsc_step n N = mpsc.step n N" "mpmc_step n N = mpmc.step n N"
  by (simp_all add: fun_eq_iff spsc_step_def spmc_step_def mpsc_step_def mpmc_step_def
      spsc.step_def spmc.step_def mpsc.step_def mpmc.step_def)

text \<open>
  The single-producer single-consumer program (10 slots, 1000 items), in every interleaving:
  the consumer prints \<open>1, 2, 3, ...\<close> in this order and the ring holds the items in between.
  A state in which nothing can happen is the end of the program: both threads have exited and
  all 1000 items were printed.
\<close>

theorem spsc_delivers:
  assumes "reach (started 10) (spsc_step 10 1000) s"
  shows "printed s = map int [1..<length (printed s) + 1]
    \<and> ring_contents 10 (repo s) = map int [length (printed s) + 1..<produced_item_counter s + 1]
    \<and> ((\<forall>t. \<not> spsc_step 10 1000 s t) \<longrightarrow>
         pphase s 0 = Exited \<and> cphase s 0 = Exited \<and> printed s = map int [1..<1001])"
proof -
  have N: "1000 = Suc 999" by simp
  have r: "reach (started 10) (spsc.step 10 999) s"
    using assms unfolding N program_steps .
  show ?thesis
    using spsc.in_order [OF r] spsc.complete [OF r]
    unfolding N program_steps by (simp add: pfin1_def cfin1_def del: upt_Suc)
qed

text \<open>
  C13. The multi-producer multi-consumer program (4 slots, 10 items, four threads of each role):
  no interleaving loses, repeats or reorders an item, no item is printed before its turn, and the
  threads cannot block each other for good: where no step is possible, all eight threads have
  exited and the items \<open>1\<close> to \<open>10\<close> have been printed.
\<close>

theorem mpmc_delivers:
  assumes "reach (started 4) (mpmc_step 4 10) s"
  shows "printed s = map int [1..<length (printed s) + 1]
    \<and> ring_contents 4 (repo s) = map int [length (printed s) + 1..<written4 s + 1]
    \<and> ((\<forall>t. \<not> mpmc_step 4 10 s t) \<longrightarrow>
         (\<forall>i<4. pphase s i = Exited \<and> cphase s i = Exited) \<and> printed s = map int [1..<11])"
  using mpmc.in_order [of 4 10 s] mpmc.complete [of 4 10 s] assms
  unfolding program_steps by (simp add: pfin4_def cfin4_def del: upt_Suc)

text \<open>
  The two mixed programs (4 slots, 10 items): items are printed in order and a program that
  cannot go on has printed all of them.
\<close>

theorem mixed_programs_deliver:
  "(reach (started 4) (spmc_step 4 10) s \<longrightarrow>
      printed s = map int [1..<length (printed s) + 1]
      \<and> ((\<forall>t. \<not> spmc_step 4 10 s t) \<longrightarrow> printed s = map int [1..<11]))
   \<and> (reach (started 4) (mpsc_step 4 10) s \<longrightarrow>
      printed s = map int [1..<length (printed s) + 1]
      \<and> ((\<forall>t. \<not> mpsc_step 4 10 s t) \<longrightarrow> printed s = map int [1..<11]))"
  using spmc.in_order(1) [of 4 10 s] spmc.complete [of 4 10 s]
    mpsc.in_order(1) [of 4 10 s] mpsc.complete [of 4 10 s]
  unfolding program_steps by (simp del: upt_Suc)


text \<open>Witnesses: the first two steps of the first producer, and the start states.\<close>

definition demo_start :: pc_sys where
  "demo_start = start_sys (replicate 4 0)"

lemma demo_started: "started 4 demo_start"
  by (auto simp: started_def demo_start_def intro!: exI [of _ "replicate 4 0"])

definition demo_locked :: pc_sys where
  "demo_locked = producer_lock 0 demo_start"

lemma demo_lock_step: "four_producers 4 10 demo_start demo_locked"
  unfolding demo_locked_def
  by (rule four_producers.mp_lock) (simp_all add: demo_start_def start_sys_def)

theorem mpmc_delivers_witness:
  "ring_contents 4 (repo demo_locked) = [] \<and> printed demo_locked = []"
proof -
  have "reach (started 4) (mpmc_step 4 10) demo_locked"
    using demo_started demo_lock_step
    by (intro reach_one [where s = demo_start]) (simp_all add: mpmc_step_def)
  from mpmc_delivers [OF this] show ?thesis
    by (simp add: written4_def demo_locked_def demo_start_def start_sys_def producer_lock_def held_def)
qed


theorem mixed_programs_deliver_witness: "printed demo_start = []"
proof -
  have "reach (started 4) (spmc_step 4 10) demo_start" using demo_started by (rule reach.reach_init)
  then have "printed demo_start = map int [1..<length (printed demo_start) + 1]"
    using mixed_programs_deliver [of demo_start] by blast
  then show ?thesis by (simp add: demo_start_def start_sys_def)
qed

definition demo_start10 :: pc_sys where
  "demo_start10 = start_sys (replicate 10 0)"

theorem spsc_delivers_witness:
  "ring_contents 10 (repo (loop_produce 10 demo_start10)) = [1]"
proof -
  have "started 10 demo_start10"
    by (auto simp: started_def demo_start10_def intro!: exI [of _ "replicate 10 0"])
  moreover have "one_producer 10 1000 demo_start10 (loop_produce 10 demo_start10)"
    by (rule one_producer.lp_produce)
      (simp_all add: demo_start10_def start_sys_def ring_full_def InitItemRepository_def)
  ultimately have "reach (started 10) (spsc_step 10 1000) (loop_produce 10 demo_start10)"
    by (intro reach_one [where s = demo_start10]) (simp_all add: spsc_step_def)
  from spsc_delivers [OF this] show ?thesis
    by (simp add: loop_produce_def put_item_def demo_start10_def start_sys_def Let_def)
qed

end
