(* ===== verification/Thread_Pool.thy ===== *)
theory Thread_Pool
  imports Transition
begin

text \<open>
  The C++ thread pools under \<^verbatim>\<open>src/zl_threadpool\<close>. Tasks are numbers; \<open>submitted\<close> records the
  tasks a pool accepted and \<open>begun\<close> the order in which workers took them.

  A critical section of the pool's mutex is one step. A worker that calls \<open>wait\<close> on the
  condition variable releases the mutex and sleeps until a notification, which is a step of its
  own that comes after the section that causes it; it may also wake spuriously. A worker that is
  woken takes the mutex again and evaluates its condition again.
\<close>

datatype wphase = Ready | Sleeping | Running nat | Finished

record pool =
  tasks :: "nat list"
  stop :: bool
  worker :: "nat \<Rightarrow> wphase"
  wakeups :: nat
  broadcasts :: nat
  submitted :: "nat list"
  begun :: "nat list"

definition set_worker :: "nat \<Rightarrow> wphase \<Rightarrow> pool \<Rightarrow> pool" where
  "set_worker i w p = p\<lparr>worker := (worker p)(i := w)\<rparr>"

text \<open>\<open>n\<close> workers start; a number of \<open>n\<close> or more is no worker and counts as finished.\<close>

definition new_pool :: "nat \<Rightarrow> pool" where
  "new_pool n =
     \<lparr>tasks = [], stop = False, worker = (\<lambda>i. if i < n then Ready else Finished), wakeups = 0,
      broadcasts = 0, submitted = [], begun = []\<rparr>"

definition push_task :: "nat \<Rightarrow> pool \<Rightarrow> pool" where
  "push_task t p = p\<lparr>tasks := tasks p @ [t], submitted := submitted p @ [t], wakeups := wakeups p + 1\<rparr>"

text \<open>\<open>task = std::move(tasks.front()); tasks.pop();\<close>\<close>

definition pop_task :: "nat \<Rightarrow> pool \<Rightarrow> pool" where
  "pop_task i p =
     (set_worker i (Running (hd (tasks p))) p)\<lparr>tasks := tl (tasks p), begun := begun p @ [hd (tasks p)]\<rparr>"

definition notify_one :: "nat \<Rightarrow> pool \<Rightarrow> pool" where
  "notify_one i p = set_worker i Ready (p\<lparr>wakeups := wakeups p - 1\<rparr>)"

definition notify_none :: "pool \<Rightarrow> pool" where
  "notify_none p = p\<lparr>wakeups := wakeups p - 1\<rparr>"

definition notify_all :: "pool \<Rightarrow> pool" where
  "notify_all p =
     p\<lparr>broadcasts := broadcasts p - 1,
       worker := (\<lambda>i. if worker p i = Sleeping then Ready else worker p i)\<rparr>"

section \<open>03_ThreadPool\<close>

text \<open>The critical section of a worker's loop.\<close>

definition tp_worker :: "nat \<Rightarrow> pool \<Rightarrow> pool" where
  "tp_worker i p =
     (if \<not> (stop p \<or> tasks p \<noteq> []) then set_worker i Sleeping p
      else if stop p \<and> tasks p = [] then set_worker i Finished p
      else pop_task i p)"

text \<open>\<open>enqueue\<close>; \<open>None\<close> is the exception.\<close>

definition tp_enqueue :: "nat \<Rightarrow> pool \<Rightarrow> pool option" where
  "tp_enqueue t p = (if stop p then None else Some (push_task t p))"

text \<open>The destructor sets the flag under the mutex, then notifies all.\<close>

definition tp_destroy :: "pool \<Rightarrow> pool" where
  "tp_destroy p = p\<lparr>stop := True, broadcasts := broadcasts p + 1\<rparr>"

inductive tp_step :: "pool \<Rightarrow> pool \<Rightarrow> bool" where
  tp_loop: "worker p i = Ready \<Longrightarrow> tp_step p (tp_worker i p)"
| tp_done: "worker p i = Running t \<Longrightarrow> tp_step p (set_worker i Ready p)"
| tp_spurious: "worker p i = Sleeping \<Longrightarrow> tp_step p (set_worker i Ready p)"
| tp_add: "tp_enqueue t p = Some q \<Longrightarrow> tp_step p q"
| tp_notify: "0 < wakeups p \<Longrightarrow> worker p i = Sleeping \<Longrightarrow> tp_step p (notify_one i p)"
| tp_notify_none: "0 < wakeups p \<Longrightarrow> \<forall>i. worker p i \<noteq> Sleeping \<Longrightarrow> tp_step p (notify_none p)"
| tp_stop: "\<not> stop p \<Longrightarrow> tp_step p (tp_destroy p)"
| tp_broadcast: "0 < broadcasts p \<Longrightarrow> tp_step p (notify_all p)"

section \<open>ThreadPoolCpp14\<close>

text \<open>The detached workers hold the mutex around their loop, except while a task runs.\<close>

definition c14_worker :: "nat \<Rightarrow> pool \<Rightarrow> pool" where
  "c14_worker i p =
     (if tasks p \<noteq> [] then pop_task i p
      else if stop p then set_worker i Finished p
      else set_worker i Sleeping p)"

definition c14_execute :: "nat \<Rightarrow> pool \<Rightarrow> pool" where
  "c14_execute t p = push_task t p"

definition c14_destroy :: "pool \<Rightarrow> pool" where
  "c14_destroy p = p\<lparr>stop := True, broadcasts := broadcasts p + 1\<rparr>"

text \<open>No member function is called once the destructor runs.\<close>

inductive c14_step :: "pool \<Rightarrow> pool \<Rightarrow> bool" where
  c14_loop: "worker p i = Ready \<Longrightarrow> c14_step p (c14_worker i p)"
| c14_done: "worker p i = Running t \<Longrightarrow> c14_step p (set_worker i Ready p)"
| c14_spurious: "worker p i = Sleeping \<Longrightarrow> c14_step p (set_worker i Ready p)"
| c14_add: "\<not> stop p \<Longrightarrow> c14_step p (c14_execute t p)"
| c14_notify: "0 < wakeups p \<Longrightarrow> worker p i = Sleeping \<Longrightarrow> c14_step p (notify_one i p)"
| c14_notify_none: "0 < wakeups p \<Longrightarrow> \<forall>i. worker p i \<noteq> Sleeping \<Longrightarrow> c14_step p (notify_none p)"
| c14_stop: "\<not> stop p \<Longrightarrow> c14_step p (c14_destroy p)"
| c14_broadcast: "0 < broadcasts p \<Longrightarrow> c14_step p (notify_all p)"

lemma c14_worker_eq: "c14_worker i p = tp_worker i p"
  by (auto simp: c14_worker_def tp_worker_def)

lemma c14_destroy_eq: "c14_destroy p = tp_destroy p"
  by (simp add: c14_destroy_def tp_destroy_def)

lemma c14_step_tp: "c14_step p q \<Longrightarrow> tp_step p q"
  by (induction rule: c14_step.induct)
    (auto simp: c14_worker_eq c14_execute_def c14_destroy_eq tp_enqueue_def intro: tp_step.intros)

lemma c14_reach_tp: "reach init c14_step p \<Longrightarrow> reach init tp_step p"
  by (induction rule: reach.induct) (auto intro: reach.intros c14_step_tp)

section \<open>What the draining pools guarantee\<close>

text \<open>
  Order: what was submitted is what was begun, then what is queued. Wakefulness: a queued task
  with nobody awake has a notification on the way; after the flag is set and the notification
  has been delivered nobody sleeps. A worker only finishes when all is done.
\<close>

definition awake :: "pool \<Rightarrow> nat \<Rightarrow> bool" where
  "awake p i \<longleftrightarrow> worker p i = Ready \<or> (\<exists>t. worker p i = Running t)"

definition pool_inv :: "nat \<Rightarrow> pool \<Rightarrow> bool" where
  "pool_inv n p \<longleftrightarrow>
     submitted p = begun p @ tasks p
     \<and> (\<forall>i<n. worker p i = Finished \<longrightarrow> stop p \<and> tasks p = [])
     \<and> (\<forall>i\<ge>n. worker p i = Finished)
     \<and> (tasks p \<noteq> [] \<and> (\<exists>i. worker p i = Sleeping) \<longrightarrow>
          (\<exists>i. awake p i) \<or> 0 < wakeups p \<or> 0 < broadcasts p)
     \<and> (stop p \<and> (\<exists>i. worker p i = Sleeping) \<longrightarrow> 0 < broadcasts p)"

lemmas pool_defs = set_worker_def push_task_def pop_task_def notify_one_def notify_none_def
  notify_all_def tp_destroy_def tp_enqueue_def awake_def

lemma worker_index: "pool_inv n p \<Longrightarrow> worker p i \<noteq> Finished \<Longrightarrow> i < n"
  by (auto simp: pool_inv_def not_less [symmetric])

lemma pool_inv_worker:
  assumes "pool_inv n p" "worker p i = Ready"
  shows "pool_inv n (tp_worker i p)"
proof -
  have "i < n" using worker_index [OF assms(1)] assms(2) by simp
  consider (sleep) "\<not> stop p" "tasks p = []" | (finish) "stop p" "tasks p = []"
    | (take) t ts where "tasks p = t # ts"
    by (cases "tasks p") auto
  then show ?thesis
  proof cases
    case sleep
    with assms \<open>i < n\<close> show ?thesis by (auto simp: pool_inv_def tp_worker_def pool_defs)
  next
    case finish
    with assms \<open>i < n\<close> show ?thesis by (auto simp: pool_inv_def tp_worker_def pool_defs)
  next
    case take
    then have "tp_worker i p = pop_task i p" by (simp add: tp_worker_def)
    with take assms \<open>i < n\<close> show ?thesis
      unfolding pool_inv_def by (auto simp: pool_defs)
  qed
qed

lemma pool_inv_ready:
  assumes "pool_inv n p" "worker p i \<noteq> Finished"
  shows "pool_inv n (set_worker i Ready p)"
  using assms worker_index [OF assms] unfolding pool_inv_def by (auto simp: pool_defs)

lemma pool_inv_step:
  assumes "pool_inv n p" "tp_step p q"
  shows "pool_inv n q"
  using assms(2)
proof cases
  case (tp_notify i)
  then have "pool_inv n (set_worker i Ready p)" using assms(1) by (intro pool_inv_ready) simp_all
  with tp_notify show ?thesis
    unfolding pool_inv_def by (auto simp: pool_defs)
next
  case tp_broadcast
  have "\<forall>i. worker q i \<noteq> Sleeping" using tp_broadcast by (simp add: notify_all_def)
  with tp_broadcast assms(1) show ?thesis
    unfolding pool_inv_def by (auto simp: notify_all_def)
next
  case (tp_add t)
  then show ?thesis using assms(1) unfolding pool_inv_def by (auto simp: pool_defs split: if_splits)
next
  case tp_notify_none
  then show ?thesis using assms(1) unfolding pool_inv_def by (auto simp: pool_defs)
next
  case tp_stop
  then show ?thesis using assms(1) unfolding pool_inv_def by (auto simp: pool_defs)
qed (use assms(1) in \<open>auto intro: pool_inv_worker pool_inv_ready\<close>)

interpretation draining: invariant_system "\<lambda>p. p = new_pool n" tp_step "pool_inv n" for n
proof unfold_locales
  show "pool_inv n p" if "p = new_pool n" for p
    unfolding that by (auto simp: pool_inv_def new_pool_def awake_def)
qed (rule pool_inv_step)

text \<open>The order in which tasks begin, and that no wake-up is lost.\<close>

definition drains :: "nat \<Rightarrow> pool \<Rightarrow> bool" where
  "drains n p \<longleftrightarrow>
     submitted p = begun p @ tasks p
     \<and> (0 < n \<and> (\<forall>i<n. worker p i = Finished) \<longrightarrow> stop p \<and> begun p = submitted p)
     \<and> (stop p \<and> (\<exists>i<n. worker p i = Sleeping) \<longrightarrow> 0 < broadcasts p)
     \<and> (tasks p \<noteq> [] \<and> 0 < n \<longrightarrow> (\<exists>i<n. awake p i) \<or> 0 < wakeups p \<or> 0 < broadcasts p)"

lemma pool_inv_drains:
  assumes "pool_inv n p"
  shows "drains n p"
proof -
  have "(\<exists>i<n. awake p i) \<or> 0 < wakeups p \<or> 0 < broadcasts p" if "tasks p \<noteq> []" "0 < n"
  proof (cases "\<exists>i. awake p i")
    case True
    then obtain i where "awake p i" by blast
    moreover from this have "i < n" using worker_index [OF assms, of i] by (auto simp: awake_def)
    ultimately show ?thesis by blast
  next
    case False
    have "worker p 0 \<noteq> Finished" using assms that by (auto simp: pool_inv_def)
    with False have "worker p 0 = Sleeping" by (cases "worker p 0") (auto simp: awake_def)
    then have "\<exists>i. worker p i = Sleeping" by blast
    with that(1) assms have "(\<exists>i. awake p i) \<or> 0 < wakeups p \<or> 0 < broadcasts p"
      by (simp add: pool_inv_def)
    with False show ?thesis by auto
  qed
  moreover have "stop p \<and> begun p = submitted p" if "0 < n" "\<forall>i<n. worker p i = Finished"
  proof -
    have "worker p 0 = Finished" using that by blast
    with \<open>0 < n\<close> assms show ?thesis by (auto simp: pool_inv_def)
  qed
  moreover have "0 < broadcasts p" if "stop p" "\<exists>i<n. worker p i = Sleeping"
    using assms that unfolding pool_inv_def by blast
  moreover have "submitted p = begun p @ tasks p" using assms by (simp add: pool_inv_def)
  ultimately show ?thesis unfolding drains_def by simp
qed

text \<open>
  C15. The pool of 03_ThreadPool with \<open>n\<close> workers, in every interleaving of callers, workers,
  notifications, spurious wake-ups and the destructor: tasks begin in the order they were
  submitted, each at most once; when all workers have finished (and \<open>join\<close> returns) every
  accepted task was begun; no task is stranded in the queue with all workers asleep and no
  notification pending, and after the stop flag is set nobody sleeps unless the broadcast is
  still to come, so the joins of the destructor cannot hang.
\<close>

theorem ThreadPool_drains:
  assumes "reach (\<lambda>p. p = new_pool n) tp_step p"
  shows "drains n p"
  by (rule pool_inv_drains [OF draining.invariant [OF assms]])

text \<open>The C++14 pool, whose workers are detached, gives the same guarantees.\<close>

theorem ThreadPoolCpp14_drains:
  assumes "reach (\<lambda>p. p = new_pool n) c14_step p"
  shows "drains n p"
  by (rule pool_inv_drains [OF draining.invariant [OF c14_reach_tp [OF assms]]])

theorem ThreadPool_drains_witness: "drains 2 (push_task 7 (new_pool 2))"
  by (rule ThreadPool_drains, rule reach_one [where s = "new_pool 2"], simp, rule tp_step.tp_add)
    (simp add: tp_enqueue_def new_pool_def)

theorem ThreadPoolCpp14_drains_witness: "drains 2 (c14_execute 7 (new_pool 2))"
  by (rule ThreadPoolCpp14_drains, rule reach_one [where s = "new_pool 2"], simp, rule c14_step.c14_add)
    (simp add: new_pool_def)

section \<open>Pools that stop without the mutex\<close>

text \<open>
  In the C++11, C++98 and C++03 pools the flag is set outside the mutex. Testing the condition and
  falling asleep are then two steps for the flag, although the mutex is held across both: a worker
  in phase \<open>U_checked\<close> holds it. The boolean \<open>u_stop\<close> is \<open>stop_\<close> or \<open>!isRunning_\<close>; \<open>u_closed\<close> says that the
  code that broadcasts (the C++11 destructor, \<open>stop\<close> of the others) was run.
\<close>

datatype uphase = U_top | U_lock | U_checked | U_sleep | U_run nat | U_exit

record upool =
  u_tasks :: "nat list"
  u_stop :: bool
  u_closed :: bool
  u_worker :: "nat \<Rightarrow> uphase"
  u_mutex :: "nat option"
  u_wakeups :: nat
  u_broadcasts :: nat
  u_submitted :: "nat list"
  u_begun :: "nat list"

definition new_upool :: "nat \<Rightarrow> upool" where
  "new_upool n =
     \<lparr>u_tasks = [], u_stop = False, u_closed = False, u_worker = (\<lambda>i. if i < n then U_top else U_exit), u_mutex = None,
      u_wakeups = 0, u_broadcasts = 0, u_submitted = [], u_begun = []\<rparr>"

text \<open>The C++11 constructor takes the number of processors \<open>hw\<close> when it is given none.\<close>

definition c11_threads :: "int \<Rightarrow> nat \<Rightarrow> nat" where
  "c11_threads n hw = (if n \<le> 0 then (if hw = 0 then 2 else hw) else nat n)"

definition new_c11 :: "int \<Rightarrow> nat \<Rightarrow> upool" where
  "new_c11 n hw = new_upool (c11_threads n hw)"

definition u_set :: "nat \<Rightarrow> uphase \<Rightarrow> upool \<Rightarrow> upool" where
  "u_set i w p = p\<lparr>u_worker := (u_worker p)(i := w)\<rparr>"

text \<open>What a worker that holds the mutex does, by the flag and whether the queue is empty.\<close>

datatype decision = D_wait | D_exit | D_retry | D_task

definition c11_decide :: "bool \<Rightarrow> bool \<Rightarrow> decision" where
  "c11_decide stopped no_task =
     (if \<not> (stopped \<or> \<not> no_task) then D_wait else if stopped then D_exit else D_task)"

definition take98 :: "bool \<Rightarrow> bool \<Rightarrow> decision" where
  "take98 stopped no_task =
     (if no_task \<and> \<not> stopped then D_wait
      else if stopped then D_exit
      else if no_task then D_retry
      else D_task)"

definition take03 :: "bool \<Rightarrow> bool \<Rightarrow> decision" where
  "take03 stopped no_task =
     (if no_task \<and> \<not> stopped then D_wait else if stopped then D_exit else D_task)"

definition u_pop :: "nat \<Rightarrow> upool \<Rightarrow> upool" where
  "u_pop i p =
     (u_set i (U_run (hd (u_tasks p))) p)\<lparr>u_tasks := tl (u_tasks p), u_begun := u_begun p @ [hd (u_tasks p)]\<rparr>"

definition u_section :: "(bool \<Rightarrow> bool \<Rightarrow> decision) \<Rightarrow> nat \<Rightarrow> upool \<Rightarrow> upool" where
  "u_section decide i p =
     (case decide (u_stop p) (u_tasks p = []) of
        D_wait \<Rightarrow> (u_set i U_checked p)\<lparr>u_mutex := Some i\<rparr>
      | D_exit \<Rightarrow> u_set i U_exit p
      | D_retry \<Rightarrow> p
      | D_task \<Rightarrow> u_pop i p)"

text \<open>The loop condition in front of the section.\<close>

definition u_loop :: "nat \<Rightarrow> upool \<Rightarrow> upool" where
  "u_loop i p = u_set i (if u_stop p then U_exit else U_lock) p"

definition u_wait :: "nat \<Rightarrow> upool \<Rightarrow> upool" where
  "u_wait i p = (u_set i U_sleep p)\<lparr>u_mutex := None\<rparr>"

text \<open>The C++11 pool throws when a task is added to a stopped pool, the others accept it.\<close>

definition u_add :: "bool \<Rightarrow> nat \<Rightarrow> upool \<Rightarrow> upool option" where
  "u_add rejects t p =
     (if rejects \<and> u_stop p then None
      else Some (p\<lparr>u_tasks := u_tasks p @ [t], u_submitted := u_submitted p @ [t],
                   u_wakeups := u_wakeups p + 1\<rparr>))"

text \<open>
  \<open>stop\<close> of the C++98 and C++03 pools returns at once when the pool does not run. The C++11 pool's
  \<open>stop\<close> only sets the flag; its destructor calls it and notifies in any case.
\<close>

definition u_halt :: "upool \<Rightarrow> upool" where
  "u_halt p = p\<lparr>u_stop := True, u_closed := True, u_broadcasts := u_broadcasts p + 1\<rparr>"

definition stop98 :: "upool \<Rightarrow> upool option" where
  "stop98 p = (if u_stop p then None else Some (u_halt p))"

definition c11_stop :: "upool \<Rightarrow> upool" where
  "c11_stop p = p\<lparr>u_stop := True\<rparr>"

definition c11_destroy :: "upool \<Rightarrow> upool option" where
  "c11_destroy p = (if u_closed p then None else Some (u_halt p))"

definition u_notify_all :: "upool \<Rightarrow> upool" where
  "u_notify_all p =
     p\<lparr>u_broadcasts := u_broadcasts p - 1,
       u_worker := (\<lambda>i. if u_worker p i = U_sleep then U_lock else u_worker p i)\<rparr>"

text \<open>The second argument of the relation is true for the C++11 pool. An object is destroyed once.\<close>

inductive u_step :: "(bool \<Rightarrow> bool \<Rightarrow> decision) \<Rightarrow> bool \<Rightarrow> upool \<Rightarrow> upool \<Rightarrow> bool" for decide rejects where
  us_loop: "u_worker p i = U_top \<Longrightarrow> u_step decide rejects p (u_loop i p)"
| us_section: "u_worker p i = U_lock \<Longrightarrow> u_mutex p = None \<Longrightarrow> u_step decide rejects p (u_section decide i p)"
| us_wait: "u_worker p i = U_checked \<Longrightarrow> u_step decide rejects p (u_wait i p)"
| us_done: "u_worker p i = U_run t \<Longrightarrow> u_step decide rejects p (u_set i U_top p)"
| us_spurious: "u_worker p i = U_sleep \<Longrightarrow> u_step decide rejects p (u_set i U_lock p)"
| us_add: "u_mutex p = None \<Longrightarrow> u_add rejects t p = Some q \<Longrightarrow> u_step decide rejects p q"
| us_notify: "0 < u_wakeups p \<Longrightarrow> u_worker p i = U_sleep \<Longrightarrow>
    u_step decide rejects p (u_set i U_lock (p\<lparr>u_wakeups := u_wakeups p - 1\<rparr>))"
| us_notify_none: "0 < u_wakeups p \<Longrightarrow> \<forall>i. u_worker p i \<noteq> U_sleep \<Longrightarrow>
    u_step decide rejects p (p\<lparr>u_wakeups := u_wakeups p - 1\<rparr>)"
| us_stop: "(if rejects then c11_destroy p else stop98 p) = Some q \<Longrightarrow> u_step decide rejects p q"
| us_flag: "rejects \<Longrightarrow> \<not> u_closed p \<Longrightarrow> u_step decide rejects p (c11_stop p)"
| us_broadcast: "0 < u_broadcasts p \<Longrightarrow> u_step decide rejects p (u_notify_all p)"

definition c11_step :: "upool \<Rightarrow> upool \<Rightarrow> bool" where
  "c11_step = u_step c11_decide True"

definition cpp98_step :: "upool \<Rightarrow> upool \<Rightarrow> bool" where
  "cpp98_step = u_step take98 False"

definition cpp03_step :: "upool \<Rightarrow> upool \<Rightarrow> bool" where
  "cpp03_step = u_step take03 False"

text \<open>A worker only takes a task from a queue that has one; \<open>decide\<close> of all three pools.\<close>

definition sound_decide :: "(bool \<Rightarrow> bool \<Rightarrow> decision) \<Rightarrow> bool" where
  "sound_decide decide \<longleftrightarrow>
     (\<forall>s e. decide s e = D_task \<longrightarrow> \<not> e \<and> \<not> s) \<and> decide False True = D_wait"

lemma sound_decides: "sound_decide c11_decide" "sound_decide take98" "sound_decide take03"
  by (auto simp: sound_decide_def c11_decide_def take98_def take03_def split: if_splits)

lemmas u_defs = u_set_def u_pop_def u_section_def u_loop_def u_wait_def u_add_def u_halt_def stop98_def
  c11_stop_def c11_destroy_def u_notify_all_def

definition u_order :: "upool \<Rightarrow> bool" where
  "u_order p \<longleftrightarrow> u_submitted p = u_begun p @ u_tasks p"

lemma u_order_step:
  assumes "sound_decide decide" "u_order p" "u_step decide rejects p q"
  shows "u_order q"
  using assms(3)
proof cases
  case (us_section i)
  then show ?thesis
  proof (cases "decide (u_stop p) (u_tasks p = [])")
    case D_task
    then have "u_tasks p \<noteq> []" using assms(1) by (auto simp: sound_decide_def)
    with D_task us_section assms(2) show ?thesis by (simp add: u_order_def u_defs)
  qed (use us_section assms(2) in \<open>simp_all add: u_order_def u_defs\<close>)
qed (use assms(2) in \<open>auto simp: u_order_def u_defs split: if_splits\<close>)

interpretation c11: invariant_system "\<lambda>p. p = new_upool n" c11_step u_order for n
  by unfold_locales
    (simp add: u_order_def new_upool_def, auto simp: c11_step_def intro: u_order_step sound_decides)

interpretation cpp98: invariant_system "\<lambda>p. p = new_upool n" cpp98_step u_order for n
  by unfold_locales
    (simp add: u_order_def new_upool_def, auto simp: cpp98_step_def intro: u_order_step sound_decides)

interpretation cpp03: invariant_system "\<lambda>p. p = new_upool n" cpp03_step u_order for n
  by unfold_locales
    (simp add: u_order_def new_upool_def, auto simp: cpp03_step_def intro: u_order_step sound_decides)

text \<open>
  The C++11, C++98 and C++03 pools begin tasks in the order of submission and none twice, in
  every interleaving.
\<close>

theorem unsynchronised_pools_fifo:
  assumes "reach (\<lambda>p. p = new_c11 k hw) c11_step p \<or> reach (\<lambda>p. p = new_upool n) cpp98_step p
    \<or> reach (\<lambda>p. p = new_upool n) cpp03_step p"
  shows "u_submitted p = u_begun p @ u_tasks p"
  using assms c11.invariant cpp98.invariant cpp03.invariant unfolding u_order_def new_c11_def by blast

theorem unsynchronised_pools_fifo_witness: "u_submitted (new_upool 3) = u_begun (new_upool 3) @ u_tasks (new_upool 3)"
  by (rule unsynchronised_pools_fifo [of 3 0]) (auto simp: new_c11_def c11_threads_def intro: reach.reach_init)

text \<open>The run that loses the notification, with one worker.\<close>

definition slept :: upool where
  "slept =
     \<lparr>u_tasks = [], u_stop = True, u_closed = True, u_worker = (\<lambda>i. if i = 0 then U_sleep else U_exit), u_mutex = None,
      u_wakeups = 0, u_broadcasts = 0, u_submitted = [], u_begun = []\<rparr>"

lemma slept_reach:
  assumes "sound_decide decide"
  shows "reach (\<lambda>p. p = new_upool 1) (u_step decide rejects) slept"
proof -
  define p1 where "p1 = u_loop 0 (new_upool 1)"
  define p2 where "p2 = u_section decide 0 p1"
  define p3 where "p3 = u_halt p2"
  define p4 where "p4 = u_notify_all p3"
  let ?r = "reach (\<lambda>p. p = new_upool 1) (u_step decide rejects)"
  have d: "decide False True = D_wait" using assms by (simp add: sound_decide_def)
  note defs = p1_def p2_def p3_def p4_def u_defs new_upool_def d
  have "?r p1" unfolding p1_def
    by (rule reach_one [where s = "new_upool 1"], simp, rule us_loop) (simp add: new_upool_def)
  then have "?r p2" unfolding p2_def
    by (rule reach.reach_step) (rule us_section; simp add: defs)
  then have "?r p3" unfolding p3_def
    by (rule reach.reach_step) (rule us_stop; cases rejects; simp add: defs)
  then have "?r p4" unfolding p4_def
    by (rule reach.reach_step) (rule us_broadcast; simp add: defs)
  then have "?r (u_wait 0 p4)"
    by (rule reach.reach_step) (rule us_wait; simp add: defs)
  moreover have "u_wait 0 p4 = slept" by (auto simp: defs slept_def fun_eq_iff)
  ultimately show ?thesis by simp
qed

lemma slept_stuck:
  assumes "u_step decide rejects slept q"
  shows "q = u_set 0 U_lock slept \<or> (\<exists>t. u_add rejects t slept = Some q)"
  using assms by cases (auto simp: slept_def c11_destroy_def stop98_def split: if_splits)

text \<open>
  These pools can hang when they are stopped: a state can be reached in which the stop flag is
  set, the broadcast has been sent, the only worker sleeps, and nothing but a spurious wake-up
  or a further task (which the C++11 pool rejects) can happen. The destructor, or \<open>stop\<close>, then
  waits in \<open>join\<close> for good.
\<close>

theorem unsynchronised_stop_hangs:
  "reach (\<lambda>p. p = new_c11 1 hw) c11_step slept
   \<and> reach (\<lambda>p. p = new_upool 1) cpp98_step slept
   \<and> reach (\<lambda>p. p = new_upool 1) cpp03_step slept
   \<and> u_stop slept \<and> u_broadcasts slept = 0 \<and> u_worker slept 0 = U_sleep
   \<and> {q. c11_step slept q} = {u_set 0 U_lock slept}
   \<and> {q. cpp98_step slept q} \<subseteq> {u_set 0 U_lock slept} \<union> {q. \<exists>t. u_add False t slept = Some q}
   \<and> {q. cpp03_step slept q} \<subseteq> {u_set 0 U_lock slept} \<union> {q. \<exists>t. u_add False t slept = Some q}"
proof -
  have "{q. c11_step slept q} = {u_set 0 U_lock slept}"
  proof (intro equalityI subsetI)
    fix q assume "q \<in> {q. c11_step slept q}"
    then show "q \<in> {u_set 0 U_lock slept}"
      using slept_stuck [of c11_decide True q] by (auto simp: c11_step_def u_add_def slept_def)
  qed (auto simp: c11_step_def slept_def intro: us_spurious)
  moreover have "{q. u_step decide False slept q}
      \<subseteq> {u_set 0 U_lock slept} \<union> {q. \<exists>t. u_add False t slept = Some q}" for decide
    using slept_stuck [of decide False] by blast
  ultimately show ?thesis
    using slept_reach [OF sound_decides(1)] slept_reach [OF sound_decides(2)]
      slept_reach [OF sound_decides(3)]
    unfolding c11_step_def cpp98_step_def cpp03_step_def
    by (simp add: slept_def new_c11_def c11_threads_def)
qed

end
