(* ===== verification/Chat_Message.thy ===== *)
theory Chat_Message
  imports Prelude "HOL-Library.Sublist"
begin

text \<open>
  The framing of the chat programs, \<^verbatim>\<open>src/boost/3.chat_message.hpp\<close>: a header of four
  characters, the length of the body in decimal, then the body. \<open>msg_data\<close> is the array \<open>data_\<close> of the
  class. The second half of the theory has the reading loop that the server's sessions and the
  client share (\<open>do_read_header\<close>, \<open>do_read_body\<close>), run over a whole byte stream, and shows that it
  inverts the framing.
\<close>

section \<open>Messages\<close>

definition header_length :: nat where "header_length = 4"

definition max_body_length :: nat where "max_body_length = 512"

record chat_message =
  msg_data :: string
  body_length :: nat

text \<open>The constructor leaves the array uninitialised: it contains \<open>junk\<close>.\<close>

definition new_message :: "string \<Rightarrow> chat_message" where
  "new_message junk = \<lparr>msg_data = junk, body_length = 0\<rparr>"

text \<open>The \<open>length()\<close> bytes at \<open>data()\<close>, and the \<open>body_length()\<close> bytes at \<open>body()\<close>.\<close>

definition frame :: "chat_message \<Rightarrow> string" where
  "frame m = take (header_length + body_length m) (msg_data m)"

definition body :: "chat_message \<Rightarrow> string" where
  "body m = take (body_length m) (drop header_length (msg_data m))"

definition set_body_length :: "nat \<Rightarrow> chat_message \<Rightarrow> chat_message" where
  "set_body_length new_length m =
     (let m = m\<lparr>body_length := new_length\<rparr>
      in if body_length m > max_body_length then m\<lparr>body_length := max_body_length\<rparr> else m)"

text \<open>
  \<open>strncat\<close> stops at a null byte; the \<open>int\<close> of \<open>atoi\<close> is converted to \<open>size_t\<close>, so that a
  negative length becomes a huge one.
\<close>

definition decode_header :: "chat_message \<Rightarrow> bool \<times> chat_message" where
  "decode_header m =
     (let hdr = takeWhile (\<lambda>c. c \<noteq> CHR 0x00) (take header_length (msg_data m));
          m = m\<lparr>body_length := nat (atoi hdr mod 2 ^ 64)\<rparr>
      in if body_length m > max_body_length then (False, m\<lparr>body_length := 0\<rparr>) else (True, m))"

text \<open>\<open>sprintf("%4d")\<close> overruns the five bytes of \<open>header\<close> for five digits or more, \<open>None\<close>.\<close>

definition encode_header :: "chat_message \<Rightarrow> chat_message option" where
  "encode_header m =
     (let num = to_string (body_length m);
          hdr = replicate (header_length - length num) CHR '' '' @ num
      in if length hdr > header_length then None
         else Some (m\<lparr>msg_data := take header_length hdr @ drop header_length (msg_data m)\<rparr>))"

text \<open>\<open>memcpy(msg.body(), line, msg.body_length())\<close>\<close>

definition copy_body :: "string \<Rightarrow> chat_message \<Rightarrow> chat_message" where
  "copy_body line m =
     m\<lparr>msg_data := take header_length (msg_data m) @ take (body_length m) line
                @ drop (header_length + body_length m) (msg_data m)\<rparr>"

text \<open>What the client's main loop makes of a line.\<close>

definition message_of_line :: "string \<Rightarrow> string \<Rightarrow> chat_message option" where
  "message_of_line junk line =
     encode_header (copy_body line (set_body_length (length line) (new_message junk)))"

section \<open>Reading\<close>

text \<open>\<open>async_read\<close> of a header into \<open>data()\<close>, and of a body into \<open>body()\<close>.\<close>

definition fill_header :: "string \<Rightarrow> chat_message \<Rightarrow> chat_message" where
  "fill_header bytes m = m\<lparr>msg_data := bytes @ drop (length bytes) (msg_data m)\<rparr>"

definition fill_body :: "string \<Rightarrow> chat_message \<Rightarrow> chat_message" where
  "fill_body bytes m =
     m\<lparr>msg_data := take header_length (msg_data m) @ bytes @ drop (header_length + length bytes) (msg_data m)\<rparr>"

function read_frames :: "chat_message \<Rightarrow> string \<Rightarrow> chat_message list" where
  "read_frames m s =
     (if length s < header_length then []
      else
        (let (ok, m) = decode_header (fill_header (take header_length s) m);
             rest = drop header_length s
         in if \<not> ok \<or> length rest < body_length m then []
            else
              (let m = fill_body (take (body_length m) rest) m
               in m # read_frames m (drop (body_length m) rest))))"
  by pat_completeness auto
termination
  by (relation "measure (\<lambda>(m, s). length s)") (auto simp: header_length_def)

declare read_frames.simps [simp del]

section \<open>Framing and reading are inverse\<close>

definition message_ok :: "chat_message \<Rightarrow> bool" where
  "message_ok m \<longleftrightarrow> length (msg_data m) = header_length + max_body_length \<and> body_length m \<le> max_body_length"

text \<open>A message whose header says how long its body is.\<close>

definition framed :: "chat_message \<Rightarrow> bool" where
  "framed m \<longleftrightarrow> message_ok m \<and> decode_header m = (True, m)"

lemmas lengths = header_length_def max_body_length_def

lemma message_ok_set: "length (msg_data m) = 516 \<Longrightarrow> message_ok (set_body_length n m)"
  by (simp add: message_ok_def set_body_length_def Let_def lengths)

lemma message_ok_copy:
  "message_ok m \<Longrightarrow> length line = body_length m \<Longrightarrow> message_ok (copy_body line m)"
  by (simp add: message_ok_def copy_body_def lengths)

lemma decode_header_ok: "message_ok m \<Longrightarrow> message_ok (snd (decode_header m))"
  by (simp add: message_ok_def decode_header_def Let_def lengths)

lemma fill_ok:
  "message_ok m \<Longrightarrow> length bytes = header_length \<Longrightarrow> message_ok (fill_header bytes m)"
  "message_ok m \<Longrightarrow> length bytes = body_length m \<Longrightarrow> message_ok (fill_body bytes m)"
  by (auto simp: message_ok_def fill_header_def fill_body_def lengths)

text \<open>Decoding only looks at the first four bytes.\<close>

lemma decode_header_cong:
  assumes "take header_length (msg_data m) = take header_length (msg_data m')"
  shows "fst (decode_header m) = fst (decode_header m')
    \<and> body_length (snd (decode_header m)) = body_length (snd (decode_header m'))"
  using assms by (simp add: decode_header_def Let_def)

lemma decode_header_data [simp]: "msg_data (snd (decode_header m)) = msg_data m"
  by (simp add: decode_header_def Let_def)

lemma fill_body_framed:
  assumes "message_ok m" "decode_header m0 = (True, m)" "length bytes = body_length m"
  shows "framed (fill_body bytes m)"
proof -
  let ?m = "fill_body bytes m"
  have data: "msg_data m = msg_data m0" using decode_header_data [of m0] assms(2) by simp
  have "4 \<le> length (msg_data m)" using assms(1) by (simp add: message_ok_def lengths)
  then have "take header_length (msg_data ?m) = take header_length (msg_data m0)"
    by (simp add: fill_body_def data lengths)
  then have "fst (decode_header ?m) = True \<and> body_length (snd (decode_header ?m)) = body_length m"
    using decode_header_cong [of ?m m0] assms(2) by simp
  moreover have "body_length ?m = body_length m" by (simp add: fill_body_def)
  ultimately have "decode_header ?m = (True, ?m)"
    by (cases "decode_header ?m") (auto simp: decode_header_def Let_def split: if_splits)
  with assms show ?thesis by (simp add: framed_def fill_ok)
qed

lemma body_fill_body: "message_ok m \<Longrightarrow> length bytes = body_length m \<Longrightarrow> body (fill_body bytes m) = bytes"
  by (simp add: body_def fill_body_def message_ok_def lengths)

lemma frame_length: "message_ok m \<Longrightarrow> length (frame m) = header_length + body_length m"
  by (simp add: frame_def message_ok_def lengths)

text \<open>One round of the reading loop on a framed message.\<close>

lemma read_frames_step:
  assumes "framed f" "message_ok m"
  shows "\<exists>m'. read_frames m (frame f @ s) = m' # read_frames m' s \<and> body m' = body f \<and> framed m'
    \<and> frame m' = frame f"
proof -
  let ?h = "take header_length (msg_data f)"
  let ?m0 = "fill_header ?h m"
  have f: "message_ok f" "decode_header f = (True, f)" using assms(1) by (auto simp: framed_def)
  have lf: "length (msg_data f) = 516" "body_length f \<le> 512" using f(1) by (simp_all add: message_ok_def lengths)
  have split: "frame f = ?h @ body f" "length ?h = 4" "length (body f) = body_length f"
    using lf by (simp_all add: frame_def body_def lengths take_add)
  have ok0: "message_ok ?m0" using assms(2) split(2) by (intro fill_ok) (simp_all add: lengths)
  have "take header_length (msg_data ?m0) = ?h" using split(2) by (simp add: fill_header_def lengths)
  then have "fst (decode_header ?m0)" "body_length (snd (decode_header ?m0)) = body_length f"
    using decode_header_cong [of ?m0 f] f(2) split(2) by (simp_all add: lengths)
  then obtain m1 where d: "decode_header ?m0 = (True, m1)" "body_length m1 = body_length f"
    by (cases "decode_header ?m0") auto
  have ok1: "message_ok m1" using decode_header_ok [OF ok0] d by simp
  have data1: "msg_data m1 = msg_data ?m0" using decode_header_data [of ?m0] d by simp
  let ?m' = "fill_body (body f) m1"
  have fr: "framed ?m'" using fill_body_framed [OF ok1 d(1)] split(3) d(2) by simp
  have b: "body ?m' = body f" using body_fill_body ok1 split(3) d(2) by simp
  have frm: "frame ?m' = frame f"
    using split d(2) data1
    by (simp add: frame_def fill_body_def fill_header_def lengths)
  have "read_frames m (frame f @ s) = ?m' # read_frames ?m' s"
    using split d by (subst read_frames.simps) (simp add: split(1) lengths fill_body_def Let_def)
  with fr b frm show ?thesis by blast
qed

text \<open>Reading a stream of framed messages delivers their bodies, whatever the buffer held.\<close>

lemma read_frames_concat:
  "\<forall>f\<in>set fs. framed f \<Longrightarrow> message_ok m \<Longrightarrow>
   \<exists>m'. message_ok m' \<and>
     map body (read_frames m (concat (map frame fs) @ s)) = map body fs @ map body (read_frames m' s)"
proof (induction fs arbitrary: m)
  case (Cons f fs)
  obtain m' where m': "read_frames m (frame f @ concat (map frame fs) @ s) = m' # read_frames m' (concat (map frame fs) @ s)"
      "body m' = body f" "message_ok m'"
    using read_frames_step [of f m "concat (map frame fs) @ s"] Cons.prems by (auto simp: framed_def)
  then show ?case using Cons.IH [of m'] Cons.prems by auto
qed auto

lemma read_frames_all:
  assumes "\<forall>f\<in>set fs. framed f" "message_ok m"
  shows "map body (read_frames m (concat (map frame fs))) = map body fs"
proof -
  have "read_frames m' [] = []" for m' by (subst read_frames.simps) (simp add: lengths)
  then show ?thesis using read_frames_concat [OF assms, of "[]"] by auto
qed

text \<open>A stream that breaks off delivers a prefix.\<close>

lemma read_frames_prefix: "prefix (read_frames m s) (read_frames m (s @ t))"
proof (induction m s rule: read_frames.induct)
  case (1 m s)
  obtain ok m1 where d: "decode_header (fill_header (take header_length s) m) = (ok, m1)"
    by (cases "decode_header (fill_header (take header_length s) m)") auto
  let ?rest = "drop header_length s"
  show ?case
  proof (cases "length s < header_length \<or> \<not> ok \<or> length ?rest < body_length m1")
    case True
    then have "read_frames m s = []" using d by (subst read_frames.simps) auto
    then show ?thesis by simp
  next
    case False
    let ?m2 = "fill_body (take (body_length m1) ?rest) m1"
    have b: "body_length ?m2 = body_length m1" by (simp add: fill_body_def)
    have "prefix (read_frames ?m2 (drop (body_length m1) ?rest)) (read_frames ?m2 (drop (body_length m1) ?rest @ t))"
      using "1.IH" [OF _ d [symmetric] refl refl _ refl] False b by simp
    moreover have "read_frames m s = ?m2 # read_frames ?m2 (drop (body_length m1) ?rest)"
      using False d b by (subst read_frames.simps) (simp add: Let_def)
    moreover have "read_frames m (s @ t) = ?m2 # read_frames ?m2 (drop (body_length m1) ?rest @ t)"
    proof -
      have "body_length m1 + header_length - length s = 0"
        "\<not> length s + length t - header_length < body_length m1" using False by (simp_all del: not_less, linarith+)
      then show ?thesis using False d b by (subst read_frames.simps) (simp add: Let_def)
    qed
    ultimately show ?thesis by simp
  qed
qed

section \<open>The client's messages are framed\<close>

lemma to_string_length: "n < 10000 \<Longrightarrow> length (to_string n) \<le> 4"
  by (simp add: to_string.simps [of n] to_string.simps [of "n div 10"] to_string.simps [of "n div 100"]
      to_string.simps [of "n div 1000"] div_mult2_eq [symmetric])

lemma padded_no_null:
  "takeWhile (\<lambda>c. c \<noteq> CHR 0x00) (replicate k CHR '' '' @ to_string n) = replicate k CHR '' '' @ to_string n"
proof -
  have "c \<noteq> CHR 0x00" if "c \<in> set (to_string n)" for c
    using to_string_digits [of n] that by (auto simp: is_dec_def char_val_def byte_def)
  then show ?thesis by (auto simp: takeWhile_eq_all_conv)
qed

lemma encode_header_framed:
  assumes "message_ok m"
  shows "\<exists>m'. encode_header m = Some m' \<and> framed m' \<and> body m' = body m"
proof -
  let ?num = "to_string (body_length m)"
  let ?hdr = "replicate (4 - length ?num) CHR '' '' @ ?num"
  have ok: "length (msg_data m) = 516" "body_length m \<le> 512" using assms by (auto simp: message_ok_def lengths)
  have len: "length ?hdr = 4" using to_string_length [of "body_length m"] ok by simp
  let ?m = "m\<lparr>msg_data := ?hdr @ drop 4 (msg_data m)\<rparr>"
  have "encode_header m = Some ?m" using len by (simp add: encode_header_def Let_def lengths)
  moreover have "take header_length (msg_data ?m) = ?hdr" using len by (simp add: lengths)
  then have "decode_header ?m = (True, ?m)"
    using ok by (simp add: decode_header_def Let_def padded_no_null lengths)
  then have "framed ?m" using ok len by (simp add: framed_def message_ok_def lengths)
  moreover have "body ?m = body m" using len by (simp add: body_def lengths)
  ultimately show ?thesis by blast
qed

lemma message_of_line_framed:
  assumes "length junk = 516" "length line \<le> 512"
  shows "\<exists>m. message_of_line junk line = Some m \<and> framed m \<and> body m = line"
proof -
  let ?m = "set_body_length (length line) (new_message junk)"
  have b: "body_length ?m = length line" using assms by (simp add: set_body_length_def new_message_def lengths)
  have "message_ok ?m" using assms by (simp add: message_ok_set new_message_def)
  then have "message_ok (copy_body line ?m)" using b by (simp add: message_ok_copy)
  moreover have "body (copy_body line ?m) = line"
    using assms b by (simp add: body_def copy_body_def lengths set_body_length_def new_message_def)
  ultimately show ?thesis using encode_header_framed unfolding message_of_line_def by metis
qed

end
