(* ===== verification/Chat_Server.thy ===== *)
theory Chat_Server
  imports Chat_Message Transition
begin

text \<open>
  The chat server, \<^verbatim>\<open>src/boost/3.chat_server.cpp\<close>: a room with a history of a hundred messages,
  and sessions that read framed messages from their sockets and write the room's messages to
  them. One thread runs the \<open>io_context\<close>, so the program is an interleaving of completion
  handlers. A \<open>shared_ptr\<close> to a session is the session's number; the order in which the set of
  participants is traversed does not matter, since delivering to one does not touch another.

  \<open>stream i\<close> is all that peer \<open>i\<close> ever sends; how fast it arrives, and when a socket fails, is left
  open by the step relation. \<open>written\<close> and \<open>room_log\<close> record what a session has written and what was
  said in the room, with the speaker.
\<close>

section \<open>Sessions\<close>

datatype read_phase = Read_header | Read_body | Not_reading

record session =
  read_phase :: read_phase
  read_pos :: nat
  read_msg :: chat_message
  write_msgs :: "chat_message list"
  pending_writes :: nat
  written :: "chat_message list"

definition new_session :: "string \<Rightarrow> session" where
  "new_session junk =
     \<lparr>read_phase = Not_reading, read_pos = 0, read_msg = new_message junk, write_msgs = [],
      pending_writes = 0, written = []\<rparr>"

definition do_read_header :: "session \<Rightarrow> session" where
  "do_read_header s = s\<lparr>read_phase := Read_header\<rparr>"

definition do_read_body :: "session \<Rightarrow> session" where
  "do_read_body s = s\<lparr>read_phase := Read_body\<rparr>"

text \<open>\<open>async_write\<close> of the first message of the queue.\<close>

definition chat_do_write :: "session \<Rightarrow> session" where
  "chat_do_write s = s\<lparr>pending_writes := pending_writes s + 1\<rparr>"

definition session_deliver :: "chat_message \<Rightarrow> session \<Rightarrow> session" where
  "session_deliver msg s =
     (let write_in_progress = (write_msgs s \<noteq> []);
          s = s\<lparr>write_msgs := write_msgs s @ [msg]\<rparr>
      in if \<not> write_in_progress then chat_do_write s else s)"

section \<open>The room\<close>

definition max_recent_msgs :: nat where "max_recent_msgs = 100"

record chat_room =
  participants :: "nat set"
  recent_msgs :: "chat_message list"
  sessions :: "nat \<rightharpoonup> session"
  room_log :: "(nat \<times> chat_message) list"

definition chat_init :: "chat_room \<Rightarrow> bool" where
  "chat_init r \<longleftrightarrow> r = \<lparr>participants = {}, recent_msgs = [], sessions = Map.empty, room_log = []\<rparr>"

definition set_session :: "nat \<Rightarrow> session \<Rightarrow> chat_room \<Rightarrow> chat_room" where
  "set_session i s r = r\<lparr>sessions := (sessions r)(i \<mapsto> s)\<rparr>"

definition room_join :: "nat \<Rightarrow> session \<Rightarrow> chat_room \<Rightarrow> chat_room" where
  "room_join i s r =
     (let r = r\<lparr>participants := insert i (participants r)\<rparr>
      in set_session i (fold session_deliver (recent_msgs r) s) r)"

definition room_leave :: "nat \<Rightarrow> chat_room \<Rightarrow> chat_room" where
  "room_leave i r = r\<lparr>participants := participants r - {i}\<rparr>"

fun pop_recent :: "chat_message list \<Rightarrow> chat_message list" where
  "pop_recent xs = (if length xs > max_recent_msgs then pop_recent (tl xs) else xs)"

declare pop_recent.simps [simp del]

definition room_deliver :: "nat \<Rightarrow> chat_message \<Rightarrow> chat_room \<Rightarrow> chat_room" where
  "room_deliver i msg r =
     r\<lparr>recent_msgs := pop_recent (recent_msgs r @ [msg]),
       sessions := (\<lambda>k. if k \<in> participants r then map_option (session_deliver msg) (sessions r k) else sessions r k),
       room_log := room_log r @ [(i, msg)]\<rparr>"

definition on_session :: "(session \<Rightarrow> session) \<Rightarrow> nat \<Rightarrow> chat_room \<Rightarrow> chat_room" where
  "on_session f i r = r\<lparr>sessions := (sessions r)(i := map_option f (sessions r i))\<rparr>"

section \<open>Handlers\<close>

text \<open>\<open>bytes\<close> is \<open>None\<close> when the operation failed.\<close>

definition session_start :: "nat \<Rightarrow> string \<Rightarrow> chat_room \<Rightarrow> chat_room" where
  "session_start i junk r = on_session do_read_header i (room_join i (new_session junk) r)"

definition header_read :: "nat \<Rightarrow> session \<Rightarrow> string option \<Rightarrow> chat_room \<Rightarrow> chat_room" where
  "header_read i s bytes r =
     (case bytes of
        None \<Rightarrow> room_leave i (set_session i (s\<lparr>read_phase := Not_reading\<rparr>) r)
      | Some b \<Rightarrow>
          (let (ok, m) = decode_header (fill_header b (read_msg s));
               s = s\<lparr>read_msg := m, read_pos := read_pos s + length b, read_phase := Not_reading\<rparr>
           in if ok then set_session i (do_read_body s) r
              else room_leave i (set_session i s r)))"

definition body_read :: "nat \<Rightarrow> session \<Rightarrow> string option \<Rightarrow> chat_room \<Rightarrow> chat_room" where
  "body_read i s bytes r =
     (case bytes of
        None \<Rightarrow> room_leave i (set_session i (s\<lparr>read_phase := Not_reading\<rparr>) r)
      | Some b \<Rightarrow>
          (let m = fill_body b (read_msg s);
               s = s\<lparr>read_msg := m, read_pos := read_pos s + length b, read_phase := Not_reading\<rparr>
           in on_session do_read_header i (room_deliver i m (set_session i s r))))"

definition write_finished :: "nat \<Rightarrow> session \<Rightarrow> bool \<Rightarrow> chat_room \<Rightarrow> chat_room" where
  "write_finished i s ok r =
     (let s = s\<lparr>pending_writes := pending_writes s - 1\<rparr> in
      if ok
      then
        (let s = s\<lparr>written := written s @ [hd (write_msgs s)], write_msgs := tl (write_msgs s)\<rparr>
         in set_session i (if write_msgs s \<noteq> [] then chat_do_write s else s) r)
      else room_leave i (set_session i s r))"

inductive chat_step :: "(nat \<Rightarrow> string) \<Rightarrow> chat_room \<Rightarrow> chat_room \<Rightarrow> bool" for stream where
  cs_accept: "sessions r i = None \<Longrightarrow> length junk = header_length + max_body_length \<Longrightarrow>
    chat_step stream r (session_start i junk r)"
| cs_accept_error: "chat_step stream r r"
| cs_header: "sessions r i = Some s \<Longrightarrow> read_phase s = Read_header \<Longrightarrow>
    read_pos s + header_length \<le> length (stream i) \<Longrightarrow>
    chat_step stream r (header_read i s (Some (take header_length (drop (read_pos s) (stream i)))) r)"
| cs_header_error: "sessions r i = Some s \<Longrightarrow> read_phase s = Read_header \<Longrightarrow>
    chat_step stream r (header_read i s None r)"
| cs_body: "sessions r i = Some s \<Longrightarrow> read_phase s = Read_body \<Longrightarrow>
    read_pos s + body_length (read_msg s) \<le> length (stream i) \<Longrightarrow>
    chat_step stream r (body_read i s (Some (take (body_length (read_msg s)) (drop (read_pos s) (stream i)))) r)"
| cs_body_error: "sessions r i = Some s \<Longrightarrow> read_phase s = Read_body \<Longrightarrow>
    chat_step stream r (body_read i s None r)"
| cs_write: "sessions r i = Some s \<Longrightarrow> 0 < pending_writes s \<Longrightarrow>
    chat_step stream r (write_finished i s ok r)"

section \<open>The room as an atomic broadcast\<close>

text \<open>
  The specification: a message is said once and for all present at that moment; who enters is
  told the last hundred messages first.
\<close>

record broadcast =
  b_log :: "(nat \<times> chat_message) list"
  b_present :: "nat set"
  b_heard :: "nat \<rightharpoonup> chat_message list"

definition last_n :: "nat \<Rightarrow> 'a list \<Rightarrow> 'a list" where
  "last_n n xs = drop (length xs - n) xs"

definition b_init :: "broadcast \<Rightarrow> bool" where
  "b_init b \<longleftrightarrow> b = \<lparr>b_log = [], b_present = {}, b_heard = Map.empty\<rparr>"

definition b_enter :: "nat \<Rightarrow> broadcast \<Rightarrow> broadcast" where
  "b_enter i b =
     b\<lparr>b_present := insert i (b_present b),
       b_heard := (b_heard b)(i \<mapsto> last_n max_recent_msgs (map snd (b_log b)))\<rparr>"

definition b_say :: "nat \<Rightarrow> chat_message \<Rightarrow> broadcast \<Rightarrow> broadcast" where
  "b_say i m b =
     b\<lparr>b_log := b_log b @ [(i, m)],
       b_heard := (\<lambda>k. if k \<in> b_present b then map_option (\<lambda>xs. xs @ [m]) (b_heard b k) else b_heard b k)\<rparr>"

definition b_go :: "nat \<Rightarrow> broadcast \<Rightarrow> broadcast" where
  "b_go i b = b\<lparr>b_present := b_present b - {i}\<rparr>"

inductive b_step :: "broadcast \<Rightarrow> broadcast \<Rightarrow> bool" where
  b_enter: "b_heard b i = None \<Longrightarrow> b_step b (b_enter i b)"
| b_say: "b_step b (b_say i m b)"
| b_go: "b_step b (b_go i b)"

text \<open>What peer \<open>i\<close> is told: a stretch of the log that begins with the history.\<close>

definition told :: "(nat \<times> chat_message) list \<Rightarrow> nat \<Rightarrow> nat \<Rightarrow> chat_message list" where
  "told log j k = last_n max_recent_msgs (map snd (take j log)) @ map snd (drop j (take k log))"

definition heard_ok :: "(nat \<times> chat_message) list \<Rightarrow> bool \<Rightarrow> chat_message list \<Rightarrow> bool" where
  "heard_ok log present xs \<longleftrightarrow>
     (\<exists>j k. j \<le> k \<and> k \<le> length log \<and> (present \<longrightarrow> k = length log) \<and> xs = told log j k)"

definition b_inv :: "broadcast \<Rightarrow> bool" where
  "b_inv b \<longleftrightarrow> (\<forall>i xs. b_heard b i = Some xs \<longrightarrow> heard_ok (b_log b) (i \<in> b_present b) xs)"

lemma heard_ok_enter: "heard_ok log p (last_n max_recent_msgs (map snd log))"
  unfolding heard_ok_def by (intro exI [of _ "length log"]) (simp add: told_def)

lemma heard_ok_say:
  assumes "heard_ok log True xs"
  shows "heard_ok (log @ [x]) True (xs @ [snd x])"
proof -
  obtain j where "j \<le> length log" "xs = told log j (length log)" using assms by (auto simp: heard_ok_def)
  then have "xs @ [snd x] = told (log @ [x]) j (length (log @ [x]))" by (simp add: told_def)
  with \<open>j \<le> length log\<close> show ?thesis unfolding heard_ok_def by (metis le_SucI length_append_singleton order_refl)
qed

lemma heard_ok_absent:
  assumes "heard_ok log p xs"
  shows "heard_ok (log @ ys) False xs"
proof -
  obtain j k where "j \<le> k" "k \<le> length log" "xs = told log j k" using assms by (auto simp: heard_ok_def)
  then have "xs = told (log @ ys) j k" "k \<le> length (log @ ys)" by (simp_all add: told_def)
  with \<open>j \<le> k\<close> show ?thesis unfolding heard_ok_def by blast
qed

lemma heard_ok_mono: "heard_ok log p xs \<Longrightarrow> (q \<longrightarrow> p) \<Longrightarrow> heard_ok log q xs"
  unfolding heard_ok_def by blast

lemma b_inv_step:
  assumes "b_inv b" "b_step b b'"
  shows "b_inv b'"
  using assms(2)
proof cases
  case (b_enter i)
  then show ?thesis using assms(1) by (simp add: b_inv_def b_enter_def heard_ok_enter)
next
  case (b_say i m)
  have "heard_ok (b_log b') (k \<in> b_present b') xs" if heard: "b_heard b' k = Some xs" for k xs
  proof (cases "k \<in> b_present b")
    case True
    then obtain ys where "b_heard b k = Some ys" "xs = ys @ [m]" using heard b_say by (auto simp: b_say_def)
    moreover from this have "heard_ok (b_log b) True ys" using assms(1) True unfolding b_inv_def by force
    ultimately show ?thesis using heard_ok_say [of "b_log b" ys "(i, m)"] True b_say by (simp add: b_say_def)
  next
    case False
    then have "b_heard b k = Some xs" using heard b_say by (simp add: b_say_def)
    then have "heard_ok (b_log b) False xs" using assms(1) False unfolding b_inv_def by force
    then show ?thesis using heard_ok_absent [of _ False xs "[(i, m)]"] False b_say by (simp add: b_say_def)
  qed
  then show ?thesis by (simp add: b_inv_def)
next
  case (b_go i)
  have "heard_ok (b_log b) (k \<in> b_present b') xs" if "b_heard b k = Some xs" for k xs
  proof (rule heard_ok_mono)
    show "heard_ok (b_log b) (k \<in> b_present b) xs" using assms(1) that by (simp add: b_inv_def)
  qed (simp add: b_go b_go_def)
  then show ?thesis using b_go by (simp add: b_inv_def b_go_def)
qed

interpretation broadcast: invariant_system b_init b_step b_inv
proof
  show "b_inv b" if "b_init b" for b using that by (simp add: b_init_def b_inv_def)
qed (rule b_inv_step)

section \<open>The sessions implement the broadcast\<close>

lemma pop_recent_last: "pop_recent xs = last_n max_recent_msgs xs"
proof (induction xs rule: pop_recent.induct)
  case (1 xs)
  show ?case
  proof (cases "length xs > max_recent_msgs")
    case True
    then obtain x ys where "xs = x # ys" by (cases xs) auto
    with True 1 show ?thesis by (simp add: pop_recent.simps [of "x # ys"] last_n_def Suc_diff_le)
  next
    case False
    then show ?thesis by (simp add: pop_recent.simps [of xs] last_n_def)
  qed
qed

lemma last_n_snoc: "last_n n (last_n n xs @ [x]) = last_n n (xs @ [x])"
proof (cases "length xs \<le> n")
  case False
  then have "Suc (length xs) - (length xs - n + n) + (length xs - n) = Suc (length xs) - n" by simp
  with False show ?thesis by (cases "n = 0") (auto simp: last_n_def)
qed (simp add: last_n_def)

definition room_abs :: "chat_room \<Rightarrow> broadcast" where
  "room_abs r =
     \<lparr>b_log = room_log r, b_present = participants r,
      b_heard = (\<lambda>i. map_option (\<lambda>s. written s @ write_msgs s) (sessions r i))\<rparr>"

text \<open>A member of the room has a write under way exactly when its queue is not empty.\<close>

definition write_ok :: "bool \<Rightarrow> session \<Rightarrow> bool" where
  "write_ok member s \<longleftrightarrow>
     pending_writes s \<le> 1 \<and> (0 < pending_writes s \<longrightarrow> write_msgs s \<noteq> [])
     \<and> (member \<longrightarrow> (pending_writes s = 1 \<longleftrightarrow> write_msgs s \<noteq> []))"

definition room_inv :: "chat_room \<Rightarrow> bool" where
  "room_inv r \<longleftrightarrow>
     recent_msgs r = last_n max_recent_msgs (map snd (room_log r))
     \<and> (\<forall>i\<in>participants r. sessions r i \<noteq> None)
     \<and> (\<forall>i s. sessions r i = Some s \<longrightarrow> write_ok (i \<in> participants r) s)"

lemma write_ok_deliver: "write_ok True s \<Longrightarrow> write_ok True (session_deliver m s)"
  by (auto simp: write_ok_def session_deliver_def chat_do_write_def Let_def)

lemma write_ok_deliver_all: "write_ok True s \<Longrightarrow> write_ok True (fold session_deliver ms s)"
  by (induction ms arbitrary: s) (auto intro: write_ok_deliver)

lemma write_ok_mono: "write_ok p s \<Longrightarrow> (q \<longrightarrow> p) \<Longrightarrow> write_ok q s"
  by (auto simp: write_ok_def)

lemma deliver_told [simp]:
  "written (session_deliver m s) @ write_msgs (session_deliver m s) = (written s @ write_msgs s) @ [m]"
  by (simp add: session_deliver_def chat_do_write_def Let_def)

lemma deliver_all_told [simp]:
  "written (fold session_deliver ms s) @ write_msgs (fold session_deliver ms s) = (written s @ write_msgs s) @ ms"
proof (induction ms arbitrary: s)
  case (Cons m ms)
  then show ?case using deliver_told [of m s] by simp
qed simp


text \<open>The effect of the room's operations on the sessions and on the specification's state.\<close>

lemmas chat_defs = session_start_def header_read_def body_read_def write_finished_def room_join_def room_leave_def
  room_deliver_def set_session_def on_session_def do_read_header_def do_read_body_def chat_do_write_def

lemma abs_session_start:
  assumes "room_inv r"
  shows "room_abs (session_start i junk r) = b_enter i (room_abs r)"
  using assms
  by (auto simp: room_abs_def b_enter_def chat_defs Let_def room_inv_def new_session_def fun_eq_iff)

lemma abs_set_session:
  "sessions r i = Some s \<Longrightarrow> written s' @ write_msgs s' = written s @ write_msgs s \<Longrightarrow>
   room_abs (set_session i s' r) = room_abs r"
  by (auto simp: room_abs_def set_session_def fun_eq_iff)

lemma abs_leave: "room_abs (room_leave i r) = b_go i (room_abs r)"
  by (simp add: room_abs_def room_leave_def b_go_def)

lemma abs_deliver: "room_abs (room_deliver i m r) = b_say i m (room_abs r)"
  by (auto simp: room_abs_def room_deliver_def b_say_def fun_eq_iff option.map_comp comp_def)

lemma abs_on_session: "(\<And>s. written (f s) @ write_msgs (f s) = written s @ write_msgs s) \<Longrightarrow>
   room_abs (on_session f i r) = room_abs r"
  by (auto simp: room_abs_def on_session_def fun_eq_iff option.map_comp comp_def)

lemma room_inv_set:
  assumes "room_inv r" "sessions r i = Some s" "write_ok (i \<in> participants r) s'"
  shows "room_inv (set_session i s' r)"
  using assms by (auto simp: room_inv_def set_session_def)

lemma room_inv_member: "room_inv r \<Longrightarrow> sessions r i = Some s \<Longrightarrow> write_ok (i \<in> participants r) s"
  by (simp add: room_inv_def)

lemma room_invI:
  assumes "recent_msgs r = last_n max_recent_msgs (map snd (room_log r))"
    "\<And>i. i \<in> participants r \<Longrightarrow> sessions r i \<noteq> None"
    "\<And>i s. sessions r i = Some s \<Longrightarrow> write_ok (i \<in> participants r) s"
  shows "room_inv r"
  using assms by (simp add: room_inv_def)

lemma room_inv_leave:
  assumes "room_inv r"
  shows "room_inv (room_leave i r)"
proof (rule room_invI)
  show "write_ok (k \<in> participants (room_leave i r)) s" if "sessions (room_leave i r) k = Some s" for k s
    using room_inv_member [OF assms, of k s] that by (auto simp: room_leave_def elim: write_ok_mono)
qed (use assms in \<open>auto simp: room_inv_def room_leave_def\<close>)

lemma room_inv_deliver:
  assumes "room_inv r"
  shows "room_inv (room_deliver i m r)"
proof (rule room_invI)
  show "write_ok (k \<in> participants (room_deliver i m r)) s" if k: "sessions (room_deliver i m r) k = Some s" for k s
  proof (cases "k \<in> participants r")
    case True
    then obtain s0 where "sessions r k = Some s0" "s = session_deliver m s0" using k by (auto simp: room_deliver_def)
    with True show ?thesis
      using room_inv_member [OF assms, of k s0] write_ok_deliver [of s0 m] by (simp add: room_deliver_def)
  next
    case False
    then show ?thesis using k room_inv_member [OF assms, of k s] by (simp add: room_deliver_def)
  qed
qed (use assms in \<open>auto simp: room_inv_def room_deliver_def pop_recent_last last_n_snoc\<close>)

lemma room_inv_on:
  "room_inv r \<Longrightarrow> (\<And>s p. write_ok p s \<Longrightarrow> write_ok p (f s)) \<Longrightarrow> room_inv (on_session f i r)"
  by (auto simp: room_inv_def on_session_def)

lemma write_ok_read [simp]:
  "write_ok p (s\<lparr>read_phase := ph\<rparr>) = write_ok p s"
  "write_ok p (s\<lparr>read_pos := n\<rparr>) = write_ok p s"
  "write_ok p (s\<lparr>read_msg := m\<rparr>) = write_ok p s"
  by (simp_all add: write_ok_def)

lemma room_inv_start:
  assumes "room_inv r" "sessions r i = None"
  shows "room_inv (session_start i junk r)"
proof -
  have "write_ok True (new_session junk)" by (simp add: write_ok_def new_session_def)
  then have "write_ok True (fold session_deliver ms (new_session junk))" for ms by (rule write_ok_deliver_all)
  with assms show ?thesis by (auto simp: session_start_def room_join_def room_inv_def on_session_def
      set_session_def do_read_header_def Let_def)
qed

lemma write_ok_finished:
  assumes "write_ok p s" "0 < pending_writes s"
  shows "write_ok False (s\<lparr>pending_writes := pending_writes s - 1\<rparr>)"
    "write_ok p (let s = s\<lparr>pending_writes := pending_writes s - 1, written := written s @ [hd (write_msgs s)],
       write_msgs := tl (write_msgs s)\<rparr> in if write_msgs s \<noteq> [] then chat_do_write s else s)"
  using assms by (auto simp: write_ok_def chat_do_write_def Let_def)


lemma room_inv_set_leave:
  assumes "room_inv r" "sessions r i = Some s" "write_ok False s'"
  shows "room_inv (room_leave i (set_session i s' r))"
proof (rule room_invI)
  show "write_ok (k \<in> participants (room_leave i (set_session i s' r))) s0"
    if "sessions (room_leave i (set_session i s' r)) k = Some s0" for k s0
    using that assms(3) room_inv_member [OF assms(1), of k s0]
    by (cases "k = i") (auto simp: room_leave_def set_session_def elim: write_ok_mono)
qed (use assms in \<open>auto simp: room_inv_def room_leave_def set_session_def\<close>)

lemma header_read_inv:
  assumes "room_inv r" "sessions r i = Some s"
  shows "room_inv (header_read i s bytes r)"
proof -
  have "write_ok (i \<in> participants r) s" using assms by (rule room_inv_member)
  moreover from this have "write_ok False s" by (rule write_ok_mono) simp
  ultimately show ?thesis
    using assms
    by (auto simp: header_read_def do_read_body_def Let_def split: option.splits prod.splits
        intro!: room_inv_set room_inv_set_leave)
qed

lemma body_read_inv:
  assumes "room_inv r" "sessions r i = Some s"
  shows "room_inv (body_read i s bytes r)"
proof -
  have "write_ok (i \<in> participants r) s" using assms by (rule room_inv_member)
  moreover from this have "write_ok False s" by (rule write_ok_mono) simp
  ultimately show ?thesis
    using assms
    by (auto simp: body_read_def do_read_header_def Let_def split: option.splits
        intro!: room_inv_set room_inv_set_leave room_inv_on room_inv_deliver)
qed

lemma write_finished_inv:
  assumes "room_inv r" "sessions r i = Some s" "0 < pending_writes s"
  shows "room_inv (write_finished i s ok r)"
proof -
  note w = write_ok_finished [OF room_inv_member [OF assms(1,2)] assms(3)]
  show ?thesis
  proof (cases ok)
    case True
    then show ?thesis using room_inv_set [OF assms(1,2) w(2)]
      by (cases "tl (write_msgs s) = []") (simp_all add: write_finished_def Let_def)
  next
    case False
    then show ?thesis using room_inv_set_leave [OF assms(1,2) w(1)] by (simp add: write_finished_def Let_def)
  qed
qed

lemma room_inv_step: "room_inv r \<Longrightarrow> chat_step stream r r' \<Longrightarrow> room_inv r'"
  by (erule chat_step.cases) (auto intro: room_inv_start header_read_inv body_read_inv write_finished_inv)

lemma header_read_abs:
  assumes "sessions r i = Some s"
  shows "room_abs (header_read i s bytes r) = room_abs r
    \<or> room_abs (header_read i s bytes r) = b_go i (room_abs r)"
  using abs_set_session [OF assms]
  by (auto simp: header_read_def do_read_body_def abs_leave Let_def split: option.splits prod.splits)

lemma body_read_abs:
  assumes "sessions r i = Some s"
  shows "room_abs (body_read i s None r) = b_go i (room_abs r)"
    and "room_abs (body_read i s (Some b) r) = b_say i (fill_body b (read_msg s)) (room_abs r)"
  using abs_set_session [OF assms]
  by (auto simp: body_read_def do_read_header_def abs_leave abs_on_session abs_deliver Let_def)

lemma write_finished_abs:
  assumes "room_inv r" "sessions r i = Some s" "0 < pending_writes s"
  shows "room_abs (write_finished i s True r) = room_abs r"
    and "room_abs (write_finished i s False r) = b_go i (room_abs r)"
proof -
  have "write_msgs s \<noteq> []" using room_inv_member [OF assms(1,2)] assms(3) by (simp add: write_ok_def)
  then obtain m ms where "write_msgs s = m # ms" by (cases "write_msgs s") auto
  then show "room_abs (write_finished i s True r) = room_abs r"
    by (simp add: write_finished_def Let_def chat_do_write_def abs_set_session [OF assms(2)])
  show "room_abs (write_finished i s False r) = b_go i (room_abs r)"
    by (simp add: write_finished_def Let_def abs_leave abs_set_session [OF assms(2)])
qed

lemma room_sim_step:
  assumes "room_inv r" "chat_step stream r r'"
  shows "b_step (room_abs r) (room_abs r') \<or> room_abs r' = room_abs r"
  using assms(2)
proof cases
  case (cs_accept i junk)
  then have "b_heard (room_abs r) i = None" by (simp add: room_abs_def)
  then show ?thesis using cs_accept abs_session_start [OF assms(1)] by (simp add: b_step.b_enter)
next
  case (cs_write i s ok)
  then show ?thesis using write_finished_abs [OF assms(1), of i s] by (cases ok) (auto intro: b_step.b_go)
qed (auto simp: body_read_abs dest!: header_read_abs intro: b_step.intros)

interpretation chat: simulation chat_init "chat_step stream" room_inv b_init b_step room_abs for stream
proof unfold_locales
  show "room_inv r" if "chat_init r" for r
    using that by (simp add: chat_init_def room_inv_def last_n_def)
  show "b_init (room_abs r)" if "chat_init r" for r
    using that by (simp add: chat_init_def room_abs_def b_init_def)
qed (auto intro: room_inv_step dest: room_sim_step)


section \<open>What a peer sends is what it says\<close>

definition said :: "nat \<Rightarrow> (nat \<times> chat_message) list \<Rightarrow> chat_message list" where
  "said i log = map snd (filter (\<lambda>p. fst p = i) log)"

text \<open>The rest of a round of the reading loop, behind the header.\<close>

definition read_rest :: "chat_message \<Rightarrow> string \<Rightarrow> chat_message list" where
  "read_rest m s =
     (if length s < body_length m then []
      else fill_body (take (body_length m) s) m # read_frames (fill_body (take (body_length m) s) m) (drop (body_length m) s))"

lemma read_frames_header:
  assumes "header_length \<le> length s" "decode_header (fill_header (take header_length s) m) = (ok, m')"
  shows "read_frames m s = (if ok then read_rest m' (drop header_length s) else [])"
  using assms by (subst read_frames.simps) (simp add: read_rest_def Let_def fill_body_def)

text \<open>Where the session is in its stream, when \<open>xs\<close> has been said.\<close>

definition session_read :: "string \<Rightarrow> chat_message list \<Rightarrow> session \<Rightarrow> bool" where
  "session_read str xs s \<longleftrightarrow>
     message_ok (read_msg s)
     \<and> (\<exists>m0. message_ok m0 \<and>
          (case read_phase s of
             Read_header \<Rightarrow> read_frames m0 str = xs @ read_frames (read_msg s) (drop (read_pos s) str)
           | Read_body \<Rightarrow> (\<exists>m1. decode_header m1 = (True, read_msg s))
               \<and> read_frames m0 str = xs @ read_rest (read_msg s) (drop (read_pos s) str)
           | Not_reading \<Rightarrow> prefix xs (read_frames m0 str)))"

fun peer_read :: "string \<Rightarrow> chat_message list \<Rightarrow> session option \<Rightarrow> bool" where
  "peer_read str xs None = (xs = [])"
| "peer_read str xs (Some s) = session_read str xs s"

definition read_inv :: "(nat \<Rightarrow> string) \<Rightarrow> chat_room \<Rightarrow> bool" where
  "read_inv stream r \<longleftrightarrow>
     (\<forall>x\<in>set (room_log r). framed (snd x))
     \<and> (\<forall>i. peer_read (stream i) (said i (room_log r)) (sessions r i))"

lemma session_read_cong:
  "read_phase s' = read_phase s \<Longrightarrow> read_pos s' = read_pos s \<Longrightarrow> read_msg s' = read_msg s \<Longrightarrow>
   session_read str xs s' = session_read str xs s"
  by (cases "read_phase s") (simp_all add: session_read_def)

lemma session_read_deliver [simp]:
  "session_read str xs (session_deliver m s) = session_read str xs s"
  "session_read str xs (fold session_deliver ms s) = session_read str xs s"
proof -
  show d: "session_read str xs (session_deliver m s) = session_read str xs s" for m s
    by (rule session_read_cong) (simp_all add: session_deliver_def chat_do_write_def Let_def)
  show "session_read str xs (fold session_deliver ms s) = session_read str xs s"
    by (induction ms arbitrary: s) (auto simp: d)
qed

lemma session_read_stop: "session_read str xs s \<Longrightarrow> session_read str xs (s\<lparr>read_phase := Not_reading\<rparr>)"
  by (cases "read_phase s") (auto simp: session_read_def)

lemma session_read_header:
  assumes "session_read str xs s" "read_phase s = Read_header" "read_pos s + header_length \<le> length str"
    "decode_header (fill_header (take header_length (drop (read_pos s) str)) (read_msg s)) = (ok, m)"
  shows "session_read str xs
    (s\<lparr>read_msg := m, read_pos := read_pos s + header_length, read_phase := (if ok then Read_body else Not_reading)\<rparr>)"
proof -
  let ?b = "take header_length (drop (read_pos s) str)"
  have len: "length ?b = header_length" using assms(3) by simp
  have "message_ok (fill_header ?b (read_msg s))" using assms(1) len by (auto simp: session_read_def intro: fill_ok)
  then have m: "message_ok m" using decode_header_ok assms(4) by (metis snd_conv)
  have "read_frames (read_msg s) (drop (read_pos s) str)
      = (if ok then read_rest m (drop (read_pos s + header_length) str) else [])"
    using read_frames_header [OF _ assms(4)] assms(3) by (simp add: add.commute)
  then show ?thesis using assms(1,2,4) m by (auto simp: session_read_def) blast
qed

lemma session_read_body:
  assumes "session_read str xs s" "read_phase s = Read_body"
    "read_pos s + body_length (read_msg s) \<le> length str"
  defines "b \<equiv> take (body_length (read_msg s)) (drop (read_pos s) str)"
  shows "framed (fill_body b (read_msg s))"
    and "session_read str (xs @ [fill_body b (read_msg s)])
      (s\<lparr>read_msg := fill_body b (read_msg s), read_pos := read_pos s + length b, read_phase := Read_header\<rparr>)"
proof -
  have len: "length b = body_length (read_msg s)" using assms(3) by (simp add: b_def)
  obtain m0 m1 where m: "message_ok m0" "decode_header m1 = (True, read_msg s)" "message_ok (read_msg s)"
      "read_frames m0 str = xs @ read_rest (read_msg s) (drop (read_pos s) str)"
    using assms(1,2) by (auto simp: session_read_def)
  show f: "framed (fill_body b (read_msg s))" using fill_body_framed [OF m(3,2) len] .
  have "read_rest (read_msg s) (drop (read_pos s) str)
      = fill_body b (read_msg s) # read_frames (fill_body b (read_msg s)) (drop (read_pos s + length b) str)"
    using assms(3) len by (simp add: read_rest_def b_def add.commute)
  then show "session_read str (xs @ [fill_body b (read_msg s)])
      (s\<lparr>read_msg := fill_body b (read_msg s), read_pos := read_pos s + length b, read_phase := Read_header\<rparr>)"
    using m f by (auto simp: session_read_def framed_def)
qed


lemma said_simps [simp]:
  "said i [] = []"
  "said i (log @ [(k, m)]) = said i log @ (if k = i then [m] else [])"
  by (simp_all add: said_def)

lemma read_inv_session: "read_inv stream r \<Longrightarrow> sessions r i = Some s \<Longrightarrow> session_read (stream i) (said i (room_log r)) s"
  unfolding read_inv_def by (metis peer_read.simps(2))

lemma read_inv_set:
  assumes "read_inv stream r" "session_read (stream i) (said i (room_log r)) s'"
  shows "read_inv stream (set_session i s' r)"
  using assms by (simp add: read_inv_def set_session_def)

lemma read_inv_leave: "read_inv stream r \<Longrightarrow> read_inv stream (room_leave i r)"
  by (simp add: read_inv_def room_leave_def)

lemma header_read_reads:
  assumes "read_inv stream r" "sessions r i = Some s" "read_phase s = Read_header"
    "read_pos s + header_length \<le> length (stream i)"
  shows "read_inv stream (header_read i s (Some (take header_length (drop (read_pos s) (stream i)))) r)"
proof -
  let ?b = "take header_length (drop (read_pos s) (stream i))"
  obtain ok m where d: "decode_header (fill_header ?b (read_msg s)) = (ok, m)"
    by (cases "decode_header (fill_header ?b (read_msg s))") auto
  have "length ?b = header_length" using assms(4) by simp
  moreover note session_read_header [OF read_inv_session [OF assms(1,2)] assms(3,4) d]
  ultimately show ?thesis
    using d read_inv_set [OF assms(1)]
    by (cases ok) (auto simp: header_read_def do_read_body_def intro!: read_inv_leave)
qed

lemma body_read_reads:
  assumes "read_inv stream r" "sessions r i = Some s" "read_phase s = Read_body"
    "read_pos s + body_length (read_msg s) \<le> length (stream i)"
  shows "read_inv stream (body_read i s (Some (take (body_length (read_msg s)) (drop (read_pos s) (stream i)))) r)"
proof -
  let ?b = "take (body_length (read_msg s)) (drop (read_pos s) (stream i))"
  let ?m = "fill_body ?b (read_msg s)"
  let ?s = "s\<lparr>read_msg := ?m, read_pos := read_pos s + length ?b, read_phase := Not_reading\<rparr>"
  note body = session_read_body [OF read_inv_session [OF assms(1,2)] assms(3,4)]
  have i: "session_read (stream i) (said i (room_log r) @ [?m]) (do_read_header (session_deliver ?m ?s))"
  proof -
    have "do_read_header (session_deliver ?m ?s) = session_deliver ?m (?s\<lparr>read_phase := Read_header\<rparr>)"
      by (cases s) (simp add: do_read_header_def session_deliver_def chat_do_write_def Let_def)
    with body(2) show ?thesis by simp
  qed
  have i': "session_read (stream i) (said i (room_log r) @ [?m]) (do_read_header ?s)"
    using body(2) by (simp add: do_read_header_def)
  have other: "peer_read (stream k) (said k (room_log r)) (sessions r k)" for k
    using assms(1) by (simp add: read_inv_def)
  show ?thesis
    unfolding read_inv_def
  proof (intro conjI allI)
    fix k
    show "peer_read (stream k) (said k (room_log (body_read i s (Some ?b) r))) (sessions (body_read i s (Some ?b) r) k)"
      using i i' other [of k]
      by (cases "k = i"; cases "sessions r k")
        (simp_all add: body_read_def on_session_def room_deliver_def set_session_def Let_def)
  qed (use assms(1) body(1) in \<open>auto simp: read_inv_def body_read_def on_session_def room_deliver_def
      set_session_def Let_def\<close>)
qed

lemma read_inv_start:
  assumes "read_inv stream r" "sessions r i = None" "length junk = header_length + max_body_length"
  shows "read_inv stream (session_start i junk r)"
proof -
  let ?s = "(new_session junk)\<lparr>read_phase := Read_header\<rparr>"
  have said: "said i (room_log r) = []" using assms(1,2) unfolding read_inv_def by (metis peer_read.simps(1))
  have "message_ok (new_message junk)" using assms(3) by (simp add: message_ok_def new_message_def)
  then have "session_read (stream i) [] ?s" by (auto simp: session_read_def new_session_def)
  moreover have "do_read_header (session_deliver m s) = session_deliver m (do_read_header s)" for m s
    by (cases s) (simp add: do_read_header_def session_deliver_def chat_do_write_def Let_def)
  then have "do_read_header (fold session_deliver ms s) = fold session_deliver ms (do_read_header s)" for ms s
    by (induction ms arbitrary: s) auto
  ultimately have "session_read (stream i) [] (do_read_header (fold session_deliver ms (new_session junk)))" for ms
    by (simp add: do_read_header_def)
  then show ?thesis
    using assms(1) said
    by (auto simp: session_start_def room_join_def read_inv_def on_session_def set_session_def Let_def)
qed

lemma write_finished_reads:
  assumes "read_inv stream r" "sessions r i = Some s"
  shows "read_inv stream (write_finished i s ok r)"
proof -
  have "session_read (stream i) (said i (room_log r)) s" using assms by (rule read_inv_session)
  moreover have "session_read (stream i) xs (s\<lparr>pending_writes := n\<rparr>) = session_read (stream i) xs s"
    "session_read (stream i) xs (s\<lparr>pending_writes := n, written := ws, write_msgs := ms\<rparr>) = session_read (stream i) xs s"
    "session_read (stream i) xs (s\<lparr>written := ws, write_msgs := ms, pending_writes := n\<rparr>) = session_read (stream i) xs s"
    for xs n ws ms
    by (rule session_read_cong; simp)+
  ultimately show ?thesis
    using assms(1) by (auto simp: write_finished_def chat_do_write_def Let_def intro!: read_inv_set read_inv_leave)
qed

lemma read_inv_step:
  assumes "read_inv stream r" "chat_step stream r r'"
  shows "read_inv stream r'"
  using assms(2)
proof cases
  case (cs_header_error i s)
  then show ?thesis using read_inv_session [OF assms(1)] assms(1)
    by (auto simp: header_read_def intro!: read_inv_leave read_inv_set session_read_stop)
next
  case (cs_body_error i s)
  then show ?thesis using read_inv_session [OF assms(1)] assms(1)
    by (auto simp: body_read_def intro!: read_inv_leave read_inv_set session_read_stop)
qed (use assms(1) in \<open>auto intro: header_read_reads body_read_reads read_inv_start write_finished_reads\<close>)

interpretation chat_read: invariant_system chat_init "chat_step stream" "read_inv stream" for stream
proof
  show "read_inv stream r" if "chat_init r" for r using that by (simp add: chat_init_def read_inv_def)
qed (rule read_inv_step)


lemma said_prefix:
  assumes "reach chat_init (chat_step stream) r"
  shows "\<exists>m0. message_ok m0 \<and> prefix (said i (room_log r)) (read_frames m0 (stream i))"
proof (cases "sessions r i")
  case None
  then have "said i (room_log r) = []"
    using chat_read.invariant [OF assms] unfolding read_inv_def by (metis peer_read.simps(1))
  moreover have "message_ok (new_message (replicate 516 CHR 0x00))" by (simp add: message_ok_def new_message_def lengths)
  ultimately show ?thesis by auto
next
  case (Some s)
  then have "session_read (stream i) (said i (room_log r)) s"
    using read_inv_session chat_read.invariant [OF assms] by blast
  then show ?thesis unfolding session_read_def by (cases "read_phase s") auto
qed

lemma room_log_framed: "reach chat_init (chat_step stream) r \<Longrightarrow> x \<in> set (room_log r) \<Longrightarrow> framed (snd x)"
  using chat_read.invariant unfolding read_inv_def by blast

lemma session_told:
  assumes "reach chat_init (chat_step stream) r" "sessions r i = Some s"
  shows "heard_ok (room_log r) (i \<in> participants r) (written s @ write_msgs s)"
  using broadcast.invariant [OF chat.simulates [OF assms(1)]] assms(2)
  by (simp add: b_inv_def room_abs_def)

text \<open>
  C20. In every run of the chat server, whatever the peers send and whichever operations fail: a
  session never has two writes under way, and while it is in the room it has one exactly when
  messages are queued. What it has written and queued is a stretch of the one log of the room,
  without gaps, duplicates or reordering: the last hundred messages before it joined, then
  everything said up to now, or up to the moment it left.
\<close>

theorem chat_room_order:
  assumes "reach chat_init (chat_step stream) r" "sessions r i = Some s"
  shows "pending_writes s \<le> 1
    \<and> (i \<in> participants r \<longrightarrow> (pending_writes s = 1 \<longleftrightarrow> write_msgs s \<noteq> []))
    \<and> (\<exists>j k. j \<le> k \<and> k \<le> length (room_log r) \<and> (i \<in> participants r \<longrightarrow> k = length (room_log r))
         \<and> written s @ write_msgs s = told (room_log r) j k)"
  using room_inv_member [OF chat.invariant [OF assms(1)] assms(2)] session_told [OF assms]
  unfolding write_ok_def heard_ok_def by blast

definition demo_room :: chat_room where
  "demo_room = session_start 3 (replicate 516 CHR 0x00)
     \<lparr>participants = {}, recent_msgs = [], sessions = Map.empty, room_log = []\<rparr>"

lemma demo_room_reach: "reach chat_init (chat_step stream) demo_room"
  unfolding demo_room_def
  by (rule reach_one [where s = "\<lparr>participants = {}, recent_msgs = [], sessions = Map.empty, room_log = []\<rparr>"])
    (auto simp: chat_init_def lengths intro: chat_step.cs_accept)

lemma demo_room_session:
  "sessions demo_room 3 = Some (do_read_header (new_session (replicate 516 CHR 0x00)))"
  by (simp add: demo_room_def session_start_def room_join_def on_session_def set_session_def Let_def)

theorem chat_room_order_witness:
  "\<exists>j k. j \<le> k \<and> k \<le> length (room_log demo_room) \<and> written (do_read_header (new_session (replicate 516 CHR 0x00)))
     @ write_msgs (do_read_header (new_session (replicate 516 CHR 0x00))) = told (room_log demo_room) j k"
  using chat_room_order [OF demo_room_reach demo_room_session] by blast

end
