(* ===== verification/Chat_Client.thy ===== *)
theory Chat_Client
  imports Chat_Server
begin

text \<open>
  The chat client, \<^verbatim>\<open>src/boost/3.chat_client.cpp\<close>. The main thread turns lines into messages and
  posts them to the \<open>io_context\<close>, whose thread runs the posted functions in order and the
  completion handlers. \<open>conn\<close> has the reading buffer and the queue of messages to write, which
  are those of a session of the server; \<open>stream\<close> is all that the server ever sends. \<open>typed\<close> and
  \<open>screen\<close> record the lines read and printed.
\<close>

datatype post = Post_write chat_message | Post_close

record chat_client =
  conn :: session
  posts :: "post list"
  sock_open :: bool
  connecting :: bool
  connected :: bool
  input_ended :: bool
  typed :: "string list"
  screen :: "string list"

definition client_init :: "chat_client \<Rightarrow> bool" where
  "client_init c \<longleftrightarrow>
     (\<exists>junk. length junk = header_length + max_body_length \<and>
        c = \<lparr>conn = new_session junk, posts = [], sock_open = True, connecting = True,
             connected = False, input_ended = False, typed = [], screen = []\<rparr>)"

text \<open>The main thread: one round of the input loop, and the end of it.\<close>

definition client_line :: "string \<Rightarrow> string \<Rightarrow> chat_client \<Rightarrow> chat_client option" where
  "client_line junk line c =
     (case message_of_line junk line of
        None \<Rightarrow> None
      | Some m \<Rightarrow> Some (c\<lparr>posts := posts c @ [Post_write m], typed := typed c @ [line]\<rparr>))"

definition client_close :: "chat_client \<Rightarrow> chat_client" where
  "client_close c = c\<lparr>posts := posts c @ [Post_close], input_ended := True\<rparr>"

text \<open>The functions posted by \<open>write\<close> and \<open>close\<close>.\<close>

fun run_post :: "post \<Rightarrow> chat_client \<Rightarrow> chat_client" where
  "run_post (Post_write msg) c =
     (let write_in_progress = (write_msgs (conn c) \<noteq> []);
          s = (conn c)\<lparr>write_msgs := write_msgs (conn c) @ [msg]\<rparr>
      in c\<lparr>conn := (if \<not> write_in_progress then chat_do_write s else s)\<rparr>)"
| "run_post Post_close c = c\<lparr>sock_open := False\<rparr>"

definition run_next_post :: "chat_client \<Rightarrow> chat_client" where
  "run_next_post c = run_post (hd (posts c)) (c\<lparr>posts := tl (posts c)\<rparr>)"

section \<open>Handlers\<close>

definition connect_finished :: "bool \<Rightarrow> chat_client \<Rightarrow> chat_client" where
  "connect_finished ok c =
     (let c = c\<lparr>connecting := False\<rparr>
      in if ok then c\<lparr>connected := True, conn := do_read_header (conn c)\<rparr> else c)"

definition client_header_read :: "string option \<Rightarrow> chat_client \<Rightarrow> chat_client" where
  "client_header_read bytes c =
     (let s = conn c in
      case bytes of
        None \<Rightarrow> c\<lparr>conn := s\<lparr>read_phase := Not_reading\<rparr>, sock_open := False\<rparr>
      | Some b \<Rightarrow>
          (let (ok, m) = decode_header (fill_header b (read_msg s));
               s = s\<lparr>read_msg := m, read_pos := read_pos s + length b, read_phase := Not_reading\<rparr>
           in if ok then c\<lparr>conn := do_read_body s\<rparr> else c\<lparr>conn := s, sock_open := False\<rparr>))"

definition client_body_read :: "string option \<Rightarrow> chat_client \<Rightarrow> chat_client" where
  "client_body_read bytes c =
     (let s = conn c in
      case bytes of
        None \<Rightarrow> c\<lparr>conn := s\<lparr>read_phase := Not_reading\<rparr>, sock_open := False\<rparr>
      | Some b \<Rightarrow>
          (let m = fill_body b (read_msg s);
               s = s\<lparr>read_msg := m, read_pos := read_pos s + length b, read_phase := Not_reading\<rparr>
           in c\<lparr>conn := do_read_header s, screen := screen c @ [body m]\<rparr>))"

definition client_write_finished :: "bool \<Rightarrow> chat_client \<Rightarrow> chat_client" where
  "client_write_finished ok c =
     (let s = (conn c)\<lparr>pending_writes := pending_writes (conn c) - 1\<rparr> in
      if ok
      then
        (let s = s\<lparr>written := written s @ [hd (write_msgs s)], write_msgs := tl (write_msgs s)\<rparr>
         in c\<lparr>conn := (if write_msgs s \<noteq> [] then chat_do_write s else s)\<rparr>)
      else c\<lparr>conn := s, sock_open := False\<rparr>)"

text \<open>
  An operation can only succeed on an open, connected socket. \<open>getline\<close> delivers lines of at most
  512 characters; they end at a null byte, since their length is taken with \<open>strlen\<close>.
\<close>

inductive client_step :: "string \<Rightarrow> chat_client \<Rightarrow> chat_client \<Rightarrow> bool" for stream where
  cc_line: "\<not> input_ended c \<Longrightarrow> length junk = header_length + max_body_length \<Longrightarrow>
    length line \<le> max_body_length \<Longrightarrow> client_line junk line c = Some c' \<Longrightarrow> client_step stream c c'"
| cc_close: "\<not> input_ended c \<Longrightarrow> client_step stream c (client_close c)"
| cc_post: "posts c \<noteq> [] \<Longrightarrow> client_step stream c (run_next_post c)"
| cc_connect: "connecting c \<Longrightarrow> (ok \<Longrightarrow> sock_open c) \<Longrightarrow>
    client_step stream c (connect_finished ok c)"
| cc_header: "read_phase (conn c) = Read_header \<Longrightarrow> sock_open c \<Longrightarrow>
    read_pos (conn c) + header_length \<le> length stream \<Longrightarrow>
    client_step stream c (client_header_read (Some (take header_length (drop (read_pos (conn c)) stream))) c)"
| cc_header_error: "read_phase (conn c) = Read_header \<Longrightarrow> client_step stream c (client_header_read None c)"
| cc_body: "read_phase (conn c) = Read_body \<Longrightarrow> sock_open c \<Longrightarrow>
    read_pos (conn c) + body_length (read_msg (conn c)) \<le> length stream \<Longrightarrow>
    client_step stream c
      (client_body_read (Some (take (body_length (read_msg (conn c))) (drop (read_pos (conn c)) stream))) c)"
| cc_body_error: "read_phase (conn c) = Read_body \<Longrightarrow> client_step stream c (client_body_read None c)"
| cc_write: "0 < pending_writes (conn c) \<Longrightarrow> (ok \<Longrightarrow> sock_open c \<and> connected c) \<Longrightarrow>
    client_step stream c (client_write_finished ok c)"

section \<open>What the client writes and prints\<close>

fun post_messages :: "post list \<Rightarrow> chat_message list" where
  "post_messages [] = []"
| "post_messages (Post_write m # ps) = m # post_messages ps"
| "post_messages (Post_close # ps) = post_messages ps"

definition client_write_inv :: "chat_client \<Rightarrow> bool" where
  "client_write_inv c \<longleftrightarrow>
     map body (written (conn c) @ write_msgs (conn c) @ post_messages (posts c)) = typed c
     \<and> (\<forall>m\<in>set (written (conn c) @ write_msgs (conn c) @ post_messages (posts c)). framed m)
     \<and> write_ok (sock_open c) (conn c)"

definition client_read_inv :: "string \<Rightarrow> chat_client \<Rightarrow> bool" where
  "client_read_inv stream c \<longleftrightarrow>
     (\<exists>xs. map body xs = screen c \<and> session_read stream xs (conn c)
        \<and> (connecting c \<longrightarrow> xs = [] \<and> read_pos (conn c) = 0 \<and> read_phase (conn c) = Not_reading))"

lemma post_messages_append [simp]: "post_messages (ps @ qs) = post_messages ps @ post_messages qs"
  by (induction ps rule: post_messages.induct) auto

lemma client_write_inv_step:
  assumes "client_write_inv c" "client_step stream c c'"
  shows "client_write_inv c'"
  using assms(2)
proof cases
  case (cc_line junk line)
  then obtain m where "message_of_line junk line = Some m" "framed m" "body m = line"
    using message_of_line_framed [of junk line] by (auto simp: lengths)
  with cc_line(4) assms(1) show ?thesis by (auto simp: client_line_def client_write_inv_def)
next
  case cc_post
  then obtain p ps where "posts c = p # ps" by (cases "posts c") auto
  with cc_post assms(1) show ?thesis
    by (cases p) (auto simp: run_next_post_def client_write_inv_def chat_do_write_def write_ok_def Let_def)
next
  case (cc_write ok)
  then have w: "write_msgs (conn c) \<noteq> []" "pending_writes (conn c) = 1"
    using assms(1) by (auto simp: client_write_inv_def write_ok_def)
  then obtain m ms where "write_msgs (conn c) = m # ms" by (cases "write_msgs (conn c)") auto
  with cc_write w assms(1) show ?thesis
    by (cases ok; cases ms) (auto simp: client_write_finished_def client_write_inv_def chat_do_write_def write_ok_def Let_def)
qed (use assms(1) in \<open>auto simp: client_write_inv_def client_close_def connect_finished_def client_header_read_def
      client_body_read_def do_read_header_def do_read_body_def write_ok_def Let_def split: prod.splits\<close>)

lemma client_read_inv_same:
  assumes "client_read_inv stream c" "read_phase (conn c') = read_phase (conn c)"
    "read_pos (conn c') = read_pos (conn c)" "read_msg (conn c') = read_msg (conn c)"
    "screen c' = screen c" "connecting c' = connecting c"
  shows "client_read_inv stream c'"
  using assms by (simp add: client_read_inv_def session_read_cong [of "conn c'" "conn c"])

lemma client_read_inv_step:
  assumes "client_read_inv stream c" "client_step stream c c'"
  shows "client_read_inv stream c'"
proof -
  obtain xs where xs: "map body xs = screen c" "session_read stream xs (conn c)"
      "connecting c \<Longrightarrow> xs = [] \<and> read_pos (conn c) = 0 \<and> read_phase (conn c) = Not_reading"
    using assms(1) by (auto simp: client_read_inv_def)
  show ?thesis
    using assms(2)
  proof cases
    case cc_header
    let ?b = "take header_length (drop (read_pos (conn c)) stream)"
    obtain ok m where d: "decode_header (fill_header ?b (read_msg (conn c))) = (ok, m)"
      by (cases "decode_header (fill_header ?b (read_msg (conn c)))") auto
    have "\<not> connecting c" using xs(3) cc_header by auto
    moreover have "length ?b = header_length" using cc_header by simp
    ultimately show ?thesis
      using cc_header d xs(1) session_read_header [OF xs(2) cc_header(2,4) d]
      by (cases ok) (auto simp: client_read_inv_def client_header_read_def do_read_body_def Let_def)
  next
    case cc_body
    have "\<not> connecting c" using xs(3) cc_body by auto
    then show ?thesis
      using cc_body xs(1) session_read_body(2) [OF xs(2) cc_body(2,4)]
      by (auto simp: client_read_inv_def client_body_read_def do_read_header_def Let_def intro!: exI)
  next
    case cc_header_error
    then show ?thesis using xs session_read_stop [OF xs(2)]
      by (auto simp: client_read_inv_def client_header_read_def)
  next
    case cc_body_error
    then show ?thesis using xs session_read_stop [OF xs(2)]
      by (auto simp: client_read_inv_def client_body_read_def)
  next
    case (cc_connect ok)
    then have init: "xs = []" "read_pos (conn c) = 0" "screen c = []" "message_ok (read_msg (conn c))"
      using xs by (auto simp: session_read_def)
    have "session_read stream [] (do_read_header (conn c))"
      using init by (auto simp: session_read_def do_read_header_def)
    then show ?thesis
      using cc_connect xs init by (cases ok) (auto simp: client_read_inv_def connect_finished_def Let_def)
  next
    case cc_post
    then show ?thesis
      by (intro client_read_inv_same [OF assms(1)]; cases "hd (posts c)")
        (simp_all add: run_next_post_def chat_do_write_def Let_def)
  next
    case (cc_write ok)
    then show ?thesis
      by (intro client_read_inv_same [OF assms(1)])
        (simp_all add: client_write_finished_def chat_do_write_def Let_def)
  next
    case (cc_line junk line)
    then show ?thesis
      by (intro client_read_inv_same [OF assms(1)]) (auto simp: client_line_def split: option.splits)
  next
    case cc_close
    then show ?thesis by (intro client_read_inv_same [OF assms(1)]) (simp_all add: client_close_def)
  qed
qed


interpretation client: invariant_system client_init "client_step stream"
  "\<lambda>c. client_write_inv c \<and> client_read_inv stream c" for stream
proof
  fix c assume "client_init c"
  then obtain junk where "length junk = 516" "conn c = new_session junk" "posts c = []" "typed c = []" "screen c = []"
    by (auto simp: client_init_def lengths)
  moreover from this have "message_ok (new_message junk)" by (simp add: message_ok_def new_message_def lengths)
  ultimately show "client_write_inv c \<and> client_read_inv stream c"
    by (auto simp: client_write_inv_def client_read_inv_def new_session_def write_ok_def session_read_def)
qed (auto intro: client_write_inv_step client_read_inv_step)

lemma client_screen:
  assumes "reach client_init (client_step stream) c"
  shows "\<exists>m0. message_ok m0 \<and> prefix (screen c) (map body (read_frames m0 stream))"
proof -
  obtain xs where "map body xs = screen c" "session_read stream xs (conn c)"
    using client.invariant [OF assms] by (auto simp: client_read_inv_def)
  moreover from this obtain m0 where "message_ok m0" "prefix xs (read_frames m0 stream)"
    unfolding session_read_def by (cases "read_phase (conn c)") auto
  ultimately show ?thesis by (metis map_mono_prefix)
qed

section \<open>A conversation\<close>

text \<open>A stream that carries framed messages, and may break off anywhere.\<close>

definition carries :: "string \<Rightarrow> chat_message list \<Rightarrow> bool" where
  "carries str ms \<longleftrightarrow> prefix str (concat (map frame ms))"

lemma carries_bodies:
  assumes "carries str ms" "\<forall>m\<in>set ms. framed m" "message_ok m0"
  shows "prefix (map body (read_frames m0 str)) (map body ms)"
proof -
  obtain t where "concat (map frame ms) = str @ t" using assms(1) by (auto simp: carries_def prefix_def)
  then have "prefix (read_frames m0 str) (read_frames m0 (concat (map frame ms)))" by (simp add: read_frames_prefix)
  then show ?thesis using read_frames_all [OF assms(2,3)] by (metis map_mono_prefix)
qed

lemma set_told: "set (told log j k) \<subseteq> snd ` set log"
proof -
  have "set (last_n n xs) \<subseteq> set xs" for n and xs :: "chat_message list" by (simp add: last_n_def set_drop_subset)
  moreover have "set (take j log) \<subseteq> set log" "set (drop j (take k log)) \<subseteq> set log"
    by (meson set_drop_subset set_take_subset subset_trans)+
  ultimately show ?thesis unfolding told_def by fastforce
qed

text \<open>
  C19. A whole conversation. Let the bytes of client \<open>k\<close> reach the server's session \<open>k\<close>, and the
  bytes of session \<open>i\<close> reach client \<open>i\<close>, each stream possibly broken off. Then what \<open>k\<close> says in the
  room is a beginning of the lines typed at client \<open>k\<close>, in order; and what client \<open>i\<close> prints is a
  beginning of one stretch of the room's log: the last hundred messages before it joined, then
  all that follows. All clients see the same order.
\<close>

theorem chat_conversation:
  assumes "reach chat_init (chat_step up) r" "sessions r i = Some s"
    and "reach client_init (client_step down_k) ck" "carries (up k) (written (conn ck))"
    and "reach client_init (client_step down) ci" "carries down (written s)"
  shows "prefix (map body (said k (room_log r))) (typed ck)
    \<and> (\<exists>j l. j \<le> l \<and> l \<le> length (room_log r) \<and> prefix (screen ci) (map body (told (room_log r) j l)))"
proof
  have "client_write_inv ck" using client.invariant [OF assms(3)] by blast
  then have ck: "\<forall>m\<in>set (written (conn ck)). framed m" "prefix (map body (written (conn ck))) (typed ck)"
    unfolding client_write_inv_def prefix_def by (simp, metis map_append)
  obtain m0 where "message_ok m0" "prefix (said k (room_log r)) (read_frames m0 (up k))"
    using said_prefix [OF assms(1)] by blast
  then show "prefix (map body (said k (room_log r))) (typed ck)"
    using carries_bodies [OF assms(4) ck(1)] ck(2) by (meson map_mono_prefix prefix_order.trans)
next
  obtain j l where jl: "j \<le> l" "l \<le> length (room_log r)" "written s @ write_msgs s = told (room_log r) j l"
    using session_told [OF assms(1,2)] by (auto simp: heard_ok_def)
  then have "\<forall>m\<in>set (written s). framed m"
    using set_told [of "room_log r" j l] room_log_framed [OF assms(1)] by (metis UnCI imageE set_append subsetD)
  moreover obtain m0 where "message_ok m0" "prefix (screen ci) (map body (read_frames m0 down))"
    using client_screen [OF assms(5)] by blast
  ultimately have "prefix (screen ci) (map body (written s))"
    using carries_bodies [OF assms(6)] by (meson prefix_order.trans)
  then have "prefix (screen ci) (map body (told (room_log r) j l))"
    unfolding jl(3) [symmetric] by (simp add: prefix_append)
  with jl show "\<exists>j l. j \<le> l \<and> l \<le> length (room_log r) \<and> prefix (screen ci) (map body (told (room_log r) j l))"
    by blast
qed


definition demo_client :: chat_client where
  "demo_client = \<lparr>conn = new_session (replicate 516 CHR 0x00), posts = [], sock_open = True, connecting = True,
     connected = False, input_ended = False, typed = [], screen = []\<rparr>"

lemma demo_client_reach: "reach client_init (client_step down) demo_client"
proof -
  have "client_init demo_client"
    unfolding client_init_def demo_client_def
    by (rule exI [of _ "replicate 516 CHR 0x00"]) (simp add: lengths)
  then show ?thesis by (rule reach.reach_init)
qed

theorem chat_conversation_witness:
  "prefix (map body (said 5 (room_log demo_room))) (typed demo_client)"
proof -
  have "carries [] ms" for ms by (simp add: carries_def)
  then show ?thesis
    using chat_conversation [OF demo_room_reach [of "\<lambda>_. []"] demo_room_session demo_client_reach [of "[]"] _
        demo_client_reach [of "[]"], of 5] by blast
qed

end
