(* ===== verification/Linked_List.thy ===== *)
theory Linked_List
  imports Main
begin

text \<open>
  The list macros of \<^verbatim>\<open>src/zl_threadpool/01_simple_threadPool/threadPool.cpp\<close>, \<open>LL_INSERT\<close> and
  \<open>LL_REMOVE\<close>, on an explicit store: addresses are numbers, a null pointer is \<open>None\<close>, and
  an access through a pointer to no node is a fault, \<open>None\<close> as a result. The lemmas show that the
  pointer surgery implements \<open>Cons\<close> and \<open>remove1\<close> on the list of addresses and leaves all other
  memory alone.
\<close>

type_synonym addr = nat

record 'a node =
  payload :: 'a
  prev :: "addr option"
  nxt :: "addr option"

type_synonym 'a store = "addr \<rightharpoonup> 'a node"

section \<open>The macros\<close>

text \<open>\<open>p->prev = q\<close> and \<open>p->next = q\<close>.\<close>

definition set_prev :: "addr \<Rightarrow> addr option \<Rightarrow> 'a store \<Rightarrow> 'a store option" where
  "set_prev p q h = (case h p of None \<Rightarrow> None | Some n \<Rightarrow> Some (h(p \<mapsto> n\<lparr>prev := q\<rparr>)))"

definition set_next :: "addr \<Rightarrow> addr option \<Rightarrow> 'a store \<Rightarrow> 'a store option" where
  "set_next p q h = (case h p of None \<Rightarrow> None | Some n \<Rightarrow> Some (h(p \<mapsto> n\<lparr>nxt := q\<rparr>)))"

definition LL_INSERT :: "addr \<Rightarrow> addr option \<Rightarrow> 'a store \<Rightarrow> ('a store \<times> addr option) option" where
  "LL_INSERT item list h =
     Option.bind (set_prev item None h) (\<lambda>h.
     Option.bind (set_next item list h) (\<lambda>h.
     Option.bind (case list of None \<Rightarrow> Some h | Some l \<Rightarrow> set_prev l (Some item) h) (\<lambda>h.
     Some (h, Some item))))"

definition LL_REMOVE :: "addr \<Rightarrow> addr option \<Rightarrow> 'a store \<Rightarrow> ('a store \<times> addr option) option" where
  "LL_REMOVE item list h =
     Option.bind (h item) (\<lambda>n.
     Option.bind (case prev n of None \<Rightarrow> Some h | Some p \<Rightarrow> set_next p (nxt n) h) (\<lambda>h.
     Option.bind (h item) (\<lambda>n.
     Option.bind (case nxt n of None \<Rightarrow> Some h | Some q \<Rightarrow> set_prev q (prev n) h) (\<lambda>h.
     Option.bind (h item) (\<lambda>n.
     let list = (if list = Some item then nxt n else list)
     in Option.bind (set_next item None h) (\<lambda>h.
        Option.bind (set_prev item None h) (\<lambda>h.
        Some (h, list))))))))"

section \<open>The list in the store\<close>

text \<open>
  A doubly linked segment: entered at \<open>start\<close>, the first node points back to \<open>before\<close> and the last
  one on to \<open>after\<close>.
\<close>

fun dseg :: "'a store \<Rightarrow> addr option \<Rightarrow> addr option \<Rightarrow> addr list \<Rightarrow> addr option \<Rightarrow> bool" where
  "dseg h before start [] after = (start = after)"
| "dseg h before start (a # as) after =
     (start = Some a \<and> (case h a of None \<Rightarrow> False | Some n \<Rightarrow> prev n = before \<and> dseg h (Some a) (nxt n) as after))"

definition is_list :: "'a store \<Rightarrow> addr option \<Rightarrow> addr list \<Rightarrow> bool" where
  "is_list h list xs \<longleftrightarrow> distinct xs \<and> dseg h None list xs None"

definition last_or :: "addr option \<Rightarrow> addr list \<Rightarrow> addr option" where
  "last_or before xs = (if xs = [] then before else Some (last xs))"

lemma dseg_cong: "\<forall>a\<in>set xs. h' a = h a \<Longrightarrow> dseg h' before start xs after = dseg h before start xs after"
  by (induction xs arbitrary: before start) (auto split: option.splits)

lemma dseg_alloc: "dseg h before start xs after \<Longrightarrow> a \<in> set xs \<Longrightarrow> h a \<noteq> None"
  by (induction xs arbitrary: before start) (auto split: option.splits)

lemma dseg_append:
  "dseg h before start (xs @ ys) after \<longleftrightarrow>
   (\<exists>m. dseg h before start xs m \<and> dseg h (last_or before xs) m ys after)"
  by (induction xs arbitrary: before start) (auto simp: last_or_def split: option.splits)

text \<open>Writing the \<open>prev\<close> field of the first node, and the \<open>next\<close> field of the last.\<close>

lemma dseg_set_prev:
  assumes "dseg h before start (a # as) after" "a \<notin> set as"
  shows "\<exists>n. h a = Some n \<and> dseg (h(a \<mapsto> n\<lparr>prev := before'\<rparr>)) before' start (a # as) after"
proof -
  obtain n where n: "h a = Some n" "dseg h (Some a) (nxt n) as after" "start = Some a"
    using assms(1) by (auto split: option.splits)
  then have "dseg (h(a \<mapsto> n\<lparr>prev := before'\<rparr>)) (Some a) (nxt n) as after"
    using dseg_cong [of as "h(a \<mapsto> n\<lparr>prev := before'\<rparr>)" h] assms(2) by (simp add: fun_upd_def)
  with n show ?thesis by simp
qed

lemma dseg_set_next:
  assumes "dseg h before start (as @ [a]) after" "a \<notin> set as"
  shows "\<exists>n. h a = Some n \<and> dseg (h(a \<mapsto> n\<lparr>nxt := after'\<rparr>)) before start (as @ [a]) after'"
proof -
  obtain n where n: "h a = Some n" "dseg h before start as (Some a)" "prev n = last_or before as"
    using assms(1) by (auto simp: dseg_append split: option.splits)
  then have "dseg (h(a \<mapsto> n\<lparr>nxt := after'\<rparr>)) before start as (Some a)"
    using dseg_cong [of as "h(a \<mapsto> n\<lparr>nxt := after'\<rparr>)" h] assms(2) by (simp add: fun_upd_def)
  with n show ?thesis by (auto simp: dseg_append)
qed

section \<open>Insertion\<close>

text \<open>What the macros keep: the payload of every node, and all nodes that are not on the list.\<close>

definition same_payload :: "'a store \<Rightarrow> 'a store \<Rightarrow> bool" where
  "same_payload h h' \<longleftrightarrow> (\<forall>a. map_option payload (h' a) = map_option payload (h a))"

lemma same_payload_trans: "same_payload h h' \<Longrightarrow> same_payload h' h'' \<Longrightarrow> same_payload h h''"
  by (simp add: same_payload_def)

lemma same_payload_dom: "same_payload h h' \<Longrightarrow> dom h' = dom h"
  unfolding same_payload_def by (metis (no_types) domIff map_option_is_None subsetI subset_antisym)

lemma set_next_payload: "set_next p q h = Some h' \<Longrightarrow> same_payload h h'"
  by (auto simp: set_next_def same_payload_def split: option.splits)

lemma set_prev_payload: "set_prev p q h = Some h' \<Longrightarrow> same_payload h h'"
  by (auto simp: set_prev_def same_payload_def split: option.splits)

lemma LL_INSERT_ok:
  assumes "is_list h list xs" "item \<notin> set xs" "h item \<noteq> None"
  shows "\<exists>h'. LL_INSERT item list h = Some (h', Some item) \<and> is_list h' (Some item) (item # xs)
    \<and> (\<forall>a. a \<notin> set (item # xs) \<longrightarrow> h' a = h a) \<and> same_payload h h'"
proof -
  obtain n where n: "h item = Some n" using assms(3) by blast
  let ?h1 = "h(item \<mapsto> n\<lparr>prev := None, nxt := list\<rparr>)"
  have step: "set_prev item None h = Some (h(item \<mapsto> n\<lparr>prev := None\<rparr>))"
    "set_next item list (h(item \<mapsto> n\<lparr>prev := None\<rparr>)) = Some ?h1"
    using n by (simp_all add: set_prev_def set_next_def)
  have d: "dseg ?h1 None list xs None" using dseg_cong [of xs ?h1 h] assms(1,2) by (auto simp: is_list_def)
  show ?thesis
  proof (cases xs)
    case Nil
    then have "list = None" using d by simp
    with Nil step n d show ?thesis by (auto simp: LL_INSERT_def is_list_def same_payload_def)
  next
    case (Cons l as)
    then have l: "list = Some l" "l \<notin> set as" "l \<noteq> item" using d assms by (auto simp: is_list_def)
    obtain m where m: "?h1 l = Some m" "dseg (?h1(l \<mapsto> m\<lparr>prev := Some item\<rparr>)) (Some item) list xs None"
      using dseg_set_prev d l unfolding Cons by metis
    let ?h2 = "?h1(l \<mapsto> m\<lparr>prev := Some item\<rparr>)"
    have "LL_INSERT item list h = Some (?h2, Some item)"
      using step l m(1) by (simp add: LL_INSERT_def set_prev_def)
    moreover have "is_list ?h2 (Some item) (item # xs)"
      using m(2) l assms(1,2) by (auto simp: is_list_def)
    ultimately show ?thesis using Cons l m n by (auto simp: same_payload_def)
  qed
qed

section \<open>Removal\<close>

text \<open>Bypassing a node from the left and from the right.\<close>

lemma unlink_left:
  assumes "dseg h before start (ps @ a # qs) after" "distinct (ps @ a # qs)" "h a = Some n"
  shows "\<exists>h'. (case last_or None ps of None \<Rightarrow> Some h | Some p \<Rightarrow> set_next p (nxt n) h) = Some h'
    \<and> dseg h' before (if ps = [] then nxt n else start) ps (nxt n)
    \<and> dseg h' (Some a) (nxt n) qs after \<and> (\<forall>x. x \<notin> set ps \<longrightarrow> h' x = h x) \<and> same_payload h h'"
proof -
  have seg: "dseg h before start ps (Some a)" "dseg h (Some a) (nxt n) qs after"
    using assms(1,3) by (auto simp: dseg_append)
  show ?thesis
  proof (cases ps rule: rev_cases)
    case Nil
    with seg show ?thesis by (simp add: last_or_def same_payload_def)
  next
    case (snoc ps' p)
    then obtain m where m: "h p = Some m" "dseg (h(p \<mapsto> m\<lparr>nxt := nxt n\<rparr>)) before start ps (nxt n)"
      using dseg_set_next [of h before start ps' p "Some a" "nxt n"] seg(1) assms(2) by auto
    let ?h' = "h(p \<mapsto> m\<lparr>nxt := nxt n\<rparr>)"
    have "dseg ?h' (Some a) (nxt n) qs after"
      using dseg_cong [of qs ?h' h] seg(2) assms(2) snoc by auto
    moreover have "set_next p (nxt n) h = Some ?h'" using m(1) by (simp add: set_next_def)
    ultimately show ?thesis using m snoc set_next_payload [of p "nxt n" h ?h'] by (auto simp: last_or_def)
  qed
qed

lemma unlink_right:
  assumes "dseg h before start qs after" "distinct qs"
  shows "\<exists>h'. (case start of None \<Rightarrow> Some h | Some q \<Rightarrow> (if qs = [] then Some h else set_prev q before' h)) = Some h'
    \<and> dseg h' before' start qs after \<and> (\<forall>x. x \<notin> set qs \<longrightarrow> h' x = h x) \<and> same_payload h h'"
proof (cases qs)
  case Nil
  then show ?thesis using assms by (auto simp: same_payload_def split: option.splits)
next
  case (Cons q qs')
  then have q: "start = Some q" "q \<notin> set qs'" using assms by auto
  obtain m where m: "h q = Some m" "dseg (h(q \<mapsto> m\<lparr>prev := before'\<rparr>)) before' start qs after"
    using dseg_set_prev [of h before start q qs' after] assms(1) q unfolding Cons by blast
  then have "set_prev q before' h = Some (h(q \<mapsto> m\<lparr>prev := before'\<rparr>))" by (simp add: set_prev_def)
  with m q Cons show ?thesis
    using set_prev_payload [of q before' h "h(q \<mapsto> m\<lparr>prev := before'\<rparr>)"] by auto
qed


lemma LL_REMOVE_ok:
  assumes "is_list h list (ps @ a # qs)"
  shows "\<exists>h' list'. LL_REMOVE a list h = Some (h', list') \<and> is_list h' list' (ps @ qs)
    \<and> (\<forall>x. x \<notin> set (ps @ a # qs) \<longrightarrow> h' x = h x) \<and> same_payload h h'"
proof -
  have dist: "distinct (ps @ a # qs)" and seg: "dseg h None list (ps @ a # qs) None"
    using assms by (auto simp: is_list_def)
  obtain n where n: "h a = Some n" "prev n = last_or None ps" using seg by (auto simp: dseg_append split: option.splits)
  obtain h1 where h1: "(case prev n of None \<Rightarrow> Some h | Some p \<Rightarrow> set_next p (nxt n) h) = Some h1"
      "dseg h1 None (if ps = [] then nxt n else list) ps (nxt n)" "dseg h1 (Some a) (nxt n) qs None"
      "\<forall>x. x \<notin> set ps \<longrightarrow> h1 x = h x" "same_payload h h1"
    using unlink_left [OF seg dist n(1)] n(2) by auto
  have a1: "h1 a = Some n" using h1(4) n(1) dist by auto
  have qs: "distinct qs" "nxt n = (case qs of [] \<Rightarrow> None | q # _ \<Rightarrow> Some q)"
    using dist h1(3) by (cases qs; auto)+
  obtain h2 where h2: "(case nxt n of None \<Rightarrow> Some h1 | Some q \<Rightarrow> set_prev q (prev n) h1) = Some h2"
      "dseg h2 (prev n) (nxt n) qs None" "\<forall>x. x \<notin> set qs \<longrightarrow> h2 x = h1 x" "same_payload h1 h2"
    using unlink_right [OF h1(3) qs(1), of "prev n"] qs(2) by (cases qs) auto
  have a2: "h2 a = Some n" using h2(3) a1 dist by auto
  let ?h3 = "h2(a \<mapsto> n\<lparr>nxt := None\<rparr>)" and ?h4 = "h2(a \<mapsto> n\<lparr>nxt := None, prev := None\<rparr>)"
  let ?list = "if list = Some a then nxt n else list"
  have "set_next a None h2 = Some ?h3" "set_prev a None ?h3 = Some ?h4"
    using a2 by (simp_all add: set_next_def set_prev_def)
  then have run: "LL_REMOVE a list h = Some (?h4, ?list)"
    using n(1) h1(1) a1 h2(1) a2 by (simp add: LL_REMOVE_def)
  have start: "?list = (if ps = [] then nxt n else list)" using seg dist by (cases ps) auto
  have "\<forall>x\<in>set ps. ?h4 x = h1 x" using h2(3) dist by auto
  then have "dseg ?h4 None ?list ps (nxt n)"
    using h1(2) dseg_cong [of ps ?h4 h1] unfolding start by metis
  moreover have "dseg ?h4 (last_or None ps) (nxt n) qs None"
    using h2(2) dseg_cong [of qs ?h4 h2] dist n(2) by auto
  ultimately have "is_list ?h4 ?list (ps @ qs)" using dist by (auto simp: is_list_def dseg_append)
  moreover have "same_payload h ?h4"
    using same_payload_trans [OF h1(5) h2(4)] a2 n(1) by (auto simp: same_payload_def)
  moreover have "\<forall>x. x \<notin> set (ps @ a # qs) \<longrightarrow> ?h4 x = h x" using h1(4) h2(3) by auto
  ultimately show ?thesis using run by blast
qed

end
