(* ===== verification/Simple_Pool.thy ===== *)
theory Simple_Pool
  imports Linked_List Transition "HOL-Library.Multiset"
begin

text \<open>
  The pool of \<^verbatim>\<open>src/zl_threadpool/01_simple_threadPool/threadPool.cpp\<close>. Its jobs are nodes of
  the callers, linked in front of the list \<open>jobs\<close> and taken from the front. A critical section of
  \<open>mtx\<close> is one step, except that testing \<open>terminate\<close> and falling asleep are two (phase
  \<open>N_checked\<close>, mutex held), since \<open>nThreadPoolDestory\<close> sets that flag without the mutex, worker by
  worker. A worker frees its own node when it exits; following a pointer into a freed worker is
  \<open>D_fault\<close>. \<open>pushed\<close> and \<open>taken\<close> record what the jobs carry.
\<close>

datatype nphase = N_lock | N_checked | N_sleep | N_run nat | N_freed

datatype destroyer = D_idle | D_at nat | D_set nat | D_broadcast | D_over | D_fault

record npool =
  nstore :: "nat store"
  jobs :: "addr option"
  nworkers :: nat
  terminate :: "nat \<Rightarrow> bool"
  nphase :: "nat \<Rightarrow> nphase"
  nmutex :: "nat option"
  destroyer :: destroyer
  pushed :: "nat list"
  taken :: "nat list"

section \<open>Operations\<close>

text \<open>
  The loop of \<open>nThreadPoolCreate\<close>; \<open>malloc_ok\<close> and \<open>create_ok\<close> say whether the \<open>i\<close>-th \<open>malloc\<close> and
  \<open>pthread_create\<close> succeed. Worker \<open>i\<close> is linked in front of worker \<open>i - 1\<close>.
\<close>

function create_workers :: "(nat \<Rightarrow> bool) \<Rightarrow> (nat \<Rightarrow> bool) \<Rightarrow> nat \<Rightarrow> nat \<Rightarrow> npool \<Rightarrow> int \<times> npool" where
  "create_workers malloc_ok create_ok i num p =
     (if i < num
      then if \<not> malloc_ok i then (- 2, p)
        else if \<not> create_ok i then (- 3, p)
        else create_workers malloc_ok create_ok (i + 1) num
               (p\<lparr>nworkers := i + 1, nphase := (nphase p)(i := N_lock)\<rparr>)
      else (0, p))"
  by pat_completeness auto
termination
  by (relation "measure (\<lambda>(_, _, i, num, _). num - i)") auto

declare create_workers.simps [simp del]

definition blank_pool :: "nat store \<Rightarrow> npool" where
  "blank_pool h =
     \<lparr>nstore = h, jobs = None, nworkers = 0, terminate = (\<lambda>_. False), nphase = (\<lambda>_. N_freed), nmutex = None,
      destroyer = D_idle, pushed = [], taken = []\<rparr>"

definition nThreadPoolCreate ::
  "(nat \<Rightarrow> bool) \<Rightarrow> (nat \<Rightarrow> bool) \<Rightarrow> int \<Rightarrow> nat store \<Rightarrow> int \<times> npool" where
  "nThreadPoolCreate malloc_ok create_ok numWorker h =
     create_workers malloc_ok create_ok 0 (nat (if numWorker < 1 then 1 else numWorker)) (blank_pool h)"

definition set_nphase :: "nat \<Rightarrow> nphase \<Rightarrow> npool \<Rightarrow> npool" where
  "set_nphase i w p = p\<lparr>nphase := (nphase p)(i := w)\<rparr>"

text \<open>One critical section of \<open>nThreadCallback\<close>; \<open>None\<close> is an invalid access in the job list.\<close>

definition n_section :: "nat \<Rightarrow> npool \<Rightarrow> npool option" where
  "n_section i p =
     (case jobs p of
        None \<Rightarrow> if terminate p i then Some (set_nphase i N_freed p)
                else Some ((set_nphase i N_checked p)\<lparr>nmutex := Some i\<rparr>)
      | Some job \<Rightarrow>
          if terminate p i then Some (set_nphase i N_freed p)
          else Option.bind (LL_REMOVE job (jobs p) (nstore p)) (\<lambda>(h, js).
               Option.bind (h job) (\<lambda>n.
               Some ((set_nphase i (N_run (payload n)) p)\<lparr>nstore := h, jobs := js, taken := taken p @ [payload n]\<rparr>))))"

definition n_wait :: "nat \<Rightarrow> npool \<Rightarrow> npool" where
  "n_wait i p = (set_nphase i N_sleep p)\<lparr>nmutex := None\<rparr>"

text \<open>\<open>pthread_cond_signal\<close> wakes the sleeper \<open>k\<close>, or nobody.\<close>

definition wake :: "nat option \<Rightarrow> npool \<Rightarrow> npool" where
  "wake k p = (case k of None \<Rightarrow> p | Some i \<Rightarrow> set_nphase i N_lock p)"

definition nThreadPoolPushTask :: "addr \<Rightarrow> nat option \<Rightarrow> npool \<Rightarrow> npool option" where
  "nThreadPoolPushTask job k p =
     Option.bind (nstore p job) (\<lambda>n.
     Option.bind (LL_INSERT job (jobs p) (nstore p)) (\<lambda>(h, js).
     Some (wake k (p\<lparr>nstore := h, jobs := js, pushed := pushed p @ [payload n]\<rparr>))))"

text \<open>\<open>nThreadPoolDestory\<close>: the walk over the workers, then the broadcast under the mutex.\<close>

definition destroy_start :: "npool \<Rightarrow> npool" where
  "destroy_start p = p\<lparr>destroyer := (if nworkers p = 0 then D_broadcast else D_at (nworkers p - 1))\<rparr>"

definition destroy_mark :: "nat \<Rightarrow> npool \<Rightarrow> npool" where
  "destroy_mark w p =
     (if nphase p w = N_freed then p\<lparr>destroyer := D_fault\<rparr>
      else p\<lparr>terminate := (terminate p)(w := True), destroyer := D_set w\<rparr>)"

definition destroy_next :: "nat \<Rightarrow> npool \<Rightarrow> npool" where
  "destroy_next w p =
     (if nphase p w = N_freed then p\<lparr>destroyer := D_fault\<rparr>
      else p\<lparr>destroyer := (if w = 0 then D_broadcast else D_at (w - 1))\<rparr>)"

definition destroy_broadcast :: "npool \<Rightarrow> npool" where
  "destroy_broadcast p =
     p\<lparr>destroyer := D_over, nphase := (\<lambda>i. if nphase p i = N_sleep then N_lock else nphase p i)\<rparr>"

text \<open>
  A caller pushes a node that is not on the list, and may do what it likes with such nodes. It
  does not push once it has begun to destroy the pool.
\<close>

definition off_list :: "addr \<Rightarrow> npool \<Rightarrow> bool" where
  "off_list a p \<longleftrightarrow> (\<exists>xs. is_list (nstore p) (jobs p) xs \<and> a \<notin> set xs)"

definition may_wake :: "nat option \<Rightarrow> npool \<Rightarrow> bool" where
  "may_wake k p \<longleftrightarrow>
     (case k of None \<Rightarrow> \<forall>i. nphase p i \<noteq> N_sleep | Some i \<Rightarrow> nphase p i = N_sleep)"

inductive simple_step :: "npool \<Rightarrow> npool \<Rightarrow> bool" where
  ss_section: "nphase p i = N_lock \<Longrightarrow> nmutex p = None \<Longrightarrow> n_section i p = Some q \<Longrightarrow> simple_step p q"
| ss_wait: "nphase p i = N_checked \<Longrightarrow> simple_step p (n_wait i p)"
| ss_spurious: "nphase p i = N_sleep \<Longrightarrow> simple_step p (set_nphase i N_lock p)"
| ss_done: "nphase p i = N_run t \<Longrightarrow> simple_step p (set_nphase i N_lock p)"
| ss_push: "nmutex p = None \<Longrightarrow> destroyer p = D_idle \<Longrightarrow> off_list job p \<Longrightarrow> may_wake k p \<Longrightarrow>
    nThreadPoolPushTask job k p = Some q \<Longrightarrow> simple_step p q"
| ss_client: "off_list a p \<Longrightarrow> simple_step p (p\<lparr>nstore := (nstore p)(a := n)\<rparr>)"
| ss_destroy: "destroyer p = D_idle \<Longrightarrow> simple_step p (destroy_start p)"
| ss_mark: "destroyer p = D_at w \<Longrightarrow> simple_step p (destroy_mark w p)"
| ss_next: "destroyer p = D_set w \<Longrightarrow> simple_step p (destroy_next w p)"
| ss_broadcast: "destroyer p = D_broadcast \<Longrightarrow> nmutex p = None \<Longrightarrow> simple_step p (destroy_broadcast p)"

definition simple_init :: "npool \<Rightarrow> bool" where
  "simple_init p \<longleftrightarrow> (\<exists>malloc_ok create_ok num h. p = snd (nThreadPoolCreate malloc_ok create_ok num h))"

section \<open>The list of jobs\<close>

definition payloads :: "nat store \<Rightarrow> addr list \<Rightarrow> nat list" where
  "payloads h xs = map (\<lambda>a. payload (the (h a))) xs"

definition jobs_ok :: "npool \<Rightarrow> bool" where
  "jobs_ok p \<longleftrightarrow>
     (\<exists>xs. is_list (nstore p) (jobs p) xs \<and> mset (pushed p) = mset (taken p) + mset (payloads (nstore p) xs))"

lemma same_payload_the: "same_payload h h' \<Longrightarrow> h a \<noteq> None \<Longrightarrow> payload (the (h' a)) = payload (the (h a))"
  unfolding same_payload_def by (metis map_option_is_None option.map_sel)

lemma payloads_same:
  assumes "same_payload h h'" "\<forall>a\<in>set xs. h a \<noteq> None"
  shows "payloads h' xs = payloads h xs"
proof -
  have "payload (the (h' a)) = payload (the (h a))" if "a \<in> set xs" for a
    using same_payload_the [OF assms(1)] assms(2) that by blast
  then show ?thesis by (simp add: payloads_def)
qed

lemma is_list_alloc: "is_list h l xs \<Longrightarrow> \<forall>a\<in>set xs. h a \<noteq> None"
  by (auto simp: is_list_def dest: dseg_alloc)

lemma is_list_head: "is_list h (Some a) xs \<Longrightarrow> \<exists>ys. xs = a # ys"
  by (cases xs) (auto simp: is_list_def)

lemma is_list_unique: "is_list h l xs \<Longrightarrow> is_list h l ys \<Longrightarrow> xs = ys"
proof -
  have "dseg h b l xs None \<Longrightarrow> dseg h b l ys None \<Longrightarrow> xs = ys" for b
  proof (induction xs arbitrary: b l ys)
    case Nil
    then show ?case by (cases ys) auto
  next
    case (Cons x xs)
    then show ?case by (cases ys) (auto split: option.splits)
  qed
  then show "is_list h l xs \<Longrightarrow> is_list h l ys \<Longrightarrow> xs = ys" by (auto simp: is_list_def)
qed

text \<open>Taking a job from a well-formed list never fails and takes the one pushed last.\<close>

lemma n_section_jobs:
  assumes "jobs_ok p"
  shows "\<exists>q. n_section i p = Some q \<and> jobs_ok q"
proof (cases "jobs p = None \<or> terminate p i")
  case True
  then show ?thesis using assms by (auto simp: n_section_def jobs_ok_def set_nphase_def split: option.splits)
next
  case False
  then obtain job where job: "jobs p = Some job" by auto
  obtain xs where xs: "is_list (nstore p) (jobs p) xs" "mset (pushed p) = mset (taken p) + mset (payloads (nstore p) xs)"
    using assms by (auto simp: jobs_ok_def)
  then obtain ys where ys: "xs = job # ys" using is_list_head job by metis
  obtain h' l' where r: "LL_REMOVE job (jobs p) (nstore p) = Some (h', l')" "is_list h' l' ys"
      "same_payload (nstore p) h'"
    using LL_REMOVE_ok [of "nstore p" "jobs p" "[]" job ys] xs(1) ys by auto
  have alloc: "\<forall>a\<in>set xs. nstore p a \<noteq> None" using is_list_alloc xs(1) .
  then have "h' job \<noteq> None" using r(3) ys same_payload_dom [of "nstore p" h'] by (auto simp: dom_def)
  then obtain n where n: "h' job = Some n" by blast
  have "payload n = payload (the (nstore p job))" using same_payload_the [OF r(3), of job] alloc ys n by auto
  moreover have "payloads h' ys = payloads (nstore p) ys" using payloads_same [OF r(3)] alloc ys by auto
  moreover have "payloads (nstore p) xs = payload (the (nstore p job)) # payloads (nstore p) ys"
    using ys by (simp add: payloads_def)
  ultimately have "mset (pushed p) = mset (taken p @ [payload n]) + mset (payloads h' ys)"
    using xs(2) by simp
  moreover have "n_section i p = Some ((set_nphase i (N_run (payload n)) p)
      \<lparr>nstore := h', jobs := l', taken := taken p @ [payload n]\<rparr>)"
    using False job r(1) n by (simp add: n_section_def)
  ultimately show ?thesis using r(2) by (auto simp: jobs_ok_def set_nphase_def)
qed

lemma push_jobs:
  assumes "jobs_ok p" "off_list job p" "nThreadPoolPushTask job k p = Some q"
  shows "jobs_ok q"
proof -
  obtain xs where xs: "is_list (nstore p) (jobs p) xs" "mset (pushed p) = mset (taken p) + mset (payloads (nstore p) xs)"
    using assms(1) by (auto simp: jobs_ok_def)
  have off: "job \<notin> set xs" using assms(2) xs(1) is_list_unique by (auto simp: off_list_def)
  obtain n where n: "nstore p job = Some n" using assms(3) by (auto simp: nThreadPoolPushTask_def bind_eq_Some_conv)
  obtain h' where h': "LL_INSERT job (jobs p) (nstore p) = Some (h', Some job)" "is_list h' (Some job) (job # xs)"
      "same_payload (nstore p) h'"
    using LL_INSERT_ok [OF xs(1) off] n by auto
  have "payloads h' (job # xs) = payload n # payloads (nstore p) xs"
    using payloads_same [OF h'(3), of "job # xs"] is_list_alloc [OF xs(1)] n by (simp add: payloads_def)
  then have "jobs_ok (p\<lparr>nstore := h', jobs := Some job, pushed := pushed p @ [payload n]\<rparr>)"
    using h'(2) xs(2) by (auto simp: jobs_ok_def intro!: exI [of _ "job # xs"])
  then show ?thesis
    using assms(3) n h'(1) by (auto simp: nThreadPoolPushTask_def wake_def set_nphase_def jobs_ok_def split: option.splits)
qed

lemma client_jobs:
  assumes "jobs_ok p" "off_list a p"
  shows "jobs_ok (p\<lparr>nstore := (nstore p)(a := n)\<rparr>)"
proof -
  obtain xs where xs: "is_list (nstore p) (jobs p) xs" "mset (pushed p) = mset (taken p) + mset (payloads (nstore p) xs)"
    using assms(1) by (auto simp: jobs_ok_def)
  have off: "a \<notin> set xs" using assms(2) xs(1) is_list_unique by (auto simp: off_list_def)
  then have "is_list ((nstore p)(a := n)) (jobs p) xs"
    using xs(1) dseg_cong [of xs "(nstore p)(a := n)" "nstore p"] by (auto simp: is_list_def)
  moreover have "payloads ((nstore p)(a := n)) xs = payloads (nstore p) xs" using off by (auto simp: payloads_def)
  ultimately show ?thesis using xs(2) by (auto simp: jobs_ok_def intro!: exI [of _ xs])
qed

lemma jobs_ok_cong:
  "jobs_ok p \<Longrightarrow> nstore q = nstore p \<Longrightarrow> jobs q = jobs p \<Longrightarrow> pushed q = pushed p \<Longrightarrow> taken q = taken p \<Longrightarrow> jobs_ok q"
  by (simp add: jobs_ok_def)

lemmas simple_defs = set_nphase_def n_wait_def wake_def destroy_start_def destroy_mark_def destroy_next_def
  destroy_broadcast_def

lemma jobs_ok_step:
  assumes "jobs_ok p" "simple_step p q"
  shows "jobs_ok q"
  using assms(2)
proof cases
  case (ss_section i)
  then show ?thesis using n_section_jobs [OF assms(1), of i] by auto
qed (use assms(1) in \<open>auto intro: push_jobs client_jobs jobs_ok_cong simp: simple_defs\<close>)


section \<open>Waking the workers\<close>

text \<open>How far the walk of the destroyer has come: all workers from \<open>marked\<close> on are to terminate.\<close>

fun marked :: "nat \<Rightarrow> destroyer \<Rightarrow> nat" where
  "marked n D_idle = n"
| "marked n (D_at w) = Suc w"
| "marked n (D_set w) = w"
| "marked n D_broadcast = 0"
| "marked n D_over = 0"
| "marked n D_fault = n"

definition awake_worker :: "npool \<Rightarrow> bool" where
  "awake_worker p \<longleftrightarrow> (\<exists>i t. nphase p i = N_lock \<or> nphase p i = N_run t)"

definition wake_ok :: "npool \<Rightarrow> bool" where
  "wake_ok p \<longleftrightarrow>
     (\<forall>i. nphase p i = N_checked \<longleftrightarrow> nmutex p = Some i)
     \<and> (nmutex p \<noteq> None \<longrightarrow> jobs p = None)
     \<and> (\<forall>i<nworkers p. marked (nworkers p) (destroyer p) \<le> i \<longrightarrow> terminate p i)
     \<and> (\<forall>i \<ge> nworkers p. nphase p i = N_freed)
     \<and> (destroyer p = D_over \<longrightarrow> nmutex p = None \<and> (\<forall>i. nphase p i \<noteq> N_sleep))
     \<and> (destroyer p = D_idle \<longrightarrow> (\<forall>i. \<not> terminate p i) \<and> (\<forall>i<nworkers p. nphase p i \<noteq> N_freed)
          \<and> (jobs p \<noteq> None \<and> 0 < nworkers p \<longrightarrow> awake_worker p))"

lemma wake_okI:
  assumes "\<And>i. nphase p i = N_checked \<longleftrightarrow> nmutex p = Some i" "nmutex p \<noteq> None \<Longrightarrow> jobs p = None"
    "\<And>i. i < nworkers p \<Longrightarrow> marked (nworkers p) (destroyer p) \<le> i \<Longrightarrow> terminate p i"
    "\<And>i. nworkers p \<le> i \<Longrightarrow> nphase p i = N_freed"
    "destroyer p = D_over \<Longrightarrow> nmutex p = None" "\<And>i. destroyer p = D_over \<Longrightarrow> nphase p i \<noteq> N_sleep"
    "\<And>i. destroyer p = D_idle \<Longrightarrow> \<not> terminate p i"
    "\<And>i. destroyer p = D_idle \<Longrightarrow> i < nworkers p \<Longrightarrow> nphase p i \<noteq> N_freed"
    "destroyer p = D_idle \<Longrightarrow> jobs p \<noteq> None \<Longrightarrow> 0 < nworkers p \<Longrightarrow> awake_worker p"
  shows "wake_ok p"
  using assms unfolding wake_ok_def by blast

lemma wake_okD:
  assumes "wake_ok p"
  shows "nphase p i = N_checked \<longleftrightarrow> nmutex p = Some i" "nmutex p \<noteq> None \<Longrightarrow> jobs p = None"
    "i < nworkers p \<Longrightarrow> marked (nworkers p) (destroyer p) \<le> i \<Longrightarrow> terminate p i"
    "nworkers p \<le> i \<Longrightarrow> nphase p i = N_freed"
    "destroyer p = D_over \<Longrightarrow> nmutex p = None" "destroyer p = D_over \<Longrightarrow> nphase p i \<noteq> N_sleep"
    "destroyer p = D_idle \<Longrightarrow> \<not> terminate p i"
    "destroyer p = D_idle \<Longrightarrow> i < nworkers p \<Longrightarrow> nphase p i \<noteq> N_freed"
    "destroyer p = D_idle \<Longrightarrow> jobs p \<noteq> None \<Longrightarrow> 0 < nworkers p \<Longrightarrow> awake_worker p"
  using assms unfolding wake_ok_def by blast+

lemma wake_ok_worker: "wake_ok p \<Longrightarrow> nphase p i \<noteq> N_freed \<Longrightarrow> i < nworkers p"
  using wake_okD(4) [of p i] by linarith

lemma n_section_cases:
  assumes "n_section i p = Some q"
  obtains (exit) "terminate p i" "q = set_nphase i N_freed p"
  | (check) "jobs p = None" "\<not> terminate p i" "q = (set_nphase i N_checked p)\<lparr>nmutex := Some i\<rparr>"
  | (take) h js t where "\<not> terminate p i"
      "q = (set_nphase i (N_run t) p)\<lparr>nstore := h, jobs := js, taken := taken p @ [t]\<rparr>"
  using assms by (auto simp: n_section_def bind_eq_Some_conv split: option.splits if_splits)

lemma wake_ok_section:
  assumes "wake_ok p" "nphase p i = N_lock" "nmutex p = None" "n_section i p = Some q"
  shows "wake_ok q"
proof -
  note d = wake_okD [OF assms(1)]
  have i: "i < nworkers p" using wake_ok_worker assms(1,2) by simp
  from assms(4) show ?thesis
  proof (cases rule: n_section_cases)
    case exit
    then have "destroyer p \<noteq> D_idle" using d(7) by blast
    with exit show ?thesis by (intro wake_okI) (use d assms i in \<open>auto simp: set_nphase_def\<close>)
  next
    case check
    then have "destroyer p \<noteq> D_over" using d(3) [OF i] by auto
    with check show ?thesis by (intro wake_okI) (use d assms i in \<open>auto simp: set_nphase_def\<close>)
  next
    case take
    have "awake_worker q" unfolding awake_worker_def take(2) by (auto simp: set_nphase_def)
    with take show ?thesis by (intro wake_okI) (use d assms i in \<open>auto simp: set_nphase_def\<close>)
  qed
qed

lemma wake_ok_push:
  assumes "wake_ok p" "nmutex p = None" "destroyer p = D_idle" "may_wake k p" "nThreadPoolPushTask job k p = Some q"
  shows "wake_ok q"
proof -
  note d = wake_okD [OF assms(1)]
  obtain h js n where q: "q = wake k (p\<lparr>nstore := h, jobs := js, pushed := pushed p @ [n]\<rparr>)"
    using assms(5) by (auto simp: nThreadPoolPushTask_def bind_eq_Some_conv)
  show ?thesis
  proof (cases k)
    case None
    have "awake_worker p" if "0 < nworkers p"
    proof -
      have "nphase p 0 \<noteq> N_freed" "nphase p 0 \<noteq> N_sleep" "nphase p 0 \<noteq> N_checked"
        using d(1,8) [of 0] assms that None by (auto simp: may_wake_def)
      then show ?thesis unfolding awake_worker_def by (cases "nphase p 0") auto
    qed
    with None q show ?thesis
      by (intro wake_okI) (use d assms in \<open>auto simp: wake_def awake_worker_def\<close>)
  next
    case (Some i)
    then have i: "i < nworkers p" "nphase p i = N_sleep" using wake_ok_worker assms(1,4) by (auto simp: may_wake_def)
    moreover have "awake_worker q" using q Some by (auto simp: awake_worker_def wake_def set_nphase_def)
    ultimately show ?thesis
      using Some q by (intro wake_okI) (use d assms in \<open>auto simp: wake_def set_nphase_def\<close>)
  qed
qed

lemma wake_ok_to_lock:
  assumes "wake_ok p" "nphase p i = N_sleep \<or> nphase p i = N_run t"
  shows "wake_ok (set_nphase i N_lock p)"
proof -
  note d = wake_okD [OF assms(1)]
  have "i < nworkers p" using wake_ok_worker [OF assms(1)] assms(2) by auto
  moreover have "awake_worker (set_nphase i N_lock p)" by (auto simp: awake_worker_def set_nphase_def)
  moreover have "nmutex p \<noteq> Some i" using d(1) [of i] assms(2) by auto
  ultimately show ?thesis by (intro wake_okI) (use d in \<open>auto simp: set_nphase_def\<close>)
qed

lemma wake_ok_wait:
  assumes "wake_ok p" "nphase p i = N_checked"
  shows "wake_ok (n_wait i p)"
proof -
  note d = wake_okD [OF assms(1)]
  have "nmutex p = Some i" using d(1) assms(2) by blast
  moreover have "i < nworkers p" using wake_ok_worker [OF assms(1)] assms(2) by simp
  moreover have "jobs p = None" "destroyer p \<noteq> D_over" using d(2,5) \<open>nmutex p = Some i\<close> by auto
  ultimately show ?thesis by (intro wake_okI) (use d in \<open>auto simp: n_wait_def set_nphase_def\<close>)
qed

lemma wake_ok_destroy:
  assumes "wake_ok p"
  shows "destroyer p = D_idle \<Longrightarrow> wake_ok (destroy_start p)"
    and "destroyer p = D_at w \<Longrightarrow> wake_ok (destroy_mark w p)"
    and "destroyer p = D_set w \<Longrightarrow> wake_ok (destroy_next w p)"
    and "destroyer p = D_broadcast \<Longrightarrow> nmutex p = None \<Longrightarrow> wake_ok (destroy_broadcast p)"
proof -
  note d = wake_okD [OF assms]
  show "destroyer p = D_idle \<Longrightarrow> wake_ok (destroy_start p)"
    by (intro wake_okI) (use d in \<open>auto simp: destroy_start_def split: if_splits\<close>)
  have "terminate p i" if "destroyer p = D_at w" "i < nworkers p" "w < i" for i
    using d(3) [OF that(2)] that by (simp add: Suc_le_eq)
  then show "destroyer p = D_at w \<Longrightarrow> wake_ok (destroy_mark w p)"
    by (intro wake_okI) (use d in \<open>auto simp: destroy_mark_def le_less split: if_splits\<close>)
  show "destroyer p = D_set w \<Longrightarrow> wake_ok (destroy_next w p)"
    by (intro wake_okI) (use d in \<open>auto simp: destroy_next_def split: if_splits\<close>)
  show "destroyer p = D_broadcast \<Longrightarrow> nmutex p = None \<Longrightarrow> wake_ok (destroy_broadcast p)"
    by (intro wake_okI) (use d in \<open>auto simp: destroy_broadcast_def split: if_splits\<close>)
qed

lemma wake_ok_client: "wake_ok p \<Longrightarrow> wake_ok (p\<lparr>nstore := h\<rparr>)"
  by (simp add: wake_ok_def awake_worker_def)

lemma wake_ok_step:
  assumes "wake_ok p" "simple_step p q"
  shows "wake_ok q"
  using assms(2)
  by cases (use assms(1) in \<open>auto intro: wake_ok_section wake_ok_push wake_ok_to_lock wake_ok_wait wake_ok_destroy
      wake_ok_client\<close>)


section \<open>What the pool guarantees\<close>

lemma create_workers_ok:
  "wake_ok p \<Longrightarrow> jobs_ok p \<Longrightarrow> jobs p = None \<Longrightarrow> destroyer p = D_idle \<Longrightarrow> nmutex p = None \<Longrightarrow> i = nworkers p \<Longrightarrow>
   i \<le> num \<Longrightarrow> create_workers malloc_ok create_ok i num p = (rc, q) \<Longrightarrow>
   wake_ok q \<and> jobs_ok q \<and> nworkers q \<le> num \<and> (rc = 0 \<longleftrightarrow> nworkers q = num)"
proof (induction malloc_ok create_ok i num p arbitrary: rc q rule: create_workers.induct)
  case (1 malloc_ok create_ok i num p)
  let ?p = "p\<lparr>nworkers := i + 1, nphase := (nphase p)(i := N_lock)\<rparr>"
  show ?case
  proof (cases "i < num \<and> malloc_ok i \<and> create_ok i")
    case True
    note d = wake_okD [OF "1.prems"(1)]
    have "wake_ok ?p"
      by (intro wake_okI) (use d "1.prems" in \<open>auto simp: less_Suc_eq\<close>)
    moreover have "jobs_ok ?p" using "1.prems"(2) by (rule jobs_ok_cong) simp_all
    moreover have "create_workers malloc_ok create_ok (i + 1) num ?p = (rc, q)"
      using "1.prems"(8) True by (simp add: create_workers.simps [of malloc_ok create_ok i])
    ultimately show ?thesis using "1.IH" [of rc q] True "1.prems" by simp
  next
    case False
    then have "q = p" "rc = 0 \<longleftrightarrow> \<not> i < num"
      using "1.prems"(8) by (subst (asm) create_workers.simps; auto split: if_splits)+
    then show ?thesis using "1.prems" by auto
  qed
qed

lemma nThreadPoolCreate_ok:
  assumes "nThreadPoolCreate malloc_ok create_ok num h = (rc, p)"
  shows "wake_ok p \<and> jobs_ok p \<and> (rc = 0 \<longleftrightarrow> nworkers p = nat (max 1 num))"
proof -
  have "wake_ok (blank_pool h)" by (intro wake_okI) (auto simp: blank_pool_def)
  moreover have "jobs_ok (blank_pool h)" by (auto simp: jobs_ok_def blank_pool_def is_list_def payloads_def)
  moreover have "(if num < 1 then 1 else num) = max 1 num" by auto
  ultimately show ?thesis
    using create_workers_ok [of "blank_pool h" 0 "nat (max 1 num)" malloc_ok create_ok rc p] assms
    by (simp add: nThreadPoolCreate_def blank_pool_def)
qed

interpretation simple: invariant_system simple_init simple_step "\<lambda>p. wake_ok p \<and> jobs_ok p"
proof
  show "wake_ok p \<and> jobs_ok p" if "simple_init p" for p
    using that nThreadPoolCreate_ok unfolding simple_init_def by (metis prod.collapse)
qed (auto intro: wake_ok_step jobs_ok_step)


definition demo_npool :: npool where
  "demo_npool = snd (nThreadPoolCreate (\<lambda>_. True) (\<lambda>_. True) 1 Map.empty)"

lemma demo_npool_eq: "demo_npool = (blank_pool Map.empty)\<lparr>nworkers := 1, nphase := (\<lambda>_. N_freed)(0 := N_lock)\<rparr>"
  by (simp add: demo_npool_def nThreadPoolCreate_def create_workers.simps blank_pool_def)

lemma demo_npool_reach: "reach simple_init simple_step demo_npool"
  unfolding demo_npool_def by (rule reach.reach_init) (auto simp: simple_init_def)


text \<open>
  Destroying the pool can follow a pointer into freed memory: a worker that is marked while it
  is awake may exit and free its node before \<open>nThreadPoolDestory\<close> reads \<open>worker->next\<close> from it.
\<close>

theorem simple_destroy_use_after_free:
  "\<exists>p. reach simple_init simple_step p \<and> destroyer p = D_fault"
proof -
  let ?r = "reach simple_init simple_step" and ?p = "destroy_mark 0 (destroy_start demo_npool)"
  let ?q = "set_nphase 0 N_freed ?p"
  note defs = demo_npool_eq blank_pool_def simple_defs n_section_def
  have "?r (destroy_start demo_npool)"
    using demo_npool_reach by (rule reach.reach_step) (rule ss_destroy, simp add: defs)
  then have "?r ?p"
    by (rule reach.reach_step) (rule ss_mark, simp add: defs)
  then have "?r ?q"
    by (rule reach.reach_step) (rule ss_section [of _ 0]; simp add: defs)
  then have "?r (destroy_next 0 ?q)"
    by (rule reach.reach_step) (rule ss_next, simp add: defs)
  moreover have "destroyer (destroy_next 0 ?q) = D_fault" by (simp add: defs)
  ultimately show ?thesis by blast
qed

end
