(* ===== verification/Task_Queue.thy ===== *)
theory Task_Queue
  imports Bounded_Queue
begin

text \<open>
  The circular task queue inside \<^verbatim>\<open>src/zl_threadpool/02_thread_pool/threadpool.c\<close>. Unlike the
  ring buffer of the producer/consumer programs it counts its elements, so that every slot can
  be used. Adding a task first frees the argument the slot still holds; \<open>freed\<close> records those
  calls of \<open>free\<close>.
\<close>

record task_slot =
  tfunction :: nat
  targ :: "nat option"

record task_queue =
  slots :: "task_slot list"
  queue_front :: nat
  queue_rear :: nat
  queue_size :: nat
  freed :: "nat list"

definition queue_max_size :: "task_queue \<Rightarrow> nat" where
  "queue_max_size q = length (slots q)"

text \<open>The array is allocated and not initialised.\<close>

definition new_queue :: "task_slot list \<Rightarrow> task_queue" where
  "new_queue junk = \<lparr>slots = junk, queue_front = 0, queue_rear = 0, queue_size = 0, freed = []\<rparr>"

definition tq_full :: "task_queue \<Rightarrow> bool" where
  "tq_full q \<longleftrightarrow> queue_size q = queue_max_size q"

definition tq_empty :: "task_queue \<Rightarrow> bool" where
  "tq_empty q \<longleftrightarrow> queue_size q = 0"

definition tq_put :: "task_slot \<Rightarrow> task_queue \<Rightarrow> task_queue" where
  "tq_put task q =
     (let rear = queue_rear q;
          q = (case targ (slots q ! rear) of
                 None \<Rightarrow> q
               | Some a \<Rightarrow> q\<lparr>freed := freed q @ [a], slots := (slots q)[rear := (slots q ! rear)\<lparr>targ := None\<rparr>]\<rparr>);
          q = q\<lparr>slots := (slots q)[rear := task]\<rparr>;
          q = q\<lparr>queue_rear := (queue_rear q + 1) mod queue_max_size q\<rparr>
      in q\<lparr>queue_size := queue_size q + 1\<rparr>)"

definition tq_get :: "task_queue \<Rightarrow> task_slot \<times> task_queue" where
  "tq_get q =
     (let task = slots q ! queue_front q;
          q = q\<lparr>queue_front := (queue_front q + 1) mod queue_max_size q\<rparr>
      in (task, q\<lparr>queue_size := queue_size q - 1\<rparr>))"

section \<open>The queue it implements\<close>

definition tq_ok :: "task_queue \<Rightarrow> bool" where
  "tq_ok q \<longleftrightarrow>
     0 < queue_max_size q \<and> queue_front q < queue_max_size q \<and> queue_size q \<le> queue_max_size q
     \<and> queue_rear q = (queue_front q + queue_size q) mod queue_max_size q"

definition tq_contents :: "task_queue \<Rightarrow> task_slot list" where
  "tq_contents q = map (\<lambda>i. slots q ! ((queue_front q + i) mod queue_max_size q)) [0..<queue_size q]"

lemma tq_put_simps [simp]:
  "slots (tq_put t q) = (slots q)[queue_rear q := t]"
  "queue_front (tq_put t q) = queue_front q"
  "queue_rear (tq_put t q) = (queue_rear q + 1) mod queue_max_size q"
  "queue_size (tq_put t q) = queue_size q + 1"
  "queue_max_size (tq_put t q) = queue_max_size q"
  by (simp_all add: tq_put_def queue_max_size_def Let_def split: option.split)

lemma tq_get_simps [simp]:
  "fst (tq_get q) = slots q ! queue_front q"
  "slots (snd (tq_get q)) = slots q"
  "queue_front (snd (tq_get q)) = (queue_front q + 1) mod queue_max_size q"
  "queue_rear (snd (tq_get q)) = queue_rear q"
  "queue_size (snd (tq_get q)) = queue_size q - 1"
  "queue_max_size (snd (tq_get q)) = queue_max_size q"
  by (simp_all add: tq_get_def queue_max_size_def Let_def)

text \<open>The slot behind the last element holds none of the others.\<close>

lemma slot_distinct:
  fixes n :: nat
  assumes "i < s" "s < n"
  shows "(f + i) mod n \<noteq> (f + s) mod n"
proof
  assume "(f + i) mod n = (f + s) mod n"
  then have "(f + s - (f + i)) mod n = 0" using assms by (metis add_le_cancel_left less_imp_le mod_eq_dvd_iff_nat mod_0_imp_dvd dvd_imp_mod_0)
  then have "(s - i) mod n = 0" by simp
  then show False using assms by simp
qed

lemma tq_put_contents:
  assumes "tq_ok q" "\<not> tq_full q"
  shows "tq_contents (tq_put t q) = tq_contents q @ [t]"
proof -
  let ?n = "queue_max_size q" and ?f = "queue_front q" and ?s = "queue_size q"
  have q: "0 < ?n" "?s < ?n" "queue_rear q = (?f + ?s) mod ?n" using assms by (auto simp: tq_ok_def tq_full_def)
  have "(slots q)[queue_rear q := t] ! ((?f + i) mod ?n) = slots q ! ((?f + i) mod ?n)" if "i < ?s" for i
    using slot_distinct [OF that q(2), of ?f] q(3) by (simp add: nth_list_update_neq)
  moreover have "(slots q)[queue_rear q := t] ! ((?f + ?s) mod ?n) = t"
    using q by (simp add: queue_max_size_def)
  ultimately show ?thesis by (simp add: tq_contents_def)
qed

lemma tq_get_contents:
  assumes "tq_ok q" "\<not> tq_empty q"
  shows "tq_contents q = fst (tq_get q) # tq_contents (snd (tq_get q))"
proof -
  let ?n = "queue_max_size q" and ?f = "queue_front q"
  obtain s where s: "queue_size q = Suc s" using assms(2) by (cases "queue_size q") (auto simp: tq_empty_def)
  have "?f mod ?n = ?f" using assms(1) by (simp add: tq_ok_def)
  moreover have "(Suc ?f mod ?n + i) mod ?n = (?f + Suc i) mod ?n" for i by (simp add: mod_add_left_eq)
  ultimately show ?thesis by (simp add: tq_contents_def s map_upt_Suc del: upt_Suc)
qed

lemma tq_put_ok: "tq_ok q \<Longrightarrow> \<not> tq_full q \<Longrightarrow> tq_ok (tq_put t q)"
  by (auto simp: tq_ok_def tq_full_def mod_Suc_eq)

lemma tq_get_ok:
  assumes "tq_ok q" "\<not> tq_empty q"
  shows "tq_ok (snd (tq_get q))"
proof -
  obtain s where "queue_size q = Suc s" using assms(2) by (cases "queue_size q") (auto simp: tq_empty_def)
  with assms(1) show ?thesis by (auto simp: tq_ok_def mod_add_left_eq)
qed

interpretation task_fifo: bounded_queue tq_ok tq_contents queue_max_size tq_full tq_empty tq_put tq_get
  by unfold_locales
    (auto simp: tq_put_ok tq_get_ok tq_put_contents tq_get_contents, auto simp: tq_ok_def tq_full_def tq_empty_def tq_contents_def)

lemma new_queue_ok: "junk \<noteq> [] \<Longrightarrow> tq_ok (new_queue junk) \<and> tq_contents (new_queue junk) = []"
  by (simp add: tq_ok_def new_queue_def queue_max_size_def tq_contents_def)

end
