(* ===== verification/C_Thread_Pool.thy ===== *)
theory C_Thread_Pool
  imports Prelude Task_Queue
begin

text \<open>
  The managed pool of \<^verbatim>\<open>src/zl_threadpool/02_thread_pool/threadpool.c\<close>: workers in the slots of
  an array, a manager thread that starts and retires them, and a task queue. A critical section of
  \<open>lock\<close> is one step; \<open>shutdown\<close> is set without the lock, so that testing it and falling asleep
  are two steps (\<open>T_checked\<close>, lock held). \<open>T_woken\<close> is a worker whose \<open>pthread_cond_wait\<close> is
  about to return. \<open>added\<close> and \<open>begun\<close> record the tasks accepted and taken.
\<close>

datatype tphase = T_none | T_lock | T_checked | T_sleep | T_woken | T_taken task_slot | T_busy task_slot | T_dead

text \<open>Where the manager is in its loop, with the values it has sampled.\<close>

datatype adjust = A_loop | A_size | A_busy nat int | A_grow nat int int | A_shrink int int | A_signal nat | A_done

datatype tdestroy = TD_idle | TD_adjust | TD_broadcast nat | TD_join nat | TD_freed

record tpool =
  tqueue :: task_queue
  min_thr_num :: int
  max_thr_num :: int
  live_thr_num :: int
  busy_thr_num :: int
  wait_exit_thr_num :: int
  shutdown :: bool
  tphase :: "nat \<Rightarrow> tphase"
  lock :: "nat option"
  adjust :: adjust
  tdestroy :: tdestroy
  added :: "task_slot list"
  begun :: "task_slot list"

definition MIN_WAIT_TASK_NUM :: nat where "MIN_WAIT_TASK_NUM = 10"

definition DEFAULT_THREAD_VARY :: nat where "DEFAULT_THREAD_VARY = 10"

section \<open>Creation and destruction\<close>

text \<open>
  The result of \<open>threadpool_create\<close>. When an allocation fails the half-initialised structure is
  handed to \<open>threadpool_free\<close>, which reads members that were never written, or locks a mutex
  that was never initialised: \<open>Undefined\<close>. So does starting more threads than \<open>threads\<close> has room
  for. \<open>wait_exit_thr_num\<close> is never initialised: it contains \<open>junk_exit\<close>.
\<close>

datatype created = Null | Undefined | Created tpool

definition threadpool_create ::
  "bool \<Rightarrow> bool \<Rightarrow> bool \<Rightarrow> bool \<Rightarrow> int \<Rightarrow> task_slot list \<Rightarrow> int \<Rightarrow> int \<Rightarrow> created" where
  "threadpool_create pool_ok threads_ok queue_ok init_ok junk_exit junk_slots min_thr max_thr =
     (if \<not> pool_ok then Null
      else if \<not> threads_ok \<or> \<not> queue_ok \<or> \<not> init_ok then Undefined
      else if min_thr > max_thr then Undefined
      else Created
        \<lparr>tqueue = new_queue junk_slots, min_thr_num = min_thr, max_thr_num = max_thr, live_thr_num = min_thr,
         busy_thr_num = 0, wait_exit_thr_num = junk_exit, shutdown = False,
         tphase = (\<lambda>i. if int i < min_thr then T_lock else T_none), lock = None, adjust = A_loop,
         tdestroy = TD_idle, added = [], begun = []\<rparr>)"

definition set_tphase :: "nat \<Rightarrow> tphase \<Rightarrow> tpool \<Rightarrow> tpool" where
  "set_tphase i w p = p\<lparr>tphase := (tphase p)(i := w)\<rparr>"

definition wake_all :: "tpool \<Rightarrow> tpool" where
  "wake_all p = p\<lparr>tphase := (\<lambda>i. if tphase p i = T_sleep then T_woken else tphase p i)\<rparr>"

text \<open>\<open>threadpool_destroy\<close>, between its blocking calls.\<close>

definition destroy_begin :: "tpool \<Rightarrow> tpool" where
  "destroy_begin p = p\<lparr>shutdown := True, tdestroy := TD_adjust\<rparr>"

definition destroy_wake :: "nat \<Rightarrow> tpool \<Rightarrow> tpool" where
  "destroy_wake i p =
     (if int i < live_thr_num p then (wake_all p)\<lparr>tdestroy := TD_broadcast (i + 1)\<rparr>
      else p\<lparr>tdestroy := TD_join 0\<rparr>)"

text \<open>The joining loop goes on when \<open>threads[i]\<close> has ended, and frees the pool at its end.\<close>

definition destroy_join :: "nat \<Rightarrow> tpool \<Rightarrow> tpool option" where
  "destroy_join i p =
     (if int i < live_thr_num p
      then (if tphase p i = T_dead then Some (p\<lparr>tdestroy := TD_join (i + 1)\<rparr>) else None)
      else Some (p\<lparr>tdestroy := TD_freed\<rparr>))"

section \<open>Adding tasks\<close>

text \<open>
  \<open>threadpool_add\<close>. After a shutdown it releases the lock and goes on all the same:
  \<open>Unlocked_write\<close>. The signal wakes the sleeper \<open>k\<close>, or nobody.
\<close>

datatype add_result = Blocks | Unlocked_write | Added tpool

definition wake_one :: "nat option \<Rightarrow> tpool \<Rightarrow> tpool" where
  "wake_one k p = (case k of None \<Rightarrow> p | Some i \<Rightarrow> set_tphase i T_woken p)"

definition threadpool_add :: "task_slot \<Rightarrow> nat option \<Rightarrow> tpool \<Rightarrow> add_result" where
  "threadpool_add t k p =
     (if tq_full (tqueue p) \<and> \<not> shutdown p then Blocks
      else if shutdown p then Unlocked_write
      else Added (wake_one k (p\<lparr>tqueue := tq_put t (tqueue p), added := added p @ [t]\<rparr>)))"

section \<open>Workers\<close>

text \<open>Behind the waiting loop: leave on shutdown, or take a task. Lock held, and released.\<close>

definition worker_go :: "nat \<Rightarrow> tpool \<Rightarrow> tpool" where
  "worker_go i p =
     (if shutdown p then set_tphase i T_dead p
      else (case tq_get (tqueue p) of
              (t, q) \<Rightarrow> (set_tphase i (T_taken t) p)\<lparr>tqueue := q, begun := begun p @ [t]\<rparr>))"

definition worker_loop :: "nat \<Rightarrow> tpool \<Rightarrow> tpool" where
  "worker_loop i p =
     (if tq_empty (tqueue p) \<and> \<not> shutdown p then (set_tphase i T_checked p)\<lparr>lock := Some i\<rparr>
      else worker_go i p)"

definition worker_wait :: "nat \<Rightarrow> tpool \<Rightarrow> tpool" where
  "worker_wait i p = (set_tphase i T_sleep p)\<lparr>lock := None\<rparr>"

text \<open>Behind \<open>pthread_cond_wait\<close>.\<close>

definition worker_woken :: "nat \<Rightarrow> tpool \<Rightarrow> tpool" where
  "worker_woken i p =
     (if wait_exit_thr_num p > 0
      then
        (let p = p\<lparr>wait_exit_thr_num := wait_exit_thr_num p - 1\<rparr>
         in if live_thr_num p > min_thr_num p
            then (set_tphase i T_dead p)\<lparr>live_thr_num := live_thr_num p - 1\<rparr>
            else worker_loop i p)
      else worker_loop i p)"

definition worker_begin :: "nat \<Rightarrow> task_slot \<Rightarrow> tpool \<Rightarrow> tpool" where
  "worker_begin i t p = (set_tphase i (T_busy t) p)\<lparr>busy_thr_num := busy_thr_num p + 1\<rparr>"

definition worker_end :: "nat \<Rightarrow> tpool \<Rightarrow> tpool" where
  "worker_end i p = (set_tphase i T_lock p)\<lparr>busy_thr_num := busy_thr_num p - 1\<rparr>"

text \<open>What the pool reports about itself, read under the lock of the counter.\<close>

definition threadpool_all_threadnum :: "tpool \<Rightarrow> int" where
  "threadpool_all_threadnum p = live_thr_num p"

definition threadpool_busy_threadnum :: "tpool \<Rightarrow> int" where
  "threadpool_busy_threadnum p = busy_thr_num p"

section \<open>The manager\<close>

text \<open>
  \<open>is_thread_alive\<close>: \<open>esrch i\<close> says whether \<open>pthread_kill\<close> reports the ended thread of slot \<open>i\<close> as
  gone; a running thread is never reported so.
\<close>

definition is_thread_alive :: "(nat \<Rightarrow> bool) \<Rightarrow> tpool \<Rightarrow> nat \<Rightarrow> bool" where
  "is_thread_alive esrch p i \<longleftrightarrow> \<not> (tphase p i = T_dead \<and> esrch i)"

function grow_loop :: "(nat \<Rightarrow> bool) \<Rightarrow> nat \<Rightarrow> nat \<Rightarrow> tpool \<Rightarrow> tpool" where
  "grow_loop esrch i add p =
     (if int i < max_thr_num p \<and> add < DEFAULT_THREAD_VARY \<and> live_thr_num p < max_thr_num p
      then if tphase p i = T_none \<or> \<not> is_thread_alive esrch p i
           then grow_loop esrch (i + 1) (add + 1) ((set_tphase i T_lock p)\<lparr>live_thr_num := live_thr_num p + 1\<rparr>)
           else grow_loop esrch (i + 1) add p
      else p)"
  by pat_completeness auto
termination
  by (relation "measure (\<lambda>(_, i, _, p). nat (max_thr_num p - int i))") (auto simp: set_tphase_def)

declare grow_loop.simps [simp del]

fun adjust_step :: "(nat \<Rightarrow> bool) \<Rightarrow> adjust \<Rightarrow> tpool \<Rightarrow> tpool" where
  "adjust_step esrch A_loop p = p\<lparr>adjust := (if shutdown p then A_done else A_size)\<rparr>"
| "adjust_step esrch A_size p = p\<lparr>adjust := A_busy (queue_size (tqueue p)) (live_thr_num p)\<rparr>"
| "adjust_step esrch (A_busy q l) p = p\<lparr>adjust := A_grow q l (busy_thr_num p)\<rparr>"
| "adjust_step esrch (A_grow q l b) p =
     (if q \<ge> MIN_WAIT_TASK_NUM \<and> l < max_thr_num p then grow_loop esrch 0 0 p else p)\<lparr>adjust := A_shrink l b\<rparr>"
| "adjust_step esrch (A_shrink l b) p =
     (if b * 2 < l \<and> l > min_thr_num p
      then p\<lparr>wait_exit_thr_num := int DEFAULT_THREAD_VARY, adjust := A_signal DEFAULT_THREAD_VARY\<rparr>
      else p\<lparr>adjust := A_loop\<rparr>)"
| "adjust_step esrch (A_signal k) p = p"
| "adjust_step esrch A_done p = p"

definition adjust_signal :: "nat \<Rightarrow> nat option \<Rightarrow> tpool \<Rightarrow> tpool" where
  "adjust_signal n k p = (wake_one k p)\<lparr>adjust := (if n \<le> 1 then A_loop else A_signal (n - 1))\<rparr>"

text \<open>The manager's steps that take the lock are \<open>A_size\<close>, \<open>A_grow\<close> and \<open>A_shrink\<close>.\<close>

fun takes_lock :: "adjust \<Rightarrow> bool" where
  "takes_lock A_size = True"
| "takes_lock (A_grow _ _ _) = True"
| "takes_lock (A_shrink _ _) = True"
| "takes_lock _ = False"

definition signals :: "nat option \<Rightarrow> tpool \<Rightarrow> bool" where
  "signals k p \<longleftrightarrow> (case k of None \<Rightarrow> \<forall>i. tphase p i \<noteq> T_sleep | Some i \<Rightarrow> tphase p i = T_sleep)"

inductive cpool_step :: "(nat \<Rightarrow> bool) \<Rightarrow> tpool \<Rightarrow> tpool \<Rightarrow> bool" for esrch where
  cp_loop: "tphase p i = T_lock \<Longrightarrow> lock p = None \<Longrightarrow> cpool_step esrch p (worker_loop i p)"
| cp_wait: "tphase p i = T_checked \<Longrightarrow> cpool_step esrch p (worker_wait i p)"
| cp_woken: "tphase p i = T_woken \<Longrightarrow> lock p = None \<Longrightarrow> cpool_step esrch p (worker_woken i p)"
| cp_spurious: "tphase p i = T_sleep \<Longrightarrow> cpool_step esrch p (set_tphase i T_woken p)"
| cp_begin: "tphase p i = T_taken t \<Longrightarrow> cpool_step esrch p (worker_begin i t p)"
| cp_end: "tphase p i = T_busy t \<Longrightarrow> cpool_step esrch p (worker_end i p)"
| cp_add: "lock p = None \<Longrightarrow> signals k p \<Longrightarrow> threadpool_add t k p = Added q \<Longrightarrow> cpool_step esrch p q"
| cp_adjust: "(takes_lock (adjust p) \<Longrightarrow> lock p = None) \<Longrightarrow> cpool_step esrch p (adjust_step esrch (adjust p) p)"
| cp_adjust_signal: "adjust p = A_signal n \<Longrightarrow> signals k p \<Longrightarrow> cpool_step esrch p (adjust_signal n k p)"
| cp_destroy: "tdestroy p = TD_idle \<Longrightarrow> cpool_step esrch p (destroy_begin p)"
| cp_destroy_adjust: "tdestroy p = TD_adjust \<Longrightarrow> adjust p = A_done \<Longrightarrow>
    cpool_step esrch p (p\<lparr>tdestroy := TD_broadcast 0\<rparr>)"
| cp_destroy_wake: "tdestroy p = TD_broadcast i \<Longrightarrow> cpool_step esrch p (destroy_wake i p)"
| cp_destroy_join: "tdestroy p = TD_join i \<Longrightarrow> destroy_join i p = Some q \<Longrightarrow> cpool_step esrch p q"

definition cpool_init :: "tpool \<Rightarrow> bool" where
  "cpool_init p \<longleftrightarrow>
     (\<exists>junk_exit junk_slots min_thr max_thr. junk_slots \<noteq> [] \<and> 0 \<le> min_thr \<and>
        threadpool_create True True True True junk_exit junk_slots min_thr max_thr = Created p)"


section \<open>The books of the pool\<close>

fun alive :: "tphase \<Rightarrow> bool" where
  "alive T_none = False"
| "alive T_dead = False"
| "alive _ = True"

fun at_work :: "tphase \<Rightarrow> bool" where
  "at_work (T_busy _) = True"
| "at_work _ = False"

definition alive_count :: "tpool \<Rightarrow> int" where
  "alive_count p = headcount (nat (max_thr_num p)) alive (tphase p)"

definition busy_count :: "tpool \<Rightarrow> int" where
  "busy_count p = headcount (nat (max_thr_num p)) at_work (tphase p)"

definition tasks_ok :: "tpool \<Rightarrow> bool" where
  "tasks_ok p \<longleftrightarrow> tq_ok (tqueue p) \<and> added p = begun p @ tq_contents (tqueue p)"

definition counts_ok :: "tpool \<Rightarrow> bool" where
  "counts_ok p \<longleftrightarrow>
     min_thr_num p \<le> live_thr_num p \<and> live_thr_num p \<le> max_thr_num p
     \<and> (\<forall>i. max_thr_num p \<le> int i \<longrightarrow> tphase p i = T_none)
     \<and> alive_count p \<le> live_thr_num p \<and> (\<not> shutdown p \<longrightarrow> alive_count p = live_thr_num p)
     \<and> busy_count p = busy_thr_num p"

lemma counts_index: "counts_ok p \<Longrightarrow> tphase p i \<noteq> T_none \<Longrightarrow> i < nat (max_thr_num p)"
  unfolding counts_ok_def by (meson not_le_imp_less zless_nat_conj zless_nat_eq_int_zless)

text \<open>Moving one thread to another phase.\<close>

lemma counts_move:
  assumes "i < nat (max_thr_num p)"
  shows "alive_count (set_tphase i w p) = alive_count p - of_bool (alive (tphase p i)) + of_bool (alive w)"
    "busy_count (set_tphase i w p) = busy_count p - of_bool (at_work (tphase p i)) + of_bool (at_work w)"
  using headcount_upd [OF assms, of alive "tphase p" w] headcount_upd [OF assms, of at_work "tphase p" w]
  by (simp_all add: alive_count_def busy_count_def set_tphase_def)

lemma counts_fields [simp]:
  "alive_count (p\<lparr>tqueue := q\<rparr>) = alive_count p" "alive_count (p\<lparr>live_thr_num := n\<rparr>) = alive_count p"
  "alive_count (p\<lparr>busy_thr_num := n\<rparr>) = alive_count p" "alive_count (p\<lparr>wait_exit_thr_num := n\<rparr>) = alive_count p"
  "alive_count (p\<lparr>shutdown := b\<rparr>) = alive_count p" "alive_count (p\<lparr>lock := l\<rparr>) = alive_count p"
  "alive_count (p\<lparr>adjust := a\<rparr>) = alive_count p" "alive_count (p\<lparr>tdestroy := d\<rparr>) = alive_count p"
  "alive_count (p\<lparr>added := xs\<rparr>) = alive_count p" "alive_count (p\<lparr>begun := xs\<rparr>) = alive_count p"
  "busy_count (p\<lparr>tqueue := q\<rparr>) = busy_count p" "busy_count (p\<lparr>live_thr_num := n\<rparr>) = busy_count p"
  "busy_count (p\<lparr>busy_thr_num := n\<rparr>) = busy_count p" "busy_count (p\<lparr>wait_exit_thr_num := n\<rparr>) = busy_count p"
  "busy_count (p\<lparr>shutdown := b\<rparr>) = busy_count p" "busy_count (p\<lparr>lock := l\<rparr>) = busy_count p"
  "busy_count (p\<lparr>adjust := a\<rparr>) = busy_count p" "busy_count (p\<lparr>tdestroy := d\<rparr>) = busy_count p"
  "busy_count (p\<lparr>added := xs\<rparr>) = busy_count p" "busy_count (p\<lparr>begun := xs\<rparr>) = busy_count p"
  by (simp_all add: alive_count_def busy_count_def)

lemma set_tphase_fields [simp]:
  "min_thr_num (set_tphase i w p) = min_thr_num p" "max_thr_num (set_tphase i w p) = max_thr_num p"
  "live_thr_num (set_tphase i w p) = live_thr_num p" "busy_thr_num (set_tphase i w p) = busy_thr_num p"
  "shutdown (set_tphase i w p) = shutdown p" "tqueue (set_tphase i w p) = tqueue p"
  "added (set_tphase i w p) = added p" "begun (set_tphase i w p) = begun p"
  "tphase (set_tphase i w p) = (tphase p)(i := w)"
  by (simp_all add: set_tphase_def)

text \<open>A thread that stays alive and does not enter or leave its work changes no count.\<close>

lemma counts_ok_move:
  assumes "counts_ok p" "alive (tphase p i)" "alive w" "at_work w = at_work (tphase p i)"
  shows "counts_ok (set_tphase i w p)"
proof -
  have i: "i < nat (max_thr_num p)" using counts_index [OF assms(1), of i] assms(2) by (cases "tphase p i") auto
  show ?thesis using assms counts_move [OF i, of w] i by (auto simp: counts_ok_def)
qed

lemma counts_ok_cong:
  assumes "counts_ok p" "min_thr_num q = min_thr_num p" "max_thr_num q = max_thr_num p"
    "live_thr_num q = live_thr_num p" "busy_thr_num q = busy_thr_num p" "tphase q = tphase p" "shutdown p \<longrightarrow> shutdown q"
  shows "counts_ok q"
  using assms by (auto simp: counts_ok_def alive_count_def busy_count_def)

lemma tasks_ok_cong:
  "tasks_ok p \<Longrightarrow> tqueue q = tqueue p \<Longrightarrow> added q = added p \<Longrightarrow> begun q = begun p \<Longrightarrow> tasks_ok q"
  by (simp add: tasks_ok_def)

lemma worker_loop_ok:
  assumes "counts_ok p" "tasks_ok p" "alive (tphase p i)" "\<not> at_work (tphase p i)"
  shows "counts_ok (worker_loop i p) \<and> tasks_ok (worker_loop i p)"
proof (cases "shutdown p")
  case True
  have i: "i < nat (max_thr_num p)" using counts_index [OF assms(1), of i] assms(3) by (cases "tphase p i") auto
  have "counts_ok (set_tphase i T_dead p)" using True assms counts_move [OF i, of T_dead] i by (auto simp: counts_ok_def)
  moreover have "tasks_ok (set_tphase i T_dead p)" using assms(2) by (rule tasks_ok_cong) simp_all
  ultimately show ?thesis using True by (simp add: worker_loop_def worker_go_def)
next
  case False
  show ?thesis
  proof (cases "tq_empty (tqueue p)")
    case True
    have "counts_ok (set_tphase i T_checked p)" by (rule counts_ok_move) (use assms in auto)
    then have "counts_ok ((set_tphase i T_checked p)\<lparr>lock := Some i\<rparr>)" by (rule counts_ok_cong) simp_all
    moreover have "tasks_ok ((set_tphase i T_checked p)\<lparr>lock := Some i\<rparr>)" using assms(2) by (rule tasks_ok_cong) simp_all
    ultimately show ?thesis using True False by (simp add: worker_loop_def)
  next
    case nonempty: False
    obtain t q where tq: "tq_get (tqueue p) = (t, q)" by (cases "tq_get (tqueue p)") auto
    let ?q = "(set_tphase i (T_taken t) p)\<lparr>tqueue := q, begun := begun p @ [t]\<rparr>"
    have "counts_ok (set_tphase i (T_taken t) p)" by (rule counts_ok_move) (use assms in auto)
    then have "counts_ok ?q" by (rule counts_ok_cong) simp_all
    moreover have "tasks_ok ?q"
      using task_fifo.ok_deq [of "tqueue p"] task_fifo.deq_contents [of "tqueue p"] nonempty assms(2) tq
      by (simp add: tasks_ok_def)
    ultimately show ?thesis using nonempty False tq by (simp add: worker_loop_def worker_go_def)
  qed
qed


lemma worker_woken_ok:
  assumes "counts_ok p" "tasks_ok p" "tphase p i = T_woken"
  shows "counts_ok (worker_woken i p) \<and> tasks_ok (worker_woken i p)"
proof -
  let ?p = "p\<lparr>wait_exit_thr_num := wait_exit_thr_num p - 1\<rparr>"
  have ok: "counts_ok ?p" "tasks_ok ?p" using assms by (auto intro: counts_ok_cong tasks_ok_cong)
  have loop: "counts_ok (worker_loop i p) \<and> tasks_ok (worker_loop i p)"
      "counts_ok (worker_loop i ?p) \<and> tasks_ok (worker_loop i ?p)"
    using worker_loop_ok [of p i] worker_loop_ok [of ?p i] assms ok by simp_all
  have exit: "counts_ok ((set_tphase i T_dead ?p)\<lparr>live_thr_num := live_thr_num p - 1\<rparr>)" if "live_thr_num p > min_thr_num p"
  proof -
    have i: "i < nat (max_thr_num ?p)" using counts_index [OF ok(1), of i] assms(3) by simp
    show ?thesis using that assms(3) ok(1) counts_move [OF i, of T_dead] i by (auto simp: counts_ok_def)
  qed
  have "tasks_ok ((set_tphase i T_dead ?p)\<lparr>live_thr_num := live_thr_num p - 1\<rparr>)"
    using assms(2) by (rule tasks_ok_cong) simp_all
  with loop exit show ?thesis by (simp add: worker_woken_def Let_def)
qed

lemma worker_work_ok:
  assumes "counts_ok p"
  shows "tphase p i = T_taken t \<Longrightarrow> counts_ok (worker_begin i t p)"
    and "tphase p i = T_busy t \<Longrightarrow> counts_ok (worker_end i p)"
proof -
  have move: "i < nat (max_thr_num p)" if "tphase p i \<noteq> T_none" using counts_index [OF assms that] .
  show "tphase p i = T_taken t \<Longrightarrow> counts_ok (worker_begin i t p)"
    using assms move counts_move [of i p "T_busy t"] by (auto simp: counts_ok_def worker_begin_def)
  show "tphase p i = T_busy t \<Longrightarrow> counts_ok (worker_end i p)"
    using assms move counts_move [of i p T_lock] by (auto simp: counts_ok_def worker_end_def)
qed

lemma wake_one_ok:
  assumes "signals k p"
  shows "counts_ok p \<Longrightarrow> counts_ok (wake_one k p)" "tasks_ok p \<Longrightarrow> tasks_ok (wake_one k p)"
  using assms by (auto simp: wake_one_def signals_def split: option.splits intro: counts_ok_move tasks_ok_cong)

lemma wake_all_ok:
  assumes "counts_ok p"
  shows "counts_ok (wake_all p)"
proof -
  have "alive (if w = T_sleep then T_woken else w) = alive w" "at_work (if w = T_sleep then T_woken else w) = at_work w" for w
    by simp_all
  then have "alive_count (wake_all p) = alive_count p" "busy_count (wake_all p) = busy_count p"
    by (simp_all add: alive_count_def busy_count_def wake_all_def headcount_def)
  then show ?thesis using assms by (auto simp: counts_ok_def wake_all_def)
qed

lemma add_ok:
  assumes "counts_ok p" "tasks_ok p" "signals k p" "threadpool_add t k p = Added q"
  shows "counts_ok q \<and> tasks_ok q"
proof -
  let ?p = "p\<lparr>tqueue := tq_put t (tqueue p), added := added p @ [t]\<rparr>"
  have q: "q = wake_one k ?p" "\<not> tq_full (tqueue p)" using assms(4) by (auto simp: threadpool_add_def split: if_splits)
  have "counts_ok ?p" using assms(1) by (rule counts_ok_cong) simp_all
  moreover have "tasks_ok ?p"
    using assms(2) q(2) task_fifo.ok_enq task_fifo.contents_enq by (simp add: tasks_ok_def)
  moreover have "signals k ?p" using assms(3) by (simp add: signals_def split: option.splits)
  ultimately show ?thesis using wake_one_ok q(1) by simp
qed

lemma grow_loop_ok: "counts_ok p \<Longrightarrow> tasks_ok p \<Longrightarrow> counts_ok (grow_loop esrch i add p) \<and> tasks_ok (grow_loop esrch i add p)"
proof (induction esrch i add p rule: grow_loop.induct)
  case (1 esrch i add p)
  show ?case
  proof (cases "int i < max_thr_num p \<and> add < DEFAULT_THREAD_VARY \<and> live_thr_num p < max_thr_num p")
    case go: True
    show ?thesis
    proof (cases "tphase p i = T_none \<or> \<not> is_thread_alive esrch p i")
      case True
      let ?p = "(set_tphase i T_lock p)\<lparr>live_thr_num := live_thr_num p + 1\<rparr>"
      have i: "i < nat (max_thr_num p)" using go by (simp only: zless_nat_eq_int_zless)
      have "\<not> alive (tphase p i)" "\<not> at_work (tphase p i)" using True by (auto simp: is_thread_alive_def)
      then have "counts_ok ?p" using "1.prems"(1) go counts_move [OF i, of T_lock] by (auto simp: counts_ok_def)
      moreover have "tasks_ok ?p" using "1.prems"(2) by (rule tasks_ok_cong) simp_all
      ultimately show ?thesis using "1.IH"(1) go True by (simp add: grow_loop.simps [of esrch i])
    next
      case False
      then show ?thesis using "1.IH"(2) go "1.prems" by (simp add: grow_loop.simps [of esrch i])
    qed
  next
    case False
    then have "grow_loop esrch i add p = p" by (subst grow_loop.simps, rule if_not_P)
    then show ?thesis using "1.prems" by simp
  qed
qed

lemma adjust_step_ok:
  assumes "counts_ok p" "tasks_ok p"
  shows "counts_ok (adjust_step esrch a p) \<and> tasks_ok (adjust_step esrch a p)"
proof -
  have upd: "counts_ok (p\<lparr>adjust := x\<rparr>) \<and> tasks_ok (p\<lparr>adjust := x\<rparr>)" if "counts_ok p" "tasks_ok p" for p x
    using that by (auto intro: counts_ok_cong tasks_ok_cong)
  have upd2: "counts_ok (p\<lparr>wait_exit_thr_num := n, adjust := x\<rparr>) \<and> tasks_ok (p\<lparr>wait_exit_thr_num := n, adjust := x\<rparr>)" for n x
    using assms by (auto intro: counts_ok_cong tasks_ok_cong)
  show ?thesis
    using assms upd [OF assms] upd2 upd [of "grow_loop esrch 0 0 p"] grow_loop_ok [OF assms]
    by (cases a) auto
qed

lemma destroy_ok:
  assumes "counts_ok p" "tasks_ok p"
  shows "counts_ok (destroy_begin p) \<and> tasks_ok (destroy_begin p)"
    and "counts_ok (destroy_wake i p) \<and> tasks_ok (destroy_wake i p)"
    and "destroy_join i p = Some q \<Longrightarrow> counts_ok q \<and> tasks_ok q"
proof -
  show "counts_ok (destroy_begin p) \<and> tasks_ok (destroy_begin p)"
    using assms by (auto simp: destroy_begin_def intro: counts_ok_cong tasks_ok_cong)
  have "tasks_ok (wake_all p)" using assms(2) by (rule tasks_ok_cong) (simp_all add: wake_all_def)
  then show "counts_ok (destroy_wake i p) \<and> tasks_ok (destroy_wake i p)"
    using assms wake_all_ok [OF assms(1)] by (auto simp: destroy_wake_def intro: counts_ok_cong tasks_ok_cong)
  show "destroy_join i p = Some q \<Longrightarrow> counts_ok q \<and> tasks_ok q"
    using assms by (auto simp: destroy_join_def intro: counts_ok_cong tasks_ok_cong split: if_splits)
qed

lemma move_tasks: "tasks_ok p \<Longrightarrow> tasks_ok (set_tphase i w p)"
  by (rule tasks_ok_cong) simp_all

lemma cpool_ok_step:
  assumes "counts_ok p \<and> tasks_ok p" "cpool_step esrch p q"
  shows "counts_ok q \<and> tasks_ok q"
  using assms(2)
proof cases
  case (cp_wait i)
  have "counts_ok (set_tphase i T_sleep p)" using cp_wait assms(1) by (intro counts_ok_move) auto
  then show ?thesis
    using cp_wait assms(1) by (auto simp: worker_wait_def intro: counts_ok_cong tasks_ok_cong)
next
  case (cp_begin i t)
  then show ?thesis using assms(1) worker_work_ok(1) by (auto simp: worker_begin_def intro: tasks_ok_cong)
next
  case (cp_end i t)
  then show ?thesis using assms(1) worker_work_ok(2) by (auto simp: worker_end_def intro: tasks_ok_cong)
next
  case (cp_adjust_signal n k)
  then show ?thesis
    using wake_one_ok [of k p] assms(1) by (auto simp: adjust_signal_def intro: counts_ok_cong tasks_ok_cong)
next
  case (cp_spurious i)
  then show ?thesis using assms(1) by (auto intro: counts_ok_move move_tasks)
next
  case cp_destroy_adjust
  then show ?thesis using assms(1) by (auto intro: counts_ok_cong tasks_ok_cong)
next
  case (cp_loop i)
  then show ?thesis using assms(1) worker_loop_ok [of p i] by simp
next
  case (cp_woken i)
  then show ?thesis using assms(1) worker_woken_ok [of p i] by simp
next
  case (cp_add k t)
  then show ?thesis using assms(1) add_ok [of p k t q] by simp
next
  case cp_adjust
  then show ?thesis using assms(1) adjust_step_ok [of p] by simp
next
  case cp_destroy
  then show ?thesis using assms(1) destroy_ok(1) [of p] by simp
next
  case (cp_destroy_wake i)
  then show ?thesis using assms(1) destroy_ok(2) [of p] by simp
next
  case (cp_destroy_join i)
  then show ?thesis using assms(1) destroy_ok(3) [of p] by simp
qed

interpretation cpool: invariant_system cpool_init "cpool_step esrch" "\<lambda>p. counts_ok p \<and> tasks_ok p" for esrch
proof
  fix p assume "cpool_init p"
  then obtain junk_exit junk_slots min_thr max_thr where
    p: "junk_slots \<noteq> []" "0 \<le> min_thr" "threadpool_create True True True True junk_exit junk_slots min_thr max_thr = Created p"
    by (auto simp: cpool_init_def)
  then have m: "min_thr \<le> max_thr" by (auto simp: threadpool_create_def split: if_splits)
  have phases: "tphase p = (\<lambda>i. if int i < min_thr then T_lock else T_none)" "max_thr_num p = max_thr"
      "min_thr_num p = min_thr" "live_thr_num p = min_thr" "busy_thr_num p = 0"
    using p m by (auto simp: threadpool_create_def)
  have "alive_count p = int (nat min_thr)"
    unfolding alive_count_def phases(2) by (rule headcount_prefix) (use m p(2) in \<open>auto simp: phases(1)\<close>)
  moreover have "busy_count p = 0"
    using headcount_prefix [of 0 "nat max_thr" at_work "tphase p"] by (simp add: busy_count_def phases)
  ultimately have "counts_ok p" using p(2) m by (auto simp: counts_ok_def phases)
  moreover have "tasks_ok p" using new_queue_ok [OF p(1)] p(3) m by (auto simp: tasks_ok_def threadpool_create_def)
  ultimately show "counts_ok p \<and> tasks_ok p" by blast
qed (rule cpool_ok_step)



section \<open>Freeing the pool too early\<close>

text \<open>
  A run with room for two threads, of which one is kept: ten tasks make the manager start the
  second thread, in slot 1; it then asks for retirements and the first thread, in slot 0, leaves.
  One thread is left, so \<open>threadpool_destroy\<close> joins slot 0 only.
\<close>

definition some_task :: task_slot where
  "some_task = \<lparr>tfunction = 1, targ = None\<rparr>"

definition small_pool :: tpool where
  "small_pool =
     \<lparr>tqueue = new_queue (replicate 20 some_task), min_thr_num = 1, max_thr_num = 2, live_thr_num = 1,
      busy_thr_num = 0, wait_exit_thr_num = 0, shutdown = False,
      tphase = (\<lambda>i. if int i < 1 then T_lock else T_none), lock = None, adjust = A_loop,
      tdestroy = TD_idle, added = [], begun = []\<rparr>"

lemma small_pool_init: "cpool_init small_pool"
  unfolding cpool_init_def
  by (rule exI [of _ 0], rule exI [of _ "replicate 20 some_task"], rule exI [of _ 1], rule exI [of _ 2])
    (simp add: threadpool_create_def small_pool_def)

lemma small_pool_reach: "reach cpool_init (cpool_step esrch) small_pool"
  by (rule reach.reach_init) (rule small_pool_init)


text \<open>The fields that steer the run; the other fields are left open.\<close>

definition at_point ::
  "tpool \<Rightarrow> nat \<Rightarrow> (nat \<Rightarrow> tphase) \<Rightarrow> int \<Rightarrow> int \<Rightarrow> bool \<Rightarrow> adjust \<Rightarrow> tdestroy \<Rightarrow> bool" where
  "at_point p sz phases live wait_exit down a d \<longleftrightarrow>
     queue_size (tqueue p) = sz \<and> queue_max_size (tqueue p) = 20 \<and> tphase p = phases
     \<and> live_thr_num p = live \<and> wait_exit_thr_num p = wait_exit \<and> shutdown p = down \<and> adjust p = a \<and> tdestroy p = d
     \<and> min_thr_num p = 1 \<and> max_thr_num p = 2 \<and> busy_thr_num p = 0 \<and> lock p = None"

definition two :: "tphase \<Rightarrow> tphase \<Rightarrow> nat \<Rightarrow> tphase" where
  "two a b = (\<lambda>i. if i = 0 then a else if i = 1 then b else T_none)"

lemma two_upd [simp]: "(two a b)(0 := c) = two c b" "(two a b)(Suc 0 := c) = two a c"
  by (auto simp: two_def)

lemma two_app [simp]: "two a b 0 = a" "two a b (Suc 0) = b"
  by (simp_all add: two_def)

lemma two_no_sleep: "a \<noteq> T_sleep \<Longrightarrow> b \<noteq> T_sleep \<Longrightarrow> two a b i \<noteq> T_sleep"
  by (simp add: two_def)

lemma run_adds:
  assumes "reach cpool_init (cpool_step esrch) p" "at_point p sz (two T_woken T_none) 1 0 False A_loop TD_idle"
    "sz + k \<le> 20"
  shows "\<exists>q. reach cpool_init (cpool_step esrch) q \<and> at_point q (sz + k) (two T_woken T_none) 1 0 False A_loop TD_idle"
  using assms
proof (induction k)
  case (Suc k)
  then obtain q where q: "reach cpool_init (cpool_step esrch) q"
      "at_point q (sz + k) (two T_woken T_none) 1 0 False A_loop TD_idle" by auto
  let ?q = "q\<lparr>tqueue := tq_put some_task (tqueue q), added := added q @ [some_task]\<rparr>"
  have "threadpool_add some_task None q = Added ?q"
    using q(2) Suc.prems(3) by (simp add: threadpool_add_def at_point_def tq_full_def wake_one_def)
  moreover have "signals None q" using q(2) by (simp add: signals_def at_point_def two_no_sleep)
  ultimately have "cpool_step esrch q ?q" using q(2) by (intro cp_add) (auto simp: at_point_def)
  then have "reach cpool_init (cpool_step esrch) ?q" using q(1) by (blast intro: reach.reach_step)
  moreover have "at_point ?q (sz + Suc k) (two T_woken T_none) 1 0 False A_loop TD_idle"
    using q(2) by (simp add: at_point_def)
  ultimately show ?case by blast
qed auto


definition visits :: "(nat \<Rightarrow> bool) \<Rightarrow> (tpool \<Rightarrow> bool) \<Rightarrow> bool" where
  "visits esrch P \<longleftrightarrow> (\<exists>p. reach cpool_init (cpool_step esrch) p \<and> P p)"

lemma visits_step: "visits esrch P \<Longrightarrow> (\<And>p. P p \<Longrightarrow> \<exists>q. cpool_step esrch p q \<and> Q q) \<Longrightarrow> visits esrch Q"
  unfolding visits_def by (blast intro: reach.reach_step)

text \<open>One step of the manager.\<close>

lemma visits_adjust:
  assumes "visits esrch (\<lambda>p. at_point p sz ph live w down a d)"
    "\<And>p. at_point p sz ph live w down a d \<Longrightarrow> at_point (adjust_step esrch a p) sz' ph' live' w' down' a' d'"
  shows "visits esrch (\<lambda>p. at_point p sz' ph' live' w' down' a' d')"
  using assms(1)
proof (rule visits_step)
  fix p assume p: "at_point p sz ph live w down a d"
  then have "cpool_step esrch p (adjust_step esrch (adjust p) p)" by (intro cp_adjust) (simp add: at_point_def)
  then show "\<exists>q. cpool_step esrch p q \<and> at_point q sz' ph' live' w' down' a' d'"
    using assms(2) [OF p] p by (auto simp: at_point_def)
qed

lemma grow_two:
  assumes "at_point p sz (two T_woken T_none) 1 w down a d"
  shows "grow_loop esrch 0 0 p = (set_tphase 1 T_lock p)\<lparr>live_thr_num := 2\<rparr>"
  using assms
  by (simp add: grow_loop.simps [of esrch 0] grow_loop.simps [of esrch 1] grow_loop.simps [of esrch "Suc 0"] grow_loop.simps [of esrch 2]
      grow_loop.simps [of esrch "Suc (Suc 0)"]
      at_point_def is_thread_alive_def DEFAULT_THREAD_VARY_def)

lemma visits_ten: "visits esrch (\<lambda>p. at_point p 10 (two T_woken T_none) 1 0 False A_loop TD_idle)"
proof -
  let ?p1 = "worker_loop 0 small_pool"
  let ?p2 = "worker_wait 0 ?p1"
  let ?p3 = "set_tphase 0 T_woken (?p2\<lparr>tqueue := tq_put some_task (tqueue ?p2), added := [some_task]\<rparr>)"
  let ?r = "reach cpool_init (cpool_step esrch)"
  note defs = worker_loop_def worker_wait_def small_pool_def tq_empty_def new_queue_def queue_max_size_def
  have "?r small_pool" by (rule small_pool_reach)
  then have "?r ?p1" by (rule reach.reach_step) (rule cp_loop; simp add: small_pool_def)
  then have "?r ?p2" by (rule reach.reach_step) (rule cp_wait; simp add: defs)
  moreover have "threadpool_add some_task (Some 0) ?p2 = Added ?p3"
    by (simp add: threadpool_add_def defs tq_full_def wake_one_def)
  then have "cpool_step esrch ?p2 ?p3" by (intro cp_add [of _ "Some 0"]) (simp_all add: defs signals_def)
  ultimately have "?r ?p3" by (blast intro: reach.reach_step)
  moreover have "tphase ?p3 = two T_woken T_none" by (auto simp: defs two_def)
  then have "at_point ?p3 1 (two T_woken T_none) 1 0 False A_loop TD_idle"
    by (simp add: at_point_def defs set_tphase_def)
  ultimately have "\<exists>q. ?r q \<and> at_point q (1 + 9) (two T_woken T_none) 1 0 False A_loop TD_idle"
    by (rule run_adds) simp
  then show ?thesis by (simp add: visits_def)
qed

lemma visits_shrinking: "visits esrch (\<lambda>p. at_point p 10 (two T_woken T_lock) 2 10 False (A_signal 10) TD_idle)"
proof -
  note defs = at_point_def DEFAULT_THREAD_VARY_def MIN_WAIT_TASK_NUM_def
  let ?at = "\<lambda>w live a p. at_point p 10 (two T_woken w) live 0 False a TD_idle"
  have "visits esrch (?at T_none 1 A_loop)" by (rule visits_ten)
  then have "visits esrch (?at T_none 1 A_size)" by (rule visits_adjust) (simp add: defs)
  then have "visits esrch (?at T_none 1 (A_busy 10 1))" by (rule visits_adjust) (simp add: defs)
  then have "visits esrch (?at T_none 1 (A_grow 10 1 0))" by (rule visits_adjust) (simp add: defs)
  then have "visits esrch (?at T_lock 2 (A_shrink 1 0))"
    by (rule visits_adjust) (simp add: grow_two, simp add: defs set_tphase_def)
  then have "visits esrch (?at T_lock 2 A_loop)" by (rule visits_adjust) (simp add: defs)
  then have "visits esrch (?at T_lock 2 A_size)" by (rule visits_adjust) (simp add: defs)
  then have "visits esrch (?at T_lock 2 (A_busy 10 2))" by (rule visits_adjust) (simp add: defs)
  then have "visits esrch (?at T_lock 2 (A_grow 10 2 0))" by (rule visits_adjust) (simp add: defs)
  then have "visits esrch (?at T_lock 2 (A_shrink 2 0))" by (rule visits_adjust) (simp add: defs)
  then show ?thesis by (rule visits_adjust) (simp add: defs)
qed

lemma visits_signals:
  assumes "visits esrch (\<lambda>p. at_point p sz (two a b) live w down (A_signal (Suc n)) d)" "a \<noteq> T_sleep" "b \<noteq> T_sleep"
  shows "visits esrch (\<lambda>p. at_point p sz (two a b) live w down A_loop d)"
  using assms(1)
proof (induction n)
  case 0
  then show ?case
  proof (rule visits_step)
    fix p assume p: "at_point p sz (two a b) live w down (A_signal (Suc 0)) d"
    then have "cpool_step esrch p (adjust_signal (Suc 0) None p)"
      by (intro cp_adjust_signal) (auto simp: at_point_def signals_def two_no_sleep assms)
    then show "\<exists>q. cpool_step esrch p q \<and> at_point q sz (two a b) live w down A_loop d"
      by (intro exI conjI) (assumption, use p in \<open>simp add: adjust_signal_def wake_one_def at_point_def\<close>)
  qed
next
  case (Suc n)
  have "visits esrch (\<lambda>p. at_point p sz (two a b) live w down (A_signal (Suc n)) d)"
    using Suc.prems
  proof (rule visits_step)
    fix p assume p: "at_point p sz (two a b) live w down (A_signal (Suc (Suc n))) d"
    then have "cpool_step esrch p (adjust_signal (Suc (Suc n)) None p)"
      by (intro cp_adjust_signal) (auto simp: at_point_def signals_def two_no_sleep assms)
    then show "\<exists>q. cpool_step esrch p q \<and> at_point q sz (two a b) live w down (A_signal (Suc n)) d"
      by (intro exI conjI) (assumption, use p in \<open>simp add: adjust_signal_def wake_one_def at_point_def\<close>)
  qed
  then show ?case by (rule Suc.IH)
qed

text \<open>The thread of slot 0 leaves while the manager is still signalling.\<close>

lemma visits_retired: "visits esrch (\<lambda>p. at_point p 10 (two T_dead T_lock) 1 9 False A_loop TD_idle)"
proof (rule visits_signals)
  show "visits esrch (\<lambda>p. at_point p 10 (two T_dead T_lock) 1 9 False (A_signal (Suc 9)) TD_idle)"
  proof (rule visits_step [OF visits_shrinking])
    fix p assume p: "at_point p 10 (two T_woken T_lock) 2 10 False (A_signal 10) TD_idle"
    then have "cpool_step esrch p (worker_woken 0 p)" by (intro cp_woken) (auto simp: at_point_def)
    then show "\<exists>q. cpool_step esrch p q \<and> at_point q 10 (two T_dead T_lock) 1 9 False (A_signal (Suc 9)) TD_idle"
      by (intro exI conjI) (assumption, use p in \<open>simp add: worker_woken_def Let_def set_tphase_def at_point_def\<close>)
  qed
qed simp_all

lemma visits_broadcasts: "visits esrch (\<lambda>p. at_point p 10 (two T_dead T_lock) 1 9 True A_done (TD_broadcast 0))"
proof -
  let ?at = "\<lambda>down a d p. at_point p 10 (two T_dead T_lock) 1 9 down a d"
  have "visits esrch (?at True A_loop TD_adjust)"
  proof (rule visits_step [OF visits_retired])
    fix p assume p: "?at False A_loop TD_idle p"
    then have "cpool_step esrch p (destroy_begin p)" by (intro cp_destroy) (simp add: at_point_def)
    then show "\<exists>q. cpool_step esrch p q \<and> ?at True A_loop TD_adjust q"
      by (intro exI conjI) (assumption, use p in \<open>simp add: destroy_begin_def at_point_def\<close>)
  qed
  then have "visits esrch (?at True A_done TD_adjust)" by (rule visits_adjust) (simp add: at_point_def)
  then show ?thesis
  proof (rule visits_step)
    fix p assume p: "?at True A_done TD_adjust p"
    then have "cpool_step esrch p (p\<lparr>tdestroy := TD_broadcast 0\<rparr>)" by (intro cp_destroy_adjust) (simp_all add: at_point_def)
    then show "\<exists>q. cpool_step esrch p q \<and> ?at True A_done (TD_broadcast 0) q"
      by (intro exI conjI) (assumption, use p in \<open>simp add: at_point_def\<close>)
  qed
qed

lemma visits_wake:
  assumes "visits esrch (\<lambda>p. at_point p 10 (two T_dead T_lock) 1 9 True A_done (TD_broadcast i))"
  shows "visits esrch (\<lambda>p. at_point p 10 (two T_dead T_lock) 1 9 True A_done
           (if i < 1 then TD_broadcast (i + 1) else TD_join 0))"
proof (rule visits_step [OF assms])
  fix p assume p: "at_point p 10 (two T_dead T_lock) 1 9 True A_done (TD_broadcast i)"
  have same: "tphase (wake_all p) = tphase p" using p by (auto simp: wake_all_def at_point_def two_no_sleep)
  have "cpool_step esrch p (destroy_wake i p)" using p by (intro cp_destroy_wake) (simp add: at_point_def)
  then show "\<exists>q. cpool_step esrch p q \<and> at_point q 10 (two T_dead T_lock) 1 9 True A_done
           (if i < 1 then TD_broadcast (i + 1) else TD_join 0)"
    by (intro exI conjI) (assumption, use p same in \<open>auto simp: destroy_wake_def wake_all_def at_point_def\<close>)
qed

lemma visits_join:
  assumes "visits esrch (\<lambda>p. at_point p 10 (two T_dead T_lock) 1 9 True A_done (TD_join i))"
  shows "visits esrch (\<lambda>p. at_point p 10 (two T_dead T_lock) 1 9 True A_done (if i < 1 then TD_join (i + 1) else TD_freed))"
proof (rule visits_step [OF assms])
  fix p assume p: "at_point p 10 (two T_dead T_lock) 1 9 True A_done (TD_join i)"
  let ?q = "p\<lparr>tdestroy := (if i < 1 then TD_join (i + 1) else TD_freed)\<rparr>"
  have "cpool_step esrch p ?q"
    by (rule cp_destroy_join [of _ i]) (use p in \<open>auto simp: destroy_join_def at_point_def\<close>)
  then show "\<exists>q. cpool_step esrch p q \<and> at_point q 10 (two T_dead T_lock) 1 9 True A_done (if i < 1 then TD_join (i + 1) else TD_freed)"
    by (intro exI conjI) (assumption, use p in \<open>simp add: at_point_def\<close>)
qed

text \<open>
  \<open>threadpool_destroy\<close> joins the slots below the number of live threads, and not the slots the
  live threads are in: there is a run, with no failing call in it, at whose end the pool has been
  freed while a worker is still about to lock the pool's mutex.
\<close>

theorem threadpool_freed_too_early:
  "\<exists>p. reach cpool_init (cpool_step esrch) p \<and> tdestroy p = TD_freed \<and> tphase p 1 = T_lock"
proof -
  note visits_wake [OF visits_broadcasts [of esrch]]
  then have "visits esrch (\<lambda>p. at_point p 10 (two T_dead T_lock) 1 9 True A_done (TD_broadcast 1))" by simp
  from visits_wake [OF this]
  have "visits esrch (\<lambda>p. at_point p 10 (two T_dead T_lock) 1 9 True A_done (TD_join 0))" by simp
  from visits_join [OF this]
  have "visits esrch (\<lambda>p. at_point p 10 (two T_dead T_lock) 1 9 True A_done (TD_join 1))" by simp
  from visits_join [OF this]
  have "visits esrch (\<lambda>p. at_point p 10 (two T_dead T_lock) 1 9 True A_done TD_freed)" by simp
  then show ?thesis by (auto simp: visits_def at_point_def)
qed

end
