(* ===== verification/Fd_Wrap.thy ===== *)
theory Fd_Wrap
  imports Prelude
begin

text \<open>
  The wrappers around the system calls, \<^verbatim>\<open>wrap.c\<close> (of which
  \<^verbatim>\<open>src/Linux_Net/concurrent/moreIO_concurrent/select_concurrent/wrap.c\<close> is one of seven copies):
  retries after an interrupt, reading and writing a fixed number of bytes, and reading lines through
  a static buffer. The kernel's part is a script of answers for each descriptor: chunks of bytes as
  they arrive, errors, and the end of the stream; when the script is used up the call blocks.
\<close>

datatype errno = EINTR | ECONNABORTED | ECONNRESET | EAGAIN | Other_errno nat

datatype answer = Got string | Err errno

text \<open>
  \<open>read(fd, ptr, n)\<close>: a chunk longer than \<open>n\<close> is delivered in parts; the empty chunk is the end of
  the stream and stays. \<open>None\<close>: the call blocks.
\<close>

fun read_call :: "nat \<Rightarrow> answer list \<Rightarrow> (answer \<times> answer list) option" where
  "read_call n [] = None"
| "read_call n (Err e # ans) = Some (Err e, ans)"
| "read_call n (Got s # ans) =
     Some (Got (take n s), if s = [] then Got s # ans else if length s \<le> n then ans else Got (drop n s) # ans)"

text \<open>
  \<open>write(fd, s, length s)\<close>: the script says how many bytes the kernel takes, or how the call fails;
  with no entry left everything is taken.
\<close>

datatype wanswer = Takes nat | WErr errno

fun write_call :: "string \<Rightarrow> wanswer list \<Rightarrow> wanswer \<times> wanswer list" where
  "write_call s [] = (Takes (length s), [])"
| "write_call s (Takes k # ws) = (Takes (min k (length s)), ws)"
| "write_call s (WErr e # ws) = (WErr e, ws)"

section \<open>Retrying calls\<close>

fun answer_weight :: "answer \<Rightarrow> nat" where
  "answer_weight (Got s) = Suc (length s)"
| "answer_weight (Err e) = 1"

definition script_weight :: "answer list \<Rightarrow> nat" where
  "script_weight ans = sum_list (map answer_weight ans)"

lemma read_call_weight:
  "read_call n ans = Some (a, rest) \<Longrightarrow> 0 < n \<Longrightarrow> a \<noteq> Got [] \<Longrightarrow> script_weight rest < script_weight ans"
  by (cases "(n, ans)" rule: read_call.cases) (auto simp: script_weight_def split: if_splits)

lemma read_call_err_weight:
  "read_call n ans = Some (Err e, rest) \<Longrightarrow> script_weight rest < script_weight ans"
  by (cases "(n, ans)" rule: read_call.cases) (auto simp: script_weight_def)

text \<open>\<open>Read\<close>; a result \<open>Err e\<close> is \<open>-1\<close> with \<open>errno\<close> set.\<close>

function Read :: "nat \<Rightarrow> answer list \<Rightarrow> (answer \<times> answer list) option" where
  "Read n ans =
     (case read_call n ans of
        None \<Rightarrow> None
      | Some (Err e, rest) \<Rightarrow> if e = EINTR then Read n rest else Some (Err e, rest)
      | Some (Got s, rest) \<Rightarrow> Some (Got s, rest))"
  by pat_completeness auto
termination
  by (relation "measure (\<lambda>(n, ans). script_weight ans)") (auto dest: read_call_err_weight)

declare Read.simps [simp del]

text \<open>
  \<open>Accept\<close>: the listening socket has a connection or an error for each call; an error that is
  delivered ends the program in \<open>perr_exit\<close>.
\<close>

datatype accept_answer = Conn | AErr errno

fun Accept :: "accept_answer list \<Rightarrow> (accept_answer \<times> accept_answer list) option" where
  "Accept [] = None"
| "Accept (Conn # ans) = Some (Conn, ans)"
| "Accept (AErr e # ans) = (if e = ECONNABORTED \<or> e = EINTR then Accept ans else Some (AErr e, ans))"

text \<open>\<open>Write\<close>: the return value, and the bytes that were taken.\<close>

fun Write :: "string \<Rightarrow> wanswer list \<Rightarrow> int \<times> string \<times> wanswer list" where
  "Write s [] = (int (length s), s, [])"
| "Write s (Takes k # ws) = (int (min k (length s)), take k s, ws)"
| "Write s (WErr e # ws) = (if e = EINTR then Write s ws else (- 1, [], ws))"

section \<open>Fixed numbers of bytes\<close>

text \<open>
  The loop of \<open>Readn\<close>: what is left to read, if the loop ended, and what was stored. The result is
  \<open>None\<close> inside for \<open>return -1\<close>.
\<close>

function Readn_loop :: "nat \<Rightarrow> string \<Rightarrow> answer list \<Rightarrow> (nat option \<times> string \<times> answer list) option" where
  "Readn_loop nleft buf ans =
     (if nleft > 0
      then (case read_call nleft ans of
              None \<Rightarrow> None
            | Some (Err e, rest) \<Rightarrow> if e = EINTR then Readn_loop nleft buf rest else Some (None, buf, rest)
            | Some (Got s, rest) \<Rightarrow>
                if s = [] then Some (Some nleft, buf, rest) else Readn_loop (nleft - length s) (buf @ s) rest)
      else Some (Some nleft, buf, ans))"
  by pat_completeness auto
termination
  by (relation "measure (\<lambda>(nleft, buf, ans). script_weight ans)") (auto dest: read_call_err_weight read_call_weight)

declare Readn_loop.simps [simp del]

definition Readn :: "nat \<Rightarrow> answer list \<Rightarrow> (int \<times> string \<times> answer list) option" where
  "Readn n ans =
     (case Readn_loop n [] ans of
        None \<Rightarrow> None
      | Some (None, buf, rest) \<Rightarrow> Some (- 1, buf, rest)
      | Some (Some nleft, buf, rest) \<Rightarrow> Some (int n - int nleft, buf, rest))"

text \<open>The loop of \<open>Writen\<close>: whether it ended normally, and what was written.\<close>

function Writen_loop :: "string \<Rightarrow> string \<Rightarrow> wanswer list \<Rightarrow> bool \<times> string \<times> wanswer list" where
  "Writen_loop ptr out ws =
     (if ptr \<noteq> []
      then (case write_call ptr ws of
              (WErr e, ws') \<Rightarrow> if e = EINTR then Writen_loop ptr out ws' else (False, out, ws')
            | (Takes k, ws') \<Rightarrow> if k = 0 then (False, out, ws') else Writen_loop (drop k ptr) (out @ take k ptr) ws')
      else (True, out, ws))"
  by pat_completeness auto
termination
proof (relation "measures [\<lambda>(ptr, out, ws). length ptr, \<lambda>(ptr, out, ws). length ws]", goal_cases)
  case (3 ptr out ws p)
  then show ?case by (cases "(ptr, ws)" rule: write_call.cases) auto
next
  case (2 ptr out ws p)
  then show ?case by (cases "(ptr, ws)" rule: write_call.cases) auto
qed auto

declare Writen_loop.simps [simp del]

definition Writen :: "string \<Rightarrow> wanswer list \<Rightarrow> int \<times> string \<times> wanswer list" where
  "Writen s ws = (case Writen_loop s [] ws of (ok, out, ws') \<Rightarrow> (if ok then int (length s) else - 1, out, ws'))"

section \<open>Lines\<close>

text \<open>
  The static variables of \<open>my_read\<close>. They are shared by all descriptors. \<open>Read\<close> has the same
  retrying loop as \<open>my_read\<close>.
\<close>

record line_buffer =
  read_cnt :: int
  read_ptr :: nat
  read_buf :: string

definition read_buf_size :: nat where
  "read_buf_size = 100"

definition initial_buffer :: line_buffer where
  "initial_buffer = \<lparr>read_cnt = 0, read_ptr = 0, read_buf = replicate read_buf_size (char_of (0::nat))\<rparr>"

datatype my_result = One char | At_end | Minus_one

definition my_read_next :: "line_buffer \<Rightarrow> my_result \<times> line_buffer" where
  "my_read_next b =
     (One (read_buf b ! read_ptr b), b\<lparr>read_cnt := read_cnt b - 1, read_ptr := read_ptr b + 1\<rparr>)"

definition my_read :: "line_buffer \<Rightarrow> answer list \<Rightarrow> (my_result \<times> line_buffer \<times> answer list) option" where
  "my_read b ans =
     (if read_cnt b \<le> 0
      then (case Read read_buf_size ans of
              None \<Rightarrow> None
            | Some (Err e, rest) \<Rightarrow> Some (Minus_one, b\<lparr>read_cnt := - 1\<rparr>, rest)
            | Some (Got s, rest) \<Rightarrow>
                if s = [] then Some (At_end, b\<lparr>read_cnt := 0\<rparr>, rest)
                else (case my_read_next
                        (b\<lparr>read_cnt := int (length s), read_ptr := 0, read_buf := s @ drop (length s) (read_buf b)\<rparr>) of
                        (r, b') \<Rightarrow> Some (r, b', rest)))
      else (case my_read_next b of (r, b') \<Rightarrow> Some (r, b', ans)))"

text \<open>\<open>Readline\<close>: the return value and the characters stored before the final null byte.\<close>

function Readline_loop ::
  "nat \<Rightarrow> nat \<Rightarrow> string \<Rightarrow> line_buffer \<Rightarrow> answer list \<Rightarrow> (int \<times> string \<times> line_buffer \<times> answer list) option" where
  "Readline_loop n maxlen ptr b ans =
     (if n < maxlen
      then (case my_read b ans of
              None \<Rightarrow> None
            | Some (One c, b', rest) \<Rightarrow>
                if c = CHR 0x0A then Some (int n, ptr @ [c], b', rest)
                else Readline_loop (n + 1) maxlen (ptr @ [c]) b' rest
            | Some (At_end, b', rest) \<Rightarrow> Some (int n - 1, ptr, b', rest)
            | Some (Minus_one, b', rest) \<Rightarrow> Some (- 1, ptr, b', rest))
      else Some (int n, ptr, b, ans))"
  by pat_completeness auto
termination
  by (relation "measure (\<lambda>(n, maxlen, ptr, b, ans). maxlen - n)") auto

declare Readline_loop.simps [simp del]

definition Readline :: "nat \<Rightarrow> line_buffer \<Rightarrow> answer list \<Rightarrow> (int \<times> string \<times> line_buffer \<times> answer list) option" where
  "Readline maxlen b ans = Readline_loop 1 maxlen [] b ans"

section \<open>What arrives\<close>

text \<open>
  The bytes a script delivers, however they are cut and interrupted, and what comes after them:
  nothing yet, the end of the stream, or an error.
\<close>

datatype ending = Dry | Ended | Broken errno

fun stream :: "answer list \<Rightarrow> string \<times> ending" where
  "stream [] = ([], Dry)"
| "stream (Err e # ans) = (if e = EINTR then stream ans else ([], Broken e))"
| "stream (Got s # ans) = (if s = [] then ([], Ended) else (s @ fst (stream ans), snd (stream ans)))"

lemma Read_simps [simp]:
  "Read n [] = None"
  "Read n (Err e # ans) = (if e = EINTR then Read n ans else Some (Err e, ans))"
  "Read n (Got s # ans) =
     Some (Got (take n s), if s = [] then Got s # ans else if length s \<le> n then ans else Got (drop n s) # ans)"
  by (simp_all add: Read.simps [of n])

text \<open>One successful \<open>Read\<close> takes the next bytes of the stream, at least one and at most \<open>n\<close>.\<close>

lemma Read_stream:
  assumes "0 < n"
  shows "(stream ans = ([], Dry) \<longrightarrow> Read n ans = None)
    \<and> (stream ans = ([], Ended) \<longrightarrow> (\<exists>rest. Read n ans = Some (Got [], rest) \<and> stream rest = ([], Ended)))
    \<and> (\<forall>e. stream ans = ([], Broken e) \<longrightarrow> (\<exists>rest. Read n ans = Some (Err e, rest)))
    \<and> (fst (stream ans) \<noteq> [] \<longrightarrow>
         (\<exists>s rest. Read n ans = Some (Got s, rest) \<and> s \<noteq> [] \<and> length s \<le> n
            \<and> stream ans = (s @ fst (stream rest), snd (stream rest))))"
  using assms by (induction ans rule: stream.induct) auto

lemma Readn_loop_simps [simp]:
  "Readn_loop 0 buf ans = Some (Some 0, buf, ans)"
  "0 < n \<Longrightarrow> Readn_loop n buf [] = None"
  "0 < n \<Longrightarrow> Readn_loop n buf (Err e # ans) = (if e = EINTR then Readn_loop n buf ans else Some (None, buf, ans))"
  "0 < n \<Longrightarrow> Readn_loop n buf (Got [] # ans) = Some (Some n, buf, Got [] # ans)"
  "0 < n \<Longrightarrow> s \<noteq> [] \<Longrightarrow> Readn_loop n buf (Got s # ans) =
     (if length s \<le> n then Readn_loop (n - length s) (buf @ s) ans
      else Some (Some 0, buf @ take n s, Got (drop n s) # ans))"
  by (simp_all add: Readn_loop.simps [of n] Readn_loop.simps [of 0])

text \<open>What \<open>Readn\<close> has to deliver from a stream: the loop's result, up to the rest of the script.\<close>

fun readn_result :: "nat \<Rightarrow> string \<Rightarrow> string \<times> ending \<Rightarrow> (nat option \<times> string \<times> (string \<times> ending) option) option" where
  "readn_result n buf (bs, e) =
     (if n \<le> length bs then Some (Some 0, buf @ take n bs, Some (drop n bs, e))
      else (case e of
              Dry \<Rightarrow> None
            | Ended \<Rightarrow> Some (Some (n - length bs), buf @ bs, Some ([], Ended))
            | Broken er \<Rightarrow> Some (None, buf @ bs, None)))"

fun loop_result :: "nat option \<times> string \<times> answer list \<Rightarrow> nat option \<times> string \<times> (string \<times> ending) option" where
  "loop_result (None, buf, rest) = (None, buf, None)"
| "loop_result (Some k, buf, rest) = (Some k, buf, Some (stream rest))"

lemma readn_result_append:
  "s \<noteq> [] \<Longrightarrow> length s \<le> n \<Longrightarrow> readn_result n buf (s @ bs, e) = readn_result (n - length s) (buf @ s) (bs, e)"
  by (cases e) auto

lemma Readn_loop_stream: "map_option loop_result (Readn_loop n buf ans) = readn_result n buf (stream ans)"
proof (induction ans arbitrary: n buf rule: stream.induct)
  case 1
  then show ?case by (cases "n = 0") auto
next
  case (2 e ans)
  then show ?case by (cases "n = 0"; cases "stream ans") auto
next
  case (3 s ans)
  obtain bs e where st: "stream ans = (bs, e)" by fastforce
  show ?case
  proof (cases "n = 0 \<or> s = []")
    case True
    then show ?thesis using st by (cases "n = 0") auto
  next
    case False
    then show ?thesis using 3 st readn_result_append [of s n buf bs e] by (auto simp del: readn_result.simps) auto
  qed
qed

text \<open>
  C23. \<open>Readn\<close> against every way the kernel can cut and interrupt a stream: it returns as soon as \<open>n\<close>
  bytes have come, with exactly those bytes, and leaves the rest of the stream; it stops short only
  at the end of the stream, returning the number of bytes there were; after an error it returns
  \<open>-1\<close>; and it blocks exactly while fewer than \<open>n\<close> bytes have come and the stream is open.
\<close>

theorem Readn_reads_exactly:
  "map_option (\<lambda>(r, buf, rest). (r, buf, if r = - 1 then None else Some (stream rest))) (Readn n ans) =
     (case stream ans of
        (bs, e) \<Rightarrow>
          if n \<le> length bs then Some (int n, take n bs, Some (drop n bs, e))
          else (case e of
                  Dry \<Rightarrow> None
                | Ended \<Rightarrow> Some (int (length bs), bs, Some ([], Ended))
                | Broken er \<Rightarrow> Some (- 1, bs, None)))"
proof -
  obtain bs e where st: "stream ans = (bs, e)" by fastforce
  show ?thesis
    using Readn_loop_stream [of n "[]" ans] st
    by (cases e) (auto simp: Readn_def split: option.splits if_splits)
qed

section \<open>Writing all bytes\<close>

lemma Writen_loop_simps [simp]:
  "Writen_loop [] out ws = (True, out, ws)"
  "s \<noteq> [] \<Longrightarrow> Writen_loop s out [] = (True, out @ s, [])"
  "s \<noteq> [] \<Longrightarrow> Writen_loop s out (WErr e # ws) = (if e = EINTR then Writen_loop s out ws else (False, out, ws))"
  "s \<noteq> [] \<Longrightarrow> Writen_loop s out (Takes k # ws) =
     (if k = 0 then (False, out, ws) else Writen_loop (drop k s) (out @ take k s) ws)"
  by (simp_all add: Writen_loop.simps [of s] Writen_loop.simps [of "[]"] min_def)

fun taking :: "wanswer \<Rightarrow> bool" where
  "taking (Takes k) = (0 < k)"
| "taking (WErr e) = (e = EINTR)"

lemma Writen_loop_taking: "\<forall>w\<in>set ws. taking w \<Longrightarrow> \<exists>ws'. Writen_loop s out ws = (True, out @ s, ws')"
proof (induction ws arbitrary: s out)
  case (Cons w ws)
  have "\<exists>ws'. Writen_loop (drop k s) (out @ take k s) ws = (True, out @ s, ws')" for k
    using Cons.IH [of "drop k s" "out @ take k s"] Cons.prems by simp
  then show ?case using Cons by (cases "s = []"; cases w) auto
qed (case_tac "s = []", auto)

lemma Writen_loop_prefix: "Writen_loop s out ws = (ok, res, ws') \<Longrightarrow> \<exists>k. res = out @ take k s \<and> (ok \<longrightarrow> res = out @ s)"
proof (induction ws arbitrary: s out)
  case Nil
  then show ?case by (cases "s = []") (auto intro: exI [of _ "length s"])
next
  case (Cons w ws)
  show ?case
  proof (cases "s = [] \<or> \<not> taking w")
    case True
    then show ?thesis using Cons.prems by (cases "s = []"; cases w) (auto intro: exI [of _ 0])
  next
    case False
    show ?thesis
    proof (cases w)
      case (Takes k)
      then have "Writen_loop (drop k s) (out @ take k s) ws = (ok, res, ws')" using Cons.prems False by simp
      from Cons.IH [OF this]
      obtain j where "res = (out @ take k s) @ take j (drop k s)" "ok \<longrightarrow> res = (out @ take k s) @ drop k s"
        by blast
      then show ?thesis by (intro exI [of _ "k + j"]) (simp add: take_add)
    next
      case (WErr e)
      then show ?thesis using Cons False by auto
    qed
  qed
qed

text \<open>
  \<open>Writen\<close> writes a prefix of its bytes, all of them exactly when it does not return \<open>-1\<close>; and it
  returns \<open>-1\<close> only for a reason: as long as the kernel takes at least one byte per call or reports
  an interrupt, everything is written.
\<close>

theorem Writen_writes_all:
  "(case Writen s ws of
      (r, out, ws') \<Rightarrow> (\<exists>k. out = take k s) \<and> (r = int (length s) \<and> out = s \<or> r = - 1))
   \<and> ((\<forall>w\<in>set ws. taking w) \<longrightarrow> fst (Writen s ws) = int (length s))"
  using Writen_loop_prefix [of s "[]" ws] Writen_loop_taking [of ws s "[]"]
  by (cases "\<forall>w\<in>set ws. taking w") (auto simp: Writen_def split: prod.split)

theorem Writen_writes_all_witness:
  "fst (Writen ''hello'' [Takes 2, WErr EINTR, Takes 1]) = 5"
  using Writen_writes_all [of "''hello''" "[Takes 2, WErr EINTR, Takes 1]"] by simp

section \<open>Reading lines\<close>

text \<open>The bytes in the static buffer that have not been handed out, and all that is still to come.\<close>

definition unread :: "line_buffer \<Rightarrow> string" where
  "unread b = take (nat (read_cnt b)) (drop (read_ptr b) (read_buf b))"

definition buffer_ok :: "line_buffer \<Rightarrow> bool" where
  "buffer_ok b \<longleftrightarrow> read_cnt b > 0 \<longrightarrow> read_ptr b + nat (read_cnt b) \<le> length (read_buf b)"

definition pending :: "line_buffer \<Rightarrow> answer list \<Rightarrow> string \<times> ending" where
  "pending b ans = (unread b @ fst (stream ans), snd (stream ans))"

lemma my_read_next_unread:
  assumes "buffer_ok b" "read_cnt b > 0"
  shows "\<exists>c b'. my_read_next b = (One c, b') \<and> unread b = c # unread b' \<and> buffer_ok b'"
proof -
  have i: "read_ptr b < length (read_buf b)" using assms by (simp add: buffer_ok_def)
  have n: "nat (read_cnt b) = Suc (nat (read_cnt b - 1))" using assms(2) by simp
  have "unread b = read_buf b ! read_ptr b # take (nat (read_cnt b - 1)) (drop (Suc (read_ptr b)) (read_buf b))"
    unfolding unread_def n using i by (simp add: Cons_nth_drop_Suc [symmetric])
  then show ?thesis using assms by (auto simp: my_read_next_def unread_def buffer_ok_def)
qed

fun my_read_result :: "string \<times> ending \<Rightarrow> (my_result \<times> (string \<times> ending) option) option" where
  "my_read_result (c # cs, e) = Some (One c, Some (cs, e))"
| "my_read_result ([], Dry) = None"
| "my_read_result ([], Ended) = Some (At_end, Some ([], Ended))"
| "my_read_result ([], Broken er) = Some (Minus_one, None)"

fun seen :: "my_result \<times> line_buffer \<times> answer list \<Rightarrow> my_result \<times> (string \<times> ending) option" where
  "seen (Minus_one, b, rest) = (Minus_one, None)"
| "seen (r, b, rest) = (r, Some (pending b rest))"

lemma my_read_pending:
  assumes "buffer_ok b"
  shows "map_option seen (my_read b ans) = my_read_result (pending b ans)
    \<and> (\<forall>r b' rest. my_read b ans = Some (r, b', rest) \<longrightarrow> buffer_ok b')"
proof (cases "read_cnt b > 0")
  case True
  obtain c b' where "my_read_next b = (One c, b')" "unread b = c # unread b'" "buffer_ok b'"
    using my_read_next_unread [OF assms True] by blast
  then show ?thesis using True by (simp add: my_read_def pending_def)
next
  case False
  have u: "unread b = []" using False by (simp add: unread_def)
  have pos: "0 < read_buf_size" by (simp add: read_buf_size_def)
  consider "stream ans = ([], Dry)" | "stream ans = ([], Ended)" | e where "stream ans = ([], Broken e)"
    | "fst (stream ans) \<noteq> []"
    by (metis ending.exhaust surjective_pairing)
  then show ?thesis
  proof cases
    case 4
    then obtain s rest where s: "Read read_buf_size ans = Some (Got s, rest)" "s \<noteq> []"
        "stream ans = (s @ fst (stream rest), snd (stream rest))"
      using Read_stream [OF pos, of ans] by blast
    let ?b = "b\<lparr>read_cnt := int (length s), read_ptr := 0, read_buf := s @ drop (length s) (read_buf b)\<rparr>"
    have "buffer_ok ?b" "read_cnt ?b > 0" "unread ?b = s" using s(2) by (auto simp: buffer_ok_def unread_def)
    with my_read_next_unread [of ?b]
    obtain c b' where "my_read_next ?b = (One c, b')" "s = c # unread b'" "buffer_ok b'" by auto
    then show ?thesis using s False u by (simp add: my_read_def pending_def)
  qed (use Read_stream [OF pos, of ans] False u in \<open>auto simp: my_read_def pending_def unread_def buffer_ok_def\<close>)
qed

text \<open>The first line of a text, its newline included, cut after \<open>k\<close> characters.\<close>

fun first_line :: "nat \<Rightarrow> string \<Rightarrow> string" where
  "first_line 0 s = []"
| "first_line (Suc k) [] = []"
| "first_line (Suc k) (c # cs) = c # (if c = CHR 0x0A then [] else first_line k cs)"

fun line_ended :: "string \<Rightarrow> bool" where
  "line_ended l = (l \<noteq> [] \<and> last l = CHR 0x0A)"

text \<open>\<open>Readline\<close> on a stream: return value, line, and what is left.\<close>

fun line_result :: "nat \<Rightarrow> string \<times> ending \<Rightarrow> (int \<times> string \<times> (string \<times> ending) option) option" where
  "line_result k (bs, e) =
     (let l = first_line k bs in
      if line_ended l then Some (int (length l), l, Some (drop (length l) bs, e))
      else if length l = k then Some (int k + 1, l, Some (drop k bs, e))
      else (case e of
              Dry \<Rightarrow> None
            | Ended \<Rightarrow> Some (int (length l), l, Some ([], Ended))
            | Broken er \<Rightarrow> Some (- 1, l, None)))"

fun line_seen :: "int \<times> string \<times> line_buffer \<times> answer list \<Rightarrow> int \<times> string \<times> (string \<times> ending) option" where
  "line_seen (r, l, b, rest) = (r, l, if r = - 1 then None else Some (pending b rest))"

definition after_char :: "nat \<Rightarrow> string \<Rightarrow> int \<times> string \<times> (string \<times> ending) option \<Rightarrow> int \<times> string \<times> (string \<times> ending) option" where
  "after_char n ptr x = (case x of (r, l, o') \<Rightarrow> (if r = - 1 then - 1 else int n - 1 + r, ptr @ l, o'))"

lemma line_result_Cons:
  "map_option (after_char n ptr) (line_result (Suc k) (c # cs, e)) =
     (if c = CHR 0x0A then Some (int n, ptr @ [c], Some (cs, e))
      else map_option (after_char (n + 1) (ptr @ [c])) (line_result k (cs, e)))"
  by (cases e; cases "first_line k cs") (auto simp: Let_def after_char_def)

lemma Readline_loop_pending:
  assumes "buffer_ok b" "0 < n"
  shows "map_option line_seen (Readline_loop n (n + k) ptr b ans)
      = map_option (after_char n ptr) (line_result k (pending b ans))
    \<and> (\<forall>r l b' rest. Readline_loop n (n + k) ptr b ans = Some (r, l, b', rest) \<longrightarrow> buffer_ok b')"
  using assms
proof (induction k arbitrary: n ptr b ans)
  case 0
  then show ?case by (cases "pending b ans") (simp add: Readline_loop.simps [of n] after_char_def)
next
  case (Suc k)
  note mr = my_read_pending [OF Suc.prems(1), of ans]
  obtain bs e where p: "pending b ans = (bs, e)" by fastforce
  show ?case
  proof (cases bs)
    case Nil
    with p mr Suc.prems show ?thesis
      by (cases e; cases "my_read b ans")
        (auto simp: Readline_loop.simps [of n] after_char_def elim: seen.elims)
  next
    case (Cons c cs)
    then obtain b' rest where r: "my_read b ans = Some (One c, b', rest)" "pending b' rest = (cs, e)" "buffer_ok b'"
      using p mr by (auto elim!: seen.elims)
    show ?thesis
      using Suc.IH [OF r(3), of "n + 1" "ptr @ [c]" rest] r p Cons Suc.prems line_result_Cons [of n ptr k c cs e]
      by (simp add: Readline_loop.simps [of n] del: line_result.simps)
  qed
qed

text \<open>
  C24. \<open>Readline\<close> hands out the stream line by line, whatever the chunks it arrives in: a call returns
  the next line with its newline and its length, and what it has read beyond that stays in the static
  buffer for the next call. The last line may lack the newline. But a line that does not fit into
  \<open>maxlen - 1\<close> characters is cut there, and then the value returned is \<open>maxlen\<close>, one more than the number
  of characters stored.
\<close>

theorem Readline_lines:
  assumes "buffer_ok b" "0 < maxlen"
  shows "map_option line_seen (Readline maxlen b ans) =
    (case pending b ans of
       (bs, e) \<Rightarrow>
         let l = first_line (maxlen - 1) bs in
         if line_ended l then Some (int (length l), l, Some (drop (length l) bs, e))
         else if length l = maxlen - 1 then Some (int maxlen, l, Some (drop (maxlen - 1) bs, e))
         else (case e of
                 Dry \<Rightarrow> None
               | Ended \<Rightarrow> Some (int (length l), l, Some ([], Ended))
               | Broken er \<Rightarrow> Some (- 1, l, None)))
    \<and> (\<forall>r l b' rest. Readline maxlen b ans = Some (r, l, b', rest) \<longrightarrow> buffer_ok b')"
proof -
  obtain bs e where p: "pending b ans = (bs, e)" by fastforce
  have m: "1 + (maxlen - 1) = maxlen" using assms(2) by simp
  have same: "map_option (after_char 1 []) (line_result k x) = line_result k x" for k x
    by (cases x; cases "snd x") (auto simp: after_char_def Let_def)
  have "map_option line_seen (Readline maxlen b ans) = line_result (maxlen - 1) (bs, e)"
    and ok: "\<forall>r l b' rest. Readline maxlen b ans = Some (r, l, b', rest) \<longrightarrow> buffer_ok b'"
    using Readline_loop_pending [OF assms(1) zero_less_one, of "maxlen - 1" "[]" ans]
    unfolding m p same Readline_def by blast+
  moreover have "int (maxlen - 1) + 1 = int maxlen" using assms(2) by simp
  ultimately show ?thesis by (simp only: p line_result.simps prod.case ok Let_def)
qed

theorem Readline_lines_witness:
  "map_option line_seen (Readline 4 initial_buffer [Got ''ab'', Err EINTR, Got ''cdef'']) = Some (4, ''abc'', Some (''def'', Dry))"
  using Readline_lines [of initial_buffer 4 "[Got ''ab'', Err EINTR, Got ''cdef'']"]
  by (simp add: pending_def unread_def initial_buffer_def buffer_ok_def numeral_3_eq_3)

text \<open>
  The static buffer does not belong to a descriptor: a line read from one descriptor may have come
  in through another.
\<close>

lemma Readline_mixes_descriptors:
  "\<exists>b. Readline 80 initial_buffer [Got [CHR ''a'', CHR 0x0A, CHR ''b'', CHR 0x0A]] = Some (2, [CHR ''a'', CHR 0x0A], b, [])
     \<and> (\<exists>b'. Readline 80 b [Got [CHR ''z'', CHR 0x0A]] = Some (2, [CHR ''b'', CHR 0x0A], b', [Got [CHR ''z'', CHR 0x0A]]))"
  by (simp add: Readline_def Readline_loop.simps my_read_def my_read_next_def initial_buffer_def read_buf_size_def)

end
