(* ===== verification/Net_Kernel.thy ===== *)
theory Net_Kernel
  imports Fd_Wrap Transition
begin

text \<open>
  The kernel's side of the socket servers under \<^verbatim>\<open>src/Linux_Net\<close>, as far as the servers can see it:
  which descriptors are open, what will be answered to the calls on each of them, and what has been
  read from and written to each connection since it was accepted (\<open>got\<close> and \<open>sent\<close>).
\<close>

record net =
  listen_queue :: "accept_answer list"
  incoming :: "int \<Rightarrow> answer list"
  outgoing :: "int \<Rightarrow> wanswer list"
  open_fds :: "int list"
  got :: "int \<Rightarrow> string"
  sent :: "int \<Rightarrow> string"

text \<open>A new descriptor is the lowest one that is not open.\<close>

definition lowest_free :: "int list \<Rightarrow> int" where
  "lowest_free fds = int (hd (filter (\<lambda>n. int n \<notin> set fds) [0..<Suc (length fds)]))"

lemma lowest_free_fresh: "lowest_free fds \<notin> set fds" "0 \<le> lowest_free fds"
proof -
  have "\<not> int ` {..<Suc (length fds)} \<subseteq> set fds"
  proof
    assume "int ` {..<Suc (length fds)} \<subseteq> set fds"
    then have "card (int ` {..<Suc (length fds)}) \<le> length fds"
      by (meson List.finite_set card_length card_mono le_trans)
    then show False by (simp add: card_image)
  qed
  then obtain n where "n < Suc (length fds)" "int n \<notin> set fds" by blast
  then have "n \<in> set (filter (\<lambda>n. int n \<notin> set fds) [0..<Suc (length fds)])" by (simp del: upt_Suc)
  then have "filter (\<lambda>n. int n \<notin> set fds) [0..<Suc (length fds)] \<noteq> []" by (rule length_pos_if_in_set [THEN iffD1 [OF length_greater_0_conv]])
  then have "hd (filter (\<lambda>n. int n \<notin> set fds) [0..<Suc (length fds)]) \<in> set (filter (\<lambda>n. int n \<notin> set fds) [0..<Suc (length fds)])"
    by (rule hd_in_set)
  then show "lowest_free fds \<notin> set fds" by (simp only: lowest_free_def set_filter mem_Collect_eq not_False_eq_True)
qed (simp add: lowest_free_def)

text \<open>The calls: \<open>None\<close> is a call that does not return.\<close>

definition admit :: "net \<Rightarrow> int \<times> net" where
  "admit w =
     (let fd = lowest_free (open_fds w)
      in (fd, w\<lparr>open_fds := fd # open_fds w, incoming := (incoming w)(fd := []), outgoing := (outgoing w)(fd := []),
                got := (got w)(fd := []), sent := (sent w)(fd := [])\<rparr>))"

definition sys_Accept :: "net \<Rightarrow> ((errno + int) \<times> net) option" where
  "sys_Accept w =
     (case Accept (listen_queue w) of
        None \<Rightarrow> None
      | Some (AErr e, q) \<Rightarrow> Some (Inl e, w\<lparr>listen_queue := q\<rparr>)
      | Some (Conn, q) \<Rightarrow> (case admit (w\<lparr>listen_queue := q\<rparr>) of (fd, w') \<Rightarrow> Some (Inr fd, w')))"

definition receive :: "int \<Rightarrow> answer \<Rightarrow> answer list \<Rightarrow> net \<Rightarrow> net" where
  "receive fd a rest w =
     (let w = w\<lparr>incoming := (incoming w)(fd := rest)\<rparr>
      in case a of Got s \<Rightarrow> w\<lparr>got := (got w)(fd := got w fd @ s)\<rparr> | Err e \<Rightarrow> w)"

definition sys_Read :: "nat \<Rightarrow> int \<Rightarrow> net \<Rightarrow> (answer \<times> net) option" where
  "sys_Read n fd w =
     (case Read n (incoming w fd) of None \<Rightarrow> None | Some (a, rest) \<Rightarrow> Some (a, receive fd a rest w))"

definition transmit :: "int \<Rightarrow> string \<Rightarrow> wanswer list \<Rightarrow> net \<Rightarrow> net" where
  "transmit fd s ws w = w\<lparr>outgoing := (outgoing w)(fd := ws), sent := (sent w)(fd := sent w fd @ s)\<rparr>"

definition sys_Write :: "int \<Rightarrow> string \<Rightarrow> net \<Rightarrow> net" where
  "sys_Write fd s w = (case Write s (outgoing w fd) of (r, out, ws) \<Rightarrow> transmit fd out ws w)"

definition sys_Writen :: "int \<Rightarrow> string \<Rightarrow> net \<Rightarrow> net" where
  "sys_Writen fd s w = (case Writen s (outgoing w fd) of (r, out, ws) \<Rightarrow> transmit fd out ws w)"

definition sys_Close :: "int \<Rightarrow> net \<Rightarrow> net" where
  "sys_Close fd w = w\<lparr>open_fds := removeAll fd (open_fds w)\<rparr>"

text \<open>The calls themselves, without the wrappers.\<close>

fun sys_accept :: "net \<Rightarrow> ((errno + int) \<times> net) option" where
  "sys_accept w =
     (case listen_queue w of
        [] \<Rightarrow> None
      | AErr e # q \<Rightarrow> Some (Inl e, w\<lparr>listen_queue := q\<rparr>)
      | Conn # q \<Rightarrow> (case admit (w\<lparr>listen_queue := q\<rparr>) of (fd, w') \<Rightarrow> Some (Inr fd, w')))"

definition sys_read :: "nat \<Rightarrow> int \<Rightarrow> net \<Rightarrow> (answer \<times> net) option" where
  "sys_read n fd w =
     (case read_call n (incoming w fd) of None \<Rightarrow> None | Some (a, rest) \<Rightarrow> Some (a, receive fd a rest w))"

definition sys_write :: "int \<Rightarrow> string \<Rightarrow> net \<Rightarrow> wanswer \<times> net" where
  "sys_write fd s w =
     (case write_call s (outgoing w fd) of
        (Takes k, ws) \<Rightarrow> (Takes k, transmit fd (take k s) ws w)
      | (WErr e, ws) \<Rightarrow> (WErr e, transmit fd [] ws w))"

text \<open>When \<open>select\<close>, \<open>poll\<close> and \<open>epoll_wait\<close> report a descriptor as readable.\<close>

definition readable :: "net \<Rightarrow> int \<Rightarrow> bool" where
  "readable w fd \<longleftrightarrow> stream (incoming w fd) \<noteq> ([], Dry)"

definition acceptable :: "net \<Rightarrow> bool" where
  "acceptable w \<longleftrightarrow> listen_queue w \<noteq> []"

text \<open>What a descriptor in an \<open>epoll\<close> set is watched for; the servers never watch for both.\<close>

datatype epoll_flag = EPOLLIN | EPOLLOUT

text \<open>How a loop of a server can end up.\<close>

datatype 'a outcome = Next 'a | Exits | Blocks | Undefined

text \<open>
  What happens around the server: data, errors and the end of the stream arrive on open connections,
  clients connect, and the next write calls are answered as \<open>allowed\<close> says.
\<close>

inductive net_env :: "(wanswer \<Rightarrow> bool) \<Rightarrow> net \<Rightarrow> net \<Rightarrow> bool" for allowed where
  env_arrive: "fd \<in> set (open_fds w) \<Longrightarrow> net_env allowed w (w\<lparr>incoming := (incoming w)(fd := incoming w fd @ [a])\<rparr>)"
| env_connect: "net_env allowed w (w\<lparr>listen_queue := listen_queue w @ [c]\<rparr>)"
| env_write: "allowed x \<Longrightarrow> net_env allowed w (w\<lparr>outgoing := (outgoing w)(fd := outgoing w fd @ [x])\<rparr>)"

section \<open>What the calls change\<close>

lemma admit_simps [simp]:
  "fst (admit w) = lowest_free (open_fds w)"
  "open_fds (snd (admit w)) = lowest_free (open_fds w) # open_fds w"
  "got (snd (admit w)) = (got w)(lowest_free (open_fds w) := [])"
  "sent (snd (admit w)) = (sent w)(lowest_free (open_fds w) := [])"
  "outgoing (snd (admit w)) = (outgoing w)(lowest_free (open_fds w) := [])"
  "listen_queue (snd (admit w)) = listen_queue w"
  by (simp_all add: admit_def Let_def)

lemma admit_other: "fd \<noteq> lowest_free (open_fds w) \<Longrightarrow> incoming (snd (admit w)) fd = incoming w fd"
  by (simp add: admit_def Let_def)

lemma sys_Accept_conn:
  assumes "sys_Accept w = Some (Inr fd, w')"
  shows "\<exists>q. fd = lowest_free (open_fds w) \<and> w' = snd (admit (w\<lparr>listen_queue := q\<rparr>))"
  using assms by (auto simp: sys_Accept_def admit_def Let_def split: option.splits accept_answer.splits)

lemma receive_simps [simp]:
  "incoming (receive fd a rest w) = (incoming w)(fd := rest)"
  "open_fds (receive fd a rest w) = open_fds w"
  "sent (receive fd a rest w) = sent w"
  "outgoing (receive fd a rest w) = outgoing w"
  "listen_queue (receive fd a rest w) = listen_queue w"
  "got (receive fd (Got s) rest w) = (got w)(fd := got w fd @ s)"
  "got (receive fd (Err e) rest w) = got w"
  by (auto simp: receive_def Let_def split: answer.split)

lemma transmit_simps [simp]:
  "open_fds (transmit fd s ws w) = open_fds w"
  "got (transmit fd s ws w) = got w"
  "sent (transmit fd s ws w) = (sent w)(fd := sent w fd @ s)"
  "outgoing (transmit fd s ws w) = (outgoing w)(fd := ws)"
  "incoming (transmit fd s ws w) = incoming w"
  "listen_queue (transmit fd s ws w) = listen_queue w"
  by (simp_all add: transmit_def)

lemma sys_Close_simps [simp]:
  "open_fds (sys_Close fd w) = removeAll fd (open_fds w)"
  "got (sys_Close fd w) = got w" "sent (sys_Close fd w) = sent w" "outgoing (sys_Close fd w) = outgoing w"
  "incoming (sys_Close fd w) = incoming w" "listen_queue (sys_Close fd w) = listen_queue w"
  by (simp_all add: sys_Close_def)

lemma readable_Read: "0 < n \<Longrightarrow> readable w fd \<longleftrightarrow> sys_Read n fd w \<noteq> None"
proof -
  assume n: "0 < n"
  consider "stream (incoming w fd) = ([], Dry)" | "stream (incoming w fd) = ([], Ended)"
    | e where "stream (incoming w fd) = ([], Broken e)" | "fst (stream (incoming w fd)) \<noteq> []"
    by (metis ending.exhaust surjective_pairing)
  then show ?thesis
    by cases (use Read_stream [OF n, of "incoming w fd"] in \<open>auto simp: readable_def sys_Read_def\<close>)
qed

section \<open>Answered connections\<close>

text \<open>
  A connection is answered by \<open>f\<close> when what was written to it is \<open>f\<close> applied to what was read from it,
  byte by byte; the write scripts stay within \<open>allowed\<close>.
\<close>

definition answered :: "(char \<Rightarrow> char) \<Rightarrow> net \<Rightarrow> int \<Rightarrow> bool" where
  "answered f w fd \<longleftrightarrow> sent w fd = map f (got w fd)"

definition writes_in :: "(wanswer \<Rightarrow> bool) \<Rightarrow> net \<Rightarrow> bool" where
  "writes_in allowed w \<longleftrightarrow> (\<forall>fd. \<forall>a\<in>set (outgoing w fd). allowed a)"

fun interrupt_only :: "wanswer \<Rightarrow> bool" where
  "interrupt_only (WErr e) = (e = EINTR)"
| "interrupt_only (Takes k) = False"

lemma Write_interrupt_only:
  "\<forall>a\<in>set ws. interrupt_only a \<Longrightarrow> \<exists>ws'. Write s ws = (int (length s), s, ws') \<and> set ws' \<subseteq> set ws"
  by (induction s ws rule: Write.induct) auto

lemma Writen_loop_subset: "Writen_loop s out ws = (ok, out', ws') \<Longrightarrow> set ws' \<subseteq> set ws"
proof (induction ws arbitrary: s out)
  case Nil
  then show ?case by (cases "s = []") auto
next
  case (Cons a ws)
  then show ?case by (cases "s = []"; cases a) (auto split: if_splits dest!: Cons.IH)
qed

lemma Writen_taking:
  assumes "\<forall>a\<in>set ws. taking a"
  shows "\<exists>ws'. Writen s ws = (int (length s), s, ws') \<and> set ws' \<subseteq> set ws"
proof -
  obtain ws' where "Writen_loop s [] ws = (True, s, ws')" using Writen_loop_taking [OF assms, of s "[]"] by auto
  with Writen_loop_subset [OF this] show ?thesis by (simp add: Writen_def)
qed

text \<open>Reading a chunk and writing its image back keeps every connection answered.\<close>

lemma sys_Write_echo:
  assumes "writes_in interrupt_only w"
  shows "\<exists>ws'. sys_Write fd s w = transmit fd s ws' w \<and> writes_in interrupt_only (sys_Write fd s w)"
proof -
  obtain ws' where "Write s (outgoing w fd) = (int (length s), s, ws')" "set ws' \<subseteq> set (outgoing w fd)"
    using Write_interrupt_only [of "outgoing w fd" s] assms by (auto simp: writes_in_def)
  then show ?thesis using assms by (auto simp: sys_Write_def writes_in_def)
qed

lemma sys_Writen_echo:
  assumes "writes_in taking w"
  shows "\<exists>ws'. sys_Writen fd s w = transmit fd s ws' w \<and> writes_in taking (sys_Writen fd s w)"
proof -
  obtain ws' where "Writen s (outgoing w fd) = (int (length s), s, ws')" "set ws' \<subseteq> set (outgoing w fd)"
    using Writen_taking [of "outgoing w fd" s] assms by (auto simp: writes_in_def)
  then show ?thesis using assms by (auto simp: sys_Writen_def writes_in_def)
qed

lemma net_env_keeps:
  assumes "net_env allowed w w'"
  shows "open_fds w' = open_fds w" "got w' = got w" "sent w' = sent w" "writes_in allowed w \<Longrightarrow> writes_in allowed w'"
  using assms by (auto elim!: net_env.cases simp: writes_in_def split: if_splits)

end
