(* ===== verification/Slot_Scan.thy ===== *)
theory Slot_Scan
  imports Net_Kernel
begin

text \<open>
  What the servers built on \<open>select\<close> and \<open>poll\<close> share: a table of descriptors whose free slots hold a
  negative number, and the loop that serves the ready slots and stops as soon as the number of ready
  descriptors has been counted down.
\<close>

definition toupper :: "char \<Rightarrow> char" where
  "toupper c = (if 97 \<le> byte c \<and> byte c \<le> 122 then char_of (byte c - 32) else c)"

text \<open>The index of the first free slot, or the length of the table.\<close>

fun first_slot :: "int list \<Rightarrow> nat" where
  "first_slot [] = 0"
| "first_slot (x # xs) = (if x < 0 then 0 else Suc (first_slot xs))"

lemma first_slot_le: "first_slot xs \<le> length xs"
  by (induction xs) auto

lemma first_slot_free: "first_slot xs < length xs \<Longrightarrow> xs ! first_slot xs < 0"
  by (induction xs) auto

lemma first_slot_before: "i < first_slot xs \<Longrightarrow> 0 \<le> xs ! i"
  by (induction xs arbitrary: i) (auto simp: nth_Cons split: nat.splits if_splits)

text \<open>The connections in the table.\<close>

definition in_table :: "int list \<Rightarrow> int set" where
  "in_table xs = {fd \<in> set xs. 0 \<le> fd}"

definition table_ok :: "int list \<Rightarrow> bool" where
  "table_ok xs \<longleftrightarrow> distinct (filter (\<lambda>fd. 0 \<le> fd) xs) \<and> (\<forall>fd\<in>set xs. fd = - 1 \<or> 0 \<le> fd)"

lemma in_table_nth: "fd \<in> in_table xs \<Longrightarrow> \<exists>i<length xs. xs ! i = fd"
  by (auto simp: in_table_def in_set_conv_nth)

lemma nth_in_table: "i < length xs \<Longrightarrow> 0 \<le> xs ! i \<Longrightarrow> xs ! i \<in> in_table xs"
  by (auto simp: in_table_def)

lemma table_ok_distinct:
  "table_ok xs \<Longrightarrow> i < length xs \<Longrightarrow> j < length xs \<Longrightarrow> 0 \<le> xs ! i \<Longrightarrow> xs ! i = xs ! j \<Longrightarrow> i = j"
proof (induction xs arbitrary: i j)
  case (Cons x xs)
  have tl: "table_ok xs" using Cons.prems(1) by (auto simp: table_ok_def split: if_splits)
  have "x \<notin> in_table xs" if "0 \<le> x" using Cons.prems(1) that by (auto simp: table_ok_def in_table_def)
  then have head: "xs ! k \<noteq> x" if "0 \<le> x" "k < length xs" for k
    using that nth_in_table [of k xs] by fastforce
  show ?case
  proof (cases i; cases j)
    fix i' j' assume "i = Suc i'" "j = Suc j'"
    then show ?thesis using Cons.IH [OF tl, of i' j'] Cons.prems by simp
  qed (use Cons.prems head in auto)
qed simp

lemma table_insert:
  assumes "table_ok xs" "i < length xs" "xs ! i < 0" "0 \<le> fd" "fd \<notin> in_table xs"
  shows "table_ok (xs[i := fd])" "in_table (xs[i := fd]) = insert fd (in_table xs)"
proof -
  have split: "xs = take i xs @ xs ! i # drop (Suc i) xs" using assms(2) by (rule id_take_nth_drop)
  have upd: "xs[i := fd] = take i xs @ fd # drop (Suc i) xs" using assms(2) by (rule upd_conv_take_nth_drop)
  let ?A = "take i xs" and ?B = "drop (Suc i) xs"
  have f: "filter (\<lambda>fd. 0 \<le> fd) xs = filter (\<lambda>fd. 0 \<le> fd) ?A @ filter (\<lambda>fd. 0 \<le> fd) ?B"
    by (subst split) (use assms(3) in simp)
  have s: "set xs = insert (xs ! i) (set ?A \<union> set ?B)" by (subst split) auto
  have "fd \<notin> set ?A \<union> set ?B" using assms(4,5) s by (auto simp: in_table_def)
  moreover have "distinct (filter (\<lambda>fd. 0 \<le> fd) ?A @ filter (\<lambda>fd. 0 \<le> fd) ?B)"
    using assms(1) f by (simp add: table_ok_def)
  ultimately show "table_ok (xs[i := fd])" using assms(1,4) s by (auto simp: table_ok_def upd)
  show "in_table (xs[i := fd]) = insert fd (in_table xs)" using assms(3,4) s by (auto simp: in_table_def upd)
qed

lemma table_remove:
  assumes "table_ok xs" "i < length xs" "0 \<le> xs ! i"
  shows "table_ok (xs[i := - 1])" "in_table (xs[i := - 1]) = in_table xs - {xs ! i}"
proof -
  have split: "xs = take i xs @ xs ! i # drop (Suc i) xs" using assms(2) by (rule id_take_nth_drop)
  have upd: "xs[i := - 1] = take i xs @ - 1 # drop (Suc i) xs" using assms(2) by (rule upd_conv_take_nth_drop)
  let ?A = "take i xs" and ?B = "drop (Suc i) xs"
  have f: "filter (\<lambda>fd. 0 \<le> fd) xs = filter (\<lambda>fd. 0 \<le> fd) ?A @ xs ! i # filter (\<lambda>fd. 0 \<le> fd) ?B"
    by (subst split) (use assms(3) in simp)
  have s: "set xs = insert (xs ! i) (set ?A \<union> set ?B)" by (subst split) auto
  have "distinct (filter (\<lambda>fd. 0 \<le> fd) ?A @ xs ! i # filter (\<lambda>fd. 0 \<le> fd) ?B)"
    using assms(1) f by (simp add: table_ok_def)
  then show "table_ok (xs[i := - 1])" "in_table (xs[i := - 1]) = in_table xs - {xs ! i}"
    using assms(1,3) s by (auto simp: table_ok_def in_table_def upd)
qed

section \<open>The scanning loop\<close>

text \<open>
  The contract of the loop: \<open>view i s\<close> is what there is to slot \<open>i\<close>, \<open>hit\<close> says of a view whether the slot
  was reported, and serving a slot whose data are still \<open>ready\<close> changes only that slot, as \<open>served\<close> says;
  or it ends the program.
\<close>

locale slot_scan =
  fixes loop :: "int \<Rightarrow> nat list \<Rightarrow> 's \<Rightarrow> 's outcome"
    and serve :: "nat \<Rightarrow> 's \<Rightarrow> 's outcome"
    and view :: "nat \<Rightarrow> 's \<Rightarrow> 'v"
    and hit :: "'v \<Rightarrow> bool"
    and ready :: "'v \<Rightarrow> bool"
    and served :: "'v \<Rightarrow> 'v \<Rightarrow> bool"
    and inv :: "'s \<Rightarrow> bool"
    and room :: nat
  assumes loop_skip: "inv s \<Longrightarrow> i < room \<Longrightarrow> \<not> hit (view i s) \<Longrightarrow> loop k (i # js) s = loop k js s"
    and loop_exit: "inv s \<Longrightarrow> i < room \<Longrightarrow> hit (view i s) \<Longrightarrow> serve i s = Exits \<Longrightarrow> loop k (i # js) s = Exits"
    and loop_hit: "inv s \<Longrightarrow> i < room \<Longrightarrow> hit (view i s) \<Longrightarrow> 0 < k \<Longrightarrow> serve i s = Next s' \<Longrightarrow>
      loop k (i # js) s = (if k = 1 then Next s' else loop (k - 1) js s')"
    and serve_ok: "inv s \<Longrightarrow> i < room \<Longrightarrow> hit (view i s) \<Longrightarrow> ready (view i s) \<Longrightarrow>
      serve i s = Exits \<or> (\<exists>s'. serve i s = Next s' \<and> inv s' \<and> served (view i s) (view i s')
        \<and> (\<forall>j<room. j \<noteq> i \<longrightarrow> view j s' = view j s))"
begin

text \<open>Counting down stops the loop after the last ready slot and not before.\<close>

lemma scan:
  assumes "inv s" "distinct is" "set is \<subseteq> {..<room}" "k = int (card {i \<in> set is. hit (view i s)})" "0 < k"
    "\<And>i. i \<in> set is \<Longrightarrow> hit (view i s) \<Longrightarrow> ready (view i s)"
  shows "loop k (is @ js) s = Exits
    \<or> (\<exists>s'. loop k (is @ js) s = Next s' \<and> inv s'
        \<and> (\<forall>i<room. if i \<in> set is \<and> hit (view i s) then served (view i s) (view i s') else view i s' = view i s))"
  using assms
proof (induction "is" arbitrary: s k)
  case (Cons i "is")
  have i: "i < room" and rest: "distinct is" "set is \<subseteq> {..<room}" "i \<notin> set is" using Cons.prems by auto
  show ?case
  proof (cases "hit (view i s)")
    case False
    have "{j \<in> set (i # is). hit (view j s)} = {j \<in> set is. hit (view j s)}" using False by auto
    then show ?thesis
      using Cons.IH [OF Cons.prems(1) rest(1,2)] Cons.prems loop_skip [OF Cons.prems(1) i False] False by auto
  next
    case True
    have card: "k = 1 + int (card {j \<in> set is. hit (view j s)})"
    proof -
      have "{j \<in> set (i # is). hit (view j s)} = insert i {j \<in> set is. hit (view j s)}" using True by auto
      then show ?thesis using Cons.prems(4) rest(3) by simp
    qed
    have "ready (view i s)" using Cons.prems(6) True by simp
    from serve_ok [OF Cons.prems(1) i True this] show ?thesis
    proof
      assume "serve i s = Exits"
      then show ?thesis using loop_exit [OF Cons.prems(1) i True] by simp
    next
      assume "\<exists>s'. serve i s = Next s' \<and> inv s' \<and> served (view i s) (view i s') \<and> (\<forall>j<room. j \<noteq> i \<longrightarrow> view j s' = view j s)"
      then obtain t where t: "serve i s = Next t" "inv t" "served (view i s) (view i t)"
          "\<And>j. j < room \<Longrightarrow> j \<noteq> i \<Longrightarrow> view j t = view j s" by blast
      have step: "loop k ((i # is) @ js) s = (if k = 1 then Next t else loop (k - 1) (is @ js) t)"
        using loop_hit [OF Cons.prems(1) i True Cons.prems(5) t(1), of "is @ js"] by simp
      have hits: "{j \<in> set is. hit (view j t)} = {j \<in> set is. hit (view j s)}" using t(4) rest by fastforce
      show ?thesis
      proof (cases "k = 1")
        case k: True
        then have "{j \<in> set is. hit (view j s)} = {}" using card by simp
        then show ?thesis using step k t True by (intro disjI2 exI [of _ t]) auto
      next
        case False
        then have pos: "0 < k - 1" using Cons.prems(5) by linarith
        have left: "k - 1 = int (card {j \<in> set is. hit (view j t)})" unfolding hits card by simp
        have still: "ready (view j t)" if "j \<in> set is" "hit (view j t)" for j
        proof -
          have "view j t = view j s" using that(1) rest t(4) by blast
          with that Cons.prems(6) show ?thesis by simp
        qed
        from Cons.IH [OF t(2) rest(1,2) left pos still] show ?thesis
        proof
          assume "loop (k - 1) (is @ js) t = Exits"
          then show ?thesis using step False by simp
        next
          assume "\<exists>u. loop (k - 1) (is @ js) t = Next u \<and> inv u
            \<and> (\<forall>i<room. if i \<in> set is \<and> hit (view i t) then served (view i t) (view i u) else view i u = view i t)"
          then obtain u where u: "loop (k - 1) (is @ js) t = Next u" "inv u"
            "\<And>j. j < room \<Longrightarrow> if j \<in> set is \<and> hit (view j t) then served (view j t) (view j u) else view j u = view j t"
            by blast
          have "if j \<in> set (i # is) \<and> hit (view j s) then served (view j s) (view j u) else view j u = view j s"
            if "j < room" for j
            using u(3) [OF that] t(3,4) that rest(3) True by (cases "j = i") (auto split: if_splits)
          then show ?thesis using u step False by (intro disjI2 exI [of _ u]) auto
        qed
      qed
    qed
  qed
qed simp

end

end
