(* ===== verification/Select_Server.thy ===== *)
theory Select_Server
  imports Slot_Scan
begin

text \<open>
  The server built on \<open>select\<close>, \<^verbatim>\<open>src/Linux_Net/concurrent/moreIO_concurrent/select_concurrent/server.c\<close>:
  it returns to each client in upper case what the client sends. One round of its loop is one step;
  between rounds data, connections and errors arrive. Writing to the standard output is left out.
\<close>

definition FD_SETSIZE :: nat where
  "FD_SETSIZE = 1024"

definition BUFSIZ :: nat where
  "BUFSIZ = 8192"

record sel =
  listenfd :: int
  client :: "int list"
  maxi :: int
  maxfd :: int
  allset :: "int set"
  snet :: net

definition sel_start :: "int \<Rightarrow> net \<Rightarrow> sel" where
  "sel_start lfd w =
     \<lparr>listenfd = lfd, client = replicate FD_SETSIZE (- 1), maxi = - 1, maxfd = lfd, allset = {lfd}, snet = w\<rparr>"

text \<open>
  The listening socket is ready. \<open>FD_SET\<close> of a descriptor that is not below \<open>FD_SETSIZE\<close> writes
  outside the set: \<open>Undefined\<close>.
\<close>

definition sel_accept :: "sel \<Rightarrow> sel outcome" where
  "sel_accept s =
     (case sys_Accept (snet s) of
        None \<Rightarrow> Blocks
      | Some (Inl e, w) \<Rightarrow> Exits
      | Some (Inr connfd, w) \<Rightarrow>
          (let i = first_slot (client s);
               s = s\<lparr>client := (client s)[i := connfd], snet := w\<rparr>
           in if i = FD_SETSIZE then Exits
              else if connfd \<ge> int FD_SETSIZE then Undefined
              else Next (s\<lparr>allset := insert connfd (allset s), maxfd := (if connfd > maxfd s then connfd else maxfd s),
                           maxi := (if int i > maxi s then int i else maxi s)\<rparr>)))"

definition sel_client :: "nat \<Rightarrow> sel \<Rightarrow> sel outcome" where
  "sel_client i s =
     (let sockfd = client s ! i in
      case sys_Read BUFSIZ sockfd (snet s) of
        None \<Rightarrow> Blocks
      | Some (Err e, w) \<Rightarrow> Next (s\<lparr>snet := w\<rparr>)
      | Some (Got str, w) \<Rightarrow>
          if str = []
          then Next (s\<lparr>snet := sys_Close sockfd w, allset := allset s - {sockfd}, client := (client s)[i := - 1]\<rparr>)
          else Next (s\<lparr>snet := sys_Write sockfd (map toupper str) w\<rparr>))"

fun sel_clients :: "int set \<Rightarrow> int \<Rightarrow> nat list \<Rightarrow> sel \<Rightarrow> sel outcome" where
  "sel_clients rset nready [] s = Next s"
| "sel_clients rset nready (i # is) s =
     (if client s ! i < 0 then sel_clients rset nready is s
      else if client s ! i \<in> rset
      then (case sel_client i s of
              Next s' \<Rightarrow> if nready - 1 = 0 then Next s' else sel_clients rset (nready - 1) is s'
            | r \<Rightarrow> r)
      else sel_clients rset nready is s)"

definition sel_ready :: "sel \<Rightarrow> int set" where
  "sel_ready s =
     Set.filter (\<lambda>fd. fd \<le> maxfd s \<and> (if fd = listenfd s then acceptable (snet s) else readable (snet s) fd)) (allset s)"

text \<open>One round; \<open>err\<close> says whether \<open>select\<close> fails.\<close>

definition sel_round :: "bool \<Rightarrow> sel \<Rightarrow> sel outcome" where
  "sel_round err s =
     (let rset = sel_ready s; nready = int (card rset) in
      if err then Exits
      else if rset = {} then Blocks
      else if listenfd s \<in> rset
      then (case sel_accept s of
              Next s' \<Rightarrow> if nready - 1 = 0 then Next s'
                        else sel_clients rset (nready - 1) [0..<nat (maxi s' + 1)] s'
            | r \<Rightarrow> r)
      else sel_clients rset nready [0..<nat (maxi s + 1)] s)"

inductive sel_step :: "sel \<Rightarrow> sel \<Rightarrow> bool" where
  sel_env: "net_env interrupt_only (snet s) w \<Longrightarrow> sel_step s (s\<lparr>snet := w\<rparr>)"
| sel_loop: "sel_round False s = Next s' \<Longrightarrow> sel_step s s'"

definition sel_init :: "sel \<Rightarrow> bool" where
  "sel_init s \<longleftrightarrow>
     (\<exists>lfd w. s = sel_start lfd w \<and> 3 \<le> lfd \<and> open_fds w = [lfd, 2, 1, 0] \<and> writes_in interrupt_only w)"

section \<open>The invariant\<close>

definition sel_ok :: "sel \<Rightarrow> bool" where
  "sel_ok s \<longleftrightarrow>
     length (client s) = FD_SETSIZE \<and> table_ok (client s)
     \<and> in_table (client s) \<inter> {0, 1, 2, listenfd s} = {} \<and> allset s = insert (listenfd s) (in_table (client s))
     \<and> (\<forall>fd\<in>allset s. fd \<le> maxfd s) \<and> 0 \<le> listenfd s
     \<and> (\<forall>i<FD_SETSIZE. maxi s < int i \<longrightarrow> client s ! i < 0) \<and> - 1 \<le> maxi s \<and> maxi s < int FD_SETSIZE
     \<and> set (open_fds (snet s)) = {0, 1, 2, listenfd s} \<union> in_table (client s)
     \<and> writes_in interrupt_only (snet s) \<and> (\<forall>fd\<in>in_table (client s). answered toupper (snet s) fd)"

text \<open>What there is to a slot, and what serving it does.\<close>

definition sel_view :: "nat \<Rightarrow> sel \<Rightarrow> int \<times> answer list \<times> string \<times> string" where
  "sel_view i s = (let fd = client s ! i; w = snet s in (fd, incoming w fd, got w fd, sent w fd))"

fun sel_served :: "int \<times> answer list \<times> string \<times> string \<Rightarrow> int \<times> answer list \<times> string \<times> string \<Rightarrow> bool" where
  "sel_served (fd, inc, g, se) v' =
     (case Read BUFSIZ inc of
        None \<Rightarrow> False
      | Some (Err e, rest) \<Rightarrow> v' = (fd, rest, g, se)
      | Some (Got str, rest) \<Rightarrow> if str = [] then fst v' = - 1 else v' = (fd, rest, g @ str, se @ map toupper str))"

lemma BUFSIZ_pos: "0 < BUFSIZ"
  by (simp add: BUFSIZ_def)

text \<open>The cases of serving one slot.\<close>

lemma sel_client_ok:
  assumes ok: "sel_ok s" and i: "i < FD_SETSIZE" "0 \<le> client s ! i" and rd: "readable (snet s) (client s ! i)"
  shows "\<exists>s'. sel_client i s = Next s' \<and> sel_ok s' \<and> listenfd s' = listenfd s \<and> maxi s' = maxi s
    \<and> sel_served (sel_view i s) (sel_view i s') \<and> (\<forall>j<FD_SETSIZE. j \<noteq> i \<longrightarrow> sel_view j s' = sel_view j s)"
proof -
  let ?fd = "client s ! i" and ?w = "snet s"
  have len: "i < length (client s)" and tab: "table_ok (client s)" using ok i by (auto simp: sel_ok_def)
  have mem: "?fd \<in> in_table (client s)" using nth_in_table [OF len i(2)] .
  have other: "client s ! j \<noteq> ?fd" if "j < FD_SETSIZE" "j \<noteq> i" for j
    using table_ok_distinct [OF tab len, of j] that ok i(2) by (auto simp: sel_ok_def)
  obtain a rest where rd': "Read BUFSIZ (incoming ?w ?fd) = Some (a, rest)"
    using rd readable_Read [OF BUFSIZ_pos, of ?w ?fd] by (auto simp: sys_Read_def split: option.splits)
  then have call: "sys_Read BUFSIZ ?fd ?w = Some (a, receive ?fd a rest ?w)" by (simp add: sys_Read_def)
  show ?thesis
  proof (cases a)
    case (Err e)
    have "sel_ok (s\<lparr>snet := receive ?fd a rest ?w\<rparr>)"
      using ok Err by (simp add: sel_ok_def answered_def writes_in_def)
    then show ?thesis
      using call rd' Err other by (auto simp: sel_client_def sel_view_def Let_def)
  next
    case str: (Got str)
    show ?thesis
    proof (cases "str = []")
      case True
      let ?s = "s\<lparr>snet := sys_Close ?fd (receive ?fd a rest ?w), allset := allset s - {?fd}, client := (client s)[i := - 1]\<rparr>"
      note rem = table_remove [OF tab len i(2)]
      have "sel_ok ?s"
        using ok rem mem str True len by (auto simp: sel_ok_def answered_def writes_in_def nth_list_update)
      then show ?thesis
        using call rd' str True other len by (auto simp: sel_client_def sel_view_def Let_def)
    next
      case False
      let ?r = "receive ?fd a rest ?w"
      have "writes_in interrupt_only ?r" using ok by (simp add: sel_ok_def writes_in_def)
      then obtain ws where ws: "sys_Write ?fd (map toupper str) ?r = transmit ?fd (map toupper str) ws ?r"
          "writes_in interrupt_only (sys_Write ?fd (map toupper str) ?r)"
        using sys_Write_echo by blast
      then have "sel_ok (s\<lparr>snet := sys_Write ?fd (map toupper str) ?r\<rparr>)"
        using ok str by (auto simp: sel_ok_def answered_def)
      then show ?thesis
        using call rd' str False other ws(1) by (auto simp: sel_client_def sel_view_def Let_def)
    qed
  qed
qed

interpretation sel_scan: slot_scan "sel_clients rset" sel_client sel_view
  "\<lambda>v. 0 \<le> fst v \<and> fst v \<in> rset" "\<lambda>v. stream (fst (snd v)) \<noteq> ([], Dry)" sel_served
  "\<lambda>s. sel_ok s \<and> listenfd s = l \<and> maxi s = m" FD_SETSIZE for rset l m
proof unfold_locales
  fix s i
  assume s: "sel_ok s \<and> listenfd s = l \<and> maxi s = m" "i < FD_SETSIZE" "0 \<le> fst (sel_view i s) \<and> fst (sel_view i s) \<in> rset"
    "stream (fst (snd (sel_view i s))) \<noteq> ([], Dry)"
  then have "readable (snet s) (client s ! i)" "0 \<le> client s ! i" by (auto simp: sel_view_def Let_def readable_def)
  with sel_client_ok [of s i] s
  show "sel_client i s = Exits \<or> (\<exists>s'. sel_client i s = Next s' \<and> (sel_ok s' \<and> listenfd s' = l \<and> maxi s' = m)
      \<and> sel_served (sel_view i s) (sel_view i s') \<and> (\<forall>j<FD_SETSIZE. j \<noteq> i \<longrightarrow> sel_view j s' = sel_view j s))"
    by auto
qed (auto simp: sel_view_def Let_def)

lemma sel_accept_ok:
  assumes ok: "sel_ok s" and acc: "sel_accept s = Next s'"
  shows "sel_ok s' \<and> listenfd s' = listenfd s \<and> allset s \<subseteq> allset s'
    \<and> (\<forall>i<FD_SETSIZE. 0 \<le> client s ! i \<longrightarrow> sel_view i s' = sel_view i s)
    \<and> (\<forall>fd\<in>allset s. incoming (snet s') fd = incoming (snet s) fd)"
proof -
  obtain fd w where call: "sys_Accept (snet s) = Some (Inr fd, w)"
    using acc by (auto simp: sel_accept_def split: option.splits sum.splits prod.splits)
  obtain q where fd_eq: "fd = lowest_free (open_fds (snet s))" and w: "w = snd (admit ((snet s)\<lparr>listen_queue := q\<rparr>))"
    using sys_Accept_conn [OF call] by blast
  let ?w = "(snet s)\<lparr>listen_queue := q\<rparr>" and ?i = "first_slot (client s)" and ?fd = "lowest_free (open_fds (snet s))"
  have len: "length (client s) = FD_SETSIZE" and tab: "table_ok (client s)" using ok by (auto simp: sel_ok_def)
  have i: "?i < FD_SETSIZE" and fd: "?fd < int FD_SETSIZE"
    and s': "s' = s\<lparr>client := (client s)[?i := ?fd], snet := snd (admit ?w), allset := insert ?fd (allset s),
      maxfd := (if ?fd > maxfd s then ?fd else maxfd s), maxi := (if int ?i > maxi s then int ?i else maxi s)\<rparr>"
    using acc call fd_eq w first_slot_le [of "client s"] len
    by (simp_all add: sel_accept_def Let_def split: if_splits)
  have free: "client s ! ?i < 0" using first_slot_free [of "client s"] i len by simp
  have fresh: "?fd \<notin> set (open_fds (snet s))" "0 \<le> ?fd" by (rule lowest_free_fresh)+
  then have new: "?fd \<notin> in_table (client s)" "?fd \<notin> {0, 1, 2, listenfd s}" "?fd \<notin> allset s"
    using ok by (auto simp: sel_ok_def)
  note ins = table_insert [OF tab i [folded len] free fresh(2) new(1)]
  have top: "\<forall>fd\<in>insert ?fd (allset s). fd \<le> (if ?fd > maxfd s then ?fd else maxfd s)"
    using ok by (auto simp: sel_ok_def intro: order_trans [OF _ less_imp_le])
  have "sel_ok s'"
    using ok ins new fresh(2) i top by (auto simp: sel_ok_def s' answered_def writes_in_def nth_list_update simp del: if_split)
  moreover have "sel_view j s' = sel_view j s" if "j < FD_SETSIZE" "0 \<le> client s ! j" for j
  proof -
    have "j \<noteq> ?i" "client s ! j \<noteq> ?fd" using that free new(1) nth_in_table [of j "client s"] len by auto
    then show ?thesis by (simp add: sel_view_def s' Let_def admit_other)
  qed
  moreover have "incoming (snet s') fd' = incoming (snet s) fd'" if "fd' \<in> allset s" for fd'
  proof -
    have "fd' \<noteq> ?fd" using that new(3) by blast
    then show ?thesis by (simp add: s' admit_other)
  qed
  ultimately show ?thesis by (auto simp: s')
qed

lemma sel_hits:
  assumes "sel_ok s" "rset \<subseteq> allset s"
  shows "card {i \<in> set [0..<nat (maxi s + 1)]. 0 \<le> client s ! i \<and> client s ! i \<in> rset} = card (rset - {listenfd s})"
proof (rule bij_betw_same_card [of "\<lambda>i. client s ! i"], rule bij_betw_imageI)
  let ?I = "{i \<in> set [0..<nat (maxi s + 1)]. 0 \<le> client s ! i \<and> client s ! i \<in> rset}"
  have len: "length (client s) = FD_SETSIZE" and tab: "table_ok (client s)" using assms(1) by (auto simp: sel_ok_def)
  have lt: "i < length (client s)" if "i \<in> ?I" for i using that assms(1) by (auto simp: sel_ok_def)
  show "inj_on (\<lambda>i. client s ! i) ?I"
  proof (rule inj_onI)
    fix i j assume "i \<in> ?I" "j \<in> ?I" "client s ! i = client s ! j"
    with table_ok_distinct [OF tab lt lt, of i j] show "i = j" by blast
  qed
  show "(\<lambda>i. client s ! i) ` ?I = rset - {listenfd s}"
  proof
    show "(\<lambda>i. client s ! i) ` ?I \<subseteq> rset - {listenfd s}"
    proof
      fix fd assume "fd \<in> (\<lambda>i. client s ! i) ` ?I"
      then obtain i where i: "i \<in> ?I" "fd = client s ! i" by blast
      then have "fd \<in> in_table (client s)" using nth_in_table [OF lt] by simp
      then show "fd \<in> rset - {listenfd s}" using i assms(1) by (auto simp: sel_ok_def)
    qed
    show "rset - {listenfd s} \<subseteq> (\<lambda>i. client s ! i) ` ?I"
    proof
      fix fd assume fd: "fd \<in> rset - {listenfd s}"
      then have "fd \<in> in_table (client s)" using assms by (auto simp: sel_ok_def)
      then obtain i where i: "i < length (client s)" "client s ! i = fd" "0 \<le> fd"
        using in_table_nth by (auto simp: in_table_def)
      then have "int i \<le> maxi s" using assms(1) len by (force simp: sel_ok_def)
      then show "fd \<in> (\<lambda>i. client s ! i) ` ?I" using i fd by (intro image_eqI [of _ _ i]) auto
    qed
  qed
qed

text \<open>The loop over the clients serves each one that is in \<open>rset\<close>.\<close>

lemma sel_clients_serve:
  assumes "sel_ok s" "rset \<subseteq> allset s" "rset - {listenfd s} \<noteq> {}" "finite rset"
    "\<And>fd. fd \<in> rset - {listenfd s} \<Longrightarrow> readable (snet s) fd"
  shows "\<exists>s'. sel_clients rset (int (card (rset - {listenfd s}))) [0..<nat (maxi s + 1)] s = Next s'
    \<and> sel_ok s' \<and> listenfd s' = listenfd s
    \<and> (\<forall>i<FD_SETSIZE. if 0 \<le> client s ! i \<and> client s ! i \<in> rset then sel_served (sel_view i s) (sel_view i s')
         else sel_view i s' = sel_view i s)"
proof -
  have m: "maxi s < int FD_SETSIZE" and high: "\<And>i. i < FD_SETSIZE \<Longrightarrow> maxi s < int i \<Longrightarrow> client s ! i < 0"
    and lst: "listenfd s \<notin> in_table (client s)" and len: "length (client s) = FD_SETSIZE"
    using assms(1) by (auto simp: sel_ok_def)
  let ?hit = "\<lambda>v. 0 \<le> fst v \<and> fst v \<in> rset"
  have hit: "?hit (sel_view i s) \<longleftrightarrow> 0 \<le> client s ! i \<and> client s ! i \<in> rset" for i by (simp add: sel_view_def Let_def)
  have k: "int (card (rset - {listenfd s})) = int (card {i \<in> set [0..<nat (maxi s + 1)]. ?hit (sel_view i s)})"
    unfolding hit sel_hits [OF assms(1,2)] ..
  have pos: "0 < int (card (rset - {listenfd s}))" using assms(3,4) by (simp add: card_gt_0_iff)
  have rd: "stream (fst (snd (sel_view i s))) \<noteq> ([], Dry)" if "i \<in> set [0..<nat (maxi s + 1)]" "?hit (sel_view i s)" for i
  proof -
    have "client s ! i \<in> in_table (client s)" using that m len by (intro nth_in_table) (auto simp: hit)
    then have "client s ! i \<in> rset - {listenfd s}" using that lst by (auto simp: hit)
    from assms(5) [OF this] show ?thesis by (simp add: readable_def sel_view_def Let_def)
  qed
  have range: "set [0..<nat (maxi s + 1)] \<subseteq> {..<FD_SETSIZE}" using m by auto
  have no_exit: "sel_clients rset n is t \<noteq> Exits" for n "is" t
    by (induction rset n "is" t rule: sel_clients.induct)
      (auto simp: sel_client_def Let_def split: outcome.splits option.splits answer.splits prod.splits if_splits)
  obtain s' where s': "sel_clients rset (int (card (rset - {listenfd s}))) [0..<nat (maxi s + 1)] s = Next s'"
      "sel_ok s'" "listenfd s' = listenfd s"
      and each: "\<And>i. i < FD_SETSIZE \<Longrightarrow> if i \<in> set [0..<nat (maxi s + 1)] \<and> ?hit (sel_view i s)
          then sel_served (sel_view i s) (sel_view i s') else sel_view i s' = sel_view i s"
    using sel_scan.scan [of s "listenfd s" "maxi s" "[0..<nat (maxi s + 1)]" _ rset "[]", OF _ _ range k pos rd] assms(1) no_exit
    by auto
  have "if 0 \<le> client s ! i \<and> client s ! i \<in> rset then sel_served (sel_view i s) (sel_view i s')
      else sel_view i s' = sel_view i s" if "i < FD_SETSIZE" for i
  proof (cases "maxi s < int i")
    case True
    then show ?thesis using each [OF that] high [OF that] by (auto simp: hit)
  next
    case False
    then have "i \<in> set [0..<nat (maxi s + 1)]" by auto
    then show ?thesis using each [OF that] by (simp only: hit) auto
  qed
  then show ?thesis using s' by blast
qed

text \<open>What a round does to every connection there is.\<close>

definition sel_round_effect :: "sel \<Rightarrow> sel \<Rightarrow> bool" where
  "sel_round_effect s s' \<longleftrightarrow>
     (\<forall>i<FD_SETSIZE. 0 \<le> client s ! i \<longrightarrow>
        (if readable (snet s) (client s ! i) then sel_served (sel_view i s) (sel_view i s') else sel_view i s' = sel_view i s))"

lemma sel_ready_conn:
  assumes "sel_ok s" "i < FD_SETSIZE" "0 \<le> client s ! i"
  shows "client s ! i \<in> sel_ready s \<longleftrightarrow> readable (snet s) (client s ! i)"
proof -
  have "client s ! i \<in> in_table (client s)" using assms by (intro nth_in_table) (auto simp: sel_ok_def)
  then show ?thesis using assms(1) by (auto simp: sel_ready_def sel_ok_def)
qed

lemma sel_ready_props:
  assumes "sel_ok s"
  shows "sel_ready s \<subseteq> allset s" "finite (sel_ready s)"
    "\<And>fd. fd \<in> sel_ready s - {listenfd s} \<Longrightarrow> readable (snet s) fd"
    "listenfd s \<in> sel_ready s \<longleftrightarrow> acceptable (snet s)"
proof -
  have "allset s = insert (listenfd s) (in_table (client s))" using assms by (simp add: sel_ok_def)
  then have "finite (allset s)" by (simp add: in_table_def)
  moreover show sub: "sel_ready s \<subseteq> allset s" by (auto simp: sel_ready_def)
  ultimately show "finite (sel_ready s)" by (rule rev_finite_subset)
  show "readable (snet s) fd" if "fd \<in> sel_ready s - {listenfd s}" for fd using that by (auto simp: sel_ready_def)
  show "listenfd s \<in> sel_ready s \<longleftrightarrow> acceptable (snet s)" using assms by (auto simp: sel_ready_def sel_ok_def)
qed

lemma sel_round_idle:
  assumes ok: "sel_ok s" and idle: "\<not> acceptable (snet s)" "sel_ready s \<noteq> {}"
  shows "\<exists>s'. sel_round False s = Next s' \<and> sel_ok s' \<and> sel_round_effect s s'"
proof -
  note rp = sel_ready_props [OF ok]
  have l: "listenfd s \<notin> sel_ready s" using rp(4) idle(1) by simp
  then have eq: "sel_ready s - {listenfd s} = sel_ready s" by blast
  obtain s' where "sel_clients (sel_ready s) (int (card (sel_ready s))) [0..<nat (maxi s + 1)] s = Next s'" "sel_ok s'"
      and each: "\<forall>i<FD_SETSIZE. if 0 \<le> client s ! i \<and> client s ! i \<in> sel_ready s
        then sel_served (sel_view i s) (sel_view i s') else sel_view i s' = sel_view i s"
    using sel_clients_serve [OF ok rp(1) _ rp(2) rp(3)] idle(2) unfolding eq by blast
  moreover have "sel_round_effect s s'"
    unfolding sel_round_effect_def using each sel_ready_conn [OF ok] by (simp split: if_splits)
  ultimately show ?thesis using l idle by (auto simp: sel_round_def Let_def)
qed

lemma sel_round_accepting:
  assumes ok: "sel_ok s" and acc: "acceptable (snet s)" and round: "sel_round False s = Next s'"
  shows "sel_ok s' \<and> sel_round_effect s s'"
proof -
  note rp = sel_ready_props [OF ok]
  have l: "listenfd s \<in> sel_ready s" using rp(4) acc by simp
  have card: "int (card (sel_ready s)) - 1 = int (card (sel_ready s - {listenfd s}))"
    using card_Suc_Diff1 [OF rp(2) l] by linarith
  obtain t where t: "sel_accept s = Next t"
      "(if int (card (sel_ready s)) - 1 = 0 then Next t
        else sel_clients (sel_ready s) (int (card (sel_ready s)) - 1) [0..<nat (maxi t + 1)] t) = Next s'"
    using round l by (auto simp: sel_round_def Let_def split: outcome.splits if_splits)
  note ta = sel_accept_ok [OF ok t(1)]
  show ?thesis
  proof (cases "sel_ready s - {listenfd s} = {}")
    case True
    have "s' = t" using t(2) card True by simp
    moreover have "\<not> readable (snet s) (client s ! i)" if "i < FD_SETSIZE" "0 \<le> client s ! i" for i
    proof
      assume "readable (snet s) (client s ! i)"
      then have "client s ! i = listenfd s" using sel_ready_conn [OF ok that] True by blast
      then show False using nth_in_table [of i "client s"] that ok by (auto simp: sel_ok_def)
    qed
    ultimately show ?thesis using ta by (auto simp: sel_round_effect_def)
  next
    case False
    have lt: "listenfd t = listenfd s" using ta by blast
    have sub: "sel_ready s \<subseteq> allset t" using rp(1) ta by blast
    have rd: "readable (snet t) fd" if "fd \<in> sel_ready s - {listenfd t}" for fd
    proof -
      have "fd \<in> allset s" "readable (snet s) fd" using that rp(1,3) lt by auto
      then show ?thesis using ta by (simp add: readable_def)
    qed
    obtain u where u: "sel_clients (sel_ready s) (int (card (sel_ready s - {listenfd s}))) [0..<nat (maxi t + 1)] t = Next u"
        "sel_ok u" "\<forall>i<FD_SETSIZE. if 0 \<le> client t ! i \<and> client t ! i \<in> sel_ready s
          then sel_served (sel_view i t) (sel_view i u) else sel_view i u = sel_view i t"
      using sel_clients_serve [of t "sel_ready s", OF _ sub _ rp(2) rd] ta False lt by auto
    have "int (card (sel_ready s)) - 1 \<noteq> 0" using card False rp(2) by simp
    then have "s' = u" using t(2) u(1) card by simp
    moreover have "sel_round_effect s u"
      unfolding sel_round_effect_def
    proof (intro allI impI)
      fix i assume i: "i < FD_SETSIZE" "0 \<le> client s ! i"
      have v: "sel_view i t = sel_view i s" using ta i by blast
      then have "client t ! i = client s ! i" by (simp add: sel_view_def Let_def)
      then show "if readable (snet s) (client s ! i) then sel_served (sel_view i s) (sel_view i u) else sel_view i u = sel_view i s"
        using u(3) i v sel_ready_conn [OF ok i] by (auto split: if_splits)
    qed
    ultimately show ?thesis using u by simp
  qed
qed

lemma sel_round_ok:
  assumes "sel_ok s" "sel_round False s = Next s'"
  shows "sel_ok s' \<and> sel_round_effect s s'"
proof (cases "acceptable (snet s)")
  case True
  then show ?thesis using sel_round_accepting assms by blast
next
  case False
  moreover have "sel_ready s \<noteq> {}" using assms(2) by (auto simp: sel_round_def Let_def)
  ultimately show ?thesis using sel_round_idle [OF assms(1)] assms(2) by auto
qed

interpretation select: invariant_system sel_init sel_step sel_ok
proof
  fix s assume "sel_init s"
  then show "sel_ok s"
    by (auto simp: sel_init_def sel_start_def sel_ok_def table_ok_def in_table_def FD_SETSIZE_def)
next
  fix s t assume "sel_ok s" "sel_step s t"
  from this(2) show "sel_ok t"
  proof cases
    case (sel_env w)
    then show ?thesis using \<open>sel_ok s\<close> net_env_keeps [OF sel_env(2)] by (auto simp: sel_ok_def answered_def)
  next
    case sel_loop
    then show ?thesis using sel_round_ok \<open>sel_ok s\<close> by blast
  qed
qed

text \<open>
  C25. In every run of the \<open>select\<close> server whose writes are only ever interrupted: what a connected client
  has been sent is exactly what it sent, in upper case; the open descriptors are the connections in the
  table and no others; and a round serves every client that has something to read, once, and touches no
  other: the first chunk is read and returned, a closed connection leaves the table. With no client
  connecting and some client readable the round does not block.
\<close>

theorem select_server_serves:
  assumes "reach sel_init sel_step s"
  shows "(\<forall>fd\<in>in_table (client s). sent (snet s) fd = map toupper (got (snet s) fd))
    \<and> set (open_fds (snet s)) = {0, 1, 2, listenfd s} \<union> in_table (client s)
    \<and> (\<forall>s'. sel_round False s = Next s' \<longrightarrow>
         (\<forall>i<FD_SETSIZE. 0 \<le> client s ! i \<longrightarrow>
            (if readable (snet s) (client s ! i) then sel_served (sel_view i s) (sel_view i s')
             else sel_view i s' = sel_view i s)))
    \<and> (\<not> acceptable (snet s) \<and> (\<exists>fd\<in>in_table (client s). readable (snet s) fd) \<longrightarrow> (\<exists>s'. sel_round False s = Next s'))"
proof -
  have ok: "sel_ok s" using assms by (rule select.invariant)
  have "sel_ready s \<noteq> {}" if "fd \<in> in_table (client s)" "readable (snet s) fd" for fd
    using that sel_ready_conn [OF ok] ok in_table_nth [OF that(1)] by (force simp: sel_ok_def in_table_def)
  then show ?thesis
    using ok sel_round_ok [OF ok] sel_round_idle [OF ok] unfolding sel_round_effect_def
    by (auto simp: sel_ok_def answered_def)
qed

definition fresh_net :: "int \<Rightarrow> accept_answer list \<Rightarrow> net" where
  "fresh_net lfd q =
     \<lparr>listen_queue = q, incoming = (\<lambda>_. []), outgoing = (\<lambda>_. []), open_fds = [lfd, 2, 1, 0], got = (\<lambda>_. []), sent = (\<lambda>_. [])\<rparr>"

theorem select_server_serves_witness:
  "set (open_fds (snet (sel_start 3 (fresh_net 3 [])))) = {0, 1, 2, 3}"
proof -
  have "sel_init (sel_start 3 (fresh_net 3 []))"
    unfolding sel_init_def by (intro exI conjI) (auto simp: fresh_net_def writes_in_def)
  then have "reach sel_init sel_step (sel_start 3 (fresh_net 3 []))" by (rule reach.reach_init)
  from select_server_serves [OF this] show ?thesis by (auto simp: sel_start_def in_table_def FD_SETSIZE_def)
qed

text \<open>
  A comment in the source says that \<open>Accept\<close> will not block. It does when the only pending connection
  is aborted between \<open>select\<close> and \<open>accept\<close>, and then no client is served.
\<close>

lemma sel_round_can_block:
  assumes "listen_queue (snet s) = [AErr ECONNABORTED]" "listenfd s \<in> allset s" "listenfd s \<le> maxfd s"
  shows "sel_round False s = Blocks"
  using assms by (auto simp: sel_round_def sel_ready_def sel_accept_def sys_Accept_def acceptable_def Let_def)

end
