(* ===== verification/Poll_Server.thy ===== *)
theory Poll_Server
  imports Slot_Scan
begin

text \<open>
  The server built on \<open>poll\<close>, \<^verbatim>\<open>src/Linux_Net/concurrent/moreIO_concurrent/poll_conncurrent/server.c\<close>. The
  table of descriptors is at the same time the argument of \<open>poll\<close>, which writes the \<open>revents\<close> of the
  entries it is given; \<open>None\<close> is a \<open>revents\<close> nobody has written, whose use is undefined.
\<close>

definition OPEN_MAX :: nat where
  "OPEN_MAX = 1024"

definition MAXLINE :: nat where
  "MAXLINE = 80"

record pserver =
  pclient :: "int list"
  revents :: "nat \<Rightarrow> bool option"
  pmaxi :: nat
  plisten :: int
  pnet :: net

definition poll_start :: "int \<Rightarrow> net \<Rightarrow> pserver" where
  "poll_start lfd w =
     \<lparr>pclient = lfd # replicate (OPEN_MAX - 1) (- 1), revents = (\<lambda>_. None), pmaxi = 0, plisten = lfd, pnet = w\<rparr>"

text \<open>\<open>poll(client, maxi + 1, -1)\<close>; negative descriptors are ignored and get an empty \<open>revents\<close>.\<close>

definition poll_ready :: "pserver \<Rightarrow> nat \<Rightarrow> bool" where
  "poll_ready s i \<longleftrightarrow>
     0 \<le> pclient s ! i \<and> (if pclient s ! i = plisten s then acceptable (pnet s) else readable (pnet s) (pclient s ! i))"

definition poll_call :: "pserver \<Rightarrow> int \<times> pserver" where
  "poll_call s =
     (int (length (filter (poll_ready s) [0..<pmaxi s + 1])),
      s\<lparr>revents := (\<lambda>i. if i \<le> pmaxi s then Some (poll_ready s i) else revents s i)\<rparr>)"

definition poll_accept :: "pserver \<Rightarrow> pserver outcome" where
  "poll_accept s =
     (case sys_Accept (pnet s) of
        None \<Rightarrow> Blocks
      | Some (Inl e, w) \<Rightarrow> Exits
      | Some (Inr connfd, w) \<Rightarrow>
          (let i = Suc (first_slot (tl (pclient s))) in
           if i = OPEN_MAX then Exits
           else Next (s\<lparr>pclient := (pclient s)[i := connfd], pnet := w, pmaxi := (if i > pmaxi s then i else pmaxi s)\<rparr>)))"

definition poll_client :: "nat \<Rightarrow> pserver \<Rightarrow> pserver outcome" where
  "poll_client i s =
     (let sockfd = pclient s ! i in
      case sys_Read MAXLINE sockfd (pnet s) of
        None \<Rightarrow> Blocks
      | Some (Err e, w) \<Rightarrow>
          if e = ECONNRESET then Next (s\<lparr>pnet := sys_Close sockfd w, pclient := (pclient s)[i := - 1]\<rparr>) else Exits
      | Some (Got str, w) \<Rightarrow>
          if str = [] then Next (s\<lparr>pnet := sys_Close sockfd w, pclient := (pclient s)[i := - 1]\<rparr>)
          else Next (s\<lparr>pnet := sys_Writen sockfd (map toupper str) w\<rparr>))"

fun poll_clients :: "int \<Rightarrow> nat list \<Rightarrow> pserver \<Rightarrow> pserver outcome" where
  "poll_clients nready [] s = Next s"
| "poll_clients nready (i # is) s =
     (if pclient s ! i < 0 then poll_clients nready is s
      else (case revents s i of
              None \<Rightarrow> Undefined
            | Some False \<Rightarrow> poll_clients nready is s
            | Some True \<Rightarrow>
                (case poll_client i s of
                   Next s' \<Rightarrow> if nready - 1 \<le> 0 then Next s' else poll_clients (nready - 1) is s'
                 | r \<Rightarrow> r)))"

text \<open>
  One round. The result of \<open>poll\<close> is not checked: when the call fails, \<open>nready\<close> is \<open>-1\<close> and the
  \<open>revents\<close> are the old ones.
\<close>

definition poll_round :: "bool \<Rightarrow> pserver \<Rightarrow> pserver outcome" where
  "poll_round err s =
     (case if err then (- 1, s) else poll_call s of
        (nready, s) \<Rightarrow>
          if nready = 0 then Blocks
          else (case revents s 0 of
                  None \<Rightarrow> Undefined
                | Some True \<Rightarrow>
                    (case poll_accept s of
                       Next s' \<Rightarrow> if nready - 1 \<le> 0 then Next s' else poll_clients (nready - 1) [1..<pmaxi s' + 1] s'
                     | r \<Rightarrow> r)
                | Some False \<Rightarrow> poll_clients nready [1..<pmaxi s + 1] s))"

inductive poll_step :: "pserver \<Rightarrow> pserver \<Rightarrow> bool" where
  poll_env: "net_env taking (pnet s) w \<Longrightarrow> poll_step s (s\<lparr>pnet := w\<rparr>)"
| poll_loop: "poll_round False s = Next s' \<Longrightarrow> poll_step s s'"

definition poll_init :: "pserver \<Rightarrow> bool" where
  "poll_init s \<longleftrightarrow>
     (\<exists>lfd w. s = poll_start lfd w \<and> 3 \<le> lfd \<and> open_fds w = [lfd, 2, 1, 0] \<and> writes_in taking w)"

section \<open>The invariant\<close>

definition poll_ok :: "pserver \<Rightarrow> bool" where
  "poll_ok s \<longleftrightarrow>
     length (pclient s) = OPEN_MAX \<and> table_ok (pclient s) \<and> pclient s ! 0 = plisten s \<and> 3 \<le> plisten s
     \<and> in_table (pclient s) \<inter> {0, 1, 2} = {} \<and> (\<forall>i<OPEN_MAX. pmaxi s < i \<longrightarrow> pclient s ! i < 0) \<and> pmaxi s < OPEN_MAX
     \<and> set (open_fds (pnet s)) = {0, 1, 2} \<union> in_table (pclient s)
     \<and> writes_in taking (pnet s) \<and> (\<forall>fd\<in>in_table (pclient s) - {plisten s}. answered toupper (pnet s) fd)"

definition poll_view :: "nat \<Rightarrow> pserver \<Rightarrow> int \<times> answer list \<times> string \<times> string" where
  "poll_view i s = (let fd = pclient s ! i; w = pnet s in (fd, incoming w fd, got w fd, sent w fd))"

fun poll_served :: "int \<times> answer list \<times> string \<times> string \<Rightarrow> int \<times> answer list \<times> string \<times> string \<Rightarrow> bool" where
  "poll_served (fd, inc, g, se) v' =
     (case Read MAXLINE inc of
        None \<Rightarrow> False
      | Some (Err e, rest) \<Rightarrow> e = ECONNRESET \<and> fst v' = - 1
      | Some (Got str, rest) \<Rightarrow> if str = [] then fst v' = - 1 else v' = (fd, rest, g @ str, se @ map toupper str))"

lemma MAXLINE_pos: "0 < MAXLINE"
  by (simp add: MAXLINE_def)

text \<open>Leaving the table.\<close>

lemma poll_ok_close:
  assumes ok: "poll_ok s" and i: "0 < i" "i < OPEN_MAX" "0 \<le> pclient s ! i"
    and w: "open_fds w = open_fds (pnet s)" "got w = (got (pnet s))(pclient s ! i := g)" "sent w = sent (pnet s)"
      "outgoing w = outgoing (pnet s)"
  shows "poll_ok (s\<lparr>pnet := sys_Close (pclient s ! i) w, pclient := (pclient s)[i := - 1]\<rparr>)"
proof -
  have len: "i < length (pclient s)" and tab: "table_ok (pclient s)" using ok i by (auto simp: poll_ok_def)
  have mem: "pclient s ! i \<in> in_table (pclient s)" by (rule nth_in_table [OF len i(3)])
  show ?thesis
    using ok table_remove [OF tab len i(3)] mem i len w
    by (auto simp: poll_ok_def answered_def writes_in_def nth_list_update)
qed

lemma poll_client_ok:
  assumes ok: "poll_ok s" and i: "0 < i" "i < OPEN_MAX" "0 \<le> pclient s ! i" and rd: "readable (pnet s) (pclient s ! i)"
  shows "poll_client i s = Exits \<or> (\<exists>s'. poll_client i s = Next s' \<and> poll_ok s' \<and> plisten s' = plisten s
    \<and> pmaxi s' = pmaxi s \<and> revents s' = revents s
    \<and> poll_served (poll_view i s) (poll_view i s') \<and> (\<forall>j<OPEN_MAX. j \<noteq> i \<longrightarrow> poll_view j s' = poll_view j s))"
proof -
  let ?fd = "pclient s ! i" and ?w = "pnet s"
  have len: "i < length (pclient s)" and tab: "table_ok (pclient s)" using ok i by (auto simp: poll_ok_def)
  have other: "pclient s ! j \<noteq> ?fd" if "j < OPEN_MAX" "j \<noteq> i" for j
    using table_ok_distinct [OF tab len, of j] that ok i(3) by (auto simp: poll_ok_def)
  obtain a rest where rd': "Read MAXLINE (incoming ?w ?fd) = Some (a, rest)"
    using rd readable_Read [OF MAXLINE_pos, of ?w ?fd] by (auto simp: sys_Read_def split: option.splits)
  then have call: "sys_Read MAXLINE ?fd ?w = Some (a, receive ?fd a rest ?w)" by (simp add: sys_Read_def)
  let ?closed = "s\<lparr>pnet := sys_Close ?fd (receive ?fd a rest ?w), pclient := (pclient s)[i := - 1]\<rparr>"
  have closing: ?thesis if "poll_client i s = Next ?closed" "poll_served (poll_view i s) (poll_view i ?closed)"
      "got (receive ?fd a rest ?w) = (got ?w)(?fd := g)" for g
  proof -
    have "poll_ok ?closed" by (rule poll_ok_close [OF ok i, of _ g]) (simp_all add: that(3))
    moreover have "\<forall>j<OPEN_MAX. j \<noteq> i \<longrightarrow> poll_view j ?closed = poll_view j s"
      using that(3) other len by (auto simp: poll_view_def Let_def)
    ultimately show ?thesis using that(1,2) by (intro disjI2 exI [of _ ?closed]) simp
  qed
  show ?thesis
  proof (cases a)
    case (Err e)
    show ?thesis
    proof (cases "e = ECONNRESET")
      case True
      then show ?thesis
        using closing [of "got ?w ?fd"] call rd' Err len by (simp add: poll_client_def Let_def poll_view_def)
    next
      case False
      then show ?thesis using call Err by (simp add: poll_client_def)
    qed
  next
    case str: (Got str)
    show ?thesis
    proof (cases "str = []")
      case True
      then show ?thesis
        using closing [of "got ?w ?fd"] call rd' str len by (simp add: poll_client_def Let_def poll_view_def)
    next
      case False
      let ?r = "receive ?fd a rest ?w"
      have "writes_in taking ?r" using ok by (simp add: poll_ok_def writes_in_def)
      then obtain ws where ws: "sys_Writen ?fd (map toupper str) ?r = transmit ?fd (map toupper str) ws ?r"
          "writes_in taking (sys_Writen ?fd (map toupper str) ?r)"
        using sys_Writen_echo by blast
      then have "poll_ok (s\<lparr>pnet := sys_Writen ?fd (map toupper str) ?r\<rparr>)"
        using ok str by (auto simp: poll_ok_def answered_def)
      then show ?thesis
        using call rd' str False other ws(1) by (auto simp: poll_client_def poll_view_def Let_def)
    qed
  qed
qed

text \<open>
  The scan runs over the entries that \<open>poll\<close> was given: \<open>n\<close> of them, with known \<open>revents\<close>. Slot 0 is the
  listening socket and is not served.
\<close>

definition poll_scan_ok :: "(nat \<Rightarrow> bool option) \<Rightarrow> nat \<Rightarrow> nat \<Rightarrow> pserver \<Rightarrow> bool" where
  "poll_scan_ok rv n m s \<longleftrightarrow> poll_ok s \<and> revents s = rv \<and> pmaxi s = m \<and> n < OPEN_MAX \<and> (\<forall>i<n. rv (Suc i) \<noteq> None)"

interpretation poll_scan: slot_scan "\<lambda>k js. poll_clients k (map Suc js)" "\<lambda>i. poll_client (Suc i)"
  "\<lambda>i s. (revents s (Suc i), poll_view (Suc i) s)"
  "\<lambda>(rv, v). 0 \<le> fst v \<and> rv = Some True" "\<lambda>(rv, v). stream (fst (snd v)) \<noteq> ([], Dry)" "\<lambda>(_, v) (_, v'). poll_served v v'"
  "poll_scan_ok rv n m" n for rv n m
proof unfold_locales
  fix s i
  assume s: "poll_scan_ok rv n m s" "i < n"
    "case (revents s (Suc i), poll_view (Suc i) s) of (rv, v) \<Rightarrow> 0 \<le> fst v \<and> rv = Some True"
    "case (revents s (Suc i), poll_view (Suc i) s) of (rv, v) \<Rightarrow> stream (fst (snd v)) \<noteq> ([], Dry)"
  then have "readable (pnet s) (pclient s ! Suc i)" "0 \<le> pclient s ! Suc i" "Suc i < OPEN_MAX" "poll_ok s"
    by (auto simp: poll_view_def Let_def readable_def poll_scan_ok_def)
  with poll_client_ok [of s "Suc i"] s(1,2)
  show "poll_client (Suc i) s = Exits \<or> (\<exists>s'. poll_client (Suc i) s = Next s' \<and> poll_scan_ok rv n m s'
      \<and> (case (revents s (Suc i), poll_view (Suc i) s) of (uu, v) \<Rightarrow> \<lambda>(_, v'). poll_served v v') (revents s' (Suc i), poll_view (Suc i) s')
      \<and> (\<forall>j<n. j \<noteq> i \<longrightarrow> (revents s' (Suc j), poll_view (Suc j) s') = (revents s (Suc j), poll_view (Suc j) s)))"
    by (fastforce simp: poll_scan_ok_def)
qed (auto simp: poll_view_def Let_def poll_scan_ok_def split: option.split bool.split)

lemma poll_accept_ok:
  assumes ok: "poll_ok s" and acc: "poll_accept s = Next t"
  shows "poll_ok t \<and> revents t = revents s \<and> plisten t = plisten s \<and> pmaxi s \<le> pmaxi t
    \<and> (\<forall>i<OPEN_MAX. 0 \<le> pclient s ! i \<longrightarrow> poll_view i t = poll_view i s)"
proof -
  obtain fd w where call: "sys_Accept (pnet s) = Some (Inr fd, w)"
    using acc by (auto simp: poll_accept_def split: option.splits sum.splits prod.splits)
  obtain q where fd_eq: "fd = lowest_free (open_fds (pnet s))" and w: "w = snd (admit ((pnet s)\<lparr>listen_queue := q\<rparr>))"
    using sys_Accept_conn [OF call] by blast
  let ?w = "(pnet s)\<lparr>listen_queue := q\<rparr>" and ?i = "Suc (first_slot (tl (pclient s)))" and ?fd = "lowest_free (open_fds (pnet s))"
  have len: "length (pclient s) = OPEN_MAX" and tab: "table_ok (pclient s)" using ok by (auto simp: poll_ok_def)
  have ne: "?i \<noteq> OPEN_MAX"
    and t: "t = s\<lparr>pclient := (pclient s)[?i := ?fd], pnet := snd (admit ?w), pmaxi := (if ?i > pmaxi s then ?i else pmaxi s)\<rparr>"
    using acc call fd_eq w by (simp_all add: poll_accept_def Let_def split: if_splits)
  have i: "?i < OPEN_MAX" using ne first_slot_le [of "tl (pclient s)"] len by (simp add: OPEN_MAX_def)
  then have free: "pclient s ! ?i < 0"
    using first_slot_free [of "tl (pclient s)"] len by (cases "pclient s") auto
  have fresh: "?fd \<notin> set (open_fds (pnet s))" "0 \<le> ?fd" by (rule lowest_free_fresh)+
  then have new: "?fd \<notin> in_table (pclient s)" "?fd \<notin> {0, 1, 2}" using ok by (auto simp: poll_ok_def)
  note ins = table_insert [OF tab i [folded len] free fresh(2) new(1)]
  have "poll_ok t"
    using ok ins new fresh(2) i len by (auto simp: poll_ok_def t answered_def writes_in_def nth_list_update simp del: if_split)
  moreover have "poll_view j t = poll_view j s" if "j < OPEN_MAX" "0 \<le> pclient s ! j" for j
  proof -
    have "j \<noteq> ?i" "pclient s ! j \<noteq> ?fd" using that free new(1) nth_in_table [of j "pclient s"] len by auto
    then show ?thesis by (simp add: poll_view_def t Let_def admit_other)
  qed
  ultimately show ?thesis by (auto simp: t)
qed

lemma count_ready: "length (filter P [0..<m + 1]) = of_bool (P 0) + card {i \<in> set [0..<m]. P (Suc i)}"
proof -
  have "[0..<m + 1] = 0 # map Suc [0..<m]" 
    using upt_conv_Cons [of 0 "m + 1"] by (simp add: map_Suc_upt del: upt_Suc)
  then have "length (filter P [0..<m + 1]) = of_bool (P 0) + length (filter (P \<circ> Suc) [0..<m])"
    by (simp only: filter.simps filter_map length_map) simp
  also have "length (filter (P \<circ> Suc) [0..<m]) = card {i \<in> set [0..<m]. P (Suc i)}"
    by (simp add: distinct_length_filter Int_def conj_commute)
  finally show ?thesis .
qed

text \<open>The effect of a round on the slots, as with \<open>select\<close>.\<close>

definition poll_round_effect :: "pserver \<Rightarrow> pserver \<Rightarrow> bool" where
  "poll_round_effect s s' \<longleftrightarrow>
     (\<forall>i. 0 < i \<and> i < OPEN_MAX \<and> 0 \<le> pclient s ! i \<longrightarrow>
        (if readable (pnet s) (pclient s ! i) then poll_served (poll_view i s) (poll_view i s') else poll_view i s' = poll_view i s))"

lemma poll_ready_conn:
  assumes "poll_ok s" "0 < i" "i < OPEN_MAX" "0 \<le> pclient s ! i"
  shows "poll_ready s i \<longleftrightarrow> readable (pnet s) (pclient s ! i)"
proof -
  have "table_ok (pclient s)" "0 < length (pclient s)" "i < length (pclient s)" "pclient s ! 0 = plisten s"
    using assms by (auto simp: poll_ok_def)
  then have "pclient s ! i \<noteq> plisten s" using table_ok_distinct [of "pclient s" i 0] assms(2,4) by auto
  then show ?thesis using assms(4) by (simp add: poll_ready_def)
qed

text \<open>
  The scan after \<open>poll\<close>, from a state \<open>t\<close> in which connections may have been added: the slots that were
  polled are served as they should, and the loop never gets to a slot that was not polled.
\<close>

lemma poll_scan_serves:
  assumes ok: "poll_ok s" and t: "poll_ok t" "revents t = revents (snd (poll_call s))" "pmaxi s \<le> pmaxi t"
    and same: "\<And>i. i < OPEN_MAX \<Longrightarrow> 0 \<le> pclient s ! i \<Longrightarrow> poll_view i t = poll_view i s"
    and k: "k = int (card {i \<in> set [0..<pmaxi s]. poll_ready s (Suc i)})" "0 < k"
  shows "poll_clients k [1..<pmaxi t + 1] t = Exits
    \<or> (\<exists>u. poll_clients k [1..<pmaxi t + 1] t = Next u \<and> poll_ok u \<and> poll_round_effect s u)"
proof -
  let ?n = "pmaxi s"
  let ?view = "\<lambda>i s. (revents s (Suc i), poll_view (Suc i) s)" and ?hit = "\<lambda>(rv, v). 0 \<le> fst v \<and> rv = Some True"
  have n: "?n < OPEN_MAX" and len: "length (pclient s) = OPEN_MAX" using ok by (auto simp: poll_ok_def)
  have rv: "revents t (Suc i) = Some (poll_ready s (Suc i))" if "i < ?n" for i
    using that t(2) by (simp add: poll_call_def)
  have hit: "?hit (?view i t) \<longleftrightarrow> poll_ready s (Suc i)" if "i < ?n" for i
  proof -
    have "0 \<le> fst (poll_view (Suc i) t)" if "poll_ready s (Suc i)"
    proof -
      have "0 \<le> pclient s ! Suc i" using that by (simp add: poll_ready_def)
      then show ?thesis using same [of "Suc i"] \<open>i < ?n\<close> n by (simp add: poll_view_def Let_def)
    qed
    then show ?thesis using rv [OF that] by auto
  qed
  have scan: "poll_scan_ok (revents t) ?n (pmaxi t) t" using t n rv by (auto simp: poll_scan_ok_def)
  have range: "set [0..<?n] \<subseteq> {..<?n}" by auto
  have "{i \<in> set [0..<?n]. poll_ready s (Suc i)} = {i \<in> set [0..<?n]. ?hit (?view i t)}" using hit by auto
  then have k': "k = int (card {i \<in> set [0..<?n]. ?hit (?view i t)})" using k(1) by simp
  have rd: "(case ?view i t of (rv, v) \<Rightarrow> stream (fst (snd v)) \<noteq> ([], Dry))" if "i \<in> set [0..<?n]" "?hit (?view i t)" for i
  proof -
    have i: "i < ?n" "poll_ready s (Suc i)" using that hit by auto
    then have fd: "0 \<le> pclient s ! Suc i" by (simp add: poll_ready_def)
    have "readable (pnet s) (pclient s ! Suc i)" using poll_ready_conn [OF ok _ _ fd] i n by simp
    moreover have "poll_view (Suc i) t = poll_view (Suc i) s" using same [OF _ fd] i n by simp
    ultimately show ?thesis by (auto simp: poll_view_def Let_def readable_def)
  qed
  have list: "[1..<pmaxi t + 1] = map Suc ([0..<?n] @ [?n..<pmaxi t])"
  proof -
    have "[0..<?n] @ [?n..<pmaxi t] = [0..<pmaxi t]" using upt_add_eq_append [of 0 ?n "pmaxi t - ?n"] t(3) by simp
    then show ?thesis by (simp add: map_Suc_upt del: upt_Suc map_append)
  qed
  from poll_scan.scan [OF scan distinct_upt range k' k(2) rd, of "[?n..<pmaxi t]"] show ?thesis
  proof
    assume "poll_clients k (map Suc ([0..<?n] @ [?n..<pmaxi t])) t = Exits"
    then show ?thesis unfolding list ..
  next
    assume "\<exists>s'. poll_clients k (map Suc ([0..<?n] @ [?n..<pmaxi t])) t = Next s' \<and> poll_scan_ok (revents t) ?n (pmaxi t) s'
      \<and> (\<forall>i<?n. if i \<in> set [0..<?n] \<and> ?hit (?view i t)
           then (case ?view i t of (uu, v) \<Rightarrow> \<lambda>(_, v'). poll_served v v') (?view i s') else ?view i s' = ?view i t)"
    then obtain u where u: "poll_clients k (map Suc ([0..<?n] @ [?n..<pmaxi t])) t = Next u" "poll_ok u"
        and each: "\<And>i. i < ?n \<Longrightarrow> if poll_ready s (Suc i) then poll_served (poll_view (Suc i) t) (poll_view (Suc i) u)
          else poll_view (Suc i) u = poll_view (Suc i) t"
      using hit by (force simp: poll_scan_ok_def)
    have "poll_round_effect s u"
      unfolding poll_round_effect_def
    proof (intro allI impI, elim conjE)
      fix i assume i: "0 < i" "i < OPEN_MAX" "0 \<le> pclient s ! i"
      have "i \<le> ?n" using ok i by (force simp: poll_ok_def)
      with i(1) obtain j where j: "i = Suc j" "j < ?n" by (cases i) auto
      then show "if readable (pnet s) (pclient s ! i) then poll_served (poll_view i s) (poll_view i u)
          else poll_view i u = poll_view i s"
        using each [OF j(2)] poll_ready_conn [OF ok i] same [OF i(2,3)]
        by (cases "readable (pnet s) (pclient s ! i)") (simp_all del: poll_served.simps)
    qed
    then show ?thesis using u unfolding list by blast
  qed
qed

lemma poll_call_same:
  assumes "poll_ok s"
  shows "poll_ok (snd (poll_call s))" "poll_view i (snd (poll_call s)) = poll_view i s" "pmaxi (snd (poll_call s)) = pmaxi s"
    "plisten (snd (poll_call s)) = plisten s"
  using assms by (simp_all add: poll_call_def poll_ok_def poll_view_def)

lemma poll_listen_ready:
  assumes "poll_ok s"
  shows "poll_ready s 0 \<longleftrightarrow> acceptable (pnet s)" "revents (snd (poll_call s)) 0 = Some (acceptable (pnet s))"
    "fst (poll_call s) = of_bool (acceptable (pnet s)) + int (card {i \<in> set [0..<pmaxi s]. poll_ready s (Suc i)})"
proof -
  show r: "poll_ready s 0 \<longleftrightarrow> acceptable (pnet s)" using assms by (simp add: poll_ready_def poll_ok_def)
  then show "revents (snd (poll_call s)) 0 = Some (acceptable (pnet s))" by (simp add: poll_call_def)
  show "fst (poll_call s) = of_bool (acceptable (pnet s)) + int (card {i \<in> set [0..<pmaxi s]. poll_ready s (Suc i)})"
    using count_ready [of "poll_ready s" "pmaxi s"] r by (simp add: poll_call_def)
qed

lemma poll_ready_none:
  assumes ok: "poll_ok s" and none: "card {i \<in> set [0..<pmaxi s]. poll_ready s (Suc i)} = 0"
  shows "0 < i \<Longrightarrow> i < OPEN_MAX \<Longrightarrow> 0 \<le> pclient s ! i \<Longrightarrow> \<not> readable (pnet s) (pclient s ! i)"
proof
  assume i: "0 < i" "i < OPEN_MAX" "0 \<le> pclient s ! i" and "readable (pnet s) (pclient s ! i)"
  then have "poll_ready s (Suc (i - 1))" using poll_ready_conn [OF ok i] by simp
  moreover have "i \<le> pmaxi s" using ok i by (force simp: poll_ok_def)
  ultimately have "i - 1 \<in> {i \<in> set [0..<pmaxi s]. poll_ready s (Suc i)}" using i(1) by auto
  moreover have "{i \<in> set [0..<pmaxi s]. poll_ready s (Suc i)} = {}" using none by (subst (asm) card_eq_0_iff) auto
  ultimately show False by blast
qed

text \<open>One round, whatever is ready; in particular no indeterminate \<open>revents\<close> is ever used.\<close>

lemma poll_round_ok:
  assumes ok: "poll_ok s"
  shows "poll_round False s \<noteq> Undefined"
    and "poll_round False s = Next s' \<Longrightarrow> poll_ok s' \<and> poll_round_effect s s'"
proof -
  let ?s = "snd (poll_call s)"
  define k where k_def: "k = int (card {i \<in> set [0..<pmaxi s]. poll_ready s (Suc i)})"
  note same = poll_call_same [OF ok] and lr = poll_listen_ready [OF ok, folded k_def]
  have round: "poll_round False s =
      (if fst (poll_call s) = 0 then Blocks
       else if acceptable (pnet s)
       then (case poll_accept ?s of
               Next t \<Rightarrow> if k \<le> 0 then Next t else poll_clients k [1..<pmaxi t + 1] t
             | r \<Rightarrow> r)
       else poll_clients k [1..<pmaxi ?s + 1] ?s)"
    using lr(2,3) by (simp add: poll_round_def case_prod_beta split: outcome.split)
  have goal: "poll_round False s \<noteq> Undefined \<and> (poll_round False s = Next s' \<longrightarrow> poll_ok s' \<and> poll_round_effect s s')"
  proof (cases "acceptable (pnet s)")
    case acc: True
    show ?thesis
    proof (cases "poll_accept ?s")
      case (Next t)
      note ta = poll_accept_ok [OF same(1) Next]
      have views: "poll_view i t = poll_view i s" if "i < OPEN_MAX" "0 \<le> pclient s ! i" for i
        using ta that same(2) by (simp add: poll_call_def)
      show ?thesis
      proof (cases "k \<le> 0")
        case True
        then have "poll_round_effect s t" unfolding poll_round_effect_def using poll_ready_none [OF ok] views k_def by auto
        then show ?thesis using round acc Next ta True by auto
      next
        case False
        then show ?thesis
          using poll_scan_serves [of s t k, OF ok _ _ _ views k_def] ta same(3) round acc Next by auto
      qed
    next
      case Undefined
      then show ?thesis by (auto simp: poll_accept_def Let_def split: option.splits prod.splits sum.splits if_splits)
    qed (use round acc in auto)
  next
    case False
    moreover have "0 \<le> k" by (simp add: k_def)
    ultimately show ?thesis using poll_scan_serves [of s ?s k, OF ok same(1) refl _ same(2) k_def] same(3) round lr(3) by auto
  qed
  then show "poll_round False s \<noteq> Undefined" "poll_round False s = Next s' \<Longrightarrow> poll_ok s' \<and> poll_round_effect s s'"
    by auto
qed

interpretation poll: invariant_system poll_init poll_step poll_ok
proof
  fix s assume "poll_init s"
  then show "poll_ok s"
    by (auto simp: poll_init_def poll_start_def poll_ok_def table_ok_def in_table_def OPEN_MAX_def nth_Cons split: nat.splits)
next
  fix s t assume "poll_ok s" "poll_step s t"
  from this(2) show "poll_ok t"
  proof cases
    case (poll_env w)
    then show ?thesis using \<open>poll_ok s\<close> net_env_keeps [OF poll_env(2)] by (auto simp: poll_ok_def answered_def)
  next
    case poll_loop
    then show ?thesis using poll_round_ok \<open>poll_ok s\<close> by blast
  qed
qed



end
