(* ===== verification/Epoll_Server.thy ===== *)
theory Epoll_Server
  imports Slot_Scan
begin

text \<open>
  The server built on \<open>epoll\<close>, \<^verbatim>\<open>src/Linux_Net/concurrent/moreIO_concurrent/epoll_concurrent/server.c\<close>. The
  loop over the events and the loop that converts a chunk to upper case use the same variable \<open>i\<close>, so
  that after a chunk of \<open>n\<close> bytes the loop over the events goes on with event \<open>n + 1\<close>.
\<close>

definition E_MAXLINE :: nat where
  "E_MAXLINE = 8192"

record eserver =
  elisten :: int
  interest :: "int set"
  num :: nat
  enet :: net

definition epoll_start :: "int \<Rightarrow> net \<Rightarrow> eserver" where
  "epoll_start lfd w = \<lparr>elisten = lfd, interest = {lfd}, num = 0, enet = w\<rparr>"

text \<open>A closed descriptor answers with \<open>EBADF\<close>.\<close>

definition epoll_read :: "int \<Rightarrow> net \<Rightarrow> (answer \<times> net) option" where
  "epoll_read fd w = (if fd \<in> set (open_fds w) then sys_Read E_MAXLINE fd w else Some (Err (Other_errno 9), w))"

definition epoll_accept :: "eserver \<Rightarrow> eserver outcome" where
  "epoll_accept s =
     (case sys_Accept (enet s) of
        None \<Rightarrow> Blocks
      | Some (Inl e, w) \<Rightarrow> Exits
      | Some (Inr connfd, w) \<Rightarrow>
          if connfd \<in> interest s then Exits
          else Next (s\<lparr>num := num s + 1, interest := insert connfd (interest s), enet := w\<rparr>))"

text \<open>\<open>epoll_ctl(EPOLL_CTL_DEL)\<close> and \<open>Close\<close>: closing what is not open ends the program.\<close>

definition epoll_close :: "int \<Rightarrow> eserver \<Rightarrow> eserver outcome" where
  "epoll_close fd s =
     (if fd \<in> set (open_fds (enet s)) then Next (s\<lparr>interest := interest s - {fd}, enet := sys_Close fd (enet s)\<rparr>)
      else Exits)"

text \<open>One event: the state after it, and the value of \<open>i\<close>.\<close>

definition epoll_event :: "int \<Rightarrow> nat \<Rightarrow> eserver \<Rightarrow> (eserver \<times> nat) outcome" where
  "epoll_event fd i s =
     (if fd = elisten s then (case epoll_accept s of Next s' \<Rightarrow> Next (s', i) | Exits \<Rightarrow> Exits | Blocks \<Rightarrow> Blocks | Undefined \<Rightarrow> Undefined)
      else
        (case epoll_read fd (enet s) of
           None \<Rightarrow> Blocks
         | Some (Err e, w) \<Rightarrow>
             (case epoll_close fd (s\<lparr>enet := w\<rparr>) of Next s' \<Rightarrow> Next (s', i) | _ \<Rightarrow> Exits)
         | Some (Got str, w) \<Rightarrow>
             if str = []
             then (if fd \<in> interest s
                   then (case epoll_close fd (s\<lparr>enet := w\<rparr>) of Next s' \<Rightarrow> Next (s', i) | _ \<Rightarrow> Exits)
                   else Exits)
             else Next (s\<lparr>enet := sys_Writen fd (map toupper str) w\<rparr>, length str)))"

text \<open>What is left to read on the descriptors of the events; it bounds the loop.\<close>

definition pending_weight :: "int list \<Rightarrow> eserver \<Rightarrow> nat" where
  "pending_weight ep s =
     sum_list (map (\<lambda>fd. script_weight (incoming (enet s) fd)) ep) + length (listen_queue (enet s))"

lemma script_weight_Read:
  "Read n ans = Some (a, rest) \<Longrightarrow> 0 < n \<Longrightarrow>
   script_weight rest \<le> script_weight ans \<and> (a \<noteq> Got [] \<longrightarrow> script_weight rest < script_weight ans)"
  by (induction ans rule: stream.induct) (auto simp: script_weight_def split: if_splits)

lemma Accept_shorter: "Accept q = Some (a, q') \<Longrightarrow> length q' < length q"
  by (induction q rule: Accept.induct) (auto split: if_splits dest: less_Suc_eq [THEN iffD2, OF disjI1])

lemma weight_update:
  assumes "fd \<in> set ep" "script_weight rest \<le> script_weight (f fd)"
  shows "sum_list (map (\<lambda>x. script_weight ((f(fd := rest)) x)) ep) \<le> sum_list (map (\<lambda>x. script_weight (f x)) ep)"
    "script_weight rest < script_weight (f fd) \<Longrightarrow>
     sum_list (map (\<lambda>x. script_weight ((f(fd := rest)) x)) ep) < sum_list (map (\<lambda>x. script_weight (f x)) ep)"
proof -
  show "sum_list (map (\<lambda>x. script_weight ((f(fd := rest)) x)) ep) \<le> sum_list (map (\<lambda>x. script_weight (f x)) ep)"
    by (rule sum_list_mono) (use assms(2) in auto)
  show "sum_list (map (\<lambda>x. script_weight ((f(fd := rest)) x)) ep) < sum_list (map (\<lambda>x. script_weight (f x)) ep)"
    if "script_weight rest < script_weight (f fd)"
    using assms(1)
  proof (induction ep)
    case (Cons y ep)
    have "sum_list (map (\<lambda>x. script_weight ((f(fd := rest)) x)) ep) \<le> sum_list (map (\<lambda>x. script_weight (f x)) ep)"
      by (rule sum_list_mono) (use assms(2) in auto)
    then show ?case using Cons that by (cases "y = fd") auto
  qed simp
qed

lemma incoming_Writen [simp]: "incoming (sys_Writen fd s w) = incoming w" "listen_queue (sys_Writen fd s w) = listen_queue w"
  by (simp_all add: sys_Writen_def split: prod.split)

text \<open>An event either uses up something that was pending, or leaves \<open>i\<close> alone.\<close>

lemma epoll_close_weight: "epoll_close fd s = Next s' \<Longrightarrow> pending_weight ep s' = pending_weight ep s"
  by (auto simp: epoll_close_def pending_weight_def split: if_splits)

lemma epoll_event_weight:
  assumes "epoll_event fd i s = Next (s', j)" "fd \<in> set ep"
  shows "pending_weight ep s' < pending_weight ep s \<or> pending_weight ep s' \<le> pending_weight ep s \<and> j = i"
proof (cases "fd = elisten s")
  case True
  then obtain c w where acc: "sys_Accept (enet s) = Some (Inr c, w)" "s' = s\<lparr>num := num s + 1, interest := insert c (interest s), enet := w\<rparr>"
    using assms(1) by (auto simp: epoll_event_def epoll_accept_def split: outcome.splits option.splits sum.splits prod.splits if_splits)
  from acc(1) obtain q where q: "Accept (listen_queue (enet s)) = Some (Conn, q)" "w = snd (admit ((enet s)\<lparr>listen_queue := q\<rparr>))"
    by (auto simp: sys_Accept_def split: option.splits accept_answer.splits prod.splits)
  have "sum_list (map (\<lambda>fd. script_weight (incoming w fd)) ep) \<le> sum_list (map (\<lambda>fd. script_weight (incoming (enet s) fd)) ep)"
    by (rule sum_list_mono) (simp add: q(2) admit_def Let_def script_weight_def)
  then show ?thesis using Accept_shorter [OF q(1)] acc(2) q(2) by (simp add: pending_weight_def)
next
  case False
  show ?thesis
  proof (cases "fd \<in> set (open_fds (enet s))")
    case True
    then obtain a rest where r: "Read E_MAXLINE (incoming (enet s) fd) = Some (a, rest)"
      using assms(1) False by (auto simp: epoll_event_def epoll_read_def sys_Read_def split: option.splits)
    have pos: "0 < E_MAXLINE" by (simp add: E_MAXLINE_def)
    note less = script_weight_Read [OF r pos]
    let ?s = "s\<lparr>enet := receive fd a rest (enet s)\<rparr>"
    have w: "pending_weight ep ?s \<le> pending_weight ep s" "a \<noteq> Got [] \<Longrightarrow> pending_weight ep ?s < pending_weight ep s"
      using weight_update [OF assms(2), of rest "incoming (enet s)"] less by (auto simp: pending_weight_def)
    show ?thesis
    proof (cases a)
      case (Err e)
      then have "epoll_close fd ?s = Next s'"
        using assms(1) False True r by (auto simp: epoll_event_def epoll_read_def sys_Read_def split: outcome.splits)
      then show ?thesis using epoll_close_weight [of fd ?s s' ep] w(2) Err by simp
    next
      case (Got str)
      then show ?thesis
        using assms(1) False True r w epoll_close_weight [of fd ?s s' ep]
        by (auto simp: epoll_event_def epoll_read_def sys_Read_def pending_weight_def split: outcome.splits if_splits)
    qed
  next
    case no: False
    then show ?thesis
      using assms(1) False by (auto simp: epoll_event_def epoll_read_def epoll_close_def)
  qed
qed

text \<open>The loop over the events that \<open>epoll_wait\<close> has delivered, all of them readable ones.\<close>

function epoll_events :: "int list \<Rightarrow> nat \<Rightarrow> eserver \<Rightarrow> eserver outcome" where
  "epoll_events ep i s =
     (if i < length ep
      then (case epoll_event (ep ! i) i s of
              Next (s', j) \<Rightarrow> epoll_events ep (j + 1) s'
            | Exits \<Rightarrow> Exits | Blocks \<Rightarrow> Blocks | Undefined \<Rightarrow> Undefined)
      else Next s)"
  by pat_completeness auto
termination
proof (relation "measures [\<lambda>(ep, i, s). pending_weight ep s, \<lambda>(ep, i, s). length ep - i]", goal_cases)
  case (2 ep i s p s' j)
  then show ?case using epoll_event_weight [of "ep ! i" i s s' j ep] by auto
qed simp

declare epoll_events.simps [simp del]

text \<open>What \<open>epoll_wait\<close> may deliver.\<close>

definition epoll_reports :: "int list \<Rightarrow> eserver \<Rightarrow> bool" where
  "epoll_reports ep s \<longleftrightarrow>
     ep \<noteq> [] \<and> distinct ep
     \<and> (\<forall>fd\<in>set ep. fd \<in> interest s \<and> (if fd = elisten s then acceptable (enet s) else readable (enet s) fd))"

definition epoll_round :: "int list \<Rightarrow> eserver \<Rightarrow> eserver outcome" where
  "epoll_round ep s = epoll_events ep 0 s"

inductive epoll_step :: "eserver \<Rightarrow> eserver \<Rightarrow> bool" where
  epoll_env: "net_env taking (enet s) w \<Longrightarrow> epoll_step s (s\<lparr>enet := w\<rparr>)"
| epoll_loop: "epoll_reports ep s \<Longrightarrow> epoll_round ep s = Next s' \<Longrightarrow> epoll_step s s'"

definition epoll_init :: "eserver \<Rightarrow> bool" where
  "epoll_init s \<longleftrightarrow>
     (\<exists>lfd w. s = epoll_start lfd w \<and> 3 \<le> lfd \<and> open_fds w = [lfd, 2, 1, 0] \<and> writes_in taking w)"

section \<open>What the server keeps\<close>

definition epoll_ok :: "eserver \<Rightarrow> bool" where
  "epoll_ok s \<longleftrightarrow>
     elisten s \<in> interest s \<and> interest s \<inter> {0, 1, 2} = {} \<and> set (open_fds (enet s)) = {0, 1, 2} \<union> interest s
     \<and> writes_in taking (enet s) \<and> (\<forall>fd\<in>interest s - {elisten s}. answered toupper (enet s) fd)"

lemma epoll_event_ok:
  assumes ok: "epoll_ok s" and ev: "epoll_event fd i s = Next (s', j)" and fd: "fd \<notin> {0, 1, 2}"
  shows "epoll_ok s' \<and> elisten s' = elisten s"
proof (cases "fd = elisten s")
  case True
  then obtain c w where acc: "sys_Accept (enet s) = Some (Inr c, w)" "s' = s\<lparr>num := num s + 1, interest := insert c (interest s), enet := w\<rparr>"
    using ev by (auto simp: epoll_event_def epoll_accept_def split: outcome.splits option.splits sum.splits prod.splits if_splits)
  obtain q where q: "c = lowest_free (open_fds (enet s))" "w = snd (admit ((enet s)\<lparr>listen_queue := q\<rparr>))"
    using sys_Accept_conn [OF acc(1)] by blast
  then have "c \<notin> set (open_fds (enet s))" using lowest_free_fresh by simp
  then show ?thesis using ok acc(2) q by (auto simp: epoll_ok_def answered_def writes_in_def)
next
  case False
  show ?thesis
  proof (cases "fd \<in> set (open_fds (enet s))")
    case True
    then have int: "fd \<in> interest s" using ok fd by (auto simp: epoll_ok_def)
    obtain a rest where r: "Read E_MAXLINE (incoming (enet s) fd) = Some (a, rest)"
      using ev False True by (auto simp: epoll_event_def epoll_read_def sys_Read_def split: option.splits)
    let ?r = "receive fd a rest (enet s)"
    show ?thesis
    proof (cases "\<exists>str. a = Got str \<and> str \<noteq> []")
      case False
      then have "epoll_close fd (s\<lparr>enet := ?r\<rparr>) = Next s'"
        using ev \<open>fd \<noteq> elisten s\<close> True r int
        by (cases a) (auto simp: epoll_event_def epoll_read_def sys_Read_def split: outcome.splits)
      moreover have "got ?r = got (enet s)" using False by (cases a) auto
      ultimately show ?thesis
        using ok \<open>fd \<noteq> elisten s\<close> int by (auto simp: epoll_close_def epoll_ok_def answered_def writes_in_def split: if_splits)
    next
      case str: True
      then obtain str where a: "a = Got str" "str \<noteq> []" by blast
      have "writes_in taking ?r" using ok by (simp add: epoll_ok_def writes_in_def)
      then obtain ws where ws: "sys_Writen fd (map toupper str) ?r = transmit fd (map toupper str) ws ?r"
          "writes_in taking (sys_Writen fd (map toupper str) ?r)"
        using sys_Writen_echo by blast
      have "s' = s\<lparr>enet := sys_Writen fd (map toupper str) ?r\<rparr>"
        using ev \<open>fd \<noteq> elisten s\<close> True r a by (simp add: epoll_event_def epoll_read_def sys_Read_def)
      then show ?thesis using ok ws a by (auto simp: epoll_ok_def answered_def)
    qed
  next
    case no: False
    then show ?thesis using ev False by (auto simp: epoll_event_def epoll_read_def epoll_close_def)
  qed
qed

lemma epoll_events_ok:
  "epoll_ok s \<Longrightarrow> set ep \<inter> {0, 1, 2} = {} \<Longrightarrow> epoll_events ep i s = Next s' \<Longrightarrow> epoll_ok s'"
proof (induction ep i s arbitrary: s' rule: epoll_events.induct)
  case (1 ep i s)
  show ?case
  proof (cases "i < length ep")
    case True
    then obtain t j where t: "epoll_event (ep ! i) i s = Next (t, j)" "epoll_events ep (j + 1) t = Next s'"
      using "1.prems"(3) by (subst (asm) epoll_events.simps) (auto split: outcome.splits)
    have "ep ! i \<notin> {0, 1, 2}" using True "1.prems"(2) nth_mem by blast
    then have "epoll_ok t" using epoll_event_ok [OF "1.prems"(1) t(1)] by blast
    then show ?thesis using "1.IH" True t "1.prems"(2) by blast
  next
    case False
    then show ?thesis using "1.prems" by (subst (asm) epoll_events.simps) simp
  qed
qed

interpretation epoll: invariant_system epoll_init epoll_step epoll_ok
proof
  fix s assume "epoll_init s"
  then show "epoll_ok s" by (auto simp: epoll_init_def epoll_start_def epoll_ok_def)
next
  fix s t assume ok: "epoll_ok s" and "epoll_step s t"
  from this(2) show "epoll_ok t"
  proof cases
    case (epoll_env w)
    then show ?thesis using ok net_env_keeps [OF epoll_env(2)] by (auto simp: epoll_ok_def answered_def)
  next
    case (epoll_loop ep)
    have "set ep \<inter> {0, 1, 2} = {}" using epoll_loop(1) ok by (auto simp: epoll_reports_def epoll_ok_def)
    then show ?thesis using epoll_events_ok [OF ok] epoll_loop(2) by (simp add: epoll_round_def)
  qed
qed

text \<open>
  In every run of the \<open>epoll\<close> server that goes on: the descriptors being watched are the open
  connections, and what a connected client has been sent is exactly what it sent, in upper case.
  When one event is reported at a time, the round serves it: a chunk is returned in upper case, and a
  connection whose stream has ended or failed is closed.
\<close>

theorem epoll_server_answers:
  assumes "reach epoll_init epoll_step s"
  shows "set (open_fds (enet s)) = {0, 1, 2} \<union> interest s
    \<and> (\<forall>fd\<in>interest s - {elisten s}. sent (enet s) fd = map toupper (got (enet s) fd)
         \<and> (epoll_reports [fd] s \<longrightarrow>
              (\<exists>s' a rest. Read E_MAXLINE (incoming (enet s) fd) = Some (a, rest) \<and> epoll_round [fd] s = Next s'
                 \<and> (case a of
                      Got str \<Rightarrow> if str = [] then fd \<notin> interest s'
                        else incoming (enet s') fd = rest \<and> sent (enet s') fd = sent (enet s) fd @ map toupper str
                    | Err e \<Rightarrow> fd \<notin> interest s'))))"
proof -
  have ok: "epoll_ok s" using assms by (rule epoll.invariant)
  have "\<exists>s' a rest. Read E_MAXLINE (incoming (enet s) fd) = Some (a, rest) \<and> epoll_round [fd] s = Next s'
                 \<and> (case a of
                      Got str \<Rightarrow> if str = [] then fd \<notin> interest s'
                        else incoming (enet s') fd = rest \<and> sent (enet s') fd = sent (enet s) fd @ map toupper str
                    | Err e \<Rightarrow> fd \<notin> interest s')"
    if fd: "fd \<in> interest s - {elisten s}" "epoll_reports [fd] s" for fd
  proof -
    have rd: "readable (enet s) fd" "fd \<in> set (open_fds (enet s))" using fd ok by (auto simp: epoll_reports_def epoll_ok_def)
    obtain a rest where r: "Read E_MAXLINE (incoming (enet s) fd) = Some (a, rest)"
      using rd(1) readable_Read [of E_MAXLINE "enet s" fd] by (auto simp: sys_Read_def E_MAXLINE_def split: option.splits)
    have "writes_in taking (receive fd a rest (enet s))" using ok by (simp add: epoll_ok_def writes_in_def)
    from sys_Writen_echo [OF this]
    have w: "\<exists>ws. sys_Writen fd t (receive fd a rest (enet s)) = transmit fd t ws (receive fd a rest (enet s))" for t by blast
    have one: "epoll_round [fd] s = (case epoll_event fd 0 s of
        Next (s', j) \<Rightarrow> Next s' | Exits \<Rightarrow> Exits | Blocks \<Rightarrow> Blocks | Undefined \<Rightarrow> Undefined)"
      by (simp add: epoll_round_def epoll_events.simps [of "[fd]"] split: outcome.split)
    show ?thesis
    proof (cases a)
      case (Got str)
      then show ?thesis
        using r rd fd w [of "map toupper str"] one
        by (auto simp: epoll_event_def epoll_read_def sys_Read_def epoll_close_def)
    next
      case (Err e)
      then show ?thesis
        using r rd fd one by (auto simp: epoll_event_def epoll_read_def sys_Read_def epoll_close_def)
    qed
  qed
  then show ?thesis using ok by (auto simp: epoll_ok_def answered_def)
qed

definition waiting_net :: "accept_answer list \<Rightarrow> int list \<Rightarrow> (int \<Rightarrow> answer list) \<Rightarrow> net" where
  "waiting_net q fds inc =
     \<lparr>listen_queue = q, incoming = inc, outgoing = (\<lambda>_. []), open_fds = fds, got = (\<lambda>_. []), sent = (\<lambda>_. [])\<rparr>"

definition waiting :: "accept_answer list \<Rightarrow> nat \<Rightarrow> int list \<Rightarrow> (int \<Rightarrow> answer list) \<Rightarrow> eserver" where
  "waiting q k fds inc = \<lparr>elisten = 3, interest = set fds - {0, 1, 2}, num = k, enet = waiting_net q fds inc\<rparr>"

lemma waiting_init: "reach epoll_init epoll_step (waiting q 0 [3, 2, 1, 0] (\<lambda>_. []))"
  by (rule reach.reach_init)
    (auto simp: epoll_init_def waiting_def waiting_net_def epoll_start_def writes_in_def intro!: exI [of _ 3])

lemma waiting_accept:
  assumes "reach epoll_init epoll_step (waiting (Conn # q) k fds (\<lambda>_. []))" "3 \<in> set fds" "{0, 1, 2} \<subseteq> set fds"
  shows "reach epoll_init epoll_step (waiting q (Suc k) (lowest_free fds # fds) (\<lambda>_. []))"
  using assms(1)
proof (rule reach.reach_step)
  let ?s = "waiting (Conn # q) k fds (\<lambda>_. [])" and ?t = "waiting q (Suc k) (lowest_free fds # fds) (\<lambda>_. [])"
  have new: "lowest_free fds \<notin> set fds" by (rule lowest_free_fresh)
  have idem: "(\<lambda>_. [])(x := []) = (\<lambda>_. [])" for x :: int by auto
  have "epoll_event 3 0 ?s = Next (?t, 0)"
    using new assms(3)
    by (auto simp: waiting_def waiting_net_def epoll_event_def epoll_accept_def sys_Accept_def admit_def Let_def idem)
  then have "epoll_round [3] ?s = Next ?t"
    by (simp add: epoll_round_def epoll_events.simps [of "[3]"])
  moreover have "epoll_reports [3] ?s" using assms(2) by (simp add: epoll_reports_def waiting_def waiting_net_def acceptable_def)
  ultimately show "epoll_step ?s ?t" by (intro epoll_loop)
qed

lemma waiting_arrive:
  assumes "reach epoll_init epoll_step (waiting q k fds inc)" "fd \<in> set fds"
  shows "reach epoll_init epoll_step (waiting q k fds (inc(fd := inc fd @ [a])))"
  using assms(1)
proof (rule reach.reach_step)
  let ?s = "waiting q k fds inc"
  have "net_env taking (enet ?s) ((enet ?s)\<lparr>incoming := (incoming (enet ?s))(fd := incoming (enet ?s) fd @ [a])\<rparr>)"
    using assms(2) by (intro env_arrive) (simp add: waiting_def waiting_net_def)
  from epoll_env [OF this] show "epoll_step ?s (waiting q k fds (inc(fd := inc fd @ [a])))"
    by (simp add: waiting_def waiting_net_def)
qed

text \<open>
  The shared index makes the server hang. Two clients are connected; a third one connects, the first
  one hangs up and the second one sends a single byte. All three events are ready when they are reported,
  but the byte sets the index back, the second client is read again although it has nothing more to
  say, and the call blocks: nobody is served until that client sends something.
\<close>

theorem epoll_server_hangs:
  "\<exists>s ep. reach epoll_init epoll_step s \<and> epoll_reports ep s \<and> epoll_round ep s = Blocks"
proof -
  let ?inc = "((\<lambda>_. [])(4 := [Got []]))(5 := [Got ''a'']) :: int \<Rightarrow> answer list"
  let ?s = "waiting [Conn] 2 [5, 4, 3, 2, 1, 0] ?inc"
  have free: "lowest_free [3, 2, 1, 0] = 4" "lowest_free [4, 3, 2, 1, 0] = 5" by (simp_all add: lowest_free_def)
  have "reach epoll_init epoll_step (waiting [Conn] 2 [5, 4, 3, 2, 1, 0] (\<lambda>_. []))"
    using waiting_accept [OF waiting_accept [OF waiting_init, of "[Conn, Conn]"]] by (simp add: free numeral_2_eq_2)
  from waiting_arrive [OF waiting_arrive [OF this, of 4 "Got []"], of 5 "Got ''a''"]
  have "reach epoll_init epoll_step ?s" by simp
  moreover have "epoll_reports [3, 4, 5] ?s"
    by (simp add: epoll_reports_def waiting_def waiting_net_def acceptable_def readable_def)
  moreover have "epoll_round [3, 4, 5] ?s = Blocks"
    by (simp add: epoll_round_def epoll_events.simps waiting_def waiting_net_def epoll_event_def epoll_accept_def
        sys_Accept_def admit_def Let_def lowest_free_def epoll_read_def sys_Read_def epoll_close_def E_MAXLINE_def
        receive_def sys_Close_def sys_Writen_def Writen_def transmit_def)
  ultimately show ?thesis by blast
qed

theorem epoll_server_answers_witness:
  "set (open_fds (enet (waiting [Conn] 0 [3, 2, 1, 0] (\<lambda>_. [])))) = {0, 1, 2, 3}"
  using epoll_server_answers [OF waiting_init, of "[Conn]"] by (auto simp: waiting_def)

end
