(* ===== verification/Epoll_Echo.thy ===== *)
theory Epoll_Echo
  imports Net_Kernel
begin

text \<open>
  The echo server under \<^verbatim>\<open>src/Linux_Net/04.*/server.cpp\<close>: a connection is watched for input, then for output,
  in turn. All connections share one buffer of \<open>MAXSIZE\<close> bytes, of which \<open>do_write\<close> sends what comes
  before the first null byte.
\<close>

definition MAXSIZE :: nat where
  "MAXSIZE = 1024"

abbreviation NUL :: char where "NUL \<equiv> CHR 0x00"

record echo =
  watched :: "int \<Rightarrow> epoll_flag option"
  shared_buf :: string
  echo_listen :: int
  echo_net :: net

definition add_event :: "int \<Rightarrow> epoll_flag \<Rightarrow> echo \<Rightarrow> echo" where
  "add_event fd st s = (if watched s fd = None then s\<lparr>watched := (watched s)(fd \<mapsto> st)\<rparr> else s)"

text \<open>Closing a descriptor has taken it out of the set already, and then the call fails.\<close>

definition delete_event :: "int \<Rightarrow> echo \<Rightarrow> echo" where
  "delete_event fd s = s\<lparr>watched := (watched s)(fd := None)\<rparr>"

definition modify_event :: "int \<Rightarrow> epoll_flag \<Rightarrow> echo \<Rightarrow> echo" where
  "modify_event fd st s = (if watched s fd = None then s else s\<lparr>watched := (watched s)(fd \<mapsto> st)\<rparr>)"

definition echo_close :: "int \<Rightarrow> echo \<Rightarrow> echo" where
  "echo_close fd s = s\<lparr>echo_net := sys_Close fd (echo_net s), watched := (watched s)(fd := None)\<rparr>"

definition do_epoll_start :: "int \<Rightarrow> net \<Rightarrow> echo" where
  "do_epoll_start lfd w =
     add_event lfd EPOLLIN \<lparr>watched = Map.empty, shared_buf = replicate MAXSIZE NUL, echo_listen = lfd, echo_net = w\<rparr>"

definition handle_accept :: "echo \<Rightarrow> echo outcome" where
  "handle_accept s =
     (case sys_accept (echo_net s) of
        None \<Rightarrow> Blocks
      | Some (Inl e, w) \<Rightarrow> Next (s\<lparr>echo_net := w\<rparr>)
      | Some (Inr newfd, w) \<Rightarrow> Next (add_event newfd EPOLLIN (s\<lparr>echo_net := w\<rparr>)))"

text \<open>Printing the buffer as a string needs a null byte in it.\<close>

definition echo_read :: "int \<Rightarrow> echo \<Rightarrow> echo outcome" where
  "echo_read fd s =
     (case sys_read MAXSIZE fd (echo_net s) of
        None \<Rightarrow> Blocks
      | Some (Err e, w) \<Rightarrow> Next (delete_event fd (echo_close fd (s\<lparr>echo_net := w\<rparr>)))
      | Some (Got str, w) \<Rightarrow>
          if str = [] then Next (delete_event fd (echo_close fd (s\<lparr>echo_net := w\<rparr>)))
          else
            (let b = str @ drop (length str) (shared_buf s) in
             if NUL \<notin> set b then Undefined
             else Next (modify_event fd EPOLLOUT (s\<lparr>echo_net := w, shared_buf := b\<rparr>))))"

definition echo_write :: "int \<Rightarrow> echo \<Rightarrow> echo outcome" where
  "echo_write fd s =
     (if NUL \<notin> set (shared_buf s) then Undefined
      else
        (case sys_write fd (takeWhile (\<lambda>c. c \<noteq> NUL) (shared_buf s)) (echo_net s) of
           (WErr e, w) \<Rightarrow> Next ((delete_event fd (echo_close fd (s\<lparr>echo_net := w\<rparr>)))\<lparr>shared_buf := replicate MAXSIZE NUL\<rparr>)
         | (Takes k, w) \<Rightarrow> Next ((modify_event fd EPOLLIN (s\<lparr>echo_net := w\<rparr>))\<lparr>shared_buf := replicate MAXSIZE NUL\<rparr>)))"

definition handle_event :: "int \<times> bool \<times> bool \<Rightarrow> echo \<Rightarrow> echo outcome" where
  "handle_event ev s =
     (case ev of (fd, inp, outp) \<Rightarrow>
        if fd = echo_listen s \<and> inp then handle_accept s
        else if inp then echo_read fd s
        else if outp then echo_write fd s
        else Next s)"

fun handle_events :: "(int \<times> bool \<times> bool) list \<Rightarrow> echo \<Rightarrow> echo outcome" where
  "handle_events [] s = Next s"
| "handle_events (ev # evs) s = (case handle_event ev s of Next s' \<Rightarrow> handle_events evs s' | r \<Rightarrow> r)"

text \<open>What \<open>epoll_wait\<close> may deliver; an open connection can always be written to.\<close>

definition reported :: "(int \<times> bool \<times> bool) list \<Rightarrow> echo \<Rightarrow> bool" where
  "reported evs s \<longleftrightarrow>
     distinct (map fst evs)
     \<and> list_all (\<lambda>(fd, inp, outp). case watched s fd of
           None \<Rightarrow> False
         | Some EPOLLIN \<Rightarrow> inp \<and> \<not> outp \<and> (if fd = echo_listen s then acceptable (echo_net s) else readable (echo_net s) fd)
         | Some EPOLLOUT \<Rightarrow> \<not> inp \<and> outp) evs"

inductive echo_step :: "echo \<Rightarrow> echo \<Rightarrow> bool" where
  echo_env: "net_env (\<lambda>_. False) (echo_net s) w \<Longrightarrow> echo_step s (s\<lparr>echo_net := w\<rparr>)"
| echo_loop: "reported evs s \<Longrightarrow> handle_events evs s = Next s' \<Longrightarrow> echo_step s s'"

definition echo_init :: "echo \<Rightarrow> bool" where
  "echo_init s \<longleftrightarrow>
     (\<exists>lfd w. s = do_epoll_start lfd w \<and> 3 \<le> lfd \<and> open_fds w = [lfd, 2, 1, 0] \<and> outgoing w = (\<lambda>_. []))"

section \<open>One client at a time\<close>

text \<open>
  A client that speaks while the buffer is clean and is answered before anyone else speaks gets its
  chunk back, as long as the chunk is shorter than the buffer and has no null byte.
\<close>

lemma takeWhile_chunk:
  "NUL \<notin> set str \<Longrightarrow> takeWhile (\<lambda>c. c \<noteq> NUL) (str @ replicate (Suc n) NUL) = str"
  by (induction str) auto

theorem echo_one_client:
  assumes "watched s fd = Some EPOLLIN" "fd \<noteq> echo_listen s" "shared_buf s = replicate MAXSIZE NUL"
    "incoming (echo_net s) fd = Got str # rest" "str \<noteq> []" "length str < MAXSIZE" "NUL \<notin> set str" "outgoing (echo_net s) fd = []"
  shows "\<exists>s' s''. handle_events [(fd, True, False)] s = Next s' \<and> reported [(fd, False, True)] s'
    \<and> handle_events [(fd, False, True)] s' = Next s''
    \<and> got (echo_net s'') fd = got (echo_net s) fd @ str \<and> sent (echo_net s'') fd = sent (echo_net s) fd @ str
    \<and> watched s'' = watched s \<and> shared_buf s'' = replicate MAXSIZE NUL \<and> incoming (echo_net s'') fd = rest
    \<and> outgoing (echo_net s'') fd = [] \<and> echo_listen s'' = echo_listen s"
proof -
  obtain n where n: "MAXSIZE - length str = Suc n" using assms(6) by (cases "MAXSIZE - length str") auto
  let ?b = "str @ replicate (Suc n) NUL"
  let ?w = "receive fd (Got str) rest (echo_net s)"
  let ?s = "modify_event fd EPOLLOUT (s\<lparr>echo_net := ?w, shared_buf := ?b\<rparr>)"
  have b: "str @ drop (length str) (shared_buf s) = ?b" using assms(3) n by simp
  have "sys_read MAXSIZE fd (echo_net s) = Some (Got str, ?w)" using assms(4-6) by (simp add: sys_read_def)
  then have "handle_events [(fd, True, False)] s = Next ?s"
    using assms(2,5) b by (simp add: handle_event_def echo_read_def Let_def)
  moreover have s: "watched ?s = (watched s)(fd \<mapsto> EPOLLOUT)" "shared_buf ?s = ?b" "echo_net ?s = ?w" "echo_listen ?s = echo_listen s"
    using assms(1) by (simp_all add: modify_event_def)
  then have "reported [(fd, False, True)] ?s" by (simp add: reported_def)
  moreover have "sys_write fd str ?w = (Takes (length str), transmit fd str [] ?w)"
    using assms(8) by (simp add: sys_write_def)
  then have "handle_events [(fd, False, True)] ?s =
      Next ((modify_event fd EPOLLIN (?s\<lparr>echo_net := transmit fd str [] ?w\<rparr>))\<lparr>shared_buf := replicate MAXSIZE NUL\<rparr>)"
    using s takeWhile_chunk [OF assms(7), of n] by (simp add: handle_event_def echo_write_def)
  ultimately show ?thesis using s assms(1) by (auto simp: modify_event_def fun_upd_idem)
qed

theorem echo_one_client_witness:
  "\<exists>s' s''. handle_events [(4, True, False)] \<lparr>watched = [4 \<mapsto> EPOLLIN], shared_buf = replicate MAXSIZE NUL, echo_listen = 3,
     echo_net = \<lparr>listen_queue = [], incoming = (\<lambda>_. [Got ''hi'']), outgoing = (\<lambda>_. []), open_fds = [4, 3, 2, 1, 0],
       got = (\<lambda>_. []), sent = (\<lambda>_. [])\<rparr>\<rparr> = Next s'
   \<and> handle_events [(4, False, True)] s' = Next s'' \<and> sent (echo_net s'') 4 = ''hi''"
proof -
  let ?s = "\<lparr>watched = [4 \<mapsto> EPOLLIN], shared_buf = replicate MAXSIZE NUL, echo_listen = 3,
     echo_net = \<lparr>listen_queue = [], incoming = (\<lambda>_. [Got ''hi'']), outgoing = (\<lambda>_. []), open_fds = [4, 3, 2, 1, 0],
       got = (\<lambda>_. []), sent = (\<lambda>_. [])\<rparr>\<rparr>"
  show ?thesis using echo_one_client [of ?s 4 "''hi''" "[]"] by (auto simp: MAXSIZE_def)
qed

section \<open>Two clients\<close>

text \<open>The states of a run with two clients.\<close>

definition talk :: "accept_answer list \<Rightarrow> (int \<Rightarrow> epoll_flag option) \<Rightarrow> string \<Rightarrow> int list \<Rightarrow> (int \<Rightarrow> answer list) \<Rightarrow>
    (int \<Rightarrow> string) \<Rightarrow> (int \<Rightarrow> string) \<Rightarrow> echo" where
  "talk q wt b fds inc g se =
     \<lparr>watched = wt, shared_buf = b, echo_listen = 3,
      echo_net = \<lparr>listen_queue = q, incoming = inc, outgoing = (\<lambda>_. []), open_fds = fds, got = g, sent = se\<rparr>\<rparr>"

abbreviation nothing :: "int \<Rightarrow> 'a list" where "nothing \<equiv> (\<lambda>_. [])"

lemma nothing_upd [simp]: "(\<lambda>_. [])(x := []) = (\<lambda>_. [])"
  by auto

lemma talk_step:
  assumes "reach echo_init echo_step s" "reported evs s" "handle_events evs s = Next t"
  shows "reach echo_init echo_step t"
  using assms by (blast intro: reach.reach_step echo_loop)

lemma talk_connected:
  "reach echo_init echo_step
     (talk [] [3 \<mapsto> EPOLLIN, 4 \<mapsto> EPOLLIN, 5 \<mapsto> EPOLLIN] (replicate MAXSIZE NUL) [5, 4, 3, 2, 1, 0] nothing nothing nothing)"
proof -
  let ?t = "\<lambda>q wt fds. talk q wt (replicate MAXSIZE NUL) fds nothing nothing nothing"
  have free: "lowest_free [3, 2, 1, 0] = 4" "lowest_free [4, 3, 2, 1, 0] = 5" by (simp_all add: lowest_free_def)
  have "echo_init (?t [Conn, Conn] [3 \<mapsto> EPOLLIN] [3, 2, 1, 0])"
    unfolding echo_init_def by (rule exI [of _ 3]) (auto simp: do_epoll_start_def add_event_def talk_def)
  then have "reach echo_init echo_step (?t [Conn, Conn] [3 \<mapsto> EPOLLIN] [3, 2, 1, 0])" by (rule reach.reach_init)
  then have "reach echo_init echo_step (?t [Conn] [3 \<mapsto> EPOLLIN, 4 \<mapsto> EPOLLIN] [4, 3, 2, 1, 0])"
    by (rule talk_step [where evs = "[(3, True, False)]"])
      (simp_all add: talk_def reported_def acceptable_def handle_event_def handle_accept_def admit_def Let_def free add_event_def)
  then show ?thesis
    by (rule talk_step [where evs = "[(3, True, False)]"])
      (simp_all add: talk_def reported_def acceptable_def handle_event_def handle_accept_def admit_def Let_def free add_event_def)
qed

lemma talk_arrive:
  assumes "reach echo_init echo_step (talk q wt b fds inc g se)" "fd \<in> set fds"
  shows "reach echo_init echo_step (talk q wt b fds (inc(fd := inc fd @ [a])) g se)"
  using assms(1)
proof (rule reach.reach_step)
  let ?s = "talk q wt b fds inc g se"
  have "net_env (\<lambda>_. False) (echo_net ?s) ((echo_net ?s)\<lparr>incoming := (incoming (echo_net ?s))(fd := incoming (echo_net ?s) fd @ [a])\<rparr>)"
    using assms(2) by (intro env_arrive) (simp add: talk_def)
  from echo_env [OF this] show "echo_step ?s (talk q wt b fds (inc(fd := inc fd @ [a])) g se)" by (simp add: talk_def)
qed

text \<open>
  The shared buffer leaks what one client says to another. Two clients are connected, one says
  \<open>hello\<close> and the other \<open>X\<close>, and both are read before the first is answered: it is sent \<open>Xello\<close>.
\<close>

theorem echo_mixes_clients:
  "\<exists>s. reach echo_init echo_step s \<and> got (echo_net s) 4 = ''hello'' \<and> sent (echo_net s) 4 = ''Xello''"
proof -
  let ?inc = "(nothing(4 := [Got ''hello'']))(5 := [Got ''X''])"
  let ?in = "[3 \<mapsto> EPOLLIN, 4 \<mapsto> EPOLLIN, 5 \<mapsto> EPOLLIN]" and ?out = "[3 \<mapsto> EPOLLIN, 4 \<mapsto> EPOLLOUT, 5 \<mapsto> EPOLLOUT]"
  let ?g = "(nothing(4 := ''hello''))(5 := ''X'')" and ?fds = "[5, 4, 3, 2, 1, 0]"
  let ?b = "''Xello'' @ replicate (Suc 1018) NUL"
  have "reach echo_init echo_step (talk [] ?in (replicate MAXSIZE NUL) ?fds ?inc nothing nothing)"
    using talk_arrive [OF talk_arrive [OF talk_connected, of 4 "Got ''hello''"], of 5 "Got ''X''"] by simp
  then have "reach echo_init echo_step (talk [] ?out ?b ?fds nothing ?g nothing)"
  proof (rule talk_step [where evs = "[(4, True, False), (5, True, False)]"])
    show "reported [(4, True, False), (5, True, False)] (talk [] ?in (replicate MAXSIZE NUL) ?fds ?inc nothing nothing)"
      by (simp add: reported_def talk_def readable_def)
    have upd: "((nothing(4 := x))(5 := y))(4 := []) = nothing(5 := y)" "(nothing(5 := y))(5 := []) = nothing" for x y :: "answer list"
      by auto
    show "handle_events [(4, True, False), (5, True, False)] (talk [] ?in (replicate MAXSIZE NUL) ?fds ?inc nothing nothing)
        = Next (talk [] ?out ?b ?fds nothing ?g nothing)"
      by (simp add: talk_def handle_event_def echo_read_def sys_read_def MAXSIZE_def receive_def modify_event_def Let_def upd
          replicate_Suc [symmetric] del: replicate_Suc)
  qed
  moreover have "reported [(4, False, True)] (talk [] ?out ?b ?fds nothing ?g nothing)" by (simp add: reported_def talk_def)
  moreover have "handle_events [(4, False, True)] (talk [] ?out ?b ?fds nothing ?g nothing) =
      Next (talk [] ([3 \<mapsto> EPOLLIN, 4 \<mapsto> EPOLLIN, 5 \<mapsto> EPOLLOUT]) (replicate MAXSIZE NUL) ?fds nothing ?g (nothing(4 := ''Xello'')))"
    using takeWhile_chunk [of "''Xello''" 1018]
    by (auto simp: talk_def handle_event_def echo_write_def sys_write_def transmit_def modify_event_def)
  ultimately have "reach echo_init echo_step
      (talk [] ([3 \<mapsto> EPOLLIN, 4 \<mapsto> EPOLLIN, 5 \<mapsto> EPOLLOUT]) (replicate MAXSIZE NUL) ?fds nothing ?g (nothing(4 := ''Xello'')))"
    by (rule talk_step)
  then show ?thesis by (intro exI conjI) (assumption, simp_all add: talk_def)
qed

end
