(* ===== verification/Net_Demos.thy ===== *)
theory Net_Demos
  imports Slot_Scan
begin

text \<open>
  Two small servers: the echo server on \<open>poll\<close> under \<^verbatim>\<open>src/Linux_Net/03.*/server.cpp\<close> and the server on
  \<open>select\<close> under \<^verbatim>\<open>src/Linux_Net/02.*/server.cpp\<close>.
\<close>

section \<open>The echo server on poll\<close>

definition D_OPEN_MAX :: nat where
  "D_OPEN_MAX = 3"

definition D_MAXLINE :: nat where
  "D_MAXLINE = 1024"

record pdemo =
  clientfds :: "int list"
  drevents :: "nat \<Rightarrow> bool option"
  dmaxi :: nat
  dlisten :: int
  dnet :: net

definition do_poll_start :: "int \<Rightarrow> net \<Rightarrow> pdemo" where
  "do_poll_start lfd w =
     \<lparr>clientfds = lfd # replicate (D_OPEN_MAX - 1) (- 1), drevents = (\<lambda>_. None), dmaxi = 0, dlisten = lfd, dnet = w\<rparr>"

definition demo_ready :: "pdemo \<Rightarrow> nat \<Rightarrow> bool" where
  "demo_ready s i \<longleftrightarrow>
     0 \<le> clientfds s ! i \<and> (if i = 0 then acceptable (dnet s) else readable (dnet s) (clientfds s ! i))"

text \<open>
  Accepting. The condition \<open>connfd = accept(...) == -1\<close> assigns the result of the comparison: \<open>connfd\<close> is
  0 for every connection, and the descriptor that \<open>accept\<close> returned is lost.
\<close>

definition demo_accept :: "int \<Rightarrow> pdemo \<Rightarrow> (bool \<times> pdemo) outcome" where
  "demo_accept nready s =
     (case sys_accept (dnet s) of
        None \<Rightarrow> Blocks
      | Some (Inl e, w) \<Rightarrow> if e = EINTR then Next (False, s\<lparr>dnet := w\<rparr>) else Exits
      | Some (Inr newfd, w) \<Rightarrow>
          (let connfd = 0; i = Suc (first_slot (tl (clientfds s))) in
           if i = D_OPEN_MAX then Exits
           else Next (nready - 1 > 0,
                  s\<lparr>clientfds := (clientfds s)[i := connfd], dnet := w, dmaxi := (if i > dmaxi s then i else dmaxi s)\<rparr>)))"

text \<open>One client. A failed \<open>read\<close> returns \<open>-1\<close>, which is then the length of a \<open>write\<close>: \<open>Undefined\<close>.\<close>

definition demo_client :: "nat \<Rightarrow> pdemo \<Rightarrow> pdemo outcome" where
  "demo_client i s =
     (let fd = clientfds s ! i in
      case sys_read D_MAXLINE fd (dnet s) of
        None \<Rightarrow> Blocks
      | Some (Err e, w) \<Rightarrow> Undefined
      | Some (Got str, w) \<Rightarrow>
          if str = [] then Next (s\<lparr>dnet := sys_Close fd w, clientfds := (clientfds s)[i := - 1]\<rparr>)
          else Next (s\<lparr>dnet := snd (sys_write fd str (snd (sys_write 1 str w)))\<rparr>))"

fun demo_clients :: "nat list \<Rightarrow> pdemo \<Rightarrow> pdemo outcome" where
  "demo_clients [] s = Next s"
| "demo_clients (i # is) s =
     (if clientfds s ! i < 0 then demo_clients is s
      else (case drevents s i of
              None \<Rightarrow> Undefined
            | Some False \<Rightarrow> demo_clients is s
            | Some True \<Rightarrow> (case demo_client i s of Next s' \<Rightarrow> demo_clients is s' | r \<Rightarrow> r)))"

definition do_poll_round :: "bool \<Rightarrow> pdemo \<Rightarrow> pdemo outcome" where
  "do_poll_round err s =
     (let nready = int (length (filter (demo_ready s) [0..<dmaxi s + 1]));
          s = s\<lparr>drevents := (\<lambda>i. if i \<le> dmaxi s then Some (demo_ready s i) else drevents s i)\<rparr>
      in if err then Exits
         else if nready = 0 then Blocks
         else if drevents s 0 = Some True
         then (case demo_accept nready s of
                 Next (go_on, s') \<Rightarrow> if go_on then demo_clients [1..<dmaxi s' + 1] s' else Next s'
               | Exits \<Rightarrow> Exits | Blocks \<Rightarrow> Blocks | Undefined \<Rightarrow> Undefined)
         else demo_clients [1..<dmaxi s + 1] s)"

inductive pdemo_step :: "pdemo \<Rightarrow> pdemo \<Rightarrow> bool" where
  pdemo_env: "net_env (\<lambda>_. True) (dnet s) w \<Longrightarrow> pdemo_step s (s\<lparr>dnet := w\<rparr>)"
| pdemo_loop: "do_poll_round err s = Next s' \<Longrightarrow> pdemo_step s s'"

definition pdemo_init :: "pdemo \<Rightarrow> bool" where
  "pdemo_init s \<longleftrightarrow> (\<exists>lfd w. s = do_poll_start lfd w \<and> 3 \<le> lfd \<and> open_fds w = [lfd, 2, 1, 0] \<and> got w = (\<lambda>_. []) \<and> sent w = (\<lambda>_. []))"

definition pdemo_ok :: "pdemo \<Rightarrow> bool" where
  "pdemo_ok s \<longleftrightarrow>
     length (clientfds s) = D_OPEN_MAX \<and> set (tl (clientfds s)) \<subseteq> {- 1, 0} \<and> dmaxi s < D_OPEN_MAX
     \<and> (\<forall>fd. fd \<notin> {0, 1} \<longrightarrow> got (dnet s) fd = [] \<and> sent (dnet s) fd = [])"

lemma tl_update: "0 < i \<Longrightarrow> set (tl (xs[i := x])) \<subseteq> insert x (set (tl xs))"
  by (cases xs; cases i) (auto dest: set_update_subset_insert [THEN subsetD])

lemma sys_write_others: "fd \<noteq> fd' \<Longrightarrow> sent (snd (sys_write fd s w)) fd' = sent w fd'" "got (snd (sys_write fd s w)) = got w"
  by (auto simp: sys_write_def split: wanswer.split prod.split)

lemma demo_client_ok:
  assumes ok: "pdemo_ok s" and i: "0 < i" "i < D_OPEN_MAX" "0 \<le> clientfds s ! i" and c: "demo_client i s = Next s'"
  shows "pdemo_ok s' \<and> dmaxi s' = dmaxi s"
proof -
  have "clientfds s ! i \<in> set (tl (clientfds s))"
    using ok i by (cases "clientfds s"; cases i) (auto simp: pdemo_ok_def)
  then have zero: "clientfds s ! i = 0" using ok i(3) by (auto simp: pdemo_ok_def)
  obtain a rest where r: "read_call D_MAXLINE (incoming (dnet s) 0) = Some (a, rest)"
    using c zero by (auto simp: demo_client_def sys_read_def split: option.splits)
  let ?w = "receive 0 a rest (dnet s)"
  show ?thesis
  proof (cases a)
    case (Err e)
    then show ?thesis using c zero r by (simp add: demo_client_def sys_read_def)
  next
    case (Got str)
    show ?thesis
    proof (cases "str = []")
      case True
      then have "s' = s\<lparr>dnet := sys_Close 0 ?w, clientfds := (clientfds s)[i := - 1]\<rparr>"
        using c zero r Got by (simp add: demo_client_def sys_read_def)
      then show ?thesis using ok tl_update [OF i(1), of "clientfds s" "- 1"] Got True by (auto simp: pdemo_ok_def)
    next
      case False
      then have "s' = s\<lparr>dnet := snd (sys_write 0 str (snd (sys_write 1 str ?w)))\<rparr>"
        using c zero r Got by (simp add: demo_client_def sys_read_def)
      then show ?thesis using ok Got by (auto simp: pdemo_ok_def sys_write_others)
    qed
  qed
qed

lemma demo_clients_ok:
  "pdemo_ok s \<Longrightarrow> set is \<subseteq> {0<..<D_OPEN_MAX} \<Longrightarrow> demo_clients is s = Next s' \<Longrightarrow> pdemo_ok s'"
proof (induction "is" arbitrary: s)
  case (Cons i "is")
  show ?case
  proof (cases "0 \<le> clientfds s ! i \<and> drevents s i = Some True")
    case True
    then obtain t where t: "demo_client i s = Next t" "demo_clients is t = Next s'"
      using Cons.prems(3) by (auto split: outcome.splits)
    have "pdemo_ok t" using demo_client_ok [OF Cons.prems(1) _ _ _ t(1)] True Cons.prems(2) by auto
    then show ?thesis using Cons.IH [of t] t Cons.prems(2) by auto
  next
    case False
    then show ?thesis using Cons by (auto split: option.splits bool.splits if_splits)
  qed
qed simp

lemma demo_accept_ok:
  assumes ok: "pdemo_ok s" and acc: "demo_accept n s = Next (b, s')"
  shows "pdemo_ok s'"
proof -
  have admitted: "\<forall>fd. fd \<notin> {0, 1} \<longrightarrow> got (snd (admit w)) fd = [] \<and> sent (snd (admit w)) fd = []"
    if "\<forall>fd. fd \<notin> {0, 1} \<longrightarrow> got w fd = [] \<and> sent w fd = []" for w
    using that by simp
  show ?thesis
  proof (cases "\<exists>q. listen_queue (dnet s) = Conn # q")
    case True
    then obtain q where q: "listen_queue (dnet s) = Conn # q" by blast
    let ?i = "Suc (first_slot (tl (clientfds s)))" and ?w = "snd (admit ((dnet s)\<lparr>listen_queue := q\<rparr>))"
    have s': "s' = s\<lparr>clientfds := (clientfds s)[?i := 0], dnet := ?w, dmaxi := (if ?i > dmaxi s then ?i else dmaxi s)\<rparr>"
      and ne: "?i \<noteq> D_OPEN_MAX"
      using acc q by (auto simp: demo_accept_def Let_def admit_def split: if_splits)
    have "?i < D_OPEN_MAX" using ne first_slot_le [of "tl (clientfds s)"] ok by (simp add: pdemo_ok_def D_OPEN_MAX_def)
    then show ?thesis
      using ok s' tl_update [of ?i "clientfds s" 0] admitted [of "(dnet s)\<lparr>listen_queue := q\<rparr>"]
      by (auto simp: pdemo_ok_def)
  next
    case False
    then show ?thesis
      using ok acc by (auto simp: demo_accept_def pdemo_ok_def split: list.splits accept_answer.splits if_splits)
  qed
qed

interpretation poll_demo: invariant_system pdemo_init pdemo_step pdemo_ok
proof
  fix s assume "pdemo_init s"
  then show "pdemo_ok s" by (auto simp: pdemo_init_def pdemo_ok_def do_poll_start_def D_OPEN_MAX_def)
next
  fix s t assume ok: "pdemo_ok s" and "pdemo_step s t"
  from this(2) show "pdemo_ok t"
  proof cases
    case (pdemo_env w)
    then show ?thesis using ok net_env_keeps [OF pdemo_env(2)] by (auto simp: pdemo_ok_def)
  next
    case (pdemo_loop err)
    let ?s = "s\<lparr>drevents := (\<lambda>i. if i \<le> dmaxi s then Some (demo_ready s i) else drevents s i)\<rparr>"
    have oks: "pdemo_ok ?s" using ok by (simp add: pdemo_ok_def)
    have scan: "pdemo_ok v" if "pdemo_ok u" "demo_clients [1..<dmaxi u + 1] u = Next v" for u v
      using that by (intro demo_clients_ok [OF that(1) _ that(2)]) (auto simp: pdemo_ok_def)
    show ?thesis
    proof (cases "demo_ready s 0")
      case True
      then obtain go u where u: "demo_accept (int (length (filter (demo_ready s) [0..<dmaxi s + 1]))) ?s = Next (go, u)"
          "(if go then demo_clients [1..<dmaxi u + 1] u else Next u) = Next t"
        using pdemo_loop by (auto simp: do_poll_round_def Let_def simp del: upt_Suc split: outcome.splits if_splits)
      then show ?thesis using demo_accept_ok [OF oks u(1)] scan [of u t] by (cases go) auto
    next
      case False
      then show ?thesis using pdemo_loop scan [OF oks] by (auto simp: do_poll_round_def Let_def simp del: upt_Suc split: if_splits)
    qed
  qed
qed

text \<open>
  The \<open>poll\<close> echo server never serves a client: in every run nothing is ever read from and nothing
  is ever written to any descriptor except the standard input and output, 0 and 1. What it echoes is
  the standard input.
\<close>

theorem poll_demo_echoes_stdin:
  assumes "reach pdemo_init pdemo_step s" "fd \<noteq> 0" "fd \<noteq> 1"
  shows "got (dnet s) fd = [] \<and> sent (dnet s) fd = []"
  using poll_demo.invariant [OF assms(1)] assms(2,3) by (simp add: pdemo_ok_def)

definition idle_net :: net where
  "idle_net = \<lparr>listen_queue = [Conn], incoming = (\<lambda>_. []), outgoing = (\<lambda>_. []), open_fds = [3, 2, 1, 0],
     got = (\<lambda>_. []), sent = (\<lambda>_. [])\<rparr>"

theorem poll_demo_echoes_stdin_witness:
  "sent (dnet (do_poll_start 3 idle_net)) 4 = []"
proof -
  have "pdemo_init (do_poll_start 3 idle_net)"
    unfolding pdemo_init_def by (intro exI conjI) (auto simp: idle_net_def)
  then have "reach pdemo_init pdemo_step (do_poll_start 3 idle_net)" by (rule reach.reach_init)
  from poll_demo_echoes_stdin [OF this, of 4] show ?thesis by simp
qed

section \<open>The server on select\<close>

record sdemo =
  client_sockfd :: "int list"
  conn_amount :: nat
  maxsock :: int
  server_fd :: int
  sdnet :: net

definition S_MAX :: nat where
  "S_MAX = 5"

definition greeting :: string where
  "greeting = ''this is server,welcome!'' @ [CHR 0x0A] @ replicate 1000 (CHR 0x00)"

definition sdemo_start :: "int \<Rightarrow> net \<Rightarrow> sdemo" where
  "sdemo_start fd w = \<lparr>client_sockfd = replicate S_MAX 0, conn_amount = 0, maxsock = fd, server_fd = fd, sdnet = w\<rparr>"

text \<open>Only clients below \<open>conn_amount\<close> are looked at; what is received is printed.\<close>

fun sdemo_clients :: "int set \<Rightarrow> nat list \<Rightarrow> sdemo \<Rightarrow> sdemo outcome" where
  "sdemo_clients rset [] s = Next s"
| "sdemo_clients rset (i # is) s =
     (let fd = client_sockfd s ! i in
      if fd \<in> rset
      then (case sys_read 1024 fd (sdnet s) of
              None \<Rightarrow> Blocks
            | Some (Err e, w) \<Rightarrow>
                sdemo_clients (rset - {fd}) is (s\<lparr>sdnet := sys_Close fd w, client_sockfd := (client_sockfd s)[i := 0]\<rparr>)
            | Some (Got str, w) \<Rightarrow>
                if str = []
                then sdemo_clients (rset - {fd}) is (s\<lparr>sdnet := sys_Close fd w, client_sockfd := (client_sockfd s)[i := 0]\<rparr>)
                else sdemo_clients rset is (s\<lparr>sdnet := w\<rparr>))
      else sdemo_clients rset is s)"

text \<open>
  A new connection is greeted and then read from, which blocks until the client says something. When
  five connections have been made, a new one is accepted and forgotten.
\<close>

definition sdemo_accept :: "sdemo \<Rightarrow> sdemo outcome" where
  "sdemo_accept s =
     (case sys_accept (sdnet s) of
        None \<Rightarrow> Blocks
      | Some (Inl e, w) \<Rightarrow> Next (s\<lparr>sdnet := w\<rparr>)
      | Some (Inr sock_client, w) \<Rightarrow>
          if conn_amount s < S_MAX
          then
            (let w = snd (sys_write sock_client greeting w) in
             case sys_read 1024 sock_client w of
               None \<Rightarrow> Blocks
             | Some (Err e, w) \<Rightarrow> Exits
             | Some (Got str, w) \<Rightarrow>
                 Next (s\<lparr>client_sockfd := (client_sockfd s)[conn_amount s := sock_client], conn_amount := conn_amount s + 1,
                         maxsock := (if sock_client > maxsock s then sock_client else maxsock s), sdnet := w\<rparr>))
          else Next (s\<lparr>sdnet := w\<rparr>))"

definition sdemo_ready :: "sdemo \<Rightarrow> int set" where
  "sdemo_ready s =
     Set.filter (\<lambda>fd. fd \<le> maxsock s \<and> (if fd = server_fd s then acceptable (sdnet s) else readable (sdnet s) fd))
       (insert (server_fd s) (set (client_sockfd s) - {0}))"

definition sdemo_round :: "bool \<Rightarrow> sdemo \<Rightarrow> sdemo outcome" where
  "sdemo_round err s =
     (let rset = sdemo_ready s in
      if err then Exits
      else if rset = {} then Next s
      else (case sdemo_clients rset [0..<conn_amount s] s of
              Next s' \<Rightarrow> if server_fd s \<in> rset then sdemo_accept s' else Next s'
            | r \<Rightarrow> r))"

inductive sdemo_step :: "sdemo \<Rightarrow> sdemo \<Rightarrow> bool" where
  sdemo_env: "net_env (\<lambda>_. True) (sdnet s) w \<Longrightarrow> sdemo_step s (s\<lparr>sdnet := w\<rparr>)"
| sdemo_loop: "sdemo_round err s = Next s' \<Longrightarrow> sdemo_step s s'"

definition sdemo_init :: "sdemo \<Rightarrow> bool" where
  "sdemo_init s \<longleftrightarrow> (\<exists>fd w. s = sdemo_start fd w \<and> 3 \<le> fd \<and> open_fds w = [fd, 2, 1, 0])"

lemma sdemo_clients_shrink:
  "sdemo_clients rset is s = Next s' \<Longrightarrow>
   conn_amount s' = conn_amount s \<and> set (client_sockfd s') \<subseteq> insert 0 (set (client_sockfd s))"
proof (induction rset "is" s rule: sdemo_clients.induct)
  case (2 rset i "is" s)
  have upd: "set ((client_sockfd s)[i := 0]) \<subseteq> insert 0 (set (client_sockfd s))" by (rule set_update_subset_insert)
  show ?case
  proof (cases "client_sockfd s ! i \<in> rset")
    case True
    then obtain a w where r: "sys_read 1024 (client_sockfd s ! i) (sdnet s) = Some (a, w)"
      using "2.prems" by (auto simp: Let_def split: option.splits)
    show ?thesis
    proof (cases a)
      case (Got str)
      then show ?thesis using 2 True r upd by (cases "str = []") (fastforce simp: Let_def)+
    next
      case (Err e)
      then show ?thesis using 2 True r upd by (fastforce simp: Let_def)
    qed
  qed (use 2 in \<open>auto simp: Let_def\<close>)
qed auto

text \<open>The system from a state \<open>s0\<close> on.\<close>

definition sdemo_full :: "sdemo \<Rightarrow> sdemo \<Rightarrow> bool" where
  "sdemo_full s0 s \<longleftrightarrow> conn_amount s = S_MAX \<and> set (client_sockfd s) \<subseteq> insert 0 (set (client_sockfd s0))"

lemma sdemo_accept_amount:
  "sdemo_accept s = Next s' \<Longrightarrow>
   (conn_amount s < S_MAX \<and> conn_amount s' \<le> conn_amount s + 1)
   \<or> conn_amount s' = conn_amount s \<and> client_sockfd s' = client_sockfd s"
  by (auto simp: sdemo_accept_def Let_def split: list.splits accept_answer.splits option.splits prod.splits answer.splits if_splits)

lemma sdemo_round_cases:
  assumes "sdemo_round err s = Next s'"
  shows "s' = s \<or> (\<exists>t. sdemo_clients (sdemo_ready s) [0..<conn_amount s] s = Next t \<and> (s' = t \<or> sdemo_accept t = Next s'))"
  using assms by (auto simp: sdemo_round_def Let_def split: if_splits outcome.splits)

lemma sdemo_round_full: "sdemo_full s0 s \<Longrightarrow> sdemo_step s s' \<Longrightarrow> sdemo_full s0 s'"
proof (erule sdemo_step.cases)
  fix err u v assume s: "sdemo_full s0 s" "s = u" "s' = v" and "sdemo_round err u = Next v"
  from sdemo_round_cases [OF this(4)] show "sdemo_full s0 s'"
  proof
    assume "\<exists>t. sdemo_clients (sdemo_ready u) [0..<conn_amount u] u = Next t \<and> (v = t \<or> sdemo_accept t = Next v)"
    then obtain t where t: "sdemo_clients (sdemo_ready u) [0..<conn_amount u] u = Next t" "v = t \<or> sdemo_accept t = Next v" by blast
    have "sdemo_full s0 t" using sdemo_clients_shrink [OF t(1)] s by (auto simp: sdemo_full_def)
    then show ?thesis using t(2) sdemo_accept_amount [of t v] s by (auto simp: sdemo_full_def)
  qed (use s in simp)
qed (simp add: sdemo_full_def)

interpretation sdemo: invariant_system sdemo_init sdemo_step "\<lambda>s. conn_amount s \<le> S_MAX"
proof
  fix s t assume "conn_amount s \<le> S_MAX" "sdemo_step s t"
  from this(2,1) show "conn_amount t \<le> S_MAX"
  proof cases
    case (sdemo_loop err)
    with \<open>conn_amount s \<le> S_MAX\<close> show ?thesis
      using sdemo_round_cases [of err s t] by (auto dest!: sdemo_clients_shrink sdemo_accept_amount)
  qed simp
qed (auto simp: sdemo_init_def sdemo_start_def)

interpretation sdemo_full: invariant_system "\<lambda>s. s = s0 \<and> conn_amount s0 = S_MAX" sdemo_step "sdemo_full s0" for s0
proof (unfold_locales, goal_cases)
  case (2 s t)
  then show ?case by (rule sdemo_round_full)
qed (auto simp: sdemo_full_def)

text \<open>
  The counter of connections never goes down: the \<open>select\<close> server serves five clients in its life.
  Once five connections have been made no new one gets into the table, even when all five have left,
  although new connections are still accepted.
\<close>

theorem select_demo_five_clients:
  assumes "reach sdemo_init sdemo_step s" "steps sdemo_step s t"
  shows "conn_amount s \<le> S_MAX
    \<and> (conn_amount s = S_MAX \<longrightarrow> conn_amount t = S_MAX \<and> set (client_sockfd t) \<subseteq> insert 0 (set (client_sockfd s)))"
  using sdemo.invariant [OF assms(1)] sdemo_full.invariant_steps [OF assms(2), of s] by (auto simp: sdemo_full_def)

theorem select_demo_five_clients_witness:
  "conn_amount (sdemo_start 3 idle_net) \<le> S_MAX"
proof -
  have "sdemo_init (sdemo_start 3 idle_net)" unfolding sdemo_init_def by (intro exI conjI) (auto simp: idle_net_def)
  then have "reach sdemo_init sdemo_step (sdemo_start 3 idle_net)" by (rule reach.reach_init)
  from select_demo_five_clients [OF this steps.steps_refl] show ?thesis by blast
qed

end
