(* ===== verification/Reactor.thy ===== *)
theory Reactor
  imports Net_Kernel
begin

text \<open>
  The reactor of \<^verbatim>\<open>src/Linux_Net/Reactor/02_epoll_loop.c\<close> (and its copy \<^verbatim>\<open>4-epoll_loop*.cpp\<close>): each entry of
  \<open>g_events\<close> stands for a descriptor, with a callback that changes as the connection turns from reading to
  writing. \<open>tree\<close> is the kernel's set behind \<open>g_efd\<close>: for each descriptor what it is watched for and the
  entry registered with it. All sockets are non-blocking.
\<close>

definition MAX_EVENTS :: nat where
  "MAX_EVENTS = 1024"

definition BUFLEN :: nat where
  "BUFLEN = 4096"

datatype callback = Acceptconn | Recvdata | Senddata

text \<open>The members of \<open>myevent_s\<close>; \<open>arg\<close> always points to the entry itself.\<close>

record myevent_s =
  ev_fd :: int
  ev_events :: "epoll_flag option"
  call_back :: callback
  status :: bool
  ev_buf :: string
  ev_len :: nat
  last_active :: int

record reactor =
  g_events :: "nat \<Rightarrow> myevent_s"
  tree :: "int \<Rightarrow> (epoll_flag \<times> nat) option"
  checkpos :: nat
  rnet :: net

definition upd_event :: "nat \<Rightarrow> (myevent_s \<Rightarrow> myevent_s) \<Rightarrow> reactor \<Rightarrow> reactor" where
  "upd_event i f s = s\<lparr>g_events := (g_events s)(i := f (g_events s i))\<rparr>"

definition eventset :: "nat \<Rightarrow> int \<Rightarrow> callback \<Rightarrow> int \<Rightarrow> reactor \<Rightarrow> reactor" where
  "eventset i fd cb now s =
     upd_event i (\<lambda>ev. ev\<lparr>ev_fd := fd, call_back := cb, ev_events := None, status := False, last_active := now\<rparr>) s"

text \<open>\<open>epoll_ctl\<close> fails, without further consequences, when asked to add a descriptor that is there or to change one that is not.\<close>

definition eventadd :: "epoll_flag \<Rightarrow> nat \<Rightarrow> reactor \<Rightarrow> reactor" where
  "eventadd fl i s =
     (let fd = ev_fd (g_events s i); on_tree = status (g_events s i);
          s = upd_event i (\<lambda>ev. ev\<lparr>ev_events := Some fl, status := True\<rparr>) s
      in if on_tree = (tree s fd \<noteq> None) then s\<lparr>tree := (tree s)(fd \<mapsto> (fl, i))\<rparr> else s)"

definition eventdel :: "nat \<Rightarrow> reactor \<Rightarrow> reactor" where
  "eventdel i s =
     (if \<not> status (g_events s i) then s
      else (upd_event i (\<lambda>ev. ev\<lparr>status := False\<rparr>) s)\<lparr>tree := (tree s)(ev_fd (g_events s i) := None)\<rparr>)"

text \<open>Closing a descriptor takes it out of the set as well.\<close>

definition r_close :: "int \<Rightarrow> reactor \<Rightarrow> reactor" where
  "r_close fd s = s\<lparr>rnet := sys_Close fd (rnet s), tree := (tree s)(fd := None)\<rparr>"

text \<open>
  The callbacks. When there is no free entry, or the descriptor cannot be made non-blocking, \<open>acceptconn\<close>
  forgets the new connection without closing it.
\<close>

fun free_entry :: "reactor \<Rightarrow> nat list \<Rightarrow> nat" where
  "free_entry s [] = MAX_EVENTS"
| "free_entry s (i # is) = (if \<not> status (g_events s i) then i else free_entry s is)"

definition acceptconn :: "int \<Rightarrow> bool \<Rightarrow> reactor \<Rightarrow> reactor outcome" where
  "acceptconn now fcntl_ok s =
     (case sys_accept (rnet s) of
        None \<Rightarrow> Next s
      | Some (Inl e, w) \<Rightarrow> Next (s\<lparr>rnet := w\<rparr>)
      | Some (Inr cfd, w) \<Rightarrow>
          (let s = s\<lparr>rnet := w\<rparr>; i = free_entry s [0..<MAX_EVENTS] in
           if i = MAX_EVENTS \<or> \<not> fcntl_ok then Next s
           else Next (eventadd EPOLLIN i (eventset i cfd Recvdata now s))))"

text \<open>A chunk that fills the buffer makes \<open>buf[len] = 0\<close> write behind the end of the buffer: \<open>Undefined\<close>.\<close>

definition recvdata :: "int \<Rightarrow> nat \<Rightarrow> reactor \<Rightarrow> reactor outcome" where
  "recvdata now i s =
     (let fd = ev_fd (g_events s i) in
      case sys_read BUFLEN fd (rnet s) of
        None \<Rightarrow> Next (r_close fd (eventdel i s))
      | Some (Err e, w) \<Rightarrow> Next (r_close fd (eventdel i (s\<lparr>rnet := w\<rparr>)))
      | Some (Got str, w) \<Rightarrow>
          (let s = eventdel i (s\<lparr>rnet := w\<rparr>) in
           if str = [] then Next (r_close fd s)
           else if length str \<ge> BUFLEN then Undefined
           else Next (eventadd EPOLLOUT i (eventset i fd Senddata now
                       (upd_event i (\<lambda>ev. ev\<lparr>ev_len := length str, ev_buf := str @ drop (length str) (ev_buf ev)\<rparr>) s)))))"

definition senddata :: "int \<Rightarrow> nat \<Rightarrow> reactor \<Rightarrow> reactor outcome" where
  "senddata now i s =
     (let ev = g_events s i; fd = ev_fd ev in
      case sys_write fd (take (ev_len ev) (ev_buf ev)) (rnet s) of
        (Takes k, w) \<Rightarrow>
          if k > 0 then Next (eventadd EPOLLIN i (eventset i fd Recvdata now (eventdel i (s\<lparr>rnet := w\<rparr>))))
          else Next (eventdel i (r_close fd (s\<lparr>rnet := w\<rparr>)))
      | (WErr e, w) \<Rightarrow> Next (eventdel i (r_close fd (s\<lparr>rnet := w\<rparr>))))"

definition run_callback :: "int \<Rightarrow> bool \<Rightarrow> nat \<Rightarrow> reactor \<Rightarrow> reactor outcome" where
  "run_callback now fcntl_ok i s =
     (case call_back (g_events s i) of
        Acceptconn \<Rightarrow> acceptconn now fcntl_ok s
      | Recvdata \<Rightarrow> recvdata now i s
      | Senddata \<Rightarrow> senddata now i s)"

definition initlistensocket :: "int \<Rightarrow> int \<Rightarrow> reactor \<Rightarrow> reactor" where
  "initlistensocket lfd now s = eventadd EPOLLIN MAX_EVENTS (eventset MAX_EVENTS lfd Acceptconn now s)"

text \<open>The sweep for idle connections: a hundred entries each time, going round.\<close>

definition check_entry :: "int \<Rightarrow> reactor \<Rightarrow> reactor" where
  "check_entry now s =
     (let s = (if checkpos s = MAX_EVENTS then s\<lparr>checkpos := 0\<rparr> else s); ev = g_events s (checkpos s) in
      if \<not> status ev then s
      else if now - last_active ev \<ge> 60 then eventdel (checkpos s) (r_close (ev_fd ev) s)
      else s)"

fun sweep :: "nat \<Rightarrow> int \<Rightarrow> reactor \<Rightarrow> reactor" where
  "sweep 0 now s = s"
| "sweep (Suc n) now s = (let s = check_entry now s in sweep n now (s\<lparr>checkpos := checkpos s + 1\<rparr>))"

text \<open>One event of \<open>epoll_wait\<close>: the entry, and whether it is readable and writable.\<close>

definition dispatch :: "int \<Rightarrow> bool \<Rightarrow> nat \<times> bool \<times> bool \<Rightarrow> reactor \<Rightarrow> reactor outcome" where
  "dispatch now fcntl_ok event s =
     (case event of (i, rin, rout) \<Rightarrow>
        (case if rin \<and> ev_events (g_events s i) = Some EPOLLIN then run_callback now fcntl_ok i s else Next s of
           Next s' \<Rightarrow> if rout \<and> ev_events (g_events s' i) = Some EPOLLOUT then run_callback now fcntl_ok i s' else Next s'
         | r \<Rightarrow> r))"

fun dispatch_all :: "int \<Rightarrow> bool \<Rightarrow> (nat \<times> bool \<times> bool) list \<Rightarrow> reactor \<Rightarrow> reactor outcome" where
  "dispatch_all now fcntl_ok [] s = Next s"
| "dispatch_all now fcntl_ok (e # es) s =
     (case dispatch now fcntl_ok e s of Next s' \<Rightarrow> dispatch_all now fcntl_ok es s' | r \<Rightarrow> r)"

text \<open>What \<open>epoll_wait\<close> may report: each registered entry once, for what it is watched for.\<close>

definition reactor_reports :: "(nat \<times> bool \<times> bool) list \<Rightarrow> reactor \<Rightarrow> bool" where
  "reactor_reports es s \<longleftrightarrow>
     distinct (map fst es)
     \<and> list_all (\<lambda>(i, rin, rout). \<exists>fd fl. tree s fd = Some (fl, i) \<and> rin = (fl = EPOLLIN) \<and> rout = (fl = EPOLLOUT)) es"

inductive reactor_step :: "reactor \<Rightarrow> reactor \<Rightarrow> bool" where
  rx_env: "net_env (\<lambda>x. \<exists>e. x = WErr e) (rnet s) w \<Longrightarrow> reactor_step s (s\<lparr>rnet := w\<rparr>)"
| rx_sweep: "reactor_step s (sweep 100 now s)"
| rx_events: "reactor_reports es s \<Longrightarrow> dispatch_all now fcntl_ok es s = Next s' \<Longrightarrow> reactor_step s s'"

definition blank_event :: myevent_s where
  "blank_event = \<lparr>ev_fd = 0, ev_events = None, call_back = Recvdata, status = False, ev_buf = replicate BUFLEN (CHR 0x00),
     ev_len = 0, last_active = 0\<rparr>"

definition reactor_init :: "reactor \<Rightarrow> bool" where
  "reactor_init s \<longleftrightarrow>
     (\<exists>lfd now w. 3 \<le> lfd \<and> open_fds w = [lfd, 2, 1, 0] \<and> writes_in (\<lambda>x. \<exists>e. x = WErr e) w
        \<and> s = initlistensocket lfd now \<lparr>g_events = (\<lambda>_. blank_event), tree = Map.empty, checkpos = 0, rnet = w\<rparr>)"

section \<open>Entries and the kernel's set\<close>

text \<open>
  The conversation behind an entry: nothing is owed to the client while the entry waits for input, and
  what is in the buffer is owed while it waits for output.
\<close>

fun owes :: "callback \<Rightarrow> epoll_flag \<Rightarrow> string \<Rightarrow> string \<Rightarrow> string \<Rightarrow> bool" where
  "owes Recvdata EPOLLIN b g se = (se = g)"
| "owes Senddata EPOLLOUT b g se = (g = se @ b)"
| "owes _ _ _ _ _ = False"

definition entry_fine :: "reactor \<Rightarrow> nat \<Rightarrow> bool" where
  "entry_fine s i \<longleftrightarrow>
     (let ev = g_events s i; fd = ev_fd ev; w = rnet s in
      status ev \<longrightarrow> fd \<in> set (open_fds w) \<and>
        (\<exists>fl. ev_events ev = Some fl \<and> tree s fd = Some (fl, i)
          \<and> (if i = MAX_EVENTS then call_back ev = Acceptconn \<and> fl = EPOLLIN
             else owes (call_back ev) fl (take (ev_len ev) (ev_buf ev)) (got w fd) (sent w fd))))"

definition reactor_ok :: "reactor \<Rightarrow> bool" where
  "reactor_ok s \<longleftrightarrow>
     status (g_events s MAX_EVENTS) \<and> (\<forall>i\<le>MAX_EVENTS. entry_fine s i)
     \<and> (\<forall>fd fl i. tree s fd = Some (fl, i) \<longrightarrow> i \<le> MAX_EVENTS \<and> status (g_events s i) \<and> ev_fd (g_events s i) = fd)
     \<and> writes_in (\<lambda>x. \<exists>e. x = WErr e) (rnet s) \<and> checkpos s \<le> MAX_EVENTS"

lemma reactor_ok_entry:
  assumes "reactor_ok s" "i \<le> MAX_EVENTS" "status (g_events s i)"
  shows "ev_fd (g_events s i) \<in> set (open_fds (rnet s))"
    "\<exists>fl. ev_events (g_events s i) = Some fl \<and> tree s (ev_fd (g_events s i)) = Some (fl, i)"
proof -
  have "entry_fine s i" using assms(1,2) by (simp add: reactor_ok_def)
  then show "ev_fd (g_events s i) \<in> set (open_fds (rnet s))"
    "\<exists>fl. ev_events (g_events s i) = Some fl \<and> tree s (ev_fd (g_events s i)) = Some (fl, i)"
    using assms(3) unfolding entry_fine_def Let_def by blast+
qed

text \<open>The descriptors of two entries in use differ.\<close>

lemma reactor_ok_distinct:
  assumes "reactor_ok s" "i \<le> MAX_EVENTS" "j \<le> MAX_EVENTS" "status (g_events s i)" "status (g_events s j)"
    "ev_fd (g_events s i) = ev_fd (g_events s j)"
  shows "i = j"
proof -
  obtain fl where "tree s (ev_fd (g_events s i)) = Some (fl, i)"
    using reactor_ok_entry(2) [OF assms(1,2,4)] by (elim exE conjE)
  moreover obtain fl' where "tree s (ev_fd (g_events s j)) = Some (fl', j)"
    using reactor_ok_entry(2) [OF assms(1,3,5)] by (elim exE conjE)
  ultimately show ?thesis unfolding assms(6) by (metis option.inject prod.inject)
qed

text \<open>What a step leaves alone: the entries in use other than \<open>i\<close>, and their place in the set.\<close>

definition others_kept :: "nat \<Rightarrow> reactor \<Rightarrow> reactor \<Rightarrow> bool" where
  "others_kept i s t \<longleftrightarrow>
     (\<forall>j\<le>MAX_EVENTS. j \<noteq> i \<and> status (g_events s j) \<longrightarrow>
        g_events t j = g_events s j \<and> tree t (ev_fd (g_events s j)) = tree s (ev_fd (g_events s j)))"

text \<open>Taking an entry out of use, with whatever happens to its own connection.\<close>

lemma release:
  assumes ok: "reactor_ok s" and i: "i < MAX_EVENTS" "status (g_events s i)" "fd = ev_fd (g_events s i)"
    and t: "g_events t = (g_events s)(i := ev')" "\<not> status ev'" "tree t = (tree s)(fd := None)" "checkpos t \<le> MAX_EVENTS"
      "writes_in (\<lambda>x. \<exists>e. x = WErr e) (rnet t)"
    and net: "\<And>x. x \<noteq> fd \<Longrightarrow> got (rnet t) x = got (rnet s) x \<and> sent (rnet t) x = sent (rnet s) x
      \<and> (x \<in> set (open_fds (rnet s)) \<longrightarrow> x \<in> set (open_fds (rnet t)))"
  shows "reactor_ok t" "tree t fd = None" "others_kept i s t"
proof -
  have diff: "ev_fd (g_events s j) \<noteq> fd" if "j \<le> MAX_EVENTS" "j \<noteq> i" "status (g_events s j)" for j
    using reactor_ok_distinct [OF ok, of j i] that i by auto
  have "entry_fine t j" if "j \<le> MAX_EVENTS" for j
  proof (cases "j = i \<or> \<not> status (g_events s j)")
    case True
    then show ?thesis using t(1,2) by (auto simp: entry_fine_def Let_def)
  next
    case False
    have "entry_fine s j" using ok that by (simp add: reactor_ok_def)
    then show ?thesis using False diff [OF that] net t by (auto simp: entry_fine_def Let_def)
  qed
  moreover have "k \<noteq> i" if "tree t x = Some (fl, k)" for x fl k
    using that ok t(3) i(3) by (auto simp: reactor_ok_def split: if_splits)
  ultimately show "reactor_ok t" using ok t i by (auto simp: reactor_ok_def split: if_splits)
  show "tree t fd = None" using t by simp
  show "others_kept i s t" using diff t by (auto simp: others_kept_def)
qed

text \<open>Putting a free entry to use for a descriptor that is not in the set.\<close>

lemma engage:
  assumes ok: "reactor_ok s" and i: "i < MAX_EVENTS" "\<not> status (g_events s i)" and fd: "tree s fd = None" "fd \<in> set (open_fds (rnet s))"
    and owe: "owes cb fl (take (ev_len (g_events s i)) (ev_buf (g_events s i))) (got (rnet s) fd) (sent (rnet s) fd)"
  shows "reactor_ok (eventadd fl i (eventset i fd cb now s))" "others_kept i s (eventadd fl i (eventset i fd cb now s))"
proof -
  let ?t = "eventadd fl i (eventset i fd cb now s)"
  let ?ev = "(g_events s i)\<lparr>ev_fd := fd, call_back := cb, last_active := now, ev_events := Some fl, status := True\<rparr>"
  have t: "g_events ?t = (g_events s)(i := ?ev)" "tree ?t = (tree s)(fd \<mapsto> (fl, i))" "rnet ?t = rnet s" "checkpos ?t = checkpos s"
    using fd by (simp_all add: eventadd_def eventset_def upd_event_def Let_def)
  have diff: "ev_fd (g_events s j) \<noteq> fd" if "j \<le> MAX_EVENTS" "status (g_events s j)" for j
    using reactor_ok_entry(2) [OF ok that] fd(1) by auto
  have "entry_fine ?t j" if "j \<le> MAX_EVENTS" for j
  proof (cases "j = i")
    case True
    then show ?thesis using t i owe fd by (simp add: entry_fine_def Let_def)
  next
    case False
    have "entry_fine s j" using ok that by (simp add: reactor_ok_def)
    then show ?thesis using False diff [OF that] t by (auto simp: entry_fine_def Let_def)
  qed
  moreover have "k \<noteq> i" if "tree s x = Some (fl', k)" for x fl' k
    using that ok i(2) by (auto simp: reactor_ok_def)
  ultimately show "reactor_ok ?t" using ok t i by (auto simp: reactor_ok_def split: if_splits)
  show "others_kept i s ?t" using diff t by (auto simp: others_kept_def)
qed

lemma others_kept_trans:
  assumes "others_kept i s t" "others_kept i t u"
  shows "others_kept i s u"
  using assms unfolding others_kept_def by metis

text \<open>Changes of the network that do not concern the open connections.\<close>

lemma reactor_ok_net:
  assumes ok: "reactor_ok s" and w: "writes_in (\<lambda>x. \<exists>e. x = WErr e) w"
    "\<And>x. x \<in> set (open_fds (rnet s)) \<Longrightarrow> got w x = got (rnet s) x \<and> sent w x = sent (rnet s) x \<and> x \<in> set (open_fds w)"
  shows "reactor_ok (s\<lparr>rnet := w\<rparr>)"
proof -
  have "entry_fine (s\<lparr>rnet := w\<rparr>) j" if "j \<le> MAX_EVENTS" for j
  proof -
    have "entry_fine s j" using ok that by (simp add: reactor_ok_def)
    then show ?thesis using w(2) by (auto simp: entry_fine_def Let_def)
  qed
  then show ?thesis using ok w(1) by (simp add: reactor_ok_def)
qed

lemma eventdel_simps:
  assumes "status (g_events s i)"
  shows "g_events (eventdel i s) = (g_events s)(i := (g_events s i)\<lparr>status := False\<rparr>)"
    "tree (eventdel i s) = (tree s)(ev_fd (g_events s i) := None)"
    "rnet (eventdel i s) = rnet s" "checkpos (eventdel i s) = checkpos s"
  using assms by (simp_all add: eventdel_def upd_event_def)

lemma r_close_simps [simp]:
  "g_events (r_close fd s) = g_events s" "tree (r_close fd s) = (tree s)(fd := None)"
  "rnet (r_close fd s) = sys_Close fd (rnet s)" "checkpos (r_close fd s) = checkpos s"
  by (simp_all add: r_close_def)

lemma writes_in_close [simp]: "writes_in P (sys_Close fd w) = writes_in P w"
  by (simp add: writes_in_def)

lemma writes_in_receive [simp]: "writes_in P (receive fd a rest w) = writes_in P w"
  by (simp add: writes_in_def)

text \<open>Closing a connection: in \<open>recvdata\<close> after the entry was taken out of the set, elsewhere before.\<close>

lemma drop_connection:
  assumes "reactor_ok s" "i < MAX_EVENTS" "status (g_events s i)" "fd = ev_fd (g_events s i)"
    "writes_in (\<lambda>x. \<exists>e. x = WErr e) w" "open_fds w = open_fds (rnet s)"
    "\<And>x. x \<noteq> fd \<Longrightarrow> got w x = got (rnet s) x \<and> sent w x = sent (rnet s) x"
  shows "reactor_ok (r_close fd (eventdel i (s\<lparr>rnet := w\<rparr>))) \<and> others_kept i s (r_close fd (eventdel i (s\<lparr>rnet := w\<rparr>)))"
    and "reactor_ok (eventdel i (r_close fd (s\<lparr>rnet := w\<rparr>))) \<and> others_kept i s (eventdel i (r_close fd (s\<lparr>rnet := w\<rparr>)))"
proof -
  let ?ev = "(g_events s i)\<lparr>status := False\<rparr>"
  have cp: "checkpos s \<le> MAX_EVENTS" using assms(1) by (simp add: reactor_ok_def)
  let ?t = "r_close fd (eventdel i (s\<lparr>rnet := w\<rparr>))" and ?u = "eventdel i (r_close fd (s\<lparr>rnet := w\<rparr>))"
  have t: "g_events ?t = (g_events s)(i := ?ev)" "tree ?t = (tree s)(fd := None)" "rnet ?t = sys_Close fd w" "checkpos ?t = checkpos s"
    using assms(3,4) by (simp_all add: eventdel_simps)
  have u: "g_events ?u = (g_events s)(i := ?ev)" "tree ?u = (tree s)(fd := None)" "rnet ?u = sys_Close fd w" "checkpos ?u = checkpos s"
    using assms(3,4) by (simp_all add: eventdel_simps)
  have fin: "reactor_ok v \<and> others_kept i s v"
    if "g_events v = (g_events s)(i := ?ev)" "tree v = (tree s)(fd := None)" "rnet v = sys_Close fd w" "checkpos v = checkpos s" for v
    using release [OF assms(1-4) that(1) _ that(2)] that(3,4) assms(5-7) cp by simp
  show "reactor_ok ?t \<and> others_kept i s ?t" "reactor_ok ?u \<and> others_kept i s ?u"
    by (rule fin [OF t], rule fin [OF u])
qed

lemma recvdata_ok:
  assumes ok: "reactor_ok s" and i: "i < MAX_EVENTS" "status (g_events s i)" "call_back (g_events s i) = Recvdata"
    and r: "recvdata now i s = Next t"
  shows "reactor_ok t \<and> others_kept i s t"
proof -
  let ?fd = "ev_fd (g_events s i)"
  have wi: "writes_in (\<lambda>x. \<exists>e. x = WErr e) (rnet s)" using ok by (simp add: reactor_ok_def)
  show ?thesis
  proof (cases "read_call BUFLEN (incoming (rnet s) ?fd)")
    case None
    then have "t = r_close ?fd (eventdel i (s\<lparr>rnet := rnet s\<rparr>))" using r by (simp add: recvdata_def sys_read_def)
    then show ?thesis using drop_connection(1) [OF ok i(1,2) refl wi] by simp
  next
    case (Some ar)
    obtain a rest where ar: "ar = (a, rest)" by fastforce
    let ?w = "receive ?fd a rest (rnet s)"
    have other: "got ?w x = got (rnet s) x \<and> sent ?w x = sent (rnet s) x" if "x \<noteq> ?fd" for x
      using that by (cases a) auto
    have wi': "writes_in (\<lambda>x. \<exists>e. x = WErr e) ?w" using wi by simp
    have call: "sys_read BUFLEN ?fd (rnet s) = Some (a, ?w)" using Some ar by (simp add: sys_read_def)
    show ?thesis
    proof (cases "\<exists>str. a = Got str \<and> str \<noteq> []")
      case False
      then have "t = r_close ?fd (eventdel i (s\<lparr>rnet := ?w\<rparr>))" using r call by (cases a) (auto simp: recvdata_def Let_def)
      then show ?thesis using drop_connection(1) [OF ok i(1,2) refl wi' _ other] by simp
    next
      case True
      then obtain str where a: "a = Got str" "str \<noteq> []" by blast
      let ?s = "upd_event i (\<lambda>ev. ev\<lparr>ev_len := length str, ev_buf := str @ drop (length str) (ev_buf ev)\<rparr>) (eventdel i (s\<lparr>rnet := ?w\<rparr>))"
      have t: "t = eventadd EPOLLOUT i (eventset i ?fd Senddata now ?s)"
        using r call a by (auto simp: recvdata_def Let_def split: if_splits)
      have s: "g_events ?s = (g_events s)(i := g_events ?s i)" "\<not> status (g_events ?s i)" "tree ?s = (tree s)(?fd := None)"
          "rnet ?s = ?w" "checkpos ?s = checkpos s" "take (ev_len (g_events ?s i)) (ev_buf (g_events ?s i)) = str"
        using i(2) by (simp_all add: upd_event_def eventdel_simps)
      have cp: "checkpos ?s \<le> MAX_EVENTS" using ok s(5) by (simp add: reactor_ok_def)
      note rel = release [OF ok i(1,2) refl s(1,2,3) cp, unfolded s(4), OF wi']
      have fine: "entry_fine s i" using ok i(1) by (simp add: reactor_ok_def)
      then have eq: "sent (rnet s) ?fd = got (rnet s) ?fd"
        using i by (auto simp: entry_fine_def Let_def elim!: owes.elims)
      have "owes Senddata EPOLLOUT (take (ev_len (g_events ?s i)) (ev_buf (g_events ?s i))) (got (rnet ?s) ?fd) (sent (rnet ?s) ?fd)"
        unfolding s(4,6) using eq a by simp
      moreover have "?fd \<in> set (open_fds (rnet ?s))" unfolding s(4) using reactor_ok_entry(1) [OF ok _ i(2)] i(1) by simp
      ultimately show ?thesis
        using engage [of ?s i ?fd Senddata EPOLLOUT now] rel other i(1) s(2) others_kept_trans unfolding t by auto
    qed
  qed
qed

lemma write_failing:
  assumes "writes_in (\<lambda>x. \<exists>e. x = WErr e) w"
  shows "(\<exists>ws. sys_write fd b w = (Takes (length b), transmit fd b ws w) \<and> writes_in (\<lambda>x. \<exists>e. x = WErr e) (transmit fd b ws w))
    \<or> (\<exists>e ws. sys_write fd b w = (WErr e, transmit fd [] ws w) \<and> writes_in (\<lambda>x. \<exists>e. x = WErr e) (transmit fd [] ws w))"
proof (cases "outgoing w fd")
  case Nil
  then show ?thesis using assms by (auto simp: sys_write_def writes_in_def)
next
  case (Cons x ws)
  then have "x \<in> set (outgoing w fd)" by simp
  then obtain e where "x = WErr e" using assms by (auto simp: writes_in_def)
  moreover have "\<forall>a\<in>set (outgoing w fd). \<exists>e. a = WErr e" using assms by (simp add: writes_in_def)
  then have "\<forall>a\<in>set ws. \<exists>e. a = WErr e" using Cons by simp
  ultimately show ?thesis
    using Cons assms by (intro disjI2 exI [of _ e] exI [of _ ws]) (simp add: sys_write_def writes_in_def)
qed

lemma senddata_ok:
  assumes ok: "reactor_ok s" and i: "i < MAX_EVENTS" "status (g_events s i)" "call_back (g_events s i) = Senddata"
    and r: "senddata now i s = Next t"
  shows "reactor_ok t \<and> others_kept i s t"
proof -
  let ?ev = "g_events s i"
  let ?fd = "ev_fd ?ev" and ?b = "take (ev_len ?ev) (ev_buf ?ev)"
  have fine: "entry_fine s i" using ok i(1) by (simp add: reactor_ok_def)
  then have owe: "got (rnet s) ?fd = sent (rnet s) ?fd @ ?b"
    using i by (auto simp: entry_fine_def Let_def elim!: owes.elims)
  have closing: ?thesis if "t = eventdel i (r_close ?fd (s\<lparr>rnet := transmit ?fd c ws (rnet s)\<rparr>))"
      "writes_in (\<lambda>x. \<exists>e. x = WErr e) (transmit ?fd c ws (rnet s))" for c ws
    unfolding that(1) by (rule drop_connection(2) [OF ok i(1,2) refl that(2)]) simp_all
  from ok have "writes_in (\<lambda>x. \<exists>e. x = WErr e) (rnet s)" by (simp add: reactor_ok_def)
  from write_failing [OF this, of ?fd ?b] show ?thesis
  proof (elim disjE exE conjE)
    fix ws assume w: "sys_write ?fd ?b (rnet s) = (Takes (length ?b), transmit ?fd ?b ws (rnet s))"
      "writes_in (\<lambda>x. \<exists>e. x = WErr e) (transmit ?fd ?b ws (rnet s))"
    show ?thesis
    proof (cases "length ?b > 0")
      case True
      let ?w = "transmit ?fd ?b ws (rnet s)"
      let ?s = "eventdel i (s\<lparr>rnet := ?w\<rparr>)"
      have t: "t = eventadd EPOLLIN i (eventset i ?fd Recvdata now ?s)"
        using r w(1) True by (simp add: senddata_def Let_def)
      have s: "g_events ?s = (g_events s)(i := ?ev\<lparr>status := False\<rparr>)" "tree ?s = (tree s)(?fd := None)" "rnet ?s = ?w" "checkpos ?s = checkpos s"
        using i(2) by (simp_all add: eventdel_simps)
      have cp: "checkpos ?s \<le> MAX_EVENTS" using ok s(4) by (simp add: reactor_ok_def)
      have fd: "?fd \<in> set (open_fds (rnet ?s))" using reactor_ok_entry(1) [OF ok _ i(2)] i(1) s(3) by simp
      have rel: "reactor_ok ?s" "tree ?s ?fd = None" "others_kept i s ?s"
        by (rule release [OF ok i(1,2) refl s(1) _ s(2) cp]; simp add: s(3) w(2))+
      have "owes Recvdata EPOLLIN b (got (rnet ?s) ?fd) (sent (rnet ?s) ?fd)" for b using owe s(3) by simp
      then show ?thesis
        using engage [OF rel(1) i(1) _ rel(2) fd, of Recvdata EPOLLIN now] rel(3) s(1) others_kept_trans unfolding t by auto
    next
      case False
      then have "t = eventdel i (r_close ?fd (s\<lparr>rnet := transmit ?fd ?b ws (rnet s)\<rparr>))"
        using r w(1) by (auto simp: senddata_def Let_def split: if_splits)
      then show ?thesis by (rule closing [OF _ w(2)])
    qed
  next
    fix e ws assume w: "sys_write ?fd ?b (rnet s) = (WErr e, transmit ?fd [] ws (rnet s))"
      "writes_in (\<lambda>x. \<exists>e. x = WErr e) (transmit ?fd [] ws (rnet s))"
    then show ?thesis using closing [OF _ w(2)] r by (simp add: senddata_def Let_def)
  qed
qed

lemma free_entry_free: "free_entry s is \<noteq> MAX_EVENTS \<Longrightarrow> free_entry s is \<in> set is \<and> \<not> status (g_events s (free_entry s is))"
  by (induction "is") auto

lemma acceptconn_ok:
  assumes ok: "reactor_ok s" and a: "acceptconn now fcntl_ok s = Next t"
  shows "reactor_ok t \<and> others_kept i s t"
proof -
  have wi: "writes_in (\<lambda>x. \<exists>e. x = WErr e) (rnet s)" using ok by (simp add: reactor_ok_def)
  have quiet: "reactor_ok (s\<lparr>rnet := (rnet s)\<lparr>listen_queue := q\<rparr>\<rparr>)" for q
    by (rule reactor_ok_net [OF ok]) (use wi in \<open>auto simp: writes_in_def\<close>)
  show ?thesis
  proof (cases "\<exists>q. listen_queue (rnet s) = Conn # q")
    case False
    then have "t = s \<or> (\<exists>q. t = s\<lparr>rnet := (rnet s)\<lparr>listen_queue := q\<rparr>\<rparr>)"
      using a by (auto simp: acceptconn_def split: list.splits accept_answer.splits)
    then show ?thesis using ok quiet by (auto simp: others_kept_def)
  next
    case True
    then obtain q where q: "listen_queue (rnet s) = Conn # q" by blast
    let ?fd = "lowest_free (open_fds (rnet s))" and ?w = "snd (admit ((rnet s)\<lparr>listen_queue := q\<rparr>))"
    let ?s = "s\<lparr>rnet := ?w\<rparr>"
    have fresh: "?fd \<notin> set (open_fds (rnet s))" by (rule lowest_free_fresh)
    have "reactor_ok ?s"
      by (rule reactor_ok_net [OF ok]) (use wi fresh in \<open>auto simp: writes_in_def\<close>)
    moreover have no: "tree ?s ?fd = None"
    proof (rule ccontr)
      assume "tree ?s ?fd \<noteq> None"
      then obtain fl k where "tree s ?fd = Some (fl, k)" by auto
      then have "k \<le> MAX_EVENTS" "status (g_events s k)" "ev_fd (g_events s k) = ?fd" using ok by (auto simp: reactor_ok_def)
      then show False using reactor_ok_entry(1) [OF ok, of k] fresh by simp
    qed
    moreover define k where "k = free_entry ?s [0..<MAX_EVENTS]"
    moreover have "t = ?s \<or> k \<noteq> MAX_EVENTS \<and> t = eventadd EPOLLIN k (eventset k ?fd Recvdata now ?s)"
      using a q by (auto simp: acceptconn_def Let_def admit_def k_def split: if_splits)
    ultimately show ?thesis
    proof (elim disjE conjE)
      assume k: "k \<noteq> MAX_EVENTS" "t = eventadd EPOLLIN k (eventset k ?fd Recvdata now ?s)" and "reactor_ok ?s"
      have free: "k < MAX_EVENTS" "\<not> status (g_events ?s k)"
        using free_entry_free [of ?s "[0..<MAX_EVENTS]"] k(1) unfolding k_def by auto
      have "owes Recvdata EPOLLIN b (got (rnet ?s) ?fd) (sent (rnet ?s) ?fd)" for b by simp
      with engage [OF \<open>reactor_ok ?s\<close> free no, of Recvdata EPOLLIN now]
      have "reactor_ok t" "others_kept k ?s t" unfolding k(2) by simp_all
      then show ?thesis using free(2) by (auto simp: others_kept_def)
    qed (auto simp: others_kept_def)
  qed
qed

text \<open>The sweep.\<close>

lemma check_entry_ok:
  assumes ok: "reactor_ok s"
  shows "reactor_ok (check_entry now s) \<and> checkpos (check_entry now s) < MAX_EVENTS"
proof -
  let ?s = "if checkpos s = MAX_EVENTS then s\<lparr>checkpos := 0\<rparr> else s"
  have "entry_fine (s\<lparr>checkpos := 0\<rparr>) i = entry_fine s i" for i by (simp add: entry_fine_def)
  then have oks: "reactor_ok ?s" and lt: "checkpos ?s < MAX_EVENTS"
    using ok by (auto simp: reactor_ok_def MAX_EVENTS_def)
  show ?thesis
  proof (cases "status (g_events ?s (checkpos ?s)) \<and> now - last_active (g_events ?s (checkpos ?s)) \<ge> 60")
    case True
    let ?fd = "ev_fd (g_events ?s (checkpos ?s))"
    have "writes_in (\<lambda>x. \<exists>e. x = WErr e) (rnet ?s)" using oks by (simp only: reactor_ok_def)
    from drop_connection(2) [OF oks lt _ refl this] True
    have "reactor_ok (eventdel (checkpos ?s) (r_close ?fd ?s))" by (cases "checkpos s = MAX_EVENTS") simp_all
    moreover have "checkpos (eventdel (checkpos ?s) (r_close ?fd ?s)) = checkpos ?s"
      by (simp add: eventdel_def upd_event_def)
    ultimately show ?thesis using True lt unfolding check_entry_def Let_def by simp
  next
    case False
    then have "check_entry now s = ?s" unfolding check_entry_def Let_def by auto
    then show ?thesis using oks lt by simp
  qed
qed

lemma sweep_ok: "reactor_ok s \<Longrightarrow> reactor_ok (sweep n now s)"
proof (induction n arbitrary: s)
  case (Suc n)
  let ?s = "check_entry now s"
  have "reactor_ok ?s" "checkpos ?s < MAX_EVENTS" using check_entry_ok [OF Suc.prems] by auto
  moreover have "entry_fine (?s\<lparr>checkpos := k\<rparr>) i = entry_fine ?s i" for i k by (simp add: entry_fine_def)
  ultimately have "reactor_ok (?s\<lparr>checkpos := checkpos ?s + 1\<rparr>)" by (simp add: reactor_ok_def)
  then show ?case using Suc.IH by (simp add: Let_def)
qed simp

text \<open>A batch of events: serving one leaves the entries of the others as they were reported.\<close>

lemma dispatch_ok:
  assumes ok: "reactor_ok s" and ev: "tree s fd = Some (fl, i)" "dispatch now fcntl_ok (i, fl = EPOLLIN, fl = EPOLLOUT) s = Next t"
  shows "reactor_ok t \<and> others_kept i s t"
proof -
  have i: "i \<le> MAX_EVENTS" "status (g_events s i)" "ev_fd (g_events s i) = fd" using ok ev(1) by (auto simp: reactor_ok_def)
  then have fine: "entry_fine s i" and fl: "ev_events (g_events s i) = Some fl"
    using ok reactor_ok_entry(2) [OF ok i(1,2)] ev(1) by (auto simp: reactor_ok_def)
  then have run: "run_callback now fcntl_ok i s = Next t" using ev(2) by (cases fl) (auto simp: dispatch_def split: outcome.splits)
  show ?thesis
  proof (cases "i = MAX_EVENTS")
    case True
    then have "call_back (g_events s i) = Acceptconn" using fine i by (auto simp: entry_fine_def Let_def)
    then show ?thesis using acceptconn_ok [OF ok] run by (simp add: run_callback_def)
  next
    case False
    then have "i < MAX_EVENTS" using i(1) by simp
    moreover have "call_back (g_events s i) = Recvdata \<or> call_back (g_events s i) = Senddata"
      using fine i False by (auto simp: entry_fine_def Let_def elim!: owes.elims)
    ultimately show ?thesis using recvdata_ok [OF ok] senddata_ok [OF ok] i(2) run by (auto simp: run_callback_def)
  qed
qed

lemma dispatch_all_ok:
  "reactor_ok s \<Longrightarrow> reactor_reports es s \<Longrightarrow> dispatch_all now fcntl_ok es s = Next t \<Longrightarrow> reactor_ok t"
proof (induction es arbitrary: s)
  case (Cons e es)
  obtain i rin rout where e: "e = (i, rin, rout)" by (cases e)
  obtain fd fl where fd: "tree s fd = Some (fl, i)" "rin = (fl = EPOLLIN)" "rout = (fl = EPOLLOUT)"
    using Cons.prems(2) e by (auto simp: reactor_reports_def)
  obtain u where u: "dispatch now fcntl_ok (i, fl = EPOLLIN, fl = EPOLLOUT) s = Next u" "dispatch_all now fcntl_ok es u = Next t"
    using Cons.prems(3) e fd by (auto split: outcome.splits)
  note du = dispatch_ok [OF Cons.prems(1) fd(1) u(1)]
  have "reactor_reports es u"
    unfolding reactor_reports_def
  proof (intro conjI)
    show "distinct (map fst es)" using Cons.prems(2) by (simp add: reactor_reports_def)
    show "list_all (\<lambda>(j, rin, rout). \<exists>fd fl. tree u fd = Some (fl, j) \<and> rin = (fl = EPOLLIN) \<and> rout = (fl = EPOLLOUT)) es"
      unfolding list_all_iff
    proof (intro ballI, clarify)
      fix j jin jout assume j: "(j, jin, jout) \<in> set es"
      then have ne: "j \<noteq> i" using Cons.prems(2) e by (force simp: reactor_reports_def)
      obtain fd' fl' where fd': "tree s fd' = Some (fl', j)" "jin = (fl' = EPOLLIN)" "jout = (fl' = EPOLLOUT)"
        using Cons.prems(2) j by (force simp: reactor_reports_def list_all_iff)
      have "j \<le> MAX_EVENTS" "status (g_events s j)" "ev_fd (g_events s j) = fd'"
        using Cons.prems(1) fd'(1) by (auto simp: reactor_ok_def)
      then have "tree u fd' = tree s fd'" using du ne by (auto simp: others_kept_def)
      then show "\<exists>fd fl. tree u fd = Some (fl, j) \<and> jin = (fl = EPOLLIN) \<and> jout = (fl = EPOLLOUT)"
        using fd' by auto
    qed
  qed
  then show ?case using Cons.IH du u(2) by blast
qed simp

interpretation reactor: invariant_system reactor_init reactor_step reactor_ok
proof
  fix s assume "reactor_init s"
  then show "reactor_ok s"
    by (auto simp: reactor_init_def initlistensocket_def eventadd_def eventset_def upd_event_def Let_def blank_event_def
        reactor_ok_def entry_fine_def split: if_splits)
next
  fix s t assume ok: "reactor_ok s" and "reactor_step s t"
  from this(2) show "reactor_ok t"
  proof cases
    case (rx_env w)
    then show ?thesis
      using reactor_ok_net [OF ok, of w] net_env_keeps [OF rx_env(2)] ok by (simp add: reactor_ok_def)
  next
    case (rx_sweep now)
    then show ?thesis using sweep_ok [OF ok] by simp
  next
    case (rx_events es now fcntl_ok)
    then show ?thesis using dispatch_all_ok [OF ok] by blast
  qed
qed


definition demo_reactor :: "accept_answer list \<Rightarrow> reactor" where
  "demo_reactor q =
     initlistensocket 3 0 \<lparr>g_events = (\<lambda>_. blank_event), tree = Map.empty, checkpos = 0,
       rnet = \<lparr>listen_queue = q, incoming = (\<lambda>_. []), outgoing = (\<lambda>_. []), open_fds = [3, 2, 1, 0],
         got = (\<lambda>_. []), sent = (\<lambda>_. [])\<rparr>\<rparr>"

lemma demo_reactor_reach: "reach reactor_init reactor_step (demo_reactor q)"
proof (rule reach.reach_init)
  show "reactor_init (demo_reactor q)"
    unfolding reactor_init_def demo_reactor_def by (intro exI conjI) (rule order_refl, simp_all add: writes_in_def)
qed

lemma demo_reactor_accept:
  "\<exists>t. dispatch_all 0 True [(MAX_EVENTS, True, False)] (demo_reactor [Conn]) = Next t
     \<and> reactor_reports [(MAX_EVENTS, True, False)] (demo_reactor [Conn]) \<and> status (g_events t 0) \<and> ev_fd (g_events t 0) = 4
     \<and> call_back (g_events t 0) = Recvdata"
proof -
  have ne: "MAX_EVENTS \<noteq> 0" by (simp add: MAX_EVENTS_def)
  then have list: "[0..<MAX_EVENTS] = 0 # [Suc 0..<MAX_EVENTS]" by (intro upt_conv_Cons) simp
  have free: "lowest_free [3, 2, 1, 0] = 4" by (simp add: lowest_free_def)
  note defs = demo_reactor_def initlistensocket_def eventadd_def eventset_def upd_event_def Let_def blank_event_def
  show ?thesis
    using ne by (simp add: dispatch_def run_callback_def acceptconn_def admit_def free list reactor_reports_def defs)
qed


end
