(* ===== verification/Philosophers.thy ===== *)
theory Philosophers
  imports Transition
begin

text \<open>
  The dining philosophers, five processes and five semaphores:
  \<^verbatim>\<open>philosopher_process.c\<close>, and five threads and mutexes: \<^verbatim>\<open>philosopher_thread.c\<close>. A philosopher waits for
  one fork and only tries the other one; the last one takes its forks in the opposite order. A semaphore is
  a counter that all processes see, which is what the program means it to be: it passes 0 for \<open>pshared\<close>,
  for which the manual promises this to the threads of one process only.
\<close>

definition fork_l :: "nat \<Rightarrow> nat" where
  "fork_l i = (if i = 4 then 0 else i)"

definition fork_r :: "nat \<Rightarrow> nat" where
  "fork_r i = (if i = 4 then 4 else i + 1)"

text \<open>
  The program with threads: the \<open>else\<close> branch ends at its first statement, and \<open>r = i + 1\<close> is executed in
  either case.
\<close>

definition thread_forks :: "nat \<Rightarrow> nat \<times> nat" where
  "thread_forks i =
     (let (l, r) = (if i = 4 then (0, i) else (i, 0)); r = i + 1
      in (l, r))"

datatype phil = Waits | Tries | Eats | Gives_up

record table =
  sems :: "nat \<Rightarrow> nat"
  phils :: "nat \<Rightarrow> phil"

definition set_phil :: "nat \<Rightarrow> phil \<Rightarrow> table \<Rightarrow> table" where
  "set_phil i p s = s\<lparr>phils := (phils s)(i := p)\<rparr>"

definition sem_wait :: "nat \<Rightarrow> table \<Rightarrow> table option" where
  "sem_wait j s = (if sems s j > 0 then Some (s\<lparr>sems := (sems s)(j := sems s j - 1)\<rparr>) else None)"

definition sem_post :: "nat \<Rightarrow> table \<Rightarrow> table" where
  "sem_post j s = s\<lparr>sems := (sems s)(j := sems s j + 1)\<rparr>"

definition phil_wait :: "nat \<Rightarrow> table \<Rightarrow> table option" where
  "phil_wait i s = map_option (set_phil i Tries) (sem_wait (fork_l i) s)"

definition phil_try :: "nat \<Rightarrow> table \<Rightarrow> table" where
  "phil_try i s = (case sem_wait (fork_r i) s of Some s' \<Rightarrow> set_phil i Eats s' | None \<Rightarrow> set_phil i Gives_up s)"

definition phil_put_right :: "nat \<Rightarrow> table \<Rightarrow> table" where
  "phil_put_right i s = set_phil i Gives_up (sem_post (fork_r i) s)"

definition phil_put_left :: "nat \<Rightarrow> table \<Rightarrow> table" where
  "phil_put_left i s = set_phil i Waits (sem_post (fork_l i) s)"

inductive phil_step :: "table \<Rightarrow> table \<Rightarrow> bool" where
  ph_wait: "i < 5 \<Longrightarrow> phils s i = Waits \<Longrightarrow> phil_wait i s = Some s' \<Longrightarrow> phil_step s s'"
| ph_try: "i < 5 \<Longrightarrow> phils s i = Tries \<Longrightarrow> phil_step s (phil_try i s)"
| ph_right: "i < 5 \<Longrightarrow> phils s i = Eats \<Longrightarrow> phil_step s (phil_put_right i s)"
| ph_left: "i < 5 \<Longrightarrow> phils s i = Gives_up \<Longrightarrow> phil_step s (phil_put_left i s)"

definition phil_start :: table where
  "phil_start = \<lparr>sems = (\<lambda>_. 1), phils = (\<lambda>_. Waits)\<rparr>"

section \<open>Who holds which fork\<close>

definition holds :: "table \<Rightarrow> nat \<Rightarrow> nat \<Rightarrow> bool" where
  "holds s i j \<longleftrightarrow> (j = fork_l i \<and> phils s i \<noteq> Waits) \<or> (j = fork_r i \<and> phils s i = Eats)"

definition table_inv :: "table \<Rightarrow> bool" where
  "table_inv s \<longleftrightarrow>
     (\<forall>j. sems s j \<le> 1) \<and> (\<forall>i j. i < 5 \<and> holds s i j \<longrightarrow> sems s j = 0)
     \<and> (\<forall>i i' j. i < 5 \<and> i' < 5 \<and> holds s i j \<and> holds s i' j \<longrightarrow> i = i')
     \<and> (\<forall>j. sems s j = 0 \<longrightarrow> (\<exists>i<5. holds s i j))"

lemma forks_differ: "fork_l i \<noteq> fork_r i"
  by (simp add: fork_l_def fork_r_def)

lemma holds_set [simp]:
  "holds (set_phil i p s) k j \<longleftrightarrow>
     (if k = i then (j = fork_l i \<and> p \<noteq> Waits) \<or> (j = fork_r i \<and> p = Eats) else holds s k j)"
  by (auto simp: holds_def set_phil_def)

lemma sems_set [simp]: "sems (set_phil i p s) = sems s"
  by (simp add: set_phil_def)

lemma holds_sems [simp]: "holds (s\<lparr>sems := f\<rparr>) k j = holds s k j"
  by (simp add: holds_def)

text \<open>Taking a fork that is free, and putting back one that is held.\<close>

lemma take_fork:
  assumes inv: "table_inv s" and i: "i < 5" and j: "sems s j > 0" and t: "sems t = (sems s)(j := sems s j - 1)"
    and h: "\<And>k x. holds t k x \<longleftrightarrow> holds s k x \<or> k = i \<and> x = j"
  shows "table_inv t"
proof -
  have one: "sems s j = 1" using inv j by (metis One_nat_def le_antisym Suc_leI table_inv_def)
  then have free: "\<not> holds s k j" if "k < 5" for k using inv that by (fastforce simp: table_inv_def)
  show ?thesis
    unfolding table_inv_def
  proof (intro conjI allI impI)
    show "sems t x \<le> 1" for x using inv t one by (simp add: table_inv_def)
    show "sems t x = 0" if "k < 5 \<and> holds t k x" for k x using inv that t one h by (auto simp: table_inv_def)
    show "k = k'" if "k < 5 \<and> k' < 5 \<and> holds t k x \<and> holds t k' x" for k k' x
      using inv that h free unfolding table_inv_def by metis
    show "\<exists>k<5. holds t k x" if "sems t x = 0" for x
      using inv that t h i by (cases "x = j") (auto simp: table_inv_def)
  qed
qed

lemma put_fork:
  assumes inv: "table_inv s" and i: "i < 5" "holds s i j" and t: "sems t = (sems s)(j := sems s j + 1)"
    and h: "\<And>k x. holds t k x \<longleftrightarrow> holds s k x \<and> \<not> (k = i \<and> x = j)"
  shows "table_inv t"
proof -
  have zero: "sems s j = 0" using inv i by (auto simp: table_inv_def)
  show ?thesis
    unfolding table_inv_def
  proof (intro conjI allI impI)
    show "sems t x \<le> 1" for x using inv t zero by (simp add: table_inv_def)
    show "sems t x = 0" if "k < 5 \<and> holds t k x" for k x
      using inv that t h i zero unfolding table_inv_def by (metis fun_upd_apply)
    show "k = k'" if "k < 5 \<and> k' < 5 \<and> holds t k x \<and> holds t k' x" for k k' x
      using inv that h unfolding table_inv_def by metis
    show "\<exists>k<5. holds t k x" if "sems t x = 0" for x
      using inv that t h zero by (cases "x = j") (auto simp: table_inv_def)
  qed
qed

lemma phil_step_inv:
  assumes "table_inv s" "phil_step s t"
  shows "table_inv t"
  using assms(2)
proof cases
  case (ph_wait i)
  let ?j = "fork_l i"
  have t: "sems s ?j > 0" "t = set_phil i Tries (s\<lparr>sems := (sems s)(?j := sems s ?j - 1)\<rparr>)"
    using ph_wait(3) by (auto simp: phil_wait_def sem_wait_def split: if_splits)
  have "holds t k x \<longleftrightarrow> holds s k x \<or> k = i \<and> x = ?j" for k x
    using ph_wait(2) t(2) by (auto simp: holds_def set_phil_def)
  then show ?thesis using take_fork [OF assms(1) ph_wait(1) t(1)] t(2) by simp
next
  case (ph_try i)
  let ?j = "fork_r i"
  show ?thesis
  proof (cases "sems s ?j > 0")
    case True
    then have t: "t = set_phil i Eats (s\<lparr>sems := (sems s)(?j := sems s ?j - 1)\<rparr>)"
      using ph_try(1) by (simp add: phil_try_def sem_wait_def)
    have "holds t k x \<longleftrightarrow> holds s k x \<or> k = i \<and> x = ?j" for k x
      using ph_try(3) t by (auto simp: holds_def set_phil_def)
    then show ?thesis using take_fork [OF assms(1) ph_try(2) True] t by simp
  next
    case False
    then have t: "t = set_phil i Gives_up s" using ph_try(1) by (simp add: phil_try_def sem_wait_def)
    have "holds t k x = holds s k x" for k x using ph_try(3) t by (auto simp: holds_def set_phil_def)
    then show ?thesis using assms(1) t by (simp add: table_inv_def)
  qed
next
  case (ph_right i)
  have "holds s i (fork_r i)" using ph_right(3) by (simp add: holds_def)
  moreover have "holds t k x \<longleftrightarrow> holds s k x \<and> \<not> (k = i \<and> x = fork_r i)" for k x
    using ph_right(1,3) forks_differ [of i] by (auto simp: phil_put_right_def sem_post_def holds_def set_phil_def)
  ultimately show ?thesis
    using put_fork [OF assms(1) ph_right(2)] ph_right(1) by (simp add: phil_put_right_def sem_post_def)
next
  case (ph_left i)
  have "holds s i (fork_l i)" using ph_left(3) by (simp add: holds_def)
  moreover have "holds t k x \<longleftrightarrow> holds s k x \<and> \<not> (k = i \<and> x = fork_l i)" for k x
    using ph_left(1,3) by (auto simp: phil_put_left_def sem_post_def holds_def set_phil_def)
  ultimately show ?thesis
    using put_fork [OF assms(1) ph_left(2)] ph_left(1) by (simp add: phil_put_left_def sem_post_def)
qed

interpretation dining: invariant_system "\<lambda>s. s = phil_start" phil_step table_inv
proof
  show "table_inv s" if "s = phil_start" for s using that by (simp add: phil_start_def table_inv_def holds_def)
qed (rule phil_step_inv)



section \<open>The program with threads\<close>

text \<open>
  A mutex is the counter of a semaphore. The last philosopher tries a sixth mutex, outside the array of five: its attempt
  is \<open>None\<close>.
\<close>

lemma thread_forks_overrun: "thread_forks i = (fork_l i, i + 1)" "thread_forks 4 = (0, 5)"
  by (simp_all add: thread_forks_def fork_l_def)

definition thread_lock :: "nat \<Rightarrow> table \<Rightarrow> table option" where
  "thread_lock i s = map_option (set_phil i Tries) (sem_wait (fst (thread_forks i)) s)"

definition thread_try :: "nat \<Rightarrow> table \<Rightarrow> table option" where
  "thread_try i s =
     (let r = snd (thread_forks i) in
      if r \<ge> 5 then None
      else Some (case sem_wait r s of Some s' \<Rightarrow> set_phil i Eats s' | None \<Rightarrow> set_phil i Gives_up s))"

definition thread_put_right :: "nat \<Rightarrow> table \<Rightarrow> table" where
  "thread_put_right i s = set_phil i Gives_up (sem_post (snd (thread_forks i)) s)"

definition thread_put_left :: "nat \<Rightarrow> table \<Rightarrow> table" where
  "thread_put_left i s = set_phil i Waits (sem_post (fst (thread_forks i)) s)"

inductive thread_phil_step :: "table \<Rightarrow> table \<Rightarrow> bool" where
  tp_lock: "i < 5 \<Longrightarrow> phils s i = Waits \<Longrightarrow> thread_lock i s = Some s' \<Longrightarrow> thread_phil_step s s'"
| tp_try: "i < 5 \<Longrightarrow> phils s i = Tries \<Longrightarrow> thread_try i s = Some s' \<Longrightarrow> thread_phil_step s s'"
| tp_right: "i < 5 \<Longrightarrow> phils s i = Eats \<Longrightarrow> thread_phil_step s (thread_put_right i s)"
| tp_left: "i < 5 \<Longrightarrow> phils s i = Gives_up \<Longrightarrow> thread_phil_step s (thread_put_left i s)"

text \<open>As long as the program is defined it does what the one with processes does, as the last philosopher never eats.\<close>

definition last_hungry :: "table \<Rightarrow> bool" where
  "last_hungry s \<longleftrightarrow> phils s 4 \<in> {Waits, Tries}"

lemma thread_step_is_phil_step:
  assumes "last_hungry s" "thread_phil_step s t"
  shows "phil_step s t" "last_hungry t"
proof -
  have "phil_step s t \<and> last_hungry t"
    using assms(2)
  proof cases
    case (tp_lock i)
    then have "phil_wait i s = Some t" by (simp add: phil_wait_def thread_lock_def thread_forks_overrun(1))
    moreover have "last_hungry t" using tp_lock assms(1) by (auto simp: last_hungry_def thread_lock_def sem_wait_def set_phil_def split: if_splits)
    ultimately show ?thesis using tp_lock by (auto intro: ph_wait)
  next
    case (tp_try i)
    then have i: "i < 4" by (auto simp: thread_try_def thread_forks_overrun(1) Let_def split: if_splits)
    then have "t = phil_try i s" using tp_try(3) by (simp add: thread_try_def phil_try_def thread_forks_overrun(1) fork_r_def Let_def)
    moreover have "last_hungry (phil_try i s)"
      using i assms(1) by (auto simp: last_hungry_def phil_try_def sem_wait_def set_phil_def)
    ultimately show ?thesis using tp_try(1,2) by (auto intro: ph_try)
  next
    case (tp_right i)
    then have i: "i \<noteq> 4" using assms(1) by (auto simp: last_hungry_def)
    then have "t = phil_put_right i s" using tp_right(1) by (simp add: thread_put_right_def phil_put_right_def thread_forks_overrun(1) fork_r_def)
    moreover have "last_hungry (phil_put_right i s)" using i assms(1) by (auto simp: last_hungry_def phil_put_right_def sem_post_def set_phil_def)
    ultimately show ?thesis using tp_right by (auto intro: ph_right)
  next
    case (tp_left i)
    then have i: "i \<noteq> 4" using assms(1) by (auto simp: last_hungry_def)
    have "t = phil_put_left i s" using tp_left(1) by (simp add: thread_put_left_def phil_put_left_def thread_forks_overrun(1))
    moreover have "last_hungry (phil_put_left i s)" using i assms(1) by (auto simp: last_hungry_def phil_put_left_def sem_post_def set_phil_def)
    ultimately show ?thesis using tp_left by (auto intro: ph_left)
  qed
  then show "phil_step s t" "last_hungry t" by auto
qed

interpretation thread_dining: simulation "\<lambda>s. s = phil_start" thread_phil_step last_hungry "\<lambda>s. s = phil_start" phil_step "\<lambda>s. s"
  by unfold_locales (simp add: last_hungry_def phil_start_def, rule thread_step_is_phil_step(2), assumption+, rule disjI1, rule thread_step_is_phil_step(1))

text \<open>
  So two threads that eat share no fork; and the sixth mutex is reached: when the last philosopher is the first one
  to sit down, its next attempt is undefined.
\<close>

theorem thread_philosophers:
  assumes "reach (\<lambda>s. s = phil_start) thread_phil_step s"
  shows "i < 5 \<Longrightarrow> k < 5 \<Longrightarrow> holds s i j \<Longrightarrow> holds s k j \<Longrightarrow> i = k" "phils s 4 \<noteq> Eats"
proof -
  have "table_inv s" using thread_dining.simulates [OF assms] by (rule dining.invariant)
  then show "i < 5 \<Longrightarrow> k < 5 \<Longrightarrow> holds s i j \<Longrightarrow> holds s k j \<Longrightarrow> i = k" unfolding table_inv_def by blast
  show "phils s 4 \<noteq> Eats" using thread_dining.invariant [OF assms] by (auto simp: last_hungry_def)
qed

theorem thread_philosophers_overrun:
  "\<exists>s. reach (\<lambda>s. s = phil_start) thread_phil_step s \<and> phils s 4 = Tries \<and> thread_try 4 s = None"
proof -
  obtain s where s: "thread_lock 4 phil_start = Some s"
    by (simp add: thread_lock_def sem_wait_def phil_start_def)
  then have "phils s 4 = Tries" by (auto simp: thread_lock_def set_phil_def)
  moreover have "thread_phil_step phil_start s" using s by (intro tp_lock [of 4]) (simp_all add: phil_start_def)
  ultimately show ?thesis by (intro exI [of _ s]) (auto simp: thread_try_def thread_forks_overrun intro: reach.intros)
qed

end
