(* ===== verification/File_Copy.thy ===== *)
theory File_Copy
  imports Transition
begin

text \<open>
  Copying a file in parts: \<^verbatim>\<open>src/file_cp/mult_thread_cp.c\<close>, where threads copy byte by byte and count, and
  \<^verbatim>\<open>src/file_cp/mult_process_cp.c\<close>, where processes copy their parts with \<open>memcpy\<close>. Files are mapped into
  memory: lists of bytes.
\<close>

section \<open>Threads\<close>

record arg_t =
  off :: nat
  part_size :: nat
  t_no :: nat

text \<open>The array of parts: the loop, and the correction of the last part.\<close>

fun build_parts :: "nat \<Rightarrow> nat \<Rightarrow> nat \<Rightarrow> nat \<Rightarrow> arg_t list" where
  "build_parts 0 i len o' = []"
| "build_parts (Suc k) i len o' = \<lparr>off = o', part_size = len, t_no = i\<rparr> # build_parts k (i + 1) len (o' + len)"

definition parts :: "nat \<Rightarrow> nat \<Rightarrow> arg_t list" where
  "parts st_size n =
     (let arr = build_parts n 0 (st_size div n) 0
      in arr[n - 1 := (arr ! (n - 1))\<lparr>part_size := part_size (arr ! (n - 1)) + st_size mod n\<rparr>])"

text \<open>One turn of the loop in \<open>tfn\<close>: \<open>done\<close> is at the same time the number of bytes the thread has copied.\<close>

record copying =
  dst :: "char list"
  done_by :: "nat list"

definition copy_byte :: "char list \<Rightarrow> arg_t \<Rightarrow> copying \<Rightarrow> copying" where
  "copy_byte src a c =
     (let i = done_by c ! t_no a
      in c\<lparr>dst := (dst c)[off a + i := src ! (off a + i)], done_by := (done_by c)[t_no a := i + 1]\<rparr>)"

inductive copy_step :: "char list \<Rightarrow> nat \<Rightarrow> copying \<Rightarrow> copying \<Rightarrow> bool" for src n where
  "a \<in> set (parts (length src) n) \<Longrightarrow> done_by c ! t_no a < part_size a \<Longrightarrow> copy_step src n c (copy_byte src a c)"

text \<open>The destination has been extended to the length of the source; its contents do not matter.\<close>

definition copy_init :: "char list \<Rightarrow> nat \<Rightarrow> copying \<Rightarrow> bool" where
  "copy_init src n c \<longleftrightarrow> length (dst c) = length src \<and> done_by c = replicate n 0"

lemma build_parts_nth:
  "j < k \<Longrightarrow> build_parts k i len o' ! j = \<lparr>off = o' + j * len, part_size = len, t_no = i + j\<rparr>"
  by (induction k arbitrary: i o' j) (auto simp: nth_Cons split: nat.split)

lemma length_build_parts [simp]: "length (build_parts k i len o') = k"
  by (induction k arbitrary: i o') auto

lemma parts_length [simp]: "length (parts st n) = n"
  by (simp add: parts_def Let_def)

lemma parts_nth:
  assumes "j < n"
  shows "parts st n ! j =
    \<lparr>off = j * (st div n), part_size = (if j = n - 1 then st div n + st mod n else st div n), t_no = j\<rparr>"
  using assms by (auto simp: parts_def Let_def build_parts_nth)

lemma part_in_file:
  assumes "j < n"
  shows "off (parts st n ! j) + part_size (parts st n ! j) \<le> st"
proof (cases "j = n - 1")
  case True
  have "(n - 1) * (st div n) + (st div n + st mod n) = n * (st div n) + st mod n" using assms by (cases n) auto
  then show ?thesis using True assms by (simp add: parts_nth)
next
  case False
  then have "Suc j * (st div n) \<le> n * (st div n)" using assms by (intro mult_le_mono1) simp
  also have "\<dots> \<le> st" by (metis div_times_less_eq_dividend mult.commute)
  finally show ?thesis using False assms by (simp add: parts_nth)
qed

text \<open>Every byte belongs to a part.\<close>

lemma parts_cover:
  assumes "x < st" "0 < n"
  shows "\<exists>j<n. off (parts st n ! j) \<le> x \<and> x < off (parts st n ! j) + part_size (parts st n ! j)"
proof (cases "x < (n - 1) * (st div n)")
  case True
  then have pos: "0 < st div n" by (cases "st div n") auto
  let ?j = "x div (st div n)"
  have "?j < n - 1" using True pos by (simp add: div_less_iff_less_mult mult.commute)
  moreover have "?j * (st div n) \<le> x" "x < ?j * (st div n) + st div n"
    using pos dividend_less_div_times [OF pos, of x] by (simp_all add: add.commute)
  ultimately show ?thesis using assms(2) by (intro exI [of _ ?j]) (auto simp: parts_nth)
next
  case False
  have "(n - 1) * (st div n) + (st div n + st mod n) = n * (st div n) + st mod n" using assms(2) by (cases n) auto
  also have "\<dots> = st" by (rule mult_div_mod_eq)
  finally show ?thesis using False assms by (intro exI [of _ "n - 1"]) (auto simp: parts_nth)
qed

definition copy_inv :: "char list \<Rightarrow> nat \<Rightarrow> copying \<Rightarrow> bool" where
  "copy_inv src n c \<longleftrightarrow>
     length (dst c) = length src \<and> length (done_by c) = n
     \<and> (\<forall>j<n. done_by c ! j \<le> part_size (parts (length src) n ! j))
     \<and> (\<forall>j<n. \<forall>k<done_by c ! j. dst c ! (off (parts (length src) n ! j) + k) = src ! (off (parts (length src) n ! j) + k))"

lemma copy_inv_step:
  assumes inv: "copy_inv src n c" and step: "copy_step src n c c'"
  shows "copy_inv src n c'"
  using step
proof cases
  case (1 a)
  let ?P = "parts (length src) n"
  obtain j where j: "j < n" "a = ?P ! j" using 1(2) by (metis in_set_conv_nth parts_length)
  then have no: "t_no a = j" by (simp add: parts_nth)
  let ?i = "done_by c ! j"
  have lt: "?i < part_size a" using 1(3) no by simp
  have len: "length (dst c) = length src" "length (done_by c) = n" using inv by (auto simp: copy_inv_def)
  have c': "dst c' = (dst c)[off a + ?i := src ! (off a + ?i)]" "done_by c' = (done_by c)[j := ?i + 1]"
    using 1(1) no by (simp_all add: copy_byte_def Let_def)
  have bound: "off a + ?i < length src" using part_in_file [OF j(1), of "length src"] lt j(2) by simp
  have keep: "dst c' ! x = src ! x" if "dst c ! x = src ! x \<or> x = off a + ?i" for x
    using that c'(1) bound len by (auto simp: nth_list_update)
  have "dst c' ! (off (?P ! l) + k) = src ! (off (?P ! l) + k)" if "l < n" "k < done_by c' ! l" for l k
  proof (cases "l = j \<and> k = ?i")
    case True
    then show ?thesis using keep j(2) by simp
  next
    case False
    then have "k < done_by c ! l" using that c'(2) len j(1) by (auto simp: nth_list_update split: if_splits)
    then show ?thesis using inv that(1) keep by (simp add: copy_inv_def)
  qed
  then show ?thesis using inv c' len lt j by (auto simp: copy_inv_def nth_list_update)
qed

interpretation copy: invariant_system "copy_init src n" "copy_step src n" "copy_inv src n" for src n
proof
  fix c assume "copy_init src n c"
  then show "copy_inv src n c" by (auto simp: copy_init_def copy_inv_def)
qed (rule copy_inv_step)

text \<open>What is still to be copied.\<close>

definition remaining :: "char list \<Rightarrow> nat \<Rightarrow> copying \<Rightarrow> nat" where
  "remaining src n c = (\<Sum>j<n. part_size (parts (length src) n ! j) - done_by c ! j)"

lemma copy_step_remaining:
  assumes inv: "copy_inv src n c" and step: "copy_step src n c c'"
  shows "remaining src n c' < remaining src n c"
  using step
proof cases
  case (1 a)
  let ?P = "parts (length src) n"
  obtain j where j: "j < n" "a = ?P ! j" using 1(2) by (metis in_set_conv_nth parts_length)
  then have no: "t_no a = j" by (simp add: parts_nth)
  have d: "done_by c' = (done_by c)[j := done_by c ! j + 1]" using 1(1) no by (simp add: copy_byte_def Let_def)
  have len: "length (done_by c) = n" using inv by (simp add: copy_inv_def)
  have "part_size (?P ! l) - done_by c' ! l \<le> part_size (?P ! l) - done_by c ! l" if "l < n" for l
    using that d len j(1) by (cases "l = j") auto
  moreover have "part_size (?P ! j) - done_by c' ! j < part_size (?P ! j) - done_by c ! j"
    using d len j 1(3) no by simp
  ultimately show ?thesis unfolding remaining_def using j(1) by (intro sum_strict_mono_ex1) auto
qed


text \<open>
  The progress bar. \<open>display\<close> draws up to the target it computes from what the threads have counted, until
  the bar is full; \<open>None\<close> is the trap of the division by \<open>interval\<close>.
\<close>

definition ITEMS :: nat where
  "ITEMS = 50"

definition display_target :: "nat \<Rightarrow> nat list \<Rightarrow> nat option" where
  "display_target sz dn =
     (let interval = sz div (ITEMS - 1); sum = fold (\<lambda>d sum. sum + d) dn 0
      in if interval = 0 then None else Some (sum div interval + 1))"

function display_draw :: "nat \<Rightarrow> nat \<Rightarrow> nat \<times> string" where
  "display_draw j draw = (if j > draw then (let (d, out) = display_draw j (draw + 1) in (d, CHR ''='' # out)) else (draw, []))"
  by pat_completeness auto
termination by (relation "measure (\<lambda>(j, draw). j - draw)") auto

declare display_draw.simps [simp del]

lemma display_draw_eq: "display_draw j draw = (max j draw, replicate (j - draw) (CHR ''=''))"
proof (induction j draw rule: display_draw.induct)
  case (1 j draw)
  then show ?case
    by (cases "j > draw") (simp_all add: display_draw.simps [of j draw] Suc_diff_Suc [symmetric] max_def split: prod.splits)
qed

text \<open>The bar is complete once all bytes are copied, and only files of at least 49 bytes have one.\<close>

lemma display_ends:
  assumes "sum_list dn = sz" "49 \<le> sz"
  shows "\<exists>j. display_target sz dn = Some j \<and> ITEMS \<le> fst (display_draw j draw)"
proof -
  have "0 < sz div 49" using assms(2) by (simp add: div_greater_zero_iff)
  moreover have "49 * (sz div 49) \<le> sz" by simp
  ultimately have "49 \<le> sz div (sz div 49)" by (simp add: less_eq_div_iff_mult_less_eq)
  moreover have "fold (\<lambda>d sum. sum + d) dn 0 = sz" using assms(1) by (simp add: fold_plus_sum_list_rev add.commute)
  ultimately show ?thesis using \<open>0 < sz div 49\<close> by (simp add: display_target_def ITEMS_def display_draw_eq)
qed

lemma display_traps: "display_target sz dn = None \<longleftrightarrow> sz < 49"
  by (simp add: display_target_def ITEMS_def Let_def div_eq_0_iff)

section \<open>Processes\<close>

text \<open>The part that process \<open>i\<close> copies: start and number of bytes.\<close>

definition process_part :: "nat \<Rightarrow> nat \<Rightarrow> nat \<Rightarrow> nat \<times> nat" where
  "process_part len n i =
     (let bs = len div n; md = len mod bs in
      if i = n - 1 then (i * bs, bs + md)
      else if i = 0 then (0, bs)
      else (i * bs + 1, bs))"

definition memcpy :: "char list \<Rightarrow> nat \<times> nat \<Rightarrow> char list \<Rightarrow> char list" where
  "memcpy src p d = (case p of (start, k) \<Rightarrow> take start d @ take k (drop start src) @ drop (start + k) d)"

text \<open>
  All processes, in any order; the destination has been cut or extended to \<open>len\<close> null bytes. \<open>None\<close>:
  with no bytes or no processes the division by \<open>n\<close> or by \<open>bs\<close> traps.
\<close>

definition process_copy :: "char list \<Rightarrow> nat \<Rightarrow> nat list \<Rightarrow> char list option" where
  "process_copy src n order =
     (let len = length src; n = (if len < n then len else n) in
      if n = 0 then None
      else Some (fold (\<lambda>i. memcpy src (process_part len n i)) order (replicate len (CHR 0x00))))"

lemma memcpy_other:
  assumes "x < start \<or> start + k \<le> x" "length d = length src" "start + k \<le> length src"
  shows "memcpy src (start, k) d ! x = d ! x" "length (memcpy src (start, k) d) = length src"
  using assms by (auto simp: memcpy_def nth_append)

lemma process_part_misses:
  assumes "3 \<le> n" "n \<le> len" "i < n" "process_part len n i = (start, k)"
  shows "(len div n < start \<or> start + k \<le> len div n) \<and> start + k \<le> len"
proof -
  let ?bs = "len div n"
  have bs: "0 < ?bs" using assms(1,2) by (simp add: div_greater_zero_iff)
  have total: "n * ?bs + len mod n = len" by simp
  show ?thesis
  proof (cases "i = n - 1")
    case True
    have "2 \<le> i" using True assms(1) by simp
    then have "2 * ?bs \<le> i * ?bs" by (rule mult_le_mono1)
    moreover have "len mod ?bs \<le> len mod n"
    proof -
      have "len mod ?bs = (n * ?bs + len mod n) mod ?bs" unfolding total ..
      also have "\<dots> = (len mod n) mod ?bs" by (rule mod_mult_self3)
      finally show ?thesis by (simp only: mod_less_eq_dividend)
    qed
    moreover have "i * ?bs + ?bs = n * ?bs" using True assms(1) by (cases n) auto
    moreover have "start = i * ?bs" "k = ?bs + len mod ?bs" using True assms(4) by (auto simp: process_part_def Let_def)
    ultimately show ?thesis using bs total by linarith
  next
    case False
    show ?thesis
    proof (cases "i = 0")
      case True
      have "?bs \<le> len" by simp
      then show ?thesis using True False assms(4) by (auto simp: process_part_def Let_def)
    next
      case pos: False
      have "1 * ?bs \<le> i * ?bs" using pos by (intro mult_le_mono1) simp
      moreover have "Suc (Suc i) * ?bs \<le> n * ?bs" using False assms(3) by (intro mult_le_mono1) simp
      moreover have "Suc (Suc i) * ?bs = ?bs + (?bs + i * ?bs)" by simp
      moreover have "start = i * ?bs + 1" "k = ?bs" using pos False assms(4) by (auto simp: process_part_def Let_def)
      ultimately show ?thesis using bs total by linarith
    qed
  qed
qed

text \<open>
  The copy with processes loses data: with three processes or more (the default is five), whatever
  the order in which they run, the byte at offset \<open>len / n\<close> of the destination is null, whatever it
  is in the source.
\<close>

theorem process_copy_loses_byte:
  assumes "3 \<le> n" "n \<le> length src" "set order \<subseteq> {..<n}" "process_copy src n order = Some d"
  shows "d ! (length src div n) = CHR 0x00"
proof -
  let ?len = "length src" and ?x = "length src div n"
  have x: "?x < ?len" using assms(1,2) by (intro div_less_dividend) auto
  have "\<forall>d. length d = ?len \<longrightarrow>
      fold (\<lambda>i. memcpy src (process_part ?len n i)) order d ! ?x = d ! ?x"
    using assms(3)
  proof (induction order)
    case (Cons i order)
    obtain start k where p: "process_part ?len n i = (start, k)" by fastforce
    have "i < n" using Cons.prems by simp
    from process_part_misses [OF assms(1,2) this p]
    have "memcpy src (start, k) d ! ?x = d ! ?x" "length (memcpy src (start, k) d) = ?len" if "length d = ?len" for d
      using memcpy_other [of ?x start k d src] that by auto
    then show ?case using Cons p by simp
  qed simp
  moreover have "d = fold (\<lambda>i. memcpy src (process_part ?len n i)) order (replicate ?len (CHR 0x00))"
    using assms(1,2,4) by (auto simp: process_copy_def Let_def split: if_splits)
  ultimately show ?thesis using x by simp
qed

theorem process_copy_loses_byte_witness:
  "\<exists>d. process_copy ''abcdef'' 3 [2, 0, 1] = Some d \<and> d ! 2 = CHR 0x00"
proof -
  obtain d where "process_copy ''abcdef'' 3 [2, 0, 1] = Some d" by (simp add: process_copy_def Let_def)
  then show ?thesis using process_copy_loses_byte [of 3 "''abcdef''" "[2, 0, 1]" d] by simp
qed


end
