(* ===== verification/String_Split.thy ===== *)
theory String_Split
  imports Prelude
begin

text \<open>
  \<open>StringSplit\<close> of \<^verbatim>\<open>src/stl/StringSplit.cpp\<close>. Its loop need not end, so that the model is partial: \<open>None\<close>
  is a call that never returns.
\<close>

definition find_from :: "string \<Rightarrow> string \<Rightarrow> nat \<Rightarrow> nat option" where
  "find_from s d pos = (if pos \<le> length s then map_option ((+) pos) (find_sub d (drop pos s)) else None)"

definition substr :: "string \<Rightarrow> nat \<Rightarrow> nat \<Rightarrow> string" where
  "substr s pos n = take n (drop pos s)"

partial_function (option) StringSplit_loop :: "string \<Rightarrow> string \<Rightarrow> nat \<Rightarrow> nat \<Rightarrow> string list \<Rightarrow> string list option" where
  "StringSplit_loop s d bpos epos vItems =
     (case find_from s d epos of
        Some epos \<Rightarrow>
          (let vItems = vItems @ [substr s bpos (epos - bpos)]; epos = epos + length d
           in StringSplit_loop s d epos epos vItems)
      | None \<Rightarrow> Some (vItems @ [substr s bpos (length s - bpos)]))"

definition StringSplit :: "string \<Rightarrow> string \<Rightarrow> string list option" where
  "StringSplit sData sDelim = StringSplit_loop sData sDelim 0 0 []"

section \<open>What it returns\<close>

fun join :: "string \<Rightarrow> string list \<Rightarrow> string" where
  "join d [] = []"
| "join d [x] = x"
| "join d (x # y # ys) = x @ d @ join d (y # ys)"

lemma find_sub_least: "find_sub pat s = Some i \<Longrightarrow> j < i \<Longrightarrow> take (length pat) (drop j s) \<noteq> pat"
proof (induction s arbitrary: i j)
  case (Cons c cs)
  show ?case
  proof (cases "take (length pat) (c # cs) = pat")
    case False
    then obtain k where "find_sub pat cs = Some k" "i = Suc k" using Cons.prems by auto
    then show ?thesis using Cons False by (cases j) auto
  qed (use Cons.prems in simp)
qed (auto split: if_splits)

text \<open>The text in front of the first delimiter contains no delimiter.\<close>

lemma front_clean:
  assumes "find_sub d s = Some i" "d \<noteq> []"
  shows "\<not> contains_sub d (take i s)"
proof
  assume "contains_sub d (take i s)"
  then obtain u v where uv: "take i s = u @ d @ v" by (auto simp: contains_sub_iff)
  then have "s = u @ d @ v @ drop i s" by (metis append.assoc append_take_drop_id)
  then have "take (length d) (drop (length u) s) = d" by (metis append_eq_conv_conj)
  moreover have "length u < i"
  proof -
    have "length (take i s) = length u + length d + length v" using uv by simp
    then show ?thesis using assms(2) by (cases d) auto
  qed
  ultimately show False using find_sub_least [OF assms(1)] by blast
qed

lemma join_snoc: "ys \<noteq> [] \<Longrightarrow> join d (x # ys) = x @ d @ join d ys"
  by (cases ys) auto

lemma StringSplit_loop_total:
  assumes "d \<noteq> []" "pos \<le> length s"
  shows "\<exists>items. StringSplit_loop s d pos pos acc = Some (acc @ items) \<and> items \<noteq> []
    \<and> join d items = drop pos s \<and> list_all (\<lambda>x. \<not> contains_sub d x) items"
  using assms(2)
proof (induction "length s - pos" arbitrary: pos acc rule: less_induct)
  case less
  show ?case
  proof (cases "find_sub d (drop pos s)")
    case None
    then have "StringSplit_loop s d pos pos acc = Some (acc @ [drop pos s])"
      using less.prems by (simp add: StringSplit_loop.simps find_from_def substr_def)
    then show ?thesis using None by (intro exI [of _ "[drop pos s]"]) (simp add: contains_sub_def)
  next
    case (Some i)
    let ?pos = "pos + i + length d"
    have i: "i + length d \<le> length (drop pos s)" "take (length d) (drop i (drop pos s)) = d"
      using find_sub_Some [OF Some] by auto
    have smaller: "length s - ?pos < length s - pos" "?pos \<le> length s" using i(1) assms(1) less.prems by (cases d; simp)+
    have step: "StringSplit_loop s d pos pos acc = StringSplit_loop s d ?pos ?pos (acc @ [take i (drop pos s)])"
      using Some less.prems by (simp add: StringSplit_loop.simps [of s d pos] find_from_def substr_def Let_def add.assoc)
    obtain items where items: "StringSplit_loop s d ?pos ?pos (acc @ [take i (drop pos s)]) = Some ((acc @ [take i (drop pos s)]) @ items)"
        "items \<noteq> []" "join d items = drop ?pos s" "list_all (\<lambda>x. \<not> contains_sub d x) items"
      using less.hyps [OF smaller] by blast
    have "drop pos s = take i (drop pos s) @ d @ drop ?pos s"
    proof -
      have "drop i (drop pos s) = d @ drop (length d) (drop i (drop pos s))" using i(2) by (metis append_take_drop_id)
      then show ?thesis by (metis add.assoc add.commute append_take_drop_id drop_drop)
    qed
    then have "join d (take i (drop pos s) # items) = drop pos s" using items by (simp add: join_snoc)
    then show ?thesis
      using step items front_clean [OF Some assms(1)] by (intro exI [of _ "take i (drop pos s) # items"]) simp
  qed
qed

text \<open>With an empty delimiter the loop finds one at the same place for ever.\<close>

lemma find_sub_Nil [simp]: "find_sub [] s = Some 0"
  by (cases s) auto

lemma StringSplit_loop_diverges:
  assumes "StringSplit_loop s d b e acc = Some r"
  shows "d = [] \<longrightarrow> \<not> e \<le> length s"
  using assms
proof (rule StringSplit_loop.raw_induct [rotated])
  fix loop s d b e acc r
  assume IH: "\<And>s d b e acc r. loop s d b e acc = Some r \<Longrightarrow> d = [] \<longrightarrow> \<not> e \<le> length s"
    and step: "(case find_from s d e of
        Some epos \<Rightarrow>
          (let vItems = acc @ [substr s b (epos - b)]; epos = epos + length d in loop s d epos epos vItems)
      | None \<Rightarrow> Some (acc @ [substr s b (length s - b)])) = Some r"
  show "d = [] \<longrightarrow> \<not> e \<le> length s"
  proof (intro impI notI)
    assume "d = []" "e \<le> length s"
    then have "loop s [] e e (acc @ [substr s b (e - b)]) = Some r" using step by (simp add: find_from_def Let_def)
    then show False using IH \<open>e \<le> length s\<close> by blast
  qed
qed

text \<open>
  \<open>StringSplit\<close> with a delimiter that is not empty returns pieces without a delimiter in them which,
  joined by the delimiter, are the text that was split; with an empty delimiter it never returns.
\<close>

theorem StringSplit_join:
  "if sDelim = [] then StringSplit sData sDelim = None
   else \<exists>vItems. StringSplit sData sDelim = Some vItems \<and> join sDelim vItems = sData
     \<and> list_all (\<lambda>x. \<not> contains_sub sDelim x) vItems"
proof (cases "sDelim = []")
  case True
  then show ?thesis
    using StringSplit_loop_diverges [of sData sDelim 0 0 "[]"] by (cases "StringSplit sData sDelim") (auto simp: StringSplit_def)
next
  case False
  then show ?thesis using StringSplit_loop_total [of sDelim 0 sData "[]"] by (auto simp: StringSplit_def)
qed

end
