(* ===== verification/Posting_Table.thy ===== *)
theory Posting_Table
  imports Prelude "HOL-Library.Product_Lexorder"
begin

text \<open>
  The inverted index of \<^verbatim>\<open>src/invert_table\<close>: the table that keeps its pt_postings in memory or in a file
  (\<^verbatim>\<open>invert_table.h\<close>), the one that keeps them in a map (\<^verbatim>\<open>z_invert_table.h\<close>), and the creator that feeds
  either (\<^verbatim>\<open>invert_table_creator.hpp\<close>). The templates are taken at \<open>InvertNode2\<close> and
  \<open>ST_PidKidInfo2\<close>.

  Files hold the 32-bit words of the structures written to them; \<open>writable\<close> says which paths \<open>fopen\<close> opens
  for writing, \<open>iter\<close> is the order in which the hash map is iterated, and \<open>root\<close> is the conversion of a sum
  of squares by \<open>sqrt\<close> in single precision, whose result nothing reads. Table sizes are below \<open>2 ^ 31\<close>.
\<close>

section \<open>Records and comparisons\<close>

record ST_PidKidInfo2 =
  m_nPid :: int
  m_nKid :: int
  m_nWeight :: int
  m_nWeight2 :: int

record InvertNode2 =
  ivt_nID :: int
  ivt_nWeight :: int
  ivt_nWeight2 :: int

definition copy_node :: "ST_PidKidInfo2 \<Rightarrow> InvertNode2" where
  "copy_node other = \<lparr>ivt_nID = m_nKid other, ivt_nWeight = m_nWeight other, ivt_nWeight2 = m_nWeight2 other\<rparr>"

record IndexNode =
  idx_nID :: int
  idx_nOffset :: int
  idx_nCount :: int
  idx_nTotalWeight :: int

definition CmpSTNodeByIndex :: "ST_PidKidInfo2 \<Rightarrow> ST_PidKidInfo2 \<Rightarrow> bool" where
  "CmpSTNodeByIndex i j \<longleftrightarrow> m_nPid i < m_nPid j"

definition CmpSTNodeByID :: "ST_PidKidInfo2 \<Rightarrow> ST_PidKidInfo2 \<Rightarrow> bool" where
  "CmpSTNodeByID i j \<longleftrightarrow>
     (if m_nPid i \<noteq> m_nPid j then m_nPid i < m_nPid j else m_nKid i < m_nKid j)"

definition CmpSTNodeByWeight :: "ST_PidKidInfo2 \<Rightarrow> ST_PidKidInfo2 \<Rightarrow> bool" where
  "CmpSTNodeByWeight i j \<longleftrightarrow>
     (if m_nPid i \<noteq> m_nPid j then m_nPid i < m_nPid j
      else if m_nWeight i \<noteq> m_nWeight j then m_nWeight i > m_nWeight j
      else m_nKid i < m_nKid j)"

section \<open>The table\<close>

type_synonym files = "string \<rightharpoonup> int list"

datatype table_fault = Null_file | Out_of_bounds

record InvertTable =
  is_cached :: bool
  fp :: "int list option"
  index_file_name :: string
  invert_file_name :: string
  index_map :: "(int \<times> IndexNode) list"
  invert_vec :: "InvertNode2 list"

definition new_table :: "bool \<Rightarrow> InvertTable" where
  "new_table use_cache =
     \<lparr>is_cached = use_cache, fp = None, index_file_name = [], invert_file_name = [], index_map = [], invert_vec = []\<rparr>"

definition has_key :: "int \<Rightarrow> InvertTable \<Rightarrow> bool" where
  "has_key index_id t \<longleftrightarrow> map_of (index_map t) index_id \<noteq> None"

definition clear :: "InvertTable \<Rightarrow> InvertTable" where
  "clear t = t\<lparr>fp := None, index_map := [], invert_vec := []\<rparr>"

definition fresh_node :: "ST_PidKidInfo2 \<Rightarrow> nat \<Rightarrow> IndexNode" where
  "fresh_node info i = \<lparr>idx_nID = m_nPid info, idx_nOffset = int i, idx_nCount = 0, idx_nTotalWeight = 0\<rparr>"

definition close_node :: "(int \<Rightarrow> int) \<Rightarrow> IndexNode \<Rightarrow> IndexNode" where
  "close_node root n = n\<lparr>idx_nTotalWeight := root (idx_nTotalWeight n)\<rparr>"

text \<open>The loop of \<open>createInvertTable\<close> from position \<open>i\<close> on, with the index node that is open.\<close>

fun create_loop ::
  "(int \<Rightarrow> int) \<Rightarrow> nat \<Rightarrow> ST_PidKidInfo2 list \<Rightarrow> IndexNode \<Rightarrow> (int \<times> IndexNode) list \<Rightarrow> InvertNode2 list
   \<Rightarrow> IndexNode \<times> (int \<times> IndexNode) list \<times> InvertNode2 list" where
  "create_loop root i [] index_node m v = (index_node, m, v)"
| "create_loop root i (info # infos) index_node m v =
     (let index_node = (if i = 0 then fresh_node info i else index_node);
          (index_node, m) =
            (if idx_nID index_node \<noteq> m_nPid info
             then (fresh_node info i, AList.update (idx_nID index_node) (close_node root index_node) m)
             else (index_node, m));
          index_node = index_node\<lparr>idx_nTotalWeight := idx_nTotalWeight index_node + m_nWeight info * m_nWeight info,
                                  idx_nCount := idx_nCount index_node + 1\<rparr>
      in create_loop root (i + 1) infos index_node m (v @ [copy_node info]))"

text \<open>\<open>junk\<close> is the index node before its first assignment.\<close>

definition createInvertTable ::
  "(int \<Rightarrow> int) \<Rightarrow> IndexNode \<Rightarrow> ST_PidKidInfo2 list \<Rightarrow> InvertTable \<Rightarrow> InvertTable" where
  "createInvertTable root junk tmp_info t =
     (if tmp_info = [] then t
      else
        (let (index_node, m, v) = create_loop root 0 tmp_info junk (index_map t) (invert_vec t)
         in t\<lparr>index_map := AList.update (idx_nID index_node) (close_node root index_node) m, invert_vec := v\<rparr>))"

fun index_words :: "IndexNode list \<Rightarrow> int list" where
  "index_words [] = []"
| "index_words (n # ns) = idx_nID n # idx_nOffset n # idx_nCount n # idx_nTotalWeight n # index_words ns"

fun invert_words :: "InvertNode2 list \<Rightarrow> int list" where
  "invert_words [] = []"
| "invert_words (n # ns) = ivt_nID n # ivt_nWeight n # ivt_nWeight2 n # invert_words ns"

fun index_nodes :: "int list \<Rightarrow> IndexNode list" where
  "index_nodes (a # b # c # d # ws) =
     \<lparr>idx_nID = a, idx_nOffset = b, idx_nCount = c, idx_nTotalWeight = d\<rparr> # index_nodes ws"
| "index_nodes ws = []"

fun invert_nodes :: "int list \<Rightarrow> InvertNode2 list" where
  "invert_nodes (a # b # c # ws) = \<lparr>ivt_nID = a, ivt_nWeight = b, ivt_nWeight2 = c\<rparr> # invert_nodes ws"
| "invert_nodes ws = []"

definition write_file :: "(string \<Rightarrow> bool) \<Rightarrow> string \<Rightarrow> int list \<Rightarrow> files \<Rightarrow> table_fault + files" where
  "write_file writable name ws fs = (if writable name then Inr (fs(name \<mapsto> ws)) else Inl Null_file)"

definition writeIndex ::
  "((int \<times> IndexNode) list \<Rightarrow> (int \<times> IndexNode) list) \<Rightarrow> (string \<Rightarrow> bool) \<Rightarrow> InvertTable \<Rightarrow> files \<Rightarrow> table_fault + files" where
  "writeIndex iter writable t fs = write_file writable (index_file_name t) (index_words (map snd (iter (index_map t)))) fs"

definition writeInvert :: "(string \<Rightarrow> bool) \<Rightarrow> InvertTable \<Rightarrow> files \<Rightarrow> table_fault + files" where
  "writeInvert writable t fs = write_file writable (invert_file_name t) (invert_words (invert_vec t)) fs"

definition create ::
  "(int \<Rightarrow> int) \<Rightarrow> ((int \<times> IndexNode) list \<Rightarrow> (int \<times> IndexNode) list) \<Rightarrow> (string \<Rightarrow> bool) \<Rightarrow> IndexNode
   \<Rightarrow> ST_PidKidInfo2 list \<Rightarrow> string \<Rightarrow> bool \<Rightarrow> InvertTable \<Rightarrow> files \<Rightarrow> table_fault + InvertTable \<times> files" where
  "create root iter writable junk vec dir is_persistent t fs =
     (let t = t\<lparr>index_file_name := dir @ ''/index.idx'', invert_file_name := dir @ ''/invert.idx''\<rparr>;
          t = clear t;
          t = createInvertTable root junk vec t
      in case (if is_persistent
               then (case writeIndex iter writable t fs of Inl f \<Rightarrow> Inl f | Inr fs \<Rightarrow> writeInvert writable t fs)
               else if \<not> is_cached t then writeInvert writable t fs
               else Inr fs) of
           Inl f \<Rightarrow> Inl f
         | Inr fs \<Rightarrow> Inr (if \<not> is_cached t then t\<lparr>fp := fs (invert_file_name t), invert_vec := []\<rparr> else t, fs))"

text \<open>A file that exists can be read. \<open>mmap\<close> fails on an empty one.\<close>

definition readIndex :: "files \<Rightarrow> InvertTable \<Rightarrow> InvertTable" where
  "readIndex fs t =
     (case fs (index_file_name t) of
        None \<Rightarrow> t
      | Some ws \<Rightarrow>
          if ws = [] then t
          else t\<lparr>index_map := foldl (\<lambda>m p. if idx_nCount p \<noteq> 0 then AList.update (idx_nID p) p m else m)
                               (index_map t) (index_nodes ws)\<rparr>)"

text \<open>
  \<open>readInvert\<close> reserves room for the pt_postings and reads them into it. The size of the vector is not
  changed by either: what was read lies behind its end.
\<close>

definition readInvert :: "files \<Rightarrow> InvertTable \<Rightarrow> table_fault + InvertTable" where
  "readInvert fs t = (case fs (invert_file_name t) of None \<Rightarrow> Inl Null_file | Some ws \<Rightarrow> Inr t)"

definition load :: "string \<Rightarrow> string \<Rightarrow> files \<Rightarrow> InvertTable \<Rightarrow> table_fault + bool \<times> InvertTable" where
  "load index_fn invert_fn fs t =
     (if fs index_fn = None \<or> fs invert_fn = None then Inr (False, t)
      else
        (let t = t\<lparr>index_file_name := index_fn, invert_file_name := invert_fn\<rparr>;
             t = clear t;
             t = readIndex fs t
         in if \<not> is_cached t then Inr (True, t\<lparr>fp := fs (invert_file_name t)\<rparr>)
            else map_sum id (Pair True) (readInvert fs t)))"

text \<open>\<open>None\<close> is \<open>false\<close>.\<close>

definition readInvertPart :: "IndexNode \<Rightarrow> InvertTable \<Rightarrow> table_fault + InvertNode2 list option" where
  "readInvertPart index_node t =
     (case fp t of
        None \<Rightarrow> Inl Null_file
      | Some ws \<Rightarrow>
          if idx_nOffset index_node < 0 then Inr None
          else
            (let cnt = idx_nCount index_node;
                 vecInvert = take (nat cnt) (invert_nodes (drop (3 * nat (idx_nOffset index_node)) ws))
             in if int (length vecInvert) \<noteq> cnt then Inr None else Inr (Some vecInvert)))"

text \<open>The version with a pointer: what the pointer can reach, and the count. The version with a vector copies.\<close>

definition getPostList_ptr :: "int \<Rightarrow> InvertTable \<Rightarrow> table_fault + (InvertNode2 list \<times> int) option" where
  "getPostList_ptr index t =
     (if \<not> has_key index t then Inr None
      else
        (let node = the (map_of (index_map t) index); cnt = idx_nCount node in
         if is_cached t
         then (let addr = idx_nOffset node in
               if addr < 0 \<or> addr \<ge> int (length (invert_vec t)) then Inl Out_of_bounds
               else Inr (Some (drop (nat addr) (invert_vec t), cnt)))
         else map_sum id (map_option (\<lambda>temp_vec. (temp_vec, cnt))) (readInvertPart node t)))"

definition getPostList :: "int \<Rightarrow> InvertTable \<Rightarrow> table_fault + InvertNode2 list option" where
  "getPostList index t =
     (if \<not> has_key index t then Inr None
      else
        (let node = the (map_of (index_map t) index); cnt = idx_nCount node in
         if is_cached t
         then (let addr = idx_nOffset node in
               if addr < 0 \<or> cnt < 0 \<or> addr + cnt > int (length (invert_vec t)) then Inl Out_of_bounds
               else Inr (Some (take (nat cnt) (drop (nat addr) (invert_vec t)))))
         else readInvertPart node t))"

section \<open>The table in a map\<close>

record ZInvertTable =
  id2Nodes :: "int \<rightharpoonup> InvertNode2 list"
  z_dup_filter :: "(int \<times> int) set"

definition new_ztable :: ZInvertTable where
  "new_ztable = \<lparr>id2Nodes = Map.empty, z_dup_filter = {}\<rparr>"

definition z_insert :: "ST_PidKidInfo2 \<Rightarrow> ZInvertTable \<Rightarrow> ZInvertTable" where
  "z_insert info z =
     (let k = (m_nPid info, m_nKid info) in
      if k \<in> z_dup_filter z then z
      else
        (let nodes = (case id2Nodes z (m_nPid info) of Some nodes \<Rightarrow> nodes | None \<Rightarrow> [])
         in z\<lparr>id2Nodes := (id2Nodes z)(m_nPid info \<mapsto> nodes @ [copy_node info]), z_dup_filter := insert k (z_dup_filter z)\<rparr>))"

definition z_createInvertTable :: "ST_PidKidInfo2 list \<Rightarrow> ZInvertTable \<Rightarrow> ZInvertTable" where
  "z_createInvertTable vec z = fold z_insert vec z"

definition z_create :: "ST_PidKidInfo2 list \<Rightarrow> string \<Rightarrow> bool \<Rightarrow> ZInvertTable \<Rightarrow> ZInvertTable" where
  "z_create vec dir is_persist z = z_createInvertTable vec (z\<lparr>id2Nodes := Map.empty, z_dup_filter := {}\<rparr>)"

definition z_getPostList :: "int \<Rightarrow> ZInvertTable \<Rightarrow> InvertNode2 list option" where
  "z_getPostList i z = id2Nodes z i"

section \<open>The creator\<close>

datatype SortMethod = byIndex | byID | byWeight

record InvertTableCreator =
  m_dir :: string
  m_persistent :: bool
  m_sortMethod :: SortMethod
  m_tripleVec :: "ST_PidKidInfo2 list"
  dup_filter :: "(int \<times> int) set"

definition new_creator :: "string \<Rightarrow> SortMethod \<Rightarrow> bool \<Rightarrow> InvertTableCreator" where
  "new_creator dir sort_method is_persistent =
     \<lparr>m_dir = dir, m_persistent = is_persistent, m_sortMethod = sort_method, m_tripleVec = [], dup_filter = {}\<rparr>"

definition creator_clear :: "InvertTableCreator \<Rightarrow> InvertTableCreator" where
  "creator_clear c = c\<lparr>m_tripleVec := [], dup_filter := {}\<rparr>"

definition addTriple :: "int \<Rightarrow> int \<Rightarrow> int \<Rightarrow> int \<Rightarrow> InvertTableCreator \<Rightarrow> InvertTableCreator" where
  "addTriple index_id invert_id weight weight2 c =
     (let k = (index_id, invert_id) in
      if k \<notin> dup_filter c
      then c\<lparr>m_tripleVec := m_tripleVec c @ [\<lparr>m_nPid = index_id, m_nKid = invert_id, m_nWeight = weight, m_nWeight2 = weight2\<rparr>],
             dup_filter := insert k (dup_filter c)\<rparr>
      else c)"

text \<open>
  Sorting with a comparison, stable. The creator has no two triples with the same two ids, so that
  \<open>std::sort\<close> with \<open>CmpSTNodeByID\<close> and with \<open>CmpSTNodeByWeight\<close> has one possible result.
\<close>

fun insert_by :: "('a \<Rightarrow> 'a \<Rightarrow> bool) \<Rightarrow> 'a \<Rightarrow> 'a list \<Rightarrow> 'a list" where
  "insert_by cmp x [] = [x]"
| "insert_by cmp x (y # ys) = (if cmp y x then y # insert_by cmp x ys else x # y # ys)"

definition sort_by :: "('a \<Rightarrow> 'a \<Rightarrow> bool) \<Rightarrow> 'a list \<Rightarrow> 'a list" where
  "sort_by cmp xs = foldr (insert_by cmp) xs []"

definition sorted_triples :: "InvertTableCreator \<Rightarrow> ST_PidKidInfo2 list" where
  "sorted_triples c =
     (case m_sortMethod c of
        byIndex \<Rightarrow> sort_by CmpSTNodeByIndex (m_tripleVec c)
      | byID \<Rightarrow> sort_by CmpSTNodeByID (m_tripleVec c)
      | byWeight \<Rightarrow> sort_by CmpSTNodeByWeight (m_tripleVec c))"

text \<open>\<open>create\<close> of the creator, on a table whose own \<open>create\<close> takes the vector, the directory and the flag.\<close>

definition creator_create ::
  "(ST_PidKidInfo2 list \<Rightarrow> string \<Rightarrow> bool \<Rightarrow> 'r) \<Rightarrow> InvertTableCreator \<Rightarrow> InvertTableCreator \<times> 'r" where
  "creator_create table_create c =
     (let vec = sorted_triples c in (c\<lparr>m_tripleVec := vec\<rparr>, table_create vec (m_dir c) (m_persistent c)))"

section \<open>What createInvertTable builds\<close>

text \<open>
  The entry a vector grouped by key deserves for \<open>k\<close>, with the sum of squares as it is before \<open>root\<close>, and
  the state of the loop after the prefix \<open>ys\<close>: everything but the last key is in the map.
\<close>

definition pt_entry :: "ST_PidKidInfo2 list \<Rightarrow> int \<Rightarrow> IndexNode option" where
  "pt_entry ys k =
     (if k \<in> m_nPid ` set ys
      then Some \<lparr>idx_nID = k, idx_nOffset = int (length (filter (\<lambda>y. m_nPid y < k) ys)),
                 idx_nCount = int (length (filter (\<lambda>y. m_nPid y = k) ys)),
                 idx_nTotalWeight = sum_list (map (\<lambda>y. m_nWeight y * m_nWeight y) (filter (\<lambda>y. m_nPid y = k) ys))\<rparr>
      else None)"

abbreviation closed_entries :: "(int \<Rightarrow> int) \<Rightarrow> ST_PidKidInfo2 list \<Rightarrow> int \<Rightarrow> IndexNode option" where
  "closed_entries root ys k \<equiv> map_option (close_node root) (pt_entry ys k)"

definition pt_loop_state :: "(int \<Rightarrow> int) \<Rightarrow> ST_PidKidInfo2 list \<Rightarrow> IndexNode \<Rightarrow> (int \<times> IndexNode) list \<Rightarrow> bool" where
  "pt_loop_state root ys node m \<longleftrightarrow>
     ys \<noteq> [] \<and> pt_entry ys (m_nPid (last ys)) = Some node
     \<and> map_of m = (closed_entries root ys)(m_nPid (last ys) := None) \<and> distinct (map fst m)"

lemma pt_entry_snoc_other:
  assumes "\<forall>z \<in> set ys. m_nPid z \<le> m_nPid y" "k \<noteq> m_nPid y"
  shows "pt_entry (ys @ [y]) k = pt_entry ys k"
  using assms by (force simp: pt_entry_def)

lemma pt_entry_snoc_beyond:
  "\<forall>z \<in> set ys. m_nPid z < m_nPid y \<Longrightarrow> pt_entry (ys @ [y]) (m_nPid y) =
     Some \<lparr>idx_nID = m_nPid y, idx_nOffset = int (length ys), idx_nCount = 1, idx_nTotalWeight = m_nWeight y * m_nWeight y\<rparr>"
proof -
  assume less: "\<forall>z \<in> set ys. m_nPid z < m_nPid y"
  then have "filter (\<lambda>z. m_nPid z = m_nPid y) ys = []" "filter (\<lambda>z. m_nPid z < m_nPid y) ys = ys"
    by (auto simp: filter_empty_conv filter_id_conv)
  then show ?thesis by (simp add: pt_entry_def)
qed

lemma pt_entry_snoc_same:
  "pt_entry ys (m_nPid y) = Some n \<Longrightarrow> pt_entry (ys @ [y]) (m_nPid y) =
     Some (n\<lparr>idx_nTotalWeight := idx_nTotalWeight n + m_nWeight y * m_nWeight y, idx_nCount := idx_nCount n + 1\<rparr>)"
  by (auto simp: pt_entry_def split: if_splits)

lemma pt_entry_ID: "pt_entry ys k = Some n \<Longrightarrow> idx_nID n = k"
  by (auto simp: pt_entry_def split: if_splits)

lemma pt_loop_state_close:
  "pt_loop_state root ys node m \<Longrightarrow> map_of (AList.update (idx_nID node) (close_node root node) m) = closed_entries root ys"
  using pt_entry_ID [of ys "m_nPid (last ys)" node] by (auto simp: pt_loop_state_def update_conv' fun_eq_iff)

definition add_info :: "ST_PidKidInfo2 \<Rightarrow> IndexNode \<Rightarrow> IndexNode" where
  "add_info y n = n\<lparr>idx_nTotalWeight := idx_nTotalWeight n + m_nWeight y * m_nWeight y, idx_nCount := idx_nCount n + 1\<rparr>"

lemma pt_loop_state_step:
  assumes st: "pt_loop_state root ys node m" and le: "\<forall>z \<in> set ys. m_nPid z \<le> m_nPid (last ys)" "m_nPid (last ys) \<le> m_nPid y"
  shows "pt_loop_state root (ys @ [y])
     (add_info y (if idx_nID node \<noteq> m_nPid y then fresh_node y (length ys) else node))
     (if idx_nID node \<noteq> m_nPid y then AList.update (idx_nID node) (close_node root node) m else m)"
proof -
  let ?p = "m_nPid (last ys)"
  have node: "pt_entry ys ?p = Some node" "idx_nID node = ?p" and m: "map_of m = (closed_entries root ys)(?p := None)"
    using st pt_entry_ID by (auto simp: pt_loop_state_def)
  have all: "\<forall>z \<in> set ys. m_nPid z \<le> m_nPid y" using le by fastforce
  note other = pt_entry_snoc_other [OF all]
  show ?thesis
  proof (cases "m_nPid y = ?p")
    case True
    then have "pt_entry (ys @ [y]) ?p = Some (add_info y node)"
      using node pt_entry_snoc_same [of ys y node] by (simp add: add_info_def)
    moreover have "map_of m = (closed_entries root (ys @ [y]))(?p := None)"
      using m other True by (auto simp: fun_eq_iff)
    ultimately show ?thesis using st True node(2) by (simp add: pt_loop_state_def)
  next
    case False
    then have "\<forall>z \<in> set ys. m_nPid z < m_nPid y" using le by fastforce
    moreover from this have "pt_entry ys (m_nPid y) = None" by (force simp: pt_entry_def)
    ultimately show ?thesis
      using st False node(2) other pt_loop_state_close [OF st]
      by (auto simp: pt_loop_state_def pt_entry_snoc_beyond fresh_node_def add_info_def distinct_update fun_eq_iff)
  qed
qed

lemma pt_create_loop_state:
  "pt_loop_state root ys node m \<Longrightarrow> sorted (map m_nPid (ys @ xs)) \<Longrightarrow>
   (case create_loop root (length ys) xs node m v of
      (node', m', v') \<Rightarrow> pt_loop_state root (ys @ xs) node' m' \<and> v' = v @ map copy_node xs)"
proof (induction xs arbitrary: ys node m v)
  case (Cons y xs)
  have ne: "ys \<noteq> []" using Cons.prems(1) by (simp add: pt_loop_state_def)
  have last: "\<forall>z \<in> set ys. m_nPid z \<le> m_nPid (last ys)" "m_nPid (last ys) \<le> m_nPid y"
    using Cons.prems(2) ne by (auto simp: sorted_append sorted_le_last)
  from Cons.IH [OF pt_loop_state_step [OF Cons.prems(1) last], of "v @ [copy_node y]"] Cons.prems(2) ne show ?case
    by (auto simp: Let_def add_info_def split: if_splits)
qed simp

lemma pt_createInvertTable_eq:
  assumes "index_map t = []" "invert_vec t = []" "sorted (map m_nPid vec)"
  shows "\<exists>m. createInvertTable root junk vec t = t\<lparr>index_map := m, invert_vec := map copy_node vec\<rparr>
    \<and> map_of m = closed_entries root vec \<and> distinct (map fst m)"
proof (cases vec)
  case Nil
  then show ?thesis using assms by (intro exI [of _ "[]"]) (auto simp: createInvertTable_def pt_entry_def fun_eq_iff)
next
  case (Cons x xs)
  let ?node = "add_info x (fresh_node x 0)"
  obtain node m v where run: "create_loop root 1 xs ?node [] [copy_node x] = (node, m, v)" by (metis prod_cases3)
  have "pt_loop_state root [x] ?node []"
    by (auto simp: pt_loop_state_def pt_entry_def add_info_def fresh_node_def fun_eq_iff)
  from pt_create_loop_state [OF this, of xs "[copy_node x]"] run assms(3) Cons
  have st: "pt_loop_state root vec node m" "v = map copy_node vec" by simp_all
  have "createInvertTable root junk vec t =
      t\<lparr>index_map := AList.update (idx_nID node) (close_node root node) m, invert_vec := map copy_node vec\<rparr>"
    using run assms(1,2) st(2) Cons by (simp add: createInvertTable_def Let_def add_info_def fresh_node_def)
  then show ?thesis using pt_loop_state_close [OF st(1)] st(1) by (auto simp: pt_loop_state_def distinct_update)
qed

section \<open>Lookups\<close>

definition pt_postings :: "ST_PidKidInfo2 list \<Rightarrow> int \<Rightarrow> InvertNode2 list" where
  "pt_postings vec k = map copy_node (filter (\<lambda>y. m_nPid y = k) vec)"

definition pt_answer :: "InvertNode2 list \<Rightarrow> InvertNode2 list option" where
  "pt_answer ns = (if ns = [] then None else Some ns)"

lemma pt_invert_words_inverse [simp]: "invert_nodes (invert_words ns) = ns"
  by (induction ns) simp_all

lemma pt_index_words_inverse [simp]: "index_nodes (index_words ns) = ns"
  by (induction ns) simp_all

lemma pt_drop_invert_words [simp]: "drop (3 * n) (invert_words ns) = invert_words (drop n ns)"
  by (induction ns arbitrary: n) (auto simp: drop_Cons numeral_3_eq_3 split: nat.splits)

text \<open>A table is in order for a vector: its index is right and its pt_postings are at hand.\<close>

definition pt_serves :: "(int \<Rightarrow> int) \<Rightarrow> ST_PidKidInfo2 list \<Rightarrow> InvertTable \<Rightarrow> bool" where
  "pt_serves root vec t \<longleftrightarrow>
     map_of (index_map t) = closed_entries root vec
     \<and> (if is_cached t then invert_vec t = map copy_node vec else fp t = Some (invert_words (map copy_node vec)))"

lemma entry_fields:
  assumes "pt_entry vec k = Some node"
  shows "idx_nOffset node = int (length (filter (\<lambda>y. m_nPid y < k) vec))"
    "idx_nCount node = int (length (filter (\<lambda>y. m_nPid y = k) vec))" "length (filter (\<lambda>y. m_nPid y = k) vec) > 0"
  using assms by (auto simp: pt_entry_def filter_empty_conv split: if_splits)

lemma pt_serves_getPostList:
  assumes "pt_serves root vec t" "sorted (map m_nPid vec)"
  shows "getPostList k t = Inr (pt_answer (pt_postings vec k))"
proof (cases "pt_entry vec k")
  case None
  then have "pt_postings vec k = []" by (auto simp: pt_postings_def pt_entry_def filter_empty_conv split: if_splits)
  then show ?thesis using None assms by (simp add: getPostList_def has_key_def pt_serves_def pt_answer_def)
next
  case (Some node)
  let ?o = "length (filter (\<lambda>y. m_nPid y < k) vec)" and ?c = "length (filter (\<lambda>y. m_nPid y = k) vec)"
  have seg: "take ?c (drop ?o (map copy_node vec)) = pt_postings vec k"
    using segment [OF assms(2), of k] by (simp add: pt_postings_def drop_map take_map)
  have bound: "?o + ?c \<le> length vec" by (rule segment_bound)
  have "pt_postings vec k \<noteq> []" using entry_fields(3) [OF Some] by (auto simp: pt_postings_def)
  moreover have "length (pt_postings vec k) = ?c" by (simp add: pt_postings_def)
  ultimately show ?thesis
    using assms(1) Some seg bound entry_fields [OF Some]
    by (auto simp: getPostList_def has_key_def readInvertPart_def close_node_def pt_serves_def Let_def pt_answer_def)
qed

section \<open>Building a table\<close>

abbreviation pt_index_path :: "string \<Rightarrow> string" where "pt_index_path dir \<equiv> dir @ ''/index.idx''"
abbreviation pt_invert_path :: "string \<Rightarrow> string" where "pt_invert_path dir \<equiv> dir @ ''/invert.idx''"

lemma create_serves:
  assumes "sorted (map m_nPid vec)" "create root iter writable junk vec dir persistent t fs = Inr (t', fs')"
  shows "pt_serves root vec t'"
proof -
  let ?t = "clear (t\<lparr>index_file_name := pt_index_path dir, invert_file_name := pt_invert_path dir\<rparr>)"
  from pt_createInvertTable_eq [of ?t vec root junk] assms(1) obtain m where
    "createInvertTable root junk vec ?t = ?t\<lparr>index_map := m, invert_vec := map copy_node vec\<rparr>"
    "map_of m = closed_entries root vec" by (auto simp: clear_def)
  then show ?thesis
    using assms(2)
    by (auto simp: create_def Let_def pt_serves_def clear_def writeIndex_def writeInvert_def write_file_def
        split: sum.splits if_splits)
qed

section \<open>What both kinds of table promise\<close>

text \<open>
  The interface of the creator to its tables: \<open>build\<close> makes one from a vector that is sorted by key and has no
  pair of ids twice, and \<open>get\<close> answers with the pt_postings of a key in the order of the vector.
\<close>

definition clean :: "ST_PidKidInfo2 list \<Rightarrow> bool" where
  "clean vec \<longleftrightarrow> sorted (map m_nPid vec) \<and> distinct (map (\<lambda>y. (m_nPid y, m_nKid y)) vec)"

locale posting_index =
  fixes build :: "ST_PidKidInfo2 list \<Rightarrow> 't \<Rightarrow> bool"
    and get :: "int \<Rightarrow> 't \<Rightarrow> InvertNode2 list option option"
  assumes get_build: "clean vec \<Longrightarrow> build vec t \<Longrightarrow> get k t = Some (pt_answer (pt_postings vec k))"
begin

lemma same_vector_same_answers: "clean vec \<Longrightarrow> build vec t \<Longrightarrow> build vec u \<Longrightarrow> get k t = get k u"
  by (simp add: get_build)

lemma found_iff: "clean vec \<Longrightarrow> build vec t \<Longrightarrow> get k t = Some None \<longleftrightarrow> k \<notin> m_nPid ` set vec"
  by (auto simp: get_build pt_answer_def pt_postings_def filter_empty_conv)

lemma found_node:
  assumes "clean vec" "build vec t" "get k t = Some (Some nodes)"
  shows "n \<in> set nodes \<longleftrightarrow> (\<exists>y \<in> set vec. m_nPid y = k \<and> n = copy_node y)"
  using assms by (auto simp: get_build pt_answer_def pt_postings_def split: if_splits)

end

definition result :: "table_fault + 'a \<Rightarrow> 'a option" where
  "result r = (case r of Inl _ \<Rightarrow> None | Inr x \<Rightarrow> Some x)"

interpretation file_table: posting_index
  "\<lambda>vec t'. \<exists>root iter writable junk dir persistent t fs fs'. create root iter writable junk vec dir persistent t fs = Inr (t', fs')"
  "\<lambda>k t. result (getPostList k t)"
  by unfold_locales (auto simp: clean_def result_def pt_serves_getPostList [OF create_serves])

lemma z_insert_all:
  "distinct (map (\<lambda>y. (m_nPid y, m_nKid y)) vec) \<Longrightarrow> z_dup_filter z \<inter> (\<lambda>y. (m_nPid y, m_nKid y)) ` set vec = {} \<Longrightarrow>
   id2Nodes (fold z_insert vec z) k = pt_answer ((case id2Nodes z k of Some nodes \<Rightarrow> nodes | None \<Rightarrow> []) @ pt_postings vec k)
   \<or> id2Nodes z k = Some [] \<and> pt_postings vec k = []"
proof (induction vec arbitrary: z)
  case Nil
  then show ?case by (cases "id2Nodes z k") (auto simp: pt_answer_def pt_postings_def)
next
  case (Cons y vec)
  let ?z = "z_insert y z"
  have z: "id2Nodes ?z = (id2Nodes z)(m_nPid y \<mapsto> (case id2Nodes z (m_nPid y) of Some nodes \<Rightarrow> nodes | None \<Rightarrow> []) @ [copy_node y])"
    "z_dup_filter ?z = insert (m_nPid y, m_nKid y) (z_dup_filter z)"
    using Cons.prems(2) by (auto simp: z_insert_def Let_def)
  have "z_dup_filter ?z \<inter> (\<lambda>y. (m_nPid y, m_nKid y)) ` set vec = {}" using Cons.prems z(2) by auto
  from Cons.IH [OF _ this] Cons.prems(1) show ?case
    using z(1) by (cases "m_nPid y = k") (auto simp: pt_postings_def)
qed

lemma z_create_postings: "clean vec \<Longrightarrow> z_getPostList k (z_create vec dir persistent z) = pt_answer (pt_postings vec k)"
  using z_insert_all [of vec "z\<lparr>id2Nodes := Map.empty, z_dup_filter := {}\<rparr>" k]
  by (simp add: clean_def z_create_def z_createInvertTable_def z_getPostList_def)

interpretation z_table: posting_index
  "\<lambda>vec z'. \<exists>dir persistent z. z' = z_create vec dir persistent z" "\<lambda>k z. Some (z_getPostList k z)"
  by unfold_locales (auto simp: z_create_postings)

section \<open>Sorting and collecting\<close>

lemma mset_sort_by [simp]: "mset (sort_by cmp xs) = mset xs"
proof -
  have "mset (insert_by cmp x ys) = add_mset x (mset ys)" for x ys by (induction ys) auto
  then have "mset (foldr (insert_by cmp) xs []) = mset xs" by (induction xs) auto
  then show ?thesis by (simp add: sort_by_def)
qed

lemma sort_by_sorted:
  assumes asym: "\<And>x y. cmp x y \<Longrightarrow> \<not> cmp y x"
    and trans: "\<And>x y z. \<not> cmp y x \<Longrightarrow> \<not> cmp z y \<Longrightarrow> \<not> cmp z x"
  shows "sorted_wrt (\<lambda>x y. \<not> cmp y x) (sort_by cmp xs)"
proof -
  have set: "set (insert_by cmp x ys) = insert x (set ys)" for x ys by (induction ys) auto
  have "sorted_wrt (\<lambda>x y. \<not> cmp y x) ys \<Longrightarrow> sorted_wrt (\<lambda>x y. \<not> cmp y x) (insert_by cmp x ys)" for x ys
  proof (induction ys)
    case (Cons y ys)
    show ?case
    proof (cases "cmp y x")
      case True
      then show ?thesis using Cons asym by (auto simp: set)
    next
      case False
      then have "\<not> cmp z x" if "z \<in> set ys" for z using trans [of y x z] Cons.prems that by simp
      then show ?thesis using False Cons.prems by simp
    qed
  qed simp
  then show ?thesis unfolding sort_by_def by (induction xs) auto
qed

lemmas cmp_defs = CmpSTNodeByIndex_def CmpSTNodeByID_def CmpSTNodeByWeight_def

definition cmp_of :: "SortMethod \<Rightarrow> ST_PidKidInfo2 \<Rightarrow> ST_PidKidInfo2 \<Rightarrow> bool" where
  "cmp_of s = (case s of byIndex \<Rightarrow> CmpSTNodeByIndex | byID \<Rightarrow> CmpSTNodeByID | byWeight \<Rightarrow> CmpSTNodeByWeight)"

text \<open>Each comparison compares a key, lexicographically.\<close>

definition cmp_key :: "SortMethod \<Rightarrow> ST_PidKidInfo2 \<Rightarrow> int \<times> int \<times> int" where
  "cmp_key s y =
     (case s of
        byIndex \<Rightarrow> (m_nPid y, 0, 0)
      | byID \<Rightarrow> (m_nPid y, m_nKid y, 0)
      | byWeight \<Rightarrow> (m_nPid y, - m_nWeight y, m_nKid y))"

lemma cmp_of_key: "cmp_of s x y \<longleftrightarrow> cmp_key s x < cmp_key s y"
  by (cases s) (auto simp: cmp_of_def cmp_defs cmp_key_def)

lemma sorted_triples_eq: "sorted_triples c = sort_by (cmp_of (m_sortMethod c)) (m_tripleVec c)"
  by (simp add: sorted_triples_def cmp_of_def split: SortMethod.splits)

lemma sorted_triples_sorted: "sorted_wrt (\<lambda>x y. \<not> cmp_of (m_sortMethod c) y x) (sorted_triples c)"
  unfolding sorted_triples_eq
  by (rule sort_by_sorted) (auto simp: cmp_of_key)

lemma cmp_of_pid: "\<not> cmp_of s y x \<Longrightarrow> m_nPid x \<le> m_nPid y"
  by (cases s) (auto simp: cmp_of_def cmp_defs split: if_splits)

text \<open>What the creator holds after some additions: the first triple of every pair of ids.\<close>

abbreviation ids :: "ST_PidKidInfo2 \<Rightarrow> int \<times> int" where "ids y \<equiv> (m_nPid y, m_nKid y)"

definition add_triples :: "ST_PidKidInfo2 list \<Rightarrow> InvertTableCreator \<Rightarrow> InvertTableCreator" where
  "add_triples adds c = fold (\<lambda>y. addTriple (m_nPid y) (m_nKid y) (m_nWeight y) (m_nWeight2 y)) adds c"

definition first_of :: "ST_PidKidInfo2 list \<Rightarrow> int \<times> int \<Rightarrow> ST_PidKidInfo2 option" where
  "first_of adds = map_of (map (\<lambda>y. (ids y, y)) adds)"

definition creator_ok :: "ST_PidKidInfo2 list \<Rightarrow> InvertTableCreator \<Rightarrow> bool" where
  "creator_ok adds c \<longleftrightarrow>
     distinct (map ids (m_tripleVec c)) \<and> dup_filter c = ids ` set (m_tripleVec c)
     \<and> first_of (m_tripleVec c) = first_of adds"

lemma first_of_snoc: "first_of (adds @ [y]) = [ids y \<mapsto> y] ++ first_of adds"
  by (simp add: first_of_def)

lemma first_of_dom: "dom (first_of adds) = ids ` set adds"
  by (force simp: first_of_def dom_map_of_conv_image_fst)

lemma addTriple_ok:
  assumes "creator_ok adds c"
  shows "creator_ok (adds @ [y]) (addTriple (m_nPid y) (m_nKid y) (m_nWeight y) (m_nWeight2 y) c)"
proof (cases "ids y \<in> dup_filter c")
  case True
  then have "ids y \<in> dom (first_of adds)" using assms first_of_dom [of "m_tripleVec c"] by (auto simp: creator_ok_def)
  then have "[ids y \<mapsto> y] ++ first_of adds = first_of adds" by (auto simp: map_add_def fun_eq_iff split: option.splits)
  then show ?thesis using assms True by (simp add: creator_ok_def addTriple_def first_of_snoc)
next
  case False
  then have c: "addTriple (m_nPid y) (m_nKid y) (m_nWeight y) (m_nWeight2 y) c =
      c\<lparr>m_tripleVec := m_tripleVec c @ [y], dup_filter := insert (ids y) (dup_filter c)\<rparr>"
    by (simp add: addTriple_def)
  have f: "first_of (m_tripleVec c @ [y]) = first_of (adds @ [y])"
    using assms by (simp add: creator_ok_def first_of_snoc)
  show ?thesis using assms False f unfolding c by (auto simp: creator_ok_def)
qed

lemma add_triples_ok: "creator_ok adds (add_triples adds (new_creator dir s p))"
proof (induction adds rule: rev_induct)
  case Nil
  then show ?case by (simp add: creator_ok_def add_triples_def new_creator_def)
next
  case (snoc y adds)
  from addTriple_ok [OF snoc, of y] show ?case by (simp add: add_triples_def)
qed

lemma add_triples_method: "m_sortMethod (add_triples adds c) = m_sortMethod c"
proof -
  have "m_sortMethod (addTriple i j w w2 c) = m_sortMethod c" for i j w w2 c by (simp add: addTriple_def Let_def)
  then show ?thesis unfolding add_triples_def by (induction adds arbitrary: c) auto
qed

lemma sorted_triples_clean: "creator_ok adds c \<Longrightarrow> clean (sorted_triples c)"
proof -
  assume ok: "creator_ok adds c"
  have "sorted (map m_nPid (sorted_triples c))"
    using sorted_triples_sorted [of c] unfolding sorted_map
    by (rule sorted_wrt_mono_rel [rotated]) (rule cmp_of_pid)
  moreover have "mset (sorted_triples c) = mset (m_tripleVec c)" by (simp add: sorted_triples_eq)
  then have "distinct (map ids (sorted_triples c)) = distinct (map ids (m_tripleVec c))"
    by (metis mset_map mset_eq_imp_distinct_iff)
  ultimately show ?thesis using ok by (simp add: clean_def creator_ok_def)
qed

section \<open>Both tables pt_answer alike\<close>

lemma create_writable:
  assumes "\<And>f. writable f"
  shows "\<exists>t' fs'. create root iter writable junk vec dir persistent t fs = Inr (t', fs')"
  using assms by (simp add: create_def writeIndex_def writeInvert_def write_file_def Let_def)

text \<open>The pt_postings the creator's vector holds for a key, in terms of the triples that were added.\<close>

lemma creator_postings:
  assumes ok: "creator_ok adds c" and nodes: "pt_postings (sorted_triples c) k = nodes"
  shows "distinct (map ivt_nID nodes)" "ivt_nID ` set nodes = m_nKid ` {y \<in> set adds. m_nPid y = k}"
    "\<forall>n \<in> set nodes. map_option copy_node (first_of adds (k, ivt_nID n)) = Some n"
    "m_sortMethod c = byID \<Longrightarrow> sorted (map ivt_nID nodes)"
    "m_sortMethod c = byWeight \<Longrightarrow> sorted (map (\<lambda>n. - ivt_nWeight n) nodes)"
proof -
  let ?ys = "filter (\<lambda>y. m_nPid y = k) (sorted_triples c)"
  have ms: "mset (sorted_triples c) = mset (m_tripleVec c)" by (simp add: sorted_triples_eq)
  then have set: "set (sorted_triples c) = set (m_tripleVec c)" by (rule mset_eq_setD)
  have distinct: "distinct (map ids (m_tripleVec c))" and first: "first_of (m_tripleVec c) = first_of adds"
    using ok by (auto simp: creator_ok_def)
  have nodes': "nodes = map copy_node ?ys" using nodes by (simp add: pt_postings_def)
  have "distinct (map ids ?ys)"
    using sorted_triples_clean [OF ok] by (simp add: clean_def distinct_map_filter)
  then show "distinct (map ivt_nID nodes)"
    unfolding nodes' by (auto simp: distinct_map copy_node_def inj_on_def)
  have "first_of adds (ids y) = Some y" if "y \<in> set (m_tripleVec c)" for y
  proof -
    have "first_of (m_tripleVec c) (ids y) = Some y"
      using that distinct unfolding first_of_def by (intro map_of_is_SomeI) (auto simp: comp_def)
    then show ?thesis using first by simp
  qed
  then show "\<forall>n \<in> set nodes. map_option copy_node (first_of adds (k, ivt_nID n)) = Some n"
    unfolding nodes' using set by (auto simp: copy_node_def)
  have "ids ` set (m_tripleVec c) = ids ` set adds" using first first_of_dom by metis
  then show "ivt_nID ` set nodes = m_nKid ` {y \<in> set adds. m_nPid y = k}"
  proof -
    have "ivt_nID ` set nodes = m_nKid ` {y \<in> set (m_tripleVec c). m_nPid y = k}"
      unfolding nodes' by (auto simp: set copy_node_def image_image)
    also have "\<dots> = {j. (k, j) \<in> ids ` set (m_tripleVec c)}" by auto
    also have "\<dots> = m_nKid ` {y \<in> set adds. m_nPid y = k}" unfolding \<open>ids ` set (m_tripleVec c) = ids ` set adds\<close> by auto
    finally show ?thesis .
  qed
  have sorted: "sorted_wrt (\<lambda>x y. m_nPid x = k \<and> m_nPid y = k \<and> \<not> cmp_of (m_sortMethod c) y x) ?ys"
    using sorted_wrt_filter [OF sorted_triples_sorted] by (rule sorted_wrt_mono_rel [rotated]) auto
  show "sorted (map ivt_nID nodes)" if "m_sortMethod c = byID"
    unfolding nodes' map_map sorted_map using sorted
    by (rule sorted_wrt_mono_rel [rotated]) (auto simp: that cmp_of_def CmpSTNodeByID_def copy_node_def split: if_splits)
  show "sorted (map (\<lambda>n. - ivt_nWeight n) nodes)" if "m_sortMethod c = byWeight"
    unfolding nodes' map_map sorted_map using sorted
    by (rule sorted_wrt_mono_rel [rotated]) (auto simp: that cmp_of_def CmpSTNodeByWeight_def copy_node_def split: if_splits)
qed

text \<open>
  C30. The two kinds of table agree: fed by the same creator, whatever was added, in whatever order it sorts
  and wherever the pt_postings are kept, the table with files and the table in a map pt_answer every key alike.
  The pt_answer has one posting for every id added under the key, with the weights it was first added with,
  ordered as the creator was told to.
\<close>

theorem tables_agree:
  assumes "c = add_triples adds (new_creator dir method persistent)"
    and "snd (creator_create (\<lambda>vec dir p. create root iter writable junk vec dir p t fs) c) = Inr (t', fs')"
    and "snd (creator_create (\<lambda>vec dir p. z_create vec dir p z) c) = z'"
  shows "getPostList k t' = Inr (z_getPostList k z')
    \<and> (case z_getPostList k z' of
         None \<Rightarrow> k \<notin> m_nPid ` set adds
       | Some nodes \<Rightarrow>
           distinct (map ivt_nID nodes) \<and> ivt_nID ` set nodes = m_nKid ` {y \<in> set adds. m_nPid y = k}
           \<and> (\<forall>n \<in> set nodes. map_option copy_node (first_of adds (k, ivt_nID n)) = Some n)
           \<and> (method = byID \<longrightarrow> sorted (map ivt_nID nodes))
           \<and> (method = byWeight \<longrightarrow> sorted (map (\<lambda>n. - ivt_nWeight n) nodes)))"
proof -
  let ?vec = "sorted_triples c"
  have ok: "creator_ok adds c" "m_sortMethod c = method"
    unfolding assms(1) by (rule add_triples_ok) (simp add: add_triples_method new_creator_def)
  have clean: "clean ?vec" using ok(1) by (rule sorted_triples_clean)
  have "create root iter writable junk ?vec (m_dir c) (m_persistent c) t fs = Inr (t', fs')"
    using assms(2) by (simp add: creator_create_def Let_def)
  then have "\<exists>root iter writable junk dir persistent t fs fs'.
      create root iter writable junk ?vec dir persistent t fs = Inr (t', fs')" by blast
  from file_table.get_build [OF clean this, of k] have in_files: "getPostList k t' = Inr (pt_answer (pt_postings ?vec k))"
    by (auto simp: result_def split: sum.splits)
  have "\<exists>dir persistent z. z' = z_create ?vec dir persistent z"
    using assms(3) by (auto simp: creator_create_def Let_def)
  from z_table.get_build [OF clean this, of k] have in_map: "z_getPostList k z' = pt_answer (pt_postings ?vec k)" by simp
  note nodes = creator_postings [OF ok(1) refl, of k]
  show ?thesis
  proof (cases "pt_postings ?vec k = []")
    case True
    then have "m_nKid ` {y \<in> set adds. m_nPid y = k} = {}" using nodes(2) by simp
    then show ?thesis using in_files in_map True by (auto simp: pt_answer_def)
  next
    case False
    then show ?thesis using in_files in_map nodes ok(2) by (simp add: pt_answer_def)
  qed
qed

definition demo_adds :: "ST_PidKidInfo2 list" where
  "demo_adds = [\<lparr>m_nPid = 1, m_nKid = 7, m_nWeight = 3, m_nWeight2 = 0\<rparr>,
                \<lparr>m_nPid = 1, m_nKid = 8, m_nWeight = 5, m_nWeight2 = 0\<rparr>]"

theorem tables_agree_witness:
  "\<exists>t' fs' z'. getPostList 1 t' = Inr (z_getPostList 1 z') \<and> z_getPostList 1 z' \<noteq> None
    \<and> snd (creator_create (\<lambda>vec dir p. create id rev (\<lambda>_. True) (fresh_node (hd demo_adds) 0) vec dir p (new_table False) Map.empty)
        (add_triples demo_adds (new_creator ''d'' byWeight True))) = Inr (t', fs')
    \<and> snd (creator_create (\<lambda>vec dir p. z_create vec dir p new_ztable) (add_triples demo_adds (new_creator ''d'' byWeight True))) = z'"
proof -
  let ?c = "add_triples demo_adds (new_creator ''d'' byWeight True)"
  obtain t' fs' where t': "snd (creator_create (\<lambda>vec dir p. create id rev (\<lambda>_. True) (fresh_node (hd demo_adds) 0) vec dir p
      (new_table False) Map.empty) ?c) = Inr (t', fs')"
    using create_writable [of "\<lambda>_. True" id rev "fresh_node (hd demo_adds) 0" "sorted_triples ?c" "m_dir ?c" "m_persistent ?c"
        "new_table False" Map.empty] by (auto simp: creator_create_def Let_def)
  from tables_agree [OF refl this refl, of 1 new_ztable] t' show ?thesis
    by (auto simp: demo_adds_def split: option.splits)
qed

section \<open>Loading\<close>

text \<open>What a persistent \<open>create\<close> leaves in its files.\<close>

lemma create_files:
  assumes "sorted (map m_nPid vec)" "create root iter writable junk vec dir True t fs = Inr (t', fs')"
  shows "\<exists>m. map_of m = closed_entries root vec \<and> distinct (map fst m)
    \<and> fs' (pt_index_path dir) = Some (index_words (map snd (iter m)))
    \<and> fs' (pt_invert_path dir) = Some (invert_words (map copy_node vec))"
proof -
  let ?t = "clear (t\<lparr>index_file_name := pt_index_path dir, invert_file_name := pt_invert_path dir\<rparr>)"
  from pt_createInvertTable_eq [of ?t vec root junk] assms(1) obtain m where m:
    "createInvertTable root junk vec ?t = ?t\<lparr>index_map := m, invert_vec := map copy_node vec\<rparr>"
    "map_of m = closed_entries root vec" "distinct (map fst m)" by (auto simp: clear_def)
  then have "fs' (pt_index_path dir) = Some (index_words (map snd (iter m))) \<and> fs' (pt_invert_path dir) = Some (invert_words (map copy_node vec))"
    using assms(2)
    by (auto simp: create_def Let_def clear_def writeIndex_def writeInvert_def write_file_def split: sum.splits if_splits)
  then show ?thesis using m by blast
qed

lemma load_index:
  assumes "map_of m = closed_entries root vec" "distinct (map fst m)" "\<And>m. mset (iter m) = mset m"
    and "fs (index_file_name t) = Some (index_words (map snd (iter m)))" "index_map t = []"
  shows "\<exists>m'. readIndex fs t = t\<lparr>index_map := m'\<rparr> \<and> map_of m' = closed_entries root vec"
proof (cases "iter m = []")
  case True
  then have "m = []" using assms(3) [of m] by simp
  then show ?thesis using assms True by (intro exI [of _ "[]"]) (auto simp: readIndex_def)
next
  case False
  from map_of_permuted [OF assms(3) assms(2)] have iter: "map_of (iter m) = closed_entries root vec" "distinct (map fst (iter m))"
    using assms(1) by simp_all
  have "idx_nID n = k \<and> idx_nCount n \<noteq> 0" if "(k, n) \<in> set (iter m)" for k n
  proof -
    have "closed_entries root vec k = Some n" using that iter by (metis map_of_eq_Some_iff)
    then show ?thesis by (auto simp: pt_entry_def close_node_def filter_empty_conv split: if_splits)
  qed
  note fold = foldl_update_entries [OF this iter(2)]
  have "index_words (map snd (iter m)) \<noteq> []" using False by (cases "iter m") auto
  then show ?thesis using assms(4,5) fold iter(1) by (auto simp: readIndex_def)
qed

text \<open>
  A table loaded from these files answers as the one that was created if it reads pt_postings from the file. If
  it keeps them in memory every lookup of a key that exists reads behind the end of the vector.
\<close>

theorem load_after_create:
  assumes "sorted (map m_nPid vec)" "create root iter writable junk vec dir True t fs = Inr (t', fs')"
    and "\<And>m. mset (iter m) = mset m"
  shows "\<exists>u. load (pt_index_path dir) (pt_invert_path dir) fs' (new_table cached) = Inr (True, u)
    \<and> getPostList k u = (if cached \<and> k \<in> m_nPid ` set vec then Inl Out_of_bounds else getPostList k t')"
proof -
  from create_files [OF assms(1,2)] obtain m where m: "map_of m = closed_entries root vec" "distinct (map fst m)"
    "fs' (pt_index_path dir) = Some (index_words (map snd (iter m)))" "fs' (pt_invert_path dir) = Some (invert_words (map copy_node vec))"
    by blast
  let ?t = "clear ((new_table cached)\<lparr>index_file_name := pt_index_path dir, invert_file_name := pt_invert_path dir\<rparr>)"
  from load_index [OF m(1,2) assms(3), of fs' ?t] m(3) obtain m' where
    m': "readIndex fs' ?t = ?t\<lparr>index_map := m'\<rparr>" "map_of m' = closed_entries root vec" by (auto simp: clear_def)
  have t': "getPostList k t' = Inr (pt_answer (pt_postings vec k))"
    using create_serves [OF assms(1,2)] assms(1) by (rule pt_serves_getPostList)
  show ?thesis
  proof (cases cached)
    case False
    let ?u = "?t\<lparr>index_map := m', fp := fs' (pt_invert_path dir)\<rparr>"
    have "load (pt_index_path dir) (pt_invert_path dir) fs' (new_table cached) = Inr (True, ?u)"
      using m m' False by (simp add: load_def clear_def new_table_def)
    moreover have "pt_serves root vec ?u" using m m' False by (simp add: pt_serves_def clear_def new_table_def)
    ultimately show ?thesis using pt_serves_getPostList [OF _ assms(1)] t' False by auto
  next
    case True
    let ?u = "?t\<lparr>index_map := m'\<rparr>"
    have load: "load (pt_index_path dir) (pt_invert_path dir) fs' (new_table cached) = Inr (True, ?u)"
      using m m' True by (simp add: load_def readInvert_def clear_def new_table_def)
    show ?thesis
    proof (cases "pt_entry vec k")
      case None
      then have "k \<notin> m_nPid ` set vec" "pt_postings vec k = []"
        by (auto simp: pt_entry_def pt_postings_def filter_empty_conv split: if_splits)
      then show ?thesis using load None m'(2) t' by (auto simp: getPostList_def has_key_def pt_answer_def)
    next
      case (Some node)
      then have "k \<in> m_nPid ` set vec" by (auto simp: pt_entry_def split: if_splits)
      moreover have "getPostList k ?u = Inl Out_of_bounds"
      proof -
        have "0 \<le> idx_nOffset node" "0 < idx_nCount node" using entry_fields [OF Some] by simp_all
        then show ?thesis using Some m'(2) True
          by (simp add: getPostList_def has_key_def close_node_def clear_def new_table_def Let_def)
      qed
      ultimately show ?thesis using load True by auto
    qed
  qed
qed

end
