(* ===== verification/String_Class.thy ===== *)
theory String_Class
  imports Prelude "HOL-Library.Monad_Syntax"
begin

text \<open>
  The class \<open>String\<close> of \<^verbatim>\<open>src/stl/String.cpp\<close>, which owns a buffer of characters through a pointer. The
  heap maps addresses to buffers, whose characters may not have been written yet, and objects, which are
  numbered, to their member \<open>m_string\<close>. Every function is partial: \<open>None\<close> is undefined behaviour, that is a null
  pointer or a released buffer that is read, a buffer that overflows, or a string that has no end.
\<close>

section \<open>The heap and the C library\<close>

record heap =
  bufs :: "nat \<rightharpoonup> char option list"
  fresh :: nat
  objs :: "nat \<rightharpoonup> nat option"

abbreviation NUL_char :: char where "NUL_char \<equiv> CHR 0x00"

definition new_chars :: "nat \<Rightarrow> heap \<Rightarrow> nat \<times> heap" where
  "new_chars n h = (fresh h, h\<lparr>bufs := (bufs h)(fresh h \<mapsto> replicate n None), fresh := fresh h + 1\<rparr>)"

definition delete_chars :: "nat option \<Rightarrow> heap \<Rightarrow> heap option" where
  "delete_chars p h =
     (case p of
        None \<Rightarrow> Some h
      | Some a \<Rightarrow> if bufs h a = None then None else Some (h\<lparr>bufs := (bufs h)(a := None)\<rparr>))"

text \<open>The string at the start of a buffer, up to its terminating null.\<close>

fun c_string :: "char option list \<Rightarrow> string option" where
  "c_string (Some c # b) = (if c = NUL_char then Some [] else map_option ((#) c) (c_string b))"
| "c_string b = None"

definition str_at :: "heap \<Rightarrow> nat option \<Rightarrow> string option" where
  "str_at h p = do { a \<leftarrow> p; b \<leftarrow> bufs h a; c_string b }"

definition write_str :: "nat \<Rightarrow> nat \<Rightarrow> string \<Rightarrow> heap \<Rightarrow> heap option" where
  "write_str a i s h =
     do { b \<leftarrow> bufs h a;
          if i + length s + 1 \<le> length b
          then Some (h\<lparr>bufs := (bufs h)(a \<mapsto> take i b @ map Some (s @ [NUL_char]) @ drop (i + length s + 1) b)\<rparr>)
          else None }"

text \<open>Source and destination may not overlap.\<close>

definition strcpy :: "nat \<Rightarrow> nat option \<Rightarrow> heap \<Rightarrow> heap option" where
  "strcpy d p h = (if p = Some d then None else do { s \<leftarrow> str_at h p; write_str d 0 s h })"

definition strcat :: "nat \<Rightarrow> nat option \<Rightarrow> heap \<Rightarrow> heap option" where
  "strcat d p h =
     (if p = Some d then None else do { t \<leftarrow> str_at h (Some d); s \<leftarrow> str_at h p; write_str d (length t) s h })"

definition set_ptr :: "nat \<Rightarrow> nat option \<Rightarrow> heap \<Rightarrow> heap" where
  "set_ptr x p h = h\<lparr>objs := (objs h)(x \<mapsto> p)\<rparr>"

section \<open>The member functions\<close>

text \<open>
  The constructor from a C string. Without an argument it allocates one character and then sets the
  pointer, not the character, to null.
\<close>

definition String_new :: "nat \<Rightarrow> string option \<Rightarrow> heap \<Rightarrow> heap option" where
  "String_new x str h =
     (case str of
        None \<Rightarrow> (let (a, h) = new_chars 1 h in Some (set_ptr x None h))
      | Some str \<Rightarrow>
          (let str = takeWhile (\<lambda>c. c \<noteq> NUL_char) str; (a, h) = new_chars (length str + 1) h
           in write_str a 0 str (set_ptr x (Some a) h)))"

definition String_copy :: "nat \<Rightarrow> nat \<Rightarrow> heap \<Rightarrow> heap option" where
  "String_copy x other h =
     do { q \<leftarrow> objs h other;
          s \<leftarrow> str_at h q;
          let (a, h) = new_chars (length s + 1) h;
          strcpy a q (set_ptr x (Some a) h) }"

definition String_assign :: "nat \<Rightarrow> nat \<Rightarrow> heap \<Rightarrow> heap option" where
  "String_assign x other h =
     (if x = other then Some h
      else do { p \<leftarrow> objs h x;
                h \<leftarrow> delete_chars p h;
                q \<leftarrow> objs h other;
                s \<leftarrow> str_at h q;
                let (a, h) = new_chars (length s + 1) h;
                strcpy a q (set_ptr x (Some a) h) })"

definition String_destroy :: "nat \<Rightarrow> heap \<Rightarrow> heap option" where
  "String_destroy x h =
     do { p \<leftarrow> objs h x;
          h \<leftarrow> delete_chars p h;
          Some (h\<lparr>objs := (objs h)(x := None)\<rparr>) }"

text \<open>
  \<open>operator[]\<close> compares the index with \<open>strlen\<close> as a \<open>size_t\<close> of 64 bits. It throws, \<open>Inl\<close>, or refers to
  a character.
\<close>

definition String_index :: "nat \<Rightarrow> int \<Rightarrow> heap \<Rightarrow> (string + nat \<times> nat) option" where
  "String_index x index h =
     do { p \<leftarrow> objs h x;
          s \<leftarrow> str_at h p;
          a \<leftarrow> p;
          Some (if (if index < 0 then index + 2 ^ 64 else index) \<ge> int (length s) then Inl ''index error''
                else Inr (a, nat index)) }"

definition put_char :: "nat \<times> nat \<Rightarrow> char \<Rightarrow> heap \<Rightarrow> heap option" where
  "put_char r c h =
     (case r of (a, i) \<Rightarrow>
        do { b \<leftarrow> bufs h a;
             if i < length b then Some (h\<lparr>bufs := (bufs h)(a \<mapsto> b[i := Some c])\<rparr>) else None })"

definition String_equal :: "nat \<Rightarrow> nat \<Rightarrow> heap \<Rightarrow> bool option" where
  "String_equal x other h =
     do { p \<leftarrow> objs h x; q \<leftarrow> objs h other; s \<leftarrow> str_at h p; t \<leftarrow> str_at h q; Some (s = t) }"

text \<open>\<open>operator+=\<close> reads \<open>other.m_string\<close> again after it has changed its own pointer.\<close>

definition String_append :: "nat \<Rightarrow> nat \<Rightarrow> heap \<Rightarrow> heap option" where
  "String_append x other h =
     do { tmp \<leftarrow> objs h x;
          s \<leftarrow> str_at h tmp;
          q \<leftarrow> objs h other;
          t \<leftarrow> str_at h q;
          let (a, h) = new_chars (length s + length t + 1) h;
          h \<leftarrow> strcpy a tmp (set_ptr x (Some a) h);
          h \<leftarrow> delete_chars tmp h;
          q \<leftarrow> objs h other;
          strcat a q h }"

text \<open>\<open>operator+\<close> fills in the object it returns, \<open>t\<close>.\<close>

definition String_plus :: "nat \<Rightarrow> nat \<Rightarrow> nat \<Rightarrow> heap \<Rightarrow> heap option" where
  "String_plus t x other h =
     do { h \<leftarrow> String_new t None h;
          p \<leftarrow> objs h x;
          s \<leftarrow> str_at h p;
          q \<leftarrow> objs h other;
          u \<leftarrow> str_at h q;
          let (a, h) = new_chars (length s + length u + 1) h;
          h \<leftarrow> strcpy a p (set_ptr t (Some a) h);
          strcat a q h }"

text \<open>\<open>operator>>\<close>: \<open>get\<close> delivers what is in front of the next newline, at most 1023 characters; \<open>t\<close> is the temporary.\<close>

definition get_line :: "string \<Rightarrow> string" where
  "get_line input = take 1023 (takeWhile (\<lambda>c. c \<noteq> CHR 0x0A) input)"

definition String_input :: "nat \<Rightarrow> nat \<Rightarrow> string \<Rightarrow> heap \<Rightarrow> heap option" where
  "String_input x t input h =
     do { h \<leftarrow> String_new t (Some (get_line input)) h;
          h \<leftarrow> String_assign x t h;
          String_destroy t h }"

text \<open>The two output operators, the member and the friend.\<close>

definition String_output :: "string \<Rightarrow> nat \<Rightarrow> heap \<Rightarrow> string option" where
  "String_output prefix x h = do { p \<leftarrow> objs h x; s \<leftarrow> str_at h p; Some (prefix @ s @ [CHR 0x0A]) }"

section \<open>Programs that use strings\<close>

datatype cmd =
    Construct nat "string option"
  | Copy nat nat
  | Assign nat nat
  | Put nat int char
  | Append nat nat
  | Plus nat nat nat
  | Input nat nat string
  | Destroy nat

fun exec :: "cmd \<Rightarrow> heap \<Rightarrow> heap option" where
  "exec (Construct x s) h = String_new x s h"
| "exec (Copy x y) h = String_copy x y h"
| "exec (Assign x y) h = String_assign x y h"
| "exec (Put x i c) h = do { r \<leftarrow> String_index x i h; case r of Inl _ \<Rightarrow> Some h | Inr r \<Rightarrow> put_char r c h }"
| "exec (Append x y) h = String_append x y h"
| "exec (Plus t x y) h = String_plus t x y h"
| "exec (Input x t inp) h = String_input x t inp h"
| "exec (Destroy x) h = String_destroy x h"

text \<open>
  What objects mean: they hold a string or, default constructed, nothing. On that level the commands have
  these conditions and effects.
\<close>

type_synonym strings = "nat \<rightharpoonup> string option"

definition holds_string :: "strings \<Rightarrow> nat \<Rightarrow> bool" where
  "holds_string st x \<longleftrightarrow> (case st x of Some (Some s) \<Rightarrow> length s \<le> 2 ^ 63 | _ \<Rightarrow> False)"

abbreviation str :: "strings \<Rightarrow> nat \<Rightarrow> string" where "str st x \<equiv> the (the (st x))"

fun cmd_ok :: "cmd \<Rightarrow> strings \<Rightarrow> bool" where
  "cmd_ok (Construct x s) st \<longleftrightarrow> st x = None"
| "cmd_ok (Copy x y) st \<longleftrightarrow> st x = None \<and> holds_string st y"
| "cmd_ok (Assign x y) st \<longleftrightarrow> st x \<noteq> None \<and> (x = y \<or> holds_string st y)"
| "cmd_ok (Put x i c) st \<longleftrightarrow> holds_string st x \<and> - (2 ^ 31) \<le> i \<and> i < 2 ^ 31"
| "cmd_ok (Append x y) st \<longleftrightarrow> x \<noteq> y \<and> holds_string st x \<and> holds_string st y"
| "cmd_ok (Plus t x y) st \<longleftrightarrow> st t = None \<and> holds_string st x \<and> holds_string st y"
| "cmd_ok (Input x t inp) st \<longleftrightarrow> st x \<noteq> None \<and> st t = None"
| "cmd_ok (Destroy x) st \<longleftrightarrow> st x \<noteq> None"

definition until_null :: "string \<Rightarrow> string" where
  "until_null s = takeWhile (\<lambda>c. c \<noteq> NUL_char) s"

fun cmd_effect :: "cmd \<Rightarrow> strings \<Rightarrow> strings" where
  "cmd_effect (Construct x s) st = st(x \<mapsto> map_option until_null s)"
| "cmd_effect (Copy x y) st = st(x \<mapsto> Some (str st y))"
| "cmd_effect (Assign x y) st = (if x = y then st else st(x \<mapsto> Some (str st y)))"
| "cmd_effect (Put x i c) st =
     (if 0 \<le> i \<and> i < int (length (str st x)) then st(x \<mapsto> Some (until_null ((str st x)[nat i := c]))) else st)"
| "cmd_effect (Append x y) st = st(x \<mapsto> Some (str st x @ str st y))"
| "cmd_effect (Plus t x y) st = st(t \<mapsto> Some (str st x @ str st y))"
| "cmd_effect (Input x t inp) st = st(x \<mapsto> Some (until_null (get_line inp)))"
| "cmd_effect (Destroy x) st = st(x := None)"

text \<open>Default construction, and \<open>operator+\<close> through it, allocates a buffer and forgets it.\<close>

fun cmd_leak :: "cmd \<Rightarrow> nat" where
  "cmd_leak (Construct x s) = (if s = None then 1 else 0)"
| "cmd_leak (Plus t x y) = 1"
| "cmd_leak c = 0"

section \<open>Well-formed heaps\<close>

definition strings_of :: "heap \<Rightarrow> strings" where
  "strings_of h = (\<lambda>x. map_option (str_at h) (objs h x))"

definition owned :: "heap \<Rightarrow> nat set" where
  "owned h = {a. \<exists>x. objs h x = Some (Some a)}"

definition heap_ok :: "heap \<Rightarrow> bool" where
  "heap_ok h \<longleftrightarrow>
     (\<forall>a \<in> dom (bufs h). a < fresh h)
     \<and> (\<forall>x a. objs h x = Some (Some a) \<longrightarrow> str_at h (Some a) \<noteq> None)
     \<and> (\<forall>x y a. objs h x = Some (Some a) \<and> objs h y = Some (Some a) \<longrightarrow> x = y)"

definition leaked :: "heap \<Rightarrow> nat set" where
  "leaked h = dom (bufs h) - owned h"

lemma str_at_simps [simp]: "str_at h None = None" "str_at h (Some a) = Option.bind (bufs h a) c_string"
  by (simp_all add: str_at_def)

lemma c_string_append: "NUL_char \<notin> set s \<Longrightarrow> c_string (map Some (s @ [NUL_char]) @ b) = Some s"
  by (induction s) auto

lemma c_string_Some: "c_string b = Some s \<Longrightarrow> NUL_char \<notin> set s \<and> (\<exists>r. b = map Some (s @ [NUL_char]) @ r)"
proof (induction b arbitrary: s rule: c_string.induct)
  case (1 c b)
  then show ?case by (cases "c = NUL_char") auto
qed auto

lemma c_string_length: "c_string b = Some s \<Longrightarrow> length s < length b"
  by (drule c_string_Some) auto

text \<open>What an object owns, and giving it a new buffer in place of that.\<close>

definition own :: "heap \<Rightarrow> nat \<Rightarrow> nat set" where
  "own h x = {a. objs h x = Some (Some a)}"

lemma owned_UN: "owned h = (\<Union>x. own h x)"
  by (auto simp: owned_def own_def)

lemma own_disjoint: "heap_ok h \<Longrightarrow> x \<noteq> y \<Longrightarrow> own h x \<inter> own h y = {}"
  by (auto simp: heap_ok_def own_def)

lemma own_string: "heap_ok h \<Longrightarrow> a \<in> own h y \<Longrightarrow> \<exists>s. str_at h (Some a) = Some s"
  by (auto simp: heap_ok_def own_def)

lemma own_allocated: "heap_ok h \<Longrightarrow> a \<in> own h y \<Longrightarrow> \<exists>b. bufs h a = Some b"
  using own_string [of h a y] by (cases "bufs h a") auto

lemma heap_fresh: "heap_ok h \<Longrightarrow> fresh h \<le> a \<Longrightarrow> bufs h a = None"
  by (cases "bufs h a") (auto simp: heap_ok_def dest!: bspec [of _ _ a])

lemma give_buffer:
  assumes ok: "heap_ok h" and bufs: "bufs h' = (bufs h |` (- own h x))(a \<mapsto> b)"
    and new: "fresh h \<le> a" "a < fresh h'" "c_string b = Some s" and objs: "objs h' = (objs h)(x \<mapsto> Some a)"
  shows "heap_ok h' \<and> strings_of h' = (strings_of h)(x \<mapsto> Some s) \<and> leaked h' = leaked h"
proof -
  have a: "bufs h a = None" using ok new(1) by (rule heap_fresh)
  then have not_a: "a \<notin> own h y" for y using own_allocated [OF ok, of a y] by auto
  have own': "own h' y = (if y = x then {a} else own h y)" for y by (auto simp: own_def objs)
  have keep: "bufs h' p = bufs h p" if "p \<in> own h y" "y \<noteq> x" for y p
  proof -
    have "p \<notin> own h x" "p \<noteq> a" using that own_disjoint [OF ok, of x y] not_a by auto
    then show ?thesis by (simp add: bufs)
  qed
  have "heap_ok h'"
    unfolding heap_ok_def
  proof (intro conjI allI impI ballI)
    show "p < fresh h'" if "p \<in> dom (bufs h')" for p
    proof (cases "p = a")
      case False
      then have "p \<in> dom (bufs h)" using that by (auto simp: bufs restrict_map_def split: if_splits)
      then have "p < fresh h" using ok by (simp add: heap_ok_def)
      then show ?thesis using new(1,2) by simp
    qed (use new(2) in simp)
    show "str_at h' (Some p) \<noteq> None" if "objs h' y = Some (Some p)" for y p
    proof (cases "y = x")
      case True
      then show ?thesis using that new(3) by (simp add: objs bufs)
    next
      case False
      then have "p \<in> own h y" using that by (simp add: objs own_def)
      then show ?thesis using keep [OF _ False] ok by (auto simp: heap_ok_def own_def)
    qed
    show "y = z" if "objs h' y = Some (Some p) \<and> objs h' z = Some (Some p)" for y z p
    proof -
      have "p \<in> own h' y" "p \<in> own h' z" using that by (simp_all add: own_def)
      then show ?thesis using own_disjoint [OF ok, of y z] not_a by (cases "y = x"; cases "z = x") (auto simp: own')
    qed
  qed
  moreover have "strings_of h' y = ((strings_of h)(x \<mapsto> Some s)) y" for y
  proof (cases "y = x")
    case True
    then show ?thesis by (simp add: strings_of_def objs bufs new(3))
  next
    case False
    have "str_at h' p = str_at h p" if "objs h y = Some p" for p
      using keep [OF _ False] that by (cases p) (auto simp: own_def)
    then show ?thesis using False by (cases "objs h y") (simp_all add: strings_of_def objs)
  qed
  moreover have "leaked h' = leaked h"
  proof -
    have "owned h' = insert a (\<Union>y \<in> - {x}. own h y)" by (auto simp: owned_UN own' split: if_splits)
    moreover have "dom (bufs h') = insert a (dom (bufs h) - own h x)" by (auto simp: bufs restrict_map_def split: if_splits)
    moreover have "a \<notin> dom (bufs h)" using a by auto
    ultimately show ?thesis unfolding leaked_def owned_UN by auto
  qed
  ultimately show ?thesis by (auto simp: fun_eq_iff)
qed

section \<open>Every command is defined where it should be\<close>

text \<open>Writing into a new buffer, and behind the string that is in one.\<close>

lemma write_new:
  "bufs h a = Some (replicate n None) \<Longrightarrow> length s < n \<Longrightarrow>
   write_str a 0 s h = Some (h\<lparr>bufs := (bufs h)(a \<mapsto> map Some (s @ [NUL_char]) @ replicate (n - length s - 1) None)\<rparr>)"
  by (simp add: write_str_def)

lemma write_behind:
  "bufs h a = Some (map Some (s @ [NUL_char]) @ replicate k None) \<Longrightarrow> length t \<le> k \<Longrightarrow>
   write_str a (length s) t h = Some (h\<lparr>bufs := (bufs h)(a \<mapsto> map Some ((s @ t) @ [NUL_char]) @ replicate (k - length t) None)\<rparr>)"
  by (simp add: write_str_def)

lemma until_null_id: "NUL_char \<notin> set s \<Longrightarrow> until_null s = s"
  by (auto simp: until_null_def takeWhile_eq_all_conv)

lemma until_null_clean [simp]: "NUL_char \<notin> set (until_null s)"
  by (auto simp: until_null_def dest: set_takeWhileD)

lemma until_null_fold [simp]: "takeWhile (\<lambda>c. c \<noteq> NUL_char) s = until_null s"
  by (simp add: until_null_def)

lemma holds_stringE:
  assumes "holds_string (strings_of h) x"
  obtains a b s where "objs h x = Some (Some a)" "bufs h a = Some b" "c_string b = Some s" "NUL_char \<notin> set s"
    "length s \<le> 2 ^ 63" "strings_of h x = Some (Some s)"
proof -
  obtain p s where "objs h x = Some p" "str_at h p = Some s" "length s \<le> 2 ^ 63"
    using assms by (auto simp: holds_string_def strings_of_def split: option.splits)
  then show thesis using that c_string_Some
    by (cases p) (auto simp: strings_of_def bind_eq_Some_conv)
qed

lemma not_live: "strings_of h x = None \<longleftrightarrow> objs h x = None"
  by (simp add: strings_of_def)

lemma own_None: "objs h x = None \<Longrightarrow> own h x = {}"
  by (simp add: own_def)

definition good :: "heap \<Rightarrow> heap option \<Rightarrow> strings \<Rightarrow> nat \<Rightarrow> bool" where
  "good h r st k \<longleftrightarrow>
     (\<exists>h'. r = Some h' \<and> heap_ok h' \<and> strings_of h' = st \<and> (finite (leaked h) \<longrightarrow> finite (leaked h') \<and> card (leaked h') = card (leaked h) + k))"

lemma goodI: "r = Some h' \<Longrightarrow> heap_ok h' \<and> strings_of h' = st \<and> leaked h' = leaked h \<Longrightarrow> good h r st 0"
  by (simp add: good_def)

lemma good_new:
  assumes "heap_ok h" "objs h x = None"
  shows "good h (String_new x (Some s) h) ((strings_of h)(x \<mapsto> Some (until_null s))) 0"
proof -
  let ?s = "until_null s" and ?a = "fresh h"
  let ?h = "h\<lparr>bufs := (bufs h)(?a \<mapsto> map Some (?s @ [NUL_char])), fresh := ?a + 1, objs := (objs h)(x \<mapsto> Some ?a)\<rparr>"
  have "String_new x (Some s) h = Some ?h"
    by (simp add: String_new_def new_chars_def Let_def set_ptr_def write_new del: replicate_Suc)
  moreover have "c_string (map Some (?s @ [NUL_char])) = Some ?s" using c_string_append [of ?s "[]"] by simp
  then have "heap_ok ?h \<and> strings_of ?h = (strings_of h)(x \<mapsto> Some ?s) \<and> leaked ?h = leaked h"
    using assms by (intro give_buffer [where a = ?a]) (auto simp: own_None)
  ultimately show ?thesis by (rule goodI)
qed

lemma good_default:
  assumes "heap_ok h" "objs h x = None"
  shows "good h (String_new x None h) ((strings_of h)(x \<mapsto> None)) 1"
proof -
  let ?h = "h\<lparr>bufs := (bufs h)(fresh h \<mapsto> [None]), fresh := fresh h + 1, objs := (objs h)(x \<mapsto> None)\<rparr>"
  have new: "bufs h (fresh h) = None" using assms(1) by (rule heap_fresh) simp
  have own: "own ?h y = own h y" for y using assms(2) by (auto simp: own_def)
  have keep: "p \<noteq> fresh h" if "p \<in> own h y" for p y using own_allocated [OF assms(1) that] new by auto
  have "heap_ok ?h"
    unfolding heap_ok_def
  proof (intro conjI allI impI ballI)
    show "p < fresh ?h" if "p \<in> dom (bufs ?h)" for p
      using that assms(1) by (cases "p = fresh h") (auto simp: heap_ok_def dest!: bspec [of _ _ p])
    show "str_at ?h (Some p) \<noteq> None" if "objs ?h y = Some (Some p)" for y p
    proof -
      have "p \<in> own h y" using that own by (simp add: own_def split: if_splits)
      then show ?thesis using keep own_string [OF assms(1)] by fastforce
    qed
    show "y = z" if "objs ?h y = Some (Some p) \<and> objs ?h z = Some (Some p)" for y z p
    proof -
      have "p \<in> own ?h y" "p \<in> own ?h z" using that by (simp_all add: own_def)
      then have "p \<in> own h y" "p \<in> own h z" unfolding own .
      then show ?thesis using own_disjoint [OF assms(1), of y z] by auto
    qed
  qed
  moreover have "strings_of ?h = (strings_of h)(x \<mapsto> None)"
  proof
    fix y
    have "str_at ?h p = str_at h p" if "objs h y = Some p" for p
      using that keep [of _ y] by (cases p) (auto simp: own_def)
    then show "strings_of ?h y = ((strings_of h)(x \<mapsto> None)) y" by (cases "objs h y") (auto simp: strings_of_def)
  qed
  moreover have "leaked ?h = insert (fresh h) (leaked h)" "fresh h \<notin> leaked h"
  proof -
    have "owned ?h = owned h" unfolding owned_UN own ..
    moreover have "fresh h \<notin> owned h" using keep by (auto simp: owned_UN)
    ultimately show "leaked ?h = insert (fresh h) (leaked h)" "fresh h \<notin> leaked h" using new by (auto simp: leaked_def)
  qed
  ultimately show ?thesis
    by (auto simp: good_def String_new_def new_chars_def set_ptr_def)
qed

lemma delete_own:
  assumes "heap_ok h" "objs h x = Some p"
  shows "delete_chars p h = Some (h\<lparr>bufs := bufs h |` (- own h x)\<rparr>)"
proof (cases p)
  case (Some a)
  then have "own h x = {a}" using assms(2) by (simp add: own_def)
  moreover have "bufs h a \<noteq> None" using own_allocated [OF assms(1), of a x] calculation by auto
  ultimately show ?thesis using Some by (auto simp: delete_chars_def restrict_complement_singleton_eq)
qed (use assms in \<open>simp add: delete_chars_def own_def restrict_map_def\<close>)

text \<open>The copy of a string that exists, for the copy constructor and, with the old buffer released, for the assignment.\<close>

lemma good_copy:
  assumes ok: "heap_ok h" and y: "objs h y = Some (Some p)" "bufs h p = Some b" "c_string b = Some s" "NUL_char \<notin> set s"
    and g: "bufs g = bufs h |` (- own h x)" "fresh g = fresh h" "objs g = objs h" "x \<noteq> y"
  shows "good h (do { let (a, h) = new_chars (length s + 1) g; strcpy a (Some p) (set_ptr x (Some a) h) }) ((strings_of h)(x \<mapsto> Some s)) 0"
proof -
  let ?a = "fresh h"
  let ?h = "g\<lparr>bufs := (bufs g)(?a \<mapsto> map Some (s @ [NUL_char])), fresh := ?a + 1, objs := (objs g)(x \<mapsto> Some ?a)\<rparr>"
  have "p \<in> own h y" using y(1) by (simp add: own_def)
  then have p: "p \<notin> own h x" "p \<noteq> ?a" using own_disjoint [OF ok g(4)] heap_fresh [OF ok, of ?a] y(2) by auto
  have "(do { let (a, h) = new_chars (length s + 1) g; strcpy a (Some p) (set_ptr x (Some a) h) }) = Some ?h"
    using p y g by (simp add: new_chars_def strcpy_def set_ptr_def write_new del: replicate_Suc)
  moreover have "c_string (map Some (s @ [NUL_char])) = Some s" using c_string_append [OF y(4), of "[]"] by simp
  then have "heap_ok ?h \<and> strings_of ?h = (strings_of h)(x \<mapsto> Some s) \<and> leaked ?h = leaked h"
    using g by (intro give_buffer [OF ok]) simp_all
  ultimately show ?thesis by (rule goodI)
qed

text \<open>A new buffer with two strings, one behind the other.\<close>

lemma strcat_new:
  assumes "bufs h a = Some (map Some (s @ [NUL_char]) @ replicate (length t) None)" "NUL_char \<notin> set s"
    and "p \<noteq> Some a" "str_at h p = Some t"
  shows "strcat a p h = Some (h\<lparr>bufs := (bufs h)(a \<mapsto> map Some ((s @ t) @ [NUL_char]))\<rparr>)"
  using assms write_behind [OF assms(1), of t] c_string_append [of s "replicate (length t) None"]
  by (simp add: strcat_def)

lemma good_append:
  assumes ok: "heap_ok h" and st: "holds_string (strings_of h) x" "holds_string (strings_of h) y" "x \<noteq> y"
  shows "good h (String_append x y h) ((strings_of h)(x \<mapsto> Some (str (strings_of h) x @ str (strings_of h) y))) 0"
proof -
  from st(1) obtain p b s where x: "objs h x = Some (Some p)" "bufs h p = Some b" "c_string b = Some s" "NUL_char \<notin> set s"
    "strings_of h x = Some (Some s)" by (rule holds_stringE)
  from st(2) obtain q c t where y: "objs h y = Some (Some q)" "bufs h q = Some c" "c_string c = Some t" "NUL_char \<notin> set t"
    "strings_of h y = Some (Some t)" by (rule holds_stringE)
  let ?a = "fresh h"
  let ?h = "h\<lparr>bufs := (bufs h |` (- own h x))(?a \<mapsto> map Some ((s @ t) @ [NUL_char])), fresh := ?a + 1, objs := (objs h)(x \<mapsto> Some ?a)\<rparr>"
  have own: "own h x = {p}" "own h y = {q}" using x y by (auto simp: own_def)
  have ne: "p \<noteq> q" "p \<noteq> ?a" "q \<noteq> ?a" using own_disjoint [OF ok st(3)] own heap_fresh [OF ok, of ?a] x y by auto
  let ?g = "h\<lparr>bufs := (bufs h)(?a \<mapsto> map Some (s @ [NUL_char]) @ replicate (length t) None), fresh := ?a + 1, objs := (objs h)(x \<mapsto> Some ?a)\<rparr>"
  let ?k = "?g\<lparr>bufs := (bufs ?g)(p := None)\<rparr>"
  have cpy: "strcpy ?a (Some p) (set_ptr x (Some ?a) (snd (new_chars (length s + length t + 1) h))) = Some ?g"
    using x ne by (simp add: new_chars_def strcpy_def set_ptr_def write_new del: replicate_Suc)
  have cat: "strcat ?a (Some q) ?k = Some (?k\<lparr>bufs := (bufs ?k)(?a \<mapsto> map Some ((s @ t) @ [NUL_char]))\<rparr>)"
    using x y ne by (intro strcat_new) auto
  have "?k\<lparr>bufs := (bufs ?k)(?a \<mapsto> map Some ((s @ t) @ [NUL_char]))\<rparr> = ?h"
    using ne by (auto simp: own restrict_map_def fun_eq_iff)
  moreover have "delete_chars (Some p) ?g = Some ?k" using x ne by (simp add: delete_chars_def)
  ultimately have "String_append x y h = Some ?h"
    using x y cpy cat st(3) by (simp add: String_append_def new_chars_def set_ptr_def del: replicate_Suc)
  moreover have "c_string (map Some ((s @ t) @ [NUL_char])) = Some (s @ t)"
    using c_string_append [of "s @ t" "[]"] x y by simp
  then have "heap_ok ?h \<and> strings_of ?h = (strings_of h)(x \<mapsto> Some (s @ t)) \<and> leaked ?h = leaked h"
    by (intro give_buffer [OF ok]) simp_all
  ultimately have "good h (String_append x y h) ((strings_of h)(x \<mapsto> Some (s @ t))) 0" by (rule goodI)
  then show ?thesis using x(5) y(5) by simp
qed

lemma good_destroy:
  assumes ok: "heap_ok h" and x: "objs h x = Some p"
  shows "good h (String_destroy x h) ((strings_of h)(x := None)) 0"
proof -
  let ?h = "h\<lparr>bufs := bufs h |` (- own h x), objs := (objs h)(x := None)\<rparr>"
  have own: "own ?h y = (if y = x then {} else own h y)" for y by (auto simp: own_def)
  have keep: "bufs ?h a = bufs h a" if "a \<in> own h y" "y \<noteq> x" for a y
  proof -
    have "a \<notin> own h x" using own_disjoint [OF ok, of x y] that by auto
    then show ?thesis by simp
  qed
  have "heap_ok ?h"
    unfolding heap_ok_def
  proof (intro conjI allI impI ballI)
    show "a < fresh ?h" if "a \<in> dom (bufs ?h)" for a
      using that ok by (auto simp: heap_ok_def restrict_map_def split: if_splits)
    show "str_at ?h (Some a) \<noteq> None" if "objs ?h y = Some (Some a)" for y a
    proof -
      have "a \<in> own h y" "y \<noteq> x" using that by (auto simp: own_def split: if_splits)
      then show ?thesis using keep own_string [OF ok, of a y] by auto
    qed
    show "y = z" if "objs ?h y = Some (Some a) \<and> objs ?h z = Some (Some a)" for y z a
      using that ok by (auto simp: heap_ok_def split: if_splits)
  qed
  moreover have "strings_of ?h = (strings_of h)(x := None)"
  proof
    fix y
    have "str_at ?h q = str_at h q" if "objs h y = Some q" "y \<noteq> x" for q
      using that keep [of _ y] by (cases q) (auto simp: own_def)
    then show "strings_of ?h y = ((strings_of h)(x := None)) y" by (cases "objs h y") (auto simp: strings_of_def)
  qed
  moreover have "leaked ?h = leaked h"
  proof -
    have "owned ?h = (\<Union>y \<in> - {x}. own h y)" unfolding owned_UN own by auto
    then show ?thesis by (auto simp: leaked_def owned_UN restrict_map_def split: if_splits)
  qed
  moreover have "String_destroy x h = Some ?h" using delete_own [OF ok x] x by (simp add: String_destroy_def)
  ultimately show ?thesis by (intro goodI) auto
qed

lemma good_bind:
  assumes "good h r st k" "\<And>g. heap_ok g \<Longrightarrow> strings_of g = st \<Longrightarrow> good g (f g) st' k'"
  shows "good h (Option.bind r f) st' (k + k')"
proof -
  obtain g where g: "r = Some g" "heap_ok g" "strings_of g = st"
    "finite (leaked h) \<longrightarrow> finite (leaked g) \<and> card (leaked g) = card (leaked h) + k"
    using assms(1) by (auto simp: good_def)
  from assms(2) [OF g(2,3)] g(1,4) show ?thesis by (auto simp: good_def)
qed

lemma good_assign:
  assumes "heap_ok h" "strings_of h x \<noteq> None" "x = y \<or> holds_string (strings_of h) y"
  shows "good h (String_assign x y h) (if x = y then strings_of h else (strings_of h)(x \<mapsto> Some (str (strings_of h) y))) 0"
proof (cases "x = y")
  case True
  then show ?thesis using assms(1) by (simp add: String_assign_def good_def)
next
  case False
  obtain p where x: "objs h x = Some p" using assms(2) by (auto simp: not_live)
  from False assms(3) obtain q b s where y: "objs h y = Some (Some q)" "bufs h q = Some b" "c_string b = Some s" "NUL_char \<notin> set s"
    "strings_of h y = Some (Some s)" by (auto elim: holds_stringE)
  let ?g = "h\<lparr>bufs := bufs h |` (- own h x)\<rparr>"
  have "q \<notin> own h x" using own_disjoint [OF assms(1) False] y(1) by (auto simp: own_def)
  then have "String_assign x y h = (do { let (a, h) = new_chars (length s + 1) ?g; strcpy a (Some q) (set_ptr x (Some a) h) })"
    using delete_own [OF assms(1) x] x y False by (simp add: String_assign_def)
  then show ?thesis using good_copy [OF assms(1) y(1-4), of ?g x] False y(5) by simp
qed

lemma restrict_everything [simp]: "m |` UNIV = m"
  by (simp add: restrict_map_def)

lemma good_copy_new:
  assumes "heap_ok h" "strings_of h x = None" "holds_string (strings_of h) y"
  shows "good h (String_copy x y h) ((strings_of h)(x \<mapsto> Some (str (strings_of h) y))) 0"
proof -
  from assms(3) obtain q b s where y: "objs h y = Some (Some q)" "bufs h q = Some b" "c_string b = Some s" "NUL_char \<notin> set s"
    "strings_of h y = Some (Some s)" by (rule holds_stringE)
  have "own h x = {}" using assms(2) by (simp add: own_None not_live)
  moreover have "x \<noteq> y" using assms(2) y(5) by auto
  ultimately show ?thesis using good_copy [OF assms(1) y(1-4), of h x] y by (simp add: String_copy_def)
qed

lemma good_plus:
  assumes "heap_ok h" "strings_of h t = None" "holds_string (strings_of h) x" "holds_string (strings_of h) y"
  shows "good h (String_plus t x y h) ((strings_of h)(t \<mapsto> Some (str (strings_of h) x @ str (strings_of h) y))) 1"
proof -
  let ?st = "(strings_of h)(t \<mapsto> Some (str (strings_of h) x @ str (strings_of h) y))"
  let ?cat = "\<lambda>h. do { p \<leftarrow> objs h x; s \<leftarrow> str_at h p; q \<leftarrow> objs h y; u \<leftarrow> str_at h q;
    let (a, h) = new_chars (length s + length u + 1) h; h \<leftarrow> strcpy a p (set_ptr t (Some a) h); strcat a q h }"
  have "good g (?cat g) ?st 0" if ok: "heap_ok g" and st: "strings_of g = (strings_of h)(t \<mapsto> None)" for g
  proof -
    have t: "t \<noteq> x" "t \<noteq> y" using assms(2-4) by (auto simp: holds_string_def)
    then have "holds_string (strings_of g) x" "holds_string (strings_of g) y" using assms(3,4) by (simp_all add: st holds_string_def)
    then obtain p b s q c u where x: "objs g x = Some (Some p)" "bufs g p = Some b" "c_string b = Some s" "NUL_char \<notin> set s"
        "strings_of g x = Some (Some s)"
      and y: "objs g y = Some (Some q)" "bufs g q = Some c" "c_string c = Some u" "NUL_char \<notin> set u" "strings_of g y = Some (Some u)"
      by (metis holds_stringE)
    let ?a = "fresh g"
    let ?g = "g\<lparr>bufs := (bufs g)(?a \<mapsto> map Some (s @ [NUL_char]) @ replicate (length u) None), fresh := ?a + 1, objs := (objs g)(t \<mapsto> Some ?a)\<rparr>"
    let ?k = "?g\<lparr>bufs := (bufs ?g)(?a \<mapsto> map Some ((s @ u) @ [NUL_char]))\<rparr>"
    have ne: "p \<noteq> ?a" "q \<noteq> ?a" using heap_fresh [OF ok, of ?a] x y by auto
    have cpy: "strcpy ?a (Some p) (set_ptr t (Some ?a) (snd (new_chars (length s + length u + 1) g))) = Some ?g"
      using x ne by (simp add: new_chars_def strcpy_def set_ptr_def write_new del: replicate_Suc)
    have cat: "strcat ?a (Some q) ?g = Some ?k" using x y ne by (intro strcat_new) auto
    have "?cat g = Some ?k" using x y cpy cat by (simp add: new_chars_def set_ptr_def del: replicate_Suc)
    moreover have "objs g t = Some None"
    proof -
      obtain p where p: "objs g t = Some p" "str_at g p = None"
        using fun_cong [OF st, of t] by (auto simp: strings_of_def)
      then have "p \<noteq> Some a" for a using ok unfolding heap_ok_def by metis
      then show ?thesis using p(1) by (cases p) auto
    qed
    then have "own g t = {}" by (simp add: own_def)
    moreover have "c_string (map Some ((s @ u) @ [NUL_char])) = Some (s @ u)" using c_string_append [of "s @ u" "[]"] x y by simp
    ultimately have "heap_ok ?k \<and> strings_of ?k = (strings_of g)(t \<mapsto> Some (s @ u)) \<and> leaked ?k = leaked g"
      by (intro give_buffer [OF ok]) simp_all
    moreover have "(strings_of g)(t \<mapsto> Some (s @ u)) = ?st" using x(5) y(5) t unfolding st by (auto simp: fun_eq_iff)
    ultimately show ?thesis using \<open>?cat g = Some ?k\<close> by (intro goodI) simp_all
  qed
  from good_bind [OF good_default [OF assms(1)] this] assms(2) show ?thesis by (simp add: String_plus_def not_live)
qed

lemma c_string_until_null: "c_string (map Some (s @ [NUL_char]) @ r) = Some (until_null s)"
  by (induction s) (auto simp: until_null_def simp del: until_null_fold)

lemma good_put:
  assumes ok: "heap_ok h" and x: "holds_string (strings_of h) x" and i: "- (2 ^ 31) \<le> i" "i < 2 ^ 31"
  shows "good h (exec (Put x i c) h) (cmd_effect (Put x i c) (strings_of h)) 0"
proof -
  from x obtain p b s where x: "objs h x = Some (Some p)" "bufs h p = Some b" "c_string b = Some s" "NUL_char \<notin> set s"
    "length s \<le> 2 ^ 63" "strings_of h x = Some (Some s)" by (rule holds_stringE)
  obtain r where b: "b = map Some (s @ [NUL_char]) @ r" using c_string_Some [OF x(3)] by blast
  show ?thesis
  proof (cases "0 \<le> i \<and> i < int (length s)")
    case False
    have "int (length s) \<le> 2 ^ 63" using x(5) by (metis of_nat_le_iff of_nat_numeral of_nat_power)
    then have "String_index x i h = Some (Inl ''index error'')" using False i x by (auto simp: String_index_def)
    then have "exec (Put x i c) h = Some h" by simp
    moreover have "cmd_effect (Put x i c) (strings_of h) = strings_of h" using False x(6) by auto
    ultimately show ?thesis using ok by (simp add: good_def)
  next
    case True
    let ?b = "b[nat i := Some c]"
    let ?h = "h\<lparr>bufs := (bufs h)(p \<mapsto> ?b)\<rparr>"
    have "String_index x i h = Some (Inr (p, nat i))" using True x by (simp add: String_index_def)
    moreover have "nat i < length s" using True by linarith
    ultimately have exec: "exec (Put x i c) h = Some ?h" using x b by (simp add: put_char_def)
    have "?b = map Some (s[nat i := c] @ [NUL_char]) @ r" using \<open>nat i < length s\<close> by (simp add: b list_update_append map_update)
    then have str: "c_string ?b = Some (until_null (s[nat i := c]))" by (simp only: c_string_until_null)
    have mine: "objs h y = Some (Some p) \<longleftrightarrow> y = x" for y using ok x(1) by (auto simp: heap_ok_def)
    have "heap_ok ?h"
      unfolding heap_ok_def
    proof (intro conjI allI impI ballI)
      show "a < fresh ?h" if "a \<in> dom (bufs ?h)" for a using that ok x(2) by (auto simp: heap_ok_def split: if_splits)
      show "str_at ?h (Some a) \<noteq> None" if "objs ?h y = Some (Some a)" for y a
        using that ok str by (cases "a = p") (auto simp: heap_ok_def)
      show "y = z" if "objs ?h y = Some (Some a) \<and> objs ?h z = Some (Some a)" for y z a using that ok by (simp add: heap_ok_def)
    qed
    moreover have "strings_of ?h = (strings_of h)(x \<mapsto> Some (until_null (s[nat i := c])))"
    proof
      fix y
      have "str_at ?h q = str_at h q" if "objs h y = Some q" "y \<noteq> x" for q using that mine [of y] by (cases q) auto
      then show "strings_of ?h y = ((strings_of h)(x \<mapsto> Some (until_null (s[nat i := c])))) y"
        using x(1) str by (cases "objs h y") (auto simp: strings_of_def)
    qed
    moreover have "leaked ?h = leaked h" using x(2) by (auto simp: leaked_def owned_def)
    ultimately show ?thesis using exec True x(6) by (intro goodI [where h' = ?h]) auto
  qed
qed

lemma good_input:
  assumes "heap_ok h" "strings_of h x \<noteq> None" "strings_of h t = None"
  shows "good h (String_input x t inp h) ((strings_of h)(x \<mapsto> Some (until_null (get_line inp)))) 0"
proof -
  let ?s = "until_null (get_line inp)"
  have xt: "x \<noteq> t" using assms(2,3) by auto
  have "length ?s \<le> length (get_line inp)" by (simp add: until_null_def length_takeWhile_le del: until_null_fold)
  also have "\<dots> \<le> 2 ^ 63" by (simp add: get_line_def)
  finally have len: "length ?s \<le> 2 ^ 63" .
  have "good g (String_assign x t g) ((strings_of h)(t \<mapsto> Some ?s, x \<mapsto> Some ?s)) 0"
    if g: "heap_ok g" "strings_of g = (strings_of h)(t \<mapsto> Some ?s)" for g
  proof -
    have "strings_of g x \<noteq> None" "holds_string (strings_of g) t" using assms(2) len xt by (simp_all add: g(2) holds_string_def)
    from good_assign [OF g(1) this(1) disjI2 [OF this(2)]] show ?thesis using xt by (simp add: g(2))
  qed
  moreover have "good g (String_destroy t g) ((strings_of h)(x \<mapsto> Some ?s)) 0"
    if g: "heap_ok g" "strings_of g = (strings_of h)(t \<mapsto> Some ?s, x \<mapsto> Some ?s)" for g
  proof -
    obtain p where "objs g t = Some p" using fun_cong [OF g(2), of t] xt by (auto simp: strings_of_def)
    from good_destroy [OF g(1) this] show ?thesis using assms(3) xt by (simp add: g(2) fun_upd_twist fun_upd_idem)
  qed
  ultimately have "good h (String_input x t inp h) ((strings_of h)(x \<mapsto> Some ?s)) (0 + (0 + 0))"
    unfolding String_input_def using assms(3)
    by (intro good_bind [OF good_new [OF assms(1)]] good_bind) (auto simp: not_live)
  then show ?thesis by simp
qed

theorem exec_good:
  assumes "heap_ok h" "cmd_ok c (strings_of h)"
  shows "good h (exec c h) (cmd_effect c (strings_of h)) (cmd_leak c)"
proof (cases c)
  case (Construct x s)
  then show ?thesis using assms good_new good_default by (cases s) (auto simp: not_live)
next
  case (Copy x y)
  then show ?thesis using assms good_copy_new by simp
next
  case (Assign x y)
  then show ?thesis using assms good_assign [of h x y] by auto
next
  case (Put x i c)
  then show ?thesis using assms good_put by (simp del: exec.simps cmd_effect.simps)
next
  case (Append x y)
  then show ?thesis using assms good_append by simp
next
  case (Plus t x y)
  then show ?thesis using assms good_plus by simp
next
  case (Input x t inp)
  then show ?thesis using assms good_input by simp
next
  case (Destroy x)
  then show ?thesis using assms good_destroy by (auto simp: not_live)
qed

lemma leaked_finite: "heap_ok h \<Longrightarrow> finite (leaked h)"
  by (rule finite_subset [of _ "{..<fresh h}"]) (auto simp: leaked_def heap_ok_def)

fun run_cmds :: "cmd list \<Rightarrow> heap \<Rightarrow> heap option" where
  "run_cmds [] h = Some h"
| "run_cmds (c # cs) h = Option.bind (exec c h) (run_cmds cs)"

fun prog_ok :: "cmd list \<Rightarrow> strings \<Rightarrow> bool" where
  "prog_ok [] st = True"
| "prog_ok (c # cs) st \<longleftrightarrow> cmd_ok c st \<and> prog_ok cs (cmd_effect c st)"

text \<open>
  C31. Programs that use the class do not go wrong: if every command meets its condition, where conditions and
  effects are those of a table of strings, no function reads or writes outside what is allocated, the
  objects hold the strings of the table at the end, no buffer is shared, and the buffers that are lost are one
  for each default construction and one for each \<open>+\<close>.
\<close>

theorem strings_do_not_go_wrong:
  assumes "heap_ok h" "prog_ok cs (strings_of h)"
  shows "\<exists>h'. run_cmds cs h = Some h' \<and> heap_ok h' \<and> strings_of h' = fold cmd_effect cs (strings_of h)
    \<and> card (leaked h') = card (leaked h) + sum_list (map cmd_leak cs)"
  using assms
proof (induction cs arbitrary: h)
  case (Cons c cs)
  then obtain g where g: "exec c h = Some g" "heap_ok g" "strings_of g = cmd_effect c (strings_of h)"
    "card (leaked g) = card (leaked h) + cmd_leak c"
    using exec_good [of h c] leaked_finite [of h] by (auto simp: good_def)
  then show ?case using Cons.IH [OF g(2)] Cons.prems(2) by auto
qed simp

text \<open>The program's own \<open>main\<close>, reading the line in its last argument.\<close>

definition string_main :: "string \<Rightarrow> cmd list" where
  "string_main line = [Construct 0 (Some ''hello''), Copy 1 0, Construct 2 None, Assign 2 0, Input 2 3 line]"

definition empty_heap :: heap where
  "empty_heap = \<lparr>bufs = Map.empty, fresh = 0, objs = Map.empty\<rparr>"

theorem strings_do_not_go_wrong_witness:
  "\<exists>h'. run_cmds (string_main ''hi'') empty_heap = Some h' \<and> heap_ok h' \<and> strings_of h' 2 = Some (Some ''hi'') \<and> card (leaked h') = 1"
proof -
  have ok: "heap_ok empty_heap" "leaked empty_heap = {}" and st: "strings_of empty_heap = Map.empty"
    by (auto simp: heap_ok_def empty_heap_def leaked_def strings_of_def)
  have "prog_ok (string_main ''hi'') (strings_of empty_heap)"
    unfolding st string_main_def by (simp add: holds_string_def until_null_def del: until_null_fold)
  from strings_do_not_go_wrong [OF ok(1) this] obtain h' where h': "run_cmds (string_main ''hi'') empty_heap = Some h'" "heap_ok h'"
    "strings_of h' = fold cmd_effect (string_main ''hi'') Map.empty" "card (leaked h') = 1"
    unfolding st ok(2) by (auto simp: string_main_def)
  moreover have "strings_of h' 2 = Some (Some ''hi'')"
    unfolding h'(3) string_main_def by (simp add: until_null_def get_line_def del: until_null_fold)
  ultimately show ?thesis by blast
qed

text \<open>
  What the conditions rule out does go wrong: a default constructed string as an operand, because its pointer
  is null, and a string that is appended to itself, because \<open>strcat\<close> then copies from its own destination.
\<close>

lemma default_string_faults:
  assumes "objs h y = Some None" "x \<noteq> y"
  shows "String_copy x y h = None" "String_assign x y h = None" "String_append x y h = None" "String_append y x h = None"
    "String_plus t x y h = None \<or> t = y" "String_equal x y h = None" "String_index y i h = None" "String_output prefix y h = None"
proof -
  show "String_assign x y h = None"
  proof -
    have "objs g = objs h" if "delete_chars p h = Some g" for p g
      using that by (auto simp: delete_chars_def split: option.splits if_splits)
    then show ?thesis using assms by (auto simp: String_assign_def bind_eq_None_conv)
  qed
  show "String_plus t x y h = None \<or> t = y"
    using assms by (auto simp: String_plus_def String_new_def new_chars_def set_ptr_def bind_eq_None_conv)
qed (use assms in \<open>auto simp: String_copy_def String_append_def String_equal_def String_index_def String_output_def bind_eq_None_conv\<close>)

lemma self_append_faults: "String_append x x h = None"
proof -
  have "strcat a (Some a) h = None" for a h by (simp add: strcat_def)
  moreover have "objs g x = Some (Some a)" if "strcpy a tmp (set_ptr x (Some a) k) = Some f" "delete_chars tmp f = Some g" for a tmp k f g
    using that by (auto simp: strcpy_def write_str_def delete_chars_def set_ptr_def bind_eq_Some_conv split: option.splits if_splits)
  ultimately show ?thesis by (auto simp: String_append_def bind_eq_None_conv new_chars_def)
qed

end
