(* ===== verification/Fork_Servers.thy ===== *)
theory Fork_Servers
  imports Slot_Scan
begin

text \<open>
  The servers with a process or a thread per connection,
  \<^verbatim>\<open>src/Linux_Net/concurrent/mult_process_concurrent/server.c\<close> and
  \<^verbatim>\<open>src/Linux_Net/concurrent/mult_thread_concurrent/server.c\<close>. Both run the same loop for a connection. A
  connection is the script of its reads and writes, with what has been read and written so far.
\<close>

section \<open>One connection\<close>

record conn =
  c_in :: "answer list"
  c_out :: "wanswer list"
  c_got :: string
  c_sent :: string

definition new_conn :: conn where
  "new_conn = \<lparr>c_in = [], c_out = [], c_got = [], c_sent = []\<rparr>"

definition W_MAXLINE :: nat where
  "W_MAXLINE = 8192"

text \<open>
  One turn of the loop. \<open>Exits\<close> is the end of the stream. After an error \<open>n\<close> is -1, and the whole address
  space is offered to \<open>Write\<close>: \<open>Undefined\<close>.
\<close>

definition work_round :: "conn \<Rightarrow> conn outcome" where
  "work_round c =
     (case Read W_MAXLINE (c_in c) of
        None \<Rightarrow> Blocks
      | Some (Err e, rest) \<Rightarrow> Undefined
      | Some (Got s, rest) \<Rightarrow>
          if s = [] then Exits
          else
            (let buf = map toupper s in
             case Write buf (c_out c) of
               (r, out, ws) \<Rightarrow> Next (c\<lparr>c_in := rest, c_out := ws, c_got := c_got c @ s, c_sent := c_sent c @ out\<rparr>)))"

text \<open>What happens around a connection: data, errors and the end arrive, and writes are interrupted.\<close>

inductive conn_env :: "conn \<Rightarrow> conn \<Rightarrow> bool" where
  ce_arrive: "conn_env c (c\<lparr>c_in := c_in c @ [a]\<rparr>)"
| ce_interrupt: "conn_env c (c\<lparr>c_out := c_out c @ [WErr EINTR]\<rparr>)"

definition served :: "conn \<Rightarrow> bool" where
  "served c \<longleftrightarrow> c_sent c = map toupper (c_got c) \<and> (\<forall>a \<in> set (c_out c). interrupt_only a)"

lemma served_new [simp]: "served new_conn"
  by (simp add: served_def new_conn_def)

lemma served_env: "conn_env c c' \<Longrightarrow> served c \<Longrightarrow> served c'"
  by (auto simp: served_def elim!: conn_env.cases)

lemma served_round:
  assumes "work_round c = Next c'" "served c"
  shows "served c'"
proof -
  obtain s rest where s: "Read W_MAXLINE (c_in c) = Some (Got s, rest)" "s \<noteq> []"
    using assms(1) by (auto simp: work_round_def split: option.splits answer.splits if_splits)
  obtain ws' where "Write (map toupper s) (c_out c) = (int (length s), map toupper s, ws')" "set ws' \<subseteq> set (c_out c)"
    using Write_interrupt_only [of "c_out c" "map toupper s"] assms(2) by (auto simp: served_def)
  then show ?thesis using assms s by (auto simp: work_round_def served_def)
qed

section \<open>A process per connection\<close>

datatype child = Running | Zombie | Reaped

text \<open>
  The parent is in \<open>Accept\<close>, or between it and \<open>fork\<close> with a descriptor of the connection. The children
  are numbered as they are forked. \<open>sigchld\<close> is the pending signal, and \<open>handling\<close> means that the handler is
  running, during which the signal is blocked.
\<close>

record fork_server =
  f_queue :: "accept_answer list"
  holding :: bool
  kids :: "(conn \<times> child) list"
  sigchld :: bool
  handling :: bool
  ended :: bool

definition fork_init :: fork_server where
  "fork_init = \<lparr>f_queue = [], holding = False, kids = [], sigchld = False, handling = False, ended = False\<rparr>"

definition parent_accept :: "fork_server \<Rightarrow> fork_server option" where
  "parent_accept s =
     (case Accept (f_queue s) of
        None \<Rightarrow> None
      | Some (AErr e, q) \<Rightarrow> Some (s\<lparr>f_queue := q, ended := True\<rparr>)
      | Some (Conn, q) \<Rightarrow> Some (s\<lparr>f_queue := q, holding := True\<rparr>))"

text \<open>\<open>fork\<close>: the parent closes its descriptor, or ends in \<open>perr_exit\<close>.\<close>

definition parent_fork :: "bool \<Rightarrow> fork_server \<Rightarrow> fork_server" where
  "parent_fork forked s =
     (if forked then s\<lparr>kids := kids s @ [(new_conn, Running)], holding := False\<rparr> else s\<lparr>ended := True\<rparr>)"

definition child_round :: "nat \<Rightarrow> fork_server \<Rightarrow> fork_server outcome" where
  "child_round i s =
     (case work_round (fst (kids s ! i)) of
        Next c \<Rightarrow> Next (s\<lparr>kids := (kids s)[i := (c, Running)]\<rparr>)
      | Exits \<Rightarrow> Next (s\<lparr>kids := (kids s)[i := (fst (kids s ! i), Zombie)], sigchld := True\<rparr>)
      | Blocks \<Rightarrow> Blocks
      | Undefined \<Rightarrow> Undefined)"

text \<open>\<open>do_sigchild\<close>: delivery of the signal, and one call of \<open>waitpid\<close>, which takes a zombie or ends the loop.\<close>

definition deliver_sigchld :: "fork_server \<Rightarrow> fork_server" where
  "deliver_sigchld s = s\<lparr>sigchld := False, handling := True\<rparr>"

definition waitpid_one :: "fork_server \<Rightarrow> nat option" where
  "waitpid_one s = List.find (\<lambda>i. snd (kids s ! i) = Zombie) [0..<length (kids s)]"

definition do_sigchild :: "fork_server \<Rightarrow> fork_server" where
  "do_sigchild s =
     (case waitpid_one s of
        Some i \<Rightarrow> s\<lparr>kids := (kids s)[i := (fst (kids s ! i), Reaped)]\<rparr>
      | None \<Rightarrow> s\<lparr>handling := False\<rparr>)"

inductive fork_step :: "fork_server \<Rightarrow> fork_server \<Rightarrow> bool" where
  fk_connect: "fork_step s (s\<lparr>f_queue := f_queue s @ [a]\<rparr>)"
| fk_accept: "\<not> ended s \<Longrightarrow> \<not> handling s \<Longrightarrow> \<not> holding s \<Longrightarrow> parent_accept s = Some s' \<Longrightarrow> fork_step s s'"
| fk_fork: "\<not> ended s \<Longrightarrow> \<not> handling s \<Longrightarrow> holding s \<Longrightarrow> fork_step s (parent_fork b s)"
| fk_env: "i < length (kids s) \<Longrightarrow> kids s ! i = (c, k) \<Longrightarrow> conn_env c c' \<Longrightarrow> fork_step s (s\<lparr>kids := (kids s)[i := (c', k)]\<rparr>)"
| fk_child: "i < length (kids s) \<Longrightarrow> snd (kids s ! i) = Running \<Longrightarrow> child_round i s = Next s' \<Longrightarrow> fork_step s s'"
| fk_signal: "\<not> ended s \<Longrightarrow> sigchld s \<Longrightarrow> \<not> handling s \<Longrightarrow> fork_step s (deliver_sigchld s)"
| fk_handler: "\<not> ended s \<Longrightarrow> handling s \<Longrightarrow> fork_step s (do_sigchild s)"

definition zombies :: "fork_server \<Rightarrow> nat set" where
  "zombies s = {i. i < length (kids s) \<and> snd (kids s ! i) = Zombie}"

definition fork_inv :: "fork_server \<Rightarrow> bool" where
  "fork_inv s \<longleftrightarrow> (\<forall>i < length (kids s). served (fst (kids s ! i)))"

lemma find_upt: "List.find P [0..<n] = None \<longleftrightarrow> (\<forall>i<n. \<not> P i)" "List.find P [0..<n] = Some i \<Longrightarrow> i < n \<and> P i"
  by (auto simp: find_None_iff find_Some_iff)

lemma waitpid_one: "waitpid_one s = None \<longleftrightarrow> zombies s = {}" "waitpid_one s = Some i \<Longrightarrow> i \<in> zombies s"
  using find_upt [of "\<lambda>i. snd (kids s ! i) = Zombie" "length (kids s)"] by (auto simp: waitpid_one_def zombies_def)

lemma fork_inv_step:
  assumes inv: "fork_inv s" and step: "fork_step s t"
  shows "fork_inv t"
  using step
proof cases
  case (fk_accept)
  then show ?thesis using inv by (auto simp: parent_accept_def fork_inv_def split: option.splits accept_answer.splits)
next
  case (fk_fork b)
  then show ?thesis using inv by (auto simp: parent_fork_def fork_inv_def nth_append less_Suc_eq split: if_splits)
next
  case (fk_env i c k c')
  then have "served c'" using inv served_env by (fastforce simp: fork_inv_def)
  then show ?thesis using inv fk_env by (auto simp: fork_inv_def nth_list_update)
next
  case (fk_child i)
  then show ?thesis using inv
    by (auto simp: child_round_def fork_inv_def nth_list_update dest: served_round split: outcome.splits)
next
  case fk_handler
  then show ?thesis using inv waitpid_one(2) [of s]
    by (auto simp: do_sigchild_def fork_inv_def zombies_def nth_list_update split: option.splits)
qed (use inv in \<open>auto simp: fork_inv_def deliver_sigchld_def\<close>)

interpretation forking: invariant_system "\<lambda>s. s = fork_init" fork_step fork_inv
proof
  show "fork_inv s" if "s = fork_init" for s using that by (simp add: fork_init_def fork_inv_def)
qed (rule fork_inv_step)

text \<open>
  What a parent needs so as not to forget a child that has ended: whoever becomes a zombie raises an alarm, and the
  alarm ends only when there are none.
\<close>

locale reaper =
  fixes init :: "'s \<Rightarrow> bool" and step :: "'s \<Rightarrow> 's \<Rightarrow> bool" and zombies :: "'s \<Rightarrow> nat set" and alarmed :: "'s \<Rightarrow> bool"
  assumes none: "init s \<Longrightarrow> zombies s = {}"
    and raised: "step s t \<Longrightarrow> zombies t \<subseteq> zombies s \<or> alarmed t"
    and ended: "step s t \<Longrightarrow> alarmed s \<Longrightarrow> alarmed t \<or> zombies t = {}"
begin

lemma noticed: "reach init step s \<Longrightarrow> zombies s = {} \<or> alarmed s"
proof (induction rule: reach.induct)
  case (reach_step s t)
  then show ?case using raised [of s t] ended [of s t] by auto
qed (simp add: none)

end

interpretation fork_reaper: reaper "\<lambda>s. s = fork_init" fork_step zombies "\<lambda>s. sigchld s \<or> handling s"
proof
  show "zombies s = {}" if "s = fork_init" for s using that by (simp add: fork_init_def zombies_def)
  show "zombies t \<subseteq> zombies s \<or> sigchld t \<or> handling t" if "fork_step s t" for s t
    using that
  proof cases
    case fk_accept
    then show ?thesis by (auto simp: parent_accept_def zombies_def split: option.splits accept_answer.splits)
  next
    case fk_fork
    then show ?thesis by (auto simp: parent_fork_def zombies_def nth_append less_Suc_eq split: if_splits)
  next
    case fk_env
    then show ?thesis by (auto simp: zombies_def nth_list_update split: if_splits)
  next
    case fk_child
    then show ?thesis by (auto simp: child_round_def zombies_def nth_list_update split: outcome.splits if_splits)
  next
    case fk_handler
    then show ?thesis using waitpid_one(2) [of s]
      by (auto simp: do_sigchild_def zombies_def nth_list_update split: option.splits if_splits)
  qed (auto simp: zombies_def deliver_sigchld_def)
  show "(sigchld t \<or> handling t) \<or> zombies t = {}" if "fork_step s t" "sigchld s \<or> handling s" for s t
    using that(1)
  proof cases
    case fk_accept
    then show ?thesis using that(2) by (auto simp: parent_accept_def split: option.splits accept_answer.splits)
  next
    case fk_fork
    then show ?thesis using that(2) by (auto simp: parent_fork_def)
  next
    case fk_child
    then show ?thesis using that(2) by (auto simp: child_round_def split: outcome.splits)
  next
    case fk_handler
    then show ?thesis using waitpid_one(1) [of s] by (auto simp: do_sigchild_def zombies_def split: option.splits)
  qed (use that(2) in \<open>auto simp: deliver_sigchld_def\<close>)
qed

text \<open>
  C32. The server with a process per connection: in every interleaving of parent, children, signal handler and
  network, every connection has been sent what it sent, in upper case, and no zombie is forgotten: as long as
  there is one, the signal is pending or its handler is running, and every call of \<open>waitpid\<close> in the handler
  takes one away.
\<close>

theorem fork_server_serves:
  assumes "reach (\<lambda>s. s = fork_init) fork_step s"
  shows "list_all (\<lambda>(c, k). c_sent c = map toupper (c_got c)) (kids s)
    \<and> (zombies s \<noteq> {} \<longrightarrow> sigchld s \<or> handling s)
    \<and> (if zombies s = {} then handling (do_sigchild s) = False else card (zombies (do_sigchild s)) < card (zombies s))"
proof -
  have inv: "fork_inv s" using assms by (rule forking.invariant)
  then have "list_all (\<lambda>(c, k). c_sent c = map toupper (c_got c)) (kids s)"
    by (auto simp: list_all_length fork_inv_def served_def split: prod.splits)
  moreover have "card (zombies (do_sigchild s)) < card (zombies s)" if some: "zombies s \<noteq> {}"
  proof -
    obtain i where i: "waitpid_one s = Some i" using some waitpid_one(1) [of s] by auto
    moreover from this have "i < length (kids s)" using waitpid_one(2) [of s i] by (simp add: zombies_def)
    ultimately have "zombies (do_sigchild s) = zombies s - {i}"
      by (auto simp: do_sigchild_def zombies_def nth_list_update split: if_splits)
    moreover have "finite (zombies s)" by (rule finite_subset [of _ "{..<length (kids s)}"]) (auto simp: zombies_def)
    ultimately show ?thesis using waitpid_one(2) [OF i] by (metis card_Diff1_less)
  qed
  moreover have "handling (do_sigchild s) = False" if "zombies s = {}"
    using that waitpid_one(1) [of s] by (simp add: do_sigchild_def)
  ultimately show ?thesis using fork_reaper.noticed [OF assms] by auto
qed

lemma fork_main_step: "fork_step fork_init (fork_init\<lparr>f_queue := [Conn]\<rparr>)"
  using fk_connect [of fork_init Conn] by (simp add: fork_init_def)

theorem fork_server_serves_witness:
  "\<not> handling (do_sigchild (fork_init\<lparr>f_queue := [Conn]\<rparr>))"
proof -
  have "reach (\<lambda>s. s = fork_init) fork_step (fork_init\<lparr>f_queue := [Conn]\<rparr>)"
    using fork_main_step by (intro reach_one [of _ fork_init]) auto
  moreover have "zombies (fork_init\<lparr>f_queue := [Conn]\<rparr>) = {}" by (simp add: zombies_def fork_init_def)
  ultimately show ?thesis using fork_server_serves by (metis (full_types))
qed

section \<open>A thread per connection\<close>

text \<open>
  Every accepted connection takes the next element of the array \<open>ts\<close> of 256, and its thread works on that
  element. A thread that could not be created leaves its connection open and unserved.
\<close>

datatype work_thread = Working | Finished | Not_started

record thread_server =
  t_queue :: "accept_answer list"
  ts :: "(conn \<times> work_thread) list"

definition thread_init :: thread_server where
  "thread_init = \<lparr>t_queue = [], ts = []\<rparr>"

definition ts_size :: nat where
  "ts_size = 256"

definition thread_accept :: "bool \<Rightarrow> thread_server \<Rightarrow> thread_server outcome" where
  "thread_accept created s =
     (case Accept (t_queue s) of
        None \<Rightarrow> Blocks
      | Some (AErr e, q) \<Rightarrow> Exits
      | Some (Conn, q) \<Rightarrow>
          if length (ts s) \<ge> ts_size then Undefined
          else Next (s\<lparr>t_queue := q, ts := ts s @ [(new_conn, if created then Working else Not_started)]\<rparr>))"

definition do_work :: "nat \<Rightarrow> thread_server \<Rightarrow> thread_server outcome" where
  "do_work i s =
     (case work_round (fst (ts s ! i)) of
        Next c \<Rightarrow> Next (s\<lparr>ts := (ts s)[i := (c, Working)]\<rparr>)
      | Exits \<Rightarrow> Next (s\<lparr>ts := (ts s)[i := (fst (ts s ! i), Finished)]\<rparr>)
      | Blocks \<Rightarrow> Blocks
      | Undefined \<Rightarrow> Undefined)"

inductive thread_step :: "thread_server \<Rightarrow> thread_server \<Rightarrow> bool" where
  th_connect: "thread_step s (s\<lparr>t_queue := t_queue s @ [a]\<rparr>)"
| th_accept: "thread_accept created s = Next s' \<Longrightarrow> thread_step s s'"
| th_env: "i < length (ts s) \<Longrightarrow> ts s ! i = (c, k) \<Longrightarrow> conn_env c c' \<Longrightarrow> thread_step s (s\<lparr>ts := (ts s)[i := (c', k)]\<rparr>)"
| th_work: "i < length (ts s) \<Longrightarrow> snd (ts s ! i) = Working \<Longrightarrow> do_work i s = Next s' \<Longrightarrow> thread_step s s'"

definition thread_inv :: "thread_server \<Rightarrow> bool" where
  "thread_inv s \<longleftrightarrow> (\<forall>i < length (ts s). served (fst (ts s ! i))) \<and> length (ts s) \<le> ts_size"

lemma thread_inv_step:
  assumes inv: "thread_inv s" and step: "thread_step s t"
  shows "thread_inv t"
  using step
proof cases
  case (th_accept created)
  then show ?thesis using inv
    by (auto simp: thread_accept_def thread_inv_def nth_append less_Suc_eq split: option.splits accept_answer.splits if_splits)
next
  case (th_env i c k c')
  then have "served c'" using inv served_env by (fastforce simp: thread_inv_def)
  then show ?thesis using inv th_env by (auto simp: thread_inv_def nth_list_update)
next
  case (th_work i)
  then show ?thesis using inv
    by (auto simp: do_work_def thread_inv_def nth_list_update dest: served_round split: outcome.splits)
qed (use inv in \<open>auto simp: thread_inv_def\<close>)

interpretation threads: invariant_system "\<lambda>s. s = thread_init" thread_step thread_inv
proof
  show "thread_inv s" if "s = thread_init" for s using that by (simp add: thread_init_def thread_inv_def)
qed (rule thread_inv_step)

text \<open>
  The server with a thread per connection answers in the same way, as long as it lives: the 257th connection
  is written behind the end of the array, however many of the earlier ones are closed by then.
\<close>

theorem thread_server_serves:
  assumes "reach (\<lambda>s. s = thread_init) thread_step s"
  shows "list_all (\<lambda>(c, k). c_sent c = map toupper (c_got c)) (ts s)
    \<and> (thread_accept created s = Undefined \<longleftrightarrow> length (ts s) = 256 \<and> (\<exists>q. Accept (t_queue s) = Some (Conn, q)))"
proof -
  have inv: "thread_inv s" using assms by (rule threads.invariant)
  then show ?thesis
    by (auto simp: list_all_length thread_inv_def served_def thread_accept_def ts_size_def
        split: prod.splits option.splits accept_answer.splits if_splits)
qed

end
