(* ===== verification/Asio_Echo.thy ===== *)
theory Asio_Echo
  imports Fork_Servers
begin

text \<open>
  The asynchronous echo servers of \<^verbatim>\<open>src/boost\<close>: \<^verbatim>\<open>async_tcp_echo_server.cpp\<close>, the one with its own memory for
  handlers (the first of the numbered examples), and \<^verbatim>\<open>process_per_connection.cpp\<close>, which forks. Completion
  handlers are steps. \<open>async_write\<close> is composed of writes that each take a part of what is left.
\<close>

section \<open>The session\<close>

text \<open>
  The operation that is under way: a read, or the write of what is left of the buffer. \<open>arrived\<close> is what the
  socket has received and the program has not read, \<open>got\<close> and \<open>sent\<close> what it has read and written.
\<close>

datatype operation = Reading | Writing string | Stopped

record echo_session =
  operation :: operation
  es_data :: string
  arrived :: string
  es_got :: string
  es_sent :: string

definition max_length :: nat where
  "max_length = 1024"

definition es_do_read :: "echo_session \<Rightarrow> echo_session" where
  "es_do_read s = s\<lparr>operation := Reading\<rparr>"

definition es_do_write :: "nat \<Rightarrow> echo_session \<Rightarrow> echo_session" where
  "es_do_write n s = s\<lparr>operation := Writing (take n (es_data s))\<rparr>"

definition es_start :: echo_session where
  "es_start = es_do_read \<lparr>operation = Stopped, es_data = [], arrived = [], es_got = [], es_sent = []\<rparr>"

text \<open>
  The handler of the read: it has put \<open>n\<close> bytes into the buffer, over what was there. The handler of the write:
  everything has been written, or an error has occurred. After an error nothing is started, and the session goes.
\<close>

definition es_read_handler :: "bool \<Rightarrow> nat \<Rightarrow> echo_session \<Rightarrow> echo_session" where
  "es_read_handler ec n s =
     (if \<not> ec
      then (let s = s\<lparr>es_data := take n (arrived s) @ drop n (es_data s), es_got := es_got s @ take n (arrived s), arrived := drop n (arrived s)\<rparr>
            in es_do_write n s)
      else s\<lparr>operation := Stopped\<rparr>)"

definition es_write_handler :: "bool \<Rightarrow> echo_session \<Rightarrow> echo_session" where
  "es_write_handler ec s = (if \<not> ec then es_do_read s else s\<lparr>operation := Stopped\<rparr>)"

text \<open>A part of the write.\<close>

definition es_write_some :: "nat \<Rightarrow> echo_session \<Rightarrow> echo_session" where
  "es_write_some k s =
     (case operation s of
        Writing r \<Rightarrow> s\<lparr>operation := Writing (drop k r), es_sent := es_sent s @ take k r\<rparr>
      | _ \<Rightarrow> s)"

inductive es_completion :: "echo_session \<Rightarrow> echo_session \<Rightarrow> bool" where
  es_read: "operation s = Reading \<Longrightarrow> 0 < n \<Longrightarrow> n \<le> max_length \<Longrightarrow> n \<le> length (arrived s) \<Longrightarrow> es_completion s (es_read_handler False n s)"
| es_read_error: "operation s = Reading \<Longrightarrow> es_completion s (es_read_handler True 0 s)"
| es_some: "operation s = Writing r \<Longrightarrow> 0 < k \<Longrightarrow> k \<le> length r \<Longrightarrow> es_completion s (es_write_some k s)"
| es_written: "operation s = Writing [] \<Longrightarrow> es_completion s (es_write_handler False s)"
| es_write_error: "operation s = Writing r \<Longrightarrow> es_completion s (es_write_handler True s)"

inductive es_step :: "echo_session \<Rightarrow> echo_session \<Rightarrow> bool" where
  es_arrive: "es_step s (s\<lparr>arrived := arrived s @ bs\<rparr>)"
| es_complete: "es_completion s s' \<Longrightarrow> es_step s s'"

definition es_owes :: "echo_session \<Rightarrow> string" where
  "es_owes s = (case operation s of Writing r \<Rightarrow> r | _ \<Rightarrow> [])"

definition es_inv :: "echo_session \<Rightarrow> bool" where
  "es_inv s \<longleftrightarrow>
     (if operation s = Stopped then \<exists>r. es_got s = es_sent s @ r else es_got s = es_sent s @ es_owes s)"

lemma es_inv_start: "es_inv es_start"
  by (simp add: es_inv_def es_start_def es_do_read_def es_owes_def)

lemma es_inv_completion: "es_completion u v \<Longrightarrow> es_inv u \<Longrightarrow> es_inv v"
proof (induction rule: es_completion.induct)
  case (es_read s n)
  then have "take n (take n (arrived s) @ drop n (es_data s)) = take n (arrived s)" by simp
  then show ?case using es_read by (simp add: es_read_handler_def es_do_write_def es_inv_def es_owes_def)
next
  case es_some
  then show ?case by (simp add: es_write_some_def es_inv_def es_owes_def)
qed (auto simp: es_read_handler_def es_write_handler_def es_do_read_def es_inv_def es_owes_def)

lemma es_inv_step:
  assumes "es_inv s" "es_step s t"
  shows "es_inv t"
  using assms(2)
proof cases
  case es_arrive
  then show ?thesis using assms(1) by (simp add: es_inv_def es_owes_def)
next
  case es_complete
  then show ?thesis using assms(1) by (rule es_inv_completion)
qed

interpretation echo_sessions: invariant_system "\<lambda>s. s = es_start" es_step es_inv
  by unfold_locales (auto simp: es_inv_start intro: es_inv_step)

section \<open>Memory for the handlers\<close>

text \<open>
  \<open>handler_memory\<close> has one block of 1024 bytes and hands it out when it is not in use and the request is smaller;
  other requests go to the heap. \<open>None\<close>: a heap block is released that is not there.
\<close>

datatype block = Storage | Heap_block nat

record handler_memory =
  in_use :: bool
  heap_blocks :: "nat set"
  next_block :: nat

definition storage_size :: nat where
  "storage_size = 1024"

definition new_memory :: handler_memory where
  "new_memory = \<lparr>in_use = False, heap_blocks = {}, next_block = 0\<rparr>"

definition allocate :: "nat \<Rightarrow> handler_memory \<Rightarrow> block \<times> handler_memory" where
  "allocate sz m =
     (if \<not> in_use m \<and> sz < storage_size then (Storage, m\<lparr>in_use := True\<rparr>)
      else (Heap_block (next_block m), m\<lparr>heap_blocks := insert (next_block m) (heap_blocks m), next_block := next_block m + 1\<rparr>))"

definition deallocate :: "block \<Rightarrow> handler_memory \<Rightarrow> handler_memory option" where
  "deallocate b m =
     (case b of
        Storage \<Rightarrow> Some (m\<lparr>in_use := False\<rparr>)
      | Heap_block k \<Rightarrow> if k \<in> heap_blocks m then Some (m\<lparr>heap_blocks := heap_blocks m - {k}\<rparr>) else None)"

text \<open>
  A session that uses it. The library allocates the memory of a handler when it starts an operation, and releases it
  before it calls the handler; between the parts of a write it does both. \<open>rs\<close> and \<open>ws\<close> are the sizes of the
  handlers of reads and writes.
\<close>

record mem_session =
  es :: echo_session
  hmem :: handler_memory
  frame :: "block option"

definition start_operation :: "nat \<Rightarrow> nat \<Rightarrow> echo_session \<Rightarrow> handler_memory \<Rightarrow> mem_session" where
  "start_operation rs ws e m =
     (case operation e of
        Stopped \<Rightarrow> \<lparr>es = e, hmem = m, frame = None\<rparr>
      | Reading \<Rightarrow> (case allocate rs m of (b, m) \<Rightarrow> \<lparr>es = e, hmem = m, frame = Some b\<rparr>)
      | Writing r \<Rightarrow> (case allocate ws m of (b, m) \<Rightarrow> \<lparr>es = e, hmem = m, frame = Some b\<rparr>))"

definition complete_operation :: "nat \<Rightarrow> nat \<Rightarrow> echo_session \<Rightarrow> mem_session \<Rightarrow> mem_session option" where
  "complete_operation rs ws e s =
     (case frame s of None \<Rightarrow> None | Some b \<Rightarrow> map_option (start_operation rs ws e) (deallocate b (hmem s)))"

definition mem_start :: "nat \<Rightarrow> nat \<Rightarrow> mem_session" where
  "mem_start rs ws = start_operation rs ws es_start new_memory"

inductive mem_step :: "nat \<Rightarrow> nat \<Rightarrow> mem_session \<Rightarrow> mem_session \<Rightarrow> bool" for rs ws where
  ms_arrive: "mem_step rs ws s (s\<lparr>es := (es s)\<lparr>arrived := arrived (es s) @ bs\<rparr>\<rparr>)"
| ms_complete: "es_completion (es s) e \<Longrightarrow> complete_operation rs ws e s = Some s' \<Longrightarrow> mem_step rs ws s s'"

definition mem_ok :: "nat \<Rightarrow> nat \<Rightarrow> mem_session \<Rightarrow> bool" where
  "mem_ok rs ws s \<longleftrightarrow>
     (frame s = None \<longleftrightarrow> operation (es s) = Stopped)
     \<and> (in_use (hmem s) \<longleftrightarrow> frame s = Some Storage)
     \<and> heap_blocks (hmem s) = {k. frame s = Some (Heap_block k)}
     \<and> (rs < storage_size \<and> ws < storage_size \<longrightarrow> heap_blocks (hmem s) = {})"

lemma start_operation_ok: "\<not> in_use m \<Longrightarrow> heap_blocks m = {} \<Longrightarrow> mem_ok rs ws (start_operation rs ws e m)"
  by (cases "operation e") (auto simp: start_operation_def allocate_def mem_ok_def split: if_splits)

lemma start_operation_es [simp]: "es (start_operation rs ws e m) = e"
  by (simp add: start_operation_def split: operation.split prod.split)

lemma mem_ok_complete:
  assumes "mem_ok rs ws s" "operation (es s) \<noteq> Stopped"
  shows "\<exists>s'. complete_operation rs ws e s = Some s' \<and> es s' = e \<and> mem_ok rs ws s'"
proof -
  obtain b where b: "frame s = Some b" using assms by (auto simp: mem_ok_def)
  obtain m where m: "deallocate b (hmem s) = Some m" "\<not> in_use m" "heap_blocks m = {}"
    using assms(1) b by (cases b) (auto simp: deallocate_def mem_ok_def)
  then show ?thesis using b start_operation_ok [OF m(2,3)] by (simp add: complete_operation_def)
qed

lemma completion_running: "es_completion e e' \<Longrightarrow> operation e \<noteq> Stopped"
  by (auto elim: es_completion.cases)

interpretation mem_echo: simulation "\<lambda>s. s = mem_start rs ws" "mem_step rs ws" "mem_ok rs ws" "\<lambda>s. s = es_start" es_step es for rs ws
proof
  show "mem_ok rs ws s" if "s = mem_start rs ws" for s
    using that by (auto simp: mem_start_def new_memory_def intro: start_operation_ok)
  show "mem_ok rs ws t" if "mem_ok rs ws s" "mem_step rs ws s t" for s t
    using that(2)
  proof cases
    case ms_arrive
    then show ?thesis using that(1) by (auto simp: mem_ok_def)
  next
    case (ms_complete e)
    then show ?thesis using mem_ok_complete [OF that(1) completion_running [OF ms_complete(1)], of e] by auto
  qed
  show "es s = es_start" if "s = mem_start rs ws" for s using that by (simp add: mem_start_def)
  show "es_step (es s) (es t) \<or> es t = es s" if "mem_ok rs ws s" "mem_step rs ws s t" for s t
    using that(2)
  proof cases
    case ms_arrive
    then show ?thesis by (auto intro: es_arrive)
  next
    case (ms_complete e)
    then have "es t = e" using mem_ok_complete [OF that(1) completion_running [OF ms_complete(1)], of e] by auto
    then show ?thesis using ms_complete by (auto intro: es_complete)
  qed
qed

text \<open>
  C33. The echo server with its own handler memory echoes: what a session has sent is a prefix of what it has
  read, and all of it except for the write under way while it runs. Its memory is used as intended: an
  operation that is under way has exactly one block, which is released in time for the next one, so that handlers
  smaller than 1024 bytes never go to the heap; and every operation can complete.
\<close>

theorem handler_memory_suffices:
  assumes "reach (\<lambda>s. s = mem_start rs ws) (mem_step rs ws) s"
  shows "(\<exists>r. es_got (es s) = es_sent (es s) @ r)
    \<and> (operation (es s) \<noteq> Stopped \<longrightarrow> es_got (es s) = es_sent (es s) @ es_owes (es s))
    \<and> (in_use (hmem s) \<longleftrightarrow> frame s = Some Storage) \<and> heap_blocks (hmem s) = {k. frame s = Some (Heap_block k)}
    \<and> (rs < 1024 \<and> ws < 1024 \<longrightarrow> heap_blocks (hmem s) = {})
    \<and> (es_completion (es s) e \<longrightarrow> (\<exists>s'. mem_step rs ws s s' \<and> es s' = e))"
proof -
  have ok: "mem_ok rs ws s" using assms by (rule mem_echo.invariant)
  have "es_inv (es s)" using mem_echo.simulates [OF assms] by (rule echo_sessions.invariant)
  moreover have "\<exists>s'. mem_step rs ws s s' \<and> es s' = e" if "es_completion (es s) e"
    using mem_ok_complete [OF ok completion_running [OF that], of e] ms_complete [OF that] by blast
  ultimately show ?thesis using ok by (auto simp: es_inv_def mem_ok_def storage_size_def split: if_splits)
qed

theorem handler_memory_suffices_witness:
  "heap_blocks (hmem (mem_start 100 200)) = {} \<and> in_use (hmem (mem_start 100 200))
   \<and> es_got (es (mem_start 100 200)) = es_sent (es (mem_start 100 200))"
proof -
  have "reach (\<lambda>s. s = mem_start 100 200) (mem_step 100 200) (mem_start 100 200)" by (rule reach.reach_init) simp
  from handler_memory_suffices [OF this] show ?thesis
    by (simp add: mem_start_def start_operation_def es_start_def es_do_read_def allocate_def new_memory_def storage_size_def)
qed

section \<open>A process per connection\<close>

text \<open>
  The parent accepts and forks; a failed \<open>fork\<close> is treated as that of a parent. The children are sessions. A signal
  that is pending is turned into a notice of the signal set by the library, and the handler of the wait takes one
  notice, reaps, and waits again.
\<close>

record ppc =
  pp_kids :: "(echo_session \<times> child) list"
  pp_signal :: bool
  notices :: nat
  reaping :: bool

definition ppc_init :: ppc where
  "ppc_init = \<lparr>pp_kids = [], pp_signal = False, notices = 0, reaping = False\<rparr>"

definition pp_accept :: "bool \<Rightarrow> bool \<Rightarrow> ppc \<Rightarrow> ppc" where
  "pp_accept ec forked s = (if \<not> ec \<and> forked then s\<lparr>pp_kids := pp_kids s @ [(es_start, Running)]\<rparr> else s)"

definition pp_exit :: "nat \<Rightarrow> ppc \<Rightarrow> ppc" where
  "pp_exit i s = s\<lparr>pp_kids := (pp_kids s)[i := (fst (pp_kids s ! i), Zombie)], pp_signal := True\<rparr>"

definition pp_notice :: "ppc \<Rightarrow> ppc" where
  "pp_notice s = s\<lparr>pp_signal := False, notices := notices s + 1\<rparr>"

definition pp_handler :: "ppc \<Rightarrow> ppc" where
  "pp_handler s = s\<lparr>notices := notices s - 1, reaping := True\<rparr>"

text \<open>One call of \<open>waitpid\<close>; when it has nothing the handler ends with \<open>wait_for_signal\<close>.\<close>

definition pp_reap :: "ppc \<Rightarrow> ppc" where
  "pp_reap s =
     (case List.find (\<lambda>i. snd (pp_kids s ! i) = Zombie) [0..<length (pp_kids s)] of
        Some i \<Rightarrow> s\<lparr>pp_kids := (pp_kids s)[i := (fst (pp_kids s ! i), Reaped)]\<rparr>
      | None \<Rightarrow> s\<lparr>reaping := False\<rparr>)"

inductive ppc_step :: "ppc \<Rightarrow> ppc \<Rightarrow> bool" where
  pp_accepted: "\<not> reaping s \<Longrightarrow> ppc_step s (pp_accept ec forked s)"
| pp_session: "i < length (pp_kids s) \<Longrightarrow> pp_kids s ! i = (e, Running) \<Longrightarrow> es_step e e' \<Longrightarrow> ppc_step s (s\<lparr>pp_kids := (pp_kids s)[i := (e', Running)]\<rparr>)"
| pp_exits: "i < length (pp_kids s) \<Longrightarrow> snd (pp_kids s ! i) = Running \<Longrightarrow> operation (fst (pp_kids s ! i)) = Stopped \<Longrightarrow> ppc_step s (pp_exit i s)"
| pp_noticed: "pp_signal s \<Longrightarrow> ppc_step s (pp_notice s)"
| pp_handles: "0 < notices s \<Longrightarrow> \<not> reaping s \<Longrightarrow> ppc_step s (pp_handler s)"
| pp_reaps: "reaping s \<Longrightarrow> ppc_step s (pp_reap s)"

definition pp_zombies :: "ppc \<Rightarrow> nat set" where
  "pp_zombies s = {i. i < length (pp_kids s) \<and> snd (pp_kids s ! i) = Zombie}"

lemma pp_reap_cases:
  "pp_reap s = s\<lparr>reaping := False\<rparr> \<and> pp_zombies s = {}
   \<or> (\<exists>i. i \<in> pp_zombies s \<and> pp_reap s = s\<lparr>pp_kids := (pp_kids s)[i := (fst (pp_kids s ! i), Reaped)]\<rparr>)"
proof (cases "List.find (\<lambda>i. snd (pp_kids s ! i) = Zombie) [0..<length (pp_kids s)]")
  case None
  then have "pp_zombies s = {}" unfolding find_upt(1) by (auto simp: pp_zombies_def)
  then show ?thesis using None by (simp add: pp_reap_def)
next
  case (Some i)
  then show ?thesis using find_upt(2) [OF Some] by (auto simp: pp_reap_def pp_zombies_def)
qed

interpretation ppc_reaper: reaper "\<lambda>s. s = ppc_init" ppc_step pp_zombies "\<lambda>s. pp_signal s \<or> 0 < notices s \<or> reaping s"
proof
  show "pp_zombies s = {}" if "s = ppc_init" for s using that by (simp add: ppc_init_def pp_zombies_def)
  show "pp_zombies t \<subseteq> pp_zombies s \<or> pp_signal t \<or> 0 < notices t \<or> reaping t" if "ppc_step s t" for s t
    using that
  proof cases
    case pp_accepted
    then show ?thesis by (auto simp: pp_accept_def pp_zombies_def nth_append less_Suc_eq split: if_splits)
  next
    case pp_session
    then show ?thesis by (auto simp: pp_zombies_def nth_list_update split: if_splits)
  next
    case pp_reaps
    then show ?thesis using pp_reap_cases [of s] by (auto simp: pp_zombies_def nth_list_update split: if_splits)
  qed (auto simp: pp_exit_def pp_notice_def pp_handler_def)
  show "(pp_signal t \<or> 0 < notices t \<or> reaping t) \<or> pp_zombies t = {}" if "ppc_step s t" "pp_signal s \<or> 0 < notices s \<or> reaping s" for s t
    using that(1)
  proof cases
    case pp_reaps
    then show ?thesis using pp_reap_cases [of s] by (auto simp: pp_zombies_def)
  qed (use that(2) in \<open>auto simp: pp_accept_def pp_exit_def pp_notice_def pp_handler_def\<close>)
qed

definition kids_inv :: "ppc \<Rightarrow> bool" where
  "kids_inv s \<longleftrightarrow> list_all (\<lambda>(e, k). es_inv e) (pp_kids s)"

lemma kids_inv_update: "kids_inv s \<Longrightarrow> es_inv e \<Longrightarrow> kids_inv (s\<lparr>pp_kids := (pp_kids s)[i := (e, k)]\<rparr>)"
  by (cases "i < length (pp_kids s)") (auto simp: kids_inv_def list_all_length nth_list_update)

lemma kids_inv_nth: "kids_inv s \<Longrightarrow> i < length (pp_kids s) \<Longrightarrow> es_inv (fst (pp_kids s ! i))"
  by (cases "pp_kids s ! i") (auto simp: kids_inv_def list_all_length)

interpretation ppc: invariant_system "\<lambda>s. s = ppc_init" ppc_step kids_inv
proof
  show "kids_inv s" if "s = ppc_init" for s using that by (simp add: ppc_init_def kids_inv_def)
  show "kids_inv t" if inv: "kids_inv s" and "ppc_step s t" for s t
    using that(2)
  proof cases
    case pp_accepted
    then show ?thesis using inv es_inv_start by (simp add: pp_accept_def kids_inv_def)
  next
    case (pp_session i e e')
    then show ?thesis using kids_inv_update [OF inv] kids_inv_nth [OF inv, of i] es_inv_step by fastforce
  next
    case (pp_exits i)
    then show ?thesis using kids_inv_update [OF inv kids_inv_nth [OF inv], of i i Zombie] by (simp add: pp_exit_def kids_inv_def)
  next
    case pp_reaps
    have "kids_inv (s\<lparr>pp_kids := (pp_kids s)[i := (fst (pp_kids s ! i), Reaped)]\<rparr>)" if "i \<in> pp_zombies s" for i
      using that by (intro kids_inv_update [OF inv] kids_inv_nth [OF inv]) (simp add: pp_zombies_def)
    then show ?thesis using pp_reaps pp_reap_cases [of s] inv by (auto simp: kids_inv_def)
  qed (use inv in \<open>auto simp: kids_inv_def pp_notice_def pp_handler_def\<close>)
qed

text \<open>The server echoes in every child, and no child that has ended is forgotten.\<close>

theorem process_per_connection_serves:
  assumes "reach (\<lambda>s. s = ppc_init) ppc_step s"
  shows "list_all (\<lambda>(e, k). \<exists>r. es_got e = es_sent e @ r) (pp_kids s)
    \<and> (pp_zombies s = {} \<or> pp_signal s \<or> 0 < notices s \<or> reaping s)"
proof -
  have "kids_inv s" using assms by (rule ppc.invariant)
  then have "list_all (\<lambda>(e, k). \<exists>r. es_got e = es_sent e @ r) (pp_kids s)"
    unfolding kids_inv_def by (rule list.pred_mono_strong) (auto simp: es_inv_def split: if_splits)
  then show ?thesis using ppc_reaper.noticed [OF assms] by simp
qed

end
