(* ===== verification/Byte_Order.thy ===== *)
theory Byte_Order
  imports Prelude
begin

unbundle bit_operations_syntax

text \<open>
  Byte order: the reversals of \<^verbatim>\<open>src/test/endianconv.c\<close>, and the conversion of addresses between numbers and
  text in \<^verbatim>\<open>src/ipConvert.cpp\<close>. The bytes of an object are those of a little endian machine.
\<close>

section \<open>The bytes of a word\<close>

definition bytes_of :: "nat \<Rightarrow> 'a :: len word \<Rightarrow> 8 word list" where
  "bytes_of n v = map (\<lambda>i. ucast (drop_bit (8 * i) v)) [0..<n]"

fun of_bytes :: "8 word list \<Rightarrow> 'a :: len word" where
  "of_bytes [] = 0"
| "of_bytes (b # bs) = ucast b OR push_bit 8 (of_bytes bs)"

lemma length_bytes_of [simp]: "length (bytes_of n v) = n"
  by (simp add: bytes_of_def)

lemma nth_bytes_of [simp]: "i < n \<Longrightarrow> bytes_of n v ! i = ucast (drop_bit (8 * i) v)"
  by (simp add: bytes_of_def)

lemma bit_of_bytes:
  "bit (of_bytes bs :: 'a :: len word) i \<longleftrightarrow> i < LENGTH('a) \<and> i < 8 * length bs \<and> bit (bs ! (i div 8)) (i mod 8)"
proof (induction bs arbitrary: i)
  case (Cons b bs)
  show ?case
  proof (cases "i < 8")
    case True
    then show ?thesis by (auto simp: bit_or_iff bit_ucast_iff bit_push_bit_iff)
  next
    case False
    then obtain j where j: "i = j + 8" by (metis add.commute le_Suc_ex not_less)
    have "\<not> bit b i" using False by (auto dest: bit_imp_le_length)
    moreover have "(j + 8) div 8 = Suc (j div 8)" by simp
    ultimately show ?thesis using Cons.IH [of j] by (auto simp: j bit_or_iff bit_ucast_iff bit_push_bit_iff dest: bit_imp_le_length)
  qed
qed simp

lemma of_bytes_bytes_of:
  assumes "LENGTH('a) = 8 * n"
  shows "of_bytes (bytes_of n v) = (v :: 'a :: len word)"
proof (rule bit_word_eqI)
  fix i assume i: "i < LENGTH('a)"
  then have "i div 8 < n" using assms by (simp add: less_mult_imp_div_less)
  then show "bit (of_bytes (bytes_of n v) :: 'a word) i = bit v i"
    using i assms by (simp add: bit_of_bytes bit_ucast_iff bit_drop_bit_eq)
qed

lemma bytes_of_of_bytes:
  assumes "LENGTH('a) = 8 * length bs"
  shows "bytes_of (length bs) (of_bytes bs :: 'a :: len word) = bs"
proof (rule nth_equalityI)
  fix k assume "k < length (bytes_of (length bs) (of_bytes bs :: 'a word))"
  then have k: "k < length bs" by simp
  show "bytes_of (length bs) (of_bytes bs :: 'a word) ! k = bs ! k"
  proof (rule bit_word_eqI)
    fix i assume "i < LENGTH(8)"
    then have i: "i < 8" by simp
    then have "8 * k + i < 8 * length bs" using k by linarith
    moreover have "(8 * k + i) div 8 = k" "(8 * k + i) mod 8 = i" using i by simp_all
    ultimately show "bit (bytes_of (length bs) (of_bytes bs :: 'a word) ! k) i = bit (bs ! k) i"
      using k i assms by (simp add: bit_ucast_iff bit_drop_bit_eq bit_of_bytes)
  qed
qed simp

section \<open>Reversals in memory\<close>

definition memrev16 :: "8 word list \<Rightarrow> 8 word list" where
  "memrev16 x = (let t = x ! 0; x = x[0 := x ! 1]; x = x[1 := t] in x)"

definition memrev32 :: "8 word list \<Rightarrow> 8 word list" where
  "memrev32 x =
     (let t = x ! 0; x = x[0 := x ! 3]; x = x[3 := t];
          t = x ! 1; x = x[1 := x ! 2]; x = x[2 := t] in x)"

definition memrev64 :: "8 word list \<Rightarrow> 8 word list" where
  "memrev64 x =
     (let t = x ! 0; x = x[0 := x ! 7]; x = x[7 := t];
          t = x ! 1; x = x[1 := x ! 6]; x = x[6 := t];
          t = x ! 2; x = x[2 := x ! 5]; x = x[5 := t];
          t = x ! 3; x = x[3 := x ! 4]; x = x[4 := t] in x)"

definition intrev16 :: "16 word \<Rightarrow> 16 word" where
  "intrev16 v = of_bytes (memrev16 (bytes_of 2 v))"

definition intrev32 :: "32 word \<Rightarrow> 32 word" where
  "intrev32 v = of_bytes (memrev32 (bytes_of 4 v))"

definition intrev64 :: "64 word \<Rightarrow> 64 word" where
  "intrev64 v = of_bytes (memrev64 (bytes_of 8 v))"

text \<open>Each reverses the first bytes and leaves what is behind them alone.\<close>

lemma memrev:
  "2 \<le> length x \<Longrightarrow> memrev16 x = rev (take 2 x) @ drop 2 x"
  "4 \<le> length x \<Longrightarrow> memrev32 x = rev (take 4 x) @ drop 4 x"
  "8 \<le> length x \<Longrightarrow> memrev64 x = rev (take 8 x) @ drop 8 x"
proof -
  have list: "\<exists>y z. x = y @ z \<and> length y = k" if "k \<le> length x" for k and x :: "8 word list"
    using that by (intro exI [of _ "take k x"] exI [of _ "drop k x"]) simp
  show "2 \<le> length x \<Longrightarrow> memrev16 x = rev (take 2 x) @ drop 2 x"
    by (drule list) (auto simp: memrev16_def numeral_2_eq_2 length_Suc_conv)
  show "4 \<le> length x \<Longrightarrow> memrev32 x = rev (take 4 x) @ drop 4 x"
    by (drule list) (auto simp: memrev32_def eval_nat_numeral length_Suc_conv)
  show "8 \<le> length x \<Longrightarrow> memrev64 x = rev (take 8 x) @ drop 8 x"
    by (drule list) (auto simp: memrev64_def eval_nat_numeral length_Suc_conv)
qed

lemma intrev_rev:
  "intrev16 v = of_bytes (rev (bytes_of 2 v))" "intrev32 w = of_bytes (rev (bytes_of 4 w))"
  "intrev64 u = of_bytes (rev (bytes_of 8 u))"
  by (simp_all add: intrev16_def intrev32_def intrev64_def memrev)

lemma reverse_twice:
  assumes "LENGTH('a) = 8 * n"
  shows "of_bytes (rev (bytes_of n (of_bytes (rev (bytes_of n v)) :: 'a word))) = (v :: 'a :: len word)"
  using bytes_of_of_bytes [where bs = "rev (bytes_of n v)" and 'a = 'a] of_bytes_bytes_of [OF assms, of v] assms by simp

text \<open>
  The integer reversals put byte \<open>i\<close> of the result at byte \<open>n - 1 - i\<close> of the argument, and undo
  themselves.
\<close>

theorem intrev_reverses:
  "bytes_of 2 (intrev16 v) = rev (bytes_of 2 v) \<and> intrev16 (intrev16 v) = v
   \<and> bytes_of 4 (intrev32 w) = rev (bytes_of 4 w) \<and> intrev32 (intrev32 w) = w
   \<and> bytes_of 8 (intrev64 u) = rev (bytes_of 8 u) \<and> intrev64 (intrev64 u) = u"
  using bytes_of_of_bytes [where bs = "rev (bytes_of 2 v)" and 'a = 16] reverse_twice [where n = 2 and v = v]
    bytes_of_of_bytes [where bs = "rev (bytes_of 4 w)" and 'a = 32] reverse_twice [where n = 4 and v = w]
    bytes_of_of_bytes [where bs = "rev (bytes_of 8 u)" and 'a = 64] reverse_twice [where n = 8 and v = u]
  by (simp add: intrev_rev)

section \<open>Addresses\<close>

text \<open>Host and network order: the network's is big endian.\<close>

definition ntohl :: "32 word \<Rightarrow> 32 word" where
  "ntohl v = of_bytes (rev (bytes_of 4 v))"

definition dotted :: "nat list \<Rightarrow> string" where
  "dotted ps =
     to_string (ps ! 0) @ ''.'' @ to_string (ps ! 1) @ ''.'' @ to_string (ps ! 2) @ ''.'' @ to_string (ps ! 3)"

text \<open>\<open>snprintf\<close> stores at most \<open>dest_size - 1\<close> characters.\<close>

definition ddip_int2ip :: "32 word \<Rightarrow> nat \<Rightarrow> string" where
  "ddip_int2ip ip_int dest_size =
     (let s_addr = ntohl ip_int; ucp = bytes_of 4 s_addr
      in take (dest_size - 1) (dotted (map unat ucp)))"

text \<open>\<open>inet_addr\<close> for four decimal numbers; its other forms (octal, hexadecimal, fewer numbers) are not modelled, \<open>None\<close>.\<close>

fun split_dots :: "string \<Rightarrow> string list" where
  "split_dots [] = [[]]"
| "split_dots (c # cs) =
     (if c = CHR ''.'' then [] # split_dots cs else (c # hd (split_dots cs)) # tl (split_dots cs))"

definition decimal_part :: "string \<Rightarrow> bool" where
  "decimal_part p \<longleftrightarrow> p \<noteq> [] \<and> list_all is_dec p \<and> (hd p = CHR ''0'' \<longrightarrow> tl p = []) \<and> dec_val p < 256"

definition inet_addr :: "string \<Rightarrow> 32 word option" where
  "inet_addr s =
     (let ps = split_dots s in
      if length ps = 4 \<and> list_all decimal_part ps then Some (of_bytes (map (\<lambda>p. word_of_nat (dec_val p)) ps)) else None)"

definition ddip_ip2int :: "string \<Rightarrow> 32 word option" where
  "ddip_ip2int ip = map_option ntohl (inet_addr ip)"

lemma split_dots_part: "CHR ''.'' \<notin> set p \<Longrightarrow> split_dots (p @ CHR ''.'' # s) = p # split_dots s"
  by (induction p) auto

lemma split_dots_last: "CHR ''.'' \<notin> set p \<Longrightarrow> split_dots p = [p]"
  by (induction p) auto

lemma to_string_hd: "0 < n \<Longrightarrow> hd (to_string n) \<noteq> CHR ''0''"
proof (induction n rule: to_string.induct)
  case (1 n)
  show ?case
  proof (cases "n < 10")
    case True
    have "CHR ''0'' = digit_char 0" by (rule byte_inject) (simp add: byte_def digit_char_def)
    then show ?thesis using True 1(2) digit_char_val [of n] digit_char_val [of 0] by (auto simp: to_string.simps [of n])
  next
    case False
    then show ?thesis using 1(1) by (simp add: to_string.simps [of n])
  qed
qed

lemma decimal_part_to_string: "n < 256 \<Longrightarrow> decimal_part (to_string n)"
proof -
  assume "n < 256"
  have "tl (to_string n) = []" if "hd (to_string n) = CHR ''0''"
    using that to_string_hd [of n] by (cases "n = 0") (auto simp: to_string.simps [of 0])
  then show ?thesis using \<open>n < 256\<close> to_string_digits [of n] by (auto simp: decimal_part_def list_all_iff)
qed

lemma no_dot: "CHR ''.'' \<notin> set (to_string n)"
  using to_string_digits [of n] by (force simp: is_dec_def char_val_def byte_def)

lemma inet_addr_dotted:
  assumes "a < 256" "b < 256" "c < 256" "d < 256"
  shows "inet_addr (dotted [a, b, c, d]) = Some (of_bytes [word_of_nat a, word_of_nat b, word_of_nat c, word_of_nat d])"
proof -
  have "split_dots (dotted [a, b, c, d]) = [to_string a, to_string b, to_string c, to_string d]"
    by (simp add: dotted_def split_dots_part split_dots_last no_dot)
  then show ?thesis using assms by (simp add: inet_addr_def decimal_part_to_string)
qed

lemma to_string_short: "n < 256 \<Longrightarrow> length (to_string n) \<le> 3"
  using to_string_digits_le [of n 3] by simp

text \<open>
  Converting an address to text and back gives the address, for every 32-bit number, and the text fits
  the 16 characters that the program has for it.
\<close>

theorem ip_roundtrip: "ddip_ip2int (ddip_int2ip v 16) = Some v \<and> length (dotted (map unat (bytes_of 4 (ntohl v)))) < 16"
proof -
  let ?u = "ntohl v"
  obtain a b c d where bytes: "bytes_of 4 ?u = [a, b, c, d]"
    using length_bytes_of [of 4 ?u] by (auto simp: eval_nat_numeral length_Suc_conv simp del: length_bytes_of)
  have less: "unat x < 256" for x :: "8 word" using unsigned_less [where ?'a = nat, of x] by simp
  have len: "length (dotted (map unat (bytes_of 4 ?u))) < 16"
    using to_string_short [OF less [of a]] to_string_short [OF less [of b]] to_string_short [OF less [of c]] to_string_short [OF less [of d]]
    by (simp add: bytes dotted_def)
  have "inet_addr (ddip_int2ip v 16) = Some (of_bytes (bytes_of 4 ?u))"
    using len inet_addr_dotted [OF less less less less, of a b c d] by (simp add: ddip_int2ip_def bytes)
  then have "inet_addr (ddip_int2ip v 16) = Some ?u" using of_bytes_bytes_of [of 4 ?u] by simp
  moreover have "ntohl ?u = v" using reverse_twice [of 4 v] by (simp add: ntohl_def)
  ultimately show ?thesis using len by (simp add: ddip_ip2int_def)
qed

end
