(* ===== verification/Http_Client.thy ===== *)
theory Http_Client
  imports Ad_Server
begin

text \<open>
  The two clients of \<^verbatim>\<open>src/ad_system/server3/client\<close>: \<^verbatim>\<open>async_client.cpp\<close>, whose
  completion handlers are steps, and \<^verbatim>\<open>sync_client.cpp\<close>, which is straight-line code. Both read the
  reply through a \<open>std::istream\<close> on a stream buffer, so the extraction operators and \<open>getline\<close> are
  modelled with the state bits they set. What the network delivers is a list of chunks and the error that
  ends it; a \<open>streambuf\<close> is the text it holds.
\<close>

section \<open>Input streams\<close>

record istream =
  st_text :: string
  st_eof :: bool
  st_fail :: bool

definition istream_on :: "string \<Rightarrow> istream" where
  "istream_on t = \<lparr>st_text = t, st_eof = False, st_fail = False\<rparr>"

text \<open>What formatted input does first: it skips white space, and fails at the end of the text.\<close>

definition sentry :: "istream \<Rightarrow> istream" where
  "sentry s =
     (if st_eof s \<or> st_fail s then s\<lparr>st_fail := True\<rparr>
      else let t = dropWhile isspace (st_text s)
           in if t = [] then s\<lparr>st_text := [], st_eof := True, st_fail := True\<rparr> else s\<lparr>st_text := t\<rparr>)"

text \<open>\<open>stream >> string\<close>.\<close>

definition extract_word :: "istream \<Rightarrow> string \<times> istream" where
  "extract_word s =
     (let s1 = sentry s in
      if st_fail s1 then ([], s1)
      else let w = takeWhile (\<lambda>c. \<not> isspace c) (st_text s1);
               t = dropWhile (\<lambda>c. \<not> isspace c) (st_text s1)
           in (w, s1\<lparr>st_text := t, st_eof := (t = [])\<rparr>))"

text \<open>
  \<open>stream >> unsigned\<close>: an optional sign, digits; no digits or a value that does not fit make it fail,
  a minus sign wraps.
\<close>

definition extract_unsigned :: "istream \<Rightarrow> s32 \<times> istream" where
  "extract_unsigned s =
     (let s1 = sentry s in
      if st_fail s1 then (0, s1)
      else let t = st_text s1;
               neg = (hd t = CHR ''-'');
               u = (if hd t = CHR ''-'' \<or> hd t = CHR ''+'' then tl t else t);
               ds = takeWhile is_dec u;
               s2 = s1\<lparr>st_text := dropWhile is_dec u, st_eof := (dropWhile is_dec u = [])\<rparr>
           in if ds = [] then (0, s2\<lparr>st_fail := True\<rparr>)
              else if dec_val ds \<ge> 2 ^ 32 then (- 1, s2\<lparr>st_fail := True\<rparr>)
              else ((if neg then - word_of_nat (dec_val ds) else word_of_nat (dec_val ds)), s2))"

text \<open>\<open>std::getline\<close>: the line without its newline; it fails when nothing could be read.\<close>

definition getline :: "istream \<Rightarrow> string \<times> istream" where
  "getline s =
     (if st_eof s \<or> st_fail s then ([], s\<lparr>st_fail := True\<rparr>)
      else let l = takeWhile (\<lambda>c. c \<noteq> LF) (st_text s);
               t = dropWhile (\<lambda>c. c \<noteq> LF) (st_text s)
           in if t = [] then (l, s\<lparr>st_text := [], st_eof := True, st_fail := (l = [])\<rparr>)
              else (l, s\<lparr>st_text := tl t\<rparr>))"

lemma getline_shorter:
  "\<not> st_fail (snd (getline s)) \<Longrightarrow> length (st_text (snd (getline s))) < length (st_text s)"
proof -
  assume ok: "\<not> st_fail (snd (getline s))"
  define t where "t = dropWhile (\<lambda>c. c \<noteq> LF) (st_text s)"
  have "length t \<le> length (st_text s)" unfolding t_def by (rule length_dropWhile_le)
  moreover have "t = [] \<Longrightarrow> st_text s \<noteq> []"
    using ok by (auto simp: getline_def Let_def simp flip: t_def split: if_splits)
  moreover have "st_text (snd (getline s)) = tl t"
    using ok by (auto simp: getline_def Let_def simp flip: t_def split: if_splits)
  ultimately show ?thesis by (cases t) simp_all
qed

text \<open>
  \<open>while (std::getline(response_stream, header) && header != "\r") std::cout << header << "\n";\<close>
\<close>

function print_headers :: "istream \<Rightarrow> string \<Rightarrow> string \<times> istream" where
  "print_headers s out =
     (case getline s of
        (l, s') \<Rightarrow>
          if \<not> st_fail s' \<and> l \<noteq> [CR] then print_headers s' (out @ l @ [LF]) else (out, s'))"
  by pat_completeness auto
termination
proof (relation "measure (\<lambda>(s, _). length (st_text s))")
  fix s l s' out
  assume "(l, s') = getline s" "\<not> st_fail s' \<and> l \<noteq> [CR]"
  then show "((s', out @ l @ [LF]), s, out) \<in> measure (\<lambda>(s, _). length (st_text s))"
    using getline_shorter [of s] by (metis case_prod_conv in_measure snd_conv)
qed simp

declare print_headers.simps [simp del]

section \<open>The network\<close>

text \<open>
  An error: whether it is the end of the stream, what \<open>message()\<close> says and what is printed for the code
  itself. \<open>read_until\<close> and \<open>read_some\<close> (with \<open>transfer_at_least(1)\<close>) are Asio's composed reads into the
  buffer \<open>buf\<close>: the error if they fail, the buffer and the chunks that remain.
\<close>

record asio_error =
  err_eof :: bool
  err_message :: string
  err_code :: string

fun read_until :: "string \<Rightarrow> asio_error \<Rightarrow> string \<Rightarrow> string list \<Rightarrow> asio_error option \<times> string \<times> string list" where
  "read_until delim e buf [] = ((if contains_sub delim buf then None else Some e), buf, [])"
| "read_until delim e buf (chunk # net) =
     (if contains_sub delim buf then (None, buf, chunk # net) else read_until delim e (buf @ chunk) net)"

fun read_some :: "asio_error \<Rightarrow> string \<Rightarrow> string list \<Rightarrow> asio_error option \<times> string \<times> string list" where
  "read_some e buf [] = (Some e, buf, [])"
| "read_some e buf (chunk # net) =
     (if chunk = [] then read_some e buf net else (None, buf @ chunk, net))"

section \<open>The request\<close>

definition client_request :: "string \<Rightarrow> string \<Rightarrow> string" where
  "client_request server path =
     ''GET '' @ path @ '' HTTP/1.0'' @ [CR, LF]
     @ ''Host: '' @ server @ [CR, LF]
     @ ''Accept: */*'' @ [CR, LF]
     @ ''Connection: close'' @ [CR, LF, CR, LF]"

section \<open>The asynchronous client\<close>

datatype client_op = resolving | connecting | sending | reading_status | reading_headers | reading_content | finished

text \<open>\<open>hc_out\<close> is what has been printed and \<open>hc_sent\<close> what has been written to the socket.\<close>

record http_client =
  hc_request :: string
  hc_response :: string
  hc_op :: client_op
  hc_out :: string
  hc_sent :: string

definition new_http_client :: "string \<Rightarrow> string \<Rightarrow> http_client" where
  "new_http_client server path =
     \<lparr>hc_request = client_request server path, hc_response = [], hc_op = resolving, hc_out = [], hc_sent = []\<rparr>"

definition print :: "string \<Rightarrow> http_client \<Rightarrow> http_client" where
  "print t c = c\<lparr>hc_out := hc_out c @ t\<rparr>"

definition report_message :: "asio_error \<Rightarrow> http_client \<Rightarrow> http_client" where
  "report_message e c = print (''Error: '' @ err_message e @ [LF]) (c\<lparr>hc_op := finished\<rparr>)"

definition report_code :: "asio_error \<Rightarrow> http_client \<Rightarrow> http_client" where
  "report_code e c = print (''Error: '' @ err_code e @ [LF]) (c\<lparr>hc_op := finished\<rparr>)"

definition handle_resolve :: "asio_error option \<Rightarrow> http_client \<Rightarrow> http_client" where
  "handle_resolve err c =
     (case err of None \<Rightarrow> c\<lparr>hc_op := connecting\<rparr> | Some e \<Rightarrow> report_message e c)"

definition handle_connect :: "asio_error option \<Rightarrow> http_client \<Rightarrow> http_client" where
  "handle_connect err c =
     (case err of None \<Rightarrow> c\<lparr>hc_op := sending\<rparr> | Some e \<Rightarrow> report_message e c)"

definition handle_write_request :: "asio_error option \<Rightarrow> http_client \<Rightarrow> http_client" where
  "handle_write_request err c =
     (case err of None \<Rightarrow> c\<lparr>hc_op := reading_status\<rparr> | Some e \<Rightarrow> report_message e c)"

text \<open>
  The status line, as both clients read it: the version, the code, whether the reply is valid, and the
  stream behind it.
\<close>

definition read_status_line :: "istream \<Rightarrow> s32 \<times> bool \<times> istream" where
  "read_status_line s =
     (let (http_version, s1) = extract_word s;
          (status_code, s2) = extract_unsigned s1;
          (status_message, s3) = getline s2
      in (status_code, \<not> st_fail s3 \<and> take 5 http_version = ''HTTP/'', s3))"

definition status_text :: "s32 \<Rightarrow> string" where
  "status_text code = ''Response returned with status code '' @ to_string (unat code) @ [LF]"

definition handle_read_status_line :: "asio_error option \<Rightarrow> http_client \<Rightarrow> http_client" where
  "handle_read_status_line err c =
     (case err of
        None \<Rightarrow>
          (let (status_code, valid, s) = read_status_line (istream_on (hc_response c));
               c1 = c\<lparr>hc_response := st_text s\<rparr>
           in if \<not> valid then print (''Invalid response'' @ [LF]) (c1\<lparr>hc_op := finished\<rparr>)
              else if status_code \<noteq> 200 then print (status_text status_code) (c1\<lparr>hc_op := finished\<rparr>)
              else c1\<lparr>hc_op := reading_headers\<rparr>)
      | Some e \<Rightarrow> report_code e c)"

definition handle_read_headers :: "asio_error option \<Rightarrow> http_client \<Rightarrow> http_client" where
  "handle_read_headers err c =
     (case err of
        None \<Rightarrow>
          (let (hs, s) = print_headers (istream_on (hc_response c)) []
           in print (hs @ [LF] @ st_text s) (c\<lparr>hc_response := [], hc_op := reading_content\<rparr>))
      | Some e \<Rightarrow> report_code e c)"

definition handle_read_content :: "asio_error option \<Rightarrow> http_client \<Rightarrow> http_client" where
  "handle_read_content err c =
     (case err of
        None \<Rightarrow> print (hc_response c) (c\<lparr>hc_response := []\<rparr>)
      | Some e \<Rightarrow> if err_eof e then c\<lparr>hc_op := finished\<rparr> else report_code e c)"

text \<open>
  The completions, with the network between them. Resolving, connecting and writing may fail in any way;
  a write that succeeds has taken the request out of its buffer.
\<close>

inductive hc_step :: "asio_error \<Rightarrow> string list \<times> http_client \<Rightarrow> string list \<times> http_client \<Rightarrow> bool" for e where
  hc_resolved: "hc_op c = resolving \<Longrightarrow> hc_step e (net, c) (net, handle_resolve err c)"
| hc_connected: "hc_op c = connecting \<Longrightarrow> hc_step e (net, c) (net, handle_connect err c)"
| hc_written: "hc_op c = sending \<Longrightarrow>
    hc_step e (net, c)
      (net, handle_write_request None (c\<lparr>hc_request := [], hc_sent := hc_sent c @ hc_request c\<rparr>))"
| hc_not_written: "hc_op c = sending \<Longrightarrow> hc_step e (net, c) (net, handle_write_request (Some err) c)"
| hc_status: "hc_op c = reading_status \<Longrightarrow> read_until crlf e (hc_response c) net = (err, buf, net') \<Longrightarrow>
    hc_step e (net, c) (net', handle_read_status_line err (c\<lparr>hc_response := buf\<rparr>))"
| hc_headers: "hc_op c = reading_headers \<Longrightarrow> read_until blank_line e (hc_response c) net = (err, buf, net') \<Longrightarrow>
    hc_step e (net, c) (net', handle_read_headers err (c\<lparr>hc_response := buf\<rparr>))"
| hc_content: "hc_op c = reading_content \<Longrightarrow> read_some e (hc_response c) net = (err, buf, net') \<Longrightarrow>
    hc_step e (net, c) (net', handle_read_content err (c\<lparr>hc_response := buf\<rparr>))"

section \<open>The synchronous client\<close>

text \<open>
  One stream object serves the whole reply, so its state bits survive the status line. The result is what
  is printed and what \<open>main\<close> returns; an exception is caught, printed and followed by \<open>return 0\<close>.
\<close>

definition exception :: "string \<Rightarrow> asio_error \<Rightarrow> string \<times> int" where
  "exception out e = (out @ ''Exception: '' @ err_message e @ [LF], 0)"

fun sync_content :: "asio_error \<Rightarrow> string \<Rightarrow> string list \<Rightarrow> string \<times> int" where
  "sync_content e out [] = (if err_eof e then (out, 0) else exception out e)"
| "sync_content e out (chunk # net) = sync_content e (out @ chunk) net"

definition sync_read_headers :: "asio_error \<Rightarrow> istream \<Rightarrow> string list \<Rightarrow> string \<times> int" where
  "sync_read_headers e s net =
     (case read_until blank_line e (st_text s) net of
        (Some err, _, _) \<Rightarrow> exception [] err
      | (None, buf, net') \<Rightarrow>
          (let (hs, s') = print_headers (s\<lparr>st_text := buf\<rparr>) []
           in sync_content e (hs @ [LF] @ st_text s') net'))"

definition sync_reply :: "asio_error \<Rightarrow> string list \<Rightarrow> string \<times> int" where
  "sync_reply e net =
     (case read_until crlf e [] net of
        (Some err, _, _) \<Rightarrow> exception [] err
      | (None, buf, net') \<Rightarrow>
          (let (status_code, valid, s) = read_status_line (istream_on buf)
           in if \<not> valid then (''Invalid response'' @ [LF], 1)
              else if status_code \<noteq> 200 then (status_text status_code, 1)
              else sync_read_headers e s net'))"

text \<open>Resolving, connecting and writing throw when they fail.\<close>

definition sync_client ::
  "asio_error option \<Rightarrow> asio_error option \<Rightarrow> asio_error option \<Rightarrow> asio_error \<Rightarrow> string list \<Rightarrow> string \<times> int" where
  "sync_client resolve connect write e net =
     (case resolve of Some err \<Rightarrow> exception [] err
      | None \<Rightarrow> (case connect of Some err \<Rightarrow> exception [] err
        | None \<Rightarrow> (case write of Some err \<Rightarrow> exception [] err | None \<Rightarrow> sync_reply e net)))"


section \<open>The request is what the server's parser accepts\<close>

definition client_headers :: "string \<Rightarrow> header list" where
  "client_headers server =
     [\<lparr>hname = ''Host'', hvalue = server\<rparr>, \<lparr>hname = ''Accept'', hvalue = ''*/*''\<rparr>,
      \<lparr>hname = ''Connection'', hvalue = ''close''\<rparr>]"

lemma client_request_parsed:
  assumes "\<forall>c \<in> set path. uri_char c" "\<forall>c \<in> set server. text_char c"
  shows "parse_good reset (fresh_request a b) (client_request server path) =
    Some ([], \<lparr>req_method = ''GET'', req_uri = path, req_http_version_major = 1, req_http_version_minor = 0,
      req_headers = client_headers server\<rparr>)"
proof -
  define ls where "ls = [Field ''Host'' server, Field ''Accept'' ''*/*'', Field ''Connection'' ''close'']"
  have tokens: "\<forall>c \<in> set ''GET''. token_char c" "\<forall>c \<in> set ''1''. is_dec c" "\<forall>c \<in> set ''0''. is_dec c"
    by (simp_all add: token_char_def not_token_def is_char_def is_ctl_def is_tspecial_def tspecials_def
        is_dec_def char_val_def byte_def)
  have wf: "wf_hlines False ls" using assms(2)
    by (simp add: ls_def token_char_def text_char_def not_token_def is_char_def is_ctl_def is_tspecial_def
        tspecials_def char_val_def byte_def)
  have lines: "parse_good header_line_start r (concat (map render_hline ls) @ CR # LF # []) =
      Some ([], r\<lparr>req_headers := client_headers server\<rparr>)" if "req_headers r = []" for r
    using hlines_intro [of r ls "[]"] wf that by (simp add: ls_def client_headers_def)
  have "client_request server path =
      ''GET'' @ SP # path @ SP # ''HTTP/'' @ ''1'' @ CHR ''.'' # ''0'' @ CR # LF #
        concat (map render_hline ls) @ CR # LF # []"
    by (simp add: client_request_def ls_def)
  moreover have "foldl version_digit 0 ''1'' = 1" "foldl version_digit 0 ''0'' = 0"
    by (simp_all add: version_digit_def char_val_def byte_def)
  ultimately show ?thesis
    using request_line_intro [OF _ tokens(1) assms(1) _ tokens(2) _ tokens(3), of a b
        "concat (map render_hline ls) @ CR # LF # []"] lines
    by (simp add: reset_def)
qed

section \<open>Reading a reply\<close>

text \<open>The code on the status line; an unnamed status is sent as 500.\<close>

definition wire_code :: "status_type \<Rightarrow> nat" where
  "wire_code st = (case st of unnamed _ \<Rightarrow> 500 | _ \<Rightarrow> nat (status_code st))"

lemma wire_code_ok: "wire_code st = 200 \<longleftrightarrow> st = ok"
  by (cases st) (simp_all add: wire_code_def)

lemma wire_code_word: "unat (word_of_nat (wire_code st) :: s32) = wire_code st"
  by (cases st) (simp_all add: wire_code_def)

lemma read_status_line_buffer:
  "read_status_line (istream_on (to_buffer st @ t)) = (word_of_nat (wire_code st), True, istream_on t)"
  by (cases st) (simp_all add: read_status_line_def istream_on_def extract_word_def extract_unsigned_def
      sentry_def getline_def isspace_def byte_def is_dec_def dec_val_def digit_val_def char_val_def
      wire_code_def crlf_def Let_def)

definition one_line :: "string \<Rightarrow> bool" where
  "one_line s \<longleftrightarrow> CR \<notin> set s \<and> LF \<notin> set s"

definition plain_headers :: "header list \<Rightarrow> bool" where
  "plain_headers hs \<longleftrightarrow> hs \<noteq> [] \<and> (\<forall>h \<in> set hs. one_line (hname h) \<and> one_line (hvalue h))"

definition header_block :: "header list \<Rightarrow> string" where
  "header_block hs = concat (map (\<lambda>h. header_line h @ crlf) hs)"

lemma takeWhile_line: "LF \<notin> set l \<Longrightarrow> takeWhile (\<lambda>c. c \<noteq> LF) (l @ LF # t) = l"
  "LF \<notin> set l \<Longrightarrow> dropWhile (\<lambda>c. c \<noteq> LF) (l @ LF # t) = LF # t"
  by (induction l) auto

lemma getline_line: "LF \<notin> set l \<Longrightarrow> getline (istream_on (l @ LF # t)) = (l, istream_on t)"
  by (simp add: getline_def istream_on_def takeWhile_line)

lemma header_line_ends: "one_line (hname h) \<and> one_line (hvalue h) \<Longrightarrow> LF \<notin> set (header_line h @ [CR])"
  by (auto simp: one_line_def header_line_def name_value_separator_def)

lemma print_headers_block:
  "\<forall>h \<in> set hs. one_line (hname h) \<and> one_line (hvalue h) \<Longrightarrow>
   print_headers (istream_on (header_block hs @ crlf @ t)) out = (out @ header_block hs, istream_on t)"
proof (induction hs arbitrary: out)
  case Nil
  show ?case using getline_line [of "[CR]" t]
    by (subst print_headers.simps) (simp add: header_block_def crlf_def istream_on_def)
next
  case (Cons h hs)
  have "getline (istream_on (header_block (h # hs) @ crlf @ t)) =
      (header_line h @ [CR], istream_on (header_block hs @ crlf @ t))"
    using getline_line [OF header_line_ends, of h "header_block hs @ crlf @ t"] Cons.prems
    by (simp add: header_block_def crlf_def)
  moreover have "header_line h \<noteq> []" by (rule header_line_clean)
  ultimately show ?case using Cons
    by (subst print_headers.simps) (simp add: istream_on_def header_block_def crlf_def)
qed

text \<open>The first empty line is behind the last header.\<close>

lemma find_blank_block:
  assumes "plain_headers hs"
  shows "find_sub blank_line (header_block hs @ crlf @ w) = Some (length (header_block hs) - 2)"
proof -
  from assms obtain h hs' where hs: "hs = h # hs'" by (cases hs) (auto simp: plain_headers_def)
  have clean: "\<forall>h \<in> set hs. clean_header h"
    using assms by (simp add: plain_headers_def one_line_def clean_header_def no_CR_def)
  have "find_sub blank_line (header_block hs @ crlf @ w) =
      map_option ((+) (length (header_line h))) (find_sub blank_line (crlf @ header_block hs' @ crlf @ w))"
    using find_blank_skip [OF header_line_clean(1)] clean hs by (simp add: header_block_def)
  also have "find_sub blank_line (crlf @ header_block hs' @ crlf @ w) = Some (length (header_block hs'))"
    using find_blank_headers [of hs' w] clean hs by (simp add: header_block_def header_lines_length)
  finally show ?thesis using hs by (simp add: header_block_def crlf_def)
qed

lemma find_sub_longer: "find_sub pat u = Some i \<Longrightarrow> find_sub pat (u @ v) = Some i"
proof (induction u arbitrary: i)
  case (Cons c cs)
  then have len: "length pat \<le> length (c # cs)" using find_sub_Some by fastforce
  then have same: "take (length pat) (c # cs @ v) = take (length pat) (c # cs)"
    using take_append [of "length pat" "c # cs" v] by simp
  then show ?case using Cons by (auto split: if_splits)
qed (cases pat; cases v; auto split: if_splits)

text \<open>A read that stops at a pattern keeps what there is to read together and has read the pattern.\<close>

lemma read_until_keeps:
  "read_until delim e buf net = (err, buf', net') \<Longrightarrow> buf' @ concat net' = buf @ concat net"
  by (induction delim e buf net rule: read_until.induct) (auto split: if_splits)

lemma contains_longer: "contains_sub delim u \<Longrightarrow> contains_sub delim (u @ v)"
  using find_sub_longer by (fastforce simp: contains_sub_def)

lemma read_until_finds:
  "contains_sub delim (buf @ concat net) \<Longrightarrow>
   \<exists>buf' net'. read_until delim e buf net = (None, buf', net') \<and> contains_sub delim buf'"
  by (induction delim e buf net rule: read_until.induct) auto

lemma read_until_length:
  "read_until delim e buf net = (err, buf', net') \<Longrightarrow> length net' \<le> length net"
  by (induction delim e buf net rule: read_until.induct) (auto split: if_splits)

text \<open>If the first occurrence is behind \<open>u\<close>, all of \<open>u\<close> and the pattern are in the buffer.\<close>

lemma read_until_first:
  assumes "find_sub delim (buf @ concat net) = Some n" "n + length delim = length u"
    and "buf @ concat net = u @ w"
  obtains w' net' where "read_until delim e buf net = (None, u @ w', net')" "w' @ concat net' = w"
proof -
  have "contains_sub delim (buf @ concat net)" using assms(1) by (simp add: contains_sub_def)
  then obtain buf' net' where r: "read_until delim e buf net = (None, buf', net')" "contains_sub delim buf'"
    using read_until_finds by blast
  then obtain i where i: "find_sub delim buf' = Some i" by (auto simp: contains_sub_def)
  have all: "buf' @ concat net' = u @ w" using read_until_keeps [OF r(1)] assms(3) by simp
  from find_sub_longer [OF i, of "concat net'"] have "i = n"
    using assms(1,3) all by simp
  then have "length u \<le> length buf'" using find_sub_Some [OF i] assms(2) by simp
  then have "take (length u) buf' = u" using all by (metis append_eq_append_conv_if append_eq_conv_conj)
  then have "buf' = u @ drop (length u) buf'" by (metis append_take_drop_id)
  with all r(1) that show ?thesis by (metis append.assoc same_append_eq)
qed

lemma find_crlf_status: "\<exists>l. to_buffer st @ w = (l @ crlf) @ w \<and> find_sub crlf (to_buffer st @ w) = Some (length l)"
proof -
  obtain l where l: "to_buffer st = l @ crlf" "no_CR l" using status_line by blast
  have "find_sub crlf (l @ crlf @ w) = Some (length l)"
    using l(2) by (induction l) (auto simp: no_CR_def crlf_def)
  with l show ?thesis by auto
qed


section \<open>What the clients print\<close>

definition client_prints :: "reply \<Rightarrow> string" where
  "client_prints rep =
     (if rep_status rep = ok then header_block (rep_headers rep) @ [LF] @ rep_content rep
      else status_text (word_of_nat (wire_code (rep_status rep))))"

definition readable :: "reply \<Rightarrow> bool" where
  "readable rep \<longleftrightarrow> (rep_status rep = ok \<longrightarrow> plain_headers (rep_headers rep))"

definition delivers :: "string list \<Rightarrow> reply \<Rightarrow> bool" where
  "delivers net rep \<longleftrightarrow> concat net = concat (to_buffers rep)"

lemma reply_text:
  "concat (to_buffers rep) = to_buffer (rep_status rep) @ header_block (rep_headers rep) @ crlf @ rep_content rep"
  by (simp add: to_buffers_def concat_header_buffers header_block_def)

text \<open>The two reads that have a pattern to stop at, on what the server sends.\<close>

lemma read_status_ok:
  assumes "delivers net rep" and r: "read_until crlf e [] net = (err, buf, net')"
  shows "err = None
    \<and> (\<exists>t. read_status_line (istream_on buf) = (word_of_nat (wire_code (rep_status rep)), True, istream_on t)
         \<and> t @ concat net' = header_block (rep_headers rep) @ crlf @ rep_content rep)"
proof -
  let ?w = "header_block (rep_headers rep) @ crlf @ rep_content rep"
  obtain l where l: "to_buffer (rep_status rep) @ ?w = (l @ crlf) @ ?w"
    "find_sub crlf (to_buffer (rep_status rep) @ ?w) = Some (length l)"
    using find_crlf_status by metis
  then have "find_sub crlf ([] @ concat net) = Some (length l)" "[] @ concat net = (l @ crlf) @ ?w"
    using assms(1) by (simp_all add: delivers_def reply_text)
  from read_until_first [OF this(1) _ this(2), of e] obtain w' net'' where
    "read_until crlf e [] net = (None, (l @ crlf) @ w', net'')" "w' @ concat net'' = ?w"
    by auto
  with r l(1) read_status_line_buffer [of "rep_status rep" w'] show ?thesis by auto
qed

lemma read_headers_ok:
  assumes "plain_headers hs" and "buf0 @ concat net = header_block hs @ crlf @ w"
    and r: "read_until blank_line e buf0 net = (err, buf, net')"
  shows "err = None \<and> (\<exists>w'. buf = header_block hs @ crlf @ w' \<and> w' @ concat net' = w)"
proof -
  from assms(1) have "2 \<le> length (header_block hs)"
    by (cases hs) (auto simp: plain_headers_def header_block_def crlf_def)
  then have "length (header_block hs) - 2 + length blank_line = length (header_block hs @ crlf)"
    by (simp add: blank_line_def crlf_def)
  from read_until_first [OF _ this, of buf0 net w e] assms(2) find_blank_block [OF assms(1), of w]
  obtain w' net'' where "read_until blank_line e buf0 net = (None, (header_block hs @ crlf) @ w', net'')"
    "w' @ concat net'' = w" by auto
  with r show ?thesis by auto
qed

lemma plain_lines: "plain_headers hs \<Longrightarrow> \<forall>h \<in> set hs. one_line (hname h) \<and> one_line (hvalue h)"
  by (simp add: plain_headers_def)

section \<open>Every run of the asynchronous client\<close>

fun hc_inv :: "string \<Rightarrow> reply \<Rightarrow> string list \<times> http_client \<Rightarrow> bool" where
  "hc_inv req rep (net, c) =
     (case hc_op c of
        reading_status \<Rightarrow> delivers net rep \<and> hc_response c = [] \<and> hc_out c = [] \<and> hc_sent c = req
      | reading_headers \<Rightarrow> rep_status rep = ok \<and> hc_out c = [] \<and> hc_sent c = req
          \<and> hc_response c @ concat net = header_block (rep_headers rep) @ crlf @ rep_content rep
      | reading_content \<Rightarrow> rep_status rep = ok \<and> hc_response c = [] \<and> hc_sent c = req
          \<and> hc_out c @ concat net = header_block (rep_headers rep) @ [LF] @ rep_content rep
      | finished \<Rightarrow> (hc_sent c = [] \<and> (\<exists>m. hc_out c = ''Error: '' @ m @ [LF]))
          \<or> (hc_sent c = req \<and> hc_out c = client_prints rep)
      | _ \<Rightarrow> delivers net rep \<and> hc_request c = req \<and> hc_response c = [] \<and> hc_out c = [] \<and> hc_sent c = [])"

definition hc_init :: "string \<Rightarrow> string \<Rightarrow> reply \<Rightarrow> string list \<times> http_client \<Rightarrow> bool" where
  "hc_init server path rep s \<longleftrightarrow> snd s = new_http_client server path \<and> delivers (fst s) rep"

lemma wire_code_200: "(word_of_nat (wire_code st) :: s32) = 200 \<longleftrightarrow> st = ok"
  by (cases st) (simp_all add: wire_code_def)

lemma read_some_keeps:
  "read_some e buf net = (err, buf', net') \<Longrightarrow>
   buf' @ concat net' = buf @ concat net \<and> (err \<noteq> None \<longrightarrow> err = Some e \<and> buf' = buf \<and> net' = [])"
  by (induction e buf net rule: read_some.induct) (auto split: if_splits)

lemma hc_inv_step:
  assumes "readable rep" "err_eof e" and "hc_inv req rep s" "hc_step e s s'"
  shows "hc_inv req rep s'"
  using assms(4)
proof (cases rule: hc_step.cases)
  case (hc_status c net err buf net')
  with assms(3) have c: "delivers net rep" "hc_response c = []" "hc_out c = []" "hc_sent c = req" by auto
  then obtain t where "err = None" "t @ concat net' = header_block (rep_headers rep) @ crlf @ rep_content rep"
    "read_status_line (istream_on buf) = (word_of_nat (wire_code (rep_status rep)), True, istream_on t)"
    using read_status_ok [OF c(1)] hc_status(4) by metis
  with c hc_status(1,2) show ?thesis
    by (auto simp: handle_read_status_line_def wire_code_200 print_def client_prints_def istream_on_def Let_def)
next
  case (hc_headers c net err buf net')
  with assms(1,3) have c: "rep_status rep = ok" "plain_headers (rep_headers rep)"
    "hc_response c @ concat net = header_block (rep_headers rep) @ crlf @ rep_content rep"
    "hc_out c = []" "hc_sent c = req" by (auto simp: readable_def)
  from read_headers_ok [OF c(2,3) hc_headers(4)] print_headers_block [OF plain_lines [OF c(2)]] c hc_headers(1,2)
  show ?thesis by (auto simp: handle_read_headers_def print_def istream_on_def)
next
  case (hc_content c net err buf net')
  with assms(3) have c: "rep_status rep = ok" "hc_response c = []" "hc_sent c = req"
    "hc_out c @ concat net = header_block (rep_headers rep) @ [LF] @ rep_content rep" by auto
  from read_some_keeps [OF hc_content(4)] c(2) have
    k: "buf @ concat net' = concat net" "err \<noteq> None \<Longrightarrow> err = Some e \<and> buf = [] \<and> net' = []" by auto
  show ?thesis
  proof (cases err)
    case None
    with k c hc_content(1,2,3) show ?thesis by (simp add: handle_read_content_def print_def)
  next
    case (Some e')
    with k have "concat net = []" "e' = e" by auto
    then have "hc_out c = client_prints rep" using c(1,4) by (simp only: client_prints_def append_Nil2 if_True simp_thms)
    with Some c(3) \<open>e' = e\<close> assms(2) hc_content(2) show ?thesis by (simp add: handle_read_content_def)
  qed
qed (use assms(3) in \<open>auto simp: handle_resolve_def handle_connect_def handle_write_request_def
      report_message_def print_def split: option.splits\<close>)

interpretation hc: invariant_system "hc_init server path rep" "hc_step e"
    "\<lambda>s. readable rep \<and> err_eof e \<longrightarrow> hc_inv (client_request server path) rep s" for server path rep e
  by unfold_locales (auto simp: hc_init_def new_http_client_def intro: hc_inv_step)

text \<open>Every step brings the client closer to its end.\<close>

fun hc_rank :: "client_op \<Rightarrow> nat" where
  "hc_rank resolving = 6"
| "hc_rank connecting = 5"
| "hc_rank sending = 4"
| "hc_rank reading_status = 3"
| "hc_rank reading_headers = 2"
| "hc_rank reading_content = 1"
| "hc_rank finished = 0"

fun hc_left :: "string list \<times> http_client \<Rightarrow> nat" where
  "hc_left (net, c) = hc_rank (hc_op c) + length net"

lemma read_some_less:
  "read_some e buf net = (None, buf', net') \<Longrightarrow> length net' < length net"
  by (induction e buf net rule: read_some.induct) (auto split: if_splits)

lemma read_some_le: "read_some e buf net = (err, buf', net') \<Longrightarrow> length net' \<le> length net"
  by (induction e buf net rule: read_some.induct) (auto split: if_splits)

lemma hc_step_decreases: "hc_step e s s' \<Longrightarrow> hc_left s' < hc_left s"
proof (induction rule: hc_step.induct)
  case (hc_status c net err buf net')
  with read_until_length [OF hc_status(2)] show ?case
    by (auto simp: handle_read_status_line_def report_code_def print_def Let_def split: option.splits prod.splits)
next
  case (hc_headers c net err buf net')
  with read_until_length [OF hc_headers(2)] show ?case
    by (auto simp: handle_read_headers_def report_code_def print_def Let_def split: option.splits prod.splits)
next
  case (hc_content c net err buf net')
  with read_some_less [of e "hc_response c" net buf net'] read_some_le [OF hc_content(2)] show ?case
    by (auto simp: handle_read_content_def report_code_def print_def split: option.splits)
qed (auto simp: handle_resolve_def handle_connect_def handle_write_request_def report_message_def print_def
    split: option.splits)

lemma hc_step_ready: "hc_op (snd s) \<noteq> finished \<Longrightarrow> \<exists>s'. hc_step e s s'"
proof -
  assume not_finished: "hc_op (snd s) \<noteq> finished"
  obtain net c where s: "s = (net, c)" by fastforce
  obtain r1 r2 r3 where "read_until crlf e (hc_response c) net = r1"
    "read_until blank_line e (hc_response c) net = r2" "read_some e (hc_response c) net = r3" by blast
  then show ?thesis using not_finished unfolding s
    by (cases "hc_op c"; cases r1; cases r2; cases r3) (auto intro: hc_step.intros)
qed

section \<open>The synchronous client reads the same\<close>

lemma sync_content_prints: "err_eof e \<Longrightarrow> sync_content e out net = (out @ concat net, 0)"
  by (induction net arbitrary: out) auto

lemma sync_read_headers_prints:
  assumes "plain_headers hs" "t @ concat net = header_block hs @ crlf @ w" "err_eof e"
  shows "sync_read_headers e (istream_on t) net = (header_block hs @ [LF] @ w, 0)"
proof -
  obtain err buf net' where r: "read_until blank_line e t net = (err, buf, net')" by (metis prod_cases3)
  from read_headers_ok [OF assms(1,2) r] obtain w' where w': "err = None"
    "buf = header_block hs @ crlf @ w'" "w' @ concat net' = w" by blast
  have "(istream_on t)\<lparr>st_text := buf\<rparr> = istream_on buf" "st_text (istream_on t) = t" "st_text (istream_on w') = w'"
    by (simp_all add: istream_on_def)
  with r w'(1,2) print_headers_block [OF plain_lines [OF assms(1)], of w' "[]"] show ?thesis
    by (simp add: sync_read_headers_def sync_content_prints [OF assms(3)] flip: w'(3))
qed

lemma sync_client_prints:
  assumes "readable rep" "err_eof e" "delivers net rep"
  shows "sync_client None None None e net =
    (client_prints rep, if rep_status rep = ok then 0 else 1)"
proof -
  obtain err buf net' where r: "read_until crlf e [] net = (err, buf, net')" by (metis prod_cases3)
  from read_status_ok [OF assms(3) r] obtain t where t: "err = None"
    "read_status_line (istream_on buf) = (word_of_nat (wire_code (rep_status rep)), True, istream_on t)"
    "t @ concat net' = header_block (rep_headers rep) @ crlf @ rep_content rep" by blast
  have "sync_client None None None e net =
      (if rep_status rep \<noteq> ok then (status_text (word_of_nat (wire_code (rep_status rep))), 1)
       else sync_read_headers e (istream_on t) net')"
    using r t(1,2) by (simp add: sync_client_def sync_reply_def wire_code_200)
  then show ?thesis
    using sync_read_headers_prints [OF _ t(3) assms(2)] assms(1)
    by (simp add: client_prints_def readable_def)
qed

text \<open>
  A reply without headers is lost: its status line has taken the line end that would have begun the empty
  line, so both clients wait for one until the connection ends, and report that as an error.
\<close>

lemma read_until_never:
  "\<not> contains_sub delim (buf @ concat net) \<Longrightarrow> read_until delim e buf net = (Some e, buf @ concat net, [])"
  by (induction delim e buf net rule: read_until.induct) (auto dest: contains_longer)

lemma no_headers_no_content:
  assumes "rep_status rep = ok" "rep_headers rep = []" "delivers net rep"
    and "\<not> contains_sub blank_line (crlf @ rep_content rep)"
  shows "sync_client None None None e net = exception [] e"
proof -
  obtain err buf net' where r: "read_until crlf e [] net = (err, buf, net')" by (metis prod_cases3)
  from read_status_ok [OF assms(3) r] obtain t where t: "err = None"
    "read_status_line (istream_on buf) = (word_of_nat (wire_code ok), True, istream_on t)"
    "t @ concat net' = crlf @ rep_content rep" using assms(1,2) by (auto simp: header_block_def)
  from t(3) assms(4) have "read_until blank_line e t net' = (Some e, t @ concat net', [])"
    by (intro read_until_never) simp
  with r t show ?thesis
    by (simp add: sync_client_def sync_reply_def sync_read_headers_def wire_code_200 Let_def) (simp add: istream_on_def)
qed


section \<open>A client of the ad service\<close>

lemma ad_deserved_client:
  assumes "\<forall>c \<in> set path. uri_char c" "\<forall>c \<in> set server. text_char c" "url_decode path = Some q" "path_ok q"
  shows "ad_deserved (client_request server path) = Some (ad_reply (add_index q))"
proof -
  obtain st where "parse reset (fresh_request 0 0) (client_request server path) =
      (good, [], st, \<lparr>req_method = ''GET'', req_uri = path, req_http_version_major = 1,
        req_http_version_minor = 0, req_headers = client_headers server\<rparr>)"
    using client_request_parsed [OF assms(1,2), of 0 0] by (auto simp: parse_good_iff)
  then show ?thesis using assms(3,4) by (simp add: ad_deserved_def)
qed

lemma ad_reply_readable: "readable (ad_reply p)"
proof -
  have "one_line (to_string n)" for n
    using to_string_digits [of n] by (auto simp: one_line_def is_dec_def char_val_def byte_def)
  then show ?thesis
    by (simp add: readable_def ad_reply_def two_headers_def plain_headers_def Let_def) (simp add: one_line_def)
qed

definition ad_output :: "string \<Rightarrow> string" where
  "ad_output p =
     ''Content-Length: '' @ to_string (length (''process result: '' @ p)) @ crlf
     @ ''Content-Type: text/plain'' @ crlf @ [LF] @ ''process result: '' @ p"

lemma client_prints_ad: "client_prints (ad_reply p) = ad_output p"
  by (simp add: client_prints_def ad_reply_def ad_output_def two_headers_def header_block_def header_line_def
      name_value_separator_def Let_def)

text \<open>
  C34. A client and the ad service together. The request either client sends for a path is one the service
  answers, and however its answer is cut into chunks on the way, the synchronous client prints the two
  headers, an empty line and the result of the worker for the decoded path, and returns 0; in every run of
  the asynchronous client the same is printed, unless it could not send its request and says so; and every
  state of such a run is the end or can go on, each step coming closer to the end.
\<close>

theorem client_of_ad_service:
  assumes "\<forall>c \<in> set path. uri_char c" "\<forall>c \<in> set server. text_char c"
    and "url_decode path = Some q" "path_ok q"
    and "ad_deserved (client_request server path) = Some rep" "delivers net rep" "err_eof e"
    and "reach (\<lambda>s. s = (net, new_http_client server path)) (hc_step e) s"
  shows "sync_client None None None e net = (ad_output (add_index q), 0)
    \<and> (hc_op (snd s) = finished \<longrightarrow>
         (hc_sent (snd s) = [] \<and> (\<exists>m. hc_out (snd s) = ''Error: '' @ m @ [LF]))
         \<or> (hc_sent (snd s) = client_request server path \<and> hc_out (snd s) = ad_output (add_index q)))
    \<and> (hc_op (snd s) \<noteq> finished \<longrightarrow> (\<exists>s'. hc_step e s s'))
    \<and> (\<forall>s'. hc_step e s s' \<longrightarrow> hc_left s' < hc_left s)"
proof (intro conjI)
  have rep: "rep = ad_reply (add_index q)" using ad_deserved_client [OF assms(1-4)] assms(5) by simp
  then show "sync_client None None None e net = (ad_output (add_index q), 0)"
    using sync_client_prints [OF _ assms(7,6)] ad_reply_readable
    by (simp add: client_prints_ad) (simp add: ad_reply_def Let_def)
  have "reach (hc_init server path rep) (hc_step e) s"
    by (rule reach_weaken [OF assms(8)]) (simp add: hc_init_def assms(6))
  then have "hc_inv (client_request server path) rep s"
    using hc.invariant assms(7) rep ad_reply_readable by blast
  then show "hc_op (snd s) = finished \<longrightarrow>
      (hc_sent (snd s) = [] \<and> (\<exists>m. hc_out (snd s) = ''Error: '' @ m @ [LF]))
      \<or> (hc_sent (snd s) = client_request server path \<and> hc_out (snd s) = ad_output (add_index q))"
    by (cases s) (auto simp: rep client_prints_ad)
qed (use hc_step_ready hc_step_decreases in blast)+

definition demo_eof :: asio_error where
  "demo_eof = \<lparr>err_eof = True, err_message = ''End of file'', err_code = ''asio.misc:2''\<rparr>"

theorem client_of_ad_service_witness:
  "sync_client None None None demo_eof [concat (to_buffers (ad_reply ''/a''))] = (ad_output ''/a'', 0)
   \<and> (\<exists>s'. hc_step demo_eof ([concat (to_buffers (ad_reply ''/a''))], new_http_client ''h'' ''/a'') s')"
proof -
  have chars: "\<forall>c \<in> set ''/a''. uri_char c" "\<forall>c \<in> set ''h''. text_char c" "url_decode ''/a'' = Some ''/a''"
    "path_ok ''/a''" "add_index ''/a'' = ''/a''"
    by (simp_all add: uri_char_def text_char_def is_ctl_def char_val_def byte_def path_ok_def contains_sub_def
        add_index_def)
  show ?thesis
    using client_of_ad_service [OF chars(1-4) ad_deserved_client [OF chars(1-4)],
        of "[concat (to_buffers (ad_reply ''/a''))]" demo_eof
        "([concat (to_buffers (ad_reply ''/a''))], new_http_client ''h'' ''/a'')"] chars(5)
    by (auto simp: delivers_def demo_eof_def new_http_client_def intro: reach.reach_init)
qed

end
