(* ===== verification/Simple_Reactor.thy ===== *)
theory Simple_Reactor
  imports Net_Kernel
begin

text \<open>
  The simple reactor of \<^verbatim>\<open>src/Linux_Net/Reactor/01_simple_reactor.c\<close>: blocking sockets, an entry of
  \<open>myevents\<close> per connection, and the listening socket in the entry behind the last one. \<open>xtree\<close> is the
  kernel's set behind \<open>g_epfd\<close>: for each descriptor what it is watched for and the entry it was registered with.
\<close>

definition EVENT_SIZE :: nat where
  "EVENT_SIZE = 1024"

definition BUF_LEN :: nat where
  "BUF_LEN = 1024"

datatype x_callback = InitAccept | Read_data | Send_data

text \<open>The members of \<open>xevent\<close>; \<open>None\<close> is the null pointer and the empty set of events.\<close>

record xevent =
  x_fd :: int
  x_events :: "epoll_flag option"
  x_call :: "x_callback option"
  x_buf :: string
  x_buflen :: int

record xreactor =
  myevents :: "nat \<Rightarrow> xevent"
  xtree :: "int \<Rightarrow> (epoll_flag \<times> nat) option"
  xnet :: net

definition set_xevent :: "nat \<Rightarrow> xevent \<Rightarrow> xreactor \<Rightarrow> xreactor" where
  "set_xevent i ev s = s\<lparr>myevents := (myevents s)(i := ev)\<rparr>"

text \<open>\<open>epoll_ctl\<close> fails, without further consequences, when it adds what is there or changes what is not.\<close>

definition event_add :: "int \<Rightarrow> epoll_flag \<Rightarrow> x_callback \<Rightarrow> nat \<Rightarrow> xreactor \<Rightarrow> xreactor" where
  "event_add fd fl cb i s =
     (let s = set_xevent i ((myevents s i)\<lparr>x_fd := fd, x_events := Some fl, x_call := Some cb\<rparr>) s
      in if xtree s fd = None then s\<lparr>xtree := (xtree s)(fd \<mapsto> (fl, i))\<rparr> else s)"

definition event_set :: "int \<Rightarrow> epoll_flag \<Rightarrow> x_callback \<Rightarrow> nat \<Rightarrow> xreactor \<Rightarrow> xreactor" where
  "event_set fd fl cb i s =
     (let s = set_xevent i ((myevents s i)\<lparr>x_fd := fd, x_events := Some fl, x_call := Some cb\<rparr>) s
      in if xtree s fd \<noteq> None then s\<lparr>xtree := (xtree s)(fd \<mapsto> (fl, i))\<rparr> else s)"

definition blank_xevent :: xevent where
  "blank_xevent =
     \<lparr>x_fd = 0, x_events = None, x_call = None, x_buf = replicate BUF_LEN (CHR 0x00), x_buflen = 0\<rparr>"

definition event_del :: "int \<Rightarrow> nat \<Rightarrow> xreactor \<Rightarrow> xreactor" where
  "event_del fd i s = (set_xevent i blank_xevent s)\<lparr>xtree := (xtree s)(fd := None)\<rparr>"

text \<open>
  The callbacks, called with the descriptor and the entry. A descriptor that is closed leaves the kernel's
  set by itself, so the \<open>EPOLL_CTL_DEL\<close> behind \<open>Close\<close> finds nothing.
\<close>

definition x_read_data :: "int \<Rightarrow> nat \<Rightarrow> xreactor \<Rightarrow> xreactor outcome" where
  "x_read_data fd i s =
     (case sys_Read BUF_LEN fd (xnet s) of
        None \<Rightarrow> Blocks
      | Some (Err e, w) \<Rightarrow> Next (set_xevent i ((myevents s i)\<lparr>x_buflen := - 1\<rparr>) (s\<lparr>xnet := w\<rparr>))
      | Some (Got str, w) \<Rightarrow>
          (let ev = myevents s i;
               s = set_xevent i (ev\<lparr>x_buf := str @ drop (length str) (x_buf ev), x_buflen := int (length str)\<rparr>)
                     (s\<lparr>xnet := w\<rparr>)
           in if str \<noteq> [] then Next (event_set fd EPOLLOUT Send_data i s)
              else Next (event_del fd i (s\<lparr>xnet := sys_Close fd (xnet s)\<rparr>))))"

text \<open>A negative length is converted to a size beyond the buffer.\<close>

definition x_send_data :: "int \<Rightarrow> nat \<Rightarrow> xreactor \<Rightarrow> xreactor outcome" where
  "x_send_data fd i s =
     (let ev = myevents s i in
      if x_buflen ev < 0 then Undefined
      else Next (event_set fd EPOLLIN Read_data i
        (s\<lparr>xnet := sys_Write fd (take (nat (x_buflen ev)) (x_buf ev)) (xnet s)\<rparr>)))"

fun free_xevent :: "xreactor \<Rightarrow> nat list \<Rightarrow> nat" where
  "free_xevent s [] = EVENT_SIZE"
| "free_xevent s (i # is) = (if x_fd (myevents s i) = 0 then i else free_xevent s is)"

definition initAccept :: "xreactor \<Rightarrow> xreactor outcome" where
  "initAccept s =
     (case sys_Accept (xnet s) of
        None \<Rightarrow> Blocks
      | Some (Inl e, w) \<Rightarrow> Exits
      | Some (Inr cfd, w) \<Rightarrow>
          Next (event_add cfd EPOLLIN Read_data (free_xevent s [0..<EVENT_SIZE]) (s\<lparr>xnet := w\<rparr>)))"

definition x_run :: "nat \<Rightarrow> xreactor \<Rightarrow> xreactor outcome" where
  "x_run i s =
     (case x_call (myevents s i) of
        None \<Rightarrow> Undefined
      | Some InitAccept \<Rightarrow> initAccept s
      | Some Read_data \<Rightarrow> x_read_data (x_fd (myevents s i)) i s
      | Some Send_data \<Rightarrow> x_send_data (x_fd (myevents s i)) i s)"

text \<open>One event: the entry behind its pointer and what is reported; then the loop over a batch.\<close>

definition x_dispatch :: "nat \<times> epoll_flag \<Rightarrow> xreactor \<Rightarrow> xreactor outcome" where
  "x_dispatch event s =
     (if x_events (myevents s (fst event)) = Some (snd event) then x_run (fst event) s else Next s)"

fun x_dispatch_all :: "(nat \<times> epoll_flag) list \<Rightarrow> xreactor \<Rightarrow> xreactor outcome" where
  "x_dispatch_all [] s = Next s"
| "x_dispatch_all (e # es) s = (case x_dispatch e s of Next s' \<Rightarrow> x_dispatch_all es s' | r \<Rightarrow> r)"

text \<open>What \<open>epoll_wait\<close> may report: descriptors in the set, for what they are watched for.\<close>

definition x_reports :: "(nat \<times> epoll_flag) list \<Rightarrow> xreactor \<Rightarrow> bool" where
  "x_reports es s \<longleftrightarrow> (\<exists>fds. distinct fds \<and> map (xtree s) fds = map (\<lambda>(i, fl). Some (fl, i)) es)"

inductive x_step :: "xreactor \<Rightarrow> xreactor \<Rightarrow> bool" where
  x_env: "net_env interrupt_only (xnet s) w \<Longrightarrow> x_step s (s\<lparr>xnet := w\<rparr>)"
| x_batch: "x_reports es s \<Longrightarrow> x_dispatch_all es s = Next s' \<Longrightarrow> x_step s s'"

definition x_start :: "int \<Rightarrow> net \<Rightarrow> xreactor" where
  "x_start lfd w =
     event_add lfd EPOLLIN InitAccept EVENT_SIZE \<lparr>myevents = (\<lambda>_. blank_xevent), xtree = Map.empty, xnet = w\<rparr>"

definition x_init :: "xreactor \<Rightarrow> bool" where
  "x_init s \<longleftrightarrow>
     (\<exists>lfd w. 3 \<le> lfd \<and> set (open_fds w) = {0, 1, 2, lfd} \<and> writes_in interrupt_only w \<and> s = x_start lfd w)"

section \<open>Entries and the kernel's set\<close>

fun x_owes :: "x_callback \<Rightarrow> epoll_flag \<Rightarrow> xevent \<Rightarrow> string \<Rightarrow> string \<Rightarrow> bool" where
  "x_owes Read_data EPOLLIN ev g se = (se = g)"
| "x_owes Send_data EPOLLOUT ev g se = (0 \<le> x_buflen ev \<and> g = se @ take (nat (x_buflen ev)) (x_buf ev))"
| "x_owes _ _ _ _ _ = False"

definition x_fine :: "nat \<Rightarrow> xevent \<Rightarrow> xreactor \<Rightarrow> bool" where
  "x_fine i ev s \<longleftrightarrow>
     x_fd ev \<in> set (open_fds (xnet s)) \<and> x_events ev \<noteq> None \<and> x_call ev \<noteq> None
     \<and> xtree s (x_fd ev) = Some (the (x_events ev), i)
     \<and> (if i = EVENT_SIZE then x_call ev = Some InitAccept \<and> x_events ev = Some EPOLLIN
        else x_owes (the (x_call ev)) (the (x_events ev)) ev (got (xnet s) (x_fd ev)) (sent (xnet s) (x_fd ev)))"

text \<open>The listening socket still has its entry.\<close>

definition listening :: "xreactor \<Rightarrow> bool" where
  "listening s \<longleftrightarrow> x_call (myevents s EVENT_SIZE) = Some InitAccept"

definition x_ok :: "xreactor \<Rightarrow> bool" where
  "x_ok s \<longleftrightarrow>
     0 \<in> set (open_fds (xnet s)) \<and> writes_in interrupt_only (xnet s)
     \<and> x_fd (myevents s EVENT_SIZE) \<noteq> 0
     \<and> (\<forall>i\<le>EVENT_SIZE. if x_fd (myevents s i) = 0 then x_events (myevents s i) = None else x_fine i (myevents s i) s)
     \<and> (\<forall>fd fl i. xtree s fd = Some (fl, i) \<longrightarrow> fd \<noteq> 0 \<and> i \<le> EVENT_SIZE \<and> x_fd (myevents s i) = fd)"

text \<open>
  Every callback changes one entry \<open>i\<close> and one descriptor \<open>fd\<close>, which is that of the entry, or not in the set
  while the entry is free; afterwards the entry is free and the descriptor out of the set, or they belong
  together.
\<close>

lemma x_ok_update:
  assumes ok: "x_ok s" and i: "i < EVENT_SIZE"
    and old: "fd \<noteq> 0" "x_fd (myevents s i) = fd \<or> x_fd (myevents s i) = 0 \<and> xtree s fd = None"
    and t: "myevents t = (myevents s)(i := ev)" "xtree t = (xtree s)(fd := v)"
      "0 \<in> set (open_fds (xnet t))" "writes_in interrupt_only (xnet t)"
    and new: "x_fd ev = 0 \<and> x_events ev = None \<and> v = None \<or> x_fd ev = fd \<and> x_fine i ev t"
    and net: "\<And>x. x \<noteq> fd \<Longrightarrow> got (xnet t) x = got (xnet s) x \<and> sent (xnet t) x = sent (xnet s) x
      \<and> (x \<in> set (open_fds (xnet s)) \<longrightarrow> x \<in> set (open_fds (xnet t)))"
  shows "x_ok t"
proof -
  have in_tree: "x_fd (myevents s j) = fd \<Longrightarrow> j = i" if "j \<le> EVENT_SIZE" for j
  proof -
    assume j: "x_fd (myevents s j) = fd"
    then have "x_fine j (myevents s j) s" using ok that old(1) by (fastforce simp: x_ok_def)
    then obtain fl where tj: "xtree s fd = Some (fl, j)" by (auto simp: x_fine_def j)
    then have "x_fd (myevents s i) = fd" using old(2) by auto
    then have "x_fine i (myevents s i) s" using ok i old(1) by (fastforce simp: x_ok_def)
    with tj \<open>x_fd (myevents s i) = fd\<close> show "j = i" by (auto simp: x_fine_def)
  qed
  have "if x_fd (myevents t j) = 0 then x_events (myevents t j) = None else x_fine j (myevents t j) t"
    if j: "j \<le> EVENT_SIZE" for j
  proof (cases "j = i")
    case True
    with new j t(1) old(1) show ?thesis by auto
  next
    case False
    then have same: "myevents t j = myevents s j" and x: "x_fd (myevents s j) \<noteq> fd" using t(1) in_tree j by auto
    show ?thesis
    proof (cases "x_fd (myevents s j) = 0")
      case True
      with ok j show ?thesis by (auto simp: x_ok_def same)
    next
      case False
      with ok j have "x_fine j (myevents s j) s" by (auto simp: x_ok_def)
      with False x net [OF x] t(2) show ?thesis by (auto simp: x_fine_def same)
    qed
  qed
  moreover have "x \<noteq> 0 \<and> j \<le> EVENT_SIZE \<and> x_fd (myevents t j) = x" if "xtree t x = Some (fl, j)" for x fl j
  proof (cases "x = fd")
    case True
    with that new t old(1) i show ?thesis by (auto simp: x_fine_def)
  next
    case False
    with that t(2) have "xtree s x = Some (fl, j)" by simp
    then have "x \<noteq> 0 \<and> j \<le> EVENT_SIZE \<and> x_fd (myevents s j) = x" using ok by (auto simp: x_ok_def)
    moreover have "j \<noteq> i" using calculation False old(2) by auto
    ultimately show ?thesis using t(1) by simp
  qed
  moreover have "x_fd (myevents t EVENT_SIZE) \<noteq> 0" using ok i t(1) by (simp add: x_ok_def)
  ultimately show ?thesis using t(3,4) by (auto simp: x_ok_def)
qed

lemma free_xevent_cases:
  "free_xevent s is = EVENT_SIZE \<and> (\<forall>i\<in>set is. x_fd (myevents s i) \<noteq> 0 \<or> i = EVENT_SIZE)
   \<or> free_xevent s is \<in> set is \<and> x_fd (myevents s (free_xevent s is)) = 0"
  by (induction "is") auto

lemma x_fine_at:
  assumes "x_ok s" "i \<le> EVENT_SIZE" "x_fd (myevents s i) \<noteq> 0"
  shows "x_fine i (myevents s i) s"
  using assms by (auto simp: x_ok_def)

lemma x_ok_free: "x_ok s \<Longrightarrow> fd \<notin> set (open_fds (xnet s)) \<Longrightarrow> xtree s fd = None"
proof (rule ccontr)
  assume ok: "x_ok s" and closed: "fd \<notin> set (open_fds (xnet s))" and "xtree s fd \<noteq> None"
  then obtain fl i where "xtree s fd = Some (fl, i)" by auto
  then have i: "i \<le> EVENT_SIZE" "x_fd (myevents s i) = fd" "fd \<noteq> 0" using ok by (auto simp: x_ok_def)
  then show False using x_fine_at [OF ok i(1)] closed by (auto simp: x_fine_def)
qed


section \<open>The callbacks keep the entries and the set together\<close>

lemma sys_Read_keeps:
  assumes "sys_Read n fd w = Some (a, w')"
  shows "open_fds w' = open_fds w" "sent w' = sent w" "outgoing w' = outgoing w" "listen_queue w' = listen_queue w"
    "got w' = (case a of Got s \<Rightarrow> (got w)(fd := got w fd @ s) | Err e \<Rightarrow> got w)"
  using assms by (auto simp: sys_Read_def split: option.splits answer.split)

lemma x_ok_read:
  assumes ok: "x_ok s" and i: "i < EVENT_SIZE" "x_fd (myevents s i) \<noteq> 0" "x_call (myevents s i) = Some Read_data"
    and r: "x_read_data (x_fd (myevents s i)) i s = Next t"
  shows "x_ok t"
proof -
  let ?fd = "x_fd (myevents s i)"
  have fine: "x_fine i (myevents s i) s" using x_fine_at [OF ok _ i(2)] i(1) by simp
  then have tree: "x_events (myevents s i) = Some EPOLLIN" "xtree s ?fd = Some (EPOLLIN, i)"
    "sent (xnet s) ?fd = got (xnet s) ?fd" "?fd \<in> set (open_fds (xnet s))"
    using i by (auto simp: x_fine_def elim!: x_owes.elims)
  have zero: "0 \<in> set (open_fds (xnet s))" "writes_in interrupt_only (xnet s)" using ok by (auto simp: x_ok_def)
  obtain a w where rd: "sys_Read BUF_LEN ?fd (xnet s) = Some (a, w)"
    using r by (auto simp: x_read_data_def split: option.splits)
  note k = sys_Read_keeps [OF rd]
  show ?thesis
  proof (cases a)
    case (Err e)
    then have t: "t = set_xevent i ((myevents s i)\<lparr>x_buflen := - 1\<rparr>) (s\<lparr>xnet := w\<rparr>)"
      using r rd by (simp add: x_read_data_def)
    show ?thesis
      by (rule x_ok_update [OF ok i(1,2), where v = "xtree s ?fd" and ev = "(myevents s i)\<lparr>x_buflen := - 1\<rparr>"])
        (use Err k zero tree fine i in \<open>auto simp: t set_xevent_def x_fine_def writes_in_def elim!: x_owes.elims\<close>)
  next
    case (Got str)
    let ?ev = "(myevents s i)\<lparr>x_buf := str @ drop (length str) (x_buf (myevents s i)), x_buflen := int (length str)\<rparr>"
    show ?thesis
    proof (cases "str = []")
      case True
      then have t: "t = event_del ?fd i ((set_xevent i ?ev (s\<lparr>xnet := w\<rparr>))\<lparr>xnet := sys_Close ?fd w\<rparr>)"
        using r rd Got by (simp add: x_read_data_def set_xevent_def Let_def)
      show ?thesis
        by (rule x_ok_update [OF ok i(1,2), where v = None and ev = blank_xevent])
          (use Got True k zero i in \<open>auto simp: t set_xevent_def event_del_def blank_xevent_def writes_in_def\<close>)
    next
      case False
      then have t: "t = event_set ?fd EPOLLOUT Send_data i (set_xevent i ?ev (s\<lparr>xnet := w\<rparr>))"
        using r rd Got by (simp add: x_read_data_def Let_def)
      show ?thesis
        by (rule x_ok_update [OF ok i(1,2), where v = "Some (EPOLLOUT, i)"
              and ev = "?ev\<lparr>x_fd := ?fd, x_events := Some EPOLLOUT, x_call := Some Send_data\<rparr>"])
          (use Got k zero tree i in \<open>auto simp: t set_xevent_def event_set_def x_fine_def writes_in_def Let_def\<close>)
    qed
  qed
qed

lemma x_ok_send:
  assumes ok: "x_ok s" and i: "i < EVENT_SIZE" "x_fd (myevents s i) \<noteq> 0" "x_call (myevents s i) = Some Send_data"
    and r: "x_send_data (x_fd (myevents s i)) i s = Next t"
  shows "x_ok t"
proof -
  let ?ev = "myevents s i" let ?fd = "x_fd ?ev"
  have "x_fine i ?ev s" using x_fine_at [OF ok _ i(2)] i(1) by simp
  then have tree: "xtree s ?fd = Some (EPOLLOUT, i)" "?fd \<in> set (open_fds (xnet s))"
    "got (xnet s) ?fd = sent (xnet s) ?fd @ take (nat (x_buflen ?ev)) (x_buf ?ev)"
    using i by (auto simp: x_fine_def elim!: x_owes.elims)
  have zero: "0 \<in> set (open_fds (xnet s))" "writes_in interrupt_only (xnet s)" using ok by (auto simp: x_ok_def)
  obtain ws' where w: "sys_Write ?fd (take (nat (x_buflen ?ev)) (x_buf ?ev)) (xnet s) =
      transmit ?fd (take (nat (x_buflen ?ev)) (x_buf ?ev)) ws' (xnet s)"
    "writes_in interrupt_only (sys_Write ?fd (take (nat (x_buflen ?ev)) (x_buf ?ev)) (xnet s))"
    using sys_Write_echo [OF zero(2)] by blast
  have t: "t = event_set ?fd EPOLLIN Read_data i
      (s\<lparr>xnet := sys_Write ?fd (take (nat (x_buflen ?ev)) (x_buf ?ev)) (xnet s)\<rparr>)"
    using r by (simp add: x_send_data_def Let_def split: if_splits)
  show ?thesis
    by (rule x_ok_update [OF ok i(1,2), where v = "Some (EPOLLIN, i)"
          and ev = "?ev\<lparr>x_fd := ?fd, x_events := Some EPOLLIN, x_call := Some Read_data\<rparr>"])
      (use w zero tree i in \<open>auto simp: t set_xevent_def event_set_def x_fine_def Let_def\<close>)
qed

lemma sys_Accept_keeps:
  assumes "sys_Accept w = Some (Inr fd, w')"
  shows "fd = lowest_free (open_fds w)" "open_fds w' = fd # open_fds w" "got w' = (got w)(fd := [])"
    "sent w' = (sent w)(fd := [])" "outgoing w' = (outgoing w)(fd := [])"
  using sys_Accept_conn [OF assms] by auto

lemma x_ok_accept:
  assumes ok: "x_ok s" and r: "initAccept s = Next t" and l: "listening t"
  shows "x_ok t"
proof -
  obtain cfd w where a: "sys_Accept (xnet s) = Some (Inr cfd, w)"
    and t: "t = event_add cfd EPOLLIN Read_data (free_xevent s [0..<EVENT_SIZE]) (s\<lparr>xnet := w\<rparr>)"
    using r by (auto simp: initAccept_def split: option.splits sum.splits)
  let ?i = "free_xevent s [0..<EVENT_SIZE]"
  note k = sys_Accept_keeps [OF a]
  have zero: "0 \<in> set (open_fds (xnet s))" "writes_in interrupt_only (xnet s)" using ok by (auto simp: x_ok_def)
  have "?i \<noteq> EVENT_SIZE"
    using l by (auto simp: t listening_def event_add_def set_xevent_def Let_def split: if_splits)
  then have i: "?i < EVENT_SIZE" "x_fd (myevents s ?i) = 0" using free_xevent_cases [of s "[0..<EVENT_SIZE]"] by auto
  have fresh: "cfd \<notin> set (open_fds (xnet s))" using lowest_free_fresh k(1) by metis
  have free: "xtree s cfd = None" using x_ok_free [OF ok fresh] .
  have "cfd \<noteq> 0" using fresh zero by auto
  then show ?thesis
    by (rule x_ok_update [OF ok i(1), where v = "Some (EPOLLIN, ?i)"
          and ev = "(myevents s ?i)\<lparr>x_fd := cfd, x_events := Some EPOLLIN, x_call := Some Read_data\<rparr>"])
      (use k zero i free in \<open>auto simp: t set_xevent_def event_add_def x_fine_def writes_in_def Let_def\<close>)
qed

text \<open>No callback gives the listening socket its entry back.\<close>

lemma still_listening: "x_run i s = Next t \<Longrightarrow> listening t \<Longrightarrow> listening s"
  by (auto simp: x_run_def initAccept_def x_read_data_def x_send_data_def event_add_def event_set_def event_del_def
      set_xevent_def blank_xevent_def listening_def Let_def split: option.splits x_callback.splits sum.splits
      answer.splits if_splits)

lemma x_ok_run:
  assumes ok: "x_ok s" and i: "i \<le> EVENT_SIZE" "x_events (myevents s i) \<noteq> None"
    and r: "x_run i s = Next t" and l: "listening t"
  shows "x_ok t"
proof -
  have ls: "listening s" using still_listening [OF r l] .
  have fd: "x_fd (myevents s i) \<noteq> 0" using ok i by (auto simp: x_ok_def split: if_splits)
  have fine: "x_fine i (myevents s i) s" using x_fine_at [OF ok i(1) fd] .
  show ?thesis
  proof (cases "i = EVENT_SIZE")
    case True
    then have "initAccept s = Next t" using r ls by (simp add: x_run_def listening_def)
    then show ?thesis using x_ok_accept [OF ok] l by blast
  next
    case False
    then have lt: "i < EVENT_SIZE" using i by simp
    from fine False consider "x_call (myevents s i) = Some Read_data" | "x_call (myevents s i) = Some Send_data"
      by (auto simp: x_fine_def elim!: x_owes.elims)
    then show ?thesis
      by cases (use x_ok_read [OF ok lt fd] x_ok_send [OF ok lt fd] r in \<open>auto simp: x_run_def\<close>)
  qed
qed

lemma x_dispatch_listening: "x_dispatch_all es s = Next t \<Longrightarrow> listening t \<Longrightarrow> listening s"
proof (induction es arbitrary: s)
  case (Cons e es)
  then show ?case using still_listening by (auto simp: x_dispatch_def split: outcome.splits if_splits)
qed simp

lemma x_ok_dispatch_all:
  "x_ok s \<Longrightarrow> \<forall>e\<in>set es. fst e \<le> EVENT_SIZE \<Longrightarrow> x_dispatch_all es s = Next t \<Longrightarrow> listening t \<Longrightarrow> x_ok t"
proof (induction es arbitrary: s)
  case (Cons e es)
  then obtain s' where s': "x_dispatch e s = Next s'" "x_dispatch_all es s' = Next t" by (auto split: outcome.splits)
  have "listening s'" using x_dispatch_listening [OF s'(2)] Cons.prems(4) .
  then have "x_ok s'" using s'(1) Cons.prems(1,2) x_ok_run by (auto simp: x_dispatch_def split: if_splits)
  then show ?case using Cons.IH s'(2) Cons.prems by simp
qed simp

lemma x_reports_tree:
  assumes "x_reports es s" "\<forall>fd fl i. xtree s fd = Some (fl, i) \<longrightarrow> i \<le> EVENT_SIZE"
  shows "\<forall>e\<in>set es. fst e \<le> EVENT_SIZE"
proof
  fix e
  assume e: "e \<in> set es"
  from assms(1) obtain fds where "map (xtree s) fds = map (\<lambda>(i, fl). Some (fl, i)) es" by (auto simp: x_reports_def)
  then have "set (map (xtree s) fds) = set (map (\<lambda>(i, fl). Some (fl, i)) es)" by (rule arg_cong)
  moreover have "Some (snd e, fst e) \<in> set (map (\<lambda>(i, fl). Some (fl, i)) es)" using e by (force split: prod.splits)
  ultimately have "Some (snd e, fst e) \<in> xtree s ` set fds" by (simp only: set_map)
  then obtain fd where "xtree s fd = Some (snd e, fst e)" by (metis imageE)
  then show "fst e \<le> EVENT_SIZE" using assms(2) by blast
qed

definition x_inv :: "xreactor \<Rightarrow> bool" where
  "x_inv s \<longleftrightarrow> (listening s \<longrightarrow> x_ok s)"

lemma x_ok_env: "x_ok s \<Longrightarrow> net_env interrupt_only (xnet s) w \<Longrightarrow> x_ok (s\<lparr>xnet := w\<rparr>)"
proof -
  assume ok: "x_ok s" and env: "net_env interrupt_only (xnet s) w"
  note k = net_env_keeps [OF env]
  then have "x_fine i ev (s\<lparr>xnet := w\<rparr>) = x_fine i ev s" for i ev by (simp add: x_fine_def)
  with ok k show ?thesis by (simp add: x_ok_def)
qed

lemma x_inv_step: "x_inv s \<Longrightarrow> x_step s t \<Longrightarrow> x_inv t"
  unfolding x_inv_def
proof (intro impI)
  assume inv: "listening s \<longrightarrow> x_ok s" and st: "x_step s t" and l: "listening t"
  from st show "x_ok t"
  proof cases
    case (x_env w)
    with inv l show ?thesis using x_ok_env by (simp add: listening_def)
  next
    case (x_batch es)
    have ok: "x_ok s" using inv x_dispatch_listening [OF x_batch(2) l] by blast
    then have "\<forall>fd fl i. xtree s fd = Some (fl, i) \<longrightarrow> i \<le> EVENT_SIZE" unfolding x_ok_def by blast
    from x_ok_dispatch_all [OF ok x_reports_tree [OF x_batch(1) this] x_batch(2) l] show ?thesis .
  qed
qed

lemma x_start_ok: "x_init s \<Longrightarrow> x_ok s \<and> listening s"
  by (auto simp: x_init_def x_ok_def x_start_def event_add_def set_xevent_def blank_xevent_def x_fine_def
      listening_def split: if_splits)

interpretation simple_reactor: invariant_system x_init x_step x_inv
  by unfold_locales (simp add: x_inv_def x_start_ok, fact x_inv_step)


section \<open>The table that is full\<close>

text \<open>
  When every entry is taken, the loop that looks for a free one ends at the entry of the listening socket,
  and the new connection takes that. From then on nothing is accepted any more.
\<close>

definition deaf :: "xreactor \<Rightarrow> bool" where
  "deaf s \<longleftrightarrow> (\<forall>i\<le>EVENT_SIZE. x_call (myevents s i) \<noteq> Some InitAccept)
     \<and> (\<forall>fd fl i. xtree s fd = Some (fl, i) \<longrightarrow> i \<le> EVENT_SIZE)"

lemma x_full_overrun:
  assumes ok: "x_ok s" and full: "\<forall>i<EVENT_SIZE. x_fd (myevents s i) \<noteq> 0" and r: "initAccept s = Next t"
  shows "deaf t"
proof -
  have "free_xevent s [0..<EVENT_SIZE] = EVENT_SIZE"
    using free_xevent_cases [of s "[0..<EVENT_SIZE]"] full by auto
  then obtain cfd w where t: "t = event_add cfd EPOLLIN Read_data EVENT_SIZE (s\<lparr>xnet := w\<rparr>)"
    using r by (auto simp: initAccept_def split: option.splits sum.splits)
  have "x_call (myevents s i) \<noteq> Some InitAccept" if "i < EVENT_SIZE" for i
    using x_fine_at [OF ok, of i] that full by (auto simp: x_fine_def elim!: x_owes.elims)
  then show ?thesis using ok by (auto simp: deaf_def t event_add_def set_xevent_def x_ok_def Let_def le_less)
qed

lemma deaf_run:
  assumes "deaf s" "i \<le> EVENT_SIZE" "x_run i s = Next t"
  shows "deaf t \<and> listen_queue (xnet t) = listen_queue (xnet s)"
proof -
  from assms consider "x_read_data (x_fd (myevents s i)) i s = Next t" | "x_send_data (x_fd (myevents s i)) i s = Next t"
    by (auto simp: x_run_def deaf_def split: option.splits x_callback.splits)
  then show ?thesis
  proof cases
    case 1
    then obtain a w where rd: "sys_Read BUF_LEN (x_fd (myevents s i)) (xnet s) = Some (a, w)"
      by (auto simp: x_read_data_def split: option.splits)
    show ?thesis using 1 assms(1,2) sys_Read_keeps(4) [OF rd] rd
      by (auto simp: x_read_data_def deaf_def event_set_def event_del_def set_xevent_def blank_xevent_def Let_def
          split: answer.splits if_splits)
  next
    case 2
    then show ?thesis using assms(1,2)
      by (auto simp: x_send_data_def deaf_def event_set_def set_xevent_def sys_Write_def Let_def
          split: if_splits prod.splits)
  qed
qed

lemma deaf_dispatch_all:
  "deaf s \<Longrightarrow> \<forall>e\<in>set es. fst e \<le> EVENT_SIZE \<Longrightarrow> x_dispatch_all es s = Next t \<Longrightarrow>
   deaf t \<and> listen_queue (xnet t) = listen_queue (xnet s)"
proof (induction es arbitrary: s)
  case (Cons e es)
  then obtain s' where s': "x_dispatch e s = Next s'" "x_dispatch_all es s' = Next t" by (auto split: outcome.splits)
  have "deaf s' \<and> listen_queue (xnet s') = listen_queue (xnet s)"
    using s'(1) Cons.prems(1,2) deaf_run by (auto simp: x_dispatch_def split: if_splits)
  then show ?case using Cons.IH [of s'] s'(2) Cons.prems by simp
qed simp

lemma deaf_step: "x_step s t \<Longrightarrow> deaf s \<Longrightarrow> deaf t \<and> (\<exists>q. listen_queue (xnet t) = listen_queue (xnet s) @ q)"
proof (induction rule: x_step.induct)
  case (x_env s w)
  from x_env(1) have "\<exists>q. listen_queue w = listen_queue (xnet s) @ q" by (cases rule: net_env.cases) auto
  with x_env(2) show ?case by (simp add: deaf_def)
next
  case (x_batch es s s')
  then have "\<forall>e\<in>set es. fst e \<le> EVENT_SIZE" by (intro x_reports_tree) (auto simp: deaf_def)
  then show ?case using deaf_dispatch_all x_batch(2,3) by (metis append_Nil2)
qed

lemma deaf_steps: "steps x_step s t \<Longrightarrow> deaf s \<Longrightarrow> deaf t \<and> (\<exists>q. listen_queue (xnet t) = listen_queue (xnet s) @ q)"
proof (induction rule: steps.induct)
  case (steps_step s t u)
  then show ?case using deaf_step by (metis append.assoc)
qed simp

text \<open>
  The simple reactor. In every run in which writes are not cut short and as long as the listening socket
  has its entry, the entry of every client is the one the kernel's set refers to and the echo behind it is
  exact: nothing owed while it waits for input, the contents of its buffer while it waits for output. Once
  all entries are taken, however, the next connection is put into the entry of the listening socket, and
  whatever happens afterwards no connection is ever accepted again: the queue of connections only grows.
\<close>

theorem simple_reactor_serves_until_full:
  assumes "reach x_init x_step s" "listening s"
  shows "(\<forall>i<EVENT_SIZE. x_fd (myevents s i) \<noteq> 0 \<longrightarrow>
      xtree s (x_fd (myevents s i)) = Some (the (x_events (myevents s i)), i)
      \<and> (case x_call (myevents s i) of
           Some Read_data \<Rightarrow> sent (xnet s) (x_fd (myevents s i)) = got (xnet s) (x_fd (myevents s i))
         | Some Send_data \<Rightarrow> got (xnet s) (x_fd (myevents s i)) =
             sent (xnet s) (x_fd (myevents s i)) @ take (nat (x_buflen (myevents s i))) (x_buf (myevents s i))
         | _ \<Rightarrow> False))
    \<and> ((\<forall>i<EVENT_SIZE. x_fd (myevents s i) \<noteq> 0) \<and> initAccept s = Next t \<and> steps x_step t u \<longrightarrow>
        \<not> listening u \<and> (\<exists>q. listen_queue (xnet u) = listen_queue (xnet t) @ q))"
proof (intro conjI allI impI)
  have ok: "x_ok s" using simple_reactor.invariant [OF assms(1)] assms(2) by (simp add: x_inv_def)
  { fix i assume i: "i < EVENT_SIZE" "x_fd (myevents s i) \<noteq> 0"
    then have fine: "x_fine i (myevents s i) s" using x_fine_at [OF ok] by simp
    then show "xtree s (x_fd (myevents s i)) = Some (the (x_events (myevents s i)), i)" by (simp add: x_fine_def)
    show "case x_call (myevents s i) of
           Some Read_data \<Rightarrow> sent (xnet s) (x_fd (myevents s i)) = got (xnet s) (x_fd (myevents s i))
         | Some Send_data \<Rightarrow> got (xnet s) (x_fd (myevents s i)) =
             sent (xnet s) (x_fd (myevents s i)) @ take (nat (x_buflen (myevents s i))) (x_buf (myevents s i))
         | _ \<Rightarrow> False"
      using fine i(1) by (auto simp: x_fine_def elim!: x_owes.elims) }
  assume full: "(\<forall>i<EVENT_SIZE. x_fd (myevents s i) \<noteq> 0) \<and> initAccept s = Next t \<and> steps x_step t u"
  then have "deaf t" using x_full_overrun [OF ok] by blast
  then have "deaf u \<and> (\<exists>q. listen_queue (xnet u) = listen_queue (xnet t) @ q)" using deaf_steps full by blast
  then show "\<not> listening u" "\<exists>q. listen_queue (xnet u) = listen_queue (xnet t) @ q"
    by (auto simp: deaf_def listening_def)
qed

text \<open>The witness: a table can be filled, one connection after the other.\<close>

lemma sys_Accept_next: "listen_queue w = [Conn] \<Longrightarrow>
  sys_Accept w = Some (Inr (lowest_free (open_fds w)), snd (admit (w\<lparr>listen_queue := []\<rparr>)))"
  by (simp add: sys_Accept_def split: prod.split) (metis admit_simps(1) fst_conv snd_conv net.select_convs(4) net.surjective net.update_convs(1))

lemma free_xevent_upt:
  assumes "\<forall>i<EVENT_SIZE. x_fd (myevents s i) \<noteq> 0 \<longleftrightarrow> i < n" "n < EVENT_SIZE"
  shows "free_xevent s [0..<EVENT_SIZE] = n"
proof -
  have "free_xevent s (is @ n # js) = n" if "\<forall>i\<in>set is. x_fd (myevents s i) \<noteq> 0" "x_fd (myevents s n) = 0" for "is" js
    using that by (induction "is") auto
  moreover have "[0..<EVENT_SIZE] = [0..<n] @ n # [Suc n..<EVENT_SIZE]"
    using assms(2) upt_add_eq_append [of 0 n "EVENT_SIZE - n"] upt_conv_Cons [of n EVENT_SIZE] by simp
  moreover have "\<forall>i\<in>set [0..<n]. x_fd (myevents s i) \<noteq> 0" "x_fd (myevents s n) = 0" using assms by auto
  ultimately show ?thesis by simp
qed

lemma x_fill:
  "n \<le> EVENT_SIZE \<Longrightarrow> \<exists>s. reach x_init x_step s \<and> listening s \<and> listen_queue (xnet s) = []
     \<and> (\<forall>i<EVENT_SIZE. x_fd (myevents s i) \<noteq> 0 \<longleftrightarrow> i < n)"
proof (induction n)
  case 0
  let ?w = "\<lparr>listen_queue = [], incoming = (\<lambda>_. []), outgoing = (\<lambda>_. []), open_fds = [3, 2, 1, 0],
    got = (\<lambda>_. []), sent = (\<lambda>_. [])\<rparr>"
  have "x_init (x_start 3 ?w)"
    unfolding x_init_def by (rule exI [of _ 3], rule exI [of _ ?w]) (auto simp: writes_in_def)
  then have "reach x_init x_step (x_start 3 ?w)" by (rule reach.reach_init)
  then show ?case
    by (intro exI [of _ "x_start 3 ?w"])
      (simp add: x_start_def event_add_def set_xevent_def blank_xevent_def listening_def)
next
  case (Suc n)
  then obtain s where s: "reach x_init x_step s" "listening s" "listen_queue (xnet s) = []"
    "\<forall>i<EVENT_SIZE. x_fd (myevents s i) \<noteq> 0 \<longleftrightarrow> i < n" by auto
  define s1 where "s1 = s\<lparr>xnet := (xnet s)\<lparr>listen_queue := listen_queue (xnet s) @ [Conn]\<rparr>\<rparr>"
  have r1: "reach x_init x_step s1" unfolding s1_def by (rule reach.reach_step [OF s(1)]) (rule x_env, rule env_connect)
  have l1: "listening s1" using s(2) by (simp add: s1_def listening_def)
  have ok: "x_ok s1" using simple_reactor.invariant [OF r1] l1 by (simp add: x_inv_def)
  have fine: "x_fine EVENT_SIZE (myevents s1 EVENT_SIZE) s1" using ok x_fine_at [OF ok] by (simp add: x_ok_def)
  have free: "free_xevent s1 [0..<EVENT_SIZE] = n" using s(4) Suc.prems by (intro free_xevent_upt) (auto simp: s1_def)
  let ?cfd = "lowest_free (open_fds (xnet s))"
  define t where "t = event_add ?cfd EPOLLIN Read_data n (s1\<lparr>xnet := snd (admit ((xnet s1)\<lparr>listen_queue := []\<rparr>))\<rparr>)"
  have q: "listen_queue (xnet s1) = [Conn]" by (simp add: s1_def s(3))
  have "initAccept s1 = Next t"
    using sys_Accept_next [OF q] free by (simp add: initAccept_def t_def) (simp add: s1_def)
  then have "x_dispatch_all [(EVENT_SIZE, EPOLLIN)] s1 = Next t"
    using fine l1 by (simp add: x_dispatch_def x_run_def x_fine_def listening_def)
  moreover have "x_reports [(EVENT_SIZE, EPOLLIN)] s1"
    using fine by (auto simp: x_reports_def x_fine_def intro!: exI [of _ "[x_fd (myevents s1 EVENT_SIZE)]"])
  ultimately have rt: "reach x_init x_step t" using reach.reach_step [OF r1] x_batch by blast
  have "0 \<in> set (open_fds (xnet s))" using ok by (simp add: x_ok_def s1_def)
  then have "?cfd \<noteq> 0" using lowest_free_fresh(1) by metis
  then have "x_fd (myevents t i) \<noteq> 0 \<longleftrightarrow> i = n \<or> x_fd (myevents s i) \<noteq> 0" for i
    by (simp add: t_def s1_def event_add_def set_xevent_def Let_def)
  then have "\<forall>i<EVENT_SIZE. x_fd (myevents t i) \<noteq> 0 \<longleftrightarrow> i < Suc n" using s(4) by (auto simp: less_Suc_eq)
  moreover have "listening t" "listen_queue (xnet t) = []" using l1 Suc.prems
    by (simp_all add: t_def s1_def listening_def event_add_def set_xevent_def Let_def)
  ultimately show ?case using rt by blast
qed

theorem simple_reactor_serves_until_full_witness:
  "\<exists>s t. reach x_init x_step s \<and> (\<forall>i<EVENT_SIZE. x_fd (myevents s i) \<noteq> 0) \<and> initAccept s = Next t \<and> \<not> listening t"
proof -
  obtain s where s: "reach x_init x_step s" "listening s" "listen_queue (xnet s) = []"
    "\<forall>i<EVENT_SIZE. x_fd (myevents s i) \<noteq> 0" using x_fill [of EVENT_SIZE] by auto
  define s1 where "s1 = s\<lparr>xnet := (xnet s)\<lparr>listen_queue := listen_queue (xnet s) @ [Conn]\<rparr>\<rparr>"
  have r: "reach x_init x_step s1"
    unfolding s1_def by (rule reach.reach_step [OF s(1)]) (rule x_env, rule env_connect)
  have q: "listen_queue (xnet s1) = [Conn]" using s(3) by (simp add: s1_def)
  obtain t where t: "initAccept s1 = Next t" unfolding initAccept_def sys_Accept_next [OF q] by simp
  have l: "listening s1" and full: "\<forall>i<EVENT_SIZE. x_fd (myevents s1 i) \<noteq> 0"
    using s by (simp_all add: listening_def s1_def)
  have "(\<forall>i<EVENT_SIZE. x_fd (myevents s1 i) \<noteq> 0) \<and> initAccept s1 = Next t \<and> steps x_step t t"
    by (intro conjI full t steps_refl)
  then have "\<not> listening t" by (rule conjunct1 [OF mp [OF conjunct2 [OF simple_reactor_serves_until_full [OF r l]]]])
  then show ?thesis by (intro exI [of _ s1] exI [of _ t] conjI r full t)
qed

end
