(* ===== verification/Document_Server.thy ===== *)
theory Document_Server
  imports Request_Handler
begin

text \<open>
  The two HTTP servers on libevent: \<^verbatim>\<open>src/libevent/http-server.c\<close>, which serves the files and directories
  below a document root, and \<^verbatim>\<open>src/libevent/HTTP_SERVER/main.cpp\<close>, which reports the request. The library
  parses the requests and sends the replies, so what a callback does is its reply and what it prints. Parsing
  and decoding of URIs are parameters, and so are the file system and the C library's text for a null pointer.
\<close>

section \<open>Content types\<close>

definition content_type_table :: "(string \<times> string) list" where
  "content_type_table =
     [(''txt'', ''text/plain''), (''c'', ''text/plain''), (''h'', ''text/plain''), (''html'', ''text/html''),
      (''htm'', ''text/htm''), (''css'', ''text/css''), (''gif'', ''image/gif''), (''jpg'', ''image/jpeg''),
      (''jpeg'', ''image/jpeg''), (''png'', ''image/png''), (''pdf'', ''application/pdf''),
      (''ps'', ''application/postscript'')]"

text \<open>\<open>evutil_ascii_strcasecmp\<close> is zero.\<close>

definition same_nocase :: "string \<Rightarrow> string \<Rightarrow> bool" where
  "same_nocase s t \<longleftrightarrow> map tolower s = map tolower t"

fun find_type :: "(string \<times> string) list \<Rightarrow> string \<Rightarrow> string" where
  "find_type [] e = ''application/misc''"
| "find_type ((x, t) # ents) e = (if same_nocase x e then t else find_type ents e)"

definition guess_content_type :: "string \<Rightarrow> string" where
  "guess_content_type path =
     (case find_last_of CHR ''.'' path of
        None \<Rightarrow> ''application/misc''
      | Some i \<Rightarrow>
          if CHR ''/'' \<in> set (drop i path) then ''application/misc''
          else find_type content_type_table (drop (i + 1) path))"

section \<open>Requests and replies\<close>

datatype command = GET | POST | HEAD | PUT | DELETE | OPTIONS | TRACE | CONNECT | PATCH | Other_command int

record ev_request =
  ev_command :: command
  ev_uri :: string
  ev_in_headers :: "(string \<times> string) list"
  ev_input :: string

datatype ev_reply =
    Send_error int "string option"
  | Send_reply int string "(string \<times> string) list" "string option"

fun command_name :: "command \<Rightarrow> string" where
  "command_name GET = ''GET''"
| "command_name POST = ''POST''"
| "command_name HEAD = ''HEAD''"
| "command_name PUT = ''PUT''"
| "command_name DELETE = ''DELETE''"
| "command_name OPTIONS = ''OPTIONS''"
| "command_name TRACE = ''TRACE''"
| "command_name CONNECT = ''CONNECT''"
| "command_name PATCH = ''PATCH''"
| "command_name (Other_command _) = ''unknown''"

text \<open>The input buffer is drained in pieces of 128 bytes.\<close>

function drain :: "string \<Rightarrow> string" where
  "drain buf = (if buf = [] then [] else take 128 buf @ drain (drop 128 buf))"
  by pat_completeness auto
termination
  by (relation "measure length") auto

declare drain.simps [simp del]

definition dump_request_cb :: "ev_request \<Rightarrow> string \<times> ev_reply" where
  "dump_request_cb req =
     (''Received a '' @ command_name (ev_command req) @ '' request for '' @ ev_uri req @ [LF] @ ''Headers:'' @ [LF]
      @ concat (map (\<lambda>(k, v). ''  '' @ k @ '': '' @ v @ [LF]) (ev_in_headers req))
      @ ''Input data: <<<'' @ [LF] @ drain (ev_input req) @ ''>>>'' @ [LF],
      Send_reply 200 ''OK'' [] None)"

lemma drain_all: "drain buf = buf"
proof (induction buf rule: drain.induct)
  case (1 buf)
  then show ?case by (cases "buf = []") (simp_all add: drain.simps [of buf] drain.simps [of "[]"])
qed

section \<open>Documents\<close>

text \<open>
  The file system: what \<open>stat\<close> says (\<open>Some True\<close> for a directory), what \<open>opendir\<close> and \<open>readdir\<close> list, what
  \<open>open\<close> and \<open>fstat\<close> find. The library: the path of a URI (\<open>None\<close> if the URI is bad, \<open>Some None\<close> if it has no
  path), and its decoding, which fails when there is no memory.
\<close>

record doc_files =
  df_stat :: "string \<Rightarrow> bool option"
  df_list :: "string \<Rightarrow> string list option"
  df_open :: "string \<Rightarrow> string option"

record uri_library =
  uri_path :: "string \<Rightarrow> string option option"
  uri_decode :: "string \<Rightarrow> string option"

definition dir_entry :: "string \<Rightarrow> string" where
  "dir_entry name = ''    <li><a href='' @ [CHR 0x22] @ name @ [CHR 0x22] @ ''>'' @ name @ ''</a>'' @ [LF]"

definition dir_page :: "string \<Rightarrow> string \<Rightarrow> string list \<Rightarrow> string" where
  "dir_page path decoded_path names =
     (let trailing_slash = (if path = [] \<or> last path \<noteq> CHR ''/'' then ''/'' else '''')
      in ''<!DOCTYPE html>'' @ [LF] @ ''<html>'' @ [LF] @ '' <head>'' @ [LF]
        @ ''  <meta charset='' @ [CHR 0x27] @ ''utf-8'' @ [CHR 0x27] @ ''>'' @ [LF]
        @ ''  <title>'' @ decoded_path @ ''</title>'' @ [LF]
        @ ''  <base href='' @ [CHR 0x27] @ path @ trailing_slash @ [CHR 0x27] @ ''>'' @ [LF]
        @ '' </head>'' @ [LF] @ '' <body>'' @ [LF] @ ''  <h1>'' @ decoded_path @ ''</h1>'' @ [LF] @ ''  <ul>'' @ [LF]
        @ concat (map dir_entry names) @ ''</ul></body></html>'' @ [LF])"

text \<open>\<open>evutil_snprintf\<close> writes at most \<open>len - 1\<close> characters.\<close>

definition snprintf :: "nat \<Rightarrow> string \<Rightarrow> string" where
  "snprintf len s = take (len - 1) s"

definition not_found_reply :: ev_reply where
  "not_found_reply = Send_error 404 (Some ''Document was not found'')"

definition send_document :: "doc_files \<Rightarrow> string \<Rightarrow> string \<Rightarrow> string \<Rightarrow> ev_reply" where
  "send_document fs whole_path path decoded_path =
     (case df_stat fs whole_path of
        None \<Rightarrow> not_found_reply
      | Some True \<Rightarrow>
          (case df_list fs whole_path of
             None \<Rightarrow> not_found_reply
           | Some names \<Rightarrow>
               Send_reply 200 ''OK'' [(''Content-Type'', ''text/html'')] (Some (dir_page path decoded_path names)))
      | Some False \<Rightarrow>
          (case df_open fs whole_path of
             None \<Rightarrow> not_found_reply
           | Some content \<Rightarrow>
               Send_reply 200 ''OK'' [(''Content-Type'', guess_content_type decoded_path)] (Some content)))"

text \<open>The decoded path is a C string: it ends at its first null byte.\<close>

definition send_document_cb ::
  "uri_library \<Rightarrow> doc_files \<Rightarrow> string \<Rightarrow> ev_request \<Rightarrow> string \<times> ev_reply" where
  "send_document_cb lib fs docroot req =
     (if ev_command req \<noteq> GET then dump_request_cb req
      else
        (let got = ''Got a GET request for <'' @ ev_uri req @ ''>'' @ [LF] in
         case uri_path lib (ev_uri req) of
           None \<Rightarrow> (got @ ''It'' @ [CHR 0x27] @ ''s not a good URI. Sending BADREQUEST'' @ [LF], Send_error 400 None)
         | Some p \<Rightarrow>
             (let path = (case p of None \<Rightarrow> ''/'' | Some q \<Rightarrow> q) in
              case uri_decode lib path of
                None \<Rightarrow> (got, not_found_reply)
              | Some d \<Rightarrow>
                  (let decoded_path = c_str d;
                       len = length decoded_path + length docroot + 2
                   in if contains_sub ''..'' decoded_path then (got, not_found_reply)
                      else (got, send_document fs (snprintf len (docroot @ ''/'' @ decoded_path)) path decoded_path)))))"

text \<open>The buffer has room for the whole path.\<close>

lemma whole_path_fits:
  "snprintf (length decoded_path + length docroot + 2) (docroot @ ''/'' @ decoded_path) = docroot @ ''/'' @ decoded_path"
  by (simp add: snprintf_def)

lemma find_last_of_None: "find_last_of c s = None \<longleftrightarrow> c \<notin> set s"
  by (induction s) (auto split: option.splits)

lemma find_last_of_Some: "find_last_of c s = Some i \<Longrightarrow> i < length s \<and> s ! i = c \<and> c \<notin> set (drop (Suc i) s)"
  by (induction s arbitrary: i) (auto simp: find_last_of_None split: option.splits if_splits)

lemma find_last_of_after:
  assumes "find_last_of c s = Some i" "j < length s" "s ! j = c"
  shows "j \<le> i"
proof (rule ccontr)
  assume "\<not> j \<le> i"
  then have "s ! j \<in> set (drop (Suc i) s)"
    using assms(2) nth_mem [of "j - Suc i" "drop (Suc i) s"] by simp
  then show False using find_last_of_Some [OF assms(1)] assms(3) by simp
qed

text \<open>
  The type a file is sent with is that of the extension the server on Asio finds in a path, up to the case
  of its letters.
\<close>

theorem guess_content_type_extension:
  assumes "extension_of p \<noteq> []"
  shows "guess_content_type p = find_type content_type_table (extension_of p)"
proof -
  obtain i where i: "find_last_of CHR ''.'' p = Some i"
    using assms by (cases "find_last_of CHR ''.'' p") (auto simp: extension_of_def)
  obtain j where j: "find_last_of CHR ''/'' p = Some j"
    using assms i by (cases "find_last_of CHR ''/'' p") (auto simp: extension_of_def)
  have "j < i" "extension_of p = drop (i + 1) p"
    using assms i j by (simp_all add: extension_of_def split: if_splits)
  moreover have "CHR ''/'' \<notin> set (drop i p)"
  proof
    assume "CHR ''/'' \<in> set (drop i p)"
    then obtain k where "k < length (drop i p)" "drop i p ! k = CHR ''/''" by (auto simp: in_set_conv_nth)
    then have "i + k \<le> j" using find_last_of_after [OF j, of "i + k"] by simp
    then show False using \<open>j < i\<close> by simp
  qed
  ultimately show ?thesis using i by (simp add: guess_content_type_def)
qed

lemma guess_content_type_plain: "CHR ''.'' \<notin> set p \<Longrightarrow> guess_content_type p = ''application/misc''"
  using find_last_of_None [of "CHR ''.''" p] by (simp add: guess_content_type_def)

section \<open>No request leaves the document root\<close>

definition below :: "string \<Rightarrow> bool" where
  "below q \<longleftrightarrow> \<not> has_dotdot q \<and> CHR 0x00 \<notin> set q"

definition agree_below :: "string \<Rightarrow> doc_files \<Rightarrow> doc_files \<Rightarrow> bool" where
  "agree_below docroot fs fs' \<longleftrightarrow>
     (\<forall>q. below q \<longrightarrow> df_stat fs (docroot @ ''/'' @ q) = df_stat fs' (docroot @ ''/'' @ q)
        \<and> df_list fs (docroot @ ''/'' @ q) = df_list fs' (docroot @ ''/'' @ q)
        \<and> df_open fs (docroot @ ''/'' @ q) = df_open fs' (docroot @ ''/'' @ q))"

text \<open>
  Whatever the library makes of a URI, the callback only looks at paths below the document root that have no
  parent component: two file systems that agree there cannot be told apart by any request.
\<close>

theorem send_document_confined:
  assumes "agree_below docroot fs fs'"
  shows "send_document_cb lib fs docroot req = send_document_cb lib fs' docroot req"
proof -
  have "below (c_str d)" if "\<not> contains_sub ''..'' (c_str d)" for d
    using that by (auto simp: below_def contains_dotdot c_str_def dest: set_takeWhileD)
  then have "send_document fs (docroot @ ''/'' @ c_str d) path (c_str d) =
      send_document fs' (docroot @ ''/'' @ c_str d) path (c_str d)" if "\<not> contains_sub ''..'' (c_str d)" for d path
  proof -
    have "df_stat fs (docroot @ ''/'' @ c_str d) = df_stat fs' (docroot @ ''/'' @ c_str d)"
      "df_list fs (docroot @ ''/'' @ c_str d) = df_list fs' (docroot @ ''/'' @ c_str d)"
      "df_open fs (docroot @ ''/'' @ c_str d) = df_open fs' (docroot @ ''/'' @ c_str d)"
      using that assms \<open>\<And>d. \<not> contains_sub ''..'' (c_str d) \<Longrightarrow> below (c_str d)\<close> unfolding agree_below_def by blast+
    then show ?thesis unfolding send_document_def by (simp only:)
  qed
  then show ?thesis by (simp add: send_document_cb_def snprintf_def Let_def split: option.split)
qed

section \<open>The reporting server\<close>

text \<open>\<open>None\<close> is a write behind the end of \<open>tmp\<close> or \<open>output\<close>.\<close>

definition sprintf_tmp :: "string \<Rightarrow> string option" where
  "sprintf_tmp s = (if length s < 1024 then Some s else None)"

definition strcat_output :: "string \<Rightarrow> string \<Rightarrow> string option" where
  "strcat_output out s = (if length out + length s < 2048 then Some (out @ s) else None)"

fun report_lines :: "string \<Rightarrow> string list \<Rightarrow> string option" where
  "report_lines out [] = Some out"
| "report_lines out (l # ls) =
     (case sprintf_tmp l of
        None \<Rightarrow> None
      | Some tmp \<Rightarrow> (case strcat_output out tmp of None \<Rightarrow> None | Some out' \<Rightarrow> report_lines out' ls))"

definition httpd_handler ::
  "(string \<Rightarrow> string) \<Rightarrow> (string \<Rightarrow> string \<Rightarrow> string option) \<Rightarrow> string \<Rightarrow> string \<Rightarrow> ev_reply option" where
  "httpd_handler decode_uri query null_text uri =
     (let decoded_uri = decode_uri uri;
          param = (\<lambda>k. case query decoded_uri k of None \<Rightarrow> null_text | Some v \<Rightarrow> v)
      in map_option (\<lambda>output.
           Send_reply 200 ''OK''
             [(''Server'', ''myhttpd v 0.0.1''), (''Content-Type'', ''text/plain; charset=UTF-8''), (''Connection'', ''close'')]
             (Some (''It works!'' @ [LF] @ output @ [LF])))
           (report_lines []
             [''uri='' @ uri @ [LF], ''decoded_uri='' @ decoded_uri @ [LF],
              ''q='' @ param ''q'' @ [LF], ''s='' @ param ''s'' @ [LF]]))"

lemma report_lines_fit:
  "report_lines out ls = (if (\<forall>l\<in>set ls. length l < 1024) \<and> (ls \<noteq> [] \<longrightarrow> length out + length (concat ls) < 2048)
     then Some (out @ concat ls) else None)"
  by (induction ls arbitrary: out) (auto simp: sprintf_tmp_def strcat_output_def)

text \<open>
  URIs of up to 505 bytes are safe, if decoding does not make them longer; one of 1019 bytes or more
  overruns the buffer of a line whatever the library does.
\<close>

theorem httpd_handler_safe:
  assumes "length uri \<le> 505" "length null_text \<le> 505" "length (decode_uri uri) \<le> length uri"
    and "\<And>k v. query (decode_uri uri) k = Some v \<Longrightarrow> length v \<le> length uri"
  shows "\<exists>output. httpd_handler decode_uri query null_text uri =
    Some (Send_reply 200 ''OK''
      [(''Server'', ''myhttpd v 0.0.1''), (''Content-Type'', ''text/plain; charset=UTF-8''), (''Connection'', ''close'')]
      (Some output))"
proof -
  have "length (case query (decode_uri uri) k of None \<Rightarrow> null_text | Some v \<Rightarrow> v) \<le> 505" for k
    using assms(1,2) assms(4) [of k] by (fastforce split: option.split)
  from this [of "''q''"] this [of "''s''"] assms(1,3) show ?thesis
    by (simp add: httpd_handler_def Let_def report_lines_fit)
qed

theorem httpd_handler_overflow:
  "1019 \<le> length uri \<Longrightarrow> httpd_handler decode_uri query null_text uri = None"
  by (simp add: httpd_handler_def Let_def report_lines_fit)

end
