(* ===== verification/Daytime.thy ===== *)
theory Daytime
  imports Transition "HOL-Library.Multiset"
begin

text \<open>
  The asynchronous daytime servers: \<^verbatim>\<open>src/boost/daytime7*\<close> (TCP and UDP; \<^verbatim>\<open>daytime3*\<close> and \<^verbatim>\<open>daytime6*\<close> are
  its two halves) and \<^verbatim>\<open>src/boost/2.*\<close>, whose buffers are reference counted. A buffer handed to an asynchronous
  write must live until the write has completed; what keeps it alive is the shared pointers bound into the
  completion handler. The model has the heap of shared objects with their counts, and every pointer that is
  copied or destroyed changes a count; an object whose count falls to zero is gone.
\<close>

section \<open>Shared objects\<close>

text \<open>An object is its count and the text it holds (a connection's \<open>message_\<close>, a string, a vector of characters).\<close>

record shared_object =
  use_count :: nat
  obj_text :: string

text \<open>
  The operations under way: an accept that holds the connection it is for, a write from a connection, a
  receive, a send of a string to an endpoint, and, in the program with shared buffers, an accept and the write
  of a session from a buffer.
\<close>

datatype async_op = Accepting nat | Writing nat | Receiving | Sending nat nat | Listening | Sharing nat nat

fun captured :: "async_op \<Rightarrow> nat list" where
  "captured (Accepting c) = [c]"
| "captured (Writing c) = [c]"
| "captured Receiving = []"
| "captured (Sending m to) = [m]"
| "captured Listening = []"
| "captured (Sharing s b) = [s, b]"

record daytime =
  objects :: "nat \<Rightarrow> shared_object option"
  dt_ops :: "async_op list"
  remote_endpoint :: nat
  delivered :: "string list"
  clock_strings :: "string list"
  dangling :: bool

definition alloc :: "nat \<Rightarrow> string \<Rightarrow> daytime \<Rightarrow> daytime" where
  "alloc a t s = s\<lparr>objects := (objects s)(a \<mapsto> \<lparr>use_count = 1, obj_text = t\<rparr>)\<rparr>"

text \<open>Using an object that is gone is recorded in \<open>dangling\<close>.\<close>

definition acquire :: "nat \<Rightarrow> daytime \<Rightarrow> daytime" where
  "acquire a s =
     (case objects s a of
        None \<Rightarrow> s\<lparr>dangling := True\<rparr>
      | Some ob \<Rightarrow> s\<lparr>objects := (objects s)(a \<mapsto> ob\<lparr>use_count := use_count ob + 1\<rparr>)\<rparr>)"

definition release :: "nat \<Rightarrow> daytime \<Rightarrow> daytime" where
  "release a s =
     (case objects s a of
        None \<Rightarrow> s\<lparr>dangling := True\<rparr>
      | Some ob \<Rightarrow>
          if use_count ob \<le> 1 then s\<lparr>objects := (objects s)(a := None)\<rparr>
          else s\<lparr>objects := (objects s)(a \<mapsto> ob\<lparr>use_count := use_count ob - 1\<rparr>)\<rparr>)"

definition set_text :: "nat \<Rightarrow> string \<Rightarrow> daytime \<Rightarrow> daytime" where
  "set_text a t s =
     (case objects s a of
        None \<Rightarrow> s\<lparr>dangling := True\<rparr>
      | Some ob \<Rightarrow> s\<lparr>objects := (objects s)(a \<mapsto> ob\<lparr>obj_text := t\<rparr>)\<rparr>)"

text \<open>Starting an operation copies the pointers bound into its handler.\<close>

definition start_op :: "async_op \<Rightarrow> daytime \<Rightarrow> daytime" where
  "start_op p s = fold acquire (captured p) (s\<lparr>dt_ops := dt_ops s @ [p]\<rparr>)"

text \<open>\<open>make_daytime_string\<close>: what the clock says is an argument.\<close>

definition make_daytime_string :: "string \<Rightarrow> daytime \<Rightarrow> string \<times> daytime" where
  "make_daytime_string now s = (now, s\<lparr>clock_strings := clock_strings s @ [now]\<rparr>)"

section \<open>The TCP server\<close>

text \<open>\<open>start_accept\<close>: a new connection at a free address \<open>a\<close>; the local pointer goes at the end.\<close>

definition start_accept :: "nat \<Rightarrow> daytime \<Rightarrow> daytime" where
  "start_accept a s = release a (start_op (Accepting a) (alloc a [] s))"

definition tcp_start :: "string \<Rightarrow> nat \<Rightarrow> daytime \<Rightarrow> daytime" where
  "tcp_start now c s = (case make_daytime_string now s of (t, s) \<Rightarrow> start_op (Writing c) (set_text c t s))"

definition tcp_handle_accept :: "bool \<Rightarrow> string \<Rightarrow> nat \<Rightarrow> nat \<Rightarrow> daytime \<Rightarrow> daytime" where
  "tcp_handle_accept err now a c s = start_accept a (if \<not> err then tcp_start now c s else s)"

section \<open>The UDP server\<close>

definition start_receive :: "daytime \<Rightarrow> daytime" where
  "start_receive s = start_op Receiving s"

definition handle_receive :: "bool \<Rightarrow> string \<Rightarrow> nat \<Rightarrow> daytime \<Rightarrow> daytime" where
  "handle_receive err now a s =
     (if \<not> err
      then (case make_daytime_string now s of
              (t, s) \<Rightarrow> release a (start_receive (start_op (Sending a (remote_endpoint s)) (alloc a t s))))
      else s)"

section \<open>The server with shared buffers\<close>

text \<open>\<open>do_write\<close>: the buffer, \<open>self\<close>, the operation with copies of both; then both local pointers go.\<close>

definition shared_do_write :: "string \<Rightarrow> nat \<Rightarrow> nat \<Rightarrow> daytime \<Rightarrow> daytime" where
  "shared_do_write now b c s =
     (case make_daytime_string now s of
        (t, s) \<Rightarrow> release b (release c (start_op (Sharing c b) (acquire c (alloc b t s)))))"

definition shared_handle_accept :: "bool \<Rightarrow> string \<Rightarrow> nat \<Rightarrow> nat \<Rightarrow> daytime \<Rightarrow> daytime" where
  "shared_handle_accept err now b c s =
     start_op Listening (if \<not> err then release c (shared_do_write now b c (alloc c [] s)) else s)"

section \<open>Completions\<close>

text \<open>
  An operation completes: its handler runs and is destroyed, with the pointers bound into it. A write or send
  that succeeds has read its buffer.
\<close>

definition finish_op :: "async_op \<Rightarrow> (daytime \<Rightarrow> daytime) \<Rightarrow> daytime \<Rightarrow> daytime" where
  "finish_op p handler s = fold release (captured p) (handler (s\<lparr>dt_ops := remove1 p (dt_ops s)\<rparr>))"

definition transfer :: "bool \<Rightarrow> nat \<Rightarrow> daytime \<Rightarrow> daytime" where
  "transfer err a s =
     (if err then s
      else case objects s a of
             None \<Rightarrow> s\<lparr>dangling := True\<rparr>
           | Some ob \<Rightarrow> s\<lparr>delivered := delivered s @ [obj_text ob]\<rparr>)"

definition free_at :: "nat \<Rightarrow> daytime \<Rightarrow> bool" where
  "free_at a s \<longleftrightarrow> objects s a = None"

inductive dt_step :: "daytime \<Rightarrow> daytime \<Rightarrow> bool" where
  dt_accepted: "Accepting c \<in> set (dt_ops s) \<Longrightarrow> free_at a s \<Longrightarrow>
    dt_step s (finish_op (Accepting c) (tcp_handle_accept err now a c) s)"
| dt_written: "Writing c \<in> set (dt_ops s) \<Longrightarrow> dt_step s (finish_op (Writing c) (transfer err c) s)"
| dt_received: "Receiving \<in> set (dt_ops s) \<Longrightarrow> free_at a s \<Longrightarrow>
    dt_step s (finish_op Receiving (\<lambda>s. handle_receive err now a (s\<lparr>remote_endpoint := from\<rparr>)) s)"
| dt_sent: "Sending m to \<in> set (dt_ops s) \<Longrightarrow> dt_step s (finish_op (Sending m to) (transfer err m) s)"

inductive shared_step :: "daytime \<Rightarrow> daytime \<Rightarrow> bool" where
  sh_accepted: "Listening \<in> set (dt_ops s) \<Longrightarrow> free_at b s \<Longrightarrow> free_at c s \<Longrightarrow> b \<noteq> c \<Longrightarrow>
    shared_step s (finish_op Listening (shared_handle_accept err now b c) s)"
| sh_written: "Sharing c b \<in> set (dt_ops s) \<Longrightarrow> shared_step s (finish_op (Sharing c b) (transfer err b) s)"

definition no_objects :: daytime where
  "no_objects = \<lparr>objects = Map.empty, dt_ops = [], remote_endpoint = 0, delivered = [], clock_strings = [], dangling = False\<rparr>"

definition dt_init :: "daytime \<Rightarrow> bool" where
  "dt_init s \<longleftrightarrow> (\<exists>a. s = start_receive (start_accept a no_objects))"

definition shared_init :: "daytime \<Rightarrow> bool" where
  "shared_init s \<longleftrightarrow> s = start_op Listening no_objects"

section \<open>Counting pointers\<close>

text \<open>
  The pointers: those bound into the operations under way and the local ones in \<open>L\<close>. The books balance when
  every object's count is the number of pointers to it, and there are none to anything else.
\<close>

definition pointers :: "nat list \<Rightarrow> daytime \<Rightarrow> nat multiset" where
  "pointers L s = mset (concat (map captured (dt_ops s))) + mset L"

definition uses :: "daytime \<Rightarrow> nat \<Rightarrow> nat" where
  "uses s a = (case objects s a of None \<Rightarrow> 0 | Some ob \<Rightarrow> use_count ob)"

definition balanced :: "nat list \<Rightarrow> daytime \<Rightarrow> bool" where
  "balanced L s \<longleftrightarrow> \<not> dangling s \<and> (\<forall>a. count (pointers L s) a = uses s a)
     \<and> (\<forall>a ob. objects s a = Some ob \<longrightarrow> 0 < use_count ob)"

lemma pointers_Cons: "pointers (a # L) s = add_mset a (pointers L s)"
  by (simp add: pointers_def)

lemma pointers_same [simp]:
  "pointers L (alloc a t s) = pointers L s" "pointers L (acquire a s) = pointers L s"
  "pointers L (release a s) = pointers L s" "pointers L (set_text a t s) = pointers L s"
  "pointers L (s\<lparr>objects := m\<rparr>) = pointers L s" "pointers L (s\<lparr>delivered := d\<rparr>) = pointers L s"
  "pointers L (s\<lparr>remote_endpoint := r\<rparr>) = pointers L s" "pointers L (s\<lparr>clock_strings := ts\<rparr>) = pointers L s"
  by (auto simp: pointers_def alloc_def acquire_def release_def set_text_def split: option.split)

lemma balanced_live: "balanced L s \<Longrightarrow> a \<in># pointers L s \<Longrightarrow> \<exists>ob. objects s a = Some ob"
  by (cases "objects s a") (auto simp: balanced_def uses_def count_greater_zero_iff [symmetric] simp del: count_greater_zero_iff)

lemma uses_change:
  "uses (alloc a t s) = (uses s)(a := 1)"
  "objects s a = Some ob \<Longrightarrow> uses (acquire a s) = (uses s)(a := uses s a + 1)"
  "objects s a = Some ob \<Longrightarrow> 0 < use_count ob \<Longrightarrow> uses (release a s) = (uses s)(a := uses s a - 1)"
  "uses (set_text a t s) = uses s"
  by (auto simp: uses_def alloc_def acquire_def release_def set_text_def fun_eq_iff split: option.split)

lemma balanced_alloc: "balanced L s \<Longrightarrow> free_at a s \<Longrightarrow> balanced (a # L) (alloc a t s)"
proof -
  assume b: "balanced L s" and f: "free_at a s"
  then have "count (pointers L s) a = 0" by (simp add: balanced_def free_at_def uses_def)
  with b show ?thesis
    unfolding balanced_def uses_change(1) pointers_Cons by (auto simp: alloc_def)
qed

lemma balanced_acquire: "balanced L s \<Longrightarrow> a \<in># pointers L s \<Longrightarrow> balanced (a # L) (acquire a s)"
proof -
  assume b: "balanced L s" and "a \<in># pointers L s"
  then obtain ob where ob: "objects s a = Some ob" using balanced_live by blast
  with b show ?thesis
    unfolding balanced_def uses_change(2) [OF ob] pointers_Cons by (auto simp: acquire_def)
qed

lemma balanced_release: "balanced (a # L) s \<Longrightarrow> balanced L (release a s)"
proof -
  assume b: "balanced (a # L) s"
  then obtain ob where ob: "objects s a = Some ob" using balanced_live by (metis pointers_Cons union_single_eq_member)
  then have pos: "0 < use_count ob" using b by (auto simp: balanced_def)
  have "count (pointers L s) x = ((uses s)(a := uses s a - 1)) x" for x
    using b by (cases "x = a") (auto simp: balanced_def pointers_Cons dest!: spec [of _ x])
  with b ob pos show ?thesis
    unfolding balanced_def uses_change(3) [OF ob pos] by (auto simp: release_def)
qed

text \<open>Binding pointers into an operation moves them from the local ones; its end moves them back.\<close>

lemma balanced_fold_acquire:
  "balanced L s \<Longrightarrow> set as \<subseteq> set_mset (pointers L s) \<Longrightarrow> balanced (rev as @ L) (fold acquire as s)"
proof (induction as arbitrary: L s)
  case (Cons a as)
  then have "balanced (a # L) (acquire a s)" by (intro balanced_acquire) auto
  moreover have "set as \<subseteq> set_mset (pointers (a # L) (acquire a s))" using Cons.prems(2) by (auto simp: pointers_Cons)
  ultimately show ?case using Cons.IH [of "a # L" "acquire a s"] by simp
qed simp

lemma fold_acquire_ops: "fold acquire as (s\<lparr>dt_ops := ps\<rparr>) = (fold acquire as s)\<lparr>dt_ops := ps\<rparr>"
proof (induction as arbitrary: s)
  case (Cons a as)
  have "acquire a (s\<lparr>dt_ops := ps\<rparr>) = (acquire a s)\<lparr>dt_ops := ps\<rparr>" by (simp add: acquire_def split: option.split)
  with Cons show ?case by simp
qed simp

lemma fold_acquire_same_ops: "dt_ops (fold acquire as s) = dt_ops s"
proof (induction as arbitrary: s)
  case (Cons a as)
  have "dt_ops (acquire a s) = dt_ops s" by (simp add: acquire_def split: option.split)
  with Cons show ?case by simp
qed simp

lemma balanced_start_op:
  assumes "balanced L s" "set (captured p) \<subseteq> set_mset (pointers L s)"
  shows "balanced L (start_op p s)"
proof -
  let ?t = "fold acquire (captured p) s"
  have b: "balanced (rev (captured p) @ L) ?t" using balanced_fold_acquire [OF assms] .
  have "pointers L (?t\<lparr>dt_ops := dt_ops s @ [p]\<rparr>) = pointers (rev (captured p) @ L) ?t"
    by (simp add: pointers_def fold_acquire_same_ops)
  then show ?thesis using b by (simp add: start_op_def fold_acquire_ops balanced_def uses_def)
qed

section \<open>What is delivered\<close>

text \<open>The object an operation sends from.\<close>

fun source :: "async_op \<Rightarrow> nat option" where
  "source (Writing c) = Some c"
| "source (Sending m to) = Some m"
| "source (Sharing s b) = Some b"
| "source _ = None"

definition honest :: "daytime \<Rightarrow> bool" where
  "honest s \<longleftrightarrow> set (delivered s) \<subseteq> set (clock_strings s)
     \<and> (\<forall>p\<in>set (dt_ops s). \<forall>a ob. source p = Some a \<and> objects s a = Some ob \<longrightarrow> obj_text ob \<in> set (clock_strings s))"

lemma source_captured: "source p = Some a \<Longrightarrow> a \<in> set (captured p)"
  by (cases p) auto

definition sound :: "nat list \<Rightarrow> daytime \<Rightarrow> bool" where
  "sound L s \<longleftrightarrow> balanced L s \<and> honest s"

lemma sound_live: "sound L s \<Longrightarrow> a \<in># pointers L s \<Longrightarrow> \<exists>ob. objects s a = Some ob"
  unfolding sound_def using balanced_live by blast

lemma sound_alloc: "sound L s \<Longrightarrow> free_at a s \<Longrightarrow> sound (a # L) (alloc a t s)"
proof -
  assume s: "sound L s" and f: "free_at a s"
  have b: "balanced L s" using s by (simp add: sound_def)
  have "source p \<noteq> Some a" if "p \<in> set (dt_ops s)" for p
  proof
    assume "source p = Some a"
    then have "a \<in># pointers L s" using that by (auto simp: pointers_def dest!: source_captured)
    then obtain ob where "objects s a = Some ob" using balanced_live [OF b] by blast
    then show False using f by (simp add: free_at_def)
  qed
  then have "honest (alloc a t s)" using s by (auto simp: sound_def honest_def alloc_def)
  then show ?thesis using balanced_alloc [OF b f] by (simp add: sound_def)
qed

lemma honest_acquire: "honest s \<Longrightarrow> honest (acquire a s)"
  by (fastforce simp: honest_def acquire_def split: option.split)

lemma honest_release: "honest s \<Longrightarrow> honest (release a s)"
  by (fastforce simp: honest_def release_def split: option.split)

lemma sound_acquire: "sound L s \<Longrightarrow> a \<in># pointers L s \<Longrightarrow> sound (a # L) (acquire a s)"
  by (simp add: sound_def balanced_acquire honest_acquire)

lemma sound_release: "sound (a # L) s \<Longrightarrow> sound L (release a s)"
  by (simp add: sound_def balanced_release honest_release)

lemma fold_acquire_text:
  "objects (fold acquire as s) a = Some ob \<Longrightarrow> \<exists>ob'. objects s a = Some ob' \<and> obj_text ob' = obj_text ob"
proof (induction as arbitrary: s)
  case (Cons b as)
  then obtain ob' where "objects (acquire b s) a = Some ob'" "obj_text ob' = obj_text ob" by auto
  then show ?case by (auto simp: acquire_def split: option.splits if_splits)
qed simp

lemma fold_acquire_others: "clock_strings (fold acquire as s) = clock_strings s" "delivered (fold acquire as s) = delivered s"
proof -
  have "clock_strings (acquire a s) = clock_strings s \<and> delivered (acquire a s) = delivered s" for a s
    by (simp add: acquire_def split: option.split)
  then show "clock_strings (fold acquire as s) = clock_strings s" "delivered (fold acquire as s) = delivered s"
    by (induction as arbitrary: s) auto
qed

lemma sound_start_op:
  assumes "sound L s" "set (captured p) \<subseteq> set_mset (pointers L s)"
    and "\<And>a ob. source p = Some a \<Longrightarrow> objects s a = Some ob \<Longrightarrow> obj_text ob \<in> set (clock_strings s)"
  shows "sound L (start_op p s)"
proof -
  have "honest s" using assms(1) by (simp add: sound_def)
  then have "honest (start_op p s)"
    using assms(3) by (fastforce simp: honest_def start_op_def fold_acquire_ops fold_acquire_others
        dest: fold_acquire_text)
  then show ?thesis using assms(1,2) balanced_start_op by (simp add: sound_def)
qed

lemma sound_set_text: "sound L s \<Longrightarrow> c \<in># pointers L s \<Longrightarrow> t \<in> set (clock_strings s) \<Longrightarrow> sound L (set_text c t s)"
proof -
  assume s: "sound L s" and c: "c \<in># pointers L s" and t: "t \<in> set (clock_strings s)"
  then obtain ob where ob: "objects s c = Some ob" using sound_live [OF s] by blast
  have "balanced L (set_text c t s)"
    using s ob unfolding sound_def balanced_def uses_change(4) by (auto simp: set_text_def)
  moreover have "honest (set_text c t s)" using s ob t by (auto simp: sound_def honest_def set_text_def)
  ultimately show ?thesis by (simp add: sound_def)
qed

lemma sound_time: "sound L s \<Longrightarrow> sound L (s\<lparr>clock_strings := clock_strings s @ [now]\<rparr>)"
  by (auto simp: sound_def balanced_def honest_def uses_def)

lemma sound_remote: "sound L s \<Longrightarrow> sound L (s\<lparr>remote_endpoint := r\<rparr>)"
  by (auto simp: sound_def balanced_def honest_def uses_def)

lemma sound_finish_op:
  assumes "sound [] s" "p \<in> set (dt_ops s)"
    and "sound (captured p) (s\<lparr>dt_ops := remove1 p (dt_ops s)\<rparr>) \<Longrightarrow>
      sound (captured p) (handler (s\<lparr>dt_ops := remove1 p (dt_ops s)\<rparr>))"
  shows "sound [] (finish_op p handler s)"
proof -
  have "mset (concat (map captured ps)) = mset (concat (map captured (remove1 p ps))) + mset (captured p)"
    if "p \<in> set ps" for ps
    using that by (induction ps) auto
  from this [OF assms(2)] have "pointers [] s = pointers (captured p) (s\<lparr>dt_ops := remove1 p (dt_ops s)\<rparr>)"
    by (simp add: pointers_def)
  then have "sound (captured p) (s\<lparr>dt_ops := remove1 p (dt_ops s)\<rparr>)"
    using assms(1) by (auto simp: sound_def balanced_def uses_def honest_def dest: set_remove1_subset [THEN subsetD])
  then have "sound (captured p) (handler (s\<lparr>dt_ops := remove1 p (dt_ops s)\<rparr>))" by (rule assms(3))
  moreover have "sound (as @ []) t \<Longrightarrow> sound [] (fold release as t)" for as t
    by (induction as arbitrary: t) (auto intro: sound_release)
  ultimately show ?thesis unfolding finish_op_def by simp
qed

section \<open>The handlers\<close>

lemma sound_start_accept: "sound L s \<Longrightarrow> free_at a s \<Longrightarrow> sound L (start_accept a s)"
  unfolding start_accept_def
  by (rule sound_release, rule sound_start_op, rule sound_alloc) (auto simp: pointers_Cons)

lemma sound_start_receive: "sound L s \<Longrightarrow> sound L (start_receive s)"
  unfolding start_receive_def by (rule sound_start_op) auto

lemma text_set: "objects (set_text c t s) c = Some ob \<Longrightarrow> obj_text ob = t"
  by (auto simp: set_text_def split: option.splits)

lemma set_text_times [simp]: "clock_strings (set_text c t s) = clock_strings s"
  by (simp add: set_text_def split: option.split)

lemma sound_tcp_start:
  assumes "sound L s" "c \<in># pointers L s"
  shows "sound L (tcp_start now c s)"
proof -
  let ?s = "s\<lparr>clock_strings := clock_strings s @ [now]\<rparr>"
  have "sound L (set_text c now ?s)"
    by (rule sound_set_text [OF sound_time [OF assms(1)]]) (use assms(2) in auto)
  then show ?thesis
    unfolding tcp_start_def make_daytime_string_def prod.case
    by (rule sound_start_op) (use assms(2) in \<open>auto dest: text_set\<close>)
qed

lemma free_at_start_op: "free_at a s \<Longrightarrow> a \<notin> set (captured p) \<Longrightarrow> free_at a (start_op p s)"
proof -
  have "free_at a (fold acquire as s)" if "free_at a s" "a \<notin> set as" for as s
    using that by (induction as arbitrary: s) (auto simp: free_at_def acquire_def split: option.split)
  then show "free_at a s \<Longrightarrow> a \<notin> set (captured p) \<Longrightarrow> free_at a (start_op p s)"
    by (auto simp: start_op_def fold_acquire_ops free_at_def)
qed

lemma sound_tcp_handle_accept:
  assumes "sound [c] s" "free_at a s"
  shows "sound [c] (tcp_handle_accept err now a c s)"
proof -
  have c: "c \<in># pointers [c] s" by (simp add: pointers_def)
  then have "c \<noteq> a" using sound_live [OF assms(1)] assms(2) by (metis free_at_def option.distinct(1))
  then have "free_at a (tcp_start now c s)"
    using assms(2) by (auto simp: tcp_start_def make_daytime_string_def set_text_def free_at_def split: option.split
        intro!: free_at_start_op [unfolded free_at_def])
  then show ?thesis
    using assms sound_start_accept sound_tcp_start [OF assms(1) c] by (simp add: tcp_handle_accept_def)
qed

lemma sound_handle_receive:
  assumes "sound L s" "free_at a s"
  shows "sound L (handle_receive err now a s)"
proof (cases err)
  case True
  with assms show ?thesis by (simp add: handle_receive_def)
next
  case False
  let ?s = "alloc a now (s\<lparr>clock_strings := clock_strings s @ [now]\<rparr>)"
  have "sound (a # L) ?s" by (rule sound_alloc [OF sound_time [OF assms(1)]]) (use assms(2) in \<open>simp add: free_at_def\<close>)
  then have "sound (a # L) (start_op (Sending a (remote_endpoint s)) ?s)"
    by (rule sound_start_op) (auto simp: pointers_Cons alloc_def)
  then have "sound L (release a (start_receive (start_op (Sending a (remote_endpoint s)) ?s)))"
    by (intro sound_release sound_start_receive)
  then show ?thesis using False by (simp add: handle_receive_def make_daytime_string_def)
qed

lemma sound_transfer:
  assumes "sound L s" "a \<in># pointers L s" "\<And>ob. objects s a = Some ob \<Longrightarrow> obj_text ob \<in> set (clock_strings s)"
  shows "sound L (transfer err a s)"
proof -
  obtain ob where "objects s a = Some ob" using sound_live [OF assms(1,2)] by blast
  with assms(1,3) show ?thesis by (auto simp: transfer_def sound_def balanced_def honest_def uses_def)
qed

lemma sound_shared_accept:
  assumes "sound [] s" "free_at b s" "free_at c s" "b \<noteq> c"
  shows "sound [] (shared_handle_accept err now b c s)"
proof -
  have "sound [] (release c (shared_do_write now b c (alloc c [] s)))"
  proof -
    let ?s1 = "(alloc c [] s)\<lparr>clock_strings := clock_strings s @ [now]\<rparr>"
    have "clock_strings (alloc c [] s) = clock_strings s" by (simp add: alloc_def)
    then have "sound [c] ?s1" using sound_time [OF sound_alloc [OF assms(1,3)], of "[]" now] by simp
    moreover have "free_at b ?s1" using assms(2,4) by (simp add: free_at_def alloc_def)
    ultimately have s2: "sound [b, c] (alloc b now ?s1)" by (rule sound_alloc)
    then have s3: "sound [c, b, c] (acquire c (alloc b now ?s1))" by (rule sound_acquire) (simp add: pointers_def)
    have "sound [c, b, c] (start_op (Sharing c b) (acquire c (alloc b now ?s1)))"
      by (rule sound_start_op [OF s3])
        (use assms(4) in \<open>auto simp: pointers_def acquire_def alloc_def split: option.splits\<close>)
    then have "sound [c] (release b (release c (start_op (Sharing c b) (acquire c (alloc b now ?s1)))))"
      by (intro sound_release)
    then have "sound [] (release c (release b (release c (start_op (Sharing c b) (acquire c (alloc b now ?s1))))))"
      by (rule sound_release)
    then show ?thesis by (simp add: shared_do_write_def make_daytime_string_def) (simp add: alloc_def)
  qed
  then show ?thesis
    unfolding shared_handle_accept_def by (intro sound_start_op) (use assms(1) in auto)
qed


section \<open>Every run\<close>

definition listeners :: "daytime \<Rightarrow> nat" where
  "listeners s = length (filter (\<lambda>p. p = Listening \<or> (\<exists>c. p = Accepting c)) (dt_ops s))"

definition dt_inv :: "daytime \<Rightarrow> bool" where
  "dt_inv s \<longleftrightarrow> sound [] s \<and> listeners s = 1"

text \<open>What a handler does to the operations under way.\<close>

lemma ops_simps [simp]:
  "dt_ops (alloc a t s) = dt_ops s" "dt_ops (acquire a s) = dt_ops s" "dt_ops (release a s) = dt_ops s"
  "dt_ops (set_text a t s) = dt_ops s" "dt_ops (start_op p s) = dt_ops s @ [p]" "dt_ops (transfer err a s) = dt_ops s"
  by (auto simp: alloc_def acquire_def release_def set_text_def start_op_def fold_acquire_same_ops transfer_def
      split: option.split)

lemma dt_ops_finish: "dt_ops (finish_op p h s) = dt_ops (h (s\<lparr>dt_ops := remove1 p (dt_ops s)\<rparr>))"
proof -
  have "dt_ops (fold release as t) = dt_ops t" for as t by (induction as arbitrary: t) auto
  then show ?thesis by (simp add: finish_op_def)
qed

lemma listeners_remove:
  "p \<in> set (dt_ops s) \<Longrightarrow> listeners s = length (filter (\<lambda>p. p = Listening \<or> (\<exists>c. p = Accepting c)) (remove1 p (dt_ops s)))
     + (if p = Listening \<or> (\<exists>c. p = Accepting c) then 1 else 0)"
proof -
  have "length (filter Q ps) = length (filter Q (remove1 p ps)) + (if Q p then 1 else 0)" if "p \<in> set ps" for Q ps
    using that by (induction ps) auto
  then show "p \<in> set (dt_ops s) \<Longrightarrow> ?thesis" unfolding listeners_def by blast
qed

lemma dt_inv_step: "dt_inv s \<Longrightarrow> dt_step s t \<Longrightarrow> dt_inv t"
proof -
  assume i: "dt_inv s" and "dt_step s t"
  then have s: "sound [] s" by (simp add: dt_inv_def)
  from \<open>dt_step s t\<close> show ?thesis
  proof cases
    case (dt_accepted c a err now)
    have "sound [] t" unfolding dt_accepted(1)
      by (rule sound_finish_op [OF s dt_accepted(2)], simp, rule sound_tcp_handle_accept)
        (use dt_accepted(3) in \<open>auto simp: free_at_def\<close>)
    moreover have "listeners t = 1" using i listeners_remove [OF dt_accepted(2)]
      by (simp add: dt_accepted(1) dt_inv_def listeners_def dt_ops_finish tcp_handle_accept_def tcp_start_def
          make_daytime_string_def start_accept_def)
    ultimately show ?thesis by (simp add: dt_inv_def)
  next
    case (dt_written c err)
    have "obj_text ob \<in> set (clock_strings s)" if "objects s c = Some ob" for ob
      using s that dt_written(2) by (auto simp: sound_def honest_def)
    then have "sound [] t" unfolding dt_written(1)
      by (intro sound_finish_op [OF s dt_written(2)] sound_transfer) (auto simp: pointers_def)
    moreover have "listeners t = 1" using i listeners_remove [OF dt_written(2)]
      by (simp add: dt_written(1) dt_inv_def listeners_def dt_ops_finish)
    ultimately show ?thesis by (simp add: dt_inv_def)
  next
    case (dt_received a err now "from")
    have "sound [] t" unfolding dt_received(1)
      by (rule sound_finish_op [OF s dt_received(2)], simp, rule sound_handle_receive)
        (use dt_received(3) in \<open>auto simp: free_at_def intro: sound_remote\<close>)
    moreover have "listeners t = 1" using i listeners_remove [OF dt_received(2)]
      by (simp add: dt_received(1) dt_inv_def listeners_def dt_ops_finish handle_receive_def
          make_daytime_string_def start_receive_def)
    ultimately show ?thesis by (simp add: dt_inv_def)
  next
    case (dt_sent m to err)
    have "obj_text ob \<in> set (clock_strings s)" if "objects s m = Some ob" for ob
      using s that dt_sent(2) by (fastforce simp: sound_def honest_def)
    then have "sound [] t" unfolding dt_sent(1)
      by (intro sound_finish_op [OF s dt_sent(2)] sound_transfer) (auto simp: pointers_def)
    moreover have "listeners t = 1" using i listeners_remove [OF dt_sent(2)]
      by (simp add: dt_sent(1) dt_inv_def listeners_def dt_ops_finish)
    ultimately show ?thesis by (simp add: dt_inv_def)
  qed
qed

lemma shared_inv_step: "dt_inv s \<Longrightarrow> shared_step s t \<Longrightarrow> dt_inv t"
proof -
  assume i: "dt_inv s" and "shared_step s t"
  then have s: "sound [] s" by (simp add: dt_inv_def)
  from \<open>shared_step s t\<close> show ?thesis
  proof cases
    case (sh_accepted b c err now)
    have "sound [] t" unfolding sh_accepted(1)
      by (rule sound_finish_op [OF s sh_accepted(2)], simp, rule sound_shared_accept)
        (use sh_accepted(3,4,5) in \<open>auto simp: free_at_def\<close>)
    moreover have "listeners t = 1" using i listeners_remove [OF sh_accepted(2)]
      by (simp add: sh_accepted(1) dt_inv_def listeners_def dt_ops_finish shared_handle_accept_def shared_do_write_def
          make_daytime_string_def)
    ultimately show ?thesis by (simp add: dt_inv_def)
  next
    case (sh_written c b err)
    have "obj_text ob \<in> set (clock_strings s)" if "objects s b = Some ob" for ob
      using s that sh_written(2) by (fastforce simp: sound_def honest_def)
    then have "sound [] t" unfolding sh_written(1)
      by (intro sound_finish_op [OF s sh_written(2)] sound_transfer) (auto simp: pointers_def)
    moreover have "listeners t = 1" using i listeners_remove [OF sh_written(2)]
      by (simp add: sh_written(1) dt_inv_def listeners_def dt_ops_finish)
    ultimately show ?thesis by (simp add: dt_inv_def)
  qed
qed

lemma sound_no_objects: "sound [] no_objects"
  by (simp add: sound_def balanced_def honest_def no_objects_def uses_def pointers_def)

lemma dt_inv_init: "dt_init s \<Longrightarrow> dt_inv s"
proof -
  assume "dt_init s"
  then obtain a where s: "s = start_receive (start_accept a no_objects)" by (auto simp: dt_init_def)
  have "sound [] s" unfolding s
    by (intro sound_start_receive sound_start_accept sound_no_objects) (simp add: free_at_def no_objects_def)
  then show ?thesis by (simp add: dt_inv_def s listeners_def start_receive_def start_accept_def no_objects_def)
qed

lemma shared_inv_init: "shared_init s \<Longrightarrow> dt_inv s"
proof -
  assume s: "shared_init s"
  then have "sound [] s" unfolding shared_init_def using sound_start_op [OF sound_no_objects, of Listening] by simp
  then show ?thesis using s by (simp add: dt_inv_def shared_init_def listeners_def no_objects_def)
qed

interpretation daytime: invariant_system dt_init dt_step dt_inv
  by unfold_locales (fact dt_inv_init, fact dt_inv_step)

interpretation shared_buffers: invariant_system shared_init shared_step dt_inv
  by unfold_locales (fact shared_inv_init, fact shared_inv_step)

text \<open>
  C35. The asynchronous daytime servers, and the one with shared buffers, in every order of completions: no
  pointer to an object that is gone is ever followed, so that the buffer of every write under way is there;
  an object exists exactly as long as some operation holds it, so nothing is leaked either; what is delivered
  are strings the clock has given; and exactly one accept is under way.
\<close>

theorem daytime_buffers_live:
  assumes "reach dt_init dt_step s \<or> reach shared_init shared_step s"
  shows "\<not> dangling s
    \<and> (\<forall>a. objects s a \<noteq> None \<longleftrightarrow> (\<exists>p\<in>set (dt_ops s). a \<in> set (captured p)))
    \<and> set (delivered s) \<subseteq> set (clock_strings s) \<and> listeners s = 1"
proof -
  have i: "dt_inv s" using assms daytime.invariant shared_buffers.invariant by blast
  then have b: "balanced [] s" and h: "honest s" by (simp_all add: dt_inv_def sound_def)
  have "objects s a \<noteq> None \<longleftrightarrow> 0 < count (pointers [] s) a" for a
    using b by (cases "objects s a") (auto simp: balanced_def uses_def)
  moreover have "0 < count (pointers [] s) a \<longleftrightarrow> (\<exists>p\<in>set (dt_ops s). a \<in> set (captured p))" for a
    by (simp add: pointers_def)
  ultimately show ?thesis using i b h by (simp add: balanced_def honest_def dt_inv_def)
qed

text \<open>A datagram that could not be received ends the UDP server: no receive is under way any more.\<close>

lemma receive_error_ends:
  "finish_op Receiving (\<lambda>s. handle_receive True now a (s\<lparr>remote_endpoint := r\<rparr>))
     (start_receive (start_accept 0 no_objects)) = t \<Longrightarrow> Receiving \<notin> set (dt_ops t)"
  by (auto simp: dt_ops_finish handle_receive_def start_receive_def start_accept_def no_objects_def)

theorem daytime_buffers_live_witness:
  "\<not> dangling (finish_op (Accepting 0) (tcp_handle_accept False ''now'' 1 0) (start_receive (start_accept 0 no_objects)))"
proof -
  let ?s = "start_receive (start_accept 0 no_objects)"
  have "dt_init ?s" by (auto simp: dt_init_def)
  then have "reach dt_init dt_step ?s" by (rule reach.reach_init)
  moreover have "dt_step ?s (finish_op (Accepting 0) (tcp_handle_accept False ''now'' 1 0) ?s)"
    by (rule dt_accepted) (simp_all add: start_receive_def start_accept_def no_objects_def free_at_def start_op_def
        alloc_def acquire_def release_def)
  ultimately have "reach dt_init dt_step (finish_op (Accepting 0) (tcp_handle_accept False ''now'' 1 0) ?s)"
    by (rule reach.reach_step)
  then show ?thesis using daytime_buffers_live by blast
qed

end
