(* ===== verification/Daemon.thy ===== *)
theory Daemon
  imports Net_Kernel
begin

text \<open>
  Becoming a daemon: \<open>main\<close> of \<^verbatim>\<open>src/boost/5.*fork_daemon.cpp\<close>, which forks twice, and \<open>mydaemond\<close> of
  \<^verbatim>\<open>daemond.cpp\<close>, which forks once. A process is what these calls change of it; \<open>fork\<close> gives the number of
  the child, which is that of no process, group or session. What the system calls answer are arguments.
\<close>

section \<open>Processes\<close>

text \<open>Descriptors are an association list from their numbers to what is open there.\<close>

record process =
  proc_id :: int
  group_id :: int
  session_id :: int
  terminal :: "string option"
  descriptors :: "(int \<times> string) list"
  directory :: string
  file_mask :: nat

datatype fate = Runs | Exited int

definition forked :: "int \<Rightarrow> process \<Rightarrow> process" where
  "forked c p = p\<lparr>proc_id := c\<rparr>"

text \<open>The leader of a group cannot begin a session.\<close>

definition sys_setsid :: "process \<Rightarrow> bool \<times> process" where
  "sys_setsid p =
     (if proc_id p = group_id p then (False, p)
      else (True, p\<lparr>session_id := proc_id p, group_id := proc_id p, terminal := None\<rparr>))"

definition sys_close :: "int \<Rightarrow> process \<Rightarrow> process" where
  "sys_close fd p = p\<lparr>descriptors := filter (\<lambda>d. fst d \<noteq> fd) (descriptors p)\<rparr>"

text \<open>\<open>open\<close> and \<open>dup\<close> take the lowest number that is free.\<close>

definition sys_open :: "string \<Rightarrow> process \<Rightarrow> int \<times> process" where
  "sys_open f p =
     (let fd = lowest_free (map fst (descriptors p)) in (fd, p\<lparr>descriptors := (fd, f) # descriptors p\<rparr>))"

definition sys_dup2 :: "int \<Rightarrow> int \<Rightarrow> process \<Rightarrow> process" where
  "sys_dup2 old new p =
     (case map_of (descriptors p) old of
        None \<Rightarrow> p
      | Some f \<Rightarrow> if old = new then p else (sys_close new p)\<lparr>descriptors := (new, f) # descriptors (sys_close new p)\<rparr>)"

section \<open>Two forks\<close>

text \<open>From the closing of the standard streams on: the three descriptors, each call with its way out.\<close>

definition standard_streams :: "bool \<Rightarrow> bool \<Rightarrow> bool \<Rightarrow> process \<Rightarrow> process \<times> fate" where
  "standard_streams null_ok out_ok dup_ok p =
     (let p = sys_close 2 (sys_close 1 (sys_close 0 p)) in
      if \<not> null_ok then (p, Exited 1)
      else let p = snd (sys_open ''/dev/null'' p) in
        if \<not> out_ok then (p, Exited 1)
        else let p = snd (sys_open ''/tmp/asio.daemon.out'' p) in
          case map_of (descriptors p) 1 of
            None \<Rightarrow> (p, Exited 1)
          | Some f \<Rightarrow> if \<not> dup_ok then (p, Exited 1) else (snd (sys_open f p), Runs))"

text \<open>All the processes the program has become, with what has happened to them; \<open>None\<close> is a fork that failed.\<close>

definition fork_daemon ::
  "int option \<Rightarrow> int option \<Rightarrow> bool \<Rightarrow> bool \<Rightarrow> bool \<Rightarrow> process \<Rightarrow> (process \<times> fate) list" where
  "fork_daemon fork1 fork2 null_ok out_ok dup_ok p =
     (case fork1 of
        None \<Rightarrow> [(p, Exited 1)]
      | Some c1 \<Rightarrow>
          (let q = (snd (sys_setsid (forked c1 p)))\<lparr>directory := ''/'', file_mask := 0\<rparr>
           in (p, Exited 0) #
             (case fork2 of
                None \<Rightarrow> [(q, Exited 1)]
              | Some c2 \<Rightarrow> [(q, Exited 0), standard_streams null_ok out_ok dup_ok (forked c2 q)])))"

section \<open>One fork\<close>

text \<open>\<open>mydaemond\<close>: a fork that fails is reported, and the function goes on in the process it was called in.\<close>

definition mydaemond :: "int option \<Rightarrow> process \<Rightarrow> (process \<times> fate) list" where
  "mydaemond fork1 p =
     (let q = (case fork1 of None \<Rightarrow> p | Some c \<Rightarrow> forked c p);
          q = snd (sys_setsid q)\<lparr>directory := ''/'', file_mask := 2\<rparr>;
          (fd0, q) = sys_open ''/dev/null'' (sys_close 0 q);
          q = sys_dup2 fd0 2 (sys_dup2 fd0 1 q)
      in (case fork1 of None \<Rightarrow> [] | Some c \<Rightarrow> [(p, Exited 0)]) @ [(q, Runs)])"

section \<open>The lowest descriptors\<close>

lemma lowest_free_least:
  assumes "int n \<notin> set fds" "\<And>m. m < n \<Longrightarrow> int m \<in> set fds"
  shows "lowest_free fds = int n"
proof -
  have "int ` {..<n} \<subseteq> set fds" using assms(2) by auto
  then have "n \<le> length fds"
    by (metis List.finite_set card_image card_length card_lessThan card_mono inj_on_of_nat le_trans)
  then have "[0..<Suc (length fds)] = [0..<n] @ n # [Suc n..<Suc (length fds)]"
    using upt_add_eq_append [of 0 n "Suc (length fds) - n"] upt_conv_Cons [of n "Suc (length fds)"] by simp
  moreover have "filter (\<lambda>m. int m \<notin> set fds) [0..<n] = []" using assms(2) by (simp add: filter_empty_conv)
  ultimately show ?thesis using assms(1) by (simp add: lowest_free_def del: upt_Suc)
qed

lemma map_of_close: "map_of (descriptors (sys_close fd p)) x = (if x = fd then None else map_of (descriptors p) x)"
proof -
  have "map_of (filter (\<lambda>d. fst d \<noteq> fd) xs) x = (if x = fd then None else map_of xs x)" for xs :: "(int \<times> string) list"
    by (induction xs) auto
  then show ?thesis by (simp add: sys_close_def)
qed

lemma open_lowest:
  assumes "map_of (descriptors p) (int n) = None" "\<And>m. m < n \<Longrightarrow> map_of (descriptors p) (int m) \<noteq> None"
  shows "sys_open f p = (int n, p\<lparr>descriptors := (int n, f) # descriptors p\<rparr>)"
proof -
  have "lowest_free (map fst (descriptors p)) = int n"
    using assms by (intro lowest_free_least) (auto simp: map_of_eq_None_iff)
  then show ?thesis by (simp add: sys_open_def Let_def)
qed

lemma close_keeps [simp]:
  "proc_id (sys_close fd p) = proc_id p" "group_id (sys_close fd p) = group_id p"
  "session_id (sys_close fd p) = session_id p" "terminal (sys_close fd p) = terminal p"
  "directory (sys_close fd p) = directory p" "file_mask (sys_close fd p) = file_mask p"
  by (simp_all add: sys_close_def)

text \<open>The three descriptors end up at 0, 1 and 2, and no other one is touched.\<close>

lemma standard_streams_done:
  "\<exists>q. standard_streams True True True p = (q, Runs)
    \<and> proc_id q = proc_id p \<and> session_id q = session_id p \<and> group_id q = group_id p
    \<and> terminal q = terminal p \<and> directory q = directory p \<and> file_mask q = file_mask p
    \<and> map_of (descriptors q) = (map_of (descriptors p))(0 \<mapsto> ''/dev/null'', 1 \<mapsto> ''/tmp/asio.daemon.out'',
        2 \<mapsto> ''/tmp/asio.daemon.out'')"
proof -
  define p0 where "p0 = sys_close 2 (sys_close 1 (sys_close 0 p))"
  define p1 where "p1 = p0\<lparr>descriptors := (0, ''/dev/null'') # descriptors p0\<rparr>"
  define p2 where "p2 = p1\<lparr>descriptors := (1, ''/tmp/asio.daemon.out'') # descriptors p1\<rparr>"
  define p3 where "p3 = p2\<lparr>descriptors := (2, ''/tmp/asio.daemon.out'') # descriptors p2\<rparr>"
  have m0: "map_of (descriptors p0) x = (if x \<in> {0, 1, 2} then None else map_of (descriptors p) x)" for x
    by (simp add: p0_def map_of_close)
  have o1: "sys_open ''/dev/null'' p0 = (0, p1)"
    using open_lowest [of p0 0 "''/dev/null''"] by (simp add: m0 p1_def)
  have o2: "sys_open ''/tmp/asio.daemon.out'' p1 = (1, p2)"
    using open_lowest [of p1 1 "''/tmp/asio.daemon.out''"] by (simp add: m0 p1_def p2_def)
  have lt2: "m < 2 \<Longrightarrow> m = 0 \<or> m = 1" for m :: nat by auto
  have o3: "sys_open ''/tmp/asio.daemon.out'' p2 = (2, p3)"
    using open_lowest [of p2 2 "''/tmp/asio.daemon.out''"] by (auto simp: m0 p1_def p2_def p3_def dest: lt2)
  have "map_of (descriptors p2) 1 = Some ''/tmp/asio.daemon.out''" by (simp add: p2_def)
  then have "standard_streams True True True p = (p3, Runs)"
    using o1 o2 o3 by (simp add: standard_streams_def flip: p0_def)
  moreover have "map_of (descriptors p3) = (map_of (descriptors p))(0 \<mapsto> ''/dev/null'', 1 \<mapsto> ''/tmp/asio.daemon.out'',
      2 \<mapsto> ''/tmp/asio.daemon.out'')"
    by (auto simp: p3_def p2_def p1_def m0 fun_eq_iff)
  moreover have "proc_id p3 = proc_id p \<and> session_id p3 = session_id p \<and> group_id p3 = group_id p
      \<and> terminal p3 = terminal p \<and> directory p3 = directory p \<and> file_mask p3 = file_mask p"
    by (simp add: p3_def p2_def p1_def p0_def)
  ultimately show ?thesis by blast
qed

section \<open>What a daemon is\<close>

text \<open>
  The program that forks twice. If all calls succeed, the process it was started as and the one between have
  exited with 0, and one process runs: in a session that is not the old one and that it does not lead, so that
  no terminal can become its own again; in the root directory, with no mask; its standard descriptors are the
  null device and the log file twice; and every other descriptor, such as the server's socket, is as before.
  If any call fails, nothing is left running and the last process has exited with 1.
\<close>

theorem fork_daemon_detaches:
  assumes "c1 \<notin> {proc_id p, group_id p, session_id p}" "c2 \<notin> {proc_id p, group_id p, session_id p, c1}"
  shows "\<exists>q d. fork_daemon (Some c1) (Some c2) True True True p = [(p, Exited 0), (q, Exited 0), (d, Runs)]
    \<and> session_id d = c1 \<and> session_id d \<noteq> session_id p \<and> proc_id d \<noteq> session_id d \<and> proc_id d \<noteq> group_id d
    \<and> terminal d = None \<and> directory d = ''/'' \<and> file_mask d = 0
    \<and> map_of (descriptors d) = (map_of (descriptors p))(0 \<mapsto> ''/dev/null'', 1 \<mapsto> ''/tmp/asio.daemon.out'',
        2 \<mapsto> ''/tmp/asio.daemon.out'')"
proof -
  define q where "q = (snd (sys_setsid (forked c1 p)))\<lparr>directory := ''/'', file_mask := 0\<rparr>"
  have q: "q = p\<lparr>proc_id := c1, session_id := c1, group_id := c1, terminal := None, directory := ''/'', file_mask := 0\<rparr>"
    using assms(1) by (simp add: q_def sys_setsid_def forked_def)
  obtain d where d: "standard_streams True True True (forked c2 q) = (d, Runs)"
    "proc_id d = c2" "session_id d = c1" "group_id d = c1" "terminal d = None" "directory d = ''/''" "file_mask d = 0"
    "map_of (descriptors d) = (map_of (descriptors p))(0 \<mapsto> ''/dev/null'',
       1 \<mapsto> ''/tmp/asio.daemon.out'', 2 \<mapsto> ''/tmp/asio.daemon.out'')"
    using standard_streams_done [of "forked c2 q"] by (auto simp: q forked_def)
  have "fork_daemon (Some c1) (Some c2) True True True p = [(p, Exited 0), (q, Exited 0), (d, Runs)]"
    by (simp add: fork_daemon_def d(1) Let_def flip: q_def)
  then show ?thesis using d(2-) assms by auto
qed

theorem fork_daemon_fails:
  assumes "\<not> (null_ok \<and> out_ok \<and> dup_ok) \<or> fork1 = None \<or> fork2 = None"
  shows "Runs \<notin> snd ` set (fork_daemon fork1 fork2 null_ok out_ok dup_ok p)
    \<and> snd (last (fork_daemon fork1 fork2 null_ok out_ok dup_ok p)) = Exited 1"
  using assms by (auto simp: fork_daemon_def standard_streams_def Let_def split: option.split)

text \<open>
  The program that forks once: the process that runs leads its session, and its standard descriptors are all
  the null device. If the fork fails it runs on as the process it was, with its terminal if it leads a group.
\<close>

lemma dup2_map:
  "map_of (descriptors p) old = Some f \<Longrightarrow> map_of (descriptors (sys_dup2 old new p)) = (map_of (descriptors p))(new \<mapsto> f)"
  by (auto simp: sys_dup2_def map_of_close fun_eq_iff)

theorem mydaemond_detaches:
  assumes "c \<notin> {proc_id p, group_id p, session_id p}"
  shows "\<exists>d. mydaemond (Some c) p = [(p, Exited 0), (d, Runs)]
    \<and> proc_id d = c \<and> session_id d = c \<and> terminal d = None \<and> directory d = ''/'' \<and> file_mask d = 2
    \<and> map_of (descriptors d) = (map_of (descriptors p))(0 \<mapsto> ''/dev/null'', 1 \<mapsto> ''/dev/null'', 2 \<mapsto> ''/dev/null'')"
proof -
  let ?q = "p\<lparr>proc_id := c, session_id := c, group_id := c, terminal := None, directory := ''/'', file_mask := 2\<rparr>"
  let ?r = "(sys_close 0 ?q)\<lparr>descriptors := (0, ''/dev/null'') # descriptors (sys_close 0 ?q)\<rparr>"
  have s: "snd (sys_setsid (forked c p))\<lparr>directory := ''/'', file_mask := 2\<rparr> = ?q"
    using assms by (simp add: sys_setsid_def forked_def)
  have o: "sys_open ''/dev/null'' (sys_close 0 ?q) = (0, ?r)"
    using open_lowest [of "sys_close 0 ?q" 0 "''/dev/null''"] by (simp add: map_of_close)
  have m0: "map_of (descriptors ?r) = (map_of (descriptors p))(0 \<mapsto> ''/dev/null'')"
    by (auto simp: map_of_close fun_eq_iff)
  have m1: "map_of (descriptors (sys_dup2 0 1 ?r)) = (map_of (descriptors p))(0 \<mapsto> ''/dev/null'', 1 \<mapsto> ''/dev/null'')"
    using dup2_map [of ?r 0 "''/dev/null''" 1] m0 by simp
  have m2: "map_of (descriptors (sys_dup2 0 2 (sys_dup2 0 1 ?r))) =
      (map_of (descriptors p))(0 \<mapsto> ''/dev/null'', 1 \<mapsto> ''/dev/null'', 2 \<mapsto> ''/dev/null'')"
    using dup2_map [of "sys_dup2 0 1 ?r" 0 "''/dev/null''" 2] m1 by simp
  have keep: "proc_id (sys_dup2 x y q) = proc_id q" "session_id (sys_dup2 x y q) = session_id q"
    "terminal (sys_dup2 x y q) = terminal q" "directory (sys_dup2 x y q) = directory q"
    "file_mask (sys_dup2 x y q) = file_mask q" for x y q
    by (simp_all add: sys_dup2_def split: option.split)
  have "mydaemond (Some c) p = [(p, Exited 0), (sys_dup2 0 2 (sys_dup2 0 1 ?r), Runs)]"
    by (simp add: mydaemond_def s o Let_def)
  then show ?thesis using m2 by (auto simp: keep)
qed

lemma mydaemond_fork_fails:
  "proc_id p = group_id p \<Longrightarrow> \<exists>d. mydaemond None p = [(d, Runs)] \<and> terminal d = terminal p \<and> proc_id d = proc_id p"
  by (auto simp: mydaemond_def sys_setsid_def sys_dup2_def sys_open_def Let_def split: option.split)

end
