(* ===== verification/Ipc.thy ===== *)
theory Ipc
  imports Transition "HOL-Library.Word"
begin

text \<open>
  The programs on interprocess communication under \<^verbatim>\<open>src/ipc\<close>: two processes printing under a semaphore,
  a writer and a reader of shared memory, and the programs on a pipe and a named pipe. Each is two processes
  whose system calls and memory accesses interleave.
\<close>

section \<open>The semaphore\<close>

text \<open>
  \<open>P\<close> and \<open>V\<close> of \<^verbatim>\<open>sem_comm.c\<close>: \<open>None\<close> is a call that blocks. When \<open>semop\<close> fails the value stays as it is and
  the result is -1.
\<close>

definition SemOp :: "bool \<Rightarrow> int \<Rightarrow> int \<Rightarrow> (int \<times> int) option" where
  "SemOp fails op v =
     (if fails then Some (- 1, v) else if v + op < 0 then None else Some (0, v + op))"

definition P :: "bool \<Rightarrow> int \<Rightarrow> (int \<times> int) option" where
  "P fails v = SemOp fails (- 1) v"

definition V :: "bool \<Rightarrow> int \<Rightarrow> (int \<times> int) option" where
  "V fails v = SemOp fails 1 v"

text \<open>\<open>testSemSet\<close>: the child (\<open>True\<close>) prints \<open>A\<close> twice, the father \<open>B\<close> twice. The result of \<open>P\<close> is not looked at.\<close>

datatype sem_phase = Before_P | Before_first | Before_second | Before_V

record sem_sys =
  sem_value :: int
  sem_phases :: "bool \<Rightarrow> sem_phase"
  sem_out :: string

definition letter :: "bool \<Rightarrow> char" where
  "letter child = (if child then CHR ''A'' else CHR ''B'')"

definition sem_move :: "bool \<Rightarrow> sem_phase \<Rightarrow> sem_sys \<Rightarrow> sem_sys" where
  "sem_move who ph s = s\<lparr>sem_phases := (sem_phases s)(who := ph)\<rparr>"

definition sem_act :: "bool \<Rightarrow> bool \<Rightarrow> sem_sys \<Rightarrow> sem_sys option" where
  "sem_act fails who s =
     (case sem_phases s who of
        Before_P \<Rightarrow> map_option (\<lambda>(r, v). sem_move who Before_first (s\<lparr>sem_value := v\<rparr>)) (P fails (sem_value s))
      | Before_first \<Rightarrow> Some (sem_move who Before_second (s\<lparr>sem_out := sem_out s @ [letter who]\<rparr>))
      | Before_second \<Rightarrow> Some (sem_move who Before_V (s\<lparr>sem_out := sem_out s @ [letter who]\<rparr>))
      | Before_V \<Rightarrow> map_option (\<lambda>(r, v). sem_move who Before_P (s\<lparr>sem_value := v\<rparr>)) (V fails (sem_value s)))"

inductive sem_step :: "bool \<Rightarrow> sem_sys \<Rightarrow> sem_sys \<Rightarrow> bool" for may_fail where
  sem_stepI: "(fails \<Longrightarrow> may_fail) \<Longrightarrow> sem_act fails who s = Some t \<Longrightarrow> sem_step may_fail s t"

text \<open>\<open>InitSem\<close> sets the value to one.\<close>

definition sem_init :: "sem_sys \<Rightarrow> bool" where
  "sem_init s \<longleftrightarrow> s = \<lparr>sem_value = 1, sem_phases = (\<lambda>_. Before_P), sem_out = []\<rparr>"

fun in_pairs :: "string \<Rightarrow> bool" where
  "in_pairs [] = True"
| "in_pairs [c] = False"
| "in_pairs (a # b # cs) = (a = b \<and> in_pairs cs)"

lemma in_pairs_append: "in_pairs u \<Longrightarrow> in_pairs (u @ [c, c])"
  by (induction u rule: in_pairs.induct) auto

definition sem_idle :: "sem_sys \<Rightarrow> bool" where
  "sem_idle s \<longleftrightarrow> (\<forall>who. sem_phases s who = Before_P) \<and> sem_value s = 1 \<and> in_pairs (sem_out s)"

definition sem_busy :: "bool \<Rightarrow> sem_sys \<Rightarrow> bool" where
  "sem_busy who s \<longleftrightarrow>
     sem_phases s who \<noteq> Before_P \<and> sem_phases s (\<not> who) = Before_P \<and> sem_value s = 0
     \<and> (if sem_phases s who = Before_second then \<exists>u. sem_out s = u @ [letter who] \<and> in_pairs u
        else in_pairs (sem_out s))"

definition sem_inv :: "sem_sys \<Rightarrow> bool" where
  "sem_inv s \<longleftrightarrow> sem_idle s \<or> (\<exists>who. sem_busy who s)"

lemma sem_inv_busy: "sem_inv s \<Longrightarrow> sem_phases s who \<noteq> Before_P \<Longrightarrow> sem_busy who s"
proof -
  assume "sem_inv s" and not: "sem_phases s who \<noteq> Before_P"
  then obtain w where b: "sem_busy w s" by (auto simp: sem_inv_def sem_idle_def)
  then have "w = who" using not by (cases w; cases who) (auto simp: sem_busy_def)
  with b show ?thesis by simp
qed

lemma all_bool: "Q who \<Longrightarrow> Q (\<not> who) \<Longrightarrow> Q b" for Q :: "bool \<Rightarrow> bool"
  by (cases b; cases who) auto

lemma sem_inv_act: "sem_inv s \<Longrightarrow> sem_act False who s = Some t \<Longrightarrow> sem_inv t"
proof -
  assume inv: "sem_inv s" and act: "sem_act False who s = Some t"
  show "sem_inv t"
  proof (cases "sem_phases s who")
    case Before_P
    then have v: "1 \<le> sem_value s" and t: "t = sem_move who Before_first (s\<lparr>sem_value := sem_value s - 1\<rparr>)"
      using act by (auto simp: sem_act_def P_def SemOp_def split: if_splits)
    from inv v have "sem_idle s" by (auto simp: sem_inv_def sem_busy_def)
    then have "sem_busy who t" by (simp add: sem_idle_def sem_busy_def t sem_move_def)
    then show ?thesis by (auto simp: sem_inv_def)
  next
    case Before_first
    then have "sem_busy who s" using inv by (intro sem_inv_busy) auto
    with Before_first act have "sem_busy who t" by (auto simp: sem_busy_def sem_act_def sem_move_def)
    then show ?thesis by (auto simp: sem_inv_def)
  next
    case Before_second
    then have "sem_busy who s" using inv by (intro sem_inv_busy) auto
    with Before_second act have "sem_busy who t"
      by (auto simp: sem_busy_def sem_act_def sem_move_def in_pairs_append)
    then show ?thesis by (auto simp: sem_inv_def)
  next
    case Before_V
    then have "sem_busy who s" using inv by (intro sem_inv_busy) auto
    with Before_V act have "sem_idle t"
      by (auto simp: sem_busy_def sem_idle_def sem_act_def sem_move_def V_def SemOp_def intro: all_bool [where who = who])
    then show ?thesis by (auto simp: sem_inv_def)
  qed
qed

interpretation semaphore: invariant_system sem_init "sem_step False" sem_inv
proof unfold_locales
  show "sem_inv s" if "sem_init s" for s using that by (simp add: sem_init_def sem_inv_def sem_idle_def)
  show "sem_inv t" if "sem_inv s" "sem_step False s t" for s t
    using that(2,1) by (cases rule: sem_step.cases) (metis sem_inv_act)
qed

text \<open>As long as no operation on the semaphore fails, the two processes print in pairs.\<close>

theorem semaphore_prints_pairs:
  assumes "reach sem_init (sem_step False) s"
  shows "in_pairs (sem_out s) \<or> (\<exists>u c. sem_out s = u @ [c] \<and> in_pairs u)"
  using semaphore.invariant [OF assms] by (auto simp: sem_inv_def sem_idle_def sem_busy_def split: if_splits)

text \<open>An operation that fails, when a signal interrupts it for example, is taken for granted: the letters mix.\<close>

lemma failed_P_mixes:
  "\<exists>s. reach sem_init (sem_step True) s \<and> sem_out s = ''ABAB''"
proof -
  define s0 where "s0 = \<lparr>sem_value = 1, sem_phases = (\<lambda>_. Before_P), sem_out = []\<rparr>"
  define run where "run = (\<lambda>acts. fold (\<lambda>(f, w) so. Option.bind so (sem_act f w)) acts (Some s0))"
  have step: "reach sem_init (sem_step True) t" if "run acts = Some t" for acts t
    using that
  proof (induction acts arbitrary: t rule: rev_induct)
    case Nil
    then show ?case by (auto simp: run_def s0_def sem_init_def intro: reach.reach_init)
  next
    case (snoc a acts)
    then obtain u where "run acts = Some u" "sem_act (fst a) (snd a) u = Some t"
      by (auto simp: run_def split: prod.splits bind_splits)
    with snoc.IH show ?case by (auto intro: reach.reach_step sem_stepI)
  qed
  have "\<exists>t. run [(False, True), (True, False), (False, True), (False, False), (False, True), (False, False)] = Some t
      \<and> sem_out t = ''ABAB''"
    by (simp add: run_def s0_def sem_act_def P_def SemOp_def sem_move_def letter_def)
  with step show ?thesis by blast
qed

section \<open>Shared memory\<close>

definition SIZE :: nat where
  "SIZE = 4096"

text \<open>\<open>testclient\<close>: two writes to the segment, which other processes may look at in between.\<close>

record shm_writer =
  shm_mem :: "nat \<Rightarrow> char"
  shm_index :: nat
  half :: bool

definition shm_act :: "shm_writer \<Rightarrow> shm_writer" where
  "shm_act s =
     (if \<not> half s
      then s\<lparr>shm_mem := (shm_mem s)(shm_index s := CHR ''A''), shm_index := (shm_index s + 1) mod (SIZE - 1), half := True\<rparr>
      else s\<lparr>shm_mem := (shm_mem s)(shm_index s := CHR 0x00), half := False\<rparr>)"

text \<open>\<open>printf("%s")\<close> in \<open>testserver\<close>: what it reads up to the first null byte; \<open>None\<close> if it leaves the segment.\<close>

fun read_string :: "(nat \<Rightarrow> char) \<Rightarrow> nat list \<Rightarrow> string option" where
  "read_string m [] = None"
| "read_string m (i # is) = (if m i = CHR 0x00 then Some [] else map_option ((#) (m i)) (read_string m is))"

definition shm_print :: "shm_writer \<Rightarrow> string option" where
  "shm_print s = read_string (shm_mem s) [0..<SIZE]"

definition shm_start :: shm_writer where
  "shm_start = \<lparr>shm_mem = (\<lambda>_. CHR 0x00), shm_index = 0, half = False\<rparr>"

lemma shm_invariant:
  "shm_index ((shm_act ^^ n) shm_start) < SIZE - 1
   \<and> shm_mem ((shm_act ^^ n) shm_start) (SIZE - 1) = CHR 0x00
   \<and> (\<forall>i. shm_mem ((shm_act ^^ n) shm_start) i \<in> {CHR ''A'', CHR 0x00})"
proof (induction n)
  case 0
  show ?case by (simp add: shm_start_def SIZE_def)
next
  case (Suc n)
  moreover have "(k::nat) mod (SIZE - 1) < SIZE - 1" for k by (simp add: SIZE_def)
  ultimately show ?case by (auto simp: shm_act_def)
qed

text \<open>Whenever the reader looks, it finds a string that ends within the segment and consists of \<open>A\<close>s.\<close>

lemma read_string_found:
  "j \<in> set is \<Longrightarrow> m j = CHR 0x00 \<Longrightarrow> \<forall>i. m i \<in> {c, CHR 0x00} \<Longrightarrow> \<exists>k<length is. read_string m is = Some (replicate k c)"
proof (induction "is")
  case (Cons i "is")
  show ?case
  proof (cases "m i = CHR 0x00")
    case False
    with Cons obtain k where "k < length is" "read_string m is = Some (replicate k c)" by auto
    with False Cons.prems(3) show ?thesis by (intro exI [of _ "Suc k"]) auto
  qed auto
qed simp

theorem shm_reader_safe:
  "\<exists>k<SIZE. shm_print ((shm_act ^^ n) shm_start) = Some (replicate k (CHR ''A''))"
proof -
  have "SIZE - 1 \<in> set [0..<SIZE]" by (simp add: SIZE_def)
  from read_string_found [OF this] shm_invariant [of n] show ?thesis by (simp add: shm_print_def)
qed

section \<open>The pipes\<close>

text \<open>
  \<^verbatim>\<open>pipe.c\<close>: the child writes its message five times and closes its end; the father reads at most five times,
  each time what is there, up to 1023 bytes, and gives up when nothing is. \<open>None\<close> is a read that blocks.
\<close>

record pipe_sys =
  pipe_data :: string
  writes_left :: nat
  reads_left :: nat
  prints :: "string list"
  father_failed :: bool

definition pipe_msg :: string where
  "pipe_msg = ''i am from XATU''"

definition child_write :: "pipe_sys \<Rightarrow> pipe_sys" where
  "child_write s = s\<lparr>pipe_data := pipe_data s @ pipe_msg, writes_left := writes_left s - 1\<rparr>"

definition father_read :: "pipe_sys \<Rightarrow> pipe_sys option" where
  "father_read s =
     (if pipe_data s = []
      then (if writes_left s = 0 then Some (s\<lparr>father_failed := True, reads_left := 0\<rparr>) else None)
      else Some (s\<lparr>prints := prints s @ [take 1023 (pipe_data s)], pipe_data := drop 1023 (pipe_data s),
                   reads_left := reads_left s - 1\<rparr>))"

inductive pipe_step :: "pipe_sys \<Rightarrow> pipe_sys \<Rightarrow> bool" where
  pipe_write: "0 < writes_left s \<Longrightarrow> pipe_step s (child_write s)"
| pipe_read: "0 < reads_left s \<Longrightarrow> father_read s = Some t \<Longrightarrow> pipe_step s t"

definition pipe_init :: "pipe_sys \<Rightarrow> bool" where
  "pipe_init s \<longleftrightarrow> s = \<lparr>pipe_data = [], writes_left = 5, reads_left = 5, prints = [], father_failed = False\<rparr>"

definition pipe_inv :: "pipe_sys \<Rightarrow> bool" where
  "pipe_inv s \<longleftrightarrow> writes_left s \<le> 5
     \<and> concat (prints s) @ pipe_data s = concat (replicate (5 - writes_left s) pipe_msg)
     \<and> (\<forall>m\<in>set (prints s). \<exists>k. 1 \<le> k \<and> m = concat (replicate k pipe_msg))
     \<and> (\<exists>k. pipe_data s = concat (replicate k pipe_msg) \<and> length (prints s) + k + writes_left s \<le> 5)
     \<and> (reads_left s + length (prints s) = 5 \<or> father_failed s)
     \<and> (father_failed s \<longrightarrow> pipe_data s = [] \<and> writes_left s = 0 \<and> length (prints s) < 5 \<and> reads_left s = 0)"

lemma pipe_msg_length: "length pipe_msg = 14"
  by (simp add: pipe_msg_def)

lemma replicate_msg_length: "length (concat (replicate k pipe_msg)) = 14 * k"
  by (induction k) (simp_all add: pipe_msg_length)

lemma pipe_inv_step: "pipe_inv s \<Longrightarrow> pipe_step s t \<Longrightarrow> pipe_inv t"
proof -
  assume i: "pipe_inv s" and "pipe_step s t"
  then obtain k where k: "pipe_data s = concat (replicate k pipe_msg)" "length (prints s) + k + writes_left s \<le> 5"
    by (auto simp: pipe_inv_def)
  from \<open>pipe_step s t\<close> show ?thesis
  proof cases
    case pipe_write
    have snoc: "concat (replicate n pipe_msg) @ pipe_msg = concat (replicate (Suc n) pipe_msg)" for n
      by (induction n) auto
    have "5 - (writes_left s - 1) = Suc (5 - writes_left s)" using pipe_write(2) i unfolding pipe_inv_def by linarith
    moreover have "concat (prints s) @ pipe_data s @ pipe_msg = concat (replicate (Suc (5 - writes_left s)) pipe_msg)"
      using i snoc by (metis append.assoc pipe_inv_def)
    moreover have "pipe_data s @ pipe_msg = concat (replicate (Suc k) pipe_msg)" using k(1) snoc by simp
    moreover have "length (prints s) + Suc k + (writes_left s - 1) \<le> 5" using k(2) pipe_write(2) by simp
    ultimately show ?thesis using i pipe_write unfolding pipe_inv_def child_write_def
      by (intro conjI exI [of _ "Suc k"]) auto
  next
    case pipe_read
    show ?thesis
    proof (cases "pipe_data s = []")
      case True
      with pipe_read i show ?thesis by (auto simp: father_read_def pipe_inv_def split: if_splits)
    next
      case False
      then have "k \<noteq> 0" using k(1) by (cases k) auto
      have all: "take 1023 (pipe_data s) = pipe_data s" "drop 1023 (pipe_data s) = []"
        using k replicate_msg_length [of k] by simp_all
      have t: "t = s\<lparr>prints := prints s @ [pipe_data s], pipe_data := [], reads_left := reads_left s - 1\<rparr>"
        using pipe_read(2) False all by (simp add: father_read_def)
      have "\<not> father_failed s" "reads_left s + length (prints s) = 5" "writes_left s \<le> 5"
        "concat (prints s) @ pipe_data s = concat (replicate (5 - writes_left s) pipe_msg)"
        "\<forall>m\<in>set (prints s). \<exists>k. 1 \<le> k \<and> m = concat (replicate k pipe_msg)"
        using i pipe_read(1) by (auto simp: pipe_inv_def)
      moreover have "\<exists>j. 1 \<le> j \<and> pipe_data s = concat (replicate j pipe_msg)"
        using k(1) \<open>k \<noteq> 0\<close> by (intro exI [of _ k]) simp
      moreover have "length (prints s) + 1 + writes_left s \<le> 5" using k(2) \<open>k \<noteq> 0\<close> by simp
      ultimately show ?thesis using pipe_read(1) unfolding pipe_inv_def t
        by (intro conjI exI [of _ 0]) auto
    qed
  qed
qed

interpretation pipe: invariant_system pipe_init pipe_step pipe_inv
  by unfold_locales (simp add: pipe_init_def pipe_inv_def, fact pipe_inv_step)

text \<open>
  What the father prints is whole messages in order, nothing lost; but it reports an error exactly when it
  has been told everything in fewer than five reads.
\<close>

theorem pipe_father_prints:
  assumes "reach pipe_init pipe_step s" "reads_left s = 0"
  shows "concat (prints s) @ pipe_data s = concat (replicate (5 - writes_left s) pipe_msg)
    \<and> (father_failed s \<longleftrightarrow> length (prints s) < 5) \<and> (father_failed s \<longrightarrow> pipe_data s = [] \<and> writes_left s = 0)"
  using pipe.invariant [OF assms(1)] assms(2) by (auto simp: pipe_inv_def)

text \<open>
  The named pipe: a message is sent with a null byte in place of its newline, and the client prints what it has
  read up to the first null byte.
\<close>

definition fifo_send :: "string \<Rightarrow> string" where
  "fifo_send line = butlast line @ [CHR 0x00]"

definition fifo_print :: "string \<Rightarrow> string" where
  "fifo_print buf = takeWhile (\<lambda>c. c \<noteq> CHR 0x00) (take 1023 buf)"

theorem fifo_one_message:
  assumes "CHR 0x00 \<notin> set text" "length text < 1023"
  shows "fifo_print (fifo_send (text @ [c]) @ later) = text"
proof -
  obtain n where n: "1023 - length text = Suc n" using assms(2) by (metis Suc_diff_Suc diff_Suc_1 less_imp_Suc_add)
  have "fifo_print (fifo_send (text @ [c]) @ later) = takeWhile (\<lambda>c. c \<noteq> CHR 0x00) (text @ CHR 0x00 # take n later)"
    using assms(2) by (simp add: fifo_print_def fifo_send_def n)
  also have "\<dots> = text" using assms(1) by (subst takeWhile_append2) auto
  finally show ?thesis .
qed

end
