(* ===== verification/Edge_Readers.thy ===== *)
theory Edge_Readers
  imports Transition Prelude
begin

text \<open>
  The edge-triggered readers of \<^verbatim>\<open>src/Linux_Net/concurrent/moreIO_concurrent/epoll_ET_LT\<close>: \<^verbatim>\<open>1-epoll\<close> on a pipe
  and \<^verbatim>\<open>2-block_epoll\<close> on a connection read five bytes at each event; \<^verbatim>\<open>3-noblock_epoll\<close> reads until nothing is
  left. With \<open>EPOLLET\<close> an event is reported when something has arrived since the last one, however much is
  still unread.
\<close>

section \<open>The descriptor\<close>

text \<open>\<open>arrived\<close> and \<open>arrivals\<close> record what has come in and how often.\<close>

record edge =
  unread :: string
  ready :: bool
  shown :: string
  arrived :: string
  arrivals :: nat

definition arrive :: "string \<Rightarrow> edge \<Rightarrow> edge" where
  "arrive s e = e\<lparr>unread := unread e @ s, ready := True, arrived := arrived e @ s, arrivals := arrivals e + 1\<rparr>"

text \<open>\<open>MAXLINE / 2\<close>.\<close>

definition CHUNK :: nat where
  "CHUNK = 10 div 2"

text \<open>\<open>read\<close> of up to five bytes, written to the standard output.\<close>

definition read_once :: "edge \<Rightarrow> edge" where
  "read_once e = e\<lparr>shown := shown e @ take CHUNK (unread e), unread := drop CHUNK (unread e)\<rparr>"

function read_until_again :: "edge \<Rightarrow> edge" where
  "read_until_again e = (if unread e = [] then e else read_until_again (read_once e))"
  by pat_completeness auto
termination
  by (relation "measure (\<lambda>e. length (unread e))") (auto simp: read_once_def CHUNK_def)

declare read_until_again.simps [simp del]

text \<open>One round of the loops: \<open>epoll_wait\<close> returns when the descriptor is ready.\<close>

definition short_round :: "edge \<Rightarrow> edge" where
  "short_round e = read_once (e\<lparr>ready := False\<rparr>)"

definition drain_round :: "edge \<Rightarrow> edge" where
  "drain_round e = read_until_again (e\<lparr>ready := False\<rparr>)"

inductive edge_step :: "(edge \<Rightarrow> edge) \<Rightarrow> (string \<Rightarrow> bool) \<Rightarrow> edge \<Rightarrow> edge \<Rightarrow> bool" for round sends where
  edge_arrive: "sends s \<Longrightarrow> edge_step round sends e (arrive s e)"
| edge_event: "ready e \<Longrightarrow> edge_step round sends e (round e)"

text \<open>Nothing has been sent when the descriptor is put into the set.\<close>

definition edge_init :: "edge \<Rightarrow> bool" where
  "edge_init e \<longleftrightarrow> e = \<lparr>unread = [], ready = False, shown = [], arrived = [], arrivals = 0\<rparr>"

text \<open>What the child of \<^verbatim>\<open>1-epoll\<close> writes each time: two lines of four letters.\<close>

definition child_line :: "nat \<Rightarrow> string" where
  "child_line ch = replicate 4 (char_of ch) @ [CHR 0x0A]"

definition child_chunk :: "nat \<Rightarrow> string" where
  "child_chunk ch = child_line ch @ child_line (ch + 1)"

section \<open>Reading too little, and reading all\<close>

lemma read_until_again_all:
  "read_until_again e = e\<lparr>shown := shown e @ unread e, unread := []\<rparr>"
proof (induction e rule: read_until_again.induct)
  case (1 e)
  show ?case
  proof (cases "unread e = []")
    case True
    then show ?thesis by (simp add: read_until_again.simps [of e])
  next
    case False
    with 1 show ?thesis by (simp add: read_until_again.simps [of e] read_once_def)
  qed
qed

definition short_inv :: "edge \<Rightarrow> bool" where
  "short_inv e \<longleftrightarrow> shown e @ unread e = arrived e \<and> length (shown e) + (if ready e then CHUNK else 0) \<le> CHUNK * arrivals e"

definition drain_inv :: "edge \<Rightarrow> bool" where
  "drain_inv e \<longleftrightarrow> shown e @ unread e = arrived e \<and> (\<not> ready e \<longrightarrow> unread e = [])"

interpretation short_reader: invariant_system edge_init "edge_step short_round sends" short_inv for sends
proof unfold_locales
  show "short_inv e" if "edge_init e" for e using that by (simp add: edge_init_def short_inv_def)
  show "short_inv t" if "short_inv e" "edge_step short_round sends e t" for e t
    using that(2,1) by (cases rule: edge_step.cases)
      (auto simp: short_inv_def arrive_def short_round_def read_once_def algebra_simps split: if_splits)
qed

interpretation drain_reader: invariant_system edge_init "edge_step drain_round sends" drain_inv for sends
proof unfold_locales
  show "drain_inv e" if "edge_init e" for e using that by (simp add: edge_init_def drain_inv_def)
  show "drain_inv t" if "drain_inv e" "edge_step drain_round sends e t" for e t
    using that(2,1) by (cases rule: edge_step.cases) (auto simp: drain_inv_def arrive_def drain_round_def read_until_again_all)
qed

lemma written_length:
  assumes "reach edge_init (edge_step round (\<lambda>s. \<exists>ch. s = child_chunk ch)) e"
    and "\<And>e. arrived (round e) = arrived e \<and> arrivals (round e) = arrivals e"
  shows "length (arrived e) = 2 * CHUNK * arrivals e"
  using assms(1)
proof (induction rule: reach.induct)
  case (reach_step e t)
  from reach_step(2,3) show ?case
    by (cases rule: edge_step.cases) (auto simp: arrive_def child_chunk_def child_line_def CHUNK_def assms(2))
qed (simp add: edge_init_def)

text \<open>
  The readers that take five bytes at each event show nothing wrong, but fall behind: of \<open>n\<close> chunks of ten
  bytes, five bytes each are still unread however long they wait. The reader that reads until nothing is left
  has shown everything whenever it waits.
\<close>

theorem short_reader_falls_behind:
  assumes "reach edge_init (edge_step short_round (\<lambda>s. \<exists>ch. s = child_chunk ch)) e"
  shows "shown e @ unread e = arrived e \<and> CHUNK * arrivals e \<le> length (unread e)"
proof -
  have i: "short_inv e" using assms by (rule short_reader.invariant)
  have "length (arrived e) = 2 * CHUNK * arrivals e"
    by (rule written_length [OF assms]) (simp add: short_round_def read_once_def)
  moreover have "length (arrived e) = length (shown e) + length (unread e)"
    using i by (simp add: short_inv_def flip: length_append)
  ultimately show ?thesis using i by (auto simp: short_inv_def split: if_splits)
qed

theorem drain_reader_shows_all:
  "reach edge_init (edge_step drain_round sends) e \<Longrightarrow> \<not> ready e \<Longrightarrow> shown e = arrived e"
  using drain_reader.invariant [of sends e] by (auto simp: drain_inv_def)

end
