(* ===== verification/Singletons.thy ===== *)
theory Singletons
  imports Transition
begin

text \<open>
  The singletons: \<open>Singleton\<close> of \<^verbatim>\<open>src/Singleton/Singleton.h\<close>, which tests, locks and tests again;
  \<open>SingleTon\<close> of \<^verbatim>\<open>src/ad_system/common/singleton.h\<close> and the lazy class of
  \<^verbatim>\<open>Singleton_Pattern_by_fjp.cpp\<close>, which only test; and the eager class of that file, whose instance is
  there before \<open>main\<close>. Threads call \<open>GetInstance\<close> and interleave at every access to the pointer.
\<close>

datatype get_phase = Test1 | Lock | Test2 | Make | Assign nat | Unlock | Ret | Done "nat option"

text \<open>\<open>instance\<close> is the static pointer; objects are numbered in the order of their construction.\<close>

record singleton =
  instance_ptr :: "nat option"
  holder :: "nat option"
  constructed :: nat
  threads :: "nat \<Rightarrow> get_phase"

definition at :: "nat \<Rightarrow> get_phase \<Rightarrow> singleton \<Rightarrow> singleton" where
  "at i ph s = s\<lparr>threads := (threads s)(i := ph)\<rparr>"

text \<open>The next access of thread \<open>i\<close> in \<open>Singleton::GetInstance\<close>; \<open>None\<close> while it waits for the lock.\<close>

definition locked_act :: "nat \<Rightarrow> singleton \<Rightarrow> singleton option" where
  "locked_act i s =
     (case threads s i of
        Test1 \<Rightarrow> Some (at i (if instance_ptr s = None then Lock else Ret) s)
      | Lock \<Rightarrow> if holder s = None then Some (at i Test2 (s\<lparr>holder := Some i\<rparr>)) else None
      | Test2 \<Rightarrow> Some (at i (if instance_ptr s = None then Make else Unlock) s)
      | Make \<Rightarrow> Some (at i (Assign (constructed s)) (s\<lparr>constructed := constructed s + 1\<rparr>))
      | Assign k \<Rightarrow> Some (at i Unlock (s\<lparr>instance_ptr := Some k\<rparr>))
      | Unlock \<Rightarrow> Some (at i Ret (s\<lparr>holder := None\<rparr>))
      | Ret \<Rightarrow> Some (at i (Done (instance_ptr s)) s)
      | Done p \<Rightarrow> Some (at i Test1 s))"

text \<open>\<open>SingleTon::Instance\<close> and the lazy \<open>getInstance\<close>.\<close>

definition unlocked_act :: "nat \<Rightarrow> singleton \<Rightarrow> singleton option" where
  "unlocked_act i s =
     (case threads s i of
        Test1 \<Rightarrow> Some (at i (if instance_ptr s = None then Make else Ret) s)
      | Make \<Rightarrow> Some (at i (Assign (constructed s)) (s\<lparr>constructed := constructed s + 1\<rparr>))
      | Assign k \<Rightarrow> Some (at i Ret (s\<lparr>instance_ptr := Some k\<rparr>))
      | Ret \<Rightarrow> Some (at i (Done (instance_ptr s)) s)
      | Done p \<Rightarrow> Some (at i Test1 s)
      | _ \<Rightarrow> None)"

text \<open>The eager \<open>getInstance\<close>.\<close>

definition eager_act :: "nat \<Rightarrow> singleton \<Rightarrow> singleton option" where
  "eager_act i s = Some (at i (Done (instance_ptr s)) s)"

inductive get_step :: "(nat \<Rightarrow> singleton \<Rightarrow> singleton option) \<Rightarrow> singleton \<Rightarrow> singleton \<Rightarrow> bool" for act where
  get_stepI: "act i s = Some t \<Longrightarrow> get_step act s t"

definition no_instance :: singleton where
  "no_instance = \<lparr>instance_ptr = None, holder = None, constructed = 0, threads = (\<lambda>_. Test1)\<rparr>"

definition eager_instance :: singleton where
  "eager_instance = no_instance\<lparr>instance_ptr := Some 0, constructed := 1\<rparr>"

text \<open>\<open>DesInstance\<close>, which no program calls.\<close>

definition DesInstance :: "singleton \<Rightarrow> singleton" where
  "DesInstance s = (if instance_ptr s \<noteq> None then s\<lparr>instance_ptr := None\<rparr> else s)"

section \<open>One instance under the lock\<close>

text \<open>What each thread knows at its next access, and what holds of the pointer and of the number of objects.\<close>

fun knows :: "singleton \<Rightarrow> nat \<Rightarrow> get_phase \<Rightarrow> bool" where
  "knows s i Test1 \<longleftrightarrow> holder s \<noteq> Some i"
| "knows s i Lock \<longleftrightarrow> holder s \<noteq> Some i"
| "knows s i Test2 \<longleftrightarrow> holder s = Some i"
| "knows s i Make \<longleftrightarrow> holder s = Some i \<and> instance_ptr s = None \<and> constructed s = 0"
| "knows s i (Assign k) \<longleftrightarrow> holder s = Some i \<and> instance_ptr s = None \<and> constructed s = 1 \<and> k = 0"
| "knows s i Unlock \<longleftrightarrow> holder s = Some i \<and> instance_ptr s = Some 0"
| "knows s i Ret \<longleftrightarrow> holder s \<noteq> Some i \<and> instance_ptr s = Some 0"
| "knows s i (Done p) \<longleftrightarrow> holder s \<noteq> Some i \<and> p = Some 0"

definition counted :: "singleton \<Rightarrow> bool" where
  "counted s \<longleftrightarrow>
     (case instance_ptr s of
        Some k \<Rightarrow> k = 0 \<and> constructed s = 1
      | None \<Rightarrow> constructed s = 0
          \<or> constructed s = 1 \<and> (case holder s of None \<Rightarrow> False | Some i \<Rightarrow> threads s i = Assign 0))"

definition one_inv :: "singleton \<Rightarrow> bool" where
  "one_inv s \<longleftrightarrow> (\<forall>i. knows s i (threads s i)) \<and> counted s"

lemma knows_act:
  assumes "locked_act i s = Some t" "knows s i (threads s i)" "counted s" "knows s j (threads s j)"
  shows "knows t j (threads t j)"
proof (cases "j = i")
  case True
  with assms(1-3) show ?thesis
    by (cases "threads s i"; cases "instance_ptr s")
       (simp_all add: locked_act_def at_def counted_def split: if_splits, auto)
next
  case False
  with assms(1) have "threads t j = threads s j"
    by (cases "threads s i") (simp_all add: locked_act_def at_def split: if_splits, auto)
  with False assms show ?thesis
    by (cases "threads s i"; cases "threads s j") (auto simp: locked_act_def at_def split: if_splits)
qed

lemma counted_act:
  "locked_act i s = Some t \<Longrightarrow> knows s i (threads s i) \<Longrightarrow> counted s \<Longrightarrow> counted t"
  by (cases "threads s i") (auto simp: locked_act_def at_def counted_def split: if_splits option.splits)

lemma one_inv_act: "one_inv s \<Longrightarrow> locked_act i s = Some t \<Longrightarrow> one_inv t"
  unfolding one_inv_def by (blast intro: knows_act counted_act)

interpretation double_checked: invariant_system "\<lambda>s. s = no_instance" "get_step locked_act" one_inv
proof unfold_locales
  show "one_inv s" if "s = no_instance" for s using that by (simp add: one_inv_def counted_def no_instance_def)
  show "one_inv t" if "one_inv s" "get_step locked_act s t" for s t
    using that(2,1) by (cases rule: get_step.cases) (metis one_inv_act)
qed

text \<open>
  However many threads ask for the instance and however they interleave, the class that tests, locks and tests
  again constructs at most one object, and every call returns that object.
\<close>

theorem one_instance:
  assumes "reach (\<lambda>s. s = no_instance) (get_step locked_act) s"
  shows "constructed s \<le> 1 \<and> (\<forall>i p. threads s i = Done p \<longrightarrow> p = Some 0)"
proof -
  have inv: "one_inv s" using double_checked.invariant [OF assms] .
  then have "p = Some 0" if "threads s i = Done p" for i p using that by (metis one_inv_def knows.simps(8))
  with inv show ?thesis by (auto simp: one_inv_def counted_def split: option.splits)
qed

text \<open>The same for the eager class, which constructs its object in time.\<close>

lemma eager_instance_once:
  "reach (\<lambda>s. s = eager_instance) (get_step eager_act) s \<Longrightarrow>
   constructed s = 1 \<and> instance_ptr s = Some 0 \<and> (\<forall>i p. threads s i = Done p \<longrightarrow> p = Some 0)"
proof (induction rule: reach.induct)
  case (reach_step s t)
  from reach_step(2,3) show ?case by (cases rule: get_step.cases) (auto simp: eager_act_def at_def split: if_splits)
qed (simp add: eager_instance_def no_instance_def)

section \<open>Two instances without it\<close>

text \<open>A run is a list of the threads that act.\<close>

definition get_run :: "(nat \<Rightarrow> singleton \<Rightarrow> singleton option) \<Rightarrow> nat list \<Rightarrow> singleton \<Rightarrow> singleton option" where
  "get_run act is s = fold (\<lambda>i so. Option.bind so (act i)) is (Some s)"

lemma get_run_reach: "get_run act is s0 = Some s \<Longrightarrow> reach (\<lambda>s. s = s0) (get_step act) s"
proof (induction "is" arbitrary: s rule: rev_induct)
  case Nil
  then show ?case by (simp add: get_run_def reach.reach_init)
next
  case (snoc i "is")
  then obtain u where "get_run act is s0 = Some u" "act i u = Some s"
    by (auto simp: get_run_def split: bind_splits)
  with snoc.IH show ?case by (metis reach.reach_step get_stepI)
qed

text \<open>Two threads that both find the pointer null each construct an object, and are given different ones.\<close>

theorem two_instances:
  "\<exists>s. reach (\<lambda>s. s = no_instance) (get_step unlocked_act) s \<and> constructed s = 2
     \<and> threads s 0 = Done (Some 0) \<and> threads s 1 = Done (Some 1)"
proof -
  have "\<exists>s. get_run unlocked_act [0, 1, 0, 0, 0, 1, 1, 1] no_instance = Some s \<and> constructed s = 2
      \<and> threads s 0 = Done (Some 0) \<and> threads s 1 = Done (Some 1)"
    by (simp add: get_run_def unlocked_act_def at_def no_instance_def)
  then show ?thesis using get_run_reach by blast
qed

text \<open>In the class with the lock, the first test still reads the pointer while another thread may assign it.\<close>

lemma unguarded_read:
  "\<exists>s. reach (\<lambda>s. s = no_instance) (get_step locked_act) s \<and> threads s 0 = Assign 0 \<and> threads s 1 = Test1"
proof -
  have "\<exists>s. get_run locked_act [0, 0, 0, 0] no_instance = Some s \<and> threads s 0 = Assign 0 \<and> threads s 1 = Test1"
    by (simp add: get_run_def locked_act_def at_def no_instance_def)
  then show ?thesis using get_run_reach by blast
qed

end
