(* ===== verification/Timers.thy ===== *)
theory Timers
  imports Transition
begin

text \<open>
  The timer programs of \<^verbatim>\<open>src/boost/time3.*\<close>, \<^verbatim>\<open>time4.*\<close> and \<^verbatim>\<open>time5.*\<close>. A \<open>steady_timer\<close> has an expiry, in
  seconds after the start of the program, and a wait on it calls its handler once, not before the expiry.
  The last program runs the handlers of two timers on two threads, through a strand.
\<close>

section \<open>One timer\<close>

record ticker =
  expiry :: nat
  pending :: bool
  ticks :: nat
  told :: "nat list"

definition new_ticker :: ticker where
  "new_ticker = \<lparr>expiry = 1, pending = True, ticks = 0, told = []\<rparr>"

definition tick_print :: "ticker \<Rightarrow> ticker" where
  "tick_print t =
     (if ticks t < 5
      then t\<lparr>told := told t @ [ticks t], ticks := ticks t + 1, expiry := expiry t + 1, pending := True\<rparr>
      else t)"

text \<open>\<open>run\<close> returns when nothing is waited for; the result has the second in which it returns.\<close>

function ticker_run :: "nat \<Rightarrow> ticker \<Rightarrow> nat \<times> ticker" where
  "ticker_run now t =
     (if pending t then ticker_run (max now (expiry t)) (tick_print (t\<lparr>pending := False\<rparr>)) else (now, t))"
  by pat_completeness auto
termination
  by (relation "measure (\<lambda>(now, t). if pending t then 6 - min 5 (ticks t) else 0)")
     (auto simp: tick_print_def min_def)

declare ticker_run.simps [simp del]

text \<open>The counts are printed in order, one each second, and the sixth wait prints nothing.\<close>

lemma ticker_run_tells:
  "pending t \<Longrightarrow> ticks t \<le> 5 \<Longrightarrow> now \<le> expiry t \<Longrightarrow>
   ticker_run now t = (expiry t + (5 - ticks t),
     \<lparr>expiry = expiry t + (5 - ticks t), pending = False, ticks = 5, told = told t @ [ticks t..<5]\<rparr>)"
proof (induction now t rule: ticker_run.induct)
  case (1 now t)
  show ?case
  proof (cases "ticks t < 5")
    case True
    let ?t = "tick_print (t\<lparr>pending := False\<rparr>)"
    have t: "pending ?t" "ticks ?t = ticks t + 1" "expiry ?t = expiry t + 1" "told ?t = told t @ [ticks t]"
      using True by (simp_all add: tick_print_def)
    have "ticker_run now t = ticker_run (max now (expiry t)) ?t" using "1.prems"(1) by (simp add: ticker_run.simps [of now t])
    with "1.IH" t True "1.prems" show ?thesis by (simp add: upt_conv_Cons)
  next
    case False
    with "1.prems" have "ticks t = 5" by simp
    with "1.prems" show ?thesis
      by (simp add: ticker_run.simps [of now t] ticker_run.simps [of "expiry t"] tick_print_def max_def)
  qed
qed

lemma new_ticker_run: "ticker_run 0 new_ticker = (6, \<lparr>expiry = 6, pending = False, ticks = 5, told = [0, 1, 2, 3, 4]\<rparr>)"
  using ticker_run_tells [of new_ticker 0] by (simp add: new_ticker_def upt_rec)

section \<open>Two timers, two threads and a strand\<close>

text \<open>
  What a thread in \<open>run\<close> is about to do, with the timer whose handler it runs: test the count, print it,
  increment it, wait again, or leave the handler.
\<close>

datatype timer_phase = Idle | Test nat | Print nat | Incr nat | Rearm nat | Leave | Gone

text \<open>An entry of \<open>shown\<close> has the timer, the count and the second. The threads are 0 and 1, the timers 1 and 2.\<close>

record printer =
  strand :: "nat option"
  cnt :: nat
  now :: nat
  texp :: "nat \<Rightarrow> nat"
  waits :: "nat \<Rightarrow> bool"
  shown :: "(nat \<times> nat \<times> nat) list"
  timer_phase :: "nat \<Rightarrow> timer_phase"

definition goes :: "nat \<Rightarrow> timer_phase \<Rightarrow> printer \<Rightarrow> printer" where
  "goes i ph s = s\<lparr>timer_phase := (timer_phase s)(i := ph)\<rparr>"

definition new_printer :: printer where
  "new_printer =
     \<lparr>strand = None, cnt = 0, now = 0, texp = (\<lambda>_. 1), waits = (\<lambda>k. k = 1 \<or> k = 2), shown = [], timer_phase = (\<lambda>_. Idle)\<rparr>"

text \<open>A thread takes the handler of an expired timer; the strand keeps a second one from starting.\<close>

definition take_handler :: "nat \<Rightarrow> nat \<Rightarrow> printer \<Rightarrow> printer option" where
  "take_handler i k s =
     (if timer_phase s i = Idle \<and> strand s = None \<and> waits s k \<and> texp s k \<le> now s
      then Some (goes i (Test k) (s\<lparr>strand := Some i, waits := (waits s)(k := False)\<rparr>)) else None)"

text \<open>The next access of \<open>print1\<close> and \<open>print2\<close>, which differ in their timer only.\<close>

definition print_act :: "nat \<Rightarrow> printer \<Rightarrow> printer option" where
  "print_act i s =
     (case timer_phase s i of
        Test k \<Rightarrow> Some (goes i (if cnt s < 10 then Print k else Leave) s)
      | Print k \<Rightarrow> Some (goes i (Incr k) (s\<lparr>shown := shown s @ [(k, cnt s, now s)]\<rparr>))
      | Incr k \<Rightarrow> Some (goes i (Rearm k) (s\<lparr>cnt := cnt s + 1\<rparr>))
      | Rearm k \<Rightarrow> Some (goes i Leave (s\<lparr>texp := (texp s)(k := texp s k + 1), waits := (waits s)(k := True)\<rparr>))
      | Leave \<Rightarrow> Some (goes i Idle (s\<lparr>strand := None\<rparr>))
      | _ \<Rightarrow> None)"

text \<open>\<open>run\<close> returns when no handler is waiting or running.\<close>

definition run_returns :: "nat \<Rightarrow> printer \<Rightarrow> printer option" where
  "run_returns i s =
     (if timer_phase s i = Idle \<and> strand s = None \<and> \<not> waits s 1 \<and> \<not> waits s 2 then Some (goes i Gone s) else None)"

inductive work_step :: "printer \<Rightarrow> printer \<Rightarrow> bool" where
  work_take: "i < 2 \<Longrightarrow> k = 1 \<or> k = 2 \<Longrightarrow> take_handler i k s = Some t \<Longrightarrow> work_step s t"
| work_print: "i < 2 \<Longrightarrow> print_act i s = Some t \<Longrightarrow> work_step s t"
| work_return: "i < 2 \<Longrightarrow> run_returns i s = Some t \<Longrightarrow> work_step s t"

inductive printer_step :: "printer \<Rightarrow> printer \<Rightarrow> bool" where
  second_passes: "printer_step s (s\<lparr>now := now s + 1\<rparr>)"
| thread_works: "work_step s t \<Longrightarrow> printer_step s t"

text \<open>The program ends when both threads have left \<open>run\<close>, after which the destructor prints \<open>cnt\<close> (\<open>count_\<close> in the code).\<close>

definition both_gone :: "printer \<Rightarrow> bool" where
  "both_gone s \<longleftrightarrow> timer_phase s 0 = Gone \<and> timer_phase s 1 = Gone"

definition prints :: "nat \<Rightarrow> printer \<Rightarrow> (nat \<times> nat \<times> nat) list" where
  "prints k s = filter (\<lambda>e. fst e = k) (shown s)"

section \<open>Ten counts\<close>

fun about :: "timer_phase \<Rightarrow> nat option" where
  "about (Test k) = Some k"
| "about (Print k) = Some k"
| "about (Incr k) = Some k"
| "about (Rearm k) = Some k"
| "about _ = None"

definition running :: "printer \<Rightarrow> timer_phase" where
  "running s = (case strand s of None \<Rightarrow> Idle | Some i \<Rightarrow> timer_phase s i)"

text \<open>The strand: a thread is in a handler exactly while it holds it.\<close>

definition strand_ok :: "printer \<Rightarrow> bool" where
  "strand_ok s \<longleftrightarrow>
     (\<forall>i. if strand s = Some i then timer_phase s i \<noteq> Idle \<and> timer_phase s i \<noteq> Gone else timer_phase s i = Idle \<or> timer_phase s i = Gone)
     \<and> (\<forall>i. timer_phase s i = Gone \<longrightarrow> strand s = None \<and> \<not> waits s 1 \<and> \<not> waits s 2)
     \<and> (\<forall>i. strand s = Some i \<longrightarrow> i < 2)"

fun counts_ok :: "printer \<Rightarrow> timer_phase \<Rightarrow> bool" where
  "counts_ok s (Print k) \<longleftrightarrow> length (shown s) = cnt s \<and> cnt s < 10"
| "counts_ok s (Incr k) \<longleftrightarrow> length (shown s) = cnt s + 1 \<and> cnt s < 10"
| "counts_ok s _ \<longleftrightarrow> length (shown s) = cnt s"

definition printer_ok :: "printer \<Rightarrow> bool" where
  "printer_ok s \<longleftrightarrow>
     strand_ok s \<and> counts_ok s (running s) \<and> cnt s \<le> 10
     \<and> map (fst \<circ> snd) (shown s) = [0..<length (shown s)]
     \<and> (cnt s < 10 \<longrightarrow> (\<forall>k. k = 1 \<or> k = 2 \<longrightarrow> waits s k \<or> about (running s) = Some k))"

lemma goes_simps [simp]:
  "strand (goes i ph s) = strand s" "cnt (goes i ph s) = cnt s" "now (goes i ph s) = now s"
  "texp (goes i ph s) = texp s" "waits (goes i ph s) = waits s" "shown (goes i ph s) = shown s"
  "timer_phase (goes i ph s) = (timer_phase s)(i := ph)"
  by (simp_all add: goes_def)

lemma strand_ok_take: "strand_ok s \<Longrightarrow> take_handler i k s = Some t \<Longrightarrow> k = 1 \<or> k = 2 \<Longrightarrow> i < 2 \<Longrightarrow> strand_ok t"
  unfolding strand_ok_def take_handler_def by (fastforce split: if_splits)

lemma strand_ok_holder: "strand_ok s \<Longrightarrow> timer_phase s i \<noteq> Idle \<Longrightarrow> timer_phase s i \<noteq> Gone \<Longrightarrow> strand s = Some i"
  unfolding strand_ok_def by (metis (full_types))

lemma strand_ok_print:
  assumes ok: "strand_ok s" and a: "print_act i s = Some t"
  shows "strand_ok t"
proof -
  have h: "strand s = Some i" using a strand_ok_holder [OF ok, of i] by (cases "timer_phase s i") (auto simp: print_act_def)
  then have others: "timer_phase s j = Idle" if "j \<noteq> i" for j
    using ok that unfolding strand_ok_def by (metis option.distinct(1) option.inject)
  have "i < 2" using ok h by (simp add: strand_ok_def)
  with a h others show ?thesis
    by (cases "timer_phase s i") (auto simp: print_act_def strand_ok_def split: if_splits)
qed

lemma printer_ok_print:
  assumes ok: "printer_ok s" and a: "print_act i s = Some t"
  shows "printer_ok t"
proof -
  have sok: "strand_ok s" using ok by (simp add: printer_ok_def)
  have h: "strand s = Some i" using a strand_ok_holder [OF sok, of i] by (cases "timer_phase s i") (auto simp: print_act_def)
  then have r: "running s = timer_phase s i" by (simp add: running_def)
  have "strand_ok t" using strand_ok_print [OF sok a] .
  with ok a h r show ?thesis
    by (cases "timer_phase s i") (auto simp: print_act_def printer_ok_def running_def split: if_splits)
qed

lemma printer_ok_step:
  assumes ok: "printer_ok s" and st: "printer_step s t"
  shows "printer_ok t"
  using st
proof cases
  case second_passes
  have "counts_ok (s\<lparr>now := now s + 1\<rparr>) ph = counts_ok s ph" for ph by (cases ph) auto
  with ok second_passes show ?thesis by (simp add: printer_ok_def strand_ok_def running_def cong: option.case_cong)
next
  case thread_works
  then show ?thesis
  proof cases
    case (work_take i k)
    have "strand_ok t" using strand_ok_take [OF _ work_take(3,2,1)] ok by (simp add: printer_ok_def)
    with ok work_take show ?thesis by (auto simp: take_handler_def printer_ok_def running_def split: if_splits)
  next
    case (work_print i)
    then show ?thesis using printer_ok_print [OF ok] by blast
  next
    case (work_return i)
    then have t: "t = goes i Gone s" "timer_phase s i = Idle" "strand s = None" "\<not> waits s 1" "\<not> waits s 2"
      by (auto simp: run_returns_def split: if_splits)
    from ok t show ?thesis by (auto simp: printer_ok_def strand_ok_def running_def)
  qed
qed

interpretation printer: invariant_system "\<lambda>s. s = new_printer" printer_step printer_ok
proof unfold_locales
  show "printer_ok s" if "s = new_printer" for s
    using that by (auto simp: printer_ok_def new_printer_def strand_ok_def running_def)
  show "printer_ok t" if "printer_ok s" "printer_step s t" for s t using that by (rule printer_ok_step)
qed

section \<open>The program ends\<close>

fun phase_weight :: "timer_phase \<Rightarrow> nat" where
  "phase_weight (Test k) = 4"
| "phase_weight (Print k) = 3"
| "phase_weight (Incr k) = 2"
| "phase_weight (Rearm k) = 7"
| "phase_weight Leave = 2"
| "phase_weight Idle = 1"
| "phase_weight Gone = 0"

definition work_left :: "printer \<Rightarrow> nat" where
  "work_left s =
     6 * (10 - cnt s) + (if waits s 1 then 4 else 0) + (if waits s 2 then 4 else 0)
     + phase_weight (timer_phase s 0) + phase_weight (timer_phase s 1)"

text \<open>There is an end to the work: whatever a thread does, less of it is left.\<close>

lemma printer_work_decreases:
  assumes ok: "printer_ok s" and st: "work_step s t"
  shows "work_left t < work_left s"
  using st
proof cases
  case (work_take i k)
  moreover have "i = 0 \<or> i = 1" using work_take(1) by auto
  ultimately show ?thesis by (auto simp: take_handler_def work_left_def split: if_splits)
next
  case (work_print i)
  have h: "strand s = Some i"
    using work_print(2) strand_ok_holder [of s i] ok by (cases "timer_phase s i") (auto simp: print_act_def printer_ok_def)
  then have c: "counts_ok s (timer_phase s i)" using ok by (simp add: printer_ok_def running_def)
  have "i = 0 \<or> i = 1" using work_print(1) by auto
  then show ?thesis
    using work_print(2) c by (cases "timer_phase s i") (auto simp: print_act_def work_left_def split: if_splits)
next
  case (work_return i)
  then have "i = 0 \<or> i = 1" by auto
  with work_return show ?thesis by (auto simp: run_returns_def work_left_def split: if_splits)
qed

lemma time_passes: "steps printer_step s (s\<lparr>now := now s + n\<rparr>)"
proof (induction n)
  case 0
  then show ?case by (simp add: steps.steps_refl)
next
  case (Suc n)
  have "printer_step (s\<lparr>now := now s + n\<rparr>) (s\<lparr>now := now s + Suc n\<rparr>)"
    using second_passes [of "s\<lparr>now := now s + n\<rparr>"] by simp
  with Suc show ?case by (rule steps.steps_step)
qed

lemma work_goes_on:
  assumes ok: "printer_ok s" and n: "\<not> both_gone s"
  shows "\<exists>t. steps printer_step s t \<and> work_left t < work_left s"
proof -
  have one: "\<exists>t. steps printer_step s t \<and> work_left t < work_left s" if "work_step s t" for t
    using that printer_work_decreases [OF ok that] by (meson thread_works steps.intros)
  have sok: "strand_ok s" using ok by (simp add: printer_ok_def)
  show ?thesis
  proof (cases "strand s")
    case (Some i)
    with sok have "i < 2" "timer_phase s i \<noteq> Idle" "timer_phase s i \<noteq> Gone" by (auto simp: strand_ok_def)
    then have "\<exists>t. i < 2 \<and> print_act i s = Some t" by (cases "timer_phase s i") (auto simp: print_act_def)
    then show ?thesis using one work_print by blast
  next
    case None
    with sok have "timer_phase s j = Idle \<or> timer_phase s j = Gone" for j by (auto simp: strand_ok_def)
    then obtain i where i: "i < 2" "timer_phase s i = Idle"
      using n by (metis both_gone_def less_2_cases_iff One_nat_def)
    show ?thesis
    proof (cases "waits s 1 \<or> waits s 2")
      case True
      then obtain k where k: "k = 1 \<or> k = 2" "waits s k" by blast
      define u where "u = s\<lparr>now := now s + texp s k\<rparr>"
      have "printer_ok u" using printer.invariant_steps [OF time_passes ok] by (simp add: u_def)
      moreover have "take_handler i k u = Some (goes i (Test k) (u\<lparr>strand := Some i, waits := (waits u)(k := False)\<rparr>))"
        using i k None by (simp add: take_handler_def u_def)
      then have w: "work_step u (goes i (Test k) (u\<lparr>strand := Some i, waits := (waits u)(k := False)\<rparr>))"
        using i(1) k(1) by (rule work_take [rotated 2])
      ultimately have "work_left (goes i (Test k) (u\<lparr>strand := Some i, waits := (waits u)(k := False)\<rparr>)) < work_left u"
        by (rule printer_work_decreases)
      moreover have "work_left u = work_left s" by (simp add: u_def work_left_def)
      moreover have "steps printer_step s u" unfolding u_def by (rule time_passes)
      ultimately show ?thesis using w by (metis steps.steps_step thread_works)
    next
      case False
      with i None have "run_returns i s = Some (goes i Gone s)" by (simp add: run_returns_def)
      then show ?thesis using one work_return i(1) by blast
    qed
  qed
qed

lemma printer_ends: "printer_ok s \<Longrightarrow> \<exists>t. steps printer_step s t \<and> both_gone t"
proof (induction "work_left s" arbitrary: s rule: less_induct)
  case less
  show ?case
  proof (cases "both_gone s")
    case True
    then show ?thesis by (intro exI conjI) (rule steps.steps_refl)
  next
    case False
    with work_goes_on less.prems obtain u where u: "steps printer_step s u" "work_left u < work_left s" by blast
    have "printer_ok u" using printer.invariant_steps [OF u(1) less.prems] .
    from less.hyps [OF u(2) this] obtain t where t: "steps printer_step u t" "both_gone t" by blast
    have "steps printer_step s t" using steps_trans [OF t(1) u(1)] .
    with t(2) show ?thesis by blast
  qed
qed

section \<open>No print comes early\<close>

definition behind :: "nat \<Rightarrow> timer_phase \<Rightarrow> nat" where
  "behind k ph = (if ph = Incr k \<or> ph = Rearm k then 1 else 0)"

definition on_time :: "nat \<Rightarrow> printer \<Rightarrow> bool" where
  "on_time k s \<longleftrightarrow>
     (\<forall>j < length (prints k s). j + 1 \<le> snd (snd (prints k s ! j)))
     \<and> texp s k + behind k (running s) = 1 + length (prints k s)
     \<and> (running s = Test k \<or> running s = Print k \<longrightarrow> texp s k \<le> now s)"

lemma prints_cong [simp]:
  "prints k (goes i ph s) = prints k s" "prints k (s\<lparr>cnt := c\<rparr>) = prints k s" "prints k (s\<lparr>strand := x\<rparr>) = prints k s"
  "prints k (s\<lparr>texp := e\<rparr>) = prints k s" "prints k (s\<lparr>waits := w\<rparr>) = prints k s" "prints k (s\<lparr>now := m\<rparr>) = prints k s"
  by (simp_all add: prints_def)

lemma on_time_print:
  assumes ok: "printer_ok s" and t: "on_time k s" and a: "print_act i s = Some t"
  shows "on_time k t"
proof -
  have sok: "strand_ok s" using ok by (simp add: printer_ok_def)
  have h: "strand s = Some i" using a strand_ok_holder [OF sok, of i] by (cases "timer_phase s i") (auto simp: print_act_def)
  then have r: "running s = timer_phase s i" by (simp add: running_def)
  have rt: "running t = timer_phase t i" if "strand t = Some i" using that by (simp add: running_def)
  show ?thesis
  proof (cases "timer_phase s i")
    case (Test l)
    with a h have "t = goes i (if cnt s < 10 then Print l else Leave) s" by (simp add: print_act_def)
    with t r rt h Test show ?thesis by (simp add: on_time_def behind_def split: if_splits)
  next
    case (Print l)
    with a have t': "t = goes i (Incr l) (s\<lparr>shown := shown s @ [(l, cnt s, now s)]\<rparr>)" by (simp add: print_act_def)
    then have p: "prints k t = prints k s @ (if l = k then [(l, cnt s, now s)] else [])" by (simp add: prints_def)
    show ?thesis
    proof (cases "l = k")
      case True
      with t r Print have "1 + length (prints k s) \<le> now s" "texp s k = 1 + length (prints k s)"
        by (simp_all add: on_time_def behind_def)
      with t t' rt h p True show ?thesis
        by (simp add: on_time_def behind_def nth_append less_Suc_eq all_conj_distrib imp_conjR)
    next
      case False
      with t t' rt r h p Print show ?thesis by (simp add: on_time_def behind_def)
    qed
  next
    case (Incr l)
    with a have "t = goes i (Rearm l) (s\<lparr>cnt := cnt s + 1\<rparr>)" by (simp add: print_act_def)
    with t r rt h Incr show ?thesis by (simp add: on_time_def behind_def split: if_splits)
  next
    case (Rearm l)
    with a have "t = goes i Leave (s\<lparr>texp := (texp s)(l := texp s l + 1), waits := (waits s)(l := True)\<rparr>)"
      by (simp add: print_act_def)
    with t r rt h Rearm show ?thesis by (auto simp: on_time_def behind_def)
  next
    case Leave
    with a have "t = goes i Idle (s\<lparr>strand := None\<rparr>)" by (simp add: print_act_def)
    with t r h Leave show ?thesis by (simp add: on_time_def behind_def running_def)
  qed (use a in \<open>auto simp: print_act_def\<close>)
qed

lemma on_time_step:
  assumes ok: "printer_ok s" and k: "k = 1 \<or> k = 2" and t: "on_time k s" and st: "printer_step s t"
  shows "on_time k t"
  using st
proof cases
  case second_passes
  have "running t = running s" by (simp add: running_def second_passes cong: option.case_cong)
  with t second_passes show ?thesis by (auto simp: on_time_def prints_def)
next
  case thread_works
  then show ?thesis
  proof cases
    case (work_take i l)
    with t show ?thesis
      by (auto simp: take_handler_def on_time_def running_def behind_def split: if_splits)
  next
    case (work_print i)
    then show ?thesis using on_time_print [OF ok t] by blast
  next
    case (work_return i)
    with t show ?thesis by (auto simp: run_returns_def on_time_def running_def behind_def split: if_splits)
  qed
qed

interpretation timed: invariant_system "\<lambda>s. s = new_printer" printer_step "\<lambda>s. printer_ok s \<and> on_time 1 s \<and> on_time 2 s"
proof unfold_locales
  fix s t
  show "printer_ok s \<and> on_time 1 s \<and> on_time 2 s" if "s = new_printer"
    using that printer.inv_init [of s]
    by (simp add: on_time_def new_printer_def prints_def running_def behind_def)
  show "printer_ok t \<and> on_time 1 t \<and> on_time 2 t" if "printer_ok s \<and> on_time 1 s \<and> on_time 2 s" "printer_step s t"
    using that printer_ok_step on_time_step by blast
qed

text \<open>
  C36. The two timers of \<open>time5\<close> share a counter between handlers on two threads. However the threads interleave,
  the counts are printed in order, none twice and none left out, up to 9; the \<open>n\<close>-th print of a timer is not
  before the \<open>n\<close>-th second; the program can always go on to its end, and when both threads have left \<open>run\<close> the
  ten counts have been printed and the final count is 10.
\<close>

theorem strand_prints_ten:
  assumes "reach (\<lambda>s. s = new_printer) printer_step s"
  shows "(\<exists>n \<le> 10. map (fst \<circ> snd) (shown s) = [0..<n])
    \<and> (k = 1 \<or> k = 2 \<longrightarrow> (\<forall>j < length (prints k s). j + 1 \<le> snd (snd (prints k s ! j))))
    \<and> (both_gone s \<longrightarrow> map (fst \<circ> snd) (shown s) = [0..<10] \<and> cnt s = 10)
    \<and> (\<exists>t. steps printer_step s t \<and> both_gone t)"
proof -
  from timed.invariant [OF assms] have ok: "printer_ok s" and t: "on_time 1 s" "on_time 2 s" by auto
  have len: "length (shown s) \<le> 10" using ok by (cases "running s") (auto simp: printer_ok_def)
  have "cnt s = 10 \<and> length (shown s) = 10" if "both_gone s"
  proof -
    have "strand s = None" "\<not> waits s 1" using ok that by (auto simp: printer_ok_def strand_ok_def both_gone_def)
    then show ?thesis using ok by (auto simp: printer_ok_def running_def)
  qed
  then show ?thesis using ok len t printer_ends [OF ok] by (auto simp: printer_ok_def on_time_def)
qed

theorem strand_prints_ten_witness: "\<exists>t. steps printer_step new_printer t \<and> both_gone t"
  using strand_prints_ten [of new_printer] by (blast intro: reach.reach_init)

end
