(* ===== verification/Line_Clients.thy ===== *)
theory Line_Clients
  imports Fork_Servers
begin

text \<open>
  The clients of the upper-case servers, \<^verbatim>\<open>client.c\<close> in each directory under \<^verbatim>\<open>src/Linux_Net/concurrent\<close>: a line from
  the keyboard is written to the server, and what one \<open>Read\<close> delivers is printed. A client is put together
  with the loop that the servers run for a connection, and with a network that carries bytes both ways
  in pieces of any size.
\<close>

section \<open>Lines of the keyboard\<close>

abbreviation LF :: char where "LF \<equiv> CHR 0x0A"
abbreviation NUL :: char where "NUL \<equiv> CHR 0x00"

text \<open>\<open>fgets(buf, n, stdin)\<close>: up to the newline, and at most \<open>n - 1\<close> characters; the empty text is \<open>NULL\<close>.\<close>

definition fgets :: "nat \<Rightarrow> string \<Rightarrow> string" where
  "fgets n t = take (min (n - 1) (Suc (length (takeWhile (\<lambda>c. c \<noteq> LF) t)))) t"

definition fgets_rest :: "nat \<Rightarrow> string \<Rightarrow> string" where
  "fgets_rest n t = drop (length (fgets n t)) t"

text \<open>What \<open>strlen\<close> sees of the buffer.\<close>

definition c_text :: "string \<Rightarrow> string" where
  "c_text s = takeWhile (\<lambda>c. c \<noteq> NUL) s"

lemma fgets_nonempty: "2 \<le> n \<Longrightarrow> t \<noteq> [] \<Longrightarrow> fgets n t \<noteq> []"
  by (cases t) (auto simp: fgets_def)

lemma fgets_append [simp]: "fgets n t @ fgets_rest n t = t"
  by (simp add: fgets_def fgets_rest_def min_def)

lemma fgets_length: "length (fgets n t) + length (fgets_rest n t) = length t"
  by (metis fgets_append length_append)

lemma fgets_rest_shorter: "2 \<le> n \<Longrightarrow> t \<noteq> [] \<Longrightarrow> length (fgets_rest n t) < length t"
  using fgets_length [of n t] fgets_nonempty [of n t] by (cases "fgets n t") auto

lemma c_text_length: "length (c_text s) \<le> length s"
  by (simp add: c_text_def length_takeWhile_le)

lemma c_text_id: "NUL \<notin> set s \<Longrightarrow> c_text s = s"
  unfolding c_text_def takeWhile_eq_all_conv by auto

section \<open>A client, its server and the network between them\<close>

text \<open>
  \<open>up\<close> is on its way to the server, \<open>delivered\<close> counts the bytes of the answers the client has read, and
  \<open>end_sent\<close> says that the end of the stream has reached the server.
\<close>

datatype client_phase = Typing | Waiting | Quit

record conversation =
  typed :: string
  phase :: client_phase
  up :: string
  end_sent :: bool
  server :: conn
  serving :: bool
  delivered :: nat
  screen :: string

definition start_talk :: "string \<Rightarrow> conversation" where
  "start_talk t =
     \<lparr>typed = t, phase = Typing, up = [], end_sent = False, server = new_conn, serving = True, delivered = 0, screen = []\<rparr>"

definition type_line :: "nat \<Rightarrow> conversation \<Rightarrow> conversation" where
  "type_line n s =
     (if typed s = [] then s\<lparr>phase := Quit\<rparr>
      else s\<lparr>typed := fgets_rest n (typed s), up := up s @ c_text (fgets n (typed s)), phase := Waiting\<rparr>)"

definition available :: "conversation \<Rightarrow> string" where
  "available s = drop (delivered s) (c_sent (server s))"

text \<open>\<open>Read\<close> when \<open>k\<close> of the bytes on their way have arrived; after the end of the stream the client leaves its loop.\<close>

definition read_answer :: "nat \<Rightarrow> nat \<Rightarrow> conversation \<Rightarrow> conversation option" where
  "read_answer n k s =
     (if available s = []
      then (if serving s then None else Some (s\<lparr>phase := Quit\<rparr>))
      else (let m = min n (min (Suc k) (length (available s))) in
            Some (s\<lparr>delivered := delivered s + m, screen := screen s @ take m (available s), phase := Typing\<rparr>)))"

inductive talk_step :: "nat \<Rightarrow> conversation \<Rightarrow> conversation \<Rightarrow> bool" for n where
  talk_types: "phase s = Typing \<Longrightarrow> talk_step n s (type_line n s)"
| talk_reads: "phase s = Waiting \<Longrightarrow> read_answer n k s = Some t \<Longrightarrow> talk_step n s t"
| talk_carries: "0 < k \<Longrightarrow> k \<le> length (up s) \<Longrightarrow>
    talk_step n s (s\<lparr>up := drop k (up s), server := (server s)\<lparr>c_in := c_in (server s) @ [Got (take k (up s))]\<rparr>\<rparr>)"
| talk_ends: "phase s = Quit \<Longrightarrow> up s = [] \<Longrightarrow> \<not> end_sent s \<Longrightarrow>
    talk_step n s (s\<lparr>end_sent := True, server := (server s)\<lparr>c_in := c_in (server s) @ [Got []]\<rparr>\<rparr>)"
| talk_serves: "serving s \<Longrightarrow> work_round (server s) = Next c \<Longrightarrow> talk_step n s (s\<lparr>server := c\<rparr>)"
| talk_leaves: "serving s \<Longrightarrow> work_round (server s) = Exits \<Longrightarrow> talk_step n s (s\<lparr>serving := False\<rparr>)"

text \<open>What a text makes the client send, over all its lines.\<close>

function sent_text :: "nat \<Rightarrow> string \<Rightarrow> string" where
  "sent_text n t = (if t = [] \<or> n < 2 then [] else c_text (fgets n t) @ sent_text n (fgets_rest n t))"
  by pat_completeness auto
termination
  by (relation "measure (\<lambda>(n, t). length t)") (auto intro: fgets_rest_shorter)

declare sent_text.simps [simp del]

text \<open>No line as \<open>fgets\<close> cuts them begins with a null byte.\<close>

function speaks :: "nat \<Rightarrow> string \<Rightarrow> bool" where
  "speaks n t = (if t = [] \<or> n < 2 then True else c_text (fgets n t) \<noteq> [] \<and> speaks n (fgets_rest n t))"
  by pat_completeness auto
termination
  by (relation "measure (\<lambda>(n, t). length t)") (auto intro: fgets_rest_shorter)

declare speaks.simps [simp del]

lemma no_null_speaks: "2 \<le> n \<Longrightarrow> NUL \<notin> set t \<Longrightarrow> speaks n t \<and> sent_text n t = t"
proof (induction n t rule: sent_text.induct)
  case (1 n t)
  show ?case
  proof (cases "t = []")
    case False
    have sub: "set (fgets n t) \<subseteq> set t" "set (fgets_rest n t) \<subseteq> set t"
      by (metis fgets_append set_append sup_ge1, metis fgets_append set_append sup_ge2)
    then have "c_text (fgets n t) = fgets n t" using "1.prems"(2) by (auto simp: c_text_def takeWhile_eq_all_conv)
    moreover have "speaks n (fgets_rest n t) \<and> sent_text n (fgets_rest n t) = fgets_rest n t"
      using 1 False sub by auto
    ultimately show ?thesis
      using False "1.prems"(1) fgets_nonempty [of n t] by (simp add: speaks.simps [of n t] sent_text.simps [of n t])
  qed (simp add: speaks.simps sent_text.simps)
qed

section \<open>What is on the screen\<close>

fun chunk_of :: "answer \<Rightarrow> string" where
  "chunk_of (Got s) = s"
| "chunk_of (Err e) = []"

definition arriving :: "conn \<Rightarrow> string" where
  "arriving c = concat (map chunk_of (c_in c))"

definition said :: "conversation \<Rightarrow> string" where
  "said s = c_got (server s) @ arriving (server s) @ up s"

text \<open>Data, and at most one end, which is the last thing in the queue.\<close>

definition queue_ok :: "conversation \<Rightarrow> bool" where
  "queue_ok s \<longleftrightarrow>
     (\<exists>cs. (\<forall>x \<in> set cs. x \<noteq> []) \<and> c_in (server s) = map Got (cs @ (if end_sent s then [[]] else [])))
     \<and> (end_sent s \<longrightarrow> up s = [] \<and> phase s = Quit) \<and> (\<not> serving s \<longrightarrow> c_in (server s) = [Got []])"

definition talk_ok :: "nat \<Rightarrow> string \<Rightarrow> conversation \<Rightarrow> bool" where
  "talk_ok n t0 s \<longleftrightarrow>
     queue_ok s \<and> c_out (server s) = [] \<and> c_sent (server s) = map toupper (c_got (server s))
     \<and> said s @ sent_text n (typed s) = sent_text n t0
     \<and> delivered s \<le> length (c_got (server s)) \<and> screen s = take (delivered s) (map toupper (c_got (server s)))
     \<and> (speaks n t0 \<longrightarrow> speaks n (typed s) \<and> (phase s = Waiting \<longrightarrow> delivered s < length (said s)))
     \<and> (phase s = Quit \<longrightarrow> typed s = [])"

lemma arriving_simps [simp]:
  "arriving (c\<lparr>c_in := ans @ [a]\<rparr>) = concat (map chunk_of ans) @ chunk_of a"
  by (simp add: arriving_def)

lemma toupper_length [simp]: "length (map toupper s) = length s"
  by simp

lemma queue_okI:
  assumes "\<forall>x \<in> set cs. x \<noteq> []" "c_in (server s) = map Got (cs @ (if end_sent s then [[]] else []))"
    "end_sent s \<longrightarrow> up s = [] \<and> phase s = Quit" "serving s"
  shows "queue_ok s"
  using assms unfolding queue_ok_def by blast

lemma queue_alive:
  assumes "queue_ok s" "\<not> end_sent s"
  shows "serving s"
proof (rule ccontr)
  assume "\<not> serving s"
  with assms obtain cs where "\<forall>x \<in> set cs. x \<noteq> []" "[Got []] = map Got cs" by (auto simp: queue_ok_def)
  then show False by (cases cs) auto
qed

lemma queue_data:
  assumes "queue_ok s" "\<not> end_sent s"
  obtains cs where "\<forall>x \<in> set cs. x \<noteq> []" "c_in (server s) = map Got cs"
  using assms by (auto simp: queue_ok_def)

text \<open>The loop of the server on such a queue: it blocks, reads a part of the first chunk, or ends.\<close>

lemma work_round_cases:
  assumes q: "c_in c = map Got (cs @ (if e then [[]] else []))" "\<forall>x \<in> set cs. x \<noteq> []" and o: "c_out c = []"
  obtains (Block) "cs = []" "\<not> e" "work_round c = Blocks"
  | (End) "cs = []" "e" "work_round c = Exits"
  | (Serve) x xs where "cs = x # xs" "x \<noteq> []"
      "work_round c = Next (c\<lparr>c_in := map Got ((if length x \<le> W_MAXLINE then xs else drop W_MAXLINE x # xs) @ (if e then [[]] else [])),
         c_got := c_got c @ take W_MAXLINE x, c_sent := c_sent c @ map toupper (take W_MAXLINE x)\<rparr>)"
proof (cases cs)
  case Nil
  with q show thesis by (cases e) (auto simp: work_round_def Read.simps intro: Block End)
next
  case (Cons x xs)
  then have x: "x \<noteq> []" using q(2) by simp
  moreover have "take W_MAXLINE x \<noteq> []" using x by (simp add: W_MAXLINE_def)
  ultimately have "work_round c = Next (c\<lparr>c_in := map Got ((if length x \<le> W_MAXLINE then xs else drop W_MAXLINE x # xs) @ (if e then [[]] else [])),
         c_got := c_got c @ take W_MAXLINE x, c_sent := c_sent c @ map toupper (take W_MAXLINE x)\<rparr>)"
    using q(1) Cons o by (simp add: work_round_def Read.simps [of W_MAXLINE] Let_def)
  with Cons x show thesis by (rule Serve)
qed

lemma talk_ok_start: "talk_ok n t (start_talk t)"
  by (simp add: talk_ok_def start_talk_def queue_ok_def new_conn_def said_def arriving_def)

lemma talk_ok_delivered:
  assumes "talk_ok n t0 s"
  shows "delivered s \<le> length (said s)"
proof -
  have "delivered s \<le> length (c_got (server s))" using assms by (simp add: talk_ok_def)
  then show ?thesis by (simp add: said_def)
qed

lemma talk_ok_types:
  assumes n: "2 \<le> n" and ok: "talk_ok n t0 s" and p: "phase s = Typing"
  shows "talk_ok n t0 (type_line n s)"
proof (cases "typed s = []")
  case True
  with ok p show ?thesis by (auto simp: talk_ok_def type_line_def queue_ok_def said_def)
next
  case False
  let ?l = "c_text (fgets n (typed s))"
  have split: "sent_text n (typed s) = ?l @ sent_text n (fgets_rest n (typed s))"
    using False n by (simp add: sent_text.simps [of n "typed s"])
  have sp: "speaks n (typed s) \<longleftrightarrow> ?l \<noteq> [] \<and> speaks n (fgets_rest n (typed s))"
    using False n by (simp add: speaks.simps [of n "typed s"])
  have "delivered s \<le> length (said s)" using talk_ok_delivered [OF ok] .
  then have "?l \<noteq> [] \<longrightarrow> delivered s < length (said s @ ?l)" by (cases ?l) auto
  moreover have "\<not> end_sent s" using ok p by (auto simp: talk_ok_def queue_ok_def)
  ultimately show ?thesis
    using ok p False split sp by (simp add: talk_ok_def type_line_def queue_ok_def said_def)
qed

lemma talk_ok_reads:
  assumes ok: "talk_ok n t0 s" and p: "phase s = Waiting" and r: "read_answer n k s = Some t"
  shows "talk_ok n t0 t"
proof (cases "available s = []")
  case True
  with r have "\<not> serving s" by (auto simp: read_answer_def split: if_splits)
  moreover have "\<not> end_sent s" "queue_ok s" using ok p by (auto simp: talk_ok_def queue_ok_def)
  ultimately show ?thesis using queue_alive by blast
next
  case False
  let ?m = "min n (min (Suc k) (length (available s)))"
  have t: "t = s\<lparr>delivered := delivered s + ?m, screen := screen s @ take ?m (available s), phase := Typing\<rparr>"
    using False r by (simp add: read_answer_def Let_def)
  have "\<not> end_sent s" using ok p by (auto simp: talk_ok_def queue_ok_def)
  moreover have "delivered s + ?m \<le> length (c_got (server s))" using ok by (auto simp: talk_ok_def available_def)
  moreover have "screen s @ take ?m (available s) = take (delivered s + ?m) (map toupper (c_got (server s)))"
    using ok by (simp add: talk_ok_def available_def take_add)
  ultimately show ?thesis using ok t by (simp add: talk_ok_def queue_ok_def said_def)
qed

lemma talk_ok_carries:
  assumes ok: "talk_ok n t0 s" and k: "0 < k" "k \<le> length (up s)"
  shows "talk_ok n t0 (s\<lparr>up := drop k (up s), server := (server s)\<lparr>c_in := c_in (server s) @ [Got (take k (up s))]\<rparr>\<rparr>)"
    (is "talk_ok n t0 ?t")
proof -
  have q: "queue_ok s" using ok by (simp add: talk_ok_def)
  then have e: "\<not> end_sent s" using k by (auto simp: queue_ok_def)
  then have alive: "serving s" using queue_alive q by blast
  obtain cs where cs: "\<forall>x \<in> set cs. x \<noteq> []" "c_in (server s) = map Got cs"
    using queue_data [OF q e] by blast
  have "take k (up s) \<noteq> []" using k by auto
  then have "\<forall>x \<in> set (cs @ [take k (up s)]). x \<noteq> []" using cs(1) by auto
  then have "queue_ok ?t" using queue_okI [of "cs @ [take k (up s)]" ?t] cs(2) e alive by simp
  moreover have "said ?t = said s" by (simp add: said_def arriving_def)
  ultimately show ?thesis using ok by (simp add: talk_ok_def)
qed

lemma talk_ok_serves:
  assumes ok: "talk_ok n t0 s" and alive: "serving s" and w: "work_round (server s) = Next c"
  shows "talk_ok n t0 (s\<lparr>server := c\<rparr>)"
proof -
  obtain cs where cs: "\<forall>x \<in> set cs. x \<noteq> []" "c_in (server s) = map Got (cs @ (if end_sent s then [[]] else []))"
    using ok by (auto simp: talk_ok_def queue_ok_def)
  have o: "c_out (server s) = []" using ok by (simp add: talk_ok_def)
  show ?thesis
  proof (cases rule: work_round_cases [OF cs(2,1) o])
    case (3 x xs)
    let ?cs = "if length x \<le> W_MAXLINE then xs else drop W_MAXLINE x # xs"
    from 3 w have c: "c = (server s)\<lparr>c_in := map Got (?cs @ (if end_sent s then [[]] else [])),
         c_got := c_got (server s) @ take W_MAXLINE x, c_sent := c_sent (server s) @ map toupper (take W_MAXLINE x)\<rparr>" by simp
    have "\<forall>y \<in> set ?cs. y \<noteq> []" using cs(1) 3 by auto
    moreover have "end_sent s \<longrightarrow> up s = [] \<and> phase s = Quit" using ok by (simp add: talk_ok_def queue_ok_def)
    ultimately have "queue_ok (s\<lparr>server := c\<rparr>)" using queue_okI [of ?cs "s\<lparr>server := c\<rparr>"] alive c by simp
    moreover have "take W_MAXLINE x @ concat (map chunk_of (map Got ?cs)) = concat (map chunk_of (map Got (x # xs)))" by simp
    then have "said (s\<lparr>server := c\<rparr>) = said s" using cs(2) 3 c by (simp add: said_def arriving_def)
    ultimately show ?thesis using ok c by (simp add: talk_ok_def)
  qed (use w in auto)
qed

lemma talk_ok_step:
  assumes n: "2 \<le> n" and ok: "talk_ok n t0 s" and st: "talk_step n s t"
  shows "talk_ok n t0 t"
  using st
proof cases
  case talk_types
  then show ?thesis using talk_ok_types [OF n ok] by simp
next
  case (talk_reads k)
  then show ?thesis using talk_ok_reads [OF ok] by simp
next
  case (talk_carries k)
  then show ?thesis using talk_ok_carries [OF ok] by simp
next
  case talk_ends
  have q: "queue_ok s" using ok by (simp add: talk_ok_def)
  obtain cs where "\<forall>x \<in> set cs. x \<noteq> []" "c_in (server s) = map Got cs" using queue_data [OF q] talk_ends by blast
  moreover have "serving s" using queue_alive [OF q] talk_ends by blast
  ultimately have "queue_ok t" using queue_okI [of cs t] talk_ends by simp
  moreover have "said t = said s" using talk_ends by (simp add: said_def arriving_def)
  ultimately show ?thesis using ok talk_ends by (auto simp: talk_ok_def)
next
  case (talk_serves c)
  then show ?thesis using talk_ok_serves [OF ok] by simp
next
  case talk_leaves
  obtain cs where cs: "\<forall>x \<in> set cs. x \<noteq> []" "c_in (server s) = map Got (cs @ (if end_sent s then [[]] else []))"
    using ok by (auto simp: talk_ok_def queue_ok_def)
  have o: "c_out (server s) = []" using ok by (simp add: talk_ok_def)
  show ?thesis
  proof (cases rule: work_round_cases [OF cs(2,1) o])
    case 2
    then have "queue_ok t" using ok talk_leaves cs by (auto simp: queue_ok_def talk_ok_def)
    then show ?thesis using ok talk_leaves by (simp add: talk_ok_def said_def)
  qed (use talk_leaves in auto)
qed

section \<open>The conversation ends\<close>

definition talk_left :: "conversation \<Rightarrow> nat" where
  "talk_left s =
     5 * length (typed s) + 3 * length (up s) + 2 * length (arriving (server s)) + length (available s)
     + (case phase s of Quit \<Rightarrow> 0 | Typing \<Rightarrow> 1 | Waiting \<Rightarrow> 2)
     + (if end_sent s then 0 else 1) + (if serving s then 1 else 0)"

lemma talk_left_types:
  assumes "2 \<le> n" "phase s = Typing"
  shows "talk_left (type_line n s) < talk_left s"
proof (cases "typed s = []")
  case False
  then have "length (typed s) = length (fgets n (typed s)) + length (fgets_rest n (typed s))"
    "0 < length (fgets n (typed s))" "length (c_text (fgets n (typed s))) \<le> length (fgets n (typed s))"
    using assms(1) fgets_nonempty fgets_length c_text_length by auto
  with False assms(2) show ?thesis
    by (simp add: type_line_def talk_left_def available_def del: length_greater_0_conv)
qed (use assms(2) in \<open>simp add: type_line_def talk_left_def available_def\<close>)

lemma talk_left_serves:
  assumes ok: "talk_ok n t0 s" and w: "work_round (server s) = Next c"
  shows "talk_left (s\<lparr>server := c\<rparr>) < talk_left s"
proof -
  obtain cs where cs: "\<forall>x \<in> set cs. x \<noteq> []" "c_in (server s) = map Got (cs @ (if end_sent s then [[]] else []))"
    using ok by (auto simp: talk_ok_def queue_ok_def)
  have o: "c_out (server s) = []" and d: "delivered s \<le> length (c_sent (server s))" using ok by (simp_all add: talk_ok_def)
  show ?thesis
  proof (cases rule: work_round_cases [OF cs(2,1) o])
    case (3 x xs)
    let ?cs = "if length x \<le> W_MAXLINE then xs else drop W_MAXLINE x # xs"
    let ?k = "length (take W_MAXLINE x)"
    from 3 w have c: "c = (server s)\<lparr>c_in := map Got (?cs @ (if end_sent s then [[]] else [])),
         c_got := c_got (server s) @ take W_MAXLINE x, c_sent := c_sent (server s) @ map toupper (take W_MAXLINE x)\<rparr>" by simp
    have "length (arriving (server s)) = length (arriving c) + ?k" using cs(2) 3 c by (simp add: arriving_def)
    moreover have "length (available (s\<lparr>server := c\<rparr>)) = length (available s) + ?k" using c d by (simp add: available_def)
    moreover have "0 < ?k" using 3 by (simp add: W_MAXLINE_def)
    ultimately show ?thesis by (simp add: talk_left_def)
  qed (use w in auto)
qed

lemma talk_left_decreases:
  assumes n: "2 \<le> n" and ok: "talk_ok n t0 s" and st: "talk_step n s t"
  shows "talk_left t < talk_left s"
  using st
proof cases
  case talk_types
  then show ?thesis using talk_left_types [OF n] by simp
next
  case (talk_reads k)
  then show ?thesis by (auto simp: read_answer_def talk_left_def available_def Let_def split: if_splits)
next
  case (talk_carries k)
  then show ?thesis by (simp add: talk_left_def arriving_def available_def)
next
  case talk_ends
  then show ?thesis by (simp add: talk_left_def arriving_def available_def)
next
  case (talk_serves c)
  then show ?thesis using talk_left_serves [OF ok] by simp
next
  case talk_leaves
  then show ?thesis by (simp add: talk_left_def available_def)
qed

text \<open>The conversation is over when both sides have left their loops.\<close>

definition over :: "conversation \<Rightarrow> bool" where
  "over s \<longleftrightarrow> phase s = Quit \<and> \<not> serving s"

lemma talk_goes_on:
  assumes n: "2 \<le> n" and ok: "talk_ok n t0 s" and sp: "speaks n t0" and o: "\<not> over s"
  shows "\<exists>t. talk_step n s t"
proof (cases "0 < length (up s)")
  case True
  then show ?thesis using talk_carries [of "length (up s)" s n] by blast
next
  case False
  have q: "queue_ok s" using ok by (simp add: talk_ok_def)
  obtain cs where cs: "\<forall>x \<in> set cs. x \<noteq> []" "c_in (server s) = map Got (cs @ (if end_sent s then [[]] else []))"
    using q by (auto simp: queue_ok_def)
  have out: "c_out (server s) = []" using ok by (simp add: talk_ok_def)
  show ?thesis
  proof (cases rule: work_round_cases [OF cs(2,1) out])
    case 1
    show ?thesis
    proof (cases "phase s")
      case Typing
      then show ?thesis using talk_types by blast
    next
      case Waiting
      have "delivered s < length (said s)" using ok sp Waiting by (simp add: talk_ok_def)
      moreover have "arriving (server s) = []" using cs 1 by (simp add: arriving_def)
      moreover have "length (c_sent (server s)) = length (c_got (server s))" using ok by (simp add: talk_ok_def)
      ultimately have "available s \<noteq> []" using False by (simp add: said_def available_def)
      then have "read_answer n 0 s \<noteq> None" by (simp add: read_answer_def Let_def)
      then show ?thesis using talk_reads [OF Waiting] by blast
    next
      case Quit
      then show ?thesis using talk_ends [OF Quit] 1 False by blast
    qed
  next
    case 2
    then have "phase s = Quit" using q by (auto simp: queue_ok_def)
    with o have "serving s" by (simp add: over_def)
    then show ?thesis using talk_leaves 2 by blast
  next
    case (3 x xs)
    have "serving s"
    proof (rule ccontr)
      assume "\<not> serving s"
      with q cs 3 show False by (auto simp: queue_ok_def)
    qed
    then show ?thesis using talk_serves 3 by blast
  qed
qed

text \<open>When every answer is waited for, everything is printed.\<close>

definition answered_all :: "conversation \<Rightarrow> bool" where
  "answered_all s \<longleftrightarrow>
     phase s = Typing \<and> up s = [] \<and> c_in (server s) = [] \<and> c_out (server s) = [] \<and> serving s \<and> \<not> end_sent s
     \<and> c_sent (server s) = map toupper (c_got (server s)) \<and> delivered s = length (c_got (server s))
     \<and> screen s = c_sent (server s)"

lemma answered_line:
  assumes n: "2 \<le> n" "n \<le> W_MAXLINE" and a: "answered_all s" and l: "typed s \<noteq> []" "c_text (fgets n (typed s)) \<noteq> []"
  shows "\<exists>t. steps (talk_step n) s t \<and> answered_all t \<and> typed t = fgets_rest n (typed s)
    \<and> screen t = screen s @ map toupper (c_text (fgets n (typed s)))"
proof -
  let ?l = "c_text (fgets n (typed s))"
  have len: "length ?l < n" using c_text_length [of "fgets n (typed s)"] n(1) by (auto simp: fgets_def)
  define s1 where "s1 = type_line n s"
  define s2 where "s2 = s1\<lparr>up := drop (length ?l) (up s1), server := (server s1)\<lparr>c_in := c_in (server s1) @ [Got (take (length ?l) (up s1))]\<rparr>\<rparr>"
  define c where "c = (server s)\<lparr>c_got := c_got (server s) @ ?l, c_sent := c_sent (server s) @ map toupper ?l\<rparr>"
  define s3 where "s3 = s2\<lparr>server := c\<rparr>"
  define s4 where "s4 = s3\<lparr>delivered := delivered s3 + length ?l, screen := screen s3 @ map toupper ?l, phase := Typing\<rparr>"
  have s1: "up s1 = ?l" "phase s1 = Waiting" "server s1 = server s" "typed s1 = fgets_rest n (typed s)" "serving s1" "delivered s1 = delivered s"
      "screen s1 = screen s" "\<not> end_sent s1"
    using a l by (auto simp: s1_def type_line_def answered_all_def)
  have "talk_step n s s1" unfolding s1_def using a by (intro talk_types) (simp add: answered_all_def)
  moreover have "talk_step n s1 s2" unfolding s2_def using s1 l by (intro talk_carries) auto
  moreover have "work_round (server s2) = Next c"
    using a s1 len n(2) l(2) by (simp add: s2_def c_def answered_all_def work_round_def Read.simps [of W_MAXLINE] Let_def)
  then have "talk_step n s2 s3" unfolding s3_def using s1 by (intro talk_serves) (simp_all add: s2_def)
  moreover have "available s3 = map toupper ?l" using a s1 by (simp add: s3_def s2_def available_def answered_all_def c_def)
  then have "read_answer n n s3 = Some s4"
    using l(2) len by (simp add: read_answer_def s4_def Let_def)
  then have "talk_step n s3 s4" using s1 by (intro talk_reads) (simp_all add: s3_def s2_def)
  ultimately have "steps (talk_step n) s s4" by (meson steps.intros)
  moreover have "answered_all s4" using a s1 by (simp add: answered_all_def s4_def s3_def s2_def c_def)
  ultimately show ?thesis using s1 by (intro exI [of _ s4]) (simp add: s4_def s3_def s2_def)
qed

lemma answered_to_the_end:
  "2 \<le> n \<Longrightarrow> n \<le> W_MAXLINE \<Longrightarrow> answered_all s \<Longrightarrow> speaks n (typed s) \<Longrightarrow>
   \<exists>t. steps (talk_step n) s t \<and> over t \<and> screen t = screen s @ map toupper (sent_text n (typed s))"
proof (induction n "typed s" arbitrary: s rule: sent_text.induct)
  case (1 n)
  note n = \<open>2 \<le> n\<close> \<open>n \<le> W_MAXLINE\<close> and a = \<open>answered_all s\<close>
  show ?case
  proof (cases "typed s = []")
    case True
    define s1 where "s1 = s\<lparr>phase := Quit\<rparr>"
    define s2 where "s2 = s1\<lparr>end_sent := True, server := (server s1)\<lparr>c_in := c_in (server s1) @ [Got []]\<rparr>\<rparr>"
    have "talk_step n s s1" using talk_types [of s n] a True by (simp add: s1_def type_line_def answered_all_def)
    moreover have "talk_step n s1 s2" unfolding s2_def using a by (intro talk_ends) (simp_all add: s1_def answered_all_def)
    moreover have "work_round (server s2) = Exits" using a by (simp add: s2_def s1_def answered_all_def work_round_def Read.simps)
    then have "talk_step n s2 (s2\<lparr>serving := False\<rparr>)" using a by (intro talk_leaves) (simp_all add: s2_def s1_def answered_all_def)
    ultimately have "steps (talk_step n) s (s2\<lparr>serving := False\<rparr>)" by (meson steps.intros)
    then show ?thesis
      by (intro exI [of _ "s2\<lparr>serving := False\<rparr>"]) (simp add: s2_def s1_def over_def sent_text.simps True)
  next
    case False
    with 1(5) n have l: "c_text (fgets n (typed s)) \<noteq> []" "speaks n (fgets_rest n (typed s))"
      by (simp_all add: speaks.simps [of n "typed s"])
    obtain u where u: "steps (talk_step n) s u" "answered_all u" "typed u = fgets_rest n (typed s)"
        "screen u = screen s @ map toupper (c_text (fgets n (typed s)))"
      using answered_line [OF n a False l(1)] by blast
    have "\<not> (typed s = [] \<or> n < 2)" using False n by simp
    from 1(1) [OF this u(3) [symmetric] n u(2)] u(3) l(2) obtain t where
        t: "steps (talk_step n) u t" "over t" "screen t = screen u @ map toupper (sent_text n (typed u))" by auto
    have "steps (talk_step n) s t" using steps_trans [OF t(1) u(1)] .
    moreover have "sent_text n (typed s) = c_text (fgets n (typed s)) @ sent_text n (fgets_rest n (typed s))"
      using False n by (simp add: sent_text.simps [of n "typed s"])
    ultimately show ?thesis using t u by auto
  qed
qed

interpretation talking: invariant_system "\<lambda>s. s = start_talk t" "talk_step (Suc (Suc n))" "talk_ok (Suc (Suc n)) t" for t n
proof unfold_locales
  show "talk_ok (Suc (Suc n)) t s" if "s = start_talk t" for s using that talk_ok_start by simp
  show "talk_ok (Suc (Suc n)) t s'" if "talk_ok (Suc (Suc n)) t s" "talk_step (Suc (Suc n)) s s'" for s s'
    using talk_ok_step [OF _ that] by simp
qed

text \<open>
  C37. A client and the loop of the upper-case servers, with the network cutting the bytes as it likes. What is on
  the screen is always a beginning of what was typed, in upper case; every conversation ends; and when the text
  has no null byte, it ends with both sides having left their loops, and for every text there is a run in which
  everything has been printed by then.
\<close>

theorem line_client_talk:
  assumes n: "2 \<le> n" "n \<le> W_MAXLINE" and nul: "NUL \<notin> set t" and r: "reach (\<lambda>s. s = start_talk t) (talk_step n) s"
  shows "(\<exists>m. screen s = take m (map toupper t)) \<and> (\<forall>s'. talk_step n s s' \<longrightarrow> talk_left s' < talk_left s)
    \<and> (over s \<or> (\<exists>s'. talk_step n s s')) \<and> (over s \<longrightarrow> c_got (server s) = t)
    \<and> (\<exists>s'. steps (talk_step n) (start_talk t) s' \<and> over s' \<and> screen s' = map toupper t)"
proof -
  obtain k where k: "n = Suc (Suc k)" using n(1) by (metis add_2_eq_Suc le_iff_add)
  have ok: "talk_ok n t s" using talking.invariant [of t k s] r k by simp
  have sp: "speaks n t" "sent_text n t = t" using no_null_speaks [OF n(1) nul] by auto
  have said: "said s @ sent_text n (typed s) = t" and d: "delivered s \<le> length (c_got (server s))"
      and scr: "screen s = take (delivered s) (map toupper (c_got (server s)))"
    using ok sp(2) by (simp_all add: talk_ok_def)
  have "take (delivered s) (map toupper t) = take (delivered s) (map toupper (c_got (server s)))"
    using d unfolding said [symmetric] by (simp add: said_def)
  with scr have "\<exists>m. screen s = take m (map toupper t)" by metis
  moreover have "\<forall>s'. talk_step n s s' \<longrightarrow> talk_left s' < talk_left s" using talk_left_decreases [OF n(1) ok] by blast
  moreover have "over s \<or> (\<exists>s'. talk_step n s s')" using talk_goes_on [OF n(1) ok sp(1)] by blast
  moreover have "c_got (server s) = t" if "over s"
  proof -
    have q: "c_in (server s) = [Got []]" "queue_ok s" "typed s = []" using ok that by (auto simp: talk_ok_def queue_ok_def over_def)
    have "end_sent s" using queue_alive [OF q(2)] that by (auto simp: over_def)
    with q have "up s = []" by (simp add: queue_ok_def)
    with said q show ?thesis by (simp add: said_def arriving_def sent_text.simps)
  qed
  moreover have "answered_all (start_talk t)" by (simp add: answered_all_def start_talk_def new_conn_def)
  from answered_to_the_end [OF n this] sp obtain s' where "steps (talk_step n) (start_talk t) s'" "over s'" "screen s' = map toupper t"
    by (auto simp: start_talk_def)
  ultimately show ?thesis by blast
qed

theorem line_client_talk_witness:
  "\<exists>s'. steps (talk_step 80) (start_talk ''ab'') s' \<and> over s' \<and> screen s' = ''AB''"
proof -
  have "map toupper ''ab'' = ''AB''" by code_simp
  moreover have "reach (\<lambda>s. s = start_talk ''ab'') (talk_step 80) (start_talk ''ab'')" by (simp add: reach.reach_init)
  ultimately show ?thesis using line_client_talk [of 80 "''ab''" "start_talk ''ab''"] by (simp add: W_MAXLINE_def)
qed

section \<open>Null bytes and late answers\<close>

text \<open>A line that begins with a null byte is not sent, and the client waits for an answer for ever.\<close>

lemma null_line_hangs:
  assumes "2 \<le> n"
  shows "\<exists>s. steps (talk_step n) (start_talk (NUL # t)) s \<and> phase s = Waiting \<and> (\<forall>s'. \<not> talk_step n s s')"
proof -
  let ?s = "type_line n (start_talk (NUL # t))"
  have "fgets n (NUL # t) \<noteq> []" using fgets_nonempty [OF assms] by simp
  then have "c_text (fgets n (NUL # t)) = []" by (cases "min (n - 1) (Suc (Suc (length (takeWhile (\<lambda>c. c \<noteq> LF) t))))") (auto simp: fgets_def c_text_def)
  then have s: "phase ?s = Waiting" "up ?s = []" "server ?s = new_conn" "serving ?s" "available ?s = []"
    by (simp_all add: type_line_def start_talk_def available_def new_conn_def)
  have "talk_step n (start_talk (NUL # t)) ?s" by (rule talk_types) (simp add: start_talk_def)
  then have "steps (talk_step n) (start_talk (NUL # t)) ?s" by (meson steps.intros)
  moreover have "\<not> talk_step n ?s s'" for s'
  proof
    assume "talk_step n ?s s'"
    then show False
      by cases (use s in \<open>auto simp: read_answer_def work_round_def new_conn_def Read.simps\<close>)
  qed
  ultimately show ?thesis using s(1) by blast
qed

text \<open>
  When \<open>Read\<close> delivers a part of the answer, the rest is printed with the next answer, or not at all: here the
  client ends with one of two characters on the screen.
\<close>

lemma late_answer_lost:
  "\<exists>s. steps (talk_step 80) (start_talk ''ab'') s \<and> over s \<and> screen s = ''A''"
proof -
  have up: "map toupper ''ab'' = ''AB''" by code_simp
  define s1 where "s1 = \<lparr>typed = [], phase = Waiting, up = ''ab'', end_sent = False, server = new_conn, serving = True, delivered = 0, screen = []\<rparr>"
  define s2 where "s2 = s1\<lparr>up := [], server := \<lparr>c_in = [Got ''ab''], c_out = [], c_got = [], c_sent = []\<rparr>\<rparr>"
  define c where "c = \<lparr>c_in = [], c_out = [], c_got = ''ab'', c_sent = ''AB''\<rparr>"
  define s4 where "s4 = s2\<lparr>server := c, delivered := 1, screen := ''A'', phase := Typing\<rparr>"
  define s6 where "s6 = s4\<lparr>phase := Quit, end_sent := True, server := c\<lparr>c_in := [Got []]\<rparr>\<rparr>"
  have "type_line 80 (start_talk ''ab'') = s1"
    by (simp add: type_line_def start_talk_def s1_def fgets_rest_def fgets_def c_text_def)
  then have "talk_step 80 (start_talk ''ab'') s1" using talk_types [of "start_talk ''ab''" 80] by (simp add: start_talk_def)
  moreover have "talk_step 80 s1 s2" using talk_carries [of 2 s1 80] by (simp add: s1_def s2_def new_conn_def)
  moreover have "work_round (server s2) = Next c"
    using up by (simp add: s2_def c_def work_round_def Read.simps W_MAXLINE_def)
  then have "talk_step 80 s2 (s2\<lparr>server := c\<rparr>)" by (intro talk_serves) (simp_all add: s2_def s1_def)
  moreover have "talk_step 80 (s2\<lparr>server := c\<rparr>) s4"
    by (rule talk_reads [where k = 0]) (simp_all add: s2_def s1_def s4_def c_def read_answer_def available_def)
  moreover have "talk_step 80 s4 (s4\<lparr>phase := Quit\<rparr>)" using talk_types [of s4 80] by (simp add: s4_def s2_def s1_def type_line_def)
  moreover have "talk_step 80 (s4\<lparr>phase := Quit\<rparr>) s6"
    using talk_ends [of "s4\<lparr>phase := Quit\<rparr>" 80] by (simp add: s6_def s4_def s2_def s1_def c_def)
  moreover have "talk_step 80 s6 (s6\<lparr>serving := False\<rparr>)"
    by (intro talk_leaves) (simp_all add: s6_def s4_def s2_def s1_def work_round_def Read.simps)
  ultimately have "steps (talk_step 80) (start_talk ''ab'') (s6\<lparr>serving := False\<rparr>)" by (meson steps.intros)
  then show ?thesis by (intro exI [of _ "s6\<lparr>serving := False\<rparr>"]) (simp add: over_def s6_def s4_def s2_def s1_def)
qed

end
