(* ===== verification/Epoll_Client.thy ===== *)
theory Epoll_Client
  imports Epoll_Echo
begin

text \<open>
  The client under \<^verbatim>\<open>src/Linux_Net/04.*/client.cpp\<close>: the keyboard, the socket and the screen are in one
  \<open>epoll\<close> set, and one buffer carries lines to the server and answers to the screen. What is written has
  its last character replaced by a serial number. A client is put together with the echo server of the same
  directory at the end.
\<close>

record epoll_client =
  c_watched :: "int \<Rightarrow> epoll_flag option"
  c_buf :: string
  serial :: nat
  c_sock :: int
  c_open :: "int list"
  c_incoming :: "int \<Rightarrow> answer list"
  c_answers :: "int \<Rightarrow> wanswer list"
  c_written :: "int \<Rightarrow> string"

definition STDIN :: int where "STDIN = 0"
definition STDOUT :: int where "STDOUT = 1"

text \<open>\<open>epoll_ctl\<close> refuses a descriptor that is closed, to add one that is there, and to change one that is not.\<close>

definition c_add_event :: "int \<Rightarrow> epoll_flag \<Rightarrow> epoll_client \<Rightarrow> epoll_client" where
  "c_add_event fd st c =
     (if fd \<in> set (c_open c) \<and> c_watched c fd = None then c\<lparr>c_watched := (c_watched c)(fd \<mapsto> st)\<rparr> else c)"

definition c_delete_event :: "int \<Rightarrow> epoll_client \<Rightarrow> epoll_client" where
  "c_delete_event fd c = c\<lparr>c_watched := (c_watched c)(fd := None)\<rparr>"

definition c_modify_event :: "int \<Rightarrow> epoll_flag \<Rightarrow> epoll_client \<Rightarrow> epoll_client" where
  "c_modify_event fd st c =
     (if c_watched c fd = None then c else c\<lparr>c_watched := (c_watched c)(fd \<mapsto> st)\<rparr>)"

definition c_close :: "int \<Rightarrow> epoll_client \<Rightarrow> epoll_client" where
  "c_close fd c = c\<lparr>c_open := removeAll fd (c_open c), c_watched := (c_watched c)(fd := None)\<rparr>"

text \<open>\<open>handle_connection\<close> before its loop.\<close>

definition start_client :: "int \<Rightarrow> epoll_client" where
  "start_client sockfd =
     c_add_event STDIN EPOLLIN
       \<lparr>c_watched = Map.empty, c_buf = replicate MAXSIZE NUL, serial = 0, c_sock = sockfd, c_open = [STDIN, STDOUT, 2, sockfd],
        c_incoming = (\<lambda>_. []), c_answers = (\<lambda>_. []), c_written = (\<lambda>_. [])\<rparr>"

definition c_do_read :: "int \<Rightarrow> epoll_client \<Rightarrow> epoll_client outcome" where
  "c_do_read fd c =
     (case read_call MAXSIZE (c_incoming c fd) of
        None \<Rightarrow> Blocks
      | Some (a, rest) \<Rightarrow>
          (let c = c\<lparr>c_incoming := (c_incoming c)(fd := rest)\<rparr> in
           case a of
             Err e \<Rightarrow> Next (c_delete_event fd (c_close fd c))
           | Got str \<Rightarrow>
               if str = [] then Next (c_delete_event fd (c_close fd c))
               else
                 (let c = c\<lparr>c_buf := str @ drop (length str) (c_buf c)\<rparr> in
                  if fd = STDIN then Next (c_add_event (c_sock c) EPOLLOUT c)
                  else Next (c_add_event STDOUT EPOLLOUT (c_delete_event (c_sock c) c)))))"

text \<open>\<open>snprintf(temp, 100, "%s_%02d\n", ...)\<close> on the string without its last character.\<close>

definition two_digits :: "nat \<Rightarrow> string" where
  "two_digits k = (if k < 10 then CHR ''0'' # to_string k else to_string k)"

definition stamp :: "nat \<Rightarrow> string \<Rightarrow> string" where
  "stamp k s = take 99 (butlast s @ CHR ''_'' # two_digits k @ [CHR 0x0A])"

text \<open>
  \<open>Undefined\<close>: a buffer without a null byte is read past its end, an empty string has its character at -1
  overwritten, and the counter overflows.
\<close>

definition c_do_write :: "int \<Rightarrow> epoll_client \<Rightarrow> epoll_client outcome" where
  "c_do_write fd c =
     (let s = takeWhile (\<lambda>x. x \<noteq> NUL) (c_buf c) in
      if NUL \<notin> set (c_buf c) \<or> s = [] \<or> serial c \<ge> 2 ^ 31 - 1 then Undefined
      else
        (let temp = stamp (serial c) s; c = c\<lparr>serial := serial c + 1, c_buf := replicate MAXSIZE NUL\<rparr> in
         case write_call temp (c_answers c fd) of
           (WErr e, ws) \<Rightarrow> Next (c_close fd (c\<lparr>c_answers := (c_answers c)(fd := ws)\<rparr>))
         | (Takes k, ws) \<Rightarrow>
             (let c = c\<lparr>c_answers := (c_answers c)(fd := ws), c_written := (c_written c)(fd := c_written c fd @ take k temp)\<rparr>
              in Next (if fd = STDOUT then c_delete_event fd c else c_modify_event fd EPOLLIN c))))"

definition c_handle_event :: "int \<times> bool \<times> bool \<Rightarrow> epoll_client \<Rightarrow> epoll_client outcome" where
  "c_handle_event ev c =
     (case ev of (fd, inp, outp) \<Rightarrow> if inp then c_do_read fd c else if outp then c_do_write fd c else Next c)"

fun c_handle_events :: "(int \<times> bool \<times> bool) list \<Rightarrow> epoll_client \<Rightarrow> epoll_client outcome" where
  "c_handle_events [] c = Next c"
| "c_handle_events (ev # evs) c = (case c_handle_event ev c of Next c' \<Rightarrow> c_handle_events evs c' | r \<Rightarrow> r)"

definition c_reported :: "(int \<times> bool \<times> bool) list \<Rightarrow> epoll_client \<Rightarrow> bool" where
  "c_reported evs c \<longleftrightarrow>
     evs \<noteq> [] \<and> distinct (map fst evs)
     \<and> list_all (\<lambda>(fd, inp, outp). case c_watched c fd of
           None \<Rightarrow> False
         | Some EPOLLIN \<Rightarrow> inp \<and> \<not> outp \<and> stream (c_incoming c fd) \<noteq> ([], Dry)
         | Some EPOLLOUT \<Rightarrow> \<not> inp \<and> outp) evs"

section \<open>A line and its answer\<close>

text \<open>The client as it waits for the next line.\<close>

definition waiting_for_line :: "epoll_client \<Rightarrow> bool" where
  "waiting_for_line c \<longleftrightarrow>
     c_watched c = [STDIN \<mapsto> EPOLLIN] \<and> c_buf c = replicate MAXSIZE NUL \<and> {STDIN, STDOUT, c_sock c} \<subseteq> set (c_open c)
     \<and> c_sock c > 2 \<and> c_incoming c STDIN = [] \<and> c_incoming c (c_sock c) = [] \<and> c_answers c = (\<lambda>_. [])"

definition proper :: "string \<Rightarrow> bool" where
  "proper s \<longleftrightarrow> s \<noteq> [] \<and> length s < MAXSIZE \<and> NUL \<notin> set s"

definition arrives :: "int \<Rightarrow> string \<Rightarrow> epoll_client \<Rightarrow> epoll_client" where
  "arrives fd s c = c\<lparr>c_incoming := (c_incoming c)(fd := c_incoming c fd @ [Got s])\<rparr>"

text \<open>What the client looks like between the line and its answer.\<close>

definition waiting_for_answer :: "epoll_client \<Rightarrow> bool" where
  "waiting_for_answer c \<longleftrightarrow>
     c_watched c = [STDIN \<mapsto> EPOLLIN, c_sock c \<mapsto> EPOLLIN] \<and> c_buf c = replicate MAXSIZE NUL
     \<and> {STDIN, STDOUT, c_sock c} \<subseteq> set (c_open c)
     \<and> c_sock c > 2 \<and> c_incoming c STDIN = [] \<and> c_incoming c (c_sock c) = [] \<and> c_answers c = (\<lambda>_. [])"

lemma proper_buffer:
  assumes "proper s"
  shows "NUL \<in> set (s @ replicate (MAXSIZE - length s) NUL)"
    "takeWhile (\<lambda>x. x \<noteq> NUL) (s @ replicate (MAXSIZE - length s) NUL) = s"
proof -
  obtain n where n: "MAXSIZE - length s = Suc n" using assms by (cases "MAXSIZE - length s") (auto simp: proper_def)
  then show "NUL \<in> set (s @ replicate (MAXSIZE - length s) NUL)" by simp
  show "takeWhile (\<lambda>x. x \<noteq> NUL) (s @ replicate (MAXSIZE - length s) NUL) = s"
    using takeWhile_chunk [of s n] assms n by (simp add: proper_def)
qed

lemma line_is_sent:
  assumes w: "waiting_for_line c" and s: "proper s" and n: "serial c < 2 ^ 31 - 1"
  shows "\<exists>c1 c2. c_handle_events [(STDIN, True, False)] (arrives STDIN s c) = Next c1
    \<and> c_reported [(c_sock c, False, True)] c1 \<and> c_handle_events [(c_sock c, False, True)] c1 = Next c2
    \<and> waiting_for_answer c2 \<and> serial c2 = serial c + 1 \<and> c_sock c2 = c_sock c
    \<and> c_written c2 = (c_written c)(c_sock c := c_written c (c_sock c) @ stamp (serial c) s)"
proof -
  let ?b = "s @ replicate (MAXSIZE - length s) NUL"
  let ?c1 = "c\<lparr>c_buf := ?b, c_watched := [STDIN \<mapsto> EPOLLIN, c_sock c \<mapsto> EPOLLOUT], c_incoming := (c_incoming c)(STDIN := [])\<rparr>"
  have sock: "c_sock c \<noteq> STDIN" "c_sock c \<noteq> STDOUT" "c_sock c \<in> set (c_open c)" using w by (auto simp: waiting_for_line_def STDIN_def STDOUT_def)
  have read: "read_call MAXSIZE (c_incoming (arrives STDIN s c) STDIN) = Some (Got s, [])"
    using w s by (auto simp: arrives_def waiting_for_line_def proper_def)
  have 1: "c_handle_events [(STDIN, True, False)] (arrives STDIN s c) = Next ?c1"
    using w s sock read by (simp add: c_handle_event_def c_do_read_def Let_def c_add_event_def arrives_def waiting_for_line_def proper_def)
  let ?c2 = "c\<lparr>serial := serial c + 1, c_watched := [STDIN \<mapsto> EPOLLIN, c_sock c \<mapsto> EPOLLIN], c_incoming := (c_incoming c)(STDIN := []),
       c_written := (c_written c)(c_sock c := c_written c (c_sock c) @ stamp (serial c) s)\<rparr>"
  have 2: "c_handle_events [(c_sock c, False, True)] ?c1 = Next ?c2"
    using w s n sock proper_buffer [OF s]
    by (simp add: c_handle_event_def c_do_write_def Let_def c_modify_event_def waiting_for_line_def proper_def)
  have "c_reported [(c_sock c, False, True)] ?c1" by (simp add: c_reported_def)
  moreover have "waiting_for_answer ?c2" using w by (simp add: waiting_for_answer_def waiting_for_line_def)
  ultimately show ?thesis using 1 2 by auto
qed

lemma answer_is_printed:
  assumes w: "waiting_for_answer c" and s: "proper s" and n: "serial c < 2 ^ 31 - 1"
  shows "\<exists>c1 c2. c_handle_events [(c_sock c, True, False)] (arrives (c_sock c) s c) = Next c1
    \<and> c_reported [(STDOUT, False, True)] c1 \<and> c_handle_events [(STDOUT, False, True)] c1 = Next c2
    \<and> waiting_for_line c2 \<and> serial c2 = serial c + 1 \<and> c_sock c2 = c_sock c
    \<and> c_written c2 = (c_written c)(STDOUT := c_written c STDOUT @ stamp (serial c) s)"
proof -
  let ?b = "s @ replicate (MAXSIZE - length s) NUL"
  let ?c1 = "c\<lparr>c_buf := ?b, c_watched := [STDIN \<mapsto> EPOLLIN, STDOUT \<mapsto> EPOLLOUT], c_incoming := (c_incoming c)(c_sock c := [])\<rparr>"
  have sock: "c_sock c \<noteq> STDIN" "c_sock c \<noteq> STDOUT" "STDOUT \<in> set (c_open c)" "STDOUT \<noteq> STDIN"
    using w by (auto simp: waiting_for_answer_def STDIN_def STDOUT_def)
  have read: "read_call MAXSIZE (c_incoming (arrives (c_sock c) s c) (c_sock c)) = Some (Got s, [])"
    using w s by (auto simp: arrives_def waiting_for_answer_def proper_def)
  have del: "[STDIN \<mapsto> EPOLLIN, c_sock c \<mapsto> EPOLLIN](c_sock c := None) = [STDIN \<mapsto> EPOLLIN]" using sock by auto
  have 1: "c_handle_events [(c_sock c, True, False)] (arrives (c_sock c) s c) = Next ?c1"
    using w s sock read del
    by (simp add: c_handle_event_def c_do_read_def Let_def c_add_event_def c_delete_event_def arrives_def waiting_for_answer_def proper_def)
  let ?c2 = "c\<lparr>serial := serial c + 1, c_watched := [STDIN \<mapsto> EPOLLIN], c_incoming := (c_incoming c)(c_sock c := []),
       c_written := (c_written c)(STDOUT := c_written c STDOUT @ stamp (serial c) s)\<rparr>"
  have del1: "[STDIN \<mapsto> EPOLLIN, STDOUT \<mapsto> EPOLLOUT](STDOUT := None) = [STDIN \<mapsto> EPOLLIN]" using sock by auto
  have 2: "c_handle_events [(STDOUT, False, True)] ?c1 = Next ?c2"
    using w s n sock proper_buffer [OF s] del1
    by (simp add: c_handle_event_def c_do_write_def Let_def c_delete_event_def waiting_for_answer_def proper_def)
  have "c_reported [(STDOUT, False, True)] ?c1" by (simp add: c_reported_def)
  moreover have "waiting_for_line ?c2" using w by (simp add: waiting_for_answer_def waiting_for_line_def)
  ultimately show ?thesis using 1 2 by auto
qed

section \<open>The client and the server\<close>

text \<open>
  \<open>ups\<close> and \<open>downs\<close> count the bytes of each direction that the network has carried. The connection is \<open>fd\<close> in
  the server.
\<close>

record pair =
  cl :: epoll_client
  sv :: echo
  ups :: nat
  downs :: nat

definition on_the_way_up :: "pair \<Rightarrow> string" where
  "on_the_way_up p = drop (ups p) (c_written (cl p) (c_sock (cl p)))"

definition on_the_way_down :: "int \<Rightarrow> pair \<Rightarrow> string" where
  "on_the_way_down fd p = drop (downs p) (sent (echo_net (sv p)) fd)"

definition to_server :: "int \<Rightarrow> string \<Rightarrow> echo \<Rightarrow> echo" where
  "to_server fd x s =
     s\<lparr>echo_net := (echo_net s)\<lparr>incoming := (incoming (echo_net s))(fd := incoming (echo_net s) fd @ [Got x])\<rparr>\<rparr>"

inductive pair_step :: "int \<Rightarrow> pair \<Rightarrow> pair \<Rightarrow> bool" for fd where
  pair_types: "pair_step fd p (p\<lparr>cl := arrives STDIN l (cl p)\<rparr>)"
| pair_client: "c_reported evs (cl p) \<Longrightarrow> c_handle_events evs (cl p) = Next c \<Longrightarrow> pair_step fd p (p\<lparr>cl := c\<rparr>)"
| pair_server: "reported evs (sv p) \<Longrightarrow> handle_events evs (sv p) = Next s \<Longrightarrow> pair_step fd p (p\<lparr>sv := s\<rparr>)"
| pair_up: "0 < k \<Longrightarrow> k \<le> length (on_the_way_up p) \<Longrightarrow>
    pair_step fd p (p\<lparr>sv := to_server fd (take k (on_the_way_up p)) (sv p), ups := ups p + k\<rparr>)"
| pair_down: "0 < k \<Longrightarrow> k \<le> length (on_the_way_down fd p) \<Longrightarrow>
    pair_step fd p (p\<lparr>cl := arrives (c_sock (cl p)) (take k (on_the_way_down fd p)) (cl p), downs := downs p + k\<rparr>)"

definition both_idle :: "int \<Rightarrow> pair \<Rightarrow> bool" where
  "both_idle fd p \<longleftrightarrow>
     waiting_for_line (cl p)
     \<and> watched (sv p) fd = Some EPOLLIN \<and> fd \<noteq> echo_listen (sv p) \<and> shared_buf (sv p) = replicate MAXSIZE NUL
     \<and> incoming (echo_net (sv p)) fd = [] \<and> outgoing (echo_net (sv p)) fd = []
     \<and> ups p = length (c_written (cl p) (c_sock (cl p))) \<and> downs p = length (sent (echo_net (sv p)) fd)"

lemma to_string_no_null: "NUL \<notin> set (to_string k)"
proof
  assume "NUL \<in> set (to_string k)"
  then have "is_dec NUL" using to_string_digits by blast
  then show False by (simp add: is_dec_def char_val_def byte_def)
qed

lemma stamp_proper: "NUL \<notin> set s \<Longrightarrow> proper (stamp k s)"
proof -
  assume s: "NUL \<notin> set s"
  have "NUL \<notin> set (butlast s @ CHR ''_'' # two_digits k @ [CHR 0x0A])"
    using s to_string_no_null in_set_butlastD [of NUL s] by (auto simp: two_digits_def)
  then have "NUL \<notin> set (stamp k s)" unfolding stamp_def by (meson in_set_takeD)
  moreover have "stamp k s \<noteq> []" by (simp add: stamp_def del: take_append)
  moreover have "length (stamp k s) < MAXSIZE" by (simp add: stamp_def MAXSIZE_def)
  ultimately show ?thesis by (simp add: proper_def)
qed

text \<open>A short line keeps its characters, and is followed by the two numbers.\<close>

lemma stamp_twice:
  assumes "length l + length (two_digits k) + length (two_digits j) + 3 \<le> 99"
  shows "stamp j (stamp k (l @ [CHR 0x0A])) = l @ ''_'' @ two_digits k @ ''_'' @ two_digits j @ [CHR 0x0A]"
proof -
  have "stamp k (l @ [CHR 0x0A]) = (l @ CHR ''_'' # two_digits k) @ [CHR 0x0A]" using assms by (simp add: stamp_def)
  then show ?thesis using assms by (simp add: stamp_def butlast_append)
qed

lemma line_comes_back:
  assumes i: "both_idle fd p" and l: "proper l" and n: "serial (cl p) + 1 < 2 ^ 31 - 1"
  shows "\<exists>q. steps (pair_step fd) p q \<and> both_idle fd q \<and> serial (cl q) = serial (cl p) + 2 \<and> c_sock (cl q) = c_sock (cl p)
    \<and> c_written (cl q) STDOUT = c_written (cl p) STDOUT @ stamp (serial (cl p) + 1) (stamp (serial (cl p)) l)"
proof -
  let ?c = "cl p" and ?k = "serial (cl p)"
  let ?x = "stamp ?k l"
  have w: "waiting_for_line ?c" using i by (simp add: both_idle_def)
  have sock: "c_sock ?c \<noteq> STDOUT" "c_sock ?c \<noteq> STDIN" using w by (auto simp: waiting_for_line_def STDIN_def STDOUT_def)
  have x: "proper ?x" using stamp_proper l by (simp add: proper_def)
  then have len: "0 < length ?x" by (simp add: proper_def)
  obtain c1 c2 where c: "c_handle_events [(STDIN, True, False)] (arrives STDIN l ?c) = Next c1"
      "c_reported [(c_sock ?c, False, True)] c1" "c_handle_events [(c_sock ?c, False, True)] c1 = Next c2"
      "waiting_for_answer c2" "serial c2 = ?k + 1" "c_sock c2 = c_sock ?c"
      "c_written c2 = (c_written ?c)(c_sock ?c := c_written ?c (c_sock ?c) @ ?x)"
    using line_is_sent [OF w l] n by auto
  define s0 where "s0 = to_server fd ?x (sv p)"
  have s0: "watched s0 fd = Some EPOLLIN" "fd \<noteq> echo_listen s0" "shared_buf s0 = replicate MAXSIZE NUL"
      "incoming (echo_net s0) fd = [Got ?x]" "outgoing (echo_net s0) fd = []" "sent (echo_net s0) fd = sent (echo_net (sv p)) fd"
      "watched s0 = watched (sv p)" "echo_listen s0 = echo_listen (sv p)"
    using i by (simp_all add: s0_def to_server_def both_idle_def)
  obtain s1 s2 where s: "handle_events [(fd, True, False)] s0 = Next s1" "reported [(fd, False, True)] s1"
      "handle_events [(fd, False, True)] s1 = Next s2" "sent (echo_net s2) fd = sent (echo_net s0) fd @ ?x"
      "watched s2 = watched s0" "shared_buf s2 = replicate MAXSIZE NUL" "incoming (echo_net s2) fd = []"
      "outgoing (echo_net s2) fd = []" "echo_listen s2 = echo_listen s0"
    using echo_one_client [OF s0(1-4) _ _ _ s0(5)] x by (auto simp: proper_def)
  obtain c3 c4 where c': "c_handle_events [(c_sock c2, True, False)] (arrives (c_sock c2) ?x c2) = Next c3"
      "c_reported [(STDOUT, False, True)] c3" "c_handle_events [(STDOUT, False, True)] c3 = Next c4"
      "waiting_for_line c4" "serial c4 = ?k + 2" "c_sock c4 = c_sock ?c"
      "c_written c4 = (c_written c2)(STDOUT := c_written c2 STDOUT @ stamp (?k + 1) ?x)"
    using answer_is_printed [OF c(4) x] n c(5,6) by auto
  define p1 where "p1 = p\<lparr>cl := arrives STDIN l ?c\<rparr>"
  define p2 where "p2 = p1\<lparr>cl := c1\<rparr>"
  define p3 where "p3 = p2\<lparr>cl := c2\<rparr>"
  define p4 where "p4 = p3\<lparr>sv := s0, ups := ups p + length ?x\<rparr>"
  define p6 where "p6 = p4\<lparr>sv := s2\<rparr>"
  define p7 where "p7 = p6\<lparr>cl := arrives (c_sock c2) ?x c2, downs := downs p + length ?x\<rparr>"
  define p9 where "p9 = p7\<lparr>cl := c4\<rparr>"
  have stdin: "c_reported [(STDIN, True, False)] (arrives STDIN l ?c)"
    using w l by (simp add: c_reported_def arrives_def waiting_for_line_def proper_def)
  have "pair_step fd p p1" unfolding p1_def by (rule pair_types)
  moreover have "pair_step fd p1 p2" unfolding p2_def
    by (rule pair_client [where evs = "[(STDIN, True, False)]"]) (simp_all add: p1_def stdin c(1) del: c_handle_events.simps handle_events.simps)
  moreover have "pair_step fd p2 p3" unfolding p3_def
    by (rule pair_client [where evs = "[(c_sock ?c, False, True)]"]) (simp_all add: p2_def c(2,3) del: c_handle_events.simps handle_events.simps)
  moreover have up: "on_the_way_up p3 = ?x"
    using i c(6,7) by (simp add: on_the_way_up_def p3_def p2_def p1_def both_idle_def)
  then have "pair_step fd p3 p4"
    using pair_up [of "length ?x" p3 fd] len by (simp add: p4_def p3_def p2_def p1_def s0_def)
  moreover have "reported [(fd, True, False)] s0"
    using s0 x by (simp add: reported_def readable_def proper_def)
  then have "pair_step fd p4 (p4\<lparr>sv := s1\<rparr>)"
    by (intro pair_server [where evs = "[(fd, True, False)]"]) (simp_all add: p4_def s(1) del: c_handle_events.simps handle_events.simps)
  moreover have "pair_step fd (p4\<lparr>sv := s1\<rparr>) ((p4\<lparr>sv := s1\<rparr>)\<lparr>sv := s2\<rparr>)"
    by (intro pair_server [where evs = "[(fd, False, True)]"]) (simp_all add: p4_def s(2,3) del: c_handle_events.simps handle_events.simps)
  then have "pair_step fd (p4\<lparr>sv := s1\<rparr>) p6" by (simp add: p6_def)
  moreover have "on_the_way_down fd p6 = ?x"
    using i s(4) s0(6) by (simp add: on_the_way_down_def p6_def p4_def p3_def p2_def p1_def both_idle_def)
  then have "pair_step fd p6 p7"
    using pair_down [of "length ?x" fd p6] len by (simp add: p7_def p6_def p4_def p3_def p2_def p1_def)
  moreover have "c_reported [(c_sock c2, True, False)] (arrives (c_sock c2) ?x c2)"
    using c(4) x by (simp add: c_reported_def arrives_def waiting_for_answer_def proper_def)
  then have "pair_step fd p7 (p7\<lparr>cl := c3\<rparr>)"
    by (intro pair_client [where evs = "[(c_sock c2, True, False)]"]) (simp_all add: p7_def c'(1) del: c_handle_events.simps handle_events.simps)
  moreover have "pair_step fd (p7\<lparr>cl := c3\<rparr>) ((p7\<lparr>cl := c3\<rparr>)\<lparr>cl := c4\<rparr>)"
    by (intro pair_client [where evs = "[(STDOUT, False, True)]"]) (simp_all add: p7_def c'(2,3) del: c_handle_events.simps handle_events.simps)
  then have "pair_step fd (p7\<lparr>cl := c3\<rparr>) p9" by (simp add: p9_def)
  ultimately have "steps (pair_step fd) p p9" by (meson steps.intros)
  moreover have "both_idle fd p9"
    using i c'(4,6,7) c(6,7) s s0 sock by (simp add: both_idle_def p9_def p7_def p6_def p4_def p3_def p2_def p1_def)
  ultimately show ?thesis
    using c'(5,6,7) c(6,7) sock by (intro exI [of _ p9]) (simp add: p9_def)
qed

text \<open>What a list of lines becomes, with the first number that is used for it.\<close>

primrec stamped :: "nat \<Rightarrow> string list \<Rightarrow> string" where
  "stamped k [] = []"
| "stamped k (l # ls) = stamp (k + 1) (stamp k l) @ stamped (k + 2) ls"


text \<open>The programs as they start, with one connection.\<close>

definition start_pair :: pair where
  "start_pair =
     \<lparr>cl = start_client 3,
      sv = \<lparr>watched = [3 \<mapsto> EPOLLIN, 5 \<mapsto> EPOLLIN], shared_buf = replicate MAXSIZE NUL, echo_listen = 3,
        echo_net = \<lparr>listen_queue = [], incoming = (\<lambda>_. []), outgoing = (\<lambda>_. []), open_fds = [5, 4, 3, 2, 1, 0],
          got = (\<lambda>_. []), sent = (\<lambda>_. [])\<rparr>\<rparr>, ups = 0, downs = 0\<rparr>"


section \<open>Typing ahead\<close>

text \<open>
  A line typed while the answer is awaited overwrites the buffer and is never sent: the socket is in the set
  already, and adding it again fails. Its tail is printed behind the answer.
\<close>

lemma typed_ahead_is_lost:
  assumes w: "waiting_for_answer c" and l: "proper l" and a: "proper a" and n: "serial c < 2 ^ 31 - 1"
  shows "\<exists>c1 c2 c3. c_handle_events [(STDIN, True, False)] (arrives STDIN l c) = Next c1
    \<and> c_handle_events [(c_sock c, True, False)] (arrives (c_sock c) a c1) = Next c2
    \<and> c_handle_events [(STDOUT, False, True)] c2 = Next c3
    \<and> c_written c3 = (c_written c)(STDOUT := c_written c STDOUT @ stamp (serial c) (a @ drop (length a) l))"
proof -
  have sock: "c_sock c \<noteq> STDIN" "c_sock c \<noteq> STDOUT" "STDOUT \<in> set (c_open c)" "STDOUT \<noteq> STDIN"
    using w by (auto simp: waiting_for_answer_def STDIN_def STDOUT_def)
  let ?b = "l @ replicate (MAXSIZE - length l) NUL"
  let ?c1 = "c\<lparr>c_buf := ?b, c_incoming := (c_incoming c)(STDIN := [])\<rparr>"
  have read: "read_call MAXSIZE (c_incoming (arrives STDIN l c) STDIN) = Some (Got l, [])"
    using w l by (auto simp: arrives_def waiting_for_answer_def proper_def)
  have 1: "c_handle_events [(STDIN, True, False)] (arrives STDIN l c) = Next ?c1"
    using w l sock read by (simp add: c_handle_event_def c_do_read_def Let_def c_add_event_def arrives_def waiting_for_answer_def proper_def)
  let ?x = "a @ drop (length a) l"
  have x: "proper ?x" using a l in_set_dropD [of NUL "length a" l] by (auto simp: proper_def)
  have b: "a @ drop (length a) ?b = ?x @ replicate (MAXSIZE - length ?x) NUL"
    using a l by (simp add: proper_def)
  let ?c2 = "?c1\<lparr>c_buf := ?x @ replicate (MAXSIZE - length ?x) NUL, c_watched := [STDIN \<mapsto> EPOLLIN, STDOUT \<mapsto> EPOLLOUT],
       c_incoming := (c_incoming ?c1)(c_sock c := [])\<rparr>"
  have read2: "read_call MAXSIZE (c_incoming (arrives (c_sock c) a ?c1) (c_sock c)) = Some (Got a, [])"
    using w a sock by (auto simp: arrives_def waiting_for_answer_def proper_def)
  have del: "[STDIN \<mapsto> EPOLLIN, c_sock c \<mapsto> EPOLLIN](c_sock c := None) = [STDIN \<mapsto> EPOLLIN]" using sock by auto
  have 2: "c_handle_events [(c_sock c, True, False)] (arrives (c_sock c) a ?c1) = Next ?c2"
    using w a sock read2 del b
    by (simp add: c_handle_event_def c_do_read_def Let_def c_add_event_def c_delete_event_def arrives_def waiting_for_answer_def proper_def)
  let ?c3 = "?c2\<lparr>serial := serial c + 1, c_buf := replicate MAXSIZE NUL, c_watched := [STDIN \<mapsto> EPOLLIN],
       c_written := (c_written c)(STDOUT := c_written c STDOUT @ stamp (serial c) ?x)\<rparr>"
  have del1: "[STDIN \<mapsto> EPOLLIN, STDOUT \<mapsto> EPOLLOUT](STDOUT := None) = [STDIN \<mapsto> EPOLLIN]" using sock by auto
  have "?x \<noteq> []" "answers c" if "answers = (\<lambda>c. c_answers c = (\<lambda>_. []))" for answers
    using x w that by (simp_all only: proper_def waiting_for_answer_def simp_thms)
  then have 3: "c_handle_events [(STDOUT, False, True)] ?c2 = Next ?c3"
    using w n sock proper_buffer [OF x] del1
    by (simp add: c_handle_event_def c_do_write_def Let_def c_delete_event_def waiting_for_answer_def)
  show ?thesis using 1 2 3 by (intro exI [of _ ?c1] exI [of _ ?c2] exI [of _ ?c3]) simp
qed

text \<open>
  When a line is typed while the answer waits to be printed, the line is printed instead of the answer, the
  buffer is cleared, and then nothing is left for the server: the null byte is stored at \<open>buf[-1]\<close>.
\<close>

lemma client_goes_wrong:
  assumes w: "waiting_for_answer c" and a: "proper a" and l: "proper l" and n: "serial c < 2 ^ 31 - 1"
  shows "\<exists>c1 c2. c_handle_events [(c_sock c, True, False)] (arrives (c_sock c) a c) = Next c1
    \<and> c_reported [(STDIN, True, False), (STDOUT, False, True)] (arrives STDIN l c1)
    \<and> c_handle_events [(STDIN, True, False), (STDOUT, False, True)] (arrives STDIN l c1) = Next c2
    \<and> c_reported [(c_sock c, False, True)] c2 \<and> c_handle_events [(c_sock c, False, True)] c2 = Undefined"
proof -
  have sock: "c_sock c \<noteq> STDIN" "c_sock c \<noteq> STDOUT" "STDOUT \<in> set (c_open c)" "c_sock c \<in> set (c_open c)" "STDOUT \<noteq> STDIN"
    using w by (auto simp: waiting_for_answer_def STDIN_def STDOUT_def)
  have del: "[STDIN \<mapsto> EPOLLIN, c_sock c \<mapsto> EPOLLIN](c_sock c := None) = [STDIN \<mapsto> EPOLLIN]" using sock by auto
  let ?c1 = "c\<lparr>c_buf := a @ replicate (MAXSIZE - length a) NUL, c_watched := [STDIN \<mapsto> EPOLLIN, STDOUT \<mapsto> EPOLLOUT],
       c_incoming := (c_incoming c)(c_sock c := [])\<rparr>"
  have 1: "c_handle_events [(c_sock c, True, False)] (arrives (c_sock c) a c) = Next ?c1"
    using w a sock del
    by (simp add: c_handle_event_def c_do_read_def Let_def c_add_event_def c_delete_event_def arrives_def waiting_for_answer_def proper_def)
  let ?x = "l @ drop (length l) a"
  have x: "proper ?x" using a l in_set_dropD [of NUL "length l" a] by (auto simp: proper_def)
  then have "?x \<noteq> []" by (simp only: proper_def simp_thms)
  have b: "l @ drop (length l) (a @ replicate (MAXSIZE - length a) NUL) = ?x @ replicate (MAXSIZE - length ?x) NUL"
    using a l by (simp add: proper_def)
  define c' where "c' = ?c1\<lparr>c_buf := ?x @ replicate (MAXSIZE - length ?x) NUL, c_incoming := (c_incoming ?c1)(STDIN := []),
       c_watched := [STDIN \<mapsto> EPOLLIN, STDOUT \<mapsto> EPOLLOUT, c_sock c \<mapsto> EPOLLOUT]\<rparr>"
  have 2: "c_handle_event (STDIN, True, False) (arrives STDIN l ?c1) = Next c'"
    using w l sock b
    by (simp add: c_handle_event_def c_do_read_def Let_def c_add_event_def arrives_def waiting_for_answer_def proper_def c'_def)
  have c': "c_buf c' = ?x @ replicate (MAXSIZE - length ?x) NUL" "serial c' = serial c" "c_answers c' = (\<lambda>_. [])"
      "c_watched c' = [STDIN \<mapsto> EPOLLIN, STDOUT \<mapsto> EPOLLOUT, c_sock c \<mapsto> EPOLLOUT]" "c_sock c' = c_sock c"
    using w by (simp_all add: c'_def waiting_for_answer_def)
  let ?c2 = "c'\<lparr>serial := serial c' + 1, c_buf := replicate MAXSIZE NUL, c_watched := (c_watched c')(STDOUT := None),
       c_written := (c_written c')(STDOUT := c_written c' STDOUT @ stamp (serial c') ?x)\<rparr>"
  have 3: "c_handle_event (STDOUT, False, True) c' = Next ?c2"
    using proper_buffer [OF x] c' n \<open>?x \<noteq> []\<close>
    by (simp add: c_handle_event_def c_do_write_def Let_def c_delete_event_def)
  have "takeWhile (\<lambda>y. y \<noteq> NUL) (replicate MAXSIZE NUL) = []" by (simp add: takeWhile_eq_Nil_iff)
  then have "c_handle_events [(c_sock c, False, True)] ?c2 = Undefined"
    by (simp add: c_handle_event_def c_do_write_def)
  moreover have "c_reported [(c_sock c, False, True)] ?c2" using c' sock by (simp add: c_reported_def)
  moreover have "c_reported [(STDIN, True, False), (STDOUT, False, True)] (arrives STDIN l ?c1)"
    using w l sock by (simp add: c_reported_def arrives_def waiting_for_answer_def proper_def)
  moreover have "c_handle_events [(STDIN, True, False), (STDOUT, False, True)] (arrives STDIN l ?c1) = Next ?c2"
    using 2 3 by simp
  ultimately show ?thesis using 1 by blast
qed

end
