(* ===== verification/Mutex_Programs.thy ===== *)
theory Mutex_Programs
  imports Transition Net_Kernel
begin

text \<open>
  The mutex programs of \<^verbatim>\<open>src/stl\<close>. Those of \<^verbatim>\<open>stl_16_4.cpp\<close> and \<^verbatim>\<open>stl_16_5.cpp\<close> unlock whether or not their
  \<open>try_lock\<close> has succeeded; those of \<^verbatim>\<open>stl_16_6.cpp\<close> and \<^verbatim>\<open>stl_16_7.cpp\<close> look at its result; and one thread of
  \<^verbatim>\<open>stl_16_8.cpp\<close> adopts a lock that it does not hold from its second round on. Unlocking a mutex that
  another thread owns, or none, is \<open>Undefined\<close>. No thread locks a recursive mutex twice, so its depth is
  left out.
\<close>

section \<open>Trying\<close>

text \<open>Where a thread is in its loop; the argument is the result of the attempt.\<close>

datatype seat = Begin | Body bool | Unlocking bool | Over

record trials =
  mowner :: "nat option"
  rounds :: "nat \<Rightarrow> nat"
  seat :: "nat \<Rightarrow> seat"

definition sits :: "nat \<Rightarrow> seat \<Rightarrow> trials \<Rightarrow> trials" where
  "sits i x s = s\<lparr>seat := (seat s)(i := x)\<rparr>"

text \<open>
  The attempt: with a time limit it may wait for the mutex, and without one it may fail for no reason, so
  \<open>lucky\<close> is any value.
\<close>

definition attempt :: "bool \<Rightarrow> nat \<Rightarrow> trials \<Rightarrow> trials" where
  "attempt lucky i s =
     (let won = (lucky \<and> mowner s = None)
      in sits i (Body won) (s\<lparr>rounds := (rounds s)(i := rounds s i - 1), mowner := (if won then Some i else mowner s)\<rparr>))"

definition unlock :: "nat \<Rightarrow> trials \<Rightarrow> trials outcome" where
  "unlock i s = (if mowner s = Some i then Next (sits i Begin (s\<lparr>mowner := None\<rparr>)) else Undefined)"

definition try_act :: "bool \<Rightarrow> bool \<Rightarrow> nat \<Rightarrow> trials \<Rightarrow> trials outcome" where
  "try_act checks lucky i s =
     (case seat s i of
        Begin \<Rightarrow> Next (if rounds s i = 0 then sits i Over s else attempt lucky i s)
      | Body won \<Rightarrow> Next (sits i (Unlocking won) s)
      | Unlocking won \<Rightarrow> if checks \<and> \<not> won then Next (sits i Begin s) else unlock i s
      | Over \<Rightarrow> Blocks)"

definition begin_trials :: "nat \<Rightarrow> trials" where
  "begin_trials n = \<lparr>mowner = None, rounds = (\<lambda>_. n), seat = (\<lambda>_. Begin)\<rparr>"

inductive try_step :: "bool \<Rightarrow> nat \<Rightarrow> trials \<Rightarrow> trials \<Rightarrow> bool" for checks threads where
  try_stepI: "i < threads \<Longrightarrow> try_act checks lucky i s = Next t \<Longrightarrow> try_step checks threads s t"

lemma sits_simps [simp]:
  "mowner (sits i x s) = mowner s" "rounds (sits i x s) = rounds s" "seat (sits i x s) = (seat s)(i := x)"
  by (simp_all add: sits_def)

section \<open>Looking at the result\<close>

fun has_lock :: "seat \<Rightarrow> bool" where
  "has_lock (Body won) = won"
| "has_lock (Unlocking won) = won"
| "has_lock _ = False"

definition trials_ok :: "trials \<Rightarrow> bool" where
  "trials_ok s \<longleftrightarrow> (\<forall>i. has_lock (seat s i) \<longleftrightarrow> mowner s = Some i)"

lemma trials_ok_act:
  assumes ok: "trials_ok s" and a: "try_act True lucky i s = Next t"
  shows "trials_ok t"
proof -
  have i: "has_lock (seat s i) \<longleftrightarrow> mowner s = Some i" using ok by (simp add: trials_ok_def)
  have j: "has_lock (seat t j) \<longleftrightarrow> mowner t = Some j" for j
  proof -
    have oj: "has_lock (seat s j) \<longleftrightarrow> mowner s = Some j" using ok by (simp add: trials_ok_def)
    show ?thesis
      using a i oj by (cases "seat s i") (auto simp: try_act_def attempt_def unlock_def Let_def split: if_splits)
  qed
  then show ?thesis by (simp add: trials_ok_def)
qed

interpretation checked: invariant_system "\<lambda>s. s = begin_trials n" "try_step True threads" trials_ok for n threads
proof unfold_locales
  show "trials_ok s" if "s = begin_trials n" for s using that by (simp add: trials_ok_def begin_trials_def)
  show "trials_ok t" if "trials_ok s" "try_step True threads s t" for s t
    using that(2,1) by (cases rule: try_step.cases) (blast intro: trials_ok_act)
qed

fun seat_weight :: "seat \<Rightarrow> nat" where
  "seat_weight Over = 0"
| "seat_weight Begin = 1"
| "seat_weight (Unlocking _) = 2"
| "seat_weight (Body _) = 3"

definition trials_left :: "nat \<Rightarrow> trials \<Rightarrow> nat" where
  "trials_left threads s = (\<Sum>i<threads. 3 * rounds s i + seat_weight (seat s i))"

lemma trials_left_less:
  assumes i: "i < threads" and a: "try_act checks lucky i s = Next t"
  shows "trials_left threads t < trials_left threads s"
proof -
  have other: "rounds t j = rounds s j \<and> seat t j = seat s j" if "j \<noteq> i" for j
    using a that by (cases "seat s i") (auto simp: try_act_def attempt_def unlock_def Let_def split: if_splits)
  have "3 * rounds t i + seat_weight (seat t i) < 3 * rounds s i + seat_weight (seat s i)"
    using a by (cases "seat s i") (auto simp: try_act_def attempt_def unlock_def Let_def split: if_splits)
  moreover have "3 * rounds t j + seat_weight (seat t j) \<le> 3 * rounds s j + seat_weight (seat s j)" for j
    using other calculation by (cases "j = i") auto
  ultimately show ?thesis using i unfolding trials_left_def by (intro sum_strict_mono_ex1) auto
qed

text \<open>
  The programs that look at the result of their attempts, with any number of threads and rounds. No thread ever
  unlocks what it does not own, two threads are never in the guarded part at once, a thread that has not
  finished can always go on, every step brings the end nearer, and when all have finished the mutex is free.
\<close>

theorem checked_attempts_are_safe:
  assumes r: "reach (\<lambda>s. s = begin_trials n) (try_step True threads) s" and i: "i < threads"
  shows "try_act True lucky i s \<noteq> Undefined \<and> (seat s i = Over \<or> (\<exists>t. try_act True lucky i s = Next t))
    \<and> (\<forall>j. has_lock (seat s i) \<and> has_lock (seat s j) \<longrightarrow> i = j)
    \<and> (\<forall>t. try_act True lucky i s = Next t \<longrightarrow> trials_left threads t < trials_left threads s)
    \<and> ((\<forall>j. seat s j \<in> {Begin, Over}) \<longrightarrow> mowner s = None)"
proof -
  have ok: "trials_ok s" using checked.invariant [OF r] .
  have lock: "has_lock (seat s j) \<longleftrightarrow> mowner s = Some j" for j using ok by (simp add: trials_ok_def)
  have "seat s i = Over \<or> (\<exists>t. try_act True lucky i s = Next t)"
    using lock [of i] by (cases "seat s i") (auto simp: try_act_def unlock_def)
  moreover have "try_act True lucky i s \<noteq> Undefined" using lock [of i] by (cases "seat s i") (auto simp: try_act_def unlock_def)
  moreover have "\<forall>j. has_lock (seat s i) \<and> has_lock (seat s j) \<longrightarrow> i = j" using lock by auto
  moreover have "mowner s = None" if "\<forall>j. seat s j \<in> {Begin, Over}"
  proof (cases "mowner s")
    case (Some j)
    with lock have "has_lock (seat s j)" by blast
    with that show ?thesis by (metis has_lock.simps(3,4) insertE singletonD)
  qed
  ultimately show ?thesis using trials_left_less [OF i] by blast
qed

theorem checked_attempts_are_safe_witness:
  "try_act True True 1 (begin_trials 5) \<noteq> Undefined \<and> mowner (begin_trials 5) = None"
  using checked_attempts_are_safe [of 5 2 "begin_trials 5" 1 True] by (simp add: reach.reach_init begin_trials_def)

section \<open>Not looking at it\<close>

text \<open>When the second thread tries while the first one is printing, it unlocks the mutex of the first.\<close>

lemma unchecked_unlock_undefined:
  "\<exists>s. reach (\<lambda>s. s = begin_trials 5) (try_step False 2) s \<and> try_act False True 1 s = Undefined"
proof -
  let ?a = "attempt True 0 (begin_trials 5)"
  let ?b = "attempt True 1 ?a"
  let ?c = "sits 1 (Unlocking False) ?b"
  have "try_step False 2 (begin_trials 5) ?a"
    by (rule try_stepI [where i = 0 and lucky = True]) (simp_all add: try_act_def begin_trials_def)
  moreover have "try_step False 2 ?a ?b"
    by (rule try_stepI [where i = 1 and lucky = True]) (simp_all add: try_act_def begin_trials_def attempt_def Let_def)
  moreover have "try_step False 2 ?b ?c"
    by (rule try_stepI [where i = 1 and lucky = True]) (simp_all add: try_act_def begin_trials_def attempt_def Let_def)
  moreover have "reach (\<lambda>s. s = begin_trials 5) (try_step False 2) (begin_trials 5)" by (simp add: reach.reach_init)
  ultimately have "reach (\<lambda>s. s = begin_trials 5) (try_step False 2) ?c" by (meson reach.reach_step)
  moreover have "try_act False True 1 ?c = Undefined"
    by (simp add: try_act_def begin_trials_def attempt_def unlock_def Let_def)
  ultimately show ?thesis by blast
qed

section \<open>Adopting a lock\<close>

text \<open>Thread 0 is \<open>job1\<close>, with a guard that locks; thread 1 is \<open>job2\<close>, which locks once and then adopts.\<close>

datatype gseat = GStart | GTop | GBody | GLeave | GOver

record guards =
  gowner :: "nat option"
  grounds :: "nat \<Rightarrow> nat"
  gseat :: "nat \<Rightarrow> gseat"

definition gsits :: "nat \<Rightarrow> gseat \<Rightarrow> guards \<Rightarrow> guards" where
  "gsits i x s = s\<lparr>gseat := (gseat s)(i := x)\<rparr>"

definition next_round :: "nat \<Rightarrow> guards \<Rightarrow> guards" where
  "next_round i s = gsits i GBody (s\<lparr>grounds := (grounds s)(i := grounds s i - 1)\<rparr>)"

text \<open>The end of a guard's scope unlocks.\<close>

definition guard_ends :: "nat \<Rightarrow> guards \<Rightarrow> guards outcome" where
  "guard_ends i s = (if gowner s = Some i then Next (gsits i GTop (s\<lparr>gowner := None\<rparr>)) else Undefined)"

definition job1_act :: "guards \<Rightarrow> guards outcome" where
  "job1_act s =
     (case gseat s 0 of
        GStart \<Rightarrow> Next (gsits 0 GTop s)
      | GTop \<Rightarrow>
          if grounds s 0 = 0 then Next (gsits 0 GOver s)
          else if gowner s = None then Next (next_round 0 (s\<lparr>gowner := Some 0\<rparr>)) else Blocks
      | GBody \<Rightarrow> Next (gsits 0 GLeave s)
      | GLeave \<Rightarrow> guard_ends 0 s
      | GOver \<Rightarrow> Blocks)"

definition job2_act :: "guards \<Rightarrow> guards outcome" where
  "job2_act s =
     (case gseat s 1 of
        GStart \<Rightarrow> if gowner s = None then Next (gsits 1 GTop (s\<lparr>gowner := Some 1\<rparr>)) else Blocks
      | GTop \<Rightarrow> Next (if grounds s 1 = 0 then gsits 1 GOver s else next_round 1 s)
      | GBody \<Rightarrow> Next (gsits 1 GLeave s)
      | GLeave \<Rightarrow> guard_ends 1 s
      | GOver \<Rightarrow> Blocks)"

inductive guard_step :: "guards \<Rightarrow> guards \<Rightarrow> bool" where
  guard_job1: "job1_act s = Next t \<Longrightarrow> guard_step s t"
| guard_job2: "job2_act s = Next t \<Longrightarrow> guard_step s t"

definition begin_guards :: guards where
  "begin_guards = \<lparr>gowner = None, grounds = (\<lambda>_. 3), gseat = (\<lambda>_. GStart)\<rparr>"

text \<open>\<open>job2\<close> owns the mutex from its lock to the end of its first round, and never again.\<close>

definition guards_ok :: "guards \<Rightarrow> bool" where
  "guards_ok s \<longleftrightarrow>
     (gowner s = Some 0 \<longleftrightarrow> gseat s 0 = GBody \<or> gseat s 0 = GLeave)
     \<and> (gowner s = Some 1 \<longleftrightarrow> gseat s 1 = GTop \<and> grounds s 1 = 3 \<or> (gseat s 1 = GBody \<or> gseat s 1 = GLeave) \<and> grounds s 1 = 2)
     \<and> (case gseat s 1 of GStart \<Rightarrow> grounds s 1 = 3 | GTop \<Rightarrow> grounds s 1 = 3 \<or> grounds s 1 = 2
          | GBody \<Rightarrow> grounds s 1 = 2 \<or> grounds s 1 = 1 | GLeave \<Rightarrow> grounds s 1 = 2 \<or> grounds s 1 = 1 | GOver \<Rightarrow> False)"

lemma guards_ok_job1: "guards_ok s \<Longrightarrow> job1_act s = Next t \<Longrightarrow> guards_ok t"
  by (cases "gseat s 0"; cases "gseat s 1")
     (auto simp: guards_ok_def job1_act_def gsits_def next_round_def guard_ends_def split: if_splits)

lemma guards_ok_job2: "guards_ok s \<Longrightarrow> job2_act s = Next t \<Longrightarrow> guards_ok t"
  by (cases "gseat s 1")
     (auto simp: guards_ok_def job2_act_def gsits_def next_round_def guard_ends_def split: if_splits)

interpretation adopting: invariant_system "\<lambda>s. s = begin_guards" guard_step guards_ok
proof unfold_locales
  show "guards_ok s" if "s = begin_guards" for s using that by (simp add: guards_ok_def begin_guards_def)
  show "guards_ok t" if "guards_ok s" "guard_step s t" for s t
    using that(2,1) by (cases rule: guard_step.cases) (blast intro: guards_ok_job1 guards_ok_job2)+
qed

text \<open>The first thread is never wrong; the second one has no way through its second round.\<close>

lemma second_adoption_undefined:
  assumes "reach (\<lambda>s. s = begin_guards) guard_step s"
  shows "job1_act s \<noteq> Undefined" "gseat s 1 = GLeave \<and> grounds s 1 < 2 \<longrightarrow> job2_act s = Undefined" "1 \<le> grounds s 1"
proof -
  have ok: "guards_ok s" using adopting.invariant [OF assms] .
  show "job1_act s \<noteq> Undefined"
    using ok by (cases "gseat s 0") (auto simp: guards_ok_def job1_act_def guard_ends_def)
  show "gseat s 1 = GLeave \<and> grounds s 1 < 2 \<longrightarrow> job2_act s = Undefined"
    using ok by (auto simp: guards_ok_def job2_act_def guard_ends_def)
  show "1 \<le> grounds s 1" using ok by (cases "gseat s 1") (auto simp: guards_ok_def)
qed

text \<open>Both threads can be in the guarded part at once.\<close>

lemma both_in_guarded_part:
  "\<exists>s. reach (\<lambda>s. s = begin_guards) guard_step s \<and> gseat s 0 = GBody \<and> gseat s 1 = GBody"
proof -
  let ?r = "reach (\<lambda>s. s = begin_guards) guard_step"
  have step2: "?r t" if "?r s" "job2_act s = Next t" for s t using that by (meson guard_job2 reach.reach_step)
  have step1: "?r t" if "?r s" "job1_act s = Next t" for s t using that by (meson guard_job1 reach.reach_step)
  define g where "g = (\<lambda>ow k a b. \<lparr>gowner = ow, grounds = (\<lambda>_. 3)(0 := fst k, Suc 0 := snd k), gseat = (\<lambda>_. GStart)(0 := a, Suc 0 := b)\<rparr>)"
  have "begin_guards = g None (3, 3) GStart GStart" by (simp add: g_def begin_guards_def fun_upd_idem)
  then have "?r (g None (3, 3) GStart GStart)" by (simp add: reach.reach_init)
  then have "?r (g (Some 1) (3, 3) GStart GTop)"
    by (rule step2) (simp add: g_def job2_act_def gsits_def)
  then have "?r (g (Some 1) (3, 2) GStart GBody)"
    by (rule step2) (simp add: g_def job2_act_def gsits_def next_round_def)
  then have "?r (g (Some 1) (3, 2) GStart GLeave)"
    by (rule step2) (simp add: g_def job2_act_def gsits_def)
  then have "?r (g None (3, 2) GStart GTop)"
    by (rule step2) (simp add: g_def job2_act_def gsits_def guard_ends_def)
  then have "?r (g None (3, 1) GStart GBody)"
    by (rule step2) (simp add: g_def job2_act_def gsits_def next_round_def)
  then have "?r (g None (3, 1) GTop GBody)"
    by (rule step1) (simp add: g_def job1_act_def gsits_def fun_upd_twist)
  then have "?r (g (Some 0) (2, 1) GBody GBody)"
    by (rule step1) (simp add: g_def job1_act_def gsits_def next_round_def fun_upd_twist)
  then show ?thesis by (intro exI conjI) (assumption, simp_all add: g_def)
qed

end
