(* ===== verification/Smart_Pointers.thy ===== *)
theory Smart_Pointers
  imports Prelude
begin

text \<open>
  The \<open>shared_ptr\<close> and \<open>weak_ptr\<close> programs \<^verbatim>\<open>src/c++11/01.smartPointer.cpp\<close> and \<^verbatim>\<open>src/c++11/02.*\<close>: objects
  with their counts, local variables that share or watch them, and objects that themselves share or watch
  others. A dropped reference that was the last one destroys its object, whose members are dropped in turn.
\<close>

text \<open>\<open>shares\<close> and \<open>watches\<close> are the members of an object; the value is that of the programs with numbers.\<close>

record object =
  strong :: nat
  live :: bool
  number :: int
  shares :: "nat list"
  watches :: "nat list"

type_synonym objects = "object list"

lemma strong_sum_update:
  "k < length h \<Longrightarrow> strong b < strong (h ! k) \<Longrightarrow> sum_list (map strong (h[k := b])) < sum_list (map strong h)"
proof (induction h arbitrary: k)
  case (Cons x h)
  then show ?case by (cases k) auto
qed simp

text \<open>Dropping references, the first of the list first.\<close>

function drop_refs :: "nat list \<Rightarrow> objects \<Rightarrow> objects" where
  "drop_refs [] h = h"
| "drop_refs (k # ks) h =
     (if k < length h \<and> 0 < strong (h ! k)
      then (if strong (h ! k) = 1
            then drop_refs (shares (h ! k) @ ks) (h[k := (h ! k)\<lparr>strong := 0, live := False, shares := [], watches := []\<rparr>])
            else drop_refs ks (h[k := (h ! k)\<lparr>strong := strong (h ! k) - 1\<rparr>]))
      else drop_refs ks h)"
  by pat_completeness auto

termination
  by (relation "measures [\<lambda>(ks, h). sum_list (map strong h), \<lambda>(ks, h). length ks]")
     (auto intro: strong_sum_update)

declare drop_refs.simps [simp del]

definition to_list :: "nat option \<Rightarrow> nat list" where
  "to_list x = (case x of None \<Rightarrow> [] | Some k \<Rightarrow> [k])"

definition add_ref :: "nat option \<Rightarrow> objects \<Rightarrow> objects" where
  "add_ref x h = (case x of None \<Rightarrow> h | Some k \<Rightarrow> h[k := (h ! k)\<lparr>strong := strong (h ! k) + 1\<rparr>])"

section \<open>The programs\<close>

record locals =
  objects :: objects
  shared :: "nat option list"
  weak :: "nat option list"

text \<open>\<open>v = x\<close> for a shared pointer: a copy is made, and what the variable held is dropped.\<close>

definition assign :: "nat \<Rightarrow> nat option \<Rightarrow> locals \<Rightarrow> locals" where
  "assign v x s =
     s\<lparr>shared := (shared s)[v := x], objects := drop_refs (to_list (shared s ! v)) (add_ref x (objects s))\<rparr>"

definition new_object :: "nat \<Rightarrow> int \<Rightarrow> locals \<Rightarrow> locals" where
  "new_object v n s =
     s\<lparr>shared := (shared s)[v := Some (length (objects s))],
       objects := drop_refs (to_list (shared s ! v))
         (objects s @ [\<lparr>strong = 1, live = True, number = n, shares = [], watches = []\<rparr>])\<rparr>"

definition watch :: "nat \<Rightarrow> nat \<Rightarrow> locals \<Rightarrow> locals" where
  "watch u v s = s\<lparr>weak := (weak s)[u := shared s ! v]\<rparr>"

definition lock_weak :: "nat option \<Rightarrow> objects \<Rightarrow> nat option" where
  "lock_weak x h = (case x of None \<Rightarrow> None | Some k \<Rightarrow> if live (h ! k) then Some k else None)"

definition use_count :: "nat option \<Rightarrow> objects \<Rightarrow> nat" where
  "use_count x h = (case x of None \<Rightarrow> 0 | Some k \<Rightarrow> strong (h ! k))"

text \<open>
  \<open>setPartent\<close> assigns a shared member, and \<open>setChild\<close> a weak one; \<open>None\<close> is a call on a null pointer.
\<close>

definition setPartent :: "nat \<Rightarrow> nat \<Rightarrow> locals \<Rightarrow> locals option" where
  "setPartent v w s =
     (case shared s ! v of
        None \<Rightarrow> None
      | Some k \<Rightarrow>
          (let h = add_ref (shared s ! w) (objects s) in
           Some (s\<lparr>objects := drop_refs (shares (h ! k)) (h[k := (h ! k)\<lparr>shares := to_list (shared s ! w)\<rparr>])\<rparr>)))"

definition setChild :: "nat \<Rightarrow> nat \<Rightarrow> locals \<Rightarrow> locals option" where
  "setChild v w s =
     (case shared s ! v of
        None \<Rightarrow> None
      | Some k \<Rightarrow> Some (s\<lparr>objects := (objects s)[k := (objects s ! k)\<lparr>watches := to_list (shared s ! w)\<rparr>]\<rparr>))"

datatype pointer_op = New nat int | Copy nat nat | Reset nat | Watch nat nat | Lock nat nat | Set_parent nat nat | Set_child nat nat

text \<open>Every variable that a program uses is declared in it.\<close>

fun declared :: "locals \<Rightarrow> pointer_op \<Rightarrow> bool" where
  "declared s (New v n) \<longleftrightarrow> v < length (shared s)"
| "declared s (Copy v w) \<longleftrightarrow> v < length (shared s) \<and> w < length (shared s)"
| "declared s (Reset v) \<longleftrightarrow> v < length (shared s)"
| "declared s (Watch u v) \<longleftrightarrow> u < length (weak s) \<and> v < length (shared s)"
| "declared s (Lock v u) \<longleftrightarrow> v < length (shared s) \<and> u < length (weak s)"
| "declared s (Set_parent v w) \<longleftrightarrow> v < length (shared s) \<and> w < length (shared s)"
| "declared s (Set_child v w) \<longleftrightarrow> v < length (shared s) \<and> w < length (shared s)"

fun pointer_act :: "pointer_op \<Rightarrow> locals \<Rightarrow> locals option" where
  "pointer_act (New v n) s = Some (new_object v n s)"
| "pointer_act (Copy v w) s = Some (assign v (shared s ! w) s)"
| "pointer_act (Reset v) s = Some (assign v None s)"
| "pointer_act (Watch u v) s = Some (watch u v s)"
| "pointer_act (Lock v u) s = Some (assign v (lock_weak (weak s ! u) (objects s)) s)"
| "pointer_act (Set_parent v w) s = setPartent v w s"
| "pointer_act (Set_child v w) s = setChild v w s"

fun pointer_run :: "pointer_op list \<Rightarrow> locals \<Rightarrow> locals option" where
  "pointer_run [] s = Some s"
| "pointer_run (p # ps) s =
     (if declared s p then (case pointer_act p s of None \<Rightarrow> None | Some t \<Rightarrow> pointer_run ps t) else None)"

definition fresh_locals :: "nat \<Rightarrow> nat \<Rightarrow> locals" where
  "fresh_locals m n = \<lparr>objects = [], shared = replicate m None, weak = replicate n None\<rparr>"

section \<open>The counts are exact\<close>

definition members :: "nat \<Rightarrow> objects \<Rightarrow> nat" where
  "members k h = sum_list (map (\<lambda>b. count_list (shares b) k) h)"

text \<open>References to drop, variables and members, counted for each object.\<close>

definition refs_counted :: "nat list \<Rightarrow> nat option list \<Rightarrow> objects \<Rightarrow> bool" where
  "refs_counted ks vs h \<longleftrightarrow>
     (\<forall>k < length h. strong (h ! k) = count_list ks k + count_list vs (Some k) + members k h
        \<and> (live (h ! k) \<longleftrightarrow> 0 < strong (h ! k)) \<and> (\<not> live (h ! k) \<longrightarrow> shares (h ! k) = [])
        \<and> set (shares (h ! k)) \<subseteq> {..<length h})
     \<and> set ks \<subseteq> {..<length h} \<and> (\<forall>k. Some k \<in> set vs \<longrightarrow> k < length h)"

lemma members_update:
  "k < length h \<Longrightarrow> members j (h[k := b]) + count_list (shares (h ! k)) j = members j h + count_list (shares b) j"
proof (induction h arbitrary: k)
  case (Cons x h)
  then show ?case by (cases k) (auto simp: members_def)
qed simp

lemma members_same [simp]:
  "k < length h \<Longrightarrow> shares b = shares (h ! k) \<Longrightarrow> members j (h[k := b]) = members j h"
  using members_update [of k h j b] by simp

lemma count_list_update:
  "v < length vs \<Longrightarrow>
   count_list (vs[v := x]) y + (if vs ! v = y then 1 else 0) = count_list vs y + (if x = y then 1 else 0)"
proof (induction vs arbitrary: v)
  case (Cons a vs)
  show ?case
  proof (cases v)
    case (Suc m)
    then have "count_list (vs[m := x]) y + (if vs ! m = y then 1 else 0) = count_list vs y + (if x = y then 1 else 0)"
      using Cons.IH [of m] Cons.prems by simp
    with Suc show ?thesis by (simp split: if_splits)
  qed simp
qed simp

lemma refs_counted_strong: "refs_counted ks vs h \<Longrightarrow> k < length h \<Longrightarrow> strong (h ! k) = count_list ks k + count_list vs (Some k) + members k h"
  by (simp add: refs_counted_def)

lemma drop_refs_length [simp]: "length (drop_refs ks h) = length h"
  by (induction ks h rule: drop_refs.induct) (simp_all add: drop_refs.simps)

lemma refs_counted_drop: "refs_counted ks vs h \<Longrightarrow> refs_counted [] vs (drop_refs ks h)"
proof (induction ks h rule: drop_refs.induct)
  case (1 h)
  then show ?case by (simp add: drop_refs.simps)
next
  case (2 k ks h)
  let ?b = "h ! k"
  have k: "k < length h" using 2(4) by (simp add: refs_counted_def)
  then have s: "0 < strong ?b" using refs_counted_strong [OF 2(4) k] by simp
  show ?case
  proof (cases "strong ?b = 1")
    case True
    let ?c = "?b\<lparr>strong := 0, live := False, shares := [], watches := []\<rparr>"
    have m: "members j (h[k := ?c]) + count_list (shares ?b) j = members j h" for j
      using members_update [OF k, of j ?c] by simp
    have "refs_counted (shares ?b @ ks) vs (h[k := ?c])"
      unfolding refs_counted_def
    proof (intro conjI allI impI)
      fix j assume j: "j < length (h[k := ?c])"
      then have "strong (h ! j) = count_list (k # ks) j + count_list vs (Some j) + members j h"
        using refs_counted_strong [OF 2(4)] by simp
      then show "strong (h[k := ?c] ! j) = count_list (shares ?b @ ks) j + count_list vs (Some j) + members j (h[k := ?c])"
        using m [of j] True k by (cases "j = k") auto
      show "live (h[k := ?c] ! j) \<longleftrightarrow> 0 < strong (h[k := ?c] ! j)" "\<not> live (h[k := ?c] ! j) \<Longrightarrow> shares (h[k := ?c] ! j) = []"
        "set (shares (h[k := ?c] ! j)) \<subseteq> {..<length (h[k := ?c])}"
        using 2(4) j k by (cases "j = k"; simp add: refs_counted_def)+
    next
      show "set (shares ?b @ ks) \<subseteq> {..<length (h[k := ?c])}" using 2(4) k by (auto simp: refs_counted_def)
      show "Some j \<in> set vs \<Longrightarrow> j < length (h[k := ?c])" for j using 2(4) by (simp add: refs_counted_def)
    qed
    with 2 k s True show ?thesis by (simp add: drop_refs.simps)
  next
    case False
    let ?c = "?b\<lparr>strong := strong ?b - 1\<rparr>"
    have "refs_counted ks vs (h[k := ?c])"
      unfolding refs_counted_def
    proof (intro conjI allI impI)
      fix j assume j: "j < length (h[k := ?c])"
      then have "strong (h ! j) = count_list (k # ks) j + count_list vs (Some j) + members j h"
        using refs_counted_strong [OF 2(4)] by simp
      then show "strong (h[k := ?c] ! j) = count_list ks j + count_list vs (Some j) + members j (h[k := ?c])"
        using k s by (cases "j = k") auto
      show "live (h[k := ?c] ! j) \<longleftrightarrow> 0 < strong (h[k := ?c] ! j)" "\<not> live (h[k := ?c] ! j) \<Longrightarrow> shares (h[k := ?c] ! j) = []"
        "set (shares (h[k := ?c] ! j)) \<subseteq> {..<length (h[k := ?c])}"
        using 2(4) j k False s by (cases "j = k"; auto simp: refs_counted_def)+
    next
      show "set ks \<subseteq> {..<length (h[k := ?c])}" using 2(4) by (simp add: refs_counted_def)
      show "Some j \<in> set vs \<Longrightarrow> j < length (h[k := ?c])" for j using 2(4) by (simp add: refs_counted_def)
    qed
    with 2 k s False show ?thesis by (simp add: drop_refs.simps)
  qed
qed

lemma refs_countedI:
  assumes "\<And>j. j < length h \<Longrightarrow> strong (h ! j) = count_list ks j + count_list vs (Some j) + members j h"
    "\<And>j. j < length h \<Longrightarrow> (live (h ! j) \<longleftrightarrow> 0 < strong (h ! j)) \<and> (\<not> live (h ! j) \<longrightarrow> shares (h ! j) = [])
        \<and> set (shares (h ! j)) \<subseteq> {..<length h}"
    "set ks \<subseteq> {..<length h}" "\<And>j. Some j \<in> set vs \<Longrightarrow> j < length h"
  shows "refs_counted ks vs h"
  using assms unfolding refs_counted_def by blast

text \<open>A reference is added before it is stored, so it counts as one to drop until then.\<close>

lemma refs_counted_add:
  assumes c: "refs_counted [] vs h" and x: "\<And>k. x = Some k \<Longrightarrow> k < length h \<and> live (h ! k)"
  shows "refs_counted (to_list x) vs (add_ref x h)"
proof (cases x)
  case None
  then show ?thesis using c by (simp add: to_list_def add_ref_def)
next
  case (Some k)
  with x have k: "k < length h" "live (h ! k)" by auto
  have "refs_counted [k] vs (h[k := (h ! k)\<lparr>strong := strong (h ! k) + 1\<rparr>])"
  proof (rule refs_countedI)
    fix j assume "j < length (h[k := (h ! k)\<lparr>strong := strong (h ! k) + 1\<rparr>])"
    then have j: "j < length h" by simp
    show "strong (h[k := (h ! k)\<lparr>strong := strong (h ! k) + 1\<rparr>] ! j)
        = count_list [k] j + count_list vs (Some j) + members j (h[k := (h ! k)\<lparr>strong := strong (h ! k) + 1\<rparr>])"
      using refs_counted_strong [OF c j] k by (cases "j = k") auto
    show "(live (h[k := (h ! k)\<lparr>strong := strong (h ! k) + 1\<rparr>] ! j) \<longleftrightarrow> 0 < strong (h[k := (h ! k)\<lparr>strong := strong (h ! k) + 1\<rparr>] ! j))
        \<and> (\<not> live (h[k := (h ! k)\<lparr>strong := strong (h ! k) + 1\<rparr>] ! j) \<longrightarrow> shares (h[k := (h ! k)\<lparr>strong := strong (h ! k) + 1\<rparr>] ! j) = [])
        \<and> set (shares (h[k := (h ! k)\<lparr>strong := strong (h ! k) + 1\<rparr>] ! j)) \<subseteq> {..<length (h[k := (h ! k)\<lparr>strong := strong (h ! k) + 1\<rparr>])}"
      using c j k by (cases "j = k") (auto simp: refs_counted_def)
  qed (use c k in \<open>auto simp: refs_counted_def\<close>)
  with Some show ?thesis by (simp add: to_list_def add_ref_def)
qed

text \<open>Storing a reference in a variable leaves what the variable held to be dropped.\<close>

lemma refs_counted_store:
  assumes c: "refs_counted (to_list x) vs h" and v: "v < length vs"
  shows "refs_counted (to_list (vs ! v)) (vs[v := x]) h"
proof (rule refs_countedI)
  fix j assume j: "j < length h"
  have "count_list (vs[v := x]) (Some j) + count_list (to_list (vs ! v)) j = count_list vs (Some j) + count_list (to_list x) j"
    using count_list_update [OF v, of x "Some j"] by (auto simp: to_list_def split: option.splits if_splits)
  then show "strong (h ! j) = count_list (to_list (vs ! v)) j + count_list (vs[v := x]) (Some j) + members j h"
    using refs_counted_strong [OF c j] by simp
next
  show "set (to_list (vs ! v)) \<subseteq> {..<length h}"
    using c nth_mem [OF v] by (cases "vs ! v") (auto simp: refs_counted_def to_list_def)
next
  fix j assume "Some j \<in> set (vs[v := x])"
  then have "Some j \<in> set vs \<or> x = Some j" using set_update_subset_insert by fastforce
  with c show "j < length h" by (auto simp: refs_counted_def to_list_def)
qed (use c in \<open>simp add: refs_counted_def\<close>)

definition locals_ok :: "locals \<Rightarrow> bool" where
  "locals_ok s \<longleftrightarrow> refs_counted [] (shared s) (objects s) \<and> (\<forall>k. Some k \<in> set (weak s) \<longrightarrow> k < length (objects s))"

lemma shared_live:
  assumes "locals_ok s" "v < length (shared s)" "shared s ! v = Some k"
  shows "k < length (objects s) \<and> live (objects s ! k)"
proof -
  have c: "refs_counted [] (shared s) (objects s)" using assms(1) by (simp add: locals_ok_def)
  have m: "Some k \<in> set (shared s)" using assms(2,3) by (metis nth_mem)
  then have k: "k < length (objects s)" using c by (simp add: refs_counted_def)
  have "count_list (shared s) (Some k) \<noteq> 0" using m by (simp add: count_list_0_iff)
  then have "0 < strong (objects s ! k)" using refs_counted_strong [OF c k] by simp
  with c k show ?thesis by (simp add: refs_counted_def)
qed

lemma add_ref_length [simp]: "length (add_ref x h) = length h"
  by (cases x) (simp_all add: add_ref_def)

lemma locals_ok_assign:
  assumes ok: "locals_ok s" and v: "v < length (shared s)" and x: "\<And>k. x = Some k \<Longrightarrow> k < length (objects s) \<and> live (objects s ! k)"
  shows "locals_ok (assign v x s)"
proof -
  have "refs_counted (to_list x) (shared s) (add_ref x (objects s))"
    using refs_counted_add [OF _ x] ok by (simp add: locals_ok_def)
  from refs_counted_drop [OF refs_counted_store [OF this v]] ok show ?thesis
    by (simp add: locals_ok_def assign_def)
qed

lemma locals_ok_new:
  assumes ok: "locals_ok s" and v: "v < length (shared s)"
  shows "locals_ok (new_object v n s)"
proof -
  let ?b = "\<lparr>strong = 1, live = True, number = n, shares = [], watches = []\<rparr>"
  let ?h = "objects s @ [?b]"
  have c: "refs_counted [] (shared s) (objects s)" using ok by (simp add: locals_ok_def)
  have m: "members j ?h = members j (objects s)" for j by (simp add: members_def)
  have fresh: "members (length (objects s)) (objects s) = 0"
  proof -
    have "count_list (shares b) (length (objects s)) = 0" if "b \<in> set (objects s)" for b
    proof -
      obtain i where "i < length (objects s)" "b = objects s ! i" using \<open>b \<in> set (objects s)\<close> by (metis in_set_conv_nth)
      with c have "length (objects s) \<notin> set (shares b)" by (auto simp: refs_counted_def)
      then show ?thesis by (simp add: count_list_0_iff)
    qed
    then show ?thesis by (simp add: members_def sum_list_0)
  qed
  have "Some (length (objects s)) \<notin> set (shared s)" using c by (auto simp: refs_counted_def)
  then have none: "count_list (shared s) (Some (length (objects s))) = 0" by (simp add: count_list_0_iff)
  have "refs_counted (to_list (Some (length (objects s)))) (shared s) ?h"
  proof (rule refs_countedI)
    fix j assume j: "j < length ?h"
    show "strong (?h ! j) = count_list (to_list (Some (length (objects s)))) j + count_list (shared s) (Some j) + members j ?h"
      using j m fresh none refs_counted_strong [OF c, of j] by (cases "j = length (objects s)") (auto simp: to_list_def nth_append)
    show "(live (?h ! j) \<longleftrightarrow> 0 < strong (?h ! j)) \<and> (\<not> live (?h ! j) \<longrightarrow> shares (?h ! j) = []) \<and> set (shares (?h ! j)) \<subseteq> {..<length ?h}"
    proof (cases "j = length (objects s)")
      case False
      with j have "j < length (objects s)" by simp
      with c have "(live (objects s ! j) \<longleftrightarrow> 0 < strong (objects s ! j)) \<and> (\<not> live (objects s ! j) \<longrightarrow> shares (objects s ! j) = [])"
          "set (shares (objects s ! j)) \<subseteq> {..<length (objects s)}"
        by (simp_all add: refs_counted_def)
      moreover from this have "set (shares (objects s ! j)) \<subseteq> {..<length ?h}" by fastforce
      ultimately show ?thesis using \<open>j < length (objects s)\<close> by (simp add: nth_append)
    qed simp
  next
    fix j assume "Some j \<in> set (shared s)"
    with c show "j < length ?h" by (fastforce simp: refs_counted_def)
  qed (simp add: to_list_def)
  from refs_counted_drop [OF refs_counted_store [OF this v]] ok show ?thesis
    by (auto simp: locals_ok_def new_object_def)
qed

lemma locals_ok_parent:
  assumes ok: "locals_ok s" and v: "v < length (shared s)" "w < length (shared s)" and p: "setPartent v w s = Some t"
  shows "locals_ok t"
proof -
  obtain k where k: "shared s ! v = Some k" using p by (auto simp: setPartent_def split: option.splits)
  have kl: "k < length (objects s)" "live (objects s ! k)" using shared_live [OF ok v(1) k] by auto
  define h where "h = add_ref (shared s ! w) (objects s)"
  let ?x = "to_list (shared s ! w)"
  let ?h = "h[k := (h ! k)\<lparr>shares := ?x\<rparr>]"
  have c: "refs_counted ?x (shared s) h"
    unfolding h_def using refs_counted_add [of "shared s" "objects s" "shared s ! w"] shared_live [OF ok v(2)] ok
    by (simp add: locals_ok_def)
  have kh: "k < length h" using kl by (simp add: h_def)
  have lk: "live (h ! k)"
  proof (cases "shared s ! w")
    case (Some a)
    with kl show ?thesis by (cases "a = k") (simp_all add: h_def add_ref_def)
  qed (use kl in \<open>simp add: h_def add_ref_def\<close>)
  have "refs_counted (shares (h ! k)) (shared s) ?h"
  proof (rule refs_countedI)
    fix j assume "j < length ?h"
    then have j: "j < length h" by simp
    have "members j ?h + count_list (shares (h ! k)) j = members j h + count_list ?x j"
      using members_update [OF kh, of j "(h ! k)\<lparr>shares := ?x\<rparr>"] by simp
    then show "strong (?h ! j) = count_list (shares (h ! k)) j + count_list (shared s) (Some j) + members j ?h"
      using refs_counted_strong [OF c j] kh by (cases "j = k") auto
    show "(live (?h ! j) \<longleftrightarrow> 0 < strong (?h ! j)) \<and> (\<not> live (?h ! j) \<longrightarrow> shares (?h ! j) = []) \<and> set (shares (?h ! j)) \<subseteq> {..<length ?h}"
      using c j kh lk by (cases "j = k") (auto simp: refs_counted_def)
  qed (use c kh in \<open>auto simp: refs_counted_def\<close>)
  from refs_counted_drop [OF this] ok p k show ?thesis
    by (auto simp: locals_ok_def setPartent_def Let_def h_def [symmetric]) (simp add: h_def)
qed

lemma locals_ok_child:
  assumes ok: "locals_ok s" and v: "v < length (shared s)" and p: "setChild v w s = Some t"
  shows "locals_ok t"
proof -
  obtain k where k: "shared s ! v = Some k" using p by (auto simp: setChild_def split: option.splits)
  have kl: "k < length (objects s)" using shared_live [OF ok v k] by simp
  let ?h = "(objects s)[k := (objects s ! k)\<lparr>watches := to_list (shared s ! w)\<rparr>]"
  have c: "refs_counted [] (shared s) (objects s)" using ok by (simp add: locals_ok_def)
  have "refs_counted [] (shared s) ?h"
  proof (rule refs_countedI)
    fix j assume "j < length ?h"
    then have j: "j < length (objects s)" by simp
    show "strong (?h ! j) = count_list [] j + count_list (shared s) (Some j) + members j ?h"
      using refs_counted_strong [OF c j] kl by (cases "j = k") auto
    show "(live (?h ! j) \<longleftrightarrow> 0 < strong (?h ! j)) \<and> (\<not> live (?h ! j) \<longrightarrow> shares (?h ! j) = []) \<and> set (shares (?h ! j)) \<subseteq> {..<length ?h}"
      using c j kl by (cases "j = k") (auto simp: refs_counted_def)
  qed (use c in \<open>auto simp: refs_counted_def\<close>)
  moreover have "t = s\<lparr>objects := ?h\<rparr>" using p k by (simp add: setChild_def)
  ultimately show ?thesis using ok by (simp add: locals_ok_def)
qed

lemma locals_ok_act:
  assumes ok: "locals_ok s" and d: "declared s p" and a: "pointer_act p s = Some t"
  shows "locals_ok t"
proof (cases p)
  case (New v n)
  with ok d a show ?thesis using locals_ok_new by auto
next
  case (Copy v w)
  with ok d a shared_live show ?thesis using locals_ok_assign [of s v "shared s ! w"] by auto
next
  case (Reset v)
  with ok d a show ?thesis using locals_ok_assign [of s v None] by auto
next
  case (Watch u v)
  have "k < length (objects s)" if "Some k \<in> set ((weak s)[u := shared s ! v])" for k
  proof -
    have "Some k \<in> set (weak s) \<or> shared s ! v = Some k" using that set_update_subset_insert by fastforce
    then show ?thesis using ok d Watch shared_live [OF ok] by (auto simp: locals_ok_def)
  qed
  with ok a Watch show ?thesis by (auto simp: watch_def locals_ok_def)
next
  case (Lock v u)
  have "k < length (objects s) \<and> live (objects s ! k)" if "lock_weak (weak s ! u) (objects s) = Some k" for k
  proof -
    have w: "weak s ! u = Some k" "live (objects s ! k)" using that by (auto simp: lock_weak_def split: option.splits if_splits)
    then have "Some k \<in> set (weak s)" using d Lock nth_mem [of u "weak s"] by simp
    with w ok show ?thesis by (simp add: locals_ok_def)
  qed
  with ok d a Lock show ?thesis using locals_ok_assign [of s v "lock_weak (weak s ! u) (objects s)"] by auto
next
  case (Set_parent v w)
  with ok d a show ?thesis using locals_ok_parent by auto
next
  case (Set_child v w)
  with ok d a show ?thesis using locals_ok_child by auto
qed

lemma locals_ok_run: "locals_ok s \<Longrightarrow> pointer_run ps s = Some t \<Longrightarrow> locals_ok t"
  by (induction ps arbitrary: s) (auto split: if_splits option.splits dest: locals_ok_act)

lemma locals_ok_start: "locals_ok (fresh_locals m n)"
  by (auto simp: locals_ok_def fresh_locals_def refs_counted_def)

text \<open>Ownership without circles: every member is below the object that shares it.\<close>

definition ranked :: "(nat \<Rightarrow> nat) \<Rightarrow> objects \<Rightarrow> bool" where
  "ranked rank h \<longleftrightarrow> (\<forall>i < length h. \<forall>j \<in> set (shares (h ! i)). rank j < rank i)"

lemma members_positive: "0 < members k h \<Longrightarrow> \<exists>i < length h. k \<in> set (shares (h ! i))"
proof -
  assume "0 < members k h"
  then obtain b where "b \<in> set h" "count_list (shares b) k \<noteq> 0"
    unfolding members_def by (metis (mono_tags, lifting) imageE less_numeral_extra(3) list.set_map sum_list_eq_0_iff)
  then show ?thesis by (metis count_list_0_iff in_set_conv_nth)
qed

lemma unowned_are_dead:
  assumes c: "refs_counted [] vs h" and vs: "\<forall>k. Some k \<notin> set vs" and r: "ranked rank h" and k: "k < length h"
  shows "\<not> live (h ! k)"
proof
  assume "live (h ! k)"
  let ?L = "{j. j < length h \<and> live (h ! j)}"
  have "finite ?L" "?L \<noteq> {}" using k \<open>live (h ! k)\<close> by auto
  then have "Max (rank ` ?L) \<in> rank ` ?L" by (intro Max_in) auto
  then obtain m where m: "m \<in> ?L" "rank m = Max (rank ` ?L)" by auto
  with \<open>finite ?L\<close> have top: "rank j \<le> rank m" if "j \<in> ?L" for j using that by simp
  have "count_list vs (Some m) = 0" using vs by (simp add: count_list_0_iff)
  then have "strong (h ! m) = members m h" using refs_counted_strong [OF c, of m] m(1) by simp
  moreover have "0 < strong (h ! m)" using c m(1) by (auto simp: refs_counted_def)
  ultimately have "0 < members m h" by simp
  then obtain i where i: "i < length h" "m \<in> set (shares (h ! i))" using members_positive by blast
  then have "live (h ! i)" using c by (auto simp: refs_counted_def)
  then have "rank i \<le> rank m" using top i(1) by blast
  moreover have "rank m < rank i" using r i by (auto simp: ranked_def)
  ultimately show False by simp
qed


section \<open>Two objects that know each other\<close>

text \<open>\<open>main\<close> of the second program up to the end of the block; the variables are \<open>p\<close> and \<open>c\<close>, and then leave in reverse.\<close>

definition parent_and_child :: "pointer_op list" where
  "parent_and_child = [New 0 0, New 1 0, Set_child 0 1, Set_parent 1 0, Watch 0 0, Watch 1 1, Reset 1, Reset 0]"

text \<open>What is printed after the first \<open>i\<close> operations, for the two weak pointers or the two variables.\<close>

definition counts_after :: "nat \<Rightarrow> pointer_op list \<Rightarrow> (nat list \<times> nat list) option" where
  "counts_after i ps =
     (case pointer_run (take i ps) (fresh_locals 2 2) of
        None \<Rightarrow> None
      | Some s \<Rightarrow> Some (map (\<lambda>x. use_count x (objects s)) (shared s), map (\<lambda>x. use_count x (objects s)) (weak s)))"

lemmas pointer_eval = fresh_locals_def new_object_def assign_def watch_def setChild_def setPartent_def add_ref_def to_list_def
  lock_weak_def use_count_def numeral_2_eq_2 drop_refs.simps

text \<open>The numbers that the comments of the program announce.\<close>

lemma parent_and_child_counts:
  "map (\<lambda>i. map_option fst (counts_after i parent_and_child)) [2, 3, 6] = [Some [1, 1], Some [1, 1], Some [2, 1]]"
  "map_option snd (counts_after 8 parent_and_child) = Some [0, 0]"
  by (simp_all add: counts_after_def parent_and_child_def pointer_eval)


text \<open>With a shared pointer to the child, as in the line that is commented out, both objects are lost.\<close>

lemma circle_leaks:
  "\<exists>s. pointer_run [New 0 0, New 1 0, Set_parent 0 1, Set_parent 1 0, Reset 1, Reset 0] (fresh_locals 2 2) = Some s
     \<and> shared s = [None, None] \<and> live (objects s ! 0) \<and> live (objects s ! 1)"
  by (simp add: pointer_eval)

text \<open>\<open>test_weak_ptr\<close>: the third variable is the one of \<open>check\<close>.\<close>

definition test_weak_ptr :: "pointer_op list" where
  "test_weak_ptr =
     [New 0 22, Copy 1 0, Watch 0 0, Lock 2 0, Reset 2, Reset 0, Lock 2 0, Reset 2, Reset 1, Lock 2 0]"

lemma test_weak_ptr_counts:
  "map (\<lambda>i. map_option (\<lambda>s. (use_count (weak s ! 0) (objects s), shared s ! 2)) (pointer_run (take i test_weak_ptr) (fresh_locals 3 1)))
      [3, 4, 6, 7, 9, 10]
    = [Some (2, None), Some (3, Some 0), Some (1, None), Some (2, Some 0), Some (0, None), Some (0, None)]"
  by (simp add: test_weak_ptr_def pointer_eval numeral_3_eq_3)

end
