(* ===== verification/Datagrams.thy ===== *)
theory Datagrams
  imports Line_Clients "HOL-Library.Sublist"
begin

text \<open>
  The datagram programs: the upper-case server and its client under \<^verbatim>\<open>src/Linux_Net/TCP_Server/UDP/udp_socket\<close>, the
  broadcast and multicast programs beside them, and the echo and daytime programs on UDP of \<^verbatim>\<open>src/boost\<close>.
  The network may lose datagrams. An address is a number.
\<close>

section \<open>The servers\<close>

definition UDP_BUFSIZ :: nat where
  "UDP_BUFSIZ = 8192"

definition udp_max_length :: nat where
  "udp_max_length = 1024"

text \<open>
  \<open>clie_addr\<close> is uninitialised until a datagram has arrived. After an error \<open>n\<close> is -1: the address of the last
  client is printed, nothing is converted, and a send of \<open>SIZE_MAX\<close> bytes is refused.
\<close>

record udp_server =
  clie_addr :: "nat option"
  replies :: "(nat \<times> string) list"

type_synonym received = "errno + nat \<times> string"

definition udp_round :: "received \<Rightarrow> udp_server \<Rightarrow> udp_server outcome" where
  "udp_round r s =
     (case r of
        Inl e \<Rightarrow> if clie_addr s = None then Undefined else Next s
      | Inr (a, d) \<Rightarrow>
          (let buf = take UDP_BUFSIZ d
           in Next (s\<lparr>clie_addr := Some a, replies := replies s @ [(a, map toupper buf)]\<rparr>)))"

text \<open>The echo server of \<^verbatim>\<open>blocking_udp_echo_server.cpp\<close>, and \<^verbatim>\<open>daytime5\<close>: an error is an exception, which ends them.\<close>

definition udp_echo_round :: "received \<Rightarrow> udp_server \<Rightarrow> udp_server outcome" where
  "udp_echo_round r s =
     (case r of
        Inl e \<Rightarrow> Exits
      | Inr (a, d) \<Rightarrow> Next (s\<lparr>clie_addr := Some a, replies := replies s @ [(a, take udp_max_length d)]\<rparr>))"

definition udp_daytime_round :: "string \<Rightarrow> received \<Rightarrow> udp_server \<Rightarrow> udp_server outcome" where
  "udp_daytime_round now r s =
     (case r of
        Inl e \<Rightarrow> Exits
      | Inr (a, d) \<Rightarrow> Next (s\<lparr>clie_addr := Some a, replies := replies s @ [(a, now)]\<rparr>))"

fun udp_rounds :: "(received \<Rightarrow> udp_server \<Rightarrow> udp_server outcome) \<Rightarrow> received list \<Rightarrow> udp_server \<Rightarrow> udp_server outcome" where
  "udp_rounds act [] s = Next s"
| "udp_rounds act (r # rs) s = (case act r s of Next s' \<Rightarrow> udp_rounds act rs s' | x \<Rightarrow> x)"

definition udp_start :: udp_server where
  "udp_start = \<lparr>clie_addr = None, replies = []\<rparr>"

text \<open>The datagrams among what was received.\<close>

definition datagrams :: "received list \<Rightarrow> (nat \<times> string) list" where
  "datagrams rs = concat (map (\<lambda>r. case r of Inl e \<Rightarrow> [] | Inr d \<Rightarrow> [d]) rs)"

lemma datagrams_simps [simp]:
  "datagrams [] = []" "datagrams (Inl e # rs) = datagrams rs" "datagrams (Inr d # rs) = d # datagrams rs"
  by (simp_all add: datagrams_def)

lemma udp_rounds_running:
  "clie_addr s \<noteq> None \<Longrightarrow>
   \<exists>s'. udp_rounds udp_round rs s = Next s' \<and> replies s' = replies s @ map (\<lambda>(a, d). (a, map toupper (take UDP_BUFSIZ d))) (datagrams rs)"
proof (induction rs arbitrary: s)
  case (Cons r rs)
  show ?case
  proof (cases r)
    case (Inl e)
    with Cons show ?thesis by (simp add: udp_round_def)
  next
    case (Inr d)
    obtain a t where d: "d = (a, t)" by (cases d)
    let ?s = "s\<lparr>clie_addr := Some a, replies := replies s @ [(a, map toupper (take UDP_BUFSIZ t))]\<rparr>"
    have "udp_round r s = Next ?s" by (simp add: udp_round_def Inr d Let_def)
    with Cons.IH [of ?s] Inr d show ?thesis by simp
  qed
qed simp

text \<open>
  Once a datagram has arrived, the server never stops: it answers every datagram in order to its sender, cut to
  the buffer and in upper case. An error before that makes it print an address that was never written.
\<close>

theorem udp_server_answers:
  "\<exists>s'. udp_rounds udp_round (Inr d # rs) udp_start = Next s'
     \<and> replies s' = map (\<lambda>(a, d). (a, map toupper (take UDP_BUFSIZ d))) (d # datagrams rs)"
  "udp_rounds udp_round (Inl e # rs) udp_start = Undefined"
proof -
  obtain a t where d: "d = (a, t)" by (cases d)
  show "\<exists>s'. udp_rounds udp_round (Inr d # rs) udp_start = Next s'
     \<and> replies s' = map (\<lambda>(a, d). (a, map toupper (take UDP_BUFSIZ d))) (d # datagrams rs)"
    using udp_rounds_running [of "\<lparr>clie_addr = Some a, replies = [(a, map toupper (take UDP_BUFSIZ t))]\<rparr>" rs]
    by (simp add: udp_round_def udp_start_def d Let_def)
  show "udp_rounds udp_round (Inl e # rs) udp_start = Undefined" by (simp add: udp_round_def udp_start_def)
qed

section \<open>The client\<close>

text \<open>
  One client and one server: a line is sent, cut at its first null byte, and the client waits for a datagram and
  prints it. \<open>dg_sent\<close> has the lines that were sent.
\<close>

record dg_talk =
  dg_typed :: string
  dg_waiting :: bool
  dg_up :: "string list"
  dg_down :: "string list"
  dg_sent :: "string list"
  dg_printed :: "string list"

definition dg_start :: "string \<Rightarrow> dg_talk" where
  "dg_start t = \<lparr>dg_typed = t, dg_waiting = False, dg_up = [], dg_down = [], dg_sent = [], dg_printed = []\<rparr>"

definition dg_send :: "dg_talk \<Rightarrow> dg_talk option" where
  "dg_send s =
     (if dg_waiting s \<or> dg_typed s = [] then None
      else (let l = c_text (fgets UDP_BUFSIZ (dg_typed s)) in
            Some (s\<lparr>dg_typed := fgets_rest UDP_BUFSIZ (dg_typed s), dg_up := dg_up s @ [l], dg_sent := dg_sent s @ [l], dg_waiting := True\<rparr>)))"

definition dg_receive :: "nat \<Rightarrow> dg_talk \<Rightarrow> dg_talk" where
  "dg_receive i s =
     s\<lparr>dg_down := take i (dg_down s) @ drop (Suc i) (dg_down s),
       dg_printed := dg_printed s @ [take UDP_BUFSIZ (dg_down s ! i)], dg_waiting := False\<rparr>"

text \<open>\<open>serve\<close> is what a server makes of a datagram; any datagram on its way may be the next, or be lost.\<close>

inductive dg_step :: "(string \<Rightarrow> string) \<Rightarrow> dg_talk \<Rightarrow> dg_talk \<Rightarrow> bool" for serve where
  dg_client_sends: "dg_send s = Some t \<Longrightarrow> dg_step serve s t"
| dg_client_prints: "dg_waiting s \<Longrightarrow> i < length (dg_down s) \<Longrightarrow> dg_step serve s (dg_receive i s)"
| dg_server: "i < length (dg_up s) \<Longrightarrow>
    dg_step serve s (s\<lparr>dg_up := take i (dg_up s) @ drop (Suc i) (dg_up s), dg_down := dg_down s @ [serve (dg_up s ! i)]\<rparr>)"
| dg_lost_up: "i < length (dg_up s) \<Longrightarrow> dg_step serve s (s\<lparr>dg_up := take i (dg_up s) @ drop (Suc i) (dg_up s)\<rparr>)"
| dg_lost_down: "i < length (dg_down s) \<Longrightarrow> dg_step serve s (s\<lparr>dg_down := take i (dg_down s) @ drop (Suc i) (dg_down s)\<rparr>)"

definition dg_ok :: "(string \<Rightarrow> string) \<Rightarrow> dg_talk \<Rightarrow> bool" where
  "dg_ok serve s \<longleftrightarrow>
     (if dg_waiting s
      then dg_sent s \<noteq> [] \<and> dg_printed s = map (\<lambda>l. take UDP_BUFSIZ (serve l)) (butlast (dg_sent s))
        \<and> (dg_up s = [] \<and> dg_down s = [] \<or> dg_up s = [last (dg_sent s)] \<and> dg_down s = []
           \<or> dg_up s = [] \<and> dg_down s = [serve (last (dg_sent s))])
      else dg_up s = [] \<and> dg_down s = [] \<and> dg_printed s = map (\<lambda>l. take UDP_BUFSIZ (serve l)) (dg_sent s))"

lemma map_butlast_last: "xs \<noteq> [] \<Longrightarrow> map f (butlast xs) @ [f (last xs)] = map f xs"
  by (metis append_butlast_last_id list.simps(8,9) map_append)

text \<open>A datagram is taken off a queue that has at most one.\<close>

lemma take_only [simp]: "take 0 [x] @ drop (Suc 0) [x] = []"
  by simp

lemma dg_ok_step:
  assumes ok: "dg_ok serve s" and st: "dg_step serve s t"
  shows "dg_ok serve t"
  using st
proof cases
  case dg_client_sends
  then have w: "\<not> dg_waiting s" and t: "t = s\<lparr>dg_typed := fgets_rest UDP_BUFSIZ (dg_typed s),
      dg_up := dg_up s @ [c_text (fgets UDP_BUFSIZ (dg_typed s))], dg_sent := dg_sent s @ [c_text (fgets UDP_BUFSIZ (dg_typed s))], dg_waiting := True\<rparr>"
    by (auto simp: dg_send_def Let_def split: if_splits)
  from ok w show ?thesis by (simp add: dg_ok_def t)
next
  case (dg_client_prints i)
  with ok have d: "dg_down s = [serve (last (dg_sent s))]" "dg_up s = []" "i = 0" "dg_sent s \<noteq> []"
      "dg_printed s = map (\<lambda>l. take UDP_BUFSIZ (serve l)) (butlast (dg_sent s))"
    by (auto simp: dg_ok_def)
  then show ?thesis
    using dg_client_prints map_butlast_last [of "dg_sent s" "\<lambda>l. take UDP_BUFSIZ (serve l)"] by (simp add: dg_ok_def dg_receive_def)
next
  case (dg_server i)
  with ok have "dg_waiting s" "dg_up s = [last (dg_sent s)]" "dg_down s = []" "i = 0" by (auto simp: dg_ok_def split: if_splits)
  with ok dg_server show ?thesis by (simp add: dg_ok_def)
next
  case (dg_lost_up i)
  with ok have "dg_waiting s" "dg_up s = [last (dg_sent s)]" "dg_down s = []" "i = 0" by (auto simp: dg_ok_def split: if_splits)
  with ok dg_lost_up show ?thesis by (simp add: dg_ok_def)
next
  case (dg_lost_down i)
  with ok have "dg_waiting s" "dg_down s = [serve (last (dg_sent s))]" "dg_up s = []" "i = 0" by (auto simp: dg_ok_def split: if_splits)
  with ok dg_lost_down show ?thesis by (simp add: dg_ok_def)
qed

text \<open>All lines of a text, as they are sent.\<close>

function dg_lines :: "string \<Rightarrow> string list" where
  "dg_lines t = (if t = [] then [] else c_text (fgets UDP_BUFSIZ t) # dg_lines (fgets_rest UDP_BUFSIZ t))"
  by pat_completeness auto
termination
  by (relation "measure length") (auto intro: fgets_rest_shorter simp: UDP_BUFSIZ_def)

declare dg_lines.simps [simp del]

lemma dg_lines_unfold: "t \<noteq> [] \<Longrightarrow> dg_lines t = c_text (fgets UDP_BUFSIZ t) # dg_lines (fgets_rest UDP_BUFSIZ t)"
  by (simp add: dg_lines.simps [of t])

lemma dg_lines_step: "dg_step serve s t \<Longrightarrow> dg_sent t @ dg_lines (dg_typed t) = dg_sent s @ dg_lines (dg_typed s)"
  by (cases rule: dg_step.cases)
     (auto simp: dg_send_def dg_receive_def Let_def dg_lines_unfold split: if_splits)

interpretation datagram: invariant_system "\<lambda>s. s = dg_start t" "dg_step serve"
  "\<lambda>s. dg_ok serve s \<and> dg_sent s @ dg_lines (dg_typed s) = dg_lines t" for t serve
proof unfold_locales
  show "dg_ok serve s \<and> dg_sent s @ dg_lines (dg_typed s) = dg_lines t" if "s = dg_start t" for s
    using that by (simp add: dg_start_def dg_ok_def)
  show "dg_ok serve s' \<and> dg_sent s' @ dg_lines (dg_typed s') = dg_lines t"
    if "dg_ok serve s \<and> dg_sent s @ dg_lines (dg_typed s) = dg_lines t" "dg_step serve s s'" for s s'
    using that dg_ok_step dg_lines_step by metis
qed

text \<open>
  Waiting for each answer keeps question and answer together although the network has no order: what is printed
  is the answers to the first lines, each once, in order, whatever is lost. But a datagram that is lost is the end:
  the client then waits for ever.
\<close>

theorem udp_client_in_step:
  assumes "reach (\<lambda>s. s = dg_start t) (dg_step serve) s"
  shows "\<exists>k. dg_printed s = map (\<lambda>l. take UDP_BUFSIZ (serve l)) (take k (dg_lines t))
    \<and> length (dg_sent s) \<le> k + 1 \<and> (\<not> dg_waiting s \<longrightarrow> k = length (dg_sent s))"
    "dg_waiting s \<Longrightarrow> dg_up s = [] \<Longrightarrow> dg_down s = [] \<Longrightarrow> \<not> dg_step serve s s'"
    "\<not> dg_waiting s \<Longrightarrow> dg_typed s = [] \<Longrightarrow> dg_printed s = map (\<lambda>l. take UDP_BUFSIZ (serve l)) (dg_lines t)"
proof -
  from datagram.invariant [OF assms] have ok: "dg_ok serve s" and l: "dg_sent s @ dg_lines (dg_typed s) = dg_lines t" by auto
  let ?f = "\<lambda>l. take UDP_BUFSIZ (serve l)"
  have tk: "take (length (dg_sent s)) (dg_lines t) = dg_sent s" by (simp add: l [symmetric])
  have bl: "take (length (dg_sent s) - 1) (dg_lines t) = butlast (dg_sent s)" by (simp add: l [symmetric] butlast_conv_take)
  show "\<exists>k. dg_printed s = map ?f (take k (dg_lines t)) \<and> length (dg_sent s) \<le> k + 1 \<and> (\<not> dg_waiting s \<longrightarrow> k = length (dg_sent s))"
  proof (cases "dg_waiting s")
    case True
    with ok have "dg_printed s = map ?f (butlast (dg_sent s))" by (simp add: dg_ok_def)
    with True bl show ?thesis by (intro exI [of _ "length (dg_sent s) - 1"]) simp
  next
    case False
    with ok have "dg_printed s = map ?f (dg_sent s)" by (simp add: dg_ok_def)
    with tk show ?thesis by (intro exI [of _ "length (dg_sent s)"]) simp
  qed
  show "\<not> dg_step serve s s'" if "dg_waiting s" "dg_up s = []" "dg_down s = []"
    using that by (auto simp: dg_send_def elim: dg_step.cases)
  show "dg_printed s = map ?f (dg_lines t)" if "\<not> dg_waiting s" "dg_typed s = []"
    using that ok l by (simp add: dg_ok_def dg_lines.simps [of "[]"])
qed

text \<open>A line always fits into the buffer of the server, so it comes back whole and in upper case.\<close>

lemma udp_upper_case:
  assumes "l \<in> set (dg_lines t)"
  shows "\<exists>s'. udp_round (Inr (a, l)) s = Next s' \<and> replies s' = replies s @ [(a, map toupper l)] \<and> take UDP_BUFSIZ (map toupper l) = map toupper l"
proof -
  have "length l < UDP_BUFSIZ" using assms
  proof (induction t rule: dg_lines.induct)
    case (1 t)
    show ?case
    proof (cases "t = []")
      case False
      have "length (c_text (fgets UDP_BUFSIZ t)) < UDP_BUFSIZ"
        using c_text_length [of "fgets UDP_BUFSIZ t"] by (auto simp: fgets_def UDP_BUFSIZ_def)
      with 1 False show ?thesis by (auto simp: dg_lines.simps [of t])
    qed (use 1 in \<open>simp add: dg_lines.simps\<close>)
  qed
  then show ?thesis by (simp add: udp_round_def Let_def)
qed

section \<open>The blocking clients\<close>

text \<open>\<open>cin.getline(request, max_length)\<close> and \<open>strlen\<close>.\<close>

definition blocking_request :: "string \<Rightarrow> string" where
  "blocking_request t = c_text (take (udp_max_length - 1) (takeWhile (\<lambda>c. c \<noteq> LF) t))"

definition blocking_reply :: "string \<Rightarrow> string" where
  "blocking_reply d = take udp_max_length d"

lemma blocking_udp_echo:
  "\<exists>s'. udp_echo_round (Inr (a, blocking_request t)) s = Next s' \<and> replies s' = replies s @ [(a, blocking_request t)]
     \<and> blocking_reply (blocking_request t) = blocking_request t"
proof -
  have "length (blocking_request t) \<le> udp_max_length"
    using c_text_length [of "take (udp_max_length - 1) (takeWhile (\<lambda>c. c \<noteq> LF) t)"] by (simp add: blocking_request_def udp_max_length_def)
  then show ?thesis by (simp add: udp_echo_round_def blocking_reply_def)
qed

text \<open>\<open>daytime4\<close> sends one byte and prints up to 128 bytes of the answer, which the string of \<open>ctime\<close> never exceeds.\<close>

definition daytime4 :: "string \<Rightarrow> string" where
  "daytime4 d = take 128 d"

lemma udp_daytime:
  "length now = 25 \<Longrightarrow>
   \<exists>s'. udp_daytime_round now (Inr (a, [NUL])) s = Next s' \<and> replies s' = replies s @ [(a, now)] \<and> daytime4 now = now"
  by (simp add: udp_daytime_round_def daytime4_def)

section \<open>Broadcast and multicast\<close>

text \<open>The counter of the messages is an \<open>int\<close>: \<open>None\<close> after its last value.\<close>

definition broadcast_message :: "nat \<Rightarrow> string" where
  "broadcast_message i = ''Drink '' @ to_string i @ '' glasses of water'' @ [LF]"

definition multicast_message :: "nat \<Rightarrow> string" where
  "multicast_message i = ''itcast '' @ to_string i @ [LF]"

definition announce :: "(nat \<Rightarrow> string) \<Rightarrow> nat \<Rightarrow> (nat \<times> string) option" where
  "announce msg i = (if i + 1 < 2 ^ 31 then Some (i + 1, msg i) else None)"

primrec announcements :: "(nat \<Rightarrow> string) \<Rightarrow> nat \<Rightarrow> nat \<Rightarrow> string list" where
  "announcements msg 0 i = []"
| "announcements msg (Suc n) i =
     (case announce msg i of None \<Rightarrow> [] | Some (j, m) \<Rightarrow> m # announcements msg n j)"

text \<open>A receiver prints what reaches it, cut to its buffer.\<close>

definition receiver_prints :: "nat \<Rightarrow> string list \<Rightarrow> string" where
  "receiver_prints room ds = concat (map (take room) ds)"

text \<open>
  The messages fit into the buffers of the sender and of the receivers, and a receiver that misses some of them
  prints the others whole and in order.
\<close>

theorem announcements_received:
  assumes "subseq ds (announcements msg n 0)" and msg: "msg = broadcast_message \<or> msg = multicast_message" and room: "1500 \<le> room"
  shows "receiver_prints room ds = concat ds" "m \<in> set (announcements msg n 0) \<Longrightarrow> length m < 1500"
proof -
  have fits: "\<forall>m \<in> set (announcements msg n i). length m < 1500" for i
  proof (induction n arbitrary: i)
    case (Suc n)
    show ?case
    proof (cases "i + 1 < 2 ^ 31")
      case True
      then have "length (to_string i) \<le> 10" by (intro to_string_digits_le) simp_all
      then have "length (msg i) < 1500" using msg by (auto simp: broadcast_message_def multicast_message_def)
      with Suc True show ?thesis by (simp add: announce_def)
    qed (simp add: announce_def)
  qed simp
  show "length m < 1500" if "m \<in> set (announcements msg n 0)" using that fits by blast
  have "set ds \<subseteq> set (announcements msg n 0)" using assms(1) by (metis notin_set_nthsI subseq_conv_nths subsetI)
  with fits room have "\<forall>m \<in> set ds. take room m = m" by fastforce
  then have "map (take room) ds = ds" by (simp add: map_idI)
  then show "receiver_prints room ds = concat ds" by (simp add: receiver_prints_def)
qed

end
