(* ===== verification/Pool_Shutdown.thy ===== *)
theory Pool_Shutdown
  imports Thread_Pool
begin

text \<open>
  The end of the C++98 and C++03 pools of \<^verbatim>\<open>src/zl_threadpool\<close>: \<open>stop\<close> with its joins and what it destroys,
  and the destructor, which deletes the tasks that are left.
\<close>

text \<open>\<open>joined\<close> is the number of threads that \<open>stop\<close> has joined, once it has been called.\<close>

record shutdown =
  the_pool :: upool
  joined :: "nat option"
  destroyed :: bool
  deleted :: "nat list"

definition pool_size :: "upool \<Rightarrow> nat" where
  "pool_size p = length (u_tasks p)"

definition fresh_pool :: "nat \<Rightarrow> shutdown" where
  "fresh_pool n = \<lparr>the_pool = new_upool n, joined = None, destroyed = False, deleted = []\<rparr>"

definition begin_stop :: "shutdown \<Rightarrow> shutdown option" where
  "begin_stop s =
     (case stop98 (the_pool s) of None \<Rightarrow> None | Some p \<Rightarrow> Some (s\<lparr>the_pool := p, joined := Some 0\<rparr>))"

text \<open>The broadcast comes before the joins.\<close>

definition join_next :: "nat \<Rightarrow> shutdown \<Rightarrow> shutdown option" where
  "join_next n s =
     (case joined s of
        None \<Rightarrow> None
      | Some k \<Rightarrow>
          if k < n \<and> u_broadcasts (the_pool s) = 0 \<and> u_worker (the_pool s) k = U_exit
          then Some (s\<lparr>joined := Some (k + 1)\<rparr>) else None)"

text \<open>The rest of \<open>stop\<close>, and the destructor.\<close>

definition finish_pool :: "nat \<Rightarrow> shutdown \<Rightarrow> shutdown option" where
  "finish_pool n s =
     (if joined s = Some n \<and> \<not> destroyed s
      then Some (s\<lparr>destroyed := True, deleted := u_tasks (the_pool s), the_pool := (the_pool s)\<lparr>u_tasks := []\<rparr>\<rparr>) else None)"

text \<open>
  The threads of the pool, and others that add tasks, go on while \<open>stop\<close> waits; once the pool has been destroyed,
  nobody may use it.
\<close>

inductive shutdown_step :: "(bool \<Rightarrow> bool \<Rightarrow> decision) \<Rightarrow> nat \<Rightarrow> shutdown \<Rightarrow> shutdown \<Rightarrow> bool" for decide n where
  sd_pool: "\<not> destroyed s \<Longrightarrow> u_step decide False (the_pool s) p \<Longrightarrow> u_stop p = u_stop (the_pool s) \<Longrightarrow>
    shutdown_step decide n s (s\<lparr>the_pool := p\<rparr>)"
| sd_stop: "\<not> destroyed s \<Longrightarrow> begin_stop s = Some t \<Longrightarrow> shutdown_step decide n s t"
| sd_join: "join_next n s = Some t \<Longrightarrow> shutdown_step decide n s t"
| sd_finish: "finish_pool n s = Some t \<Longrightarrow> shutdown_step decide n s t"

definition threads_ok :: "nat \<Rightarrow> upool \<Rightarrow> bool" where
  "threads_ok n p \<longleftrightarrow>
     (\<forall>i. n \<le> i \<longrightarrow> u_worker p i = U_exit) \<and> (\<forall>i. u_mutex p = Some i \<longleftrightarrow> u_worker p i = U_checked)"

lemma threads_ok_exit:
  assumes st: "u_step decide False p q" and e: "u_worker p i = U_exit"
  shows "u_worker q i = U_exit"
  using st
proof cases
  case (us_section j)
  then show ?thesis using e by (cases "decide (u_stop p) (u_tasks p = [])") (auto simp: u_defs)
qed (use e in \<open>auto simp: u_defs split: if_splits\<close>)

lemma mutex_holder:
  assumes st: "u_step decide False p q" and m: "\<forall>i. u_mutex p = Some i \<longleftrightarrow> u_worker p i = U_checked"
  shows "u_mutex q = Some i \<longleftrightarrow> u_worker q i = U_checked"
  using st
proof cases
  case (us_section j)
  then show ?thesis using m [rule_format, of i] by (cases "decide (u_stop p) (u_tasks p = [])") (auto simp: u_defs)
next
  case (us_wait j)
  then have "u_mutex p = Some j" using m by simp
  with us_wait m [rule_format, of i] show ?thesis by (auto simp: u_defs)
qed (use m [rule_format, of i] in \<open>auto simp: u_defs split: if_splits\<close>)

definition shutdown_ok :: "nat \<Rightarrow> shutdown \<Rightarrow> bool" where
  "shutdown_ok n s \<longleftrightarrow>
     threads_ok n (the_pool s)
     \<and> u_submitted (the_pool s) = u_begun (the_pool s) @ u_tasks (the_pool s) @ deleted s
     \<and> (destroyed s \<longrightarrow> joined s = Some n \<and> u_tasks (the_pool s) = []) \<and> (\<not> destroyed s \<longrightarrow> deleted s = [])
     \<and> (\<forall>k. joined s = Some k \<longrightarrow> k \<le> n \<and> (\<forall>i < k. u_worker (the_pool s) i = U_exit))
     \<and> (joined s = None \<longleftrightarrow> \<not> u_stop (the_pool s))"

lemma shutdown_ok_step:
  assumes d: "sound_decide decide" and ok: "shutdown_ok n s" and st: "shutdown_step decide n s t"
  shows "shutdown_ok n t"
  using st
proof cases
  case (sd_pool p)
  have "u_order (the_pool s)" using ok sd_pool by (simp add: shutdown_ok_def u_order_def)
  then have "u_submitted p = u_begun p @ u_tasks p" using u_order_step [OF d _ sd_pool(3)] by (simp add: u_order_def)
  moreover have "threads_ok n p"
    using ok threads_ok_exit [OF sd_pool(3)] mutex_holder [OF sd_pool(3)] by (simp add: shutdown_ok_def threads_ok_def)
  moreover have "u_worker (the_pool s) i = U_exit \<Longrightarrow> u_worker p i = U_exit" for i using threads_ok_exit [OF sd_pool(3)] .
  ultimately show ?thesis using ok sd_pool by (simp add: shutdown_ok_def)
next
  case sd_stop
  then obtain p where p: "stop98 (the_pool s) = Some p" "t = s\<lparr>the_pool := p, joined := Some 0\<rparr>"
    by (auto simp: begin_stop_def split: option.splits)
  then have "p = u_halt (the_pool s)" by (auto simp: stop98_def split: if_splits)
  with p sd_stop ok show ?thesis by (simp add: shutdown_ok_def threads_ok_def u_halt_def)
next
  case sd_join
  then obtain k where "joined s = Some k" "k < n" "u_worker (the_pool s) k = U_exit" "t = s\<lparr>joined := Some (k + 1)\<rparr>"
    by (auto simp: join_next_def split: option.splits if_splits)
  moreover have "\<forall>i < k. u_worker (the_pool s) i = U_exit" using ok calculation(1) by (simp add: shutdown_ok_def)
  ultimately show ?thesis using ok by (auto simp: shutdown_ok_def less_Suc_eq)
next
  case sd_finish
  then show ?thesis using ok by (auto simp: finish_pool_def shutdown_ok_def threads_ok_def split: if_splits)
qed

lemma shutdown_ok_fresh: "shutdown_ok n (fresh_pool n)"
  by (simp add: shutdown_ok_def fresh_pool_def threads_ok_def new_upool_def)

interpretation shutdown98: invariant_system "\<lambda>s. s = fresh_pool n" "shutdown_step take98 n" "shutdown_ok n" for n
  by unfold_locales (use shutdown_ok_fresh shutdown_ok_step sound_decides(2) in blast)+

interpretation shutdown03: invariant_system "\<lambda>s. s = fresh_pool n" "shutdown_step take03 n" "shutdown_ok n" for n
  by unfold_locales (use shutdown_ok_fresh shutdown_ok_step sound_decides(3) in blast)+

text \<open>
  When a C++98 or C++03 pool has been destroyed, every thread has ended and the mutex was free, so that destroying it
  was defined; and every task that was ever accepted has either begun or been deleted, once, in the order of
  submission.
\<close>

theorem pool_accounts_for_tasks:
  assumes r: "reach (\<lambda>s. s = fresh_pool n) (shutdown_step take98 n) s \<or> reach (\<lambda>s. s = fresh_pool n) (shutdown_step take03 n) s"
    and d: "destroyed s"
  shows "(\<forall>i. u_worker (the_pool s) i = U_exit) \<and> u_mutex (the_pool s) = None
    \<and> u_submitted (the_pool s) = u_begun (the_pool s) @ deleted s \<and> pool_size (the_pool s) = 0"
proof -
  have ok: "shutdown_ok n s" using r shutdown98.invariant shutdown03.invariant by blast
  then have w: "u_worker (the_pool s) i = U_exit" for i
    using d by (cases "i < n") (auto simp: shutdown_ok_def threads_ok_def)
  then have "u_mutex (the_pool s) \<noteq> Some i" for i using ok by (simp add: shutdown_ok_def threads_ok_def)
  then have "u_mutex (the_pool s) = None" by (cases "u_mutex (the_pool s)") auto
  with w ok d show ?thesis by (simp add: shutdown_ok_def pool_size_def)
qed

text \<open>A pool without threads keeps its tasks to the end, and deletes them.\<close>

theorem pool_accounts_for_tasks_witness:
  "\<exists>s. reach (\<lambda>s. s = fresh_pool 0) (shutdown_step take98 0) s \<and> u_submitted (the_pool s) = [7] \<and> deleted s = [7]
     \<and> u_mutex (the_pool s) = None"
proof -
  let ?r = "reach (\<lambda>s. s = fresh_pool 0) (shutdown_step take98 0)"
  define p where "p = (new_upool 0)\<lparr>u_tasks := [7], u_submitted := [7], u_wakeups := 1\<rparr>"
  define a where "a = (fresh_pool 0)\<lparr>the_pool := p\<rparr>"
  define b where "b = a\<lparr>the_pool := u_halt p, joined := Some 0\<rparr>"
  define c where "c = b\<lparr>destroyed := True, deleted := [7], the_pool := (the_pool b)\<lparr>u_tasks := []\<rparr>\<rparr>"
  have "u_step take98 False (new_upool 0) p"
    by (rule us_add [where t = 7]) (simp_all add: u_add_def p_def new_upool_def)
  then have "shutdown_step take98 0 (fresh_pool 0) a"
    unfolding a_def by (intro sd_pool) (simp_all add: fresh_pool_def p_def)
  moreover have "shutdown_step take98 0 a b"
    by (rule sd_stop) (simp_all add: a_def b_def fresh_pool_def begin_stop_def stop98_def p_def new_upool_def)
  moreover have "shutdown_step take98 0 b c"
    by (rule sd_finish) (simp add: finish_pool_def b_def c_def a_def fresh_pool_def p_def u_halt_def)
  moreover have "?r (fresh_pool 0)" by (simp add: reach.reach_init)
  ultimately have r: "?r c" by (meson reach.reach_step)
  have c: "destroyed c" "deleted c = [7]" "u_submitted (the_pool c) = [7]"
    by (simp_all add: c_def b_def a_def fresh_pool_def p_def u_halt_def)
  from pool_accounts_for_tasks [of 0 c] r c show ?thesis by blast
qed

end
