(* ===== verification/Small_Programs.thy ===== *)
theory Small_Programs
  imports Line_Clients
begin

text \<open>
  Small programs with a buffer or a loop: \<open>ExecuteCMD\<close> of \<^verbatim>\<open>src/c_shell.c\<close>, the file copy of \<^verbatim>\<open>src/stl/stl_1.11.cpp\<close>,
  the search for the end of the environment in \<^verbatim>\<open>src/test/test_environ.c\<close>, the keyboard program
  \<^verbatim>\<open>src/Linux_Net/01.*\<close>, and the one-shot server and client of \<^verbatim>\<open>src/Linux_Net/TCP_Server\<close>.
\<close>

section \<open>The output of a command\<close>

definition CMD_RESULT_BUF_SIZE :: nat where
  "CMD_RESULT_BUF_SIZE = 1024"

text \<open>
  \<open>room\<close> is the size of the caller's buffer, \<open>out\<close> what the command writes. A \<open>strcat\<close> behind the end of the
  buffer is \<open>Undefined\<close>; the length is tested after it.
\<close>

function exec_loop :: "nat \<Rightarrow> string \<Rightarrow> string \<Rightarrow> string outcome" where
  "exec_loop room out result =
     (if out = [] then Next result
      else
        (let buf_ps = c_text (fgets CMD_RESULT_BUF_SIZE out); result' = result @ buf_ps in
         if room \<le> length result' then Undefined
         else if CMD_RESULT_BUF_SIZE < length result' then Next result'
         else exec_loop room (fgets_rest CMD_RESULT_BUF_SIZE out) result'))"
  by pat_completeness auto
termination
  by (relation "measure (\<lambda>(room, out, result). length out)") (auto intro: fgets_rest_shorter simp: CMD_RESULT_BUF_SIZE_def)

declare exec_loop.simps [simp del]

text \<open>The return value and the buffer; \<open>None\<close> as output is a \<open>popen\<close> that fails.\<close>

definition ExecuteCMD :: "nat \<Rightarrow> string \<Rightarrow> string option \<Rightarrow> string \<Rightarrow> (int \<times> string) outcome" where
  "ExecuteCMD room cmd out result =
     (if CMD_RESULT_BUF_SIZE \<le> length cmd then Undefined
      else
        (case out of
           None \<Rightarrow> Next (- 1, result)
         | Some text \<Rightarrow>
             (case exec_loop room text result of Next r \<Rightarrow> Next (0, r) | Undefined \<Rightarrow> Undefined | Exits \<Rightarrow> Exits | Blocks \<Rightarrow> Blocks)))"

lemma fgets_set: "set (fgets n t) \<subseteq> set t" "set (fgets_rest n t) \<subseteq> set t"
  by (auto simp: fgets_def fgets_rest_def dest: in_set_takeD in_set_dropD)

text \<open>With a buffer of the size of \<open>main\<close> the test never stops the loop: the output fits, or the buffer overflows.\<close>

lemma exec_loop_small:
  "room \<le> Suc CMD_RESULT_BUF_SIZE \<Longrightarrow> NUL \<notin> set out \<Longrightarrow> length result < room \<Longrightarrow>
   exec_loop room out result = (if length result + length out < room then Next (result @ out) else Undefined)"
proof (induction room out result rule: exec_loop.induct)
  case (1 room out result)
  let ?n = CMD_RESULT_BUF_SIZE
  show ?case
  proof (cases "out = []")
    case True
    with 1(4) show ?thesis by (simp add: exec_loop.simps)
  next
    case False
    have n: "NUL \<notin> set (fgets ?n out)" "NUL \<notin> set (fgets_rest ?n out)" using 1(3) fgets_set [of ?n out] by auto
    then have b: "c_text (fgets ?n out) = fgets ?n out" by (simp add: c_text_id)
    have len: "length (fgets ?n out) + length (fgets_rest ?n out) = length out" by (rule fgets_length)
    show ?thesis
    proof (cases "room \<le> length (result @ fgets ?n out)")
      case True
      with False b len show ?thesis by (simp add: exec_loop.simps [of room out] Let_def)
    next
      case fits: False
      with 1(2) have "\<not> ?n < length (result @ fgets ?n out)" by simp
      moreover from fits have "length (result @ fgets ?n out) < room" by simp
      ultimately have "exec_loop room (fgets_rest ?n out) (result @ fgets ?n out) =
          (if length (result @ fgets ?n out) + length (fgets_rest ?n out) < room
           then Next ((result @ fgets ?n out) @ fgets_rest ?n out) else Undefined)"
        using 1(1) [OF False refl refl] 1(2) n(2) b fits by simp
      moreover have "exec_loop room out result = exec_loop room (fgets_rest ?n out) (result @ fgets ?n out)"
        using False b fits \<open>\<not> ?n < length (result @ fgets ?n out)\<close> by (simp add: exec_loop.simps [of room out] Let_def)
      ultimately show ?thesis using len by simp
    qed
  qed
qed

text \<open>A buffer of twice the size is never overrun: at most 1024 characters are there before the last \<open>strcat\<close>.\<close>

lemma exec_loop_safe:
  "2 * CMD_RESULT_BUF_SIZE \<le> room \<Longrightarrow> length result \<le> CMD_RESULT_BUF_SIZE \<Longrightarrow> \<exists>r. exec_loop room out result = Next r"
proof (induction room out result rule: exec_loop.induct)
  case (1 room out result)
  let ?n = CMD_RESULT_BUF_SIZE
  have "length (c_text (fgets ?n out)) < ?n"
    using c_text_length [of "fgets ?n out"] by (auto simp: fgets_def CMD_RESULT_BUF_SIZE_def)
  with 1(3) have "length (result @ c_text (fgets ?n out)) < 2 * ?n" by simp
  with 1 show ?case by (auto simp: exec_loop.simps [of room out] Let_def not_le)
qed

text \<open>
  \<open>ExecuteCMD\<close> with the buffer of \<open>main\<close>: it returns 0 with the whole output exactly when this has less than 1024
  characters, and overruns the buffer otherwise; with 2048 bytes it would always return.
\<close>

theorem ExecuteCMD_overflow_iff:
  assumes "length cmd < CMD_RESULT_BUF_SIZE" "NUL \<notin> set out"
  shows "ExecuteCMD CMD_RESULT_BUF_SIZE cmd (Some out) [] = (if length out < CMD_RESULT_BUF_SIZE then Next (0, out) else Undefined)"
    "\<exists>r. ExecuteCMD (2 * CMD_RESULT_BUF_SIZE) cmd (Some out) [] = Next (0, r)"
proof -
  show "ExecuteCMD CMD_RESULT_BUF_SIZE cmd (Some out) [] = (if length out < CMD_RESULT_BUF_SIZE then Next (0, out) else Undefined)"
    using assms exec_loop_small [of CMD_RESULT_BUF_SIZE out "[]"] by (simp add: ExecuteCMD_def CMD_RESULT_BUF_SIZE_def)
  obtain r where "exec_loop (2 * CMD_RESULT_BUF_SIZE) out [] = Next r"
    using exec_loop_safe [of "2 * CMD_RESULT_BUF_SIZE" "[]" out] by auto
  then show "\<exists>r. ExecuteCMD (2 * CMD_RESULT_BUF_SIZE) cmd (Some out) [] = Next (0, r)"
    using assms(1) by (simp add: ExecuteCMD_def)
qed

theorem ExecuteCMD_overflow_iff_witness:
  "ExecuteCMD CMD_RESULT_BUF_SIZE ''ls -l'' (Some ''total 0'') [] = Next (0, ''total 0'')"
  using ExecuteCMD_overflow_iff(1) [of "''ls -l''" "''total 0''"] by (simp add: CMD_RESULT_BUF_SIZE_def)

section \<open>A file copied line by line\<close>

definition getline_room :: nat where
  "getline_room = 128"

record instream =
  rest :: string
  eof :: bool
  fail :: bool

text \<open>
  \<open>getline(content, 128)\<close>: the end of the file is looked at first, then the newline, then the room; a stream that
  has failed delivers nothing and does not come to its end.
\<close>

definition getline128 :: "instream \<Rightarrow> string \<times> instream" where
  "getline128 s =
     (if eof s \<or> fail s then ([], s\<lparr>fail := True\<rparr>)
      else
        (let line = takeWhile (\<lambda>c. c \<noteq> LF) (rest s) in
         if getline_room \<le> length line
         then (take (getline_room - 1) line, s\<lparr>rest := drop (getline_room - 1) (rest s), fail := True\<rparr>)
         else if rest s = line then (line, s\<lparr>rest := [], eof := True, fail := (line = [])\<rparr>)
         else (line, s\<lparr>rest := drop (Suc (length line)) (rest s)\<rparr>)))"

text \<open>\<open>None\<close>: the loop does not end.\<close>

partial_function (option) copy_lines :: "instream \<Rightarrow> string \<Rightarrow> string option" where
  "copy_lines s out =
     (if eof s then Some out
      else (case getline128 s of (content, s') \<Rightarrow> copy_lines s' (out @ c_text content @ [LF])))"

text \<open>A file that cannot be opened leaves the stream failed.\<close>

definition copy_file :: "string option \<Rightarrow> string option" where
  "copy_file f =
     copy_lines (case f of None \<Rightarrow> \<lparr>rest = [], eof = False, fail = True\<rparr> | Some t \<Rightarrow> \<lparr>rest = t, eof = False, fail = False\<rparr>) []"

lemma copy_lines_returns:
  assumes "copy_lines s out = Some r"
  shows "\<not> (fail s \<and> \<not> eof s)"
proof (rule copy_lines.raw_induct [rotated])
  show "copy_lines s out = Some r" by (rule assms)
next
  fix cl s out r
  assume ih: "\<And>s out r. cl s out = Some r \<Longrightarrow> \<not> (fail s \<and> \<not> eof s)"
    and r: "(if eof s then Some out else case getline128 s of (content, s') \<Rightarrow> cl s' (out @ c_text content @ [LF])) = Some r"
  show "\<not> (fail s \<and> \<not> eof s)"
  proof
    assume f: "fail s \<and> \<not> eof s"
    then have "cl (s\<lparr>fail := True\<rparr>) (out @ c_text [] @ [LF]) = Some r" using r by (simp add: getline128_def)
    from ih [OF this] f show False by simp
  qed
qed

lemma copy_lines_failed: "fail s \<Longrightarrow> \<not> eof s \<Longrightarrow> copy_lines s out = None"
  using copy_lines_returns [of s out] by (cases "copy_lines s out") auto

lemma copy_lines_step: "\<not> eof s \<Longrightarrow> getline128 s = (c, s') \<Longrightarrow> copy_lines s out = copy_lines s' (out @ c_text c @ [LF])"
  by (subst copy_lines.simps) simp

lemma copy_lines_end: "eof s \<Longrightarrow> copy_lines s out = Some out"
  by (subst copy_lines.simps) simp

lemma not_all_nonempty: "t \<noteq> takeWhile P t \<Longrightarrow> length t - Suc n < length t"
  by (cases t) auto

lemma split_at_newline:
  assumes "t \<noteq> takeWhile (\<lambda>c. c \<noteq> LF) t"
  shows "takeWhile (\<lambda>c. c \<noteq> LF) t @ LF # drop (Suc (length (takeWhile (\<lambda>c. c \<noteq> LF) t))) t = t"
  using assms by (induction t) auto

text \<open>All lines have at most 127 characters.\<close>

function short_lines :: "string \<Rightarrow> bool" where
  "short_lines t =
     (let line = takeWhile (\<lambda>c. c \<noteq> LF) t in
      length line < getline_room \<and> (if t = line then True else short_lines (drop (Suc (length line)) t)))"
  by pat_completeness auto
termination
  by (relation "measure length") (auto simp: not_all_nonempty)

declare short_lines.simps [simp del]

text \<open>
  The loop tests for the end before it reads. A file whose lines have at most 127 characters is copied with a newline
  too many; a longer line, or a file that is not there, makes the program write for ever.
\<close>

theorem copy_file_adds_newline:
  assumes "NUL \<notin> set t"
  shows "copy_file (Some t) = (if short_lines t then Some (t @ [LF]) else None)" "copy_file None = None"
proof -
  have "copy_lines \<lparr>rest = t, eof = False, fail = False\<rparr> out = (if short_lines t then Some (out @ t @ [LF]) else None)" for out
    using assms
  proof (induction t arbitrary: out rule: short_lines.induct)
    case (1 t)
    note IH = 1(1) and prem = 1(2)
    let ?l = "takeWhile (\<lambda>c. c \<noteq> LF) t"
    let ?u = "drop (Suc (length ?l)) t"
    let ?s = "\<lparr>rest = t, eof = False, fail = False\<rparr>"
    have nul: "c_text ?l = ?l" using 1(2) by (intro c_text_id) (auto dest: set_takeWhileD)
    consider "getline_room \<le> length ?l" | "\<not> getline_room \<le> length ?l" "t = ?l" | "\<not> getline_room \<le> length ?l" "t \<noteq> ?l" by blast
    then show ?case
    proof cases
      case 1
      then have "getline128 ?s = (take (getline_room - 1) ?l, \<lparr>rest = drop (getline_room - 1) t, eof = False, fail = True\<rparr>)"
        by (simp add: getline128_def)
      then have "copy_lines ?s out = None" using copy_lines_step [of ?s] copy_lines_failed [of "\<lparr>rest = drop (getline_room - 1) t, eof = False, fail = True\<rparr>"]
        by (simp only: instream.simps simp_thms)
      with 1 show ?thesis by (simp add: short_lines.simps [of t] Let_def)
    next
      case 2
      have "getline128 ?s = (?l, \<lparr>rest = [], eof = True, fail = (?l = [])\<rparr>)"
        unfolding getline128_def Let_def using 2 by simp
      then have "copy_lines ?s out = Some (out @ ?l @ [LF])"
        using copy_lines_step [of ?s] copy_lines_end [of "\<lparr>rest = [], eof = True, fail = (?l = [])\<rparr>"]
        by (simp only: nul instream.simps simp_thms)
      moreover have "short_lines t" using 2 using short_lines.simps [of t] unfolding Let_def not_le if_P [OF 2(2)] by blast
      ultimately show ?thesis using 2(2) by (simp only: if_True)
    next
      case 3
      have g: "getline128 ?s = (?l, \<lparr>rest = ?u, eof = False, fail = False\<rparr>)"
        unfolding getline128_def Let_def using 3 by simp
      have "copy_lines ?s out = copy_lines \<lparr>rest = ?u, eof = False, fail = False\<rparr> (out @ ?l @ [LF])"
        using copy_lines_step [OF _ g] by (simp add: nul)
      also have "\<dots> = (if short_lines ?u then Some ((out @ ?l @ [LF]) @ ?u @ [LF]) else None)"
        by (rule IH [OF refl 3(2)]) (use prem in \<open>auto dest: in_set_dropD\<close>)
      also have "(out @ ?l @ [LF]) @ ?u @ [LF] = out @ (?l @ LF # ?u) @ [LF]" by simp
      also have "?l @ LF # ?u = t" by (rule split_at_newline [OF 3(2)])
      also have "short_lines ?u = short_lines t" using short_lines.simps [of t] 3(1) unfolding Let_def not_le if_not_P [OF 3(2)] by blast
      finally show ?thesis .
    qed
  qed
  then show "copy_file (Some t) = (if short_lines t then Some (t @ [LF]) else None)" by (simp add: copy_file_def)
  show "copy_file None = None" by (simp add: copy_file_def copy_lines_failed)
qed

theorem copy_file_adds_newline_witness: "copy_file (Some ''ab'') = Some (''ab'' @ [LF])"
proof -
  have "short_lines ''ab''" by (simp add: short_lines.simps Let_def getline_room_def)
  then show ?thesis using copy_file_adds_newline(1) [of "''ab''"] by simp
qed

section \<open>The end of the environment\<close>

text \<open>A string of the arguments or the environment is its address and its length without the null byte.\<close>

type_synonym placed = "nat \<times> nat"

definition string_end :: "placed \<Rightarrow> nat" where
  "string_end p = fst p + snd p + 1"

text \<open>\<open>argv\<close> may have null pointers; \<open>envp\<close> ends with the first.\<close>

definition argv_end :: "nat \<Rightarrow> placed option list \<Rightarrow> nat" where
  "argv_end e args = foldl (\<lambda>e a. case a of None \<Rightarrow> e | Some p \<Rightarrow> if fst p < e then e else string_end p) e args"

definition envp_end :: "nat \<Rightarrow> placed list \<Rightarrow> nat" where
  "envp_end e env = foldl (\<lambda>e p. if fst p < e then e else string_end p) e env"

definition spt_init :: "placed option list \<Rightarrow> placed list \<Rightarrow> nat option" where
  "spt_init args env =
     (case args of
        Some base # _ \<Rightarrow> Some (envp_end (argv_end (string_end base) args) env)
      | _ \<Rightarrow> None)"

text \<open>Strings that lie one behind the other.\<close>

fun contiguous :: "nat \<Rightarrow> placed list \<Rightarrow> bool" where
  "contiguous a [] \<longleftrightarrow> True"
| "contiguous a (p # ps) \<longleftrightarrow> fst p = a \<and> contiguous (string_end p) ps"

definition last_end :: "nat \<Rightarrow> placed list \<Rightarrow> nat" where
  "last_end a ps = foldl (\<lambda>_ p. string_end p) a ps"

lemma contiguous_end: "contiguous a ps \<Longrightarrow> foldl (\<lambda>e p. if fst p < e then e else string_end p) a ps = last_end a ps"
  by (induction ps arbitrary: a) (simp_all add: last_end_def)

lemma argv_end_somes: "argv_end e (map Some ps) = foldl (\<lambda>e p. if fst p < e then e else string_end p) e ps"
  by (induction ps arbitrary: e) (simp_all add: argv_end_def)

text \<open>When the kernel has put the arguments and the environment in a row, the end of the last string is found.\<close>

theorem spt_init_finds_end:
  assumes "args \<noteq> []" "contiguous a (args @ env)"
  shows "spt_init (map Some args) env = Some (last_end a (args @ env))"
proof -
  obtain p ps where args: "args = p # ps" using assms(1) by (cases args) auto
  have c: "fst p = a" "contiguous (string_end p) (ps @ env)" using assms(2) by (simp_all add: args)
  have split: "contiguous b (xs @ ys) \<longleftrightarrow> contiguous b xs \<and> contiguous (last_end b xs) ys" for b xs ys
    by (induction xs arbitrary: b) (simp_all add: last_end_def)
  have "argv_end (string_end p) (map Some args) = last_end (string_end p) ps"
  proof -
    have "argv_end (string_end p) (map Some args) = argv_end (string_end p) (map Some ps)"
      by (simp add: argv_end_def args string_end_def)
    also have "\<dots> = last_end (string_end p) ps"
      unfolding argv_end_somes using c(2) split by (intro contiguous_end) simp
    finally show ?thesis .
  qed
  moreover have "envp_end (last_end (string_end p) ps) env = last_end (last_end (string_end p) ps) env"
    unfolding envp_end_def using c(2) split by (intro contiguous_end) simp
  ultimately show ?thesis by (simp add: spt_init_def args) (simp add: last_end_def)
qed

theorem spt_init_finds_end_witness: "spt_init [Some (100, 4), Some (105, 2)] [(108, 6)] = Some 115"
  using spt_init_finds_end [of "[(100, 4), (105, 2)]" 100 "[(108, 6)]"] by (simp add: string_end_def last_end_def)

section \<open>The keyboard\<close>

text \<open>One turn of the loop: a select that fails, runs out of time, or reports the keyboard; a read may fail.\<close>

datatype key_event = Select_error | Time_out | Key "char option"

text \<open>\<open>key\<close> is the variable \<open>c\<close>, which a failed read leaves as it was; \<open>left_loop\<close>: the program has left its loop.\<close>

record keyboard =
  key :: "char option"
  shown_keys :: "char list"
  left_loop :: bool

definition key_round :: "key_event \<Rightarrow> keyboard \<Rightarrow> keyboard outcome" where
  "key_round ev s =
     (case ev of
        Select_error \<Rightarrow> Next s
      | Time_out \<Rightarrow> Next s
      | Key k \<Rightarrow>
          (let s = (case k of None \<Rightarrow> s | Some c \<Rightarrow> s\<lparr>key := Some c\<rparr>) in
           case key s of
             None \<Rightarrow> Undefined
           | Some c \<Rightarrow>
               if c = LF then Next s
               else Next (s\<lparr>shown_keys := shown_keys s @ [c], left_loop := (c = CHR ''q'')\<rparr>)))"

fun key_rounds :: "key_event list \<Rightarrow> keyboard \<Rightarrow> keyboard outcome" where
  "key_rounds [] s = Next s"
| "key_rounds (ev # evs) s =
     (if left_loop s then Next s else (case key_round ev s of Next s' \<Rightarrow> key_rounds evs s' | x \<Rightarrow> x))"

definition key_start :: keyboard where
  "key_start = \<lparr>key = None, shown_keys = [], left_loop = False\<rparr>"

text \<open>The keys are shown in order, without newlines and up to the first q, which is shown and ends the program.\<close>

lemma keys_shown:
  "CHR ''q'' \<notin> set cs \<Longrightarrow> \<not> left_loop s \<Longrightarrow>
   key_rounds (map (\<lambda>c. Key (Some c)) (cs @ CHR ''q'' # ds)) s =
     Next \<lparr>key = Some (CHR ''q''), shown_keys = shown_keys s @ filter (\<lambda>c. c \<noteq> LF) cs @ ''q'', left_loop = True\<rparr>"
proof (induction cs arbitrary: s)
  case Nil
  have "key_round (Key (Some (CHR ''q''))) s = Next \<lparr>key = Some (CHR ''q''), shown_keys = shown_keys s @ ''q'', left_loop = True\<rparr>"
    by (simp add: key_round_def Let_def)
  then show ?case using Nil(2) by (cases ds) simp_all
next
  case (Cons c cs)
  let ?t = "if c = LF then s\<lparr>key := Some c\<rparr> else s\<lparr>key := Some c, shown_keys := shown_keys s @ [c], left_loop := False\<rparr>"
  have "key_round (Key (Some c)) s = Next ?t" using Cons.prems by (auto simp: key_round_def Let_def)
  with Cons.IH [of ?t] Cons.prems show ?case by (auto split: if_splits)
qed

text \<open>A read that fails shows the last key again.\<close>

lemma failed_read_repeats:
  "key_rounds [Key (Some (CHR ''a'')), Key None] key_start = Next \<lparr>key = Some (CHR ''a''), shown_keys = ''aa'', left_loop = False\<rparr>"
  by (simp add: key_round_def key_start_def)

section \<open>One line over TCP\<close>

definition TCP_MAXLINE :: nat where
  "TCP_MAXLINE = 4096"

text \<open>
  The server prints what one \<open>recv\<close> delivers. The null byte goes behind it: outside the buffer when \<open>recv\<close> has
  failed, at index -1, or has filled the buffer.
\<close>

definition tcp_serve :: "answer \<Rightarrow> string outcome" where
  "tcp_serve a =
     (case a of
        Err e \<Rightarrow> Undefined
      | Got s \<Rightarrow> if TCP_MAXLINE \<le> length s then Undefined else Next (c_text s))"

text \<open>The client: at the end of the input \<open>sendline\<close> is uninitialised.\<close>

definition tcp_client :: "string \<Rightarrow> string outcome" where
  "tcp_client t = (if t = [] then Undefined else Next (c_text (fgets TCP_MAXLINE t)))"

text \<open>The line of the client never fills the buffer, and is printed as far as the first part of it that arrives.\<close>

lemma tcp_line_printed:
  assumes "tcp_client t = Next l" "0 < k"
  shows "tcp_serve (Got (take k l)) = Next (take k l)" "tcp_serve (Got l) = Next l"
proof -
  have l: "l = c_text (fgets TCP_MAXLINE t)" using assms(1) by (auto simp: tcp_client_def split: if_splits)
  then have "length l < TCP_MAXLINE" using c_text_length [of "fgets TCP_MAXLINE t"] by (auto simp: fgets_def TCP_MAXLINE_def)
  moreover have "NUL \<notin> set l" unfolding l c_text_def by (metis (mono_tags, lifting) set_takeWhileD)
  then have "c_text l = l" "c_text (take k l) = take k l" by (auto intro: c_text_id dest: in_set_takeD)
  ultimately show "tcp_serve (Got (take k l)) = Next (take k l)" "tcp_serve (Got l) = Next l" by (simp_all add: tcp_serve_def)
qed

lemma tcp_serve_overrun: "length s = TCP_MAXLINE \<Longrightarrow> tcp_serve (Got s) = Undefined" "tcp_serve (Err e) = Undefined"
  by (simp_all add: tcp_serve_def)

end
