(* ===== verification/Blocking_Echo.thy ===== *)
theory Blocking_Echo
  imports Line_Clients Transition
begin

text \<open>
  The blocking programs on TCP of \<^verbatim>\<open>src/boost\<close>: the echo server with a thread per connection with its client
  (\<^verbatim>\<open>blocking_tcp_echo_server.cpp\<close> and \<^verbatim>\<open>blocking_tcp_echo_client.cpp\<close>), and the daytime server and client
  (\<^verbatim>\<open>daytime2\<close> and \<^verbatim>\<open>daytime1\<close>). TCP carries the bytes of each direction in order and in pieces of any size;
  \<open>write\<close> and \<open>read\<close> of Asio are composed of \<open>write_some\<close> and \<open>read_some\<close> until the whole buffer is done.
\<close>

section \<open>The echo client and its session\<close>

definition echo_max_length :: nat where
  "echo_max_length = 1024"

text \<open>\<open>std::cin.getline\<close> keeps at most 1023 characters; \<open>strlen\<close> sees them up to a null byte.\<close>

definition echo_request :: "string \<Rightarrow> string" where
  "echo_request t = c_text (take (echo_max_length - 1) (takeWhile (\<lambda>c. c \<noteq> LF) t))"

text \<open>The client: in \<open>write\<close> with what is left, in \<open>read\<close> with the number of bytes that are missing, or at its end.\<close>

datatype echo_client = Asking string | Collecting nat | Shown string

text \<open>The thread of the session: in \<open>read_some\<close>, in \<open>write\<close> with what is left, or left.\<close>

datatype echo_thread = Listening | Answering string | Ended

record echo_pair =
  client :: echo_client
  thread :: echo_thread
  to_server :: string
  to_client :: string
  reply_buf :: string

definition echo_start :: "string \<Rightarrow> echo_pair" where
  "echo_start t =
     \<lparr>client = Asking (echo_request t), thread = Listening, to_server = [], to_client = [], reply_buf = []\<rparr>"

text \<open>One turn of \<open>session\<close> is split at its calls; \<open>k\<close> is how many bytes a call moves.\<close>

definition client_write :: "nat \<Rightarrow> echo_pair \<Rightarrow> echo_pair option" where
  "client_write k s =
     (case client s of
        Asking r \<Rightarrow> if 0 < k \<and> k \<le> length r then Some (s\<lparr>client := Asking (drop k r), to_server := to_server s @ take k r\<rparr>) else None
      | _ \<Rightarrow> None)"

text \<open>\<open>request_length\<close> bytes of the reply are read, so the whole \<open>read\<close> waits for as many as were sent.\<close>

definition client_read :: "nat \<Rightarrow> echo_pair \<Rightarrow> echo_pair option" where
  "client_read k s =
     (case client s of
        Collecting n \<Rightarrow>
          if 0 < k \<and> k \<le> n \<and> k \<le> length (to_client s)
          then Some (s\<lparr>client := Collecting (n - k), reply_buf := reply_buf s @ take k (to_client s), to_client := drop k (to_client s)\<rparr>)
          else None
      | _ \<Rightarrow> None)"

text \<open>What the client does when a call has finished; at the end of \<open>main\<close> the socket is closed.\<close>

definition client_goes :: "string \<Rightarrow> echo_pair \<Rightarrow> echo_pair option" where
  "client_goes t s =
     (case client s of
        Asking r \<Rightarrow> if r = [] then Some (s\<lparr>client := Collecting (length (echo_request t))\<rparr>) else None
      | Collecting n \<Rightarrow> if n = 0 then Some (s\<lparr>client := Shown (''Reply is: '' @ reply_buf s @ [LF])\<rparr>) else None
      | Shown out \<Rightarrow> None)"

text \<open>The end of the stream is reported when everything before it has been read.\<close>

definition session_read_some :: "nat \<Rightarrow> echo_pair \<Rightarrow> echo_pair option" where
  "session_read_some k s =
     (if thread s = Listening
      then (if to_server s = [] then (case client s of Shown out \<Rightarrow> Some (s\<lparr>thread := Ended\<rparr>) | _ \<Rightarrow> None)
            else if 0 < k \<and> k \<le> echo_max_length \<and> k \<le> length (to_server s)
            then Some (s\<lparr>thread := Answering (take k (to_server s)), to_server := drop k (to_server s)\<rparr>)
            else None)
      else None)"

definition session_write_some :: "nat \<Rightarrow> echo_pair \<Rightarrow> echo_pair option" where
  "session_write_some k s =
     (case thread s of
        Answering r \<Rightarrow>
          if r = [] then Some (s\<lparr>thread := Listening\<rparr>)
          else if 0 < k \<and> k \<le> length r then Some (s\<lparr>thread := Answering (drop k r), to_client := to_client s @ take k r\<rparr>)
          else None
      | _ \<Rightarrow> None)"

inductive pair_goes :: "string \<Rightarrow> echo_pair \<Rightarrow> echo_pair \<Rightarrow> bool" for t where
  ep_client_write: "client_write k s = Some u \<Longrightarrow> pair_goes t s u"
| ep_client_read: "client_read k s = Some u \<Longrightarrow> pair_goes t s u"
| ep_client_goes: "client_goes t s = Some u \<Longrightarrow> pair_goes t s u"
| ep_session_read: "session_read_some k s = Some u \<Longrightarrow> pair_goes t s u"
| ep_session_write: "session_write_some k s = Some u \<Longrightarrow> pair_goes t s u"

section \<open>The reply is the request\<close>

fun asking :: "echo_client \<Rightarrow> string" where
  "asking (Asking r) = r"
| "asking _ = []"

fun in_session :: "echo_thread \<Rightarrow> string" where
  "in_session (Answering r) = r"
| "in_session _ = []"

fun missing :: "string \<Rightarrow> string \<Rightarrow> echo_client \<Rightarrow> bool" where
  "missing q buf (Asking r) \<longleftrightarrow> buf = []"
| "missing q buf (Collecting n) \<longleftrightarrow> length buf + n = length q"
| "missing q buf (Shown out) \<longleftrightarrow> buf = q \<and> out = ''Reply is: '' @ q @ [LF]"

text \<open>Every byte of the request is at one place, and the places are in the order of the stream.\<close>

definition echo_ok :: "string \<Rightarrow> echo_pair \<Rightarrow> bool" where
  "echo_ok t s \<longleftrightarrow>
     reply_buf s @ to_client s @ in_session (thread s) @ to_server s @ asking (client s) = echo_request t
     \<and> missing (echo_request t) (reply_buf s) (client s) \<and> (thread s = Ended \<longrightarrow> (\<exists>out. client s = Shown out))"

lemma take_drop_app: "take k xs @ drop k xs @ ys = xs @ ys"
  by (simp flip: append_assoc)

lemma whole_part: "xs @ ys = q \<Longrightarrow> length xs = length q \<Longrightarrow> xs = q"
  by auto

lemma echo_ok_start: "echo_ok t (echo_start t)"
  by (simp add: echo_ok_def echo_start_def)

lemma echo_ok_step:
  assumes "echo_ok t s" "pair_goes t s u"
  shows "echo_ok t u"
  using assms(2)
proof cases
  case (ep_client_write k)
  then obtain r where "client s = Asking r" "u = s\<lparr>client := Asking (drop k r), to_server := to_server s @ take k r\<rparr>"
    by (auto simp: client_write_def split: echo_client.splits if_splits)
  then show ?thesis using assms(1) by (auto simp: echo_ok_def)
next
  case (ep_client_read k)
  then obtain n where "client s = Collecting n" "k \<le> n" "k \<le> length (to_client s)" "u = s\<lparr>client := Collecting (n - k), reply_buf := reply_buf s @ take k (to_client s), to_client := drop k (to_client s)\<rparr>"
    by (auto simp: client_read_def split: echo_client.splits if_splits)
  then show ?thesis using assms(1) by (auto simp: echo_ok_def take_drop_app)
next
  case ep_client_goes
  then show ?thesis
    using assms(1) by (auto simp: echo_ok_def client_goes_def split: echo_client.splits if_splits dest: whole_part arg_cong [of _ _ length])
next
  case (ep_session_read k)
  then show ?thesis
    using assms(1) by (auto simp: echo_ok_def session_read_some_def take_drop_app split: echo_client.splits if_splits)
next
  case (ep_session_write k)
  then show ?thesis
    using assms(1) by (auto simp: echo_ok_def session_write_some_def take_drop_app split: echo_thread.splits if_splits)
qed

interpretation blocking_echo: invariant_system "\<lambda>s. s = echo_start t" "pair_goes t" "echo_ok t" for t
  by unfold_locales (auto simp: echo_ok_start intro: echo_ok_step)

section \<open>The pair comes to its end\<close>

fun client_left :: "string \<Rightarrow> echo_client \<Rightarrow> nat" where
  "client_left q (Asking r) = 5 * length r + length q + 3"
| "client_left q (Collecting n) = n + 1"
| "client_left q (Shown out) = 0"

fun thread_left :: "echo_thread \<Rightarrow> nat" where
  "thread_left Ended = 0"
| "thread_left Listening = 1"
| "thread_left (Answering r) = length r + 2"

definition echo_left :: "string \<Rightarrow> echo_pair \<Rightarrow> nat" where
  "echo_left t s = client_left (echo_request t) (client s) + thread_left (thread s) + 3 * length (to_server s)"

lemma echo_left_decreases:
  assumes "pair_goes t s u"
  shows "echo_left t u < echo_left t s"
  using assms
proof cases
  case (ep_client_write k)
  then obtain r where "client s = Asking r" "0 < k" "k \<le> length r" "u = s\<lparr>client := Asking (drop k r), to_server := to_server s @ take k r\<rparr>"
    by (auto simp: client_write_def split: echo_client.splits if_splits)
  then show ?thesis by (simp add: echo_left_def)
next
  case (ep_client_read k)
  then show ?thesis by (auto simp: echo_left_def client_read_def split: echo_client.splits if_splits)
next
  case ep_client_goes
  then show ?thesis by (auto simp: echo_left_def client_goes_def split: echo_client.splits if_splits)
next
  case (ep_session_read k)
  then show ?thesis by (auto simp: echo_left_def session_read_some_def split: echo_client.splits if_splits)
next
  case (ep_session_write k)
  then show ?thesis by (auto simp: echo_left_def session_write_some_def split: echo_thread.splits if_splits)
qed

definition echo_over :: "echo_pair \<Rightarrow> bool" where
  "echo_over s \<longleftrightarrow> thread s = Ended"

lemma echo_goes_on:
  assumes "echo_ok t s" "\<not> echo_over s"
  shows "\<exists>u. pair_goes t s u"
proof (cases "thread s")
  case (Answering r)
  then have "\<exists>u. session_write_some 1 s = Some u" by (cases r) (auto simp: session_write_some_def)
  then show ?thesis by (auto intro: ep_session_write)
next
  case Listening
  show ?thesis
  proof (cases "to_server s = []")
    case False
    with Listening have "\<exists>u. session_read_some 1 s = Some u" by (cases "to_server s") (auto simp: session_read_some_def echo_max_length_def)
    then show ?thesis by (auto intro: ep_session_read)
  next
    case True
    show ?thesis
    proof (cases "client s")
      case (Asking r)
      then have "(\<exists>u. client_write 1 s = Some u) \<or> (\<exists>u. client_goes t s = Some u)"
        by (cases r) (auto simp: client_write_def client_goes_def)
      then show ?thesis by (auto intro: ep_client_write ep_client_goes)
    next
      case (Collecting n)
      with assms(1) True Listening have "length (to_client s) = n"
        by (auto simp: echo_ok_def dest: arg_cong [of _ _ length])
      with Collecting have "(\<exists>u. client_read 1 s = Some u) \<or> (\<exists>u. client_goes t s = Some u)"
        by (cases n) (auto simp: client_read_def client_goes_def)
      then show ?thesis by (auto intro: ep_client_read ep_client_goes)
    next
      case (Shown out)
      with Listening True have "\<exists>u. session_read_some 1 s = Some u" by (simp add: session_read_some_def)
      then show ?thesis by (auto intro: ep_session_read)
    qed
  qed
next
  case Ended
  with assms(2) show ?thesis by (simp add: echo_over_def)
qed

text \<open>
  Whatever pieces the network makes: what the client prints is the line it was given, up to 1023 characters and a
  null byte; neither side ever waits for the other for good, and after a bounded number of calls the client has
  printed its reply and the thread has gone.
\<close>

theorem blocking_echo_replies:
  assumes "reach (\<lambda>s. s = echo_start t) (pair_goes t) s"
  shows "client s = Shown out \<Longrightarrow> out = ''Reply is: '' @ echo_request t @ [LF]"
    "echo_over s \<longrightarrow> client s = Shown (''Reply is: '' @ echo_request t @ [LF])"
    "\<not> echo_over s \<longrightarrow> (\<exists>u. pair_goes t s u)"
    "pair_goes t s u \<Longrightarrow> echo_left t u < echo_left t s"
proof -
  have ok: "echo_ok t s" using assms by (rule blocking_echo.invariant)
  show "client s = Shown out \<Longrightarrow> out = ''Reply is: '' @ echo_request t @ [LF]" using ok by (simp add: echo_ok_def)
  show "echo_over s \<longrightarrow> client s = Shown (''Reply is: '' @ echo_request t @ [LF])" using ok by (auto simp: echo_ok_def echo_over_def)
  show "\<not> echo_over s \<longrightarrow> (\<exists>u. pair_goes t s u)" using echo_goes_on [OF ok] by blast
qed (rule echo_left_decreases)

section \<open>Daytime over TCP\<close>

text \<open>The server writes the time and closes; an error of the write is ignored. The pieces are what the client receives.\<close>

datatype farewell = Closed_cleanly | Other_error

function daytime1 :: "answer list \<Rightarrow> string \<Rightarrow> (string \<times> farewell) option" where
  "daytime1 ans out =
     (case read_call 128 ans of
        None \<Rightarrow> None
      | Some (Got s, rest) \<Rightarrow> if s = [] then Some (out, Closed_cleanly) else daytime1 rest (out @ s)
      | Some (Err e, rest) \<Rightarrow> Some (out, Other_error))"
  by pat_completeness auto
termination
  by (relation "measure (\<lambda>(ans, out). script_weight ans)") (auto dest: read_call_weight)

declare daytime1.simps [simp del]

text \<open>\<open>daytime2\<close>: what the peer receives when \<open>write\<close> has been able to send \<open>n\<close> bytes of the message.\<close>

definition daytime2 :: "string \<Rightarrow> nat \<Rightarrow> string" where
  "daytime2 message n = take n message"

definition pieces_of :: "string \<Rightarrow> string list \<Rightarrow> bool" where
  "pieces_of m ps \<longleftrightarrow> concat ps = m \<and> [] \<notin> set ps"

lemma daytime1_pieces: "[] \<notin> set ps \<Longrightarrow> daytime1 (map Got ps @ [Got []]) out = Some (out @ concat ps, Closed_cleanly)"
proof (induction "map Got ps @ [Got []]" out arbitrary: ps rule: daytime1.induct)
  case (1 out)
  show ?case
  proof (cases ps)
    case Nil
    then show ?thesis by (simp add: daytime1.simps)
  next
    case (Cons p qs)
    with "1.prems" have p: "p \<noteq> []" "[] \<notin> set qs" by auto
    show ?thesis
    proof (cases "length p \<le> 128")
      case True
      then have r: "read_call 128 (map Got ps @ [Got []]) = Some (Got p, map Got qs @ [Got []])" using p Cons by simp
      from "1.hyps" [OF r refl refl p(1) p(2)] show ?thesis
        unfolding daytime1.simps [of "map Got ps @ [Got []]"] r using p(1) Cons by simp
    next
      case False
      then have r: "read_call 128 (map Got ps @ [Got []]) = Some (Got (take 128 p), map Got (drop 128 p # qs) @ [Got []])" using p Cons by simp
      have t: "take 128 p \<noteq> []" and d: "[] \<notin> set (drop 128 p # qs)" using p False by auto
      from "1.hyps" [OF r refl refl t d] show ?thesis
        unfolding daytime1.simps [of "map Got ps @ [Got []]"] r using t Cons by (simp add: take_drop_app)
    qed
  qed
qed

text \<open>The client prints exactly what the server was able to send, whatever pieces it arrives in, and ends.\<close>

theorem daytime_over_tcp:
  "pieces_of (daytime2 message n) ps \<Longrightarrow> daytime1 (map Got ps @ [Got []]) [] = Some (take n message, Closed_cleanly)"
  by (simp add: daytime1_pieces pieces_of_def daytime2_def)

theorem daytime_over_tcp_witness: "daytime1 [Got ''Mo'', Got ''n'', Got []] [] = Some (''Mon'', Closed_cleanly)"
  using daytime_over_tcp [of "''Mon''" 3 "[''Mo'', ''n'']"] by (simp add: pieces_of_def daytime2_def)

end
