(* ===== verification/Net_Clients.thy ===== *)
theory Net_Clients
  imports Line_Clients
begin

text \<open>
  Clients and a server of \<^verbatim>\<open>src/Linux_Net\<close>: the client on \<open>poll\<close> under \<^verbatim>\<open>03.*\<close>, the client of the server on
  \<open>select\<close> under \<^verbatim>\<open>02.*\<close>, and the pair on a Unix socket under \<^verbatim>\<open>TCP_Server/domain_socket\<close>.
\<close>

section \<open>The client on poll\<close>

definition PC_MAXLINE :: nat where
  "PC_MAXLINE = 1024"

text \<open>\<open>pc_open\<close>: the program has not closed the socket; \<open>pc_shut\<close>: it has closed its direction of the connection.\<close>

record poll_peer =
  pc_open :: bool
  pc_shut :: bool
  pc_in :: "answer list"
  pc_keys :: "answer list"
  pc_shown :: string
  pc_sent :: string

definition pc_start :: "answer list \<Rightarrow> answer list \<Rightarrow> poll_peer" where
  "pc_start net keys = \<lparr>pc_open = True, pc_shut = False, pc_in = net, pc_keys = keys, pc_shown = [], pc_sent = []\<rparr>"

text \<open>
  The socket is ready. After the end of the stream the program closes it and writes nothing; a failed read
  is followed by a write of -1 bytes.
\<close>

definition pc_socket :: "poll_peer \<Rightarrow> poll_peer outcome" where
  "pc_socket s =
     (case read_call PC_MAXLINE (pc_in s) of
        None \<Rightarrow> Blocks
      | Some (Err e, rest) \<Rightarrow> Undefined
      | Some (Got str, rest) \<Rightarrow>
          if str = [] then Next (s\<lparr>pc_open := False, pc_in := rest\<rparr>)
          else Next (s\<lparr>pc_in := rest, pc_shown := pc_shown s @ str\<rparr>))"

text \<open>A write to the closed descriptor fails, and one after \<open>shutdown\<close> ends the program by a signal.\<close>

definition pc_keyboard :: "poll_peer \<Rightarrow> poll_peer outcome" where
  "pc_keyboard s =
     (case read_call PC_MAXLINE (pc_keys s) of
        None \<Rightarrow> Blocks
      | Some (Err e, rest) \<Rightarrow> Undefined
      | Some (Got str, rest) \<Rightarrow>
          if str = [] then Next (s\<lparr>pc_keys := rest, pc_shut := pc_shut s \<or> pc_open s\<rparr>)
          else if \<not> pc_open s then Next (s\<lparr>pc_keys := rest\<rparr>)
          else if pc_shut s then Exits
          else Next (s\<lparr>pc_keys := rest, pc_sent := pc_sent s @ str\<rparr>))"

text \<open>
  One turn. \<open>poll\<close> waits only while the socket is open: for a closed descriptor it returns at once,
  with \<open>POLLNVAL\<close> and without \<open>POLLIN\<close>. Both \<open>revents\<close> are those of the call.
\<close>

definition pc_round :: "poll_peer \<Rightarrow> poll_peer outcome" where
  "pc_round s =
     (let ready0 = (pc_open s \<and> pc_in s \<noteq> []); ready1 = (pc_keys s \<noteq> []) in
      if pc_open s \<and> \<not> ready0 \<and> \<not> ready1 then Blocks
      else (case if ready0 then pc_socket s else Next s of
              Next s' \<Rightarrow> if ready1 then pc_keyboard s' else Next s'
            | r \<Rightarrow> r))"

inductive pc_step :: "poll_peer \<Rightarrow> poll_peer \<Rightarrow> bool" where
  pc_arrives: "pc_step s (s\<lparr>pc_in := pc_in s @ [a]\<rparr>)"
| pc_typed: "pc_step s (s\<lparr>pc_keys := pc_keys s @ [a]\<rparr>)"
| pc_goes: "pc_round s = Next t \<Longrightarrow> pc_step s t"

text \<open>The text a script will deliver, up to its end.\<close>

fun script_text :: "answer list \<Rightarrow> string" where
  "script_text [] = []"
| "script_text (Err e # as) = []"
| "script_text (Got s # as) = (if s = [] then [] else s @ script_text as)"

lemma read_call_text:
  "read_call n as = Some (Got str, rest) \<Longrightarrow> 0 < n \<Longrightarrow> script_text as = str @ script_text rest"
  by (cases "(n, as)" rule: read_call.cases) (auto split: if_splits)

lemma read_call_blocks: "read_call n as = None \<longleftrightarrow> as = []"
  by (cases "(n, as)" rule: read_call.cases) auto

lemma read_call_end: "read_call n as = Some (Got [], rest) \<Longrightarrow> 0 < n \<Longrightarrow> script_text as = []"
  by (cases "(n, as)" rule: read_call.cases) (auto split: if_splits)

text \<open>What is shown and what is sent, with what is left to read, never changes, until the socket is closed.\<close>

lemma pc_socket_text:
  assumes "pc_socket s = Next t" "pc_open s"
  shows "pc_keys t = pc_keys s" "pc_sent t = pc_sent s" "pc_shut t = pc_shut s"
    "if pc_open t then pc_shown t @ script_text (pc_in t) = pc_shown s @ script_text (pc_in s)
     else pc_shown t = pc_shown s \<and> script_text (pc_in s) = []"
  using assms read_call_text [of PC_MAXLINE "pc_in s"] read_call_end [of PC_MAXLINE "pc_in s"]
  by (auto simp: pc_socket_def PC_MAXLINE_def split: option.splits answer.splits if_splits)

lemma pc_keyboard_text:
  assumes "pc_keyboard s = Next t"
  shows "pc_in t = pc_in s" "pc_shown t = pc_shown s" "pc_open t = pc_open s"
    "pc_open s \<and> \<not> pc_shut s \<Longrightarrow> pc_sent t @ script_text (pc_keys t) = pc_sent s @ script_text (pc_keys s)"
  using assms read_call_text [of PC_MAXLINE "pc_keys s"]
  by (auto simp: pc_keyboard_def PC_MAXLINE_def split: option.splits answer.splits if_splits)

theorem poll_peer_carries:
  assumes "pc_round s = Next t" "pc_open t"
  shows "pc_open s" "pc_shown t @ script_text (pc_in t) = pc_shown s @ script_text (pc_in s)"
    "\<not> pc_shut s \<Longrightarrow> pc_sent t @ script_text (pc_keys t) = pc_sent s @ script_text (pc_keys s)"
proof -
  obtain u where u: "(if pc_open s \<and> pc_in s \<noteq> [] then pc_socket s else Next s) = Next u"
      and t: "(if pc_keys s \<noteq> [] then pc_keyboard u else Next u) = Next t"
    using assms(1) by (auto simp: pc_round_def Let_def split: if_splits outcome.splits)
  have open_u: "pc_open u" using t assms(2) pc_keyboard_text(3) [of u t] by (auto split: if_splits)
  have su: "pc_open s \<and> pc_shown u @ script_text (pc_in u) = pc_shown s @ script_text (pc_in s)"
      "pc_keys u = pc_keys s \<and> pc_sent u = pc_sent s \<and> pc_shut u = pc_shut s"
    using u open_u pc_socket_text [of s u] by (auto split: if_splits)
  then show "pc_open s" "pc_shown t @ script_text (pc_in t) = pc_shown s @ script_text (pc_in s)"
    using t pc_keyboard_text [of u t] by (auto split: if_splits)
  assume "\<not> pc_shut s"
  then show "pc_sent t @ script_text (pc_keys t) = pc_sent s @ script_text (pc_keys s)"
    using su open_u t pc_keyboard_text(4) [of u t] by (auto split: if_splits)
qed

theorem poll_peer_carries_witness:
  "\<exists>t. pc_round (pc_start [Got ''ab''] [Got ''c'']) = Next t \<and> pc_shown t @ script_text (pc_in t) = ''ab''"
proof -
  let ?s = "pc_start [Got ''ab''] [Got ''c'']"
  obtain t where t: "pc_round ?s = Next t" "pc_open t"
    by (simp add: pc_round_def pc_start_def pc_socket_def pc_keyboard_def PC_MAXLINE_def)
  then show ?thesis using poll_peer_carries(2) [OF t] by (auto simp: pc_start_def)
qed

text \<open>
  After the server has closed the connection the program does not end: it goes round its loop without waiting, and
  drops every line that is typed.
\<close>

lemma closed_client_spins:
  assumes "\<not> pc_open s"
  shows "pc_keys s = [] \<Longrightarrow> pc_round s = Next s" "pc_round s \<noteq> Blocks" "pc_round s = Next t \<Longrightarrow> pc_sent t = pc_sent s"
proof -
  show "pc_keys s = [] \<Longrightarrow> pc_round s = Next s" using assms by (simp add: pc_round_def Let_def)
  show "pc_round s \<noteq> Blocks"
    using assms by (auto simp: pc_round_def Let_def pc_keyboard_def read_call_blocks split: option.splits answer.splits)
  show "pc_round s = Next t \<Longrightarrow> pc_sent t = pc_sent s"
    using assms by (auto simp: pc_round_def Let_def pc_keyboard_def split: option.splits answer.splits if_splits)
qed

section \<open>The client of the server on select\<close>

definition SC_BUFFER :: nat where
  "SC_BUFFER = 1024"

text \<open>
  A message is the whole buffer, filled up with null bytes; a word that does not fit into it with its null byte
  is written behind its end.
\<close>

definition fill_buffer :: "string \<Rightarrow> string outcome" where
  "fill_buffer w = (if SC_BUFFER \<le> length w then Undefined else Next (w @ replicate (SC_BUFFER - length w) NUL))"

text \<open>What \<open>recv\<close> delivers is printed as a string: all of the buffer may be used, and then its end has no null byte.\<close>

definition print_buffer :: "string \<Rightarrow> string outcome" where
  "print_buffer s =
     (let buffer = take SC_BUFFER s @ replicate (SC_BUFFER - length s) NUL in
      if NUL \<in> set buffer then Next (c_text buffer) else Undefined)"

text \<open>\<open>scanf("%s")\<close> skips white space and takes a word; at the end of the input the buffer stays empty.\<close>

definition white :: "char \<Rightarrow> bool" where
  "white c \<longleftrightarrow> c \<in> set [CHR '' '', CHR 0x09, CHR 0x0A, CHR 0x0B, CHR 0x0C, CHR 0x0D]"

definition scan_word :: "string \<Rightarrow> string \<times> string" where
  "scan_word t = (let t = dropWhile white t in (takeWhile (\<lambda>c. \<not> white c) t, dropWhile (\<lambda>c. \<not> white c) t))"

text \<open>The first \<open>n\<close> turns of the loop, which never ends: the messages that are sent.\<close>

fun sc_rounds :: "nat \<Rightarrow> string \<Rightarrow> string list \<Rightarrow> string list outcome" where
  "sc_rounds 0 t out = Next out"
| "sc_rounds (Suc n) t out =
     (case scan_word t of (w, rest) \<Rightarrow>
        (case fill_buffer w of Next m \<Rightarrow> sc_rounds n rest (out @ [m]) | Undefined \<Rightarrow> Undefined | Exits \<Rightarrow> Exits | Blocks \<Rightarrow> Blocks))"

definition select_client :: "nat \<Rightarrow> string \<Rightarrow> string \<Rightarrow> (string \<times> string list) outcome" where
  "select_client n welcome t =
     (case print_buffer welcome of
        Next shown \<Rightarrow>
          (case fill_buffer (''this is client '' @ [LF]) of
             Next m \<Rightarrow> (case sc_rounds n t [m] of Next out \<Rightarrow> Next (shown, out) | _ \<Rightarrow> Undefined)
           | _ \<Rightarrow> Undefined)
      | _ \<Rightarrow> Undefined)"

lemma c_text_pad [simp]: "0 < k \<Longrightarrow> c_text (w @ replicate k NUL) = c_text w"
  by (cases k; induction w) (simp_all add: c_text_def)

lemma fill_print: "NUL \<notin> set w \<Longrightarrow> fill_buffer w = Next m \<Longrightarrow> length m = SC_BUFFER \<and> print_buffer m = Next w"
  by (auto simp: fill_buffer_def print_buffer_def c_text_id split: if_splits)

lemma sc_rounds_end: "sc_rounds n [] out = Next (out @ replicate n (replicate SC_BUFFER NUL))"
  by (induction n arbitrary: out) (simp_all add: scan_word_def fill_buffer_def SC_BUFFER_def)

text \<open>
  The words of the input arrive as they are typed, each in a message of 1024 bytes; after the end of the input
  the client sends empty messages for ever.
\<close>

fun word_list :: "string list \<Rightarrow> bool" where
  "word_list [] \<longleftrightarrow> True"
| "word_list (w # ws) \<longleftrightarrow> w \<noteq> [] \<and> (\<forall>c\<in>set w. \<not> white c \<and> c \<noteq> NUL) \<and> length w < SC_BUFFER \<and> word_list ws"

definition padded :: "string \<Rightarrow> string" where
  "padded w = w @ replicate (SC_BUFFER - length w) NUL"

lemma white_lf [simp]: "white LF"
  by (simp add: white_def)

lemma scan_word_first: "w \<noteq> [] \<Longrightarrow> \<forall>c\<in>set w. \<not> white c \<Longrightarrow> scan_word (w @ LF # t) = (w, LF # t)"
  by (cases w) (auto simp: scan_word_def takeWhile_append2 dropWhile_append2)

lemma scan_word_skips: "scan_word (LF # t) = scan_word t"
  by (simp add: scan_word_def)

lemma sc_rounds_skips: "sc_rounds n (LF # t) out = sc_rounds n t out"
  by (cases n) (simp_all add: scan_word_skips)

theorem select_client_sends_words:
  assumes "word_list ws" "length welcome < SC_BUFFER"
  shows "select_client (length ws + n) welcome (concat (map (\<lambda>w. w @ [LF]) ws))
    = Next (c_text welcome, padded (''this is client '' @ [LF]) # map padded ws @ replicate n (replicate SC_BUFFER NUL))"
proof -
  have loop: "sc_rounds (length ws + n) (concat (map (\<lambda>w. w @ [LF]) ws)) out = Next (out @ map padded ws @ replicate n (replicate SC_BUFFER NUL))" for out
    using assms(1)
  proof (induction ws arbitrary: out)
    case Nil
    then show ?case by (simp add: sc_rounds_end)
  next
    case (Cons w ws)
    then have "scan_word (w @ LF # concat (map (\<lambda>w. w @ [LF]) ws)) = (w, LF # concat (map (\<lambda>w. w @ [LF]) ws))"
      by (intro scan_word_first) auto
    with Cons show ?case by (simp add: fill_buffer_def padded_def sc_rounds_skips)
  qed
  have "print_buffer welcome = Next (c_text welcome)"
    using assms(2) by (simp add: print_buffer_def Let_def)
  then show ?thesis by (simp add: select_client_def loop fill_buffer_def padded_def SC_BUFFER_def)
qed

theorem select_client_sends_words_witness:
  "select_client 2 ''hi'' (''ab'' @ [LF]) = Next (''hi'', [padded (''this is client '' @ [LF]), padded ''ab'', replicate SC_BUFFER NUL])"
  using select_client_sends_words [of "[''ab'']" "''hi''" 1] by (simp add: SC_BUFFER_def white_def c_text_def numeral_2_eq_2)

section \<open>The pair on a Unix socket\<close>

definition SUN_PATH :: nat where
  "SUN_PATH = 108"

text \<open>
  A connection is the path its client is bound to, of at most 108 characters, with what is read from it. The null byte
  goes behind the path, which may fill \<open>sun_path\<close>. An error of \<open>read\<close> ends the loop like the end of the stream;
  the clients are served one after the other.
\<close>

function ds_loop :: "answer list \<Rightarrow> string \<Rightarrow> string option" where
  "ds_loop as out =
     (case read_call 4096 as of
        None \<Rightarrow> None
      | Some (Err e, rest) \<Rightarrow> Some out
      | Some (Got s, rest) \<Rightarrow> if s = [] then Some out else ds_loop rest (out @ map toupper s))"
  by pat_completeness auto
termination
  by (relation "measure (\<lambda>(as, out). script_weight as)") (auto dest: read_call_weight)

declare ds_loop.simps [simp del]

text \<open>
  What the clients have been answered, and the path of the client the server is busy with: a client that neither sends
  nor closes keeps every later one waiting.
\<close>

fun ds_server :: "(string \<times> answer list) list \<Rightarrow> (string \<times> string) list \<Rightarrow> ((string \<times> string) list \<times> string option) outcome" where
  "ds_server [] answers = Next (answers, None)"
| "ds_server ((path, as) # cs) answers =
     (if SUN_PATH \<le> length path then Undefined
      else (case ds_loop as [] of
              None \<Rightarrow> Next (answers, Some (c_text path))
            | Some out \<Rightarrow> ds_server cs (answers @ [(c_text path, out)])))"

text \<open>
  The client. The empty answer is the end of the stream, after which a write ends the program by a signal; a failed
  read is followed by a write of -1 bytes. \<open>closed\<close>: the end of the stream has been read.
\<close>

function ds_client :: "bool \<Rightarrow> string \<Rightarrow> answer list \<Rightarrow> string \<Rightarrow> string \<Rightarrow> (string \<times> string) outcome" where
  "ds_client closed t as wrote shown =
     (if t = [] then Next (wrote, shown)
      else if closed then Exits
      else (case read_call 4096 as of
              None \<Rightarrow> Blocks
            | Some (Err e, rest) \<Rightarrow> Undefined
            | Some (Got s, rest) \<Rightarrow> ds_client (s = []) (fgets_rest 4096 t) rest (wrote @ c_text (fgets 4096 t)) (shown @ s)))"
  by pat_completeness auto
termination
  by (relation "measure (\<lambda>(closed, t, as, wrote, shown). length t)") (auto intro: fgets_rest_shorter)

declare ds_client.simps [simp del]

text \<open>The lines as the client cuts them.\<close>

function ds_lines :: "string \<Rightarrow> string list" where
  "ds_lines t = (if t = [] then [] else fgets 4096 t # ds_lines (fgets_rest 4096 t))"
  by pat_completeness auto
termination
  by (relation "measure length") (auto intro: fgets_rest_shorter)

declare ds_lines.simps [simp del]

lemma ds_loop_answers: "ds_loop as out = Some r \<Longrightarrow> r = out @ map toupper (script_text as)"
proof (induction as out rule: ds_loop.induct)
  case (1 as out)
  show ?case
  proof (cases "read_call 4096 as")
    case None
    with "1.prems" show ?thesis by (simp add: ds_loop.simps [of as])
  next
    case (Some x)
    obtain a rest where x: "x = (a, rest)" by (cases x)
    show ?thesis
    proof (cases a)
      case (Err e)
      with "1.prems" Some x have "script_text as = []" "r = out"
        by (cases "(4096::nat, as)" rule: read_call.cases; simp add: ds_loop.simps [of as] split: if_splits)+
      then show ?thesis by simp
    next
      case (Got s)
      with Some x have s: "script_text as = s @ script_text rest" by (simp add: read_call_text)
      show ?thesis
      proof (cases "s = []")
        case True
        with Some x Got have "script_text as = []" by (simp add: read_call_end [of 4096 as rest])
        with "1.prems" Some x Got True show ?thesis by (simp add: ds_loop.simps [of as])
      next
        case False
        with "1.prems" Some x Got have "ds_loop rest (out @ map toupper s) = Some r" by (simp add: ds_loop.simps [of as])
        with "1.IH" [OF Some [unfolded x Got] refl refl False] s show ?thesis by simp
      qed
    qed
  qed
qed

lemma ds_line:
  assumes "t \<noteq> []" "NUL \<notin> set t"
  shows "fgets 4096 t \<noteq> []" "length (fgets 4096 t) \<le> 4096" "c_text (fgets 4096 t) = fgets 4096 t" "NUL \<notin> set (fgets_rest 4096 t)"
proof -
  have "set (fgets 4096 t) \<subseteq> set t" "set (fgets_rest 4096 t) \<subseteq> set t"
    by (auto simp: fgets_def fgets_rest_def dest: in_set_takeD in_set_dropD)
  then show "c_text (fgets 4096 t) = fgets 4096 t" "NUL \<notin> set (fgets_rest 4096 t)" using assms(2) by (auto intro: c_text_id)
  show "fgets 4096 t \<noteq> []" using assms(1) by (simp add: fgets_nonempty)
  show "length (fgets 4096 t) \<le> 4096" by (simp add: fgets_def)
qed

lemma ds_client_lines:
  "NUL \<notin> set t \<Longrightarrow> ds_client False t (map (\<lambda>l. Got (map toupper l)) (ds_lines t)) wrote shown = Next (wrote @ t, shown @ map toupper t)"
proof (induction t arbitrary: wrote shown rule: ds_lines.induct)
  case (1 t)
  let ?l = "fgets 4096 t" and ?r = "fgets_rest 4096 t"
  show ?case
  proof (cases "t = []")
    case False
    note l = ds_line [OF False "1.prems"]
    from "1.IH" [OF False l(4), of "wrote @ ?l" "shown @ map toupper ?l"] l False
    have "ds_client False t (map (\<lambda>l. Got (map toupper l)) (ds_lines t)) wrote shown
        = Next ((wrote @ ?l) @ ?r, (shown @ map toupper ?l) @ map toupper ?r)"
      by (simp add: ds_lines.simps [of t] ds_client.simps [of _ t] del: fgets_append)
    then show ?thesis by (simp flip: map_append)
  qed (simp add: ds_client.simps ds_lines.simps)
qed

lemma ds_loop_lines: "NUL \<notin> set t \<Longrightarrow> ds_loop (map Got (ds_lines t) @ [Got []]) out = Some (out @ map toupper t)"
proof (induction t arbitrary: out rule: ds_lines.induct)
  case (1 t)
  let ?l = "fgets 4096 t" and ?r = "fgets_rest 4096 t"
  show ?case
  proof (cases "t = []")
    case False
    note l = ds_line [OF False "1.prems"]
    from "1.IH" [OF False l(4), of "out @ map toupper ?l"] l False
    have "ds_loop (map Got (ds_lines t) @ [Got []]) out = Some ((out @ map toupper ?l) @ map toupper ?r)"
      by (simp add: ds_lines.simps [of t] ds_loop.simps [of "Got ?l # map Got (ds_lines ?r) @ [Got []]"] del: fgets_append)
    then show ?thesis by (simp flip: map_append)
  qed (simp add: ds_loop.simps ds_lines.simps)
qed

text \<open>
  Line by line: the client sends its whole input and shows it in upper case, and the server answers every line and
  goes on with the next client.
\<close>

theorem unix_pair_upper_case:
  assumes "NUL \<notin> set t" "length path < SUN_PATH"
  shows "ds_client False t (map (\<lambda>l. Got (map toupper l)) (ds_lines t)) [] [] = Next (t, map toupper t)"
    "ds_server ((path, map Got (ds_lines t) @ [Got []]) # cs) answers = ds_server cs (answers @ [(c_text path, map toupper t)])"
  using assms ds_client_lines [of t "[]" "[]"] ds_loop_lines [of t "[]"] by simp_all

theorem unix_pair_upper_case_witness: "ds_client False ''ab'' (map (\<lambda>l. Got (map toupper l)) (ds_lines ''ab'')) [] [] = Next (''ab'', ''AB'')"
proof -
  have "map toupper ''ab'' = ''AB''" by code_simp
  then show ?thesis using unix_pair_upper_case(1) [of "''ab''" "[]"] by (simp add: SUN_PATH_def)
qed

lemma full_path_overrun: "length path = SUN_PATH \<Longrightarrow> ds_server ((path, as) # cs) answers = Undefined"
  by simp

lemma silent_client_holds_server: "length path < SUN_PATH \<Longrightarrow> ds_server ((path, [Got ''ab'']) # cs) answers = Next (answers, Some (c_text path))"
  by (simp add: ds_loop.simps)

end
