(* ===== verification/Ini_File.thy ===== *)
theory Ini_File
  imports Ad_Server Line_Clients
begin

text \<open>
  The settings file of the advertisement server, \<open>ReadStringFromIniFile\<close> of
  \<^verbatim>\<open>src/ad_system/common/globalHelper.cpp\<close>: the two loops over the lines of the file, and what they find
  in a file of sections and items. The regular expressions are matched by Boost; the answers of the library for the
  two patterns of the source are a parameter, with their documented meaning as a hypothesis.
\<close>

section \<open>Reading the file\<close>

text \<open>
  \<open>frame_search\<close> is \<open>regex_search\<close> with the pattern of a section, and its group; \<open>frame_match\<close> is
  \<open>regex_match\<close> with it, on the whole line; \<open>item_search\<close> is the search for an item, and its groups
  1 and 3.
\<close>

record patterns =
  frame_search :: "string \<Rightarrow> string option"
  frame_match :: "string \<Rightarrow> bool"
  item_search :: "string \<Rightarrow> (string \<times> string) option"

text \<open>The size given to \<open>fgets\<close>: \<open>max_len\<close> is never passed, and one less than its 2048 is used.\<close>

definition ini_room :: nat where
  "ini_room = 2047"

text \<open>The first loop: what is left of the file behind the line of the section.\<close>

function find_frame :: "patterns \<Rightarrow> string \<Rightarrow> string \<Rightarrow> string option" where
  "find_frame P desFrameName t =
     (if t = [] then None
      else
        (let tmpLine = c_text (fgets ini_room t); fp = fgets_rest ini_room t in
         case frame_search P tmpLine of
           Some curFrame \<Rightarrow> if desFrameName = lowerString curFrame then Some fp else find_frame P desFrameName fp
         | None \<Rightarrow> find_frame P desFrameName fp))"
  by pat_completeness auto
termination
  by (relation "measure (\<lambda>(P, d, t). length t)") (auto intro: fgets_rest_shorter simp: ini_room_def)

declare find_frame.simps [simp del]

text \<open>The second loop; the empty string when nothing is found.\<close>

function find_item :: "patterns \<Rightarrow> string \<Rightarrow> string \<Rightarrow> string" where
  "find_item P desItemName t =
     (if t = [] then []
      else
        (let curLine = c_text (fgets ini_room t); fp = fgets_rest ini_room t in
         if frame_match P curLine then []
         else
           (case item_search P curLine of
              Some (part1, part2) \<Rightarrow>
                if lowerString part1 = desItemName \<and> length part2 > 0 then part2 else find_item P desItemName fp
            | None \<Rightarrow> find_item P desItemName fp)))"
  by pat_completeness auto
termination
  by (relation "measure (\<lambda>(P, d, t). length t)") (auto intro: fgets_rest_shorter simp: ini_room_def)

declare find_item.simps [simp del]

text \<open>\<open>None\<close> is a file that cannot be opened.\<close>

definition ReadStringFromIniFile :: "patterns \<Rightarrow> string option \<Rightarrow> ini_file" where
  "ReadStringFromIniFile P iniFile ref_desFrameName ref_desItemName =
     (case iniFile of
        None \<Rightarrow> []
      | Some t \<Rightarrow>
          (let desFrameName = lowerString ref_desFrameName; desItemName = lowerString ref_desItemName in
           case find_frame P desFrameName t of
             None \<Rightarrow> []
           | Some fp \<Rightarrow> find_item P desItemName fp))"

section \<open>The two patterns\<close>

text \<open>\<open>\s\<close>, and the characters at which \<open>$\<close> would match inside a line.\<close>

definition space :: "char \<Rightarrow> bool" where
  "space c \<longleftrightarrow> c \<in> set [CHR '' '', CHR 0x09, CHR 0x0A, CHR 0x0B, CHR 0x0C, CHR 0x0D]"

text \<open>A text inside a line: no null byte, and no white space but blanks and tabs.\<close>

definition plain :: "string \<Rightarrow> bool" where
  "plain s \<longleftrightarrow> (\<forall>c\<in>set s. c \<noteq> NUL \<and> (space c \<longrightarrow> c = CHR '' '' \<or> c = CHR 0x09))"

definition trimmed :: "string \<Rightarrow> string" where
  "trimmed s = rev (dropWhile space (rev (dropWhile space s)))"

text \<open>The group of the first pattern is lazy: from the first opening bracket to the first closing one behind it.\<close>

definition frame_text :: "string \<Rightarrow> string option" where
  "frame_text l =
     (case dropWhile (\<lambda>c. c \<noteq> CHR ''['') l of
        [] \<Rightarrow> None
      | _ # r \<Rightarrow> if CHR '']'' \<in> set r then Some (takeWhile (\<lambda>c. c \<noteq> CHR '']'') r) else None)"

definition frame_line :: "string \<Rightarrow> bool" where
  "frame_line l \<longleftrightarrow> (case dropWhile space l of [] \<Rightarrow> False | c # r \<Rightarrow> c = CHR ''['' \<and> CHR '']'' \<in> set r)"

text \<open>The word in front of the first equals sign, and what is behind it, without white space at its ends.\<close>

definition item_text :: "string \<Rightarrow> (string \<times> string) option" where
  "item_text l =
     (case dropWhile (\<lambda>c. c \<noteq> CHR ''='') l of
        [] \<Rightarrow> None
      | _ # r \<Rightarrow>
          Some (rev (takeWhile (\<lambda>c. \<not> space c) (dropWhile space (rev (takeWhile (\<lambda>c. c \<noteq> CHR ''='') l)))), trimmed r))"

definition patterns_ok :: "patterns \<Rightarrow> bool" where
  "patterns_ok P \<longleftrightarrow>
     (\<forall>s. plain s \<longrightarrow> frame_search P (s @ [LF]) = frame_text (s @ [LF]) \<and> frame_match P (s @ [LF]) = frame_line (s @ [LF])
        \<and> item_search P (s @ [LF]) = item_text (s @ [LF]))"

definition the_patterns :: patterns where
  "the_patterns = \<lparr>frame_search = frame_text, frame_match = frame_line, item_search = item_text\<rparr>"

lemma the_patterns_ok: "patterns_ok the_patterns"
  by (simp add: patterns_ok_def the_patterns_def)

section \<open>Lines\<close>

definition text_of :: "string list \<Rightarrow> string" where
  "text_of ls = concat (map (\<lambda>l. l @ [LF]) ls)"

lemma text_of_simps [simp]: "text_of [] = []" "text_of (l # ls) = l @ LF # text_of ls" "text_of (ls @ ms) = text_of ls @ text_of ms"
  by (simp_all add: text_of_def)

definition ini_line :: "string \<Rightarrow> bool" where
  "ini_line l \<longleftrightarrow> plain l \<and> length l < ini_room - 1"

lemma ini_line_read:
  assumes "ini_line l"
  shows "c_text (fgets ini_room (l @ LF # t)) = l @ [LF]" "fgets_rest ini_room (l @ LF # t) = t"
proof -
  have "LF \<notin> set l" "NUL \<notin> set l" using assms by (auto simp: ini_line_def plain_def space_def)
  then have "length (takeWhile (\<lambda>c. c \<noteq> LF) (l @ LF # t)) = length l"
    by (subst takeWhile_append2) auto
  then have f: "fgets ini_room (l @ LF # t) = l @ [LF]" using assms by (simp add: fgets_def ini_line_def)
  then show "c_text (fgets ini_room (l @ LF # t)) = l @ [LF]" using \<open>NUL \<notin> set l\<close> by (simp add: c_text_id)
  show "fgets_rest ini_room (l @ LF # t) = t" by (simp add: fgets_rest_def f)
qed

text \<open>What the loops do with a list of lines.\<close>

fun frame_in :: "string \<Rightarrow> string list \<Rightarrow> string list option" where
  "frame_in d [] = None"
| "frame_in d (l # ls) = (if map_option lowerString (frame_text (l @ [LF])) = Some d then Some ls else frame_in d ls)"

fun item_in :: "string \<Rightarrow> string list \<Rightarrow> string" where
  "item_in d [] = []"
| "item_in d (l # ls) =
     (if frame_line (l @ [LF]) then []
      else (case item_text (l @ [LF]) of
              Some (k, v) \<Rightarrow> if lowerString k = d \<and> v \<noteq> [] then v else item_in d ls
            | None \<Rightarrow> item_in d ls))"

lemma find_frame_lines:
  "patterns_ok P \<Longrightarrow> list_all ini_line ls \<Longrightarrow> find_frame P d (text_of ls) = map_option text_of (frame_in d ls)"
proof (induction ls)
  case (Cons l ls)
  then have l: "ini_line l" "plain l" by (simp_all add: ini_line_def)
  then have "frame_search P (l @ [LF]) = frame_text (l @ [LF])" using Cons.prems(1) by (simp add: patterns_ok_def)
  then show ?case
    using Cons ini_line_read [OF l(1)] by (auto simp: find_frame.simps [of P d "l @ LF # text_of ls"] Let_def split: option.splits)
qed (simp add: find_frame.simps)

lemma find_item_lines: "patterns_ok P \<Longrightarrow> list_all ini_line ls \<Longrightarrow> find_item P d (text_of ls) = item_in d ls"
proof (induction ls)
  case (Cons l ls)
  then have l: "ini_line l" "plain l" by (simp_all add: ini_line_def)
  then have "frame_match P (l @ [LF]) = frame_line (l @ [LF])" "item_search P (l @ [LF]) = item_text (l @ [LF])"
    using Cons.prems(1) by (simp_all add: patterns_ok_def)
  then show ?case
    using Cons ini_line_read [OF l(1)] by (auto simp: find_item.simps [of P d "l @ LF # text_of ls"] Let_def split: option.splits)
qed (simp add: find_item.simps)

lemma frame_in_lines: "frame_in d ls = Some ms \<Longrightarrow> list_all ini_line ls \<Longrightarrow> list_all ini_line ms"
  by (induction ls) (auto split: if_splits)

lemma read_lines:
  assumes "patterns_ok P" "list_all ini_line ls"
  shows "ReadStringFromIniFile P (Some (text_of ls)) s k =
    (case frame_in (lowerString s) ls of None \<Rightarrow> [] | Some ms \<Rightarrow> item_in (lowerString k) ms)"
  using assms by (auto simp: ReadStringFromIniFile_def find_frame_lines find_item_lines Let_def split: option.splits dest: frame_in_lines)

section \<open>A file of sections and items\<close>

datatype entry = Item string string | Comment string | Blank

type_synonym ini = "(string \<times> entry list) list"

fun entry_line :: "entry \<Rightarrow> string" where
  "entry_line (Item k v) = k @ '' = '' @ v"
| "entry_line (Comment s) = '';'' @ s"
| "entry_line Blank = []"

definition section_lines :: "string \<times> entry list \<Rightarrow> string list" where
  "section_lines sec = (''['' @ fst sec @ '']'') # map entry_line (snd sec)"

definition render :: "ini \<Rightarrow> string" where
  "render ini = text_of (concat (map section_lines ini))"

text \<open>
  A comment may have an equals sign only behind its first word: the code does not know comments, and takes the word in front
  of the sign as a key.
\<close>

definition comment_ok :: "string \<Rightarrow> bool" where
  "comment_ok s \<longleftrightarrow> plain s \<and> CHR ''['' \<notin> set s
     \<and> (CHR ''='' \<in> set s \<longrightarrow> (\<forall>c\<in>set (dropWhile space (rev (takeWhile (\<lambda>c. c \<noteq> CHR ''='') s))). \<not> space c))"

fun entry_ok :: "entry \<Rightarrow> bool" where
  "entry_ok (Item k v) \<longleftrightarrow>
     k \<noteq> [] \<and> (\<forall>c\<in>set k. \<not> space c \<and> c \<notin> {CHR ''='', CHR ''['', NUL})
     \<and> v \<noteq> [] \<and> plain v \<and> CHR ''['' \<notin> set v \<and> \<not> space (hd v) \<and> \<not> space (last v) \<and> length k + length v < ini_room - 4"
| "entry_ok (Comment s) \<longleftrightarrow> comment_ok s \<and> length s < ini_room - 2"
| "entry_ok Blank \<longleftrightarrow> True"

definition ini_ok :: "ini \<Rightarrow> bool" where
  "ini_ok ini \<longleftrightarrow>
     (\<forall>(n, es)\<in>set ini. plain n \<and> CHR '']'' \<notin> set n \<and> length n < ini_room - 3 \<and> list_all entry_ok es)"

text \<open>What a file says: the first section of that name, and the first item of that name in it, whatever their case.\<close>

fun first_item :: "string \<Rightarrow> entry list \<Rightarrow> string" where
  "first_item d [] = []"
| "first_item d (Item k v # es) = (if lowerString k = d then v else first_item d es)"
| "first_item d (_ # es) = first_item d es"

definition ini_get :: "ini \<Rightarrow> ini_file" where
  "ini_get ini s k =
     (case find (\<lambda>sec. lowerString (fst sec) = lowerString s) ini of
        None \<Rightarrow> []
      | Some sec \<Rightarrow> first_item (lowerString k) (snd sec))"

lemma space_simps [simp]: "space (CHR '' '')" "space LF" "\<not> space (CHR ''['')" "\<not> space (CHR ''='')" "\<not> space (CHR '';'')" "\<not> space (CHR '']'')"
  by (simp_all add: space_def)

lemma plain_simps [simp]: "plain []" "plain (c # s) \<longleftrightarrow> c \<noteq> NUL \<and> (space c \<longrightarrow> c = CHR '' '' \<or> c = CHR 0x09) \<and> plain s"
    "plain (s @ t) \<longleftrightarrow> plain s \<and> plain t"
  by (auto simp: plain_def)

lemma trim_value: "v \<noteq> [] \<Longrightarrow> \<not> space (hd v) \<Longrightarrow> \<not> space (last v) \<Longrightarrow> trimmed (CHR '' '' # v @ [LF]) = v"
proof -
  assume v: "v \<noteq> []" "\<not> space (hd v)" "\<not> space (last v)"
  then have "dropWhile space (CHR '' '' # v @ [LF]) = v @ [LF]" by (cases v) simp_all
  moreover obtain u where "v = u @ [last v]" using v(1) by (metis append_butlast_last_id)
  then have "dropWhile space (rev (v @ [LF])) = rev v" using v(3) by (metis dropWhile.simps(2) rev_eq_Cons_iff rev_rev_ident space_simps(2) rev.simps(2) rev_append append_Cons append_Nil)
  ultimately show ?thesis by (simp only: trimmed_def rev_rev_ident)
qed

lemma item_line_text:
  assumes "entry_ok (Item k v)"
  shows "item_text (entry_line (Item k v) @ [LF]) = Some (k, v)"
proof -
  have no: "CHR ''='' \<notin> set (k @ '' '')" using assms by auto
  let ?l = "(k @ '' '') @ CHR ''='' # CHR '' '' # v @ [LF]"
  have d: "dropWhile (\<lambda>c. c \<noteq> CHR ''='') ?l = CHR ''='' # CHR '' '' # v @ [LF]"
    using no by (subst dropWhile_append2) auto
  have t: "takeWhile (\<lambda>c. c \<noteq> CHR ''='') ?l = k @ '' ''"
    using no by (subst takeWhile_append2) auto
  have "\<forall>c\<in>set (rev k). \<not> space c" "rev k \<noteq> []" using assms by auto
  then have "dropWhile space (rev (k @ '' '')) = rev k" "takeWhile (\<lambda>c. \<not> space c) (rev k) = rev k"
    by (cases "rev k"; auto simp: takeWhile_eq_all_conv)+
  moreover have "trimmed (CHR '' '' # v @ [LF]) = v" using assms by (intro trim_value) auto
  ultimately have "item_text ?l = Some (k, v)" by (simp only: item_text_def d t list.case rev_rev_ident)
  then show ?thesis by simp
qed

lemma no_frame: "CHR ''['' \<notin> set l \<Longrightarrow> frame_text (l @ [LF]) = None \<and> \<not> frame_line (l @ [LF])"
proof -
  assume no: "CHR ''['' \<notin> set l"
  then have d: "dropWhile (\<lambda>c. c \<noteq> CHR ''['') (l @ [LF]) = []" by auto
  have "CHR ''['' \<notin> set (dropWhile space (l @ [LF]))" using no by (auto dest: set_dropWhileD)
  then show ?thesis
    by (cases "dropWhile space (l @ [LF])") (auto simp add: frame_text_def frame_line_def d)
qed

lemma entry_no_frame: "entry_ok e \<Longrightarrow> frame_text (entry_line e @ [LF]) = None \<and> \<not> frame_line (entry_line e @ [LF])"
  by (rule no_frame, cases e) (auto simp: comment_ok_def)

lemma section_frame:
  assumes "CHR '']'' \<notin> set n"
  shows "frame_text ((''['' @ n @ '']'') @ [LF]) = Some n" "frame_line ((''['' @ n @ '']'') @ [LF])"
proof -
  have "takeWhile (\<lambda>c. c \<noteq> CHR '']'') (n @ [CHR '']'', LF]) = n" using assms by (subst takeWhile_append2) auto
  then show "frame_text ((''['' @ n @ '']'') @ [LF]) = Some n" "frame_line ((''['' @ n @ '']'') @ [LF])"
    by (simp_all add: frame_text_def frame_line_def)
qed

lemma tolower_semicolon: "tolower c = CHR '';'' \<longleftrightarrow> c = CHR '';''"
proof -
  have semi: "byte (CHR '';'') = 59" by (simp add: byte_def)
  have "byte (char_of (byte c + 32)) = byte c + 32" if "byte c \<le> 90" using that by (simp add: byte_def)
  then have "char_of (byte c + 32) \<noteq> CHR '';''" if "65 \<le> byte c" "byte c \<le> 90" using that semi by auto
  with semi show ?thesis by (auto simp: tolower_def)
qed

lemma lower_semicolon: "CHR '';'' \<in> set (lowerString s) \<longleftrightarrow> CHR '';'' \<in> set s"
  by (auto simp: lowerString_def tolower_semicolon image_iff eq_commute [of "CHR '';''"])

text \<open>What a comment looks like to the second loop: no item, or one whose key begins with the semicolon.\<close>

lemma comment_text:
  assumes "comment_ok s" "item_text (('';'' @ s) @ [LF]) = Some (k, v)"
  shows "CHR '';'' \<in> set k"
proof -
  have eq: "CHR ''='' \<in> set s"
  proof (rule ccontr)
    assume "CHR ''='' \<notin> set s"
    then have "dropWhile (\<lambda>c. c \<noteq> CHR ''='') (('';'' @ s) @ [LF]) = []" by auto
    with assms(2) show False by (simp only: item_text_def list.case option.distinct)
  qed
  let ?w = "takeWhile (\<lambda>c. c \<noteq> CHR ''='') s"
  have "takeWhile (\<lambda>c. c \<noteq> CHR ''='') (('';'' @ s) @ [LF]) = CHR '';'' # ?w"
    using eq by (simp add: takeWhile_append1 [of "CHR ''=''"])
  moreover have "dropWhile space (rev (CHR '';'' # ?w)) = dropWhile space (rev ?w) @ '';''"
    by (induction "rev ?w") (auto simp: dropWhile_append)
  moreover have "\<forall>c\<in>set (dropWhile space (rev ?w) @ '';''). \<not> space c" using assms(1) eq by (auto simp: comment_ok_def)
  then have "takeWhile (\<lambda>c. \<not> space c) (dropWhile space (rev ?w) @ '';'') = dropWhile space (rev ?w) @ '';''"
    by (simp add: takeWhile_eq_all_conv)
  ultimately have "k = rev (dropWhile space (rev ?w) @ '';'')"
    using assms(2) by (auto simp only: item_text_def split: list.splits)
  then show ?thesis by simp
qed

lemma blank_text: "item_text [LF] = None"
  by (simp add: item_text_def)

lemma item_in_section:
  assumes "list_all entry_ok es" "CHR '';'' \<notin> set d" "rest = [] \<or> (\<exists>l ls. rest = l # ls \<and> frame_line (l @ [LF]))"
  shows "item_in d (map entry_line es @ rest) = first_item d es"
  using assms(1)
proof (induction es)
  case Nil
  then show ?case using assms(3) by auto
next
  case (Cons e es)
  then have e: "entry_ok e" and ih: "item_in d (map entry_line es @ rest) = first_item d es" by simp_all
  have nf: "\<not> frame_line (entry_line e @ [LF])" using entry_no_frame [OF e] by simp
  show ?case
  proof (cases e)
    case (Item k v)
    then have "item_text (entry_line e @ [LF]) = Some (k, v)" "v \<noteq> []" using item_line_text e by auto
    then show ?thesis using Item ih nf by (simp del: entry_line.simps)
  next
    case (Comment s)
    then have "lowerString k \<noteq> d" if "item_text (entry_line e @ [LF]) = Some (k, v)" for k v
      using comment_text [of s k v] that e assms(2) lower_semicolon [of k] by auto
    then show ?thesis using Comment ih nf by (auto simp del: entry_line.simps split: option.splits)
  next
    case Blank
    then show ?thesis using ih nf by (simp add: blank_text)
  qed
qed

lemma frame_in_entries: "list_all entry_ok es \<Longrightarrow> frame_in d (map entry_line es @ ls) = frame_in d ls"
  by (induction es) (simp_all add: entry_no_frame del: entry_line.simps)

lemma section_starts: "ini_ok ini \<Longrightarrow> concat (map section_lines ini) = [] \<or>
    (\<exists>l ls. concat (map section_lines ini) = l # ls \<and> frame_line (l @ [LF]))"
proof (cases ini)
  case (Cons sec rest)
  assume "ini_ok ini"
  with Cons have "CHR '']'' \<notin> set (fst sec)" by (auto simp: ini_ok_def)
  then show ?thesis using section_frame(2) [of "fst sec"] by (simp add: Cons section_lines_def)
qed simp

lemma frame_in_section:
  assumes "CHR '']'' \<notin> set (fst sec)" "list_all entry_ok (snd sec)"
  shows "frame_in d (section_lines sec @ ls) = (if lowerString (fst sec) = d then Some (map entry_line (snd sec) @ ls) else frame_in d ls)"
  using section_frame(1) [OF assms(1)] frame_in_entries [OF assms(2)] by (simp add: section_lines_def)

lemma ini_lines:
  assumes "ini_ok ini"
  shows "list_all ini_line (concat (map section_lines ini))"
proof -
  have "ini_line (entry_line e)" if "entry_ok e" for e
    using that by (cases e) (auto simp: ini_line_def comment_ok_def plain_def ini_room_def)
  then show ?thesis using assms by (auto simp: list_all_iff ini_ok_def section_lines_def ini_line_def ini_room_def)
qed

lemma lines_get:
  assumes "ini_ok ini" "CHR '';'' \<notin> set k"
  shows "(case frame_in (lowerString s) (concat (map section_lines ini)) of None \<Rightarrow> [] | Some ms \<Rightarrow> item_in (lowerString k) ms)
    = ini_get ini s k"
  using assms(1)
proof (induction ini)
  case (Cons sec ini)
  then have sec: "CHR '']'' \<notin> set (fst sec)" "list_all entry_ok (snd sec)" and rest: "ini_ok ini"
    by (auto simp: ini_ok_def)
  have d: "CHR '';'' \<notin> set (lowerString k)" using assms(2) by (simp add: lower_semicolon)
  show ?case
    using Cons.IH [OF rest] item_in_section [OF sec(2) d section_starts [OF rest]]
    by (simp add: frame_in_section [OF sec] ini_get_def)
qed (simp add: ini_get_def)

text \<open>
  C40. Writing settings into a file and reading them back. For a file of sections, items, comments and blank lines the reader
  returns what the file says, whatever the case of the names; so the configuration that the server loads from the file
  is the one that is written in it.
\<close>

theorem ini_file_roundtrip:
  assumes "patterns_ok P" "ini_ok ini"
  shows "(\<forall>s k. CHR '';'' \<notin> set k \<longrightarrow> ReadStringFromIniFile P (Some (render ini)) s k = ini_get ini s k)
    \<and> load_config (ReadStringFromIniFile P (Some (render ini))) tcast cast = load_config (ini_get ini) tcast cast"
proof -
  have read: "ReadStringFromIniFile P (Some (render ini)) s k = ini_get ini s k" if "CHR '';'' \<notin> set k" for s k
    using lines_get [OF assms(2) that] read_lines [OF assms(1) ini_lines [OF assms(2)]] by (simp add: render_def)
  then have "getValue (ReadStringFromIniFile P (Some (render ini))) f s k = getValue (ini_get ini) f s k"
    if "CHR '';'' \<notin> set k" for f :: "string \<Rightarrow> string option" and s k
    using that by (simp add: getValue_def)
  moreover have "getValue (ReadStringFromIniFile P (Some (render ini))) f s k = getValue (ini_get ini) f s k"
    if "CHR '';'' \<notin> set k" for f :: "string \<Rightarrow> int option" and s k
    using read that by (simp add: getValue_def)
  ultimately have "load_config (ReadStringFromIniFile P (Some (render ini))) tcast cast = load_config (ini_get ini) tcast cast"
    by (simp add: load_config_def cong: option.case_cong)
  with read show ?thesis by blast
qed

definition demo_ini :: ini where
  "demo_ini =
     [(''GLOG'', [Comment ''INFO = 0'', Item ''glog_logtostderr'' ''1'', Blank]),
      (''SERVER'', [Item ''service_port'' ''9999'', Item ''service_thread_num'' ''1'', Item ''enable_print_request'' ''0'', Blank]),
      (''COMMON'', [Item ''Default'' ''30''])]"

theorem ini_file_roundtrip_witness:
  "ReadStringFromIniFile the_patterns (Some (render demo_ini)) ''server'' ''SERVICE_PORT'' = ''9999''"
proof -
  have "ini_ok demo_ini" by (simp add: ini_ok_def demo_ini_def comment_ok_def ini_room_def) (auto simp: plain_def space_def)
  moreover have "ini_get demo_ini ''server'' ''SERVICE_PORT'' = ''9999''"
    by (simp add: ini_get_def demo_ini_def lowerString_def) code_simp
  ultimately show ?thesis
    using ini_file_roundtrip [OF the_patterns_ok, of demo_ini "\<lambda>_. None" "\<lambda>_. None"] by simp
qed

text \<open>A comment that has a blank behind its semicolon is read as the item it mentions, and brackets in a value as a section.\<close>

lemma comment_is_read:
  "find_item the_patterns ''port'' (text_of [''; port = 80'', ''port = 9999'']) = ''80''"
  by code_simp

lemma value_is_section:
  "ReadStringFromIniFile the_patterns (Some (text_of [''list = [a]'', ''b = 1'', ''[a]'', ''b = 2''])) ''a'' ''b'' = ''1''"
  by code_simp

end
