(* ===== verification/Unique_Pointers.thy ===== *)
theory Unique_Pointers
  imports Main
begin

text \<open>
  \<open>test_unique_prt\<close> of \<^verbatim>\<open>src/c++11/01.smartPointer.cpp\<close>: pointers that own what they point to. The state has
  the objects with those that are not deleted yet, the variables, and the plain pointer \<open>p\<close> that \<open>release\<close> fills.
\<close>

record owners =
  obj_values :: "int list"
  alive :: "nat set"
  ups :: "nat \<Rightarrow> nat option"
  plain_p :: "nat option"
  shown :: "int list"

datatype unique_op =
  U_new nat int | U_move nat nat | U_reset nat | U_reset_new nat int | U_release nat | U_delete | U_show nat | U_show_plain

definition no_owners :: owners where
  "no_owners = \<lparr>obj_values = [], alive = {}, ups = (\<lambda>_. None), plain_p = None, shown = []\<rparr>"

text \<open>\<open>delete\<close>; of an object that is deleted already it is undefined, and of a null pointer it does nothing.\<close>

definition delete_object :: "nat option \<Rightarrow> owners \<Rightarrow> owners option" where
  "delete_object x s =
     (case x of None \<Rightarrow> Some s | Some k \<Rightarrow> if k \<in> alive s then Some (s\<lparr>alive := alive s - {k}\<rparr>) else None)"

text \<open>A variable gets a new pointer, and then the object it owned is deleted.\<close>

definition reset_to :: "nat \<Rightarrow> nat option \<Rightarrow> owners \<Rightarrow> owners option" where
  "reset_to v x s = delete_object (ups s v) (s\<lparr>ups := (ups s)(v := x)\<rparr>)"

definition make_object :: "int \<Rightarrow> owners \<Rightarrow> nat \<times> owners" where
  "make_object n s =
     (length (obj_values s), s\<lparr>obj_values := obj_values s @ [n], alive := insert (length (obj_values s)) (alive s)\<rparr>)"

definition show_object :: "nat option \<Rightarrow> owners \<Rightarrow> owners option" where
  "show_object x s =
     (case x of
        None \<Rightarrow> None
      | Some k \<Rightarrow> if k \<in> alive s then Some (s\<lparr>shown := shown s @ [obj_values s ! k]\<rparr>) else None)"

text \<open>The move constructor and \<open>reset\<close> of the moved pointer; a variable is declared once, so it owns nothing before.\<close>

fun unique_act :: "unique_op \<Rightarrow> owners \<Rightarrow> owners option" where
  "unique_act (U_new v n) s = (case make_object n s of (k, s') \<Rightarrow> reset_to v (Some k) s')"
| "unique_act (U_move v w) s = reset_to v (ups s w) (s\<lparr>ups := (ups s)(w := None)\<rparr>)"
| "unique_act (U_reset v) s = reset_to v None s"
| "unique_act (U_reset_new v n) s = (case make_object n s of (k, s') \<Rightarrow> reset_to v (Some k) s')"
| "unique_act (U_release v) s = Some (s\<lparr>ups := (ups s)(v := None), plain_p := ups s v\<rparr>)"
| "unique_act U_delete s = delete_object (plain_p s) s"
| "unique_act (U_show v) s = show_object (ups s v) s"
| "unique_act U_show_plain s = show_object (plain_p s) s"

fun unique_run :: "unique_op list \<Rightarrow> owners \<Rightarrow> owners option" where
  "unique_run [] s = Some s"
| "unique_run (op # ops) s = (case unique_act op s of None \<Rightarrow> None | Some s' \<Rightarrow> unique_run ops s')"

text \<open>The function: the variables 1 to 5 are \<open>up1\<close> to \<open>up5\<close>, and at its end they are destroyed, the last first.\<close>

definition test_unique_ptr :: "unique_op list" where
  "test_unique_ptr =
     [U_new 1 11, U_show 1, U_move 3 1, U_show 3, U_reset 3, U_reset 1, U_new 4 22, U_reset_new 4 44, U_show 4, U_reset 4,
      U_new 5 55, U_release 5, U_show_plain, U_delete]"

definition destroy_all :: "nat list \<Rightarrow> unique_op list" where
  "destroy_all vs = map U_reset vs"

section \<open>One owner for every object\<close>

definition owned_once :: "owners \<Rightarrow> bool" where
  "owned_once s \<longleftrightarrow>
     (\<forall>v k. ups s v = Some k \<longrightarrow> k \<in> alive s \<and> plain_p s \<noteq> Some k)
     \<and> (\<forall>v w k. ups s v = Some k \<and> ups s w = Some k \<longrightarrow> v = w) \<and> (\<forall>k\<in>alive s. k < length (obj_values s))
     \<and> (\<forall>k. plain_p s = Some k \<longrightarrow> k < length (obj_values s))"

lemma reset_to_owned:
  assumes "owned_once s" "x = None \<or> (\<exists>k. x = Some k \<and> k \<in> alive s \<and> plain_p s \<noteq> x \<and> (\<forall>w. ups s w \<noteq> x))"
  shows "\<exists>t. reset_to v x s = Some t \<and> owned_once t"
  using assms unfolding reset_to_def delete_object_def owned_once_def
  by (cases "ups s v") (auto split: if_splits)

lemma make_object_owned:
  assumes "owned_once s" "make_object n s = (k, s')"
  shows "owned_once s' \<and> k \<in> alive s' \<and> plain_p s' \<noteq> Some k \<and> (\<forall>w. ups s' w \<noteq> Some k)"
  using assms unfolding make_object_def owned_once_def by (auto simp: less_Suc_eq)

text \<open>
  Only the plain pointer and a null pointer can be used wrongly: an operation on the variables alone never deletes an
  object twice and never leaves a variable that points to a deleted object.
\<close>

theorem unique_act_safe:
  assumes "owned_once s"
  shows "case unique_act op s of
      Some t \<Rightarrow> owned_once t
    | None \<Rightarrow> (case op of
        U_show v \<Rightarrow> ups s v = None
      | U_show_plain \<Rightarrow> plain_p s = None \<or> the (plain_p s) \<notin> alive s
      | U_delete \<Rightarrow> plain_p s \<noteq> None \<and> the (plain_p s) \<notin> alive s
      | _ \<Rightarrow> False)"
proof -
  have new: "\<exists>t. (case make_object n s of (k, s') \<Rightarrow> reset_to v (Some k) s') = Some t \<and> owned_once t" for v n
  proof -
    obtain k s' where m: "make_object n s = (k, s')" by (cases "make_object n s")
    show ?thesis using make_object_owned [OF assms m] reset_to_owned [of s' "Some k" v] m by auto
  qed
  show ?thesis
  proof (cases op)
    case (U_new v n)
    then show ?thesis using new [of v n] by auto
  next
    case (U_move v w)
    have "owned_once (s\<lparr>ups := (ups s)(w := None)\<rparr>)" using assms by (auto simp: owned_once_def)
    moreover have "ups s w = None \<or> (\<exists>k. ups s w = Some k \<and> k \<in> alive s \<and> plain_p s \<noteq> ups s w \<and> (\<forall>u. ((ups s)(w := None)) u \<noteq> ups s w))"
      using assms by (cases "ups s w") (auto simp: owned_once_def)
    ultimately show ?thesis using reset_to_owned [of "s\<lparr>ups := (ups s)(w := None)\<rparr>" "ups s w" v] U_move by auto
  next
    case (U_reset v)
    then show ?thesis using reset_to_owned [OF assms, of None v] by auto
  next
    case (U_reset_new v n)
    then show ?thesis using new [of v n] by auto
  next
    case (U_release v)
    then show ?thesis using assms by (auto simp: owned_once_def)
  next
    case U_delete
    then show ?thesis using assms by (auto simp: delete_object_def owned_once_def split: option.splits)
  next
    case (U_show v)
    then show ?thesis using assms by (auto simp: show_object_def owned_once_def split: option.splits)
  next
    case U_show_plain
    then show ?thesis using assms by (auto simp: show_object_def owned_once_def split: option.splits)
  qed
qed

theorem unique_act_safe_witness: "owned_once no_owners \<and> unique_act (U_show 1) no_owners = None"
  using unique_act_safe [of no_owners "U_show 1"] by (simp add: owned_once_def no_owners_def show_object_def)

text \<open>When the variables have been destroyed, what is left is what was released and not deleted.\<close>

lemma reset_alive: "reset_to v None s = Some t \<Longrightarrow> alive t = alive s - {k. ups s v = Some k} \<and> ups t = (ups s)(v := None) \<and> plain_p t = plain_p s"
  by (auto simp: reset_to_def delete_object_def split: option.splits if_splits)

theorem destroy_all_leaves:
  "owned_once s \<Longrightarrow> \<exists>t. unique_run (destroy_all vs) s = Some t \<and> alive t = alive s - {k. \<exists>v\<in>set vs. ups s v = Some k}"
proof (induction vs arbitrary: s)
  case (Cons v vs)
  obtain u where u: "reset_to v None s = Some u" "owned_once u" using reset_to_owned [OF Cons.prems, of None v] by auto
  from Cons.IH [OF u(2)] obtain t where
    t: "unique_run (destroy_all vs) u = Some t" "alive t = alive u - {k. \<exists>w\<in>set vs. ups u w = Some k}" by blast
  have "alive u - {k. \<exists>w\<in>set vs. ups u w = Some k} = alive s - {k. \<exists>w\<in>set (v # vs). ups s w = Some k}"
    using reset_alive [OF u(1)] by (auto split: if_splits)
  with t u(1) show ?case by (simp add: destroy_all_def)
qed (simp add: destroy_all_def)

text \<open>The function prints 11, 11, 44 and 55, and leaves nothing behind.\<close>

lemma test_unique_ptr_prints:
  "\<exists>t. unique_run (test_unique_ptr @ destroy_all [5, 4, 3, 1]) no_owners = Some t \<and> shown t = [11, 11, 44, 55] \<and> alive t = {}"
  by (simp add: test_unique_ptr_def destroy_all_def no_owners_def make_object_def reset_to_def delete_object_def show_object_def)
    (auto simp: nth_append)

end
