(* ===== verification/Spec2Isabelle.thy ===== *)
theory Spec2Isabelle
  imports Http_Server Ad_Server LRU_Cache Invert_Table Exp_Config Producer_Consumer Thread_Pool Chat_Client
    Simple_Pool C_Thread_Pool Select_Server Poll_Server Epoll_Server Epoll_Echo Net_Demos Reactor Philosophers
    File_Copy String_Split Posting_Table String_Class Fork_Servers Asio_Echo Byte_Order Http_Client
    Simple_Reactor Document_Server Daytime Daemon Ipc Edge_Readers Singletons Timers Line_Clients Epoll_Client
    Mutex_Programs Smart_Pointers Datagrams Pool_Shutdown Small_Programs Blocking_Echo Net_Clients Ini_File Unique_Pointers
begin

text \<open>
  This development verifies the programs of a C and C++ learning repository: an HTTP server and an
  advertisement server on Boost.Asio, a chat server with its client, a cache, an inverted index, a text
  encoding converter, thread pools and producer/consumer programs in several styles, and socket servers on
  \<open>select\<close>, \<open>poll\<close> and \<open>epoll\<close> with their clients, and smaller programs on processes, threads, timers,
  files and pointers. The programs are independent of each other apart from
  the shared code named below; each is a group of theories, and this one imports them all.

  \<^bold>\<open>How programs are modelled.\<close> Structures are records, enumerations are datatypes, and every function or
  completion handler is one HOL function with the branches of the source, errors included. Characters are HOL's
  \<open>char\<close>; the plain \<open>char\<close> of the platform is signed, which \<open>Prelude\<close> spells out where a
  comparison depends on it. Machine integers that can wrap are words or are reduced where the code reduces
  them; \<open>size_t\<close> values that stay below the length of a list are natural numbers. Undefined behaviour
  (reading before it is written, indexing out of range, a division trap) is an outcome of its own: \<open>None\<close>,
  an error value, or a step that has no successor. Programs with threads or asynchronous handlers are step
  relations whose steps are the stretches of code that run under one lock or as one handler; a theorem about
  reachable states then covers every interleaving. What the operating system or a library returns is an argument:
  lists of answers of \<open>read\<close> and \<open>write\<close>, a map for the file system, functions for \<open>iconv\<close> and
  for the order of a hash table. \<open>Transition\<close> has the two interfaces these models share: the locale
  \<open>invariant_system\<close> for an inductive invariant and the locale \<open>simulation\<close>, which extends it, for
  a refinement between two systems. Every component with steps interprets them on its own relation, and its
  properties are read off the interpretation.

  \<^bold>\<open>The HTTP server\<close> (\<^verbatim>\<open>src/boost/http_server\<close>).
  \<open>Request_Parser\<close> has the state machine of \<^verbatim>\<open>request_parser.cpp\<close>: the record of the parser, one
  \<open>consume_*\<close> function per group of states, and \<open>parse\<close>. Its six scanning states are interpretations of
  one locale, \<open>scan_state\<close>. The parser is shown to accept exactly a grammar of request heads given separately,
  and never to touch a header that does not exist. \<open>Reply\<close>, \<open>Mime_Types\<close> and
  \<open>Request_Handler\<close> follow the files of the same names; the file system is a parameter, and the lemmas say
  which files can be opened and what is sent. \<open>Http_Server\<close> has connections, the connection manager and the
  server: the state is the set of connections with their buffers, the steps are the completion handlers and
  the two ways of stopping. Its theorems say that every connection answers what it was asked, however the bytes
  arrive, and that the manager holds exactly the open connections.

  \<^bold>\<open>The advertisement server\<close> (\<^verbatim>\<open>src/ad_system\<close>). \<open>Server3\<close> is
  its fork of that server: a parser that returns a tribool, a worker interface in place of the files, strands.
  Its parser is shown equivalent to the first one. \<open>Ad_Server\<close> adds the configuration, the request splitter and
  the worker, and composes them as \<open>StartService\<close> does; \<open>Ini_File\<close> has the settings file it reads and a round trip
  through it. \<open>Encode_Convert\<close> has the detection of
  UTF-8 and GBK and the conversion with its output buffer, also used by \<^verbatim>\<open>src/CharConvertTool\<close>.
  \<open>Http_Client\<close> has the two clients of the server, the asynchronous and the synchronous one, and runs them
  against the replies of \<open>Ad_Server\<close>.

  \<^bold>\<open>The chat programs\<close> (\<^verbatim>\<open>src/boost/3.chat_*\<close>). \<open>Chat_Message\<close> has the frame with its
  uninitialised array; \<open>Chat_Server\<close> refines the room with its sessions and write queues to a single log
  (an instance of \<open>simulation\<close>); \<open>Chat_Client\<close> composes a client with it.

  \<^bold>\<open>Other programs on Boost.Asio and libevent\<close> (\<^verbatim>\<open>src/boost\<close>, \<^verbatim>\<open>src/libevent\<close>). \<open>Asio_Echo\<close>
  has the asynchronous echo servers: the session, the memory of the handlers, and the server that forks.
  \<open>Daytime\<close> has the asynchronous daytime servers and the reference counted buffers, with the counts of the objects that the
  handlers share; \<open>Blocking_Echo\<close> and \<open>Datagrams\<close> have the blocking programs on TCP and UDP, each client
  put together with its server over a network that cuts, delays or loses. \<open>Timers\<close> has the programs
  that repeat a timer, the last with two timers on two threads and a strand. \<open>Document_Server\<close> has the callbacks of the
  two HTTP servers on libevent, with the paths they open and the buffers they write.

  \<^bold>\<open>Data structures.\<close> \<open>LRU_Cache\<close> (\<^verbatim>\<open>src/c++11/LRUCache.cpp\<close>)
  keeps the list, the map and the iterators, and provides the locale \<open>recency_cache\<close>. \<open>Invert_Table\<close>
  (\<^verbatim>\<open>src/invert\<close>) has the index, its creator and the two files it writes; \<open>Posting_Table\<close>
  (\<^verbatim>\<open>src/invert_table\<close>) has the older version of both with a second table beside it, and the locale
  \<open>posting_index\<close> that says what the creator relies on, which both tables provide. \<open>Exp_Config\<close>
  is the experiment configuration of \<^verbatim>\<open>exp.cpp\<close>. \<open>String_Split\<close> is \<^verbatim>\<open>src/stl/StringSplit.cpp\<close>.
  \<open>String_Class\<close> is a string class on an explicit heap, \<open>Byte_Order\<close> the conversion of byte orders and addresses,
  \<open>Smart_Pointers\<close> the programs on shared and weak pointers with the counts of every object, and \<open>Unique_Pointers\<close> those with one owner.

  \<^bold>\<open>Queues and threads.\<close> The locale \<open>bounded_queue\<close> of \<open>Bounded_Queue\<close> is provided by
  \<open>Ring_Buffer\<close> (\<^verbatim>\<open>src/produce_consume\<close>) and by \<open>Task_Queue\<close>
  (\<^verbatim>\<open>02_thread_pool\<close>). \<open>Producer_Consumer\<close> puts the four programs together from two
  roles, \<open>producer_role\<close> and \<open>consumer_role\<close>, by the locale \<open>item_program\<close>, which extends both.
  \<open>Thread_Pool\<close> has the C++ pools of \<^verbatim>\<open>src/zl_threadpool\<close>, \<open>C_Thread_Pool\<close> the pool with
  its managing thread on top of \<open>Task_Queue\<close>, and \<open>Simple_Pool\<close> the pool on the intrusive
  lists of \<open>Linked_List\<close>. \<open>Philosophers\<close> and \<open>File_Copy\<close> are small programs with processes and threads. \<open>Pool_Shutdown\<close>
  adds to the C++98 and C++03 pools how they stop, join and are destroyed. \<open>Singletons\<close> has the three ways to
  get the only instance, \<open>Mutex_Programs\<close> the programs on mutexes and guards, some of which unlock what they do not own.
  \<open>Daemon\<close> has becoming a daemon, \<open>Ipc\<close> the programs on semaphores, shared memory and pipes, and \<open>Small_Programs\<close>
  what else has a buffer or a loop.

  \<^bold>\<open>Socket servers\<close> (\<^verbatim>\<open>src/Linux_Net\<close>). \<open>Fd_Wrap\<close> has the wrappers of
  \<^verbatim>\<open>wrap.c\<close> over a script of the answers of \<open>read\<close> and \<open>write\<close>. \<open>Net_Kernel\<close> is the
  environment: descriptors, what clients have sent and been sent, and the documented behaviour of \<open>accept\<close>,
  \<open>select\<close>, \<open>poll\<close> and \<open>epoll_wait\<close>. \<open>Slot_Scan\<close> has what the servers with a table of clients
  share, with the locale \<open>slot_scan\<close> for their loop over it, which \<open>Select_Server\<close> and
  \<open>Poll_Server\<close> interpret on their own loops. \<open>Epoll_Server\<close>, \<open>Epoll_Echo\<close>,
  \<open>Net_Demos\<close>, \<open>Reactor\<close> and \<open>Simple_Reactor\<close> are the other servers on one thread.
  \<open>Fork_Servers\<close> has the servers with a process or a thread per connection; its locale \<open>reaper\<close> is what the parent's signal
  handler promises. \<open>Edge_Readers\<close> has the readers on edge-triggered \<open>epoll\<close>. The clients come with the loops of their
  servers: \<open>Line_Clients\<close> with that of \<open>Fork_Servers\<close>, \<open>Epoll_Client\<close> with that of \<open>Epoll_Echo\<close>,
  and \<open>Net_Clients\<close> has the rest, and the pair on a Unix socket.

  \<^bold>\<open>Termination and bounds.\<close> Loops over data are total functions, with a measure where the recursion is
  not structural. A loop that may not end is a partial function, whose value \<open>None\<close> is not returning, or a step
  relation with a measure that decreases; no fuel is used; a loop that never ends by itself is described for any number of turns. Buffers have the sizes of the source.
  The producer/consumer programs are proved for any size of the buffer from two and any number of items, which
  includes the constants of the source.

  \<^bold>\<open>Not modelled.\<close> Output to terminals and logs, unless a property is about it; the calls that create, bind and
  connect sockets and exit when they fail; parsing of command lines; clocks; memory that runs out. Files that only call a
  library, measure the machine or demonstrate a feature of the language have no behaviour of their own to verify.
  The manifest lists them with the reason: the entry points and the examples that submit tasks to the pools, the programs on
  serialisation, options, tests and benchmarks, the single timers, the process and memory experiments,
  the generated files of CMake, and the headers copied from libevent. Parts of a modelled program that are left out are
  named in its note there.
\<close>

end
